(* ===== verification/Prelude.thy ===== *)
theory Prelude
  imports Main
    "HOL-Library.Word"
    "HOL-Library.List_Lexorder"
    "HOL-Library.AList"
    "HOL-Library.Multiset"
    "HOL-Library.Monad_Syntax"
begin

text \<open>
  Shared vocabulary of the development: the machine types of the source, panics as
  \<^typ>\<open>'a option\<close>, the \<^verbatim>\<open>Vec\<close>, \<^verbatim>\<open>HashMap\<close> and \<^verbatim>\<open>HashSet\<close> operations of the Rust
  standard library that the source calls, and the generic list and map facts the
  component theories use.

  Conventions used throughout:
  \<^item> \<open>usize\<close> lengths and indices are \<^typ>\<open>nat\<close> (they are bounded by the size of an
    allocation, so they never wrap); where the source subtracts, the model either shows the
    guard that makes the subtraction exact or uses \<open>usize_sub\<close>, which panics;
  \<^item> \<open>u64\<close> values (hashes, clocks, deadlines) are \<^typ>\<open>64 word\<close>;
  \<^item> \<open>i64\<close> values are \<^typ>\<open>int\<close>, with the range written out where it matters;
  \<^item> a Rust panic (\<^verbatim>\<open>expect\<close>, an index out of range) is \<^const>\<open>None\<close> of an outer
    \<^typ>\<open>'a option\<close>; a computation that returns is \<^const>\<open>Some\<close>;
  \<^item> a \<^verbatim>\<open>Result\<close> is a sum, \<^const>\<open>Inl\<close> for \<^verbatim>\<open>Err\<close> and \<^const>\<open>Inr\<close> for \<^verbatim>\<open>Ok\<close>;
  \<^item> a method on \<^verbatim>\<open>&mut self\<close> returns the new value of \<^verbatim>\<open>self\<close> next to its result.
\<close>

section \<open>Machine types\<close>

type_synonym u8 = "8 word"
type_synonym u64 = "64 word"
type_synonym bytes = "u8 list"

text \<open>\<^verbatim>\<open>u64 as i64\<close> reinterprets the bits.\<close>

definition u64_as_i64 :: "u64 \<Rightarrow> int" where
  "u64_as_i64 w = sint w"

definition saturating_sub :: "u64 \<Rightarrow> u64 \<Rightarrow> u64" where
  "saturating_sub a b = (if a \<le> b then 0 else a - b)"

definition saturating_add :: "u64 \<Rightarrow> u64 \<Rightarrow> u64" where
  "saturating_add a b = (if a + b < a then -1 else a + b)"

definition USIZE_MAX :: nat where
  "USIZE_MAX = 2 ^ 64 - 1"

definition saturating_mul :: "nat \<Rightarrow> nat \<Rightarrow> nat" where
  "saturating_mul a b = min (a * b) USIZE_MAX"

text \<open>A byte string literal of the source.\<close>

definition ascii :: "string \<Rightarrow> bytes" where
  "ascii s = map (\<lambda>c. of_nat (of_char c)) s"

lemma ascii_code [code]: "ascii s = map (\<lambda>c. word_of_int (of_char c)) s"
  by (simp add: ascii_def of_nat_of_char of_int_of_char)

section \<open>Panics\<close>

definition usize_sub :: "nat \<Rightarrow> nat \<Rightarrow> nat option" where
  "usize_sub a b = (if b \<le> a then Some (a - b) else None)"

text \<open>\<^verbatim>\<open>Result::expect\<close> on the result of a method that also updates its receiver.\<close>

fun expect_ok :: "('e + 'a) \<times> 's \<Rightarrow> 's option" where
  "expect_ok (Inl e, s) = None"
| "expect_ok (Inr a, s) = Some s"

lemma usize_sub_Some [simp]: "b \<le> a \<Longrightarrow> usize_sub a b = Some (a - b)"
  by (simp add: usize_sub_def)

section \<open>Vec\<close>

definition vec_insert :: "nat \<Rightarrow> 'a \<Rightarrow> 'a list \<Rightarrow> 'a list option" where
  "vec_insert i v xs = (if i \<le> length xs then Some (take i xs @ v # drop i xs) else None)"

definition vec_remove :: "nat \<Rightarrow> 'a list \<Rightarrow> ('a \<times> 'a list) option" where
  "vec_remove i xs =
     (if i < length xs then Some (xs ! i, take i xs @ drop (Suc i) xs) else None)"

text \<open>\<^verbatim>\<open>Iterator::position\<close>.\<close>

fun position :: "('a \<Rightarrow> bool) \<Rightarrow> 'a list \<Rightarrow> nat option" where
  "position P [] = None"
| "position P (x # xs) = (if P x then Some 0 else map_option Suc (position P xs))"

lemma position_None: "position P xs = None \<longleftrightarrow> (\<forall>x\<in>set xs. \<not> P x)"
  by (induction xs) auto

lemma position_Some:
  "position P xs = Some i \<Longrightarrow> i < length xs \<and> P (xs ! i) \<and> (\<forall>j<i. \<not> P (xs ! j))"
proof (induction xs arbitrary: i)
  case Nil
  then show ?case by simp
next
  case (Cons x xs)
  show ?case
  proof (cases "P x")
    case True
    with Cons.prems show ?thesis by simp
  next
    case False
    with Cons.prems obtain k where k: "position P xs = Some k" "i = Suc k" by auto
    from Cons.IH [OF k(1)] False k(2) show ?thesis
      by (auto simp: nth_Cons split: nat.splits)
  qed
qed

text \<open>A loop that appends to a vector.\<close>

lemma foldl_append:
  "(\<And>x out. x \<in> set xs \<Longrightarrow> enc out x = out @ fb x) \<Longrightarrow> foldl enc out xs = out @ concat (map fb xs)"
  by (induction xs arbitrary: out) simp_all

lemma vec_insert_Some [simp]:
  "i \<le> length xs \<Longrightarrow> vec_insert i v xs = Some (take i xs @ v # drop i xs)"
  by (simp add: vec_insert_def)

lemma vec_remove_Some [simp]:
  "i < length xs \<Longrightarrow> vec_remove i xs = Some (xs ! i, take i xs @ drop (Suc i) xs)"
  by (simp add: vec_remove_def)


section \<open>Rotation\<close>

lemma replicate_diff_Cons: "n < m \<Longrightarrow> replicate (m - n) x = x # replicate (m - Suc n) x"
  by (metis Suc_diff_Suc replicate_Suc)

lemma replicate_diff_snoc: "n < m \<Longrightarrow> replicate (m - n) x = replicate (m - Suc n) x @ [x]"
  by (simp add: replicate_diff_Cons replicate_append_same)

lemma rotate_eq_replicate:
  assumes "rotate h es = replicate n x"
  shows "es = replicate n x"
proof -
  have "length es = n" using assms by (metis length_replicate length_rotate)
  moreover have "\<forall>y\<in>set es. y = x" using assms by (metis in_set_replicate set_rotate)
  ultimately show ?thesis by (metis replicate_eqI)
qed

lemma rotate_mod: "length xs = n \<Longrightarrow> rotate (k mod n) xs = rotate k xs"
  by (subst (2) rotate_conv_mod) simp

lemma mod_shift_less:
  fixes h i j n :: nat
  assumes "i < j" "j < n"
  shows "(h + i) mod n \<noteq> (h + j) mod n"
proof
  assume "(h + i) mod n = (h + j) mod n"
  then have "n dvd (h + j) - (h + i)"
    using assms by (subst mod_eq_dvd_iff_nat [symmetric]) auto
  then have "n dvd j - i" by simp
  with assms show False by (auto dest: dvd_imp_le)
qed

lemma mod_shift_eq_iff:
  fixes h i j n :: nat
  assumes "i < n" "j < n"
  shows "(h + i) mod n = (h + j) mod n \<longleftrightarrow> i = j"
  using assms mod_shift_less [of i j n h] mod_shift_less [of j i n h]
  by (metis nat_neq_iff)

lemma rotate_update:
  assumes "i < length xs"
  shows "rotate h (xs[(h + i) mod length xs := v]) = (rotate h xs)[i := v]"
proof (rule nth_equalityI)
  show "length (rotate h (xs[(h + i) mod length xs := v])) = length ((rotate h xs)[i := v])"
    by simp
next
  fix j
  assume "j < length (rotate h (xs[(h + i) mod length xs := v]))"
  then have j: "j < length xs" by simp
  then have "(h + j) mod length xs < length xs" by (intro mod_less_divisor) linarith
  with assms j show "rotate h (xs[(h + i) mod length xs := v]) ! j = (rotate h xs)[i := v] ! j"
    by (simp add: nth_rotate nth_list_update mod_shift_eq_iff)
qed

end
