(* ===== verification/F64.thy ===== *)
theory F64
  imports Prelude
begin

text \<open>
  The part of \<^verbatim>\<open>f64\<close> the object store uses, at the level of the IEEE-754 binary64 bit pattern:
  the total order \<^verbatim>\<open>total_cmp\<close>, the partial comparisons, addition with round-half-even,
  the saturating cast to \<^verbatim>\<open>i64\<close>, decimal parsing and printing; and the score and integer
  helpers of \<^verbatim>\<open>helpers.rs\<close> built on them.

  A finite number is the integer \<open>f64_fixed x\<close> times \<open>2 ^ -1074\<close>, so sums are exact integers
  and a single function \<open>f64_round\<close> performs every rounding.
\<close>

section \<open>Bit patterns\<close>

datatype f64 = F64 (f64_bits: u64)

definition f64_sign :: "f64 \<Rightarrow> bool" where
  "f64_sign x \<longleftrightarrow> 2 ^ 63 \<le> uint (f64_bits x)"

definition f64_mag :: "f64 \<Rightarrow> int" where
  "f64_mag x = uint (f64_bits x) mod 2 ^ 63"

definition f64_inf_mag :: int where
  "f64_inf_mag = 2047 * 2 ^ 52"

definition f64_make :: "bool \<Rightarrow> int \<Rightarrow> f64" where
  "f64_make s m = F64 (word_of_int (m + (if s then 2 ^ 63 else 0)))"

definition f64_is_nan :: "f64 \<Rightarrow> bool" where
  "f64_is_nan x \<longleftrightarrow> f64_inf_mag < f64_mag x"

definition f64_is_finite :: "f64 \<Rightarrow> bool" where
  "f64_is_finite x \<longleftrightarrow> f64_mag x < f64_inf_mag"

definition f64_zero :: f64 where
  "f64_zero = F64 0"

definition f64_nan :: f64 where
  "f64_nan = f64_make False (f64_inf_mag + 2 ^ 51)"

section \<open>Order\<close>

text \<open>
  \<^verbatim>\<open>total_cmp\<close> compares the patterns as signed integers after flipping the low 63 bits of the
  negative ones.
\<close>

definition f64_total_key :: "f64 \<Rightarrow> int" where
  "f64_total_key x = (if f64_sign x then - f64_mag x - 1 else f64_mag x)"

text \<open>The value order on patterns: both zeros compare equal.\<close>

definition f64_value_key :: "f64 \<Rightarrow> int" where
  "f64_value_key x = (if f64_sign x then - f64_mag x else f64_mag x)"

definition f64_le :: "f64 \<Rightarrow> f64 \<Rightarrow> bool" where
  "f64_le x y \<longleftrightarrow> \<not> f64_is_nan x \<and> \<not> f64_is_nan y \<and> f64_value_key x \<le> f64_value_key y"

definition f64_lt :: "f64 \<Rightarrow> f64 \<Rightarrow> bool" where
  "f64_lt x y \<longleftrightarrow> \<not> f64_is_nan x \<and> \<not> f64_is_nan y \<and> f64_value_key x < f64_value_key y"

lemma f64_uint_split: "uint (f64_bits x) = f64_mag x + (if f64_sign x then 2 ^ 63 else 0)"
proof -
  let ?u = "uint (f64_bits x)"
  have u: "?u < 2 ^ 64" "0 \<le> ?u" using uint_bounded [of "f64_bits x"] by simp_all
  have "?u mod 2 ^ 63 = ?u - 2 ^ 63" if "2 ^ 63 \<le> ?u"
  proof -
    have "?u mod 2 ^ 63 = (?u - 2 ^ 63) mod 2 ^ 63" by (rule minus_mod_self2 [symmetric])
    also have "\<dots> = ?u - 2 ^ 63" using that u by (intro mod_pos_pos_trivial) simp_all
    finally show ?thesis .
  qed
  moreover have "?u mod 2 ^ 63 = ?u" if "\<not> 2 ^ 63 \<le> ?u"
    using that u by (intro mod_pos_pos_trivial) simp_all
  ultimately show ?thesis by (simp add: f64_mag_def f64_sign_def)
qed

lemma f64_mag_nonneg: "0 \<le> f64_mag x"
  by (simp add: f64_mag_def)

lemma f64_total_key_inj: "f64_total_key x = f64_total_key y \<Longrightarrow> x = y"
proof -
  assume "f64_total_key x = f64_total_key y"
  moreover have "0 \<le> f64_mag x" "0 \<le> f64_mag y" by (simp_all add: f64_mag_nonneg)
  ultimately have "f64_sign x = f64_sign y" "f64_mag x = f64_mag y"
    by (auto simp: f64_total_key_def split: if_splits)
  then have "uint (f64_bits x) = uint (f64_bits y)" by (simp add: f64_uint_split)
  then have "f64_bits x = f64_bits y" by (rule word_uint_eqI)
  then show "x = y" by (cases x; cases y) simp
qed

instantiation f64 :: linorder
begin

definition less_eq_f64 :: "f64 \<Rightarrow> f64 \<Rightarrow> bool" where
  "less_eq_f64 x y \<longleftrightarrow> f64_total_key x \<le> f64_total_key y"

definition less_f64 :: "f64 \<Rightarrow> f64 \<Rightarrow> bool" where
  "less_f64 x y \<longleftrightarrow> f64_total_key x < f64_total_key y"

instance
  by standard (auto simp: less_eq_f64_def less_f64_def intro: f64_total_key_inj)

end

text \<open>Between numbers the total order refines the value order.\<close>

lemma f64_total_value_le: "x \<le> y \<Longrightarrow> f64_value_key x \<le> f64_value_key y"
proof -
  assume "x \<le> y"
  moreover have "0 \<le> f64_mag x" "0 \<le> f64_mag y" by (simp_all add: f64_mag_nonneg)
  ultimately show ?thesis
    by (auto simp: less_eq_f64_def f64_total_key_def f64_value_key_def split: if_splits)
qed

lemma f64_lt_total: "f64_lt x y \<Longrightarrow> x < y"
  using f64_total_value_le [of y x] by (auto simp: f64_lt_def not_le [symmetric])

lemma f64_not_nan_cases:
  "\<not> f64_is_nan x \<Longrightarrow> \<not> f64_is_nan y \<Longrightarrow> f64_le x y \<longleftrightarrow> \<not> f64_lt y x"
  by (auto simp: f64_le_def f64_lt_def)

section \<open>Rounding and addition\<close>

definition f64_fixed :: "f64 \<Rightarrow> int" where
  "f64_fixed x =
     (let e = f64_mag x div 2 ^ 52; frac = f64_mag x mod 2 ^ 52;
          a = (if e = 0 then frac else (2 ^ 52 + frac) * 2 ^ nat (e - 1))
      in if f64_sign x then - a else a)"

fun bit_length :: "int \<Rightarrow> nat" where
  "bit_length n = (if n \<le> 0 then 0 else Suc (bit_length (n div 2)))"

declare bit_length.simps [simp del]

text \<open>Round \<open>num / den\<close> units of \<open>2 ^ -1074\<close> to the nearest number, ties to even.\<close>

definition f64_round_mag :: "int \<Rightarrow> int \<Rightarrow> int" where
  "f64_round_mag num den =
     (let sh = bit_length (num div den) - 53;
          d = den * 2 ^ sh; q = num div d; r = num mod d;
          q' = (if d < 2 * r \<or> d = 2 * r \<and> odd q then q + 1 else q)
      in min (int sh * 2 ^ 52 + q') f64_inf_mag)"

definition f64_add :: "f64 \<Rightarrow> f64 \<Rightarrow> f64" where
  "f64_add x y =
     (if f64_is_nan x \<or> f64_is_nan y then f64_nan
      else if \<not> f64_is_finite x
      then if \<not> f64_is_finite y \<and> f64_sign x \<noteq> f64_sign y then f64_nan else x
      else if \<not> f64_is_finite y then y
      else let v = f64_fixed x + f64_fixed y
           in if v = 0 then f64_make (f64_sign x \<and> f64_sign y) 0
              else f64_make (v < 0) (f64_round_mag \<bar>v\<bar> 1))"

text \<open>\<^verbatim>\<open>fract() == 0.0\<close> on a finite number, and the saturating \<^verbatim>\<open>as i64\<close>.\<close>

definition f64_is_integral :: "f64 \<Rightarrow> bool" where
  "f64_is_integral x \<longleftrightarrow> f64_is_finite x \<and> f64_fixed x mod 2 ^ 1074 = 0"

definition f64_as_i64 :: "f64 \<Rightarrow> int" where
  "f64_as_i64 x =
     (if f64_is_nan x then 0
      else if \<not> f64_is_finite x then if f64_sign x then - (2 ^ 63) else 2 ^ 63 - 1
      else max (- (2 ^ 63)) (min (2 ^ 63 - 1)
             (if f64_sign x then - (\<bar>f64_fixed x\<bar> div 2 ^ 1074) else f64_fixed x div 2 ^ 1074)))"

section \<open>Decimal integers\<close>

definition digit_char :: "int \<Rightarrow> u8" where
  "digit_char d = word_of_int (48 + d)"

function nat_digits :: "int \<Rightarrow> bytes" where
  "nat_digits n = (if n < 10 then [digit_char n]
                   else nat_digits (n div 10) @ [digit_char (n mod 10)])"
  by pat_completeness auto
termination by (relation "measure nat") auto

declare nat_digits.simps [simp del]

text \<open>\<^verbatim>\<open>i64::to_string\<close>.\<close>

definition i64_to_string :: "int \<Rightarrow> bytes" where
  "i64_to_string v = (if v < 0 then 45 # nat_digits (- v) else nat_digits v)"

definition is_digit :: "u8 \<Rightarrow> bool" where
  "is_digit c \<longleftrightarrow> 48 \<le> c \<and> c \<le> 57"

definition digits_value :: "bytes \<Rightarrow> int" where
  "digits_value ds = foldl (\<lambda>acc c. 10 * acc + (uint c - 48)) 0 ds"

definition in_i64 :: "int \<Rightarrow> bool" where
  "in_i64 v \<longleftrightarrow> - (2 ^ 63) \<le> v \<and> v < 2 ^ 63"

text \<open>\<^verbatim>\<open>i64::checked_add\<close> and \<^verbatim>\<open>checked_mul\<close>; \<^verbatim>\<open>isize\<close> has the same width.\<close>

definition checked_add :: "int \<Rightarrow> int \<Rightarrow> int option" where
  "checked_add a b = (if in_i64 (a + b) then Some (a + b) else None)"

definition checked_mul :: "int \<Rightarrow> int \<Rightarrow> int option" where
  "checked_mul a b = (if in_i64 (a * b) then Some (a * b) else None)"

text \<open>
  \<^verbatim>\<open>str::parse::<i64>\<close>: an optional sign and at least one digit, within range. A byte that is
  not ASCII is no digit, so invalid UTF-8 is refused by the same test.
\<close>

definition parse_i64_bytes :: "bytes \<Rightarrow> unit + int" where
  "parse_i64_bytes s =
     (let neg = (case s of c # _ \<Rightarrow> c = 45 | [] \<Rightarrow> False);
          ds = (case s of c # rest \<Rightarrow> if c = 45 \<or> c = 43 then rest else s | [] \<Rightarrow> s);
          v = (if neg then - digits_value ds else digits_value ds)
      in if ds \<noteq> [] \<and> list_all is_digit ds \<and> in_i64 v then Inr v else Inl ())"

section \<open>Decimal fractions\<close>

text \<open>\<^verbatim>\<open>str::parse::<f64>\<close>: sign, then a special name or a decimal number with an exponent.\<close>

definition lower_ascii :: "u8 \<Rightarrow> u8" where
  "lower_ascii c = (if 65 \<le> c \<and> c \<le> 90 then c + 32 else c)"

definition parse_exponent :: "bytes \<Rightarrow> int option" where
  "parse_exponent s =
     (case s of
        [] \<Rightarrow> Some 0
      | e # rest \<Rightarrow>
          if lower_ascii e \<noteq> 101 then None
          else let neg = (case rest of c # _ \<Rightarrow> c = 45 | [] \<Rightarrow> False);
                   ds = (case rest of c # r \<Rightarrow> if c = 45 \<or> c = 43 then r else rest | [] \<Rightarrow> rest)
               in if ds \<noteq> [] \<and> list_all is_digit ds
                  then Some (if neg then - digits_value ds else digits_value ds)
                  else None)"

definition decimal_mag :: "int \<Rightarrow> int \<Rightarrow> int" where
  "decimal_mag m e =
     (if m = 0 then 0
      else if 0 \<le> e then f64_round_mag (m * 10 ^ nat e * 2 ^ 1074) 1
      else f64_round_mag (m * 2 ^ 1074) (10 ^ nat (- e)))"

definition parse_decimal :: "bytes \<Rightarrow> int option" where
  "parse_decimal s =
     (let ip = takeWhile is_digit s; s1 = dropWhile is_digit s;
          fp = (case s1 of c # r \<Rightarrow> if c = 46 then takeWhile is_digit r else [] | [] \<Rightarrow> []);
          s2 = (case s1 of c # r \<Rightarrow> if c = 46 then dropWhile is_digit r else s1 | [] \<Rightarrow> s1)
      in if ip = [] \<and> fp = [] then None
         else map_option (\<lambda>e. decimal_mag (digits_value (ip @ fp)) (e - int (length fp)))
                (parse_exponent s2))"

definition f64_from_str :: "bytes \<Rightarrow> f64 option" where
  "f64_from_str s =
     (let neg = (case s of c # _ \<Rightarrow> c = 45 | [] \<Rightarrow> False);
          body = (case s of c # rest \<Rightarrow> if c = 45 \<or> c = 43 then rest else s | [] \<Rightarrow> s);
          name = map lower_ascii body
      in if name = ascii ''inf'' \<or> name = ascii ''infinity'' then Some (f64_make neg f64_inf_mag)
         else if name = ascii ''nan'' then Some (f64_make neg (f64_inf_mag + 2 ^ 51))
         else map_option (f64_make neg) (parse_decimal body))"

definition parse_f64_bytes :: "bytes \<Rightarrow> unit + f64" where
  "parse_f64_bytes s =
     (case f64_from_str s of
        None \<Rightarrow> Inl ()
      | Some v \<Rightarrow> if f64_is_finite v then Inr v else Inl ())"

text \<open>
  \<^verbatim>\<open>Display\<close> for \<^verbatim>\<open>f64\<close>: the fewest decimal digits that read back as the same number, the
  nearest such decimal when there are several, in positional notation. Seventeen digits
  always suffice.
\<close>

fun frac_exponent :: "nat \<Rightarrow> int \<Rightarrow> int" where
  "frac_exponent 0 a = 0"
| "frac_exponent (Suc fuel) a = (if 2 ^ 1074 \<le> a then 0 else frac_exponent fuel (10 * a) - 1)"

definition decimal_exponent :: "int \<Rightarrow> int" where
  "decimal_exponent a =
     (if 2 ^ 1074 \<le> a then int (length (nat_digits (a div 2 ^ 1074))) - 1
      else frac_exponent 324 a)"

definition display_candidates :: "int \<Rightarrow> int \<Rightarrow> int list" where
  "display_candidates a k =
     (let num = (if 0 \<le> k then a else a * 10 ^ nat (- k));
          den = (if 0 \<le> k then 2 ^ 1074 * 10 ^ nat k else 2 ^ 1074);
          lo = num div den;
          near = (if 2 * (num mod den) \<le> den then [lo, lo + 1] else [lo + 1, lo])
      in near)"

fun shortest_digits :: "nat \<Rightarrow> nat \<Rightarrow> int \<Rightarrow> int \<Rightarrow> int \<Rightarrow> (int \<times> int)" where
  "shortest_digits 0 n mag a p = (0, 0)"
| "shortest_digits (Suc fuel) n mag a p =
     (let k = p - int n + 1 in
      case filter (\<lambda>d. decimal_mag d k = mag) (display_candidates a k) of
        d # _ \<Rightarrow> (d, k)
      | [] \<Rightarrow> shortest_digits fuel (Suc n) mag a p)"

definition strip_zeros :: "bytes \<Rightarrow> bytes" where
  "strip_zeros ds = rev (dropWhile (\<lambda>c. c = 48) (rev ds))"

definition positional :: "int \<Rightarrow> int \<Rightarrow> bytes" where
  "positional d k =
     (let ds = nat_digits d; n = int (length ds)
      in if 0 \<le> k then ds @ replicate (nat k) 48
         else let point = nat (n + k);
                  whole = (if 0 < n + k then take point ds else [48]);
                  frac = strip_zeros (if 0 < n + k then drop point ds
                                      else replicate (nat (- (n + k))) 48 @ ds)
              in if frac = [] then whole else whole @ 46 # frac)"

definition f64_to_string :: "f64 \<Rightarrow> bytes" where
  "f64_to_string x =
     (if f64_is_nan x then ascii ''NaN''
      else (if f64_sign x then [45] else []) @
           (if \<not> f64_is_finite x then ascii ''inf''
            else if f64_mag x = 0 then [48]
            else let a = \<bar>f64_fixed x\<bar>; p = decimal_exponent a;
                     (d, k) = shortest_digits 17 1 (f64_mag x) a p
                 in positional d k))"

section \<open>Scores\<close>

definition format_score :: "f64 \<Rightarrow> bytes" where
  "format_score score =
     (if f64_is_integral score then i64_to_string (f64_as_i64 score)
      else f64_to_string score)"

section \<open>Round trip of decimal integers\<close>

lemma digit_byte:
  assumes "0 \<le> d" "d < 10"
  shows "is_digit (digit_char d)" "uint (digit_char d) = 48 + d"
proof -
  show u: "uint (digit_char d) = 48 + d"
    unfolding digit_char_def
    by (subst uint_word_of_int, subst mod_pos_pos_trivial) (use assms in simp_all)
  then show "is_digit (digit_char d)"
    using assms by (simp add: is_digit_def word_le_def)
qed

lemma digits_value_snoc: "digits_value (ds @ [c]) = 10 * digits_value ds + (uint c - 48)"
  by (simp add: digits_value_def)

lemma nat_digits_value:
  "0 \<le> n \<Longrightarrow> digits_value (nat_digits n) = n \<and> list_all is_digit (nat_digits n) \<and> nat_digits n \<noteq> []"
proof (induction n rule: nat_digits.induct)
  case (1 n)
  show ?case
  proof (cases "n < 10")
    case True
    with 1(2) show ?thesis
      by (simp add: nat_digits.simps [of n] digits_value_def digit_byte)
  next
    case False
    with 1 have "digits_value (nat_digits (n div 10)) = n div 10" "list_all is_digit (nat_digits (n div 10))"
      by simp_all
    with False 1(2) show ?thesis
      by (simp add: nat_digits.simps [of n] digits_value_snoc digit_byte)
  qed
qed

lemma nat_digits_head:
  assumes "0 \<le> n"
  obtains c cs where "nat_digits n = c # cs" "is_digit c"
  using nat_digits_value [OF assms] by (cases "nat_digits n") auto

lemma is_digit_not_sign: "is_digit c \<Longrightarrow> c \<noteq> 45 \<and> c \<noteq> 43"
  by (auto simp: is_digit_def)

lemma parse_i64_to_string:
  assumes "in_i64 v"
  shows "parse_i64_bytes (i64_to_string v) = Inr v"
proof (cases "v < 0")
  case True
  with assms nat_digits_value [of "- v"] show ?thesis
    by (simp add: parse_i64_bytes_def i64_to_string_def Let_def)
next
  case False
  then have "0 \<le> v" by simp
  then obtain c cs where c: "nat_digits v = c # cs" "is_digit c" by (rule nat_digits_head)
  with False assms nat_digits_value [OF \<open>0 \<le> v\<close>] is_digit_not_sign [OF c(2)] show ?thesis
    by (simp add: parse_i64_bytes_def i64_to_string_def Let_def)
qed

lemma parse_i64_in_range: "parse_i64_bytes s = Inr v \<Longrightarrow> in_i64 v"
  by (auto simp: parse_i64_bytes_def Let_def split: if_splits)

text \<open>An integral score is printed through a cast to 64 bits, which saturates: the score \<open>2 ^ 64\<close> is printed as \<open>2 ^ 63 - 1\<close>.\<close>

lemma format_score_saturates: "format_score (F64 0x43F0000000000000) = ascii ''9223372036854775807''"
  by code_simp

end
