(* ===== verification/FastOpcodes.thy ===== *)
theory FastOpcodes
  imports F64
begin

text \<open>
  The command opcodes of the native binary protocol (\<^verbatim>\<open>protocol/fast.rs\<close>): the enumeration of the command kinds, the table of
  Redis names, the conversions between opcodes, kinds and names, and the keys that a Redis command is routed by.

  \<^verbatim>\<open>FastCommandKind\<close> is \<^verbatim>\<open>#[repr(u8)]\<close>, so a kind is its discriminant; the variants are abbreviations, and \<open>from_opcode\<close> gives the
  discriminants that exist. \<^verbatim>\<open>Vec::with_capacity\<close> panics when the size overflows, so \<open>redis_route_keys\<close> may panic.

  Shown: opcodes, kinds and Redis names correspond one to one; the routing keys are arguments of the command.
\<close>

section \<open>Command kinds\<close>

datatype fast_command_kind = Kind (discriminant: u8)

abbreviation KGet :: fast_command_kind where
  "KGet \<equiv> Kind 1"

abbreviation KSet :: fast_command_kind where
  "KSet \<equiv> Kind 2"

abbreviation KSetEx :: fast_command_kind where
  "KSetEx \<equiv> Kind 3"

abbreviation KGetEx :: fast_command_kind where
  "KGetEx \<equiv> Kind 4"

abbreviation KDelete :: fast_command_kind where
  "KDelete \<equiv> Kind 5"

abbreviation KExists :: fast_command_kind where
  "KExists \<equiv> Kind 6"

abbreviation KTtl :: fast_command_kind where
  "KTtl \<equiv> Kind 7"

abbreviation KExpire :: fast_command_kind where
  "KExpire \<equiv> Kind 8"

abbreviation KPing :: fast_command_kind where
  "KPing \<equiv> Kind 9"

abbreviation KMGet :: fast_command_kind where
  "KMGet \<equiv> Kind 10"

abbreviation KMSet :: fast_command_kind where
  "KMSet \<equiv> Kind 11"

abbreviation KAppend :: fast_command_kind where
  "KAppend \<equiv> Kind 80"

abbreviation KBitCount :: fast_command_kind where
  "KBitCount \<equiv> Kind 81"

abbreviation KBitField :: fast_command_kind where
  "KBitField \<equiv> Kind 82"

abbreviation KBitOp :: fast_command_kind where
  "KBitOp \<equiv> Kind 83"

abbreviation KBitPos :: fast_command_kind where
  "KBitPos \<equiv> Kind 84"

abbreviation KDecr :: fast_command_kind where
  "KDecr \<equiv> Kind 85"

abbreviation KDecrBy :: fast_command_kind where
  "KDecrBy \<equiv> Kind 86"

abbreviation KGetBit :: fast_command_kind where
  "KGetBit \<equiv> Kind 87"

abbreviation KGetDel :: fast_command_kind where
  "KGetDel \<equiv> Kind 88"

abbreviation KGetRange :: fast_command_kind where
  "KGetRange \<equiv> Kind 89"

abbreviation KGetSet :: fast_command_kind where
  "KGetSet \<equiv> Kind 90"

abbreviation KIncr :: fast_command_kind where
  "KIncr \<equiv> Kind 91"

abbreviation KIncrBy :: fast_command_kind where
  "KIncrBy \<equiv> Kind 92"

abbreviation KIncrByFloat :: fast_command_kind where
  "KIncrByFloat \<equiv> Kind 93"

abbreviation KMSetNx :: fast_command_kind where
  "KMSetNx \<equiv> Kind 94"

abbreviation KPSetEx :: fast_command_kind where
  "KPSetEx \<equiv> Kind 95"

abbreviation KSetBit :: fast_command_kind where
  "KSetBit \<equiv> Kind 96"

abbreviation KSetNx :: fast_command_kind where
  "KSetNx \<equiv> Kind 97"

abbreviation KSetRange :: fast_command_kind where
  "KSetRange \<equiv> Kind 98"

abbreviation KStrLen :: fast_command_kind where
  "KStrLen \<equiv> Kind 99"

abbreviation KAuth :: fast_command_kind where
  "KAuth \<equiv> Kind 60"

abbreviation KHello :: fast_command_kind where
  "KHello \<equiv> Kind 61"

abbreviation KSelect :: fast_command_kind where
  "KSelect \<equiv> Kind 62"

abbreviation KQuit :: fast_command_kind where
  "KQuit \<equiv> Kind 63"

abbreviation KEcho :: fast_command_kind where
  "KEcho \<equiv> Kind 64"

abbreviation KInfo :: fast_command_kind where
  "KInfo \<equiv> Kind 65"

abbreviation KCommand :: fast_command_kind where
  "KCommand \<equiv> Kind 66"

abbreviation KCommandDocs :: fast_command_kind where
  "KCommandDocs \<equiv> Kind 67"

abbreviation KConfigGet :: fast_command_kind where
  "KConfigGet \<equiv> Kind 68"

abbreviation KDbSize :: fast_command_kind where
  "KDbSize \<equiv> Kind 69"

abbreviation KTime :: fast_command_kind where
  "KTime \<equiv> Kind 70"

abbreviation KClientGetName :: fast_command_kind where
  "KClientGetName \<equiv> Kind 71"

abbreviation KClientSetName :: fast_command_kind where
  "KClientSetName \<equiv> Kind 72"

abbreviation KClientId :: fast_command_kind where
  "KClientId \<equiv> Kind 73"

abbreviation KClientList :: fast_command_kind where
  "KClientList \<equiv> Kind 74"

abbreviation KClientKill :: fast_command_kind where
  "KClientKill \<equiv> Kind 75"

abbreviation KConfig :: fast_command_kind where
  "KConfig \<equiv> Kind 76"

abbreviation KClient :: fast_command_kind where
  "KClient \<equiv> Kind 77"

abbreviation KFlushAll :: fast_command_kind where
  "KFlushAll \<equiv> Kind 78"

abbreviation KFlushDb :: fast_command_kind where
  "KFlushDb \<equiv> Kind 79"

abbreviation KHSet :: fast_command_kind where
  "KHSet \<equiv> Kind 20"

abbreviation KHGet :: fast_command_kind where
  "KHGet \<equiv> Kind 21"

abbreviation KHDel :: fast_command_kind where
  "KHDel \<equiv> Kind 22"

abbreviation KHLen :: fast_command_kind where
  "KHLen \<equiv> Kind 23"

abbreviation KHMGet :: fast_command_kind where
  "KHMGet \<equiv> Kind 24"

abbreviation KHExists :: fast_command_kind where
  "KHExists \<equiv> Kind 140"

abbreviation KHGetAll :: fast_command_kind where
  "KHGetAll \<equiv> Kind 141"

abbreviation KHIncrBy :: fast_command_kind where
  "KHIncrBy \<equiv> Kind 142"

abbreviation KHIncrByFloat :: fast_command_kind where
  "KHIncrByFloat \<equiv> Kind 143"

abbreviation KHKeys :: fast_command_kind where
  "KHKeys \<equiv> Kind 144"

abbreviation KHMSet :: fast_command_kind where
  "KHMSet \<equiv> Kind 145"

abbreviation KHRandField :: fast_command_kind where
  "KHRandField \<equiv> Kind 146"

abbreviation KHScan :: fast_command_kind where
  "KHScan \<equiv> Kind 147"

abbreviation KHSetNx :: fast_command_kind where
  "KHSetNx \<equiv> Kind 148"

abbreviation KHStrLen :: fast_command_kind where
  "KHStrLen \<equiv> Kind 149"

abbreviation KHVals :: fast_command_kind where
  "KHVals \<equiv> Kind 150"

abbreviation KLPush :: fast_command_kind where
  "KLPush \<equiv> Kind 30"

abbreviation KRPush :: fast_command_kind where
  "KRPush \<equiv> Kind 31"

abbreviation KLPop :: fast_command_kind where
  "KLPop \<equiv> Kind 32"

abbreviation KRPop :: fast_command_kind where
  "KRPop \<equiv> Kind 33"

abbreviation KLLen :: fast_command_kind where
  "KLLen \<equiv> Kind 34"

abbreviation KLIndex :: fast_command_kind where
  "KLIndex \<equiv> Kind 35"

abbreviation KLRange :: fast_command_kind where
  "KLRange \<equiv> Kind 36"

abbreviation KBLMove :: fast_command_kind where
  "KBLMove \<equiv> Kind 160"

abbreviation KBLMPop :: fast_command_kind where
  "KBLMPop \<equiv> Kind 161"

abbreviation KBLPop :: fast_command_kind where
  "KBLPop \<equiv> Kind 162"

abbreviation KBRPop :: fast_command_kind where
  "KBRPop \<equiv> Kind 163"

abbreviation KLInsert :: fast_command_kind where
  "KLInsert \<equiv> Kind 164"

abbreviation KLMove :: fast_command_kind where
  "KLMove \<equiv> Kind 165"

abbreviation KLMPop :: fast_command_kind where
  "KLMPop \<equiv> Kind 166"

abbreviation KLPushX :: fast_command_kind where
  "KLPushX \<equiv> Kind 167"

abbreviation KLRem :: fast_command_kind where
  "KLRem \<equiv> Kind 168"

abbreviation KLSet :: fast_command_kind where
  "KLSet \<equiv> Kind 169"

abbreviation KLTrim :: fast_command_kind where
  "KLTrim \<equiv> Kind 170"

abbreviation KRPopLPush :: fast_command_kind where
  "KRPopLPush \<equiv> Kind 171"

abbreviation KRPushX :: fast_command_kind where
  "KRPushX \<equiv> Kind 172"

abbreviation KBRPopLPush :: fast_command_kind where
  "KBRPopLPush \<equiv> Kind 173"

abbreviation KSAdd :: fast_command_kind where
  "KSAdd \<equiv> Kind 40"

abbreviation KSRem :: fast_command_kind where
  "KSRem \<equiv> Kind 41"

abbreviation KSIsMember :: fast_command_kind where
  "KSIsMember \<equiv> Kind 42"

abbreviation KSCard :: fast_command_kind where
  "KSCard \<equiv> Kind 43"

abbreviation KSMembers :: fast_command_kind where
  "KSMembers \<equiv> Kind 44"

abbreviation KSDiff :: fast_command_kind where
  "KSDiff \<equiv> Kind 180"

abbreviation KSDiffStore :: fast_command_kind where
  "KSDiffStore \<equiv> Kind 181"

abbreviation KSInter :: fast_command_kind where
  "KSInter \<equiv> Kind 182"

abbreviation KSInterStore :: fast_command_kind where
  "KSInterStore \<equiv> Kind 183"

abbreviation KSMIsMember :: fast_command_kind where
  "KSMIsMember \<equiv> Kind 184"

abbreviation KSMove :: fast_command_kind where
  "KSMove \<equiv> Kind 185"

abbreviation KSPop :: fast_command_kind where
  "KSPop \<equiv> Kind 186"

abbreviation KSRandMember :: fast_command_kind where
  "KSRandMember \<equiv> Kind 187"

abbreviation KSScan :: fast_command_kind where
  "KSScan \<equiv> Kind 188"

abbreviation KSUnion :: fast_command_kind where
  "KSUnion \<equiv> Kind 189"

abbreviation KSUnionStore :: fast_command_kind where
  "KSUnionStore \<equiv> Kind 190"

abbreviation KZAdd :: fast_command_kind where
  "KZAdd \<equiv> Kind 50"

abbreviation KZRem :: fast_command_kind where
  "KZRem \<equiv> Kind 51"

abbreviation KZScore :: fast_command_kind where
  "KZScore \<equiv> Kind 52"

abbreviation KZCard :: fast_command_kind where
  "KZCard \<equiv> Kind 53"

abbreviation KZRange :: fast_command_kind where
  "KZRange \<equiv> Kind 54"

abbreviation KCopy :: fast_command_kind where
  "KCopy \<equiv> Kind 100"

abbreviation KDump :: fast_command_kind where
  "KDump \<equiv> Kind 101"

abbreviation KExpireAt :: fast_command_kind where
  "KExpireAt \<equiv> Kind 102"

abbreviation KExpireTime :: fast_command_kind where
  "KExpireTime \<equiv> Kind 103"

abbreviation KKeys :: fast_command_kind where
  "KKeys \<equiv> Kind 104"

abbreviation KMemory :: fast_command_kind where
  "KMemory \<equiv> Kind 105"

abbreviation KObject :: fast_command_kind where
  "KObject \<equiv> Kind 106"

abbreviation KPersist :: fast_command_kind where
  "KPersist \<equiv> Kind 107"

abbreviation KPExpire :: fast_command_kind where
  "KPExpire \<equiv> Kind 108"

abbreviation KPExpireAt :: fast_command_kind where
  "KPExpireAt \<equiv> Kind 109"

abbreviation KPExpireTime :: fast_command_kind where
  "KPExpireTime \<equiv> Kind 110"

abbreviation KPTtl :: fast_command_kind where
  "KPTtl \<equiv> Kind 111"

abbreviation KRandomKey :: fast_command_kind where
  "KRandomKey \<equiv> Kind 112"

abbreviation KRename :: fast_command_kind where
  "KRename \<equiv> Kind 113"

abbreviation KRenameNx :: fast_command_kind where
  "KRenameNx \<equiv> Kind 114"

abbreviation KRestore :: fast_command_kind where
  "KRestore \<equiv> Kind 115"

abbreviation KScan :: fast_command_kind where
  "KScan \<equiv> Kind 116"

abbreviation KTouch :: fast_command_kind where
  "KTouch \<equiv> Kind 117"

abbreviation KType :: fast_command_kind where
  "KType \<equiv> Kind 118"

abbreviation KUnlink :: fast_command_kind where
  "KUnlink \<equiv> Kind 119"

abbreviation KMulti :: fast_command_kind where
  "KMulti \<equiv> Kind 120"

abbreviation KExec :: fast_command_kind where
  "KExec \<equiv> Kind 121"

abbreviation KDiscard :: fast_command_kind where
  "KDiscard \<equiv> Kind 122"

abbreviation KWatch :: fast_command_kind where
  "KWatch \<equiv> Kind 123"

abbreviation KUnwatch :: fast_command_kind where
  "KUnwatch \<equiv> Kind 124"

abbreviation KRestoreAsking :: fast_command_kind where
  "KRestoreAsking \<equiv> Kind 125"

abbreviation KSubstr :: fast_command_kind where
  "KSubstr \<equiv> Kind 126"

abbreviation KRespCommand :: fast_command_kind where
  "KRespCommand \<equiv> Kind 200"

abbreviation KBZMPop :: fast_command_kind where
  "KBZMPop \<equiv> Kind 201"

abbreviation KBZPopMax :: fast_command_kind where
  "KBZPopMax \<equiv> Kind 202"

abbreviation KBZPopMin :: fast_command_kind where
  "KBZPopMin \<equiv> Kind 203"

abbreviation KZCount :: fast_command_kind where
  "KZCount \<equiv> Kind 204"

abbreviation KZDiff :: fast_command_kind where
  "KZDiff \<equiv> Kind 205"

abbreviation KZDiffStore :: fast_command_kind where
  "KZDiffStore \<equiv> Kind 206"

abbreviation KZIncrBy :: fast_command_kind where
  "KZIncrBy \<equiv> Kind 207"

abbreviation KZInter :: fast_command_kind where
  "KZInter \<equiv> Kind 208"

abbreviation KZInterCard :: fast_command_kind where
  "KZInterCard \<equiv> Kind 209"

abbreviation KZInterStore :: fast_command_kind where
  "KZInterStore \<equiv> Kind 210"

abbreviation KZLexCount :: fast_command_kind where
  "KZLexCount \<equiv> Kind 211"

abbreviation KZMPop :: fast_command_kind where
  "KZMPop \<equiv> Kind 212"

abbreviation KZMScore :: fast_command_kind where
  "KZMScore \<equiv> Kind 213"

abbreviation KZPopMax :: fast_command_kind where
  "KZPopMax \<equiv> Kind 214"

abbreviation KZPopMin :: fast_command_kind where
  "KZPopMin \<equiv> Kind 215"

abbreviation KZRandMember :: fast_command_kind where
  "KZRandMember \<equiv> Kind 216"

abbreviation KZRangeByLex :: fast_command_kind where
  "KZRangeByLex \<equiv> Kind 217"

abbreviation KZRangeByScore :: fast_command_kind where
  "KZRangeByScore \<equiv> Kind 218"

abbreviation KZRangeStore :: fast_command_kind where
  "KZRangeStore \<equiv> Kind 219"

abbreviation KZRank :: fast_command_kind where
  "KZRank \<equiv> Kind 220"

abbreviation KZRemRangeByLex :: fast_command_kind where
  "KZRemRangeByLex \<equiv> Kind 221"

abbreviation KZRemRangeByRank :: fast_command_kind where
  "KZRemRangeByRank \<equiv> Kind 222"

abbreviation KZRemRangeByScore :: fast_command_kind where
  "KZRemRangeByScore \<equiv> Kind 223"

abbreviation KZRevRange :: fast_command_kind where
  "KZRevRange \<equiv> Kind 224"

abbreviation KZRevRangeByLex :: fast_command_kind where
  "KZRevRangeByLex \<equiv> Kind 225"

abbreviation KZRevRangeByScore :: fast_command_kind where
  "KZRevRangeByScore \<equiv> Kind 226"

abbreviation KZRevRank :: fast_command_kind where
  "KZRevRank \<equiv> Kind 227"

abbreviation KZScan :: fast_command_kind where
  "KZScan \<equiv> Kind 228"

abbreviation KZUnion :: fast_command_kind where
  "KZUnion \<equiv> Kind 229"

abbreviation KZUnionStore :: fast_command_kind where
  "KZUnionStore \<equiv> Kind 230"

abbreviation KVAdd :: fast_command_kind where
  "KVAdd \<equiv> Kind 231"

abbreviation KVCard :: fast_command_kind where
  "KVCard \<equiv> Kind 232"

abbreviation KVDim :: fast_command_kind where
  "KVDim \<equiv> Kind 233"

abbreviation KVEmb :: fast_command_kind where
  "KVEmb \<equiv> Kind 234"

abbreviation KVGetAttr :: fast_command_kind where
  "KVGetAttr \<equiv> Kind 235"

abbreviation KVInfo :: fast_command_kind where
  "KVInfo \<equiv> Kind 236"

abbreviation KVIsMember :: fast_command_kind where
  "KVIsMember \<equiv> Kind 237"

abbreviation KVLinks :: fast_command_kind where
  "KVLinks \<equiv> Kind 238"

abbreviation KVRandMember :: fast_command_kind where
  "KVRandMember \<equiv> Kind 239"

abbreviation KVRange :: fast_command_kind where
  "KVRange \<equiv> Kind 240"

abbreviation KVRem :: fast_command_kind where
  "KVRem \<equiv> Kind 241"

abbreviation KVSetAttr :: fast_command_kind where
  "KVSetAttr \<equiv> Kind 242"

abbreviation KVSim :: fast_command_kind where
  "KVSim \<equiv> Kind 243"

abbreviation KNativeRedisCommand :: fast_command_kind where
  "KNativeRedisCommand \<equiv> Kind 244"

section \<open>Opcodes and names\<close>

definition FAST_REDIS_COMMAND_OPCODES :: "(string \<times> fast_command_kind) list" where
  "FAST_REDIS_COMMAND_OPCODES = [
     (''APPEND'', KAppend), (''AUTH'', KAuth), (''BITCOUNT'', KBitCount), (''BITFIELD'', KBitField), (''BITOP'', KBitOp), (''BITPOS'', KBitPos),
     (''BLMOVE'', KBLMove), (''BLMPOP'', KBLMPop), (''BLPOP'', KBLPop), (''BRPOP'', KBRPop), (''BRPOPLPUSH'', KBRPopLPush), (''BZMPOP'', KBZMPop),
     (''BZPOPMAX'', KBZPopMax), (''BZPOPMIN'', KBZPopMin), (''CLIENT'', KClient), (''COMMAND'', KCommand), (''CONFIG'', KConfig), (''COPY'', KCopy),
     (''DBSIZE'', KDbSize), (''DECR'', KDecr), (''DECRBY'', KDecrBy), (''DEL'', KDelete), (''DISCARD'', KDiscard), (''DUMP'', KDump),
     (''ECHO'', KEcho), (''EXEC'', KExec), (''EXISTS'', KExists), (''EXPIRE'', KExpire), (''EXPIREAT'', KExpireAt), (''EXPIRETIME'', KExpireTime),
     (''FLUSHALL'', KFlushAll), (''FLUSHDB'', KFlushDb), (''GET'', KGet), (''GETBIT'', KGetBit), (''GETDEL'', KGetDel), (''GETEX'', KGetEx),
     (''GETRANGE'', KGetRange), (''SUBSTR'', KSubstr), (''GETSET'', KGetSet), (''HELLO'', KHello), (''HDEL'', KHDel), (''HEXISTS'', KHExists),
     (''HGET'', KHGet), (''HGETALL'', KHGetAll), (''HINCRBY'', KHIncrBy), (''HINCRBYFLOAT'', KHIncrByFloat), (''HKEYS'', KHKeys), (''HLEN'', KHLen),
     (''HMGET'', KHMGet), (''HMSET'', KHMSet), (''HRANDFIELD'', KHRandField), (''HSCAN'', KHScan), (''HSET'', KHSet), (''HSETNX'', KHSetNx),
     (''HSTRLEN'', KHStrLen), (''HVALS'', KHVals), (''INFO'', KInfo), (''INCR'', KIncr), (''INCRBY'', KIncrBy), (''INCRBYFLOAT'', KIncrByFloat),
     (''KEYS'', KKeys), (''LINDEX'', KLIndex), (''LINSERT'', KLInsert), (''LLEN'', KLLen), (''LMOVE'', KLMove), (''LMPOP'', KLMPop),
     (''LPOP'', KLPop), (''LPUSH'', KLPush), (''LPUSHX'', KLPushX), (''LRANGE'', KLRange), (''LREM'', KLRem), (''LSET'', KLSet), (''LTRIM'', KLTrim),
     (''MEMORY'', KMemory), (''MGET'', KMGet), (''MSET'', KMSet), (''MSETNX'', KMSetNx), (''MULTI'', KMulti), (''OBJECT'', KObject),
     (''PERSIST'', KPersist), (''PEXPIRE'', KPExpire), (''PEXPIREAT'', KPExpireAt), (''PEXPIRETIME'', KPExpireTime), (''PING'', KPing),
     (''PSETEX'', KPSetEx), (''PTTL'', KPTtl), (''QUIT'', KQuit), (''RANDOMKEY'', KRandomKey), (''RENAME'', KRename), (''RENAMENX'', KRenameNx),
     (''RESTORE'', KRestore), (''RESTORE-ASKING'', KRestoreAsking), (''RPOP'', KRPop), (''RPOPLPUSH'', KRPopLPush), (''RPUSH'', KRPush),
     (''RPUSHX'', KRPushX), (''SADD'', KSAdd), (''SCAN'', KScan), (''SCARD'', KSCard), (''SDIFF'', KSDiff), (''SDIFFSTORE'', KSDiffStore),
     (''SELECT'', KSelect), (''SET'', KSet), (''SETBIT'', KSetBit), (''SETEX'', KSetEx), (''SETNX'', KSetNx), (''SETRANGE'', KSetRange),
     (''SINTER'', KSInter), (''SINTERSTORE'', KSInterStore), (''SISMEMBER'', KSIsMember), (''SMEMBERS'', KSMembers), (''SMISMEMBER'', KSMIsMember),
     (''SMOVE'', KSMove), (''SPOP'', KSPop), (''SRANDMEMBER'', KSRandMember), (''SREM'', KSRem), (''SSCAN'', KSScan), (''STRLEN'', KStrLen),
     (''SUNION'', KSUnion), (''SUNIONSTORE'', KSUnionStore), (''TIME'', KTime), (''TOUCH'', KTouch), (''TTL'', KTtl), (''TYPE'', KType),
     (''UNLINK'', KUnlink), (''UNWATCH'', KUnwatch), (''WATCH'', KWatch), (''ZADD'', KZAdd), (''ZCARD'', KZCard), (''ZCOUNT'', KZCount),
     (''ZDIFF'', KZDiff), (''ZDIFFSTORE'', KZDiffStore), (''ZINCRBY'', KZIncrBy), (''ZINTER'', KZInter), (''ZINTERCARD'', KZInterCard),
     (''ZINTERSTORE'', KZInterStore), (''ZLEXCOUNT'', KZLexCount), (''ZMPOP'', KZMPop), (''ZMSCORE'', KZMScore), (''ZPOPMAX'', KZPopMax),
     (''ZPOPMIN'', KZPopMin), (''ZRANDMEMBER'', KZRandMember), (''ZRANGE'', KZRange), (''ZRANGEBYLEX'', KZRangeByLex),
     (''ZRANGEBYSCORE'', KZRangeByScore), (''ZRANGESTORE'', KZRangeStore), (''ZRANK'', KZRank), (''ZREM'', KZRem),
     (''ZREMRANGEBYLEX'', KZRemRangeByLex), (''ZREMRANGEBYRANK'', KZRemRangeByRank), (''ZREMRANGEBYSCORE'', KZRemRangeByScore),
     (''ZREVRANGE'', KZRevRange), (''ZREVRANGEBYLEX'', KZRevRangeByLex), (''ZREVRANGEBYSCORE'', KZRevRangeByScore), (''ZREVRANK'', KZRevRank),
     (''ZSCAN'', KZScan), (''ZSCORE'', KZScore), (''ZUNION'', KZUnion), (''ZUNIONSTORE'', KZUnionStore), (''VADD'', KVAdd), (''VCARD'', KVCard),
     (''VDIM'', KVDim), (''VEMB'', KVEmb), (''VGETATTR'', KVGetAttr), (''VINFO'', KVInfo), (''VISMEMBER'', KVIsMember), (''VLINKS'', KVLinks),
     (''VRANDMEMBER'', KVRandMember), (''VRANGE'', KVRange), (''VREM'', KVRem), (''VSETATTR'', KVSetAttr), (''VSIM'', KVSim)]"

definition uses_vector_shard :: "fast_command_kind \<Rightarrow> bool" where
  "uses_vector_shard kind \<longleftrightarrow> kind \<in> set [
     KVAdd, KVCard, KVDim, KVEmb, KVGetAttr, KVInfo, KVIsMember, KVLinks, KVRandMember, KVRange, KVRem, KVSetAttr, KVSim]"

text \<open>The arms of the match on an opcode.\<close>

definition opcode_arms :: "(u8 \<times> fast_command_kind) list" where
  "opcode_arms = [
     (1, KGet), (2, KSet), (3, KSetEx), (4, KGetEx), (5, KDelete), (6, KExists), (7, KTtl), (8, KExpire), (9, KPing), (10, KMGet), (11, KMSet),
     (20, KHSet), (21, KHGet), (22, KHDel), (23, KHLen), (24, KHMGet), (30, KLPush), (31, KRPush), (32, KLPop), (33, KRPop), (34, KLLen),
     (35, KLIndex), (36, KLRange), (40, KSAdd), (41, KSRem), (42, KSIsMember), (43, KSCard), (44, KSMembers), (50, KZAdd), (51, KZRem),
     (52, KZScore), (53, KZCard), (54, KZRange), (60, KAuth), (61, KHello), (62, KSelect), (63, KQuit), (64, KEcho), (65, KInfo), (66, KCommand),
     (67, KCommandDocs), (68, KConfigGet), (69, KDbSize), (70, KTime), (71, KClientGetName), (72, KClientSetName), (73, KClientId),
     (74, KClientList), (75, KClientKill), (76, KConfig), (77, KClient), (78, KFlushAll), (79, KFlushDb), (80, KAppend), (81, KBitCount),
     (82, KBitField), (83, KBitOp), (84, KBitPos), (85, KDecr), (86, KDecrBy), (87, KGetBit), (88, KGetDel), (89, KGetRange), (90, KGetSet),
     (91, KIncr), (92, KIncrBy), (93, KIncrByFloat), (94, KMSetNx), (95, KPSetEx), (96, KSetBit), (97, KSetNx), (98, KSetRange), (99, KStrLen),
     (100, KCopy), (101, KDump), (102, KExpireAt), (103, KExpireTime), (104, KKeys), (105, KMemory), (106, KObject), (107, KPersist),
     (108, KPExpire), (109, KPExpireAt), (110, KPExpireTime), (111, KPTtl), (112, KRandomKey), (113, KRename), (114, KRenameNx), (115, KRestore),
     (116, KScan), (117, KTouch), (118, KType), (119, KUnlink), (120, KMulti), (121, KExec), (122, KDiscard), (123, KWatch), (124, KUnwatch),
     (125, KRestoreAsking), (126, KSubstr), (140, KHExists), (141, KHGetAll), (142, KHIncrBy), (143, KHIncrByFloat), (144, KHKeys), (145, KHMSet),
     (146, KHRandField), (147, KHScan), (148, KHSetNx), (149, KHStrLen), (150, KHVals), (160, KBLMove), (161, KBLMPop), (162, KBLPop), (163, KBRPop),
     (164, KLInsert), (165, KLMove), (166, KLMPop), (167, KLPushX), (168, KLRem), (169, KLSet), (170, KLTrim), (171, KRPopLPush), (172, KRPushX),
     (173, KBRPopLPush), (180, KSDiff), (181, KSDiffStore), (182, KSInter), (183, KSInterStore), (184, KSMIsMember), (185, KSMove), (186, KSPop),
     (187, KSRandMember), (188, KSScan), (189, KSUnion), (190, KSUnionStore), (200, KRespCommand), (201, KBZMPop), (202, KBZPopMax),
     (203, KBZPopMin), (204, KZCount), (205, KZDiff), (206, KZDiffStore), (207, KZIncrBy), (208, KZInter), (209, KZInterCard), (210, KZInterStore),
     (211, KZLexCount), (212, KZMPop), (213, KZMScore), (214, KZPopMax), (215, KZPopMin), (216, KZRandMember), (217, KZRangeByLex),
     (218, KZRangeByScore), (219, KZRangeStore), (220, KZRank), (221, KZRemRangeByLex), (222, KZRemRangeByRank), (223, KZRemRangeByScore),
     (224, KZRevRange), (225, KZRevRangeByLex), (226, KZRevRangeByScore), (227, KZRevRank), (228, KZScan), (229, KZUnion), (230, KZUnionStore),
     (231, KVAdd), (232, KVCard), (233, KVDim), (234, KVEmb), (235, KVGetAttr), (236, KVInfo), (237, KVIsMember), (238, KVLinks),
     (239, KVRandMember), (240, KVRange), (241, KVRem), (242, KVSetAttr), (243, KVSim), (244, KNativeRedisCommand)]"

definition from_opcode :: "u8 \<Rightarrow> fast_command_kind option" where
  "from_opcode value = map_of opcode_arms value"

definition eq_ignore_ascii_case :: "bytes \<Rightarrow> bytes \<Rightarrow> bool" where
  "eq_ignore_ascii_case a b \<longleftrightarrow> map lower_ascii a = map lower_ascii b"

definition from_redis_name :: "bytes \<Rightarrow> fast_command_kind option" where
  "from_redis_name name =
     map_option snd (List.find (\<lambda>entry. eq_ignore_ascii_case name (ascii (fst entry))) FAST_REDIS_COMMAND_OPCODES)"

text \<open>The arms of the match on a kind; the kinds that are left out have no Redis name.\<close>

definition redis_name_arms :: "(fast_command_kind \<times> string) list" where
  "redis_name_arms = [
     (KAppend, ''APPEND''), (KAuth, ''AUTH''), (KBitCount, ''BITCOUNT''), (KBitField, ''BITFIELD''), (KBitOp, ''BITOP''), (KBitPos, ''BITPOS''),
     (KBLMove, ''BLMOVE''), (KBLMPop, ''BLMPOP''), (KBLPop, ''BLPOP''), (KBRPop, ''BRPOP''), (KBRPopLPush, ''BRPOPLPUSH''), (KBZMPop, ''BZMPOP''),
     (KBZPopMax, ''BZPOPMAX''), (KBZPopMin, ''BZPOPMIN''), (KClient, ''CLIENT''), (KCommand, ''COMMAND''), (KConfig, ''CONFIG''), (KCopy, ''COPY''),
     (KDbSize, ''DBSIZE''), (KDecr, ''DECR''), (KDecrBy, ''DECRBY''), (KDelete, ''DEL''), (KDiscard, ''DISCARD''), (KDump, ''DUMP''),
     (KEcho, ''ECHO''), (KExec, ''EXEC''), (KExists, ''EXISTS''), (KExpire, ''EXPIRE''), (KExpireAt, ''EXPIREAT''), (KExpireTime, ''EXPIRETIME''),
     (KFlushAll, ''FLUSHALL''), (KFlushDb, ''FLUSHDB''), (KGet, ''GET''), (KGetBit, ''GETBIT''), (KGetDel, ''GETDEL''), (KGetEx, ''GETEX''),
     (KGetRange, ''GETRANGE''), (KGetSet, ''GETSET''), (KHello, ''HELLO''), (KHDel, ''HDEL''), (KHExists, ''HEXISTS''), (KHGet, ''HGET''),
     (KHGetAll, ''HGETALL''), (KHIncrBy, ''HINCRBY''), (KHIncrByFloat, ''HINCRBYFLOAT''), (KHKeys, ''HKEYS''), (KHLen, ''HLEN''),
     (KHMGet, ''HMGET''), (KHMSet, ''HMSET''), (KHRandField, ''HRANDFIELD''), (KHScan, ''HSCAN''), (KHSet, ''HSET''), (KHSetNx, ''HSETNX''),
     (KHStrLen, ''HSTRLEN''), (KHVals, ''HVALS''), (KInfo, ''INFO''), (KIncr, ''INCR''), (KIncrBy, ''INCRBY''), (KIncrByFloat, ''INCRBYFLOAT''),
     (KKeys, ''KEYS''), (KLIndex, ''LINDEX''), (KLInsert, ''LINSERT''), (KLLen, ''LLEN''), (KLMove, ''LMOVE''), (KLMPop, ''LMPOP''),
     (KLPop, ''LPOP''), (KLPush, ''LPUSH''), (KLPushX, ''LPUSHX''), (KLRange, ''LRANGE''), (KLRem, ''LREM''), (KLSet, ''LSET''), (KLTrim, ''LTRIM''),
     (KMemory, ''MEMORY''), (KMGet, ''MGET''), (KMSet, ''MSET''), (KMSetNx, ''MSETNX''), (KMulti, ''MULTI''), (KObject, ''OBJECT''),
     (KPersist, ''PERSIST''), (KPExpire, ''PEXPIRE''), (KPExpireAt, ''PEXPIREAT''), (KPExpireTime, ''PEXPIRETIME''), (KPing, ''PING''),
     (KPSetEx, ''PSETEX''), (KPTtl, ''PTTL''), (KQuit, ''QUIT''), (KRandomKey, ''RANDOMKEY''), (KRename, ''RENAME''), (KRenameNx, ''RENAMENX''),
     (KRestore, ''RESTORE''), (KRestoreAsking, ''RESTORE-ASKING''), (KRPop, ''RPOP''), (KRPopLPush, ''RPOPLPUSH''), (KRPush, ''RPUSH''),
     (KRPushX, ''RPUSHX''), (KSAdd, ''SADD''), (KScan, ''SCAN''), (KSCard, ''SCARD''), (KSDiff, ''SDIFF''), (KSDiffStore, ''SDIFFSTORE''),
     (KSelect, ''SELECT''), (KSet, ''SET''), (KSetBit, ''SETBIT''), (KSetEx, ''SETEX''), (KSetNx, ''SETNX''), (KSetRange, ''SETRANGE''),
     (KSInter, ''SINTER''), (KSInterStore, ''SINTERSTORE''), (KSIsMember, ''SISMEMBER''), (KSMembers, ''SMEMBERS''), (KSMIsMember, ''SMISMEMBER''),
     (KSMove, ''SMOVE''), (KSPop, ''SPOP''), (KSRandMember, ''SRANDMEMBER''), (KSRem, ''SREM''), (KSScan, ''SSCAN''), (KStrLen, ''STRLEN''),
     (KSubstr, ''SUBSTR''), (KSUnion, ''SUNION''), (KSUnionStore, ''SUNIONSTORE''), (KTime, ''TIME''), (KTouch, ''TOUCH''), (KTtl, ''TTL''),
     (KType, ''TYPE''), (KUnlink, ''UNLINK''), (KUnwatch, ''UNWATCH''), (KWatch, ''WATCH''), (KZAdd, ''ZADD''), (KZCard, ''ZCARD''),
     (KZCount, ''ZCOUNT''), (KZDiff, ''ZDIFF''), (KZDiffStore, ''ZDIFFSTORE''), (KZIncrBy, ''ZINCRBY''), (KZInter, ''ZINTER''),
     (KZInterCard, ''ZINTERCARD''), (KZInterStore, ''ZINTERSTORE''), (KZLexCount, ''ZLEXCOUNT''), (KZMPop, ''ZMPOP''), (KZMScore, ''ZMSCORE''),
     (KZPopMax, ''ZPOPMAX''), (KZPopMin, ''ZPOPMIN''), (KZRandMember, ''ZRANDMEMBER''), (KZRange, ''ZRANGE''), (KZRangeByLex, ''ZRANGEBYLEX''),
     (KZRangeByScore, ''ZRANGEBYSCORE''), (KZRangeStore, ''ZRANGESTORE''), (KZRank, ''ZRANK''), (KZRem, ''ZREM''),
     (KZRemRangeByLex, ''ZREMRANGEBYLEX''), (KZRemRangeByRank, ''ZREMRANGEBYRANK''), (KZRemRangeByScore, ''ZREMRANGEBYSCORE''),
     (KZRevRange, ''ZREVRANGE''), (KZRevRangeByLex, ''ZREVRANGEBYLEX''), (KZRevRangeByScore, ''ZREVRANGEBYSCORE''), (KZRevRank, ''ZREVRANK''),
     (KZScan, ''ZSCAN''), (KZScore, ''ZSCORE''), (KZUnion, ''ZUNION''), (KZUnionStore, ''ZUNIONSTORE''), (KVAdd, ''VADD''), (KVCard, ''VCARD''),
     (KVDim, ''VDIM''), (KVEmb, ''VEMB''), (KVGetAttr, ''VGETATTR''), (KVInfo, ''VINFO''), (KVIsMember, ''VISMEMBER''), (KVLinks, ''VLINKS''),
     (KVRandMember, ''VRANDMEMBER''), (KVRange, ''VRANGE''), (KVRem, ''VREM''), (KVSetAttr, ''VSETATTR''), (KVSim, ''VSIM'')]"

definition redis_name :: "fast_command_kind \<Rightarrow> string option" where
  "redis_name kind = map_of redis_name_arms kind"

definition is_generic_redis_opcode :: "fast_command_kind \<Rightarrow> bool" where
  "is_generic_redis_opcode kind \<longleftrightarrow> redis_name kind \<noteq> None \<and> kind \<notin> set [
     KGet, KSet, KSetEx, KGetEx, KDelete, KExists, KTtl, KExpire, KPing, KMGet, KMSet, KAuth, KHello, KSelect, KQuit, KEcho, KInfo, KCommand,
     KDbSize, KTime, KHSet, KHGet, KHDel, KHLen, KHMGet, KLPush, KRPush, KLPop, KRPop, KLLen, KLIndex, KLRange, KSAdd, KSRem, KSIsMember, KSCard,
     KSMembers, KZAdd, KZRem, KZScore, KZCard, KZRange]"

section \<open>Routing keys\<close>

datatype fast_redis_route_keys = NoRouteKeys | AllShards | RouteKeys "bytes list"

fun first_key :: "fast_redis_route_keys \<Rightarrow> bytes option" where
  "first_key (RouteKeys keys) = (case keys of [] \<Rightarrow> None | k # _ \<Rightarrow> Some k)"
| "first_key _ = None"

fun has_keys :: "fast_redis_route_keys \<Rightarrow> bool" where
  "has_keys (RouteKeys keys) \<longleftrightarrow> keys \<noteq> []"
| "has_keys _ \<longleftrightarrow> False"

definition all_route_keys :: "bytes list \<Rightarrow> fast_redis_route_keys" where
  "all_route_keys args = RouteKeys args"

definition first_n_route_keys :: "bytes list \<Rightarrow> nat \<Rightarrow> fast_redis_route_keys" where
  "first_n_route_keys args n = RouteKeys (take n args)"

text \<open>\<^verbatim>\<open>Iterator::step_by\<close>, for a positive step.\<close>

fun step_by :: "nat \<Rightarrow> 'a list \<Rightarrow> 'a list" where
  "step_by n [] = []"
| "step_by n (x # xs) = x # step_by n (drop (n - 1) xs)"

definition every_nth_route_key :: "bytes list \<Rightarrow> nat \<Rightarrow> nat \<Rightarrow> fast_redis_route_keys" where
  "every_nth_route_key args start step = RouteKeys (step_by step (drop start args))"

definition first_and_tail_route_keys :: "bytes list \<Rightarrow> nat \<Rightarrow> nat \<Rightarrow> fast_redis_route_keys" where
  "first_and_tail_route_keys args first_count tail_start =
     RouteKeys (take first_count args @ drop tail_start args)"

definition route_keys_before_last_arg :: "bytes list \<Rightarrow> fast_redis_route_keys" where
  "route_keys_before_last_arg args = RouteKeys (take (length args - 1) args)"

text \<open>\<^verbatim>\<open>str::parse::<usize>\<close>; a byte outside ASCII is no digit.\<close>

definition parse_ascii_usize :: "bytes \<Rightarrow> nat option" where
  "parse_ascii_usize raw =
     (let ds = (case raw of c # rest \<Rightarrow> if c = 43 then rest else raw | [] \<Rightarrow> raw)
      in if ds \<noteq> [] \<and> list_all is_digit ds \<and> digits_value ds < 2 ^ 64 then Some (nat (digits_value ds)) else None)"

text \<open>\<^verbatim>\<open>usize::checked_add\<close>.\<close>

definition usize_add :: "nat \<Rightarrow> nat \<Rightarrow> nat option" where
  "usize_add a b = (if a + b \<le> USIZE_MAX then Some (a + b) else None)"

lemma usize_add_code [code]: "usize_add a b = (if int a + int b < 2 ^ 64 then Some (a + b) else None)"
  by (auto simp: usize_add_def USIZE_MAX_def)

definition counted_key_span :: "bytes list \<Rightarrow> nat \<Rightarrow> bytes list option" where
  "counted_key_span args numkeys_index = do {
     numkeys \<leftarrow> (if numkeys_index < length args then parse_ascii_usize (args ! numkeys_index) else None);
     key_start \<leftarrow> usize_add numkeys_index 1;
     key_end \<leftarrow> usize_add key_start numkeys;
     (if numkeys = 0 then None
      else if key_end \<le> length args then Some (take numkeys (drop key_start args)) else None)
   }"

definition counted_route_keys :: "bytes list \<Rightarrow> nat \<Rightarrow> fast_redis_route_keys" where
  "counted_route_keys args numkeys_index =
     (case counted_key_span args numkeys_index of Some keys \<Rightarrow> RouteKeys keys | None \<Rightarrow> AllShards)"

text \<open>
  \<^verbatim>\<open>Vec::with_capacity\<close> for slices of two words: it panics when the size in bytes exceeds \<^verbatim>\<open>isize::MAX\<close>. The sum \<open>numkeys + 1\<close> panics in
  the builds that check overflow.
\<close>

definition with_capacity :: "int \<Rightarrow> unit option" where
  "with_capacity n = (if 16 * n < 2 ^ 63 then Some () else None)"

definition zaggregate_store_route_keys :: "bytes list \<Rightarrow> fast_redis_route_keys option" where
  "zaggregate_store_route_keys args =
     (if length args < 2 then Some (first_n_route_keys args 1)
      else case parse_ascii_usize (args ! 1) of
        None \<Rightarrow> Some AllShards
      | Some numkeys \<Rightarrow> do {
          capacity \<leftarrow> usize_add numkeys 1;
          _ \<leftarrow> with_capacity (int capacity);
          Some (RouteKeys (args ! 0 # take numkeys (drop 2 args)))
        })"

definition redis_route_keys :: "fast_command_kind \<Rightarrow> bytes list \<Rightarrow> fast_redis_route_keys option" where
  "redis_route_keys kind args =
     (if kind \<in> set [KAuth, KHello, KSelect, KQuit, KPing, KEcho, KInfo, KCommand, KCommandDocs, KConfig, KConfigGet, KDbSize, KTime, KClient, KClientGetName,
       KClientSetName, KClientId, KClientList, KClientKill, KMulti, KExec, KDiscard, KUnwatch]
      then Some NoRouteKeys
      else if kind \<in> set [KKeys, KRandomKey, KScan, KFlushAll, KFlushDb]
      then Some AllShards
      else if kind \<in> set [KDelete, KUnlink, KTouch, KMGet, KSUnion, KSInter, KSDiff, KWatch]
      then Some (all_route_keys args)
      else if kind \<in> set [KMSet, KMSetNx]
      then Some (every_nth_route_key args 0 2)
      else if kind \<in> set [KCopy, KRename, KRenameNx, KRPopLPush, KBRPopLPush, KLMove, KBLMove, KSMove]
      then Some (first_n_route_keys args 2)
      else if kind \<in> set [KObject, KMemory]
      then Some (first_n_route_keys (drop 1 args) 1)
      else if kind = KBitOp
      then Some (all_route_keys (drop 1 args))
      else if kind \<in> set [KLMPop, KZMPop, KZDiff, KZInter, KZUnion]
      then Some (counted_route_keys args 0)
      else if kind \<in> set [KBLMPop, KBZMPop]
      then Some (counted_route_keys args 1)
      else if kind \<in> set [KBLPop, KBRPop, KBZPopMin, KBZPopMax]
      then Some (route_keys_before_last_arg args)
      else if kind \<in> set [KSUnionStore, KSInterStore, KSDiffStore]
      then Some (first_and_tail_route_keys args 0 1)
      else if kind \<in> set [KZUnionStore, KZInterStore, KZDiffStore]
      then zaggregate_store_route_keys args
      else if kind = KZInterCard
      then Some (counted_route_keys args 0)
      else if kind = KZRangeStore
      then Some (first_n_route_keys args 2)
      else Some (first_n_route_keys args 1))"

definition route_key_from_redis_args :: "fast_command_kind \<Rightarrow> bytes list \<Rightarrow> bytes option option" where
  "route_key_from_redis_args kind args = map_option first_key (redis_route_keys kind args)"

section \<open>The tables agree\<close>

lemma distinct_by_sort:
  fixes f :: "'a \<Rightarrow> int"
  assumes "successively (<) (sort (map f xs))"
  shows "distinct (map f xs)"
proof -
  have "sorted_wrt (<) (sort (map f xs))" using assms by (simp add: successively_conv_sorted_wrt)
  then have "distinct (sort (map f xs))" by (simp add: strict_sorted_iff)
  then show ?thesis by simp
qed

text \<open>A name without regard to case, as a number.\<close>

definition name_number :: "bytes \<Rightarrow> int" where
  "name_number name = foldl (\<lambda>acc c. 256 * acc + uint c) 1 (map lower_ascii name)"

lemma opcode_arms_ok: "list_all (\<lambda>(v, k). discriminant k = v) opcode_arms"
  by code_simp

lemma names_distinct: "successively (<) (sort (map (name_number \<circ> ascii \<circ> fst) FAST_REDIS_COMMAND_OPCODES))"
  by code_simp

lemma kinds_distinct: "successively (<) (sort (map (uint \<circ> discriminant \<circ> fst) redis_name_arms))"
  by code_simp

lemma tables_same:
  "sort_key (uint \<circ> discriminant \<circ> snd) FAST_REDIS_COMMAND_OPCODES =
   sort_key (uint \<circ> discriminant \<circ> snd) (map prod.swap redis_name_arms)"
  by code_simp

lemma opcodes_named:
  "sort (map (uint \<circ> fst) opcode_arms) =
   sort (map (uint \<circ> discriminant \<circ> fst) redis_name_arms @ map (uint \<circ> discriminant)
     [KRespCommand, KNativeRedisCommand, KCommandDocs, KConfigGet, KClientGetName, KClientSetName, KClientId, KClientList, KClientKill])"
  by code_simp

lemma from_opcode_iff: "from_opcode v = Some k \<longleftrightarrow> k = Kind v \<and> v \<in> set (map fst opcode_arms)"
proof -
  have arm: "k = Kind v \<and> v \<in> set (map fst opcode_arms)" if "from_opcode v = Some k" for k
  proof -
    from that have "(v, k) \<in> set opcode_arms" by (simp add: from_opcode_def map_of_SomeD)
    with opcode_arms_ok show ?thesis by (cases k) (force simp: list_all_iff)
  qed
  moreover have "from_opcode v \<noteq> None" if "v \<in> set (map fst opcode_arms)"
    using that by (simp add: from_opcode_def map_of_eq_None_iff)
  ultimately show ?thesis by (metis not_None_eq)
qed

lemma redis_name_iff: "redis_name k = Some n \<longleftrightarrow> (k, n) \<in> set redis_name_arms"
proof -
  have "distinct (map (uint \<circ> discriminant \<circ> fst) redis_name_arms)" by (rule distinct_by_sort [OF kinds_distinct])
  then have "distinct (map fst redis_name_arms)" by (simp add: distinct_map comp_inj_on_iff inj_on_def)
  then show ?thesis by (simp add: redis_name_def)
qed

lemma redis_table_iff: "(n, k) \<in> set FAST_REDIS_COMMAND_OPCODES \<longleftrightarrow> redis_name k = Some n"
proof -
  have "mset FAST_REDIS_COMMAND_OPCODES = mset (map prod.swap redis_name_arms)"
    using arg_cong [OF tables_same, of mset] by (simp only: mset_sort)
  then have "set FAST_REDIS_COMMAND_OPCODES = prod.swap ` set redis_name_arms"
    by (metis set_mset_mset set_map)
  then show ?thesis by (force simp: redis_name_iff)
qed

lemma eq_ignore_number: "eq_ignore_ascii_case a b \<Longrightarrow> name_number a = name_number b"
  by (simp add: eq_ignore_ascii_case_def name_number_def)

lemma from_redis_name_iff:
  "from_redis_name b = Some k \<longleftrightarrow> (\<exists>n. redis_name k = Some n \<and> eq_ignore_ascii_case b (ascii n))"
proof
  assume "from_redis_name b = Some k"
  then obtain n where "List.find (\<lambda>e. eq_ignore_ascii_case b (ascii (fst e))) FAST_REDIS_COMMAND_OPCODES = Some (n, k)"
    by (auto simp: from_redis_name_def)
  then show "\<exists>n. redis_name k = Some n \<and> eq_ignore_ascii_case b (ascii n)"
    by (auto simp: find_Some_iff redis_table_iff [symmetric]) (metis fst_conv nth_mem)
next
  assume "\<exists>n. redis_name k = Some n \<and> eq_ignore_ascii_case b (ascii n)"
  then obtain n where n: "(n, k) \<in> set FAST_REDIS_COMMAND_OPCODES" "eq_ignore_ascii_case b (ascii n)"
    by (auto simp: redis_table_iff)
  then obtain e where e: "List.find (\<lambda>e. eq_ignore_ascii_case b (ascii (fst e))) FAST_REDIS_COMMAND_OPCODES = Some e"
    by (metis find_None_iff fst_conv not_None_eq)
  then have m: "e \<in> set FAST_REDIS_COMMAND_OPCODES" "eq_ignore_ascii_case b (ascii (fst e))"
    by (auto simp: find_Some_iff)
  have inj: "inj_on (name_number \<circ> ascii \<circ> fst) (set FAST_REDIS_COMMAND_OPCODES)"
    using distinct_by_sort [OF names_distinct] by (simp add: distinct_map)
  have "name_number (ascii (fst e)) = name_number (ascii n)"
    using eq_ignore_number [OF n(2)] eq_ignore_number [OF m(2)] by simp
  then have "e = (n, k)" using inj_onD [OF inj _ m(1) n(1)] by simp
  with e show "from_redis_name b = Some k" by (simp add: from_redis_name_def)
qed

lemma named_opcode: "redis_name k = Some n \<Longrightarrow> from_opcode (discriminant k) = Some k"
proof -
  assume "redis_name k = Some n"
  then have "uint (discriminant k) \<in> set (map (uint \<circ> discriminant \<circ> fst) redis_name_arms)"
    by (force simp: redis_name_iff)
  moreover have "set (sort (map (uint \<circ> fst) opcode_arms)) = set (map (uint \<circ> fst) opcode_arms)" by simp
  ultimately have "uint (discriminant k) \<in> set (map (uint \<circ> fst) opcode_arms)"
    unfolding opcodes_named by auto
  then have "discriminant k \<in> set (map fst opcode_arms)" by (force simp flip: word_uint_eq_iff)
  then show ?thesis by (cases k) (simp add: from_opcode_iff)
qed

text \<open>The keys of a command that is routed by keys are arguments of the command.\<close>

lemma step_by_subset: "set (step_by n xs) \<subseteq> set xs"
  by (induction n xs rule: step_by.induct) (auto dest: in_set_dropD)

lemma route_keys_are_args:
  assumes "redis_route_keys kind args = Some (RouteKeys keys)"
  shows "set keys \<subseteq> set args"
proof -
  have z: "set keys \<subseteq> set args" if "zaggregate_store_route_keys args = Some (RouteKeys keys)"
    using that by (cases args; cases "tl args") (auto simp: zaggregate_store_route_keys_def first_n_route_keys_def dest: in_set_takeD
        split: if_splits option.splits bind_splits)
  have c: "set keys \<subseteq> set args" if "counted_route_keys args i = RouteKeys keys" for i
    using that by (auto simp: counted_route_keys_def counted_key_span_def dest: in_set_takeD in_set_dropD
        split: if_splits option.splits bind_splits)
  show ?thesis
    using assms c z step_by_subset [of 2 args]
    by (auto simp: redis_route_keys_def all_route_keys_def first_n_route_keys_def every_nth_route_key_def
        first_and_tail_route_keys_def route_keys_before_last_arg_def dest: in_set_takeD in_set_dropD split: if_splits)
qed

end
