(* ===== verification/Fast.thy ===== *)
theory Fast
  imports FastOpcodes
begin

text \<open>
  The native binary protocol, version 2 (\<^verbatim>\<open>protocol/fast.rs\<close>): requests with their routing fields and responses, the encoders that append
  to a vector and patch the length of the body, and the decoders that read a body with a cursor.

  \<^verbatim>\<open>String\<close> labels of the errors are kept. \<open>Inl\<close> is a protocol error, \<open>Inr None\<close> asks for more input. The parameter \<open>reserve\<close> tells whether
  \<^verbatim>\<open>try_reserve_exact\<close> succeeds. A \<^verbatim>\<open>f64\<close> is its bit pattern, an \<^verbatim>\<open>i64\<close> an integer.
\<close>

unbundle bit_operations_syntax

section \<open>Frames of bytes\<close>

type_synonym u32 = "32 word"

text \<open>\<^verbatim>\<open>to_le_bytes\<close> with the number of bytes, and \<^verbatim>\<open>from_le_bytes\<close>.\<close>

fun to_le :: "nat \<Rightarrow> 'a::len word \<Rightarrow> bytes" where
  "to_le 0 w = []"
| "to_le (Suc k) w = ucast w # to_le k (drop_bit 8 w)"

fun from_le :: "bytes \<Rightarrow> 'a::len word" where
  "from_le [] = 0"
| "from_le (b # bs) = ucast b OR push_bit 8 (from_le bs)"

abbreviation u32_bytes :: "u32 \<Rightarrow> bytes" where
  "u32_bytes w \<equiv> to_le 4 w"

abbreviation u64_bytes :: "u64 \<Rightarrow> bytes" where
  "u64_bytes w \<equiv> to_le 8 w"

abbreviation i64_bytes :: "int \<Rightarrow> bytes" where
  "i64_bytes v \<equiv> u64_bytes (word_of_int v)"

text \<open>\<^verbatim>\<open>len() as u32\<close>.\<close>

definition len32 :: "'a list \<Rightarrow> u32" where
  "len32 xs = word_of_int (int (length xs))"

definition FAST_REQUEST_MAGIC :: u8 where
  "FAST_REQUEST_MAGIC = 0xFA"

definition FAST_RESPONSE_MAGIC :: u8 where
  "FAST_RESPONSE_MAGIC = 0xFB"

definition FAST_PROTOCOL_VERSION :: u8 where
  "FAST_PROTOCOL_VERSION = 2"

definition FAST_FLAG_KEY_HASH :: u8 where
  "FAST_FLAG_KEY_HASH = 1"

definition FAST_FLAG_ROUTE_SHARD :: u8 where
  "FAST_FLAG_ROUTE_SHARD = 2"

definition FAST_FLAG_KEY_TAG :: u8 where
  "FAST_FLAG_KEY_TAG = 4"

definition FAST_FLAG_REDIS_COMMAND_ARGS :: u8 where
  "FAST_FLAG_REDIS_COMMAND_ARGS = 8"

definition REQUEST_HEADER_LEN :: nat where
  "REQUEST_HEADER_LEN = 8"

definition RESPONSE_HEADER_LEN :: nat where
  "RESPONSE_HEADER_LEN = 8"

definition FAST_MAX_COLLECTION_ITEMS :: nat where
  "FAST_MAX_COLLECTION_ITEMS = 65536"

section \<open>Requests and responses\<close>

datatype (plugins only: code) fast_command =
    Ping "bytes option"
  | Auth
  | Hello "u64 option"
  | Select u64
  | Quit
  | Echo bytes
  | Info
  | Command
  | CommandDocs
  | ConfigGet "bytes list"
  | DbSize
  | Time
  | ClientGetName
  | ClientSetName bytes
  | ClientId
  | ClientList
  | ClientKill
  | Get bytes
  | Set bytes bytes
  | SetEx bytes bytes u64
  | GetEx bytes u64
  | Delete bytes
  | Exists bytes
  | Ttl bytes
  | Expire bytes u64
  | MGet "bytes list"
  | MSet "(bytes \<times> bytes) list"
  | HSet bytes bytes bytes
  | HGet bytes bytes
  | HDel bytes bytes
  | HLen bytes
  | HMGet bytes "bytes list"
  | LPush bytes "bytes list"
  | RPush bytes "bytes list"
  | LPop bytes
  | RPop bytes
  | LLen bytes
  | LIndex bytes int
  | LRange bytes int int
  | SAdd bytes "bytes list"
  | SRem bytes "bytes list"
  | SIsMember bytes bytes
  | SCard bytes
  | SMembers bytes
  | ZAdd bytes f64 bytes
  | ZRem bytes bytes
  | ZScore bytes bytes
  | ZCard bytes
  | ZRange bytes int int
  | RespCommand "bytes list"
  | RedisCommand fast_command_kind "bytes list"
  | NativeRedisCommand bytes "bytes list"

fun command_kind :: "fast_command \<Rightarrow> fast_command_kind" where
  "command_kind (Ping _) = KPing"
| "command_kind Auth = KAuth"
| "command_kind (Hello _) = KHello"
| "command_kind (Select _) = KSelect"
| "command_kind Quit = KQuit"
| "command_kind (Echo _) = KEcho"
| "command_kind Info = KInfo"
| "command_kind Command = KCommand"
| "command_kind CommandDocs = KCommandDocs"
| "command_kind (ConfigGet _) = KConfigGet"
| "command_kind DbSize = KDbSize"
| "command_kind Time = KTime"
| "command_kind ClientGetName = KClientGetName"
| "command_kind (ClientSetName _) = KClientSetName"
| "command_kind ClientId = KClientId"
| "command_kind ClientList = KClientList"
| "command_kind ClientKill = KClientKill"
| "command_kind (Get _) = KGet"
| "command_kind (Set _ _) = KSet"
| "command_kind (SetEx _ _ _) = KSetEx"
| "command_kind (GetEx _ _) = KGetEx"
| "command_kind (Delete _) = KDelete"
| "command_kind (Exists _) = KExists"
| "command_kind (Ttl _) = KTtl"
| "command_kind (Expire _ _) = KExpire"
| "command_kind (MGet _) = KMGet"
| "command_kind (MSet _) = KMSet"
| "command_kind (HSet _ _ _) = KHSet"
| "command_kind (HGet _ _) = KHGet"
| "command_kind (HDel _ _) = KHDel"
| "command_kind (HLen _) = KHLen"
| "command_kind (HMGet _ _) = KHMGet"
| "command_kind (LPush _ _) = KLPush"
| "command_kind (RPush _ _) = KRPush"
| "command_kind (LPop _) = KLPop"
| "command_kind (RPop _) = KRPop"
| "command_kind (LLen _) = KLLen"
| "command_kind (LIndex _ _) = KLIndex"
| "command_kind (LRange _ _ _) = KLRange"
| "command_kind (SAdd _ _) = KSAdd"
| "command_kind (SRem _ _) = KSRem"
| "command_kind (SIsMember _ _) = KSIsMember"
| "command_kind (SCard _) = KSCard"
| "command_kind (SMembers _) = KSMembers"
| "command_kind (ZAdd _ _ _) = KZAdd"
| "command_kind (ZRem _ _) = KZRem"
| "command_kind (ZScore _ _) = KZScore"
| "command_kind (ZCard _) = KZCard"
| "command_kind (ZRange _ _ _) = KZRange"
| "command_kind (RespCommand _) = KRespCommand"
| "command_kind (RedisCommand kind _) = kind"
| "command_kind (NativeRedisCommand _ _) = KNativeRedisCommand"

record fast_request =
  key_hash :: "u64 option"
  route_shard :: "u32 option"
  key_tag :: "u64 option"
  command :: fast_command

datatype fast_response =
    Ok
  | Null
  | Error bytes
  | Integer int
  | Value bytes
  | Boolean bool
  | Array "bytes option list"
  | Float f64
  | NativeFrame bytes

datatype fast_error =
    Truncated string
  | LengthMismatch string
  | CountExceeds string
  | AllocationFailed string
  | VarintTruncated string
  | VarintTooLarge string
  | TrailingBytes string
  | InvalidMagic
  | UnsupportedVersion u8
  | UnsupportedCommand u8
  | UnsupportedFlags u8
  | FrameLengthOverflow
  | NotARedisOpcode u8
  | NoRequestDecoder u8
  | ResponseTruncated string
  | UnsupportedStatus u8

type_synonym 'a taken = "fast_error + ('a \<times> nat)"

section \<open>Reading a body\<close>

text \<open>The operator \<^verbatim>\<open>?\<close>.\<close>

definition try_ok :: "'e + 'a \<Rightarrow> ('a \<Rightarrow> 'e + 'b) \<Rightarrow> 'e + 'b" where
  "try_ok m f = (case m of Inl e \<Rightarrow> Inl e | Inr x \<Rightarrow> f x)"

definition take_u32 :: "bytes \<Rightarrow> nat \<Rightarrow> string \<Rightarrow> u32 taken" where
  "take_u32 body cursor field =
     (if length body - cursor < 4 then Inl (Truncated field)
      else Inr (from_le (take 4 (drop cursor body)), cursor + 4))"

definition take_u64 :: "bytes \<Rightarrow> nat \<Rightarrow> string \<Rightarrow> u64 taken" where
  "take_u64 body cursor field =
     (if length body - cursor < 8 then Inl (Truncated field)
      else Inr (from_le (take 8 (drop cursor body)), cursor + 8))"

definition take_i64 :: "bytes \<Rightarrow> nat \<Rightarrow> string \<Rightarrow> int taken" where
  "take_i64 body cursor field =
     (if length body - cursor < 8 then Inl (Truncated field)
      else Inr (sint (from_le (take 8 (drop cursor body)) :: u64), cursor + 8))"

definition take_f64 :: "bytes \<Rightarrow> nat \<Rightarrow> string \<Rightarrow> f64 taken" where
  "take_f64 body cursor field =
     (if length body - cursor < 8 then Inl (Truncated field)
      else Inr (F64 (from_le (take 8 (drop cursor body))), cursor + 8))"

definition take_exact_slice :: "bytes \<Rightarrow> nat \<Rightarrow> nat \<Rightarrow> string \<Rightarrow> bytes taken" where
  "take_exact_slice body cursor len field =
     (if length body - cursor < len then Inl (LengthMismatch field)
      else Inr (take len (drop cursor body), cursor + len))"

definition take_len_prefixed_slice :: "bytes \<Rightarrow> nat \<Rightarrow> string \<Rightarrow> bytes taken" where
  "take_len_prefixed_slice body cursor field =
     try_ok (take_u32 body cursor field) (\<lambda>(len, cursor). take_exact_slice body cursor (unat len) field)"

definition take_key_value :: "bytes \<Rightarrow> nat \<Rightarrow> string \<Rightarrow> (bytes \<times> bytes) taken" where
  "take_key_value body cursor field =
     try_ok (take_u32 body cursor field) (\<lambda>(key_len, cursor).
     try_ok (take_u32 body cursor field) (\<lambda>(value_len, cursor).
     try_ok (take_exact_slice body cursor (unat key_len) field) (\<lambda>(key, cursor).
     try_ok (take_exact_slice body cursor (unat value_len) field) (\<lambda>(value, cursor).
     Inr ((key, value), cursor)))))"

definition take_key_field :: "bytes \<Rightarrow> nat \<Rightarrow> string \<Rightarrow> (bytes \<times> bytes) taken" where
  "take_key_field body cursor field =
     try_ok (take_u32 body cursor field) (\<lambda>(key_len, cursor).
     try_ok (take_u32 body cursor field) (\<lambda>(field_len, cursor).
     try_ok (take_exact_slice body cursor (unat key_len) field) (\<lambda>(key, cursor).
     try_ok (take_exact_slice body cursor (unat field_len) field) (\<lambda>(member, cursor).
     Inr ((key, member), cursor)))))"

definition take_key_field_value :: "bytes \<Rightarrow> nat \<Rightarrow> string \<Rightarrow> (bytes \<times> bytes \<times> bytes) taken" where
  "take_key_field_value body cursor field =
     try_ok (take_u32 body cursor field) (\<lambda>(key_len, cursor).
     try_ok (take_u32 body cursor field) (\<lambda>(field_len, cursor).
     try_ok (take_u32 body cursor field) (\<lambda>(value_len, cursor).
     try_ok (take_exact_slice body cursor (unat key_len) field) (\<lambda>(key, cursor).
     try_ok (take_exact_slice body cursor (unat field_len) field) (\<lambda>(member, cursor).
     try_ok (take_exact_slice body cursor (unat value_len) field) (\<lambda>(value, cursor).
     Inr ((key, member, value), cursor)))))))"

text \<open>\<^verbatim>\<open>for _ in 0..count\<close>, pushing what is taken.\<close>

fun take_times :: "nat \<Rightarrow> (nat \<Rightarrow> 'a taken) \<Rightarrow> nat \<Rightarrow> 'a list taken" where
  "take_times 0 item cursor = Inr ([], cursor)"
| "take_times (Suc n) item cursor =
     try_ok (item cursor) (\<lambda>(x, cursor).
     try_ok (take_times n item cursor) (\<lambda>(xs, cursor). Inr (x # xs, cursor)))"

text \<open>The checks of a count before the loop; \<open>room\<close> is the number of items the rest of the body can hold.\<close>

definition take_counted :: "(nat \<Rightarrow> bool) \<Rightarrow> string \<Rightarrow> nat \<Rightarrow> nat \<Rightarrow> (nat \<Rightarrow> 'a taken) \<Rightarrow> nat \<Rightarrow> 'a list taken" where
  "take_counted reserve field room n item cursor =
     (if FAST_MAX_COLLECTION_ITEMS < n \<or> room < n then Inl (CountExceeds field)
      else if \<not> reserve n then Inl (AllocationFailed field)
      else take_times n item cursor)"

lemma take_counted_code [code]:
  "take_counted reserve field room n item cursor =
     (if 65536 < int n \<or> room < n then Inl (CountExceeds field)
      else if \<not> reserve n then Inl (AllocationFailed field)
      else take_times n item cursor)"
  by (simp add: take_counted_def FAST_MAX_COLLECTION_ITEMS_def)

definition take_len_prefixed_list :: "(nat \<Rightarrow> bool) \<Rightarrow> bytes \<Rightarrow> nat \<Rightarrow> string \<Rightarrow> bytes list taken" where
  "take_len_prefixed_list reserve body cursor field =
     try_ok (take_u32 body cursor field) (\<lambda>(n, cursor).
     take_counted reserve field ((length body - cursor) div 4) (unat n) (\<lambda>cursor. take_len_prefixed_slice body cursor field) cursor)"

fun var_u32_loop :: "nat \<Rightarrow> bytes \<Rightarrow> nat \<Rightarrow> string \<Rightarrow> u32 \<Rightarrow> nat \<Rightarrow> u32 taken" where
  "var_u32_loop 0 body cursor field value shift = Inl (VarintTooLarge field)"
| "var_u32_loop (Suc n) body cursor field value shift =
     (if length body \<le> cursor then Inl (VarintTruncated field)
      else let byte = body ! cursor; value = value OR push_bit shift (ucast (byte AND 0x7f))
      in if byte AND 0x80 = 0 then Inr (value, cursor + 1)
         else var_u32_loop n body (cursor + 1) field value (shift + 7))"

definition take_var_u32 :: "bytes \<Rightarrow> nat \<Rightarrow> string \<Rightarrow> u32 taken" where
  "take_var_u32 body cursor field = var_u32_loop 5 body cursor field 0 0"

definition take_compact_len_prefixed_slice :: "bytes \<Rightarrow> nat \<Rightarrow> string \<Rightarrow> bytes taken" where
  "take_compact_len_prefixed_slice body cursor field =
     try_ok (take_var_u32 body cursor field) (\<lambda>(len, cursor). take_exact_slice body cursor (unat len) field)"

definition take_compact_len_prefixed_list :: "(nat \<Rightarrow> bool) \<Rightarrow> bytes \<Rightarrow> nat \<Rightarrow> string \<Rightarrow> bytes list taken" where
  "take_compact_len_prefixed_list reserve body cursor field =
     try_ok (take_var_u32 body cursor field) (\<lambda>(n, cursor).
     take_counted reserve field (length body - cursor) (unat n) (\<lambda>cursor. take_compact_len_prefixed_slice body cursor field) cursor)"

definition take_key_list :: "(nat \<Rightarrow> bool) \<Rightarrow> bytes \<Rightarrow> nat \<Rightarrow> string \<Rightarrow> (bytes \<times> bytes list) taken" where
  "take_key_list reserve body cursor field =
     try_ok (take_len_prefixed_slice body cursor field) (\<lambda>(key, cursor).
     try_ok (take_len_prefixed_list reserve body cursor field) (\<lambda>(vals, cursor).
     Inr ((key, vals), cursor)))"

definition take_key_value_list :: "(nat \<Rightarrow> bool) \<Rightarrow> bytes \<Rightarrow> nat \<Rightarrow> string \<Rightarrow> (bytes \<times> bytes) list taken" where
  "take_key_value_list reserve body cursor field =
     try_ok (take_u32 body cursor field) (\<lambda>(n, cursor).
     take_counted reserve field ((length body - cursor) div 8) (unat n) (\<lambda>cursor. take_key_value body cursor field) cursor)"

definition ensure_finished :: "bytes \<Rightarrow> nat \<Rightarrow> string \<Rightarrow> fast_error + unit" where
  "ensure_finished body cursor field = (if cursor \<noteq> length body then Inl (TrailingBytes field) else Inr ())"

section \<open>Requests\<close>

text \<open>The body of a request that is flagged as a Redis command.\<close>

definition decode_redis_args :: "(nat \<Rightarrow> bool) \<Rightarrow> fast_command_kind \<Rightarrow> bytes \<Rightarrow> nat \<Rightarrow> fast_command taken" where
  "decode_redis_args reserve kind body cursor =
     (if redis_name kind = None \<and> kind \<noteq> KNativeRedisCommand then Inl (NotARedisOpcode (discriminant kind))
      else if kind = KNativeRedisCommand then
        try_ok (take_len_prefixed_slice body cursor ''fast native Redis command name'') (\<lambda>(name, cursor).
        try_ok (take_compact_len_prefixed_list reserve body cursor ''fast native Redis command arguments'') (\<lambda>(args, cursor).
        Inr (NativeRedisCommand name args, cursor)))
      else
        try_ok (take_compact_len_prefixed_list reserve body cursor ''fast Redis command arguments'') (\<lambda>(args, cursor).
        Inr (RedisCommand kind args, cursor)))"

text \<open>The match on the kind of the other requests.\<close>

definition decode_typed :: "(nat \<Rightarrow> bool) \<Rightarrow> fast_command_kind \<Rightarrow> bytes \<Rightarrow> nat \<Rightarrow> fast_command taken" where
  "decode_typed reserve kind body cursor =
     (if kind = KPing then
        Inr (Ping (if drop cursor body \<noteq> [] then Some (drop cursor body) else None), length body)
      else if kind = KHello then
        try_ok (if 8 \<le> length body - cursor
                then try_ok (take_u64 body cursor ''fast HELLO proto'') (\<lambda>(proto, cursor). Inr (Some proto, cursor))
                else Inr (None, cursor)) (\<lambda>(proto, cursor).
          Inr (Hello proto, cursor))
      else if kind = KAuth then
        Inr (Auth, cursor)
      else if kind = KSelect then
        try_ok (take_u64 body cursor ''fast SELECT db'') (\<lambda>(db, cursor).
          Inr (Select db, cursor))
      else if kind = KQuit then
        Inr (Quit, cursor)
      else if kind = KEcho then
        try_ok (take_len_prefixed_slice body cursor ''fast ECHO payload'') (\<lambda>(payload, cursor).
          Inr (Echo payload, cursor))
      else if kind = KInfo then
        Inr (Info, cursor)
      else if kind = KCommand then
        Inr (Command, cursor)
      else if kind = KCommandDocs then
        Inr (CommandDocs, cursor)
      else if kind = KConfigGet then
        try_ok (take_len_prefixed_list reserve body cursor ''fast CONFIG GET patterns'') (\<lambda>(patterns, cursor).
          Inr (ConfigGet patterns, cursor))
      else if kind = KDbSize then
        Inr (DbSize, cursor)
      else if kind = KTime then
        Inr (Time, cursor)
      else if kind = KClientGetName then
        Inr (ClientGetName, cursor)
      else if kind = KClientSetName then
        try_ok (take_len_prefixed_slice body cursor ''fast CLIENT SETNAME name'') (\<lambda>(name, cursor).
          Inr (ClientSetName name, cursor))
      else if kind = KClientId then
        Inr (ClientId, cursor)
      else if kind = KClientList then
        Inr (ClientList, cursor)
      else if kind = KClientKill then
        Inr (ClientKill, cursor)
      else if kind = KGet then
        try_ok (take_len_prefixed_slice body cursor ''fast GET key'') (\<lambda>(key, cursor).
          Inr (Get key, cursor))
      else if kind = KSet then
        try_ok (take_key_value body cursor ''fast SET'') (\<lambda>((key, value), cursor).
          Inr (Set key value, cursor))
      else if kind = KSetEx then
        try_ok (take_u64 body cursor ''fast SETEX ttl'') (\<lambda>(ttl_ms, cursor).
          try_ok (take_key_value body cursor ''fast SETEX'') (\<lambda>((key, value), cursor).
          Inr (SetEx key value ttl_ms, cursor)))
      else if kind = KGetEx then
        try_ok (take_u64 body cursor ''fast GETEX ttl'') (\<lambda>(ttl_ms, cursor).
          try_ok (take_len_prefixed_slice body cursor ''fast GETEX key'') (\<lambda>(key, cursor).
          Inr (GetEx key ttl_ms, cursor)))
      else if kind = KDelete then
        try_ok (take_len_prefixed_slice body cursor ''fast DELETE key'') (\<lambda>(key, cursor).
          Inr (Delete key, cursor))
      else if kind = KExists then
        try_ok (take_len_prefixed_slice body cursor ''fast EXISTS key'') (\<lambda>(key, cursor).
          Inr (Exists key, cursor))
      else if kind = KTtl then
        try_ok (take_len_prefixed_slice body cursor ''fast TTL key'') (\<lambda>(key, cursor).
          Inr (Ttl key, cursor))
      else if kind = KExpire then
        try_ok (take_u64 body cursor ''fast EXPIRE ttl'') (\<lambda>(ttl_ms, cursor).
          try_ok (take_len_prefixed_slice body cursor ''fast EXPIRE key'') (\<lambda>(key, cursor).
          Inr (Expire key ttl_ms, cursor)))
      else if kind = KMGet then
        try_ok (take_len_prefixed_list reserve body cursor ''fast MGET keys'') (\<lambda>(keys, cursor).
          Inr (MGet keys, cursor))
      else if kind = KMSet then
        try_ok (take_key_value_list reserve body cursor ''fast MSET items'') (\<lambda>(items, cursor).
          Inr (MSet items, cursor))
      else if kind = KHSet then
        try_ok (take_key_field_value body cursor ''fast HSET'') (\<lambda>((key, field, value), cursor).
          Inr (HSet key field value, cursor))
      else if kind = KHGet then
        try_ok (take_key_field body cursor ''fast HGET'') (\<lambda>((key, field), cursor).
          Inr (HGet key field, cursor))
      else if kind = KHDel then
        try_ok (take_key_field body cursor ''fast HDEL'') (\<lambda>((key, field), cursor).
          Inr (HDel key field, cursor))
      else if kind = KHLen then
        try_ok (take_len_prefixed_slice body cursor ''fast HLEN key'') (\<lambda>(key, cursor).
          Inr (HLen key, cursor))
      else if kind = KHMGet then
        try_ok (take_key_list reserve body cursor ''fast HMGET'') (\<lambda>((key, fields), cursor).
          Inr (HMGet key fields, cursor))
      else if kind = KLPush then
        try_ok (take_key_list reserve body cursor ''fast LPUSH'') (\<lambda>((key, values), cursor).
          Inr (LPush key values, cursor))
      else if kind = KRPush then
        try_ok (take_key_list reserve body cursor ''fast RPUSH'') (\<lambda>((key, values), cursor).
          Inr (RPush key values, cursor))
      else if kind = KLPop then
        try_ok (take_len_prefixed_slice body cursor ''fast LPOP key'') (\<lambda>(key, cursor).
          Inr (LPop key, cursor))
      else if kind = KRPop then
        try_ok (take_len_prefixed_slice body cursor ''fast RPOP key'') (\<lambda>(key, cursor).
          Inr (RPop key, cursor))
      else if kind = KLLen then
        try_ok (take_len_prefixed_slice body cursor ''fast LLEN key'') (\<lambda>(key, cursor).
          Inr (LLen key, cursor))
      else if kind = KLIndex then
        try_ok (take_i64 body cursor ''fast LINDEX index'') (\<lambda>(index, cursor).
          try_ok (take_len_prefixed_slice body cursor ''fast LINDEX key'') (\<lambda>(key, cursor).
          Inr (LIndex key index, cursor)))
      else if kind = KLRange then
        try_ok (take_i64 body cursor ''fast LRANGE start'') (\<lambda>(start, cursor).
          try_ok (take_i64 body cursor ''fast LRANGE stop'') (\<lambda>(stop, cursor).
          try_ok (take_len_prefixed_slice body cursor ''fast LRANGE key'') (\<lambda>(key, cursor).
          Inr (LRange key start stop, cursor))))
      else if kind = KSAdd then
        try_ok (take_key_list reserve body cursor ''fast SADD'') (\<lambda>((key, members), cursor).
          Inr (SAdd key members, cursor))
      else if kind = KSRem then
        try_ok (take_key_list reserve body cursor ''fast SREM'') (\<lambda>((key, members), cursor).
          Inr (SRem key members, cursor))
      else if kind = KSIsMember then
        try_ok (take_key_field body cursor ''fast SISMEMBER'') (\<lambda>((key, member), cursor).
          Inr (SIsMember key member, cursor))
      else if kind = KSCard then
        try_ok (take_len_prefixed_slice body cursor ''fast SCARD key'') (\<lambda>(key, cursor).
          Inr (SCard key, cursor))
      else if kind = KSMembers then
        try_ok (take_len_prefixed_slice body cursor ''fast SMEMBERS key'') (\<lambda>(key, cursor).
          Inr (SMembers key, cursor))
      else if kind = KZAdd then
        try_ok (take_f64 body cursor ''fast ZADD score'') (\<lambda>(score, cursor).
          try_ok (take_key_field body cursor ''fast ZADD'') (\<lambda>((key, member), cursor).
          Inr (ZAdd key score member, cursor)))
      else if kind = KZRem then
        try_ok (take_key_field body cursor ''fast ZREM'') (\<lambda>((key, member), cursor).
          Inr (ZRem key member, cursor))
      else if kind = KZScore then
        try_ok (take_key_field body cursor ''fast ZSCORE'') (\<lambda>((key, member), cursor).
          Inr (ZScore key member, cursor))
      else if kind = KZCard then
        try_ok (take_len_prefixed_slice body cursor ''fast ZCARD key'') (\<lambda>(key, cursor).
          Inr (ZCard key, cursor))
      else if kind = KZRange then
        try_ok (take_i64 body cursor ''fast ZRANGE start'') (\<lambda>(start, cursor).
          try_ok (take_i64 body cursor ''fast ZRANGE stop'') (\<lambda>(stop, cursor).
          try_ok (take_len_prefixed_slice body cursor ''fast ZRANGE key'') (\<lambda>(key, cursor).
          Inr (ZRange key start stop, cursor))))
      else if kind = KRespCommand then
        try_ok (take_len_prefixed_list reserve body cursor ''fast RESP command parts'') (\<lambda>(parts, cursor).
          Inr (RespCommand parts, cursor))
      else if \<not> is_generic_redis_opcode kind then Inl (NoRequestDecoder (discriminant kind))
      else try_ok (take_compact_len_prefixed_list reserve body cursor ''fast Redis command arguments'') (\<lambda>(args, cursor).
          Inr (RedisCommand kind args, cursor)))"

text \<open>A routing field is there when its flag is set.\<close>

definition take_flagged :: "u8 \<Rightarrow> u8 \<Rightarrow> (nat \<Rightarrow> 'a taken) \<Rightarrow> nat \<Rightarrow> 'a option taken" where
  "take_flagged flags flag item cursor =
     (if flags AND flag \<noteq> 0 then try_ok (item cursor) (\<lambda>(x, cursor). Inr (Some x, cursor)) else Inr (None, cursor))"

definition decode_body :: "(nat \<Rightarrow> bool) \<Rightarrow> fast_command_kind \<Rightarrow> u8 \<Rightarrow> bytes \<Rightarrow> fast_error + fast_request" where
  "decode_body reserve kind flags body =
     try_ok (take_flagged flags FAST_FLAG_KEY_HASH (\<lambda>cursor. take_u64 body cursor ''fast key hash'') 0) (\<lambda>(hash, cursor).
     try_ok (take_flagged flags FAST_FLAG_ROUTE_SHARD (\<lambda>cursor. take_u32 body cursor ''fast route shard'') cursor) (\<lambda>(shard, cursor).
     try_ok (take_flagged flags FAST_FLAG_KEY_TAG (\<lambda>cursor. take_u64 body cursor ''fast key tag'') cursor) (\<lambda>(tag, cursor).
     try_ok (if flags AND FAST_FLAG_REDIS_COMMAND_ARGS \<noteq> 0
             then decode_redis_args reserve kind body cursor
             else decode_typed reserve kind body cursor) (\<lambda>(cmd, cursor).
     try_ok (ensure_finished body cursor ''fast request'') (\<lambda>_.
     Inr \<lparr>key_hash = hash, route_shard = shard, key_tag = tag, command = cmd\<rparr>)))))"

definition from_u8 :: "u8 \<Rightarrow> fast_error + fast_command_kind" where
  "from_u8 v = (case from_opcode v of Some kind \<Rightarrow> Inr kind | None \<Rightarrow> Inl (UnsupportedCommand v))"

definition is_fast_request_prefix :: "u8 \<Rightarrow> bool" where
  "is_fast_request_prefix byte \<longleftrightarrow> byte = FAST_REQUEST_MAGIC"

definition decode_request :: "(nat \<Rightarrow> bool) \<Rightarrow> bytes \<Rightarrow> fast_error + (fast_request \<times> nat) option" where
  "decode_request reserve buffer =
     (if buffer = [] then Inr None
      else if buffer ! 0 \<noteq> FAST_REQUEST_MAGIC then Inl InvalidMagic
      else if length buffer < REQUEST_HEADER_LEN then Inr None
      else if buffer ! 1 \<noteq> FAST_PROTOCOL_VERSION then Inl (UnsupportedVersion (buffer ! 1))
      else try_ok (from_u8 (buffer ! 2)) (\<lambda>kind.
        let flags = buffer ! 3 in
        if flags AND NOT (FAST_FLAG_KEY_HASH OR FAST_FLAG_ROUTE_SHARD OR FAST_FLAG_KEY_TAG OR FAST_FLAG_REDIS_COMMAND_ARGS) \<noteq> 0
        then Inl (UnsupportedFlags flags)
        else case usize_add REQUEST_HEADER_LEN (unat (from_le (take 4 (drop 4 buffer)) :: u32)) of
          None \<Rightarrow> Inl FrameLengthOverflow
        | Some frame_len \<Rightarrow>
            if length buffer < frame_len then Inr None
            else try_ok (decode_body reserve kind flags (drop REQUEST_HEADER_LEN (take frame_len buffer)))
              (\<lambda>request. Inr (Some (request, frame_len)))))"

definition encode_len_prefixed :: "bytes \<Rightarrow> bytes \<Rightarrow> bytes" where
  "encode_len_prefixed value out = out @ u32_bytes (len32 value) @ value"

definition encode_key_value :: "bytes \<Rightarrow> bytes \<Rightarrow> bytes \<Rightarrow> bytes" where
  "encode_key_value key value out = out @ u32_bytes (len32 key) @ u32_bytes (len32 value) @ key @ value"

definition encode_key_field :: "bytes \<Rightarrow> bytes \<Rightarrow> bytes \<Rightarrow> bytes" where
  "encode_key_field key field out = out @ u32_bytes (len32 key) @ u32_bytes (len32 field) @ key @ field"

definition encode_key_field_value :: "bytes \<Rightarrow> bytes \<Rightarrow> bytes \<Rightarrow> bytes \<Rightarrow> bytes" where
  "encode_key_field_value key field value out =
     out @ u32_bytes (len32 key) @ u32_bytes (len32 field) @ u32_bytes (len32 value) @ key @ field @ value"

definition encode_len_prefixed_list :: "bytes list \<Rightarrow> bytes \<Rightarrow> bytes" where
  "encode_len_prefixed_list vals out = foldl (\<lambda>out value. encode_len_prefixed value out) (out @ u32_bytes (len32 vals)) vals"

function encode_var_u32 :: "u32 \<Rightarrow> bytes \<Rightarrow> bytes" where
  "encode_var_u32 value out =
     (if 0x80 \<le> value then encode_var_u32 (drop_bit 7 value) (out @ [(ucast value AND 0x7f) OR 0x80])
      else out @ [ucast value])"
  by pat_completeness auto
termination
proof (relation "measure (\<lambda>(v, out). unat v)", goal_cases)
  case (2 v out)
  then have "128 \<le> unat v" by (simp add: word_le_nat_alt)
  then show ?case by (simp add: drop_bit_eq_div unat_div)
qed simp

declare encode_var_u32.simps [simp del]

definition encode_compact_len_prefixed :: "bytes \<Rightarrow> bytes \<Rightarrow> bytes" where
  "encode_compact_len_prefixed value out = encode_var_u32 (len32 value) out @ value"

definition encode_compact_len_prefixed_list :: "bytes list \<Rightarrow> bytes \<Rightarrow> bytes" where
  "encode_compact_len_prefixed_list vals out =
     foldl (\<lambda>out value. encode_compact_len_prefixed value out) (encode_var_u32 (len32 vals) out) vals"

definition encode_key_list :: "bytes \<Rightarrow> bytes list \<Rightarrow> bytes \<Rightarrow> bytes" where
  "encode_key_list key vals out = encode_len_prefixed_list vals (encode_len_prefixed key out)"

definition encode_key_value_list :: "(bytes \<times> bytes) list \<Rightarrow> bytes \<Rightarrow> bytes" where
  "encode_key_value_list items out =
     foldl (\<lambda>out (key, value). encode_key_value key value out) (out @ u32_bytes (len32 items)) items"

text \<open>The match of \<^verbatim>\<open>encode_request\<close> on the command.\<close>

fun encode_command :: "fast_command \<Rightarrow> bytes \<Rightarrow> bytes" where
  "encode_command (Ping payload) out = out @ (case payload of Some payload \<Rightarrow> payload | None \<Rightarrow> [])"
| "encode_command Auth out = out"
| "encode_command Quit out = out"
| "encode_command Info out = out"
| "encode_command Command out = out"
| "encode_command CommandDocs out = out"
| "encode_command DbSize out = out"
| "encode_command Time out = out"
| "encode_command ClientGetName out = out"
| "encode_command ClientId out = out"
| "encode_command ClientList out = out"
| "encode_command ClientKill out = out"
| "encode_command (Hello proto) out = out @ (case proto of Some proto \<Rightarrow> u64_bytes proto | None \<Rightarrow> [])"
| "encode_command (Select db) out = out @ u64_bytes db"
| "encode_command (Echo payload) out = encode_len_prefixed payload out"
| "encode_command (ConfigGet patterns) out = encode_len_prefixed_list patterns out"
| "encode_command (ClientSetName name) out = encode_len_prefixed name out"
| "encode_command (Get key) out = encode_len_prefixed key out"
| "encode_command (Delete key) out = encode_len_prefixed key out"
| "encode_command (Exists key) out = encode_len_prefixed key out"
| "encode_command (Ttl key) out = encode_len_prefixed key out"
| "encode_command (Set key value) out = encode_key_value key value out"
| "encode_command (SetEx key value ttl_ms) out = encode_key_value key value (out @ u64_bytes ttl_ms)"
| "encode_command (GetEx key ttl_ms) out = encode_len_prefixed key (out @ u64_bytes ttl_ms)"
| "encode_command (Expire key ttl_ms) out = encode_len_prefixed key (out @ u64_bytes ttl_ms)"
| "encode_command (MGet keys) out = encode_len_prefixed_list keys out"
| "encode_command (MSet items) out = encode_key_value_list items out"
| "encode_command (HSet key field value) out = encode_key_field_value key field value out"
| "encode_command (HGet key field) out = encode_key_field key field out"
| "encode_command (HDel key field) out = encode_key_field key field out"
| "encode_command (SIsMember key field) out = encode_key_field key field out"
| "encode_command (ZRem key field) out = encode_key_field key field out"
| "encode_command (ZScore key field) out = encode_key_field key field out"
| "encode_command (HLen key) out = encode_len_prefixed key out"
| "encode_command (LPop key) out = encode_len_prefixed key out"
| "encode_command (RPop key) out = encode_len_prefixed key out"
| "encode_command (LLen key) out = encode_len_prefixed key out"
| "encode_command (SCard key) out = encode_len_prefixed key out"
| "encode_command (SMembers key) out = encode_len_prefixed key out"
| "encode_command (ZCard key) out = encode_len_prefixed key out"
| "encode_command (HMGet key vals) out = encode_key_list key vals out"
| "encode_command (LPush key vals) out = encode_key_list key vals out"
| "encode_command (RPush key vals) out = encode_key_list key vals out"
| "encode_command (SAdd key vals) out = encode_key_list key vals out"
| "encode_command (SRem key vals) out = encode_key_list key vals out"
| "encode_command (LIndex key index) out = encode_len_prefixed key (out @ i64_bytes index)"
| "encode_command (LRange key start stop) out = encode_len_prefixed key (out @ i64_bytes start @ i64_bytes stop)"
| "encode_command (ZRange key start stop) out = encode_len_prefixed key (out @ i64_bytes start @ i64_bytes stop)"
| "encode_command (ZAdd key score member) out = encode_key_field key member (out @ u64_bytes (f64_bits score))"
| "encode_command (RespCommand parts) out = encode_len_prefixed_list parts out"
| "encode_command (RedisCommand kind args) out = encode_compact_len_prefixed_list args out"
| "encode_command (NativeRedisCommand name args) out = encode_compact_len_prefixed_list args (encode_len_prefixed name out)"

definition is_redis_command :: "fast_command \<Rightarrow> bool" where
  "is_redis_command cmd \<longleftrightarrow>
     (case cmd of RedisCommand _ _ \<Rightarrow> True | NativeRedisCommand _ _ \<Rightarrow> True | _ \<Rightarrow> False)"

definition request_flags :: "fast_request \<Rightarrow> u8" where
  "request_flags request =
     (if key_hash request \<noteq> None then FAST_FLAG_KEY_HASH else 0) OR
     (if route_shard request \<noteq> None then FAST_FLAG_ROUTE_SHARD else 0) OR
     (if key_tag request \<noteq> None then FAST_FLAG_KEY_TAG else 0) OR
     (if is_redis_command (command request) then FAST_FLAG_REDIS_COMMAND_ARGS else 0)"

text \<open>\<^verbatim>\<open>out[i..i + 4].copy_from_slice(..)\<close>.\<close>

definition patch :: "nat \<Rightarrow> bytes \<Rightarrow> bytes \<Rightarrow> bytes" where
  "patch i bs out = take i out @ bs @ drop (i + length bs) out"

definition encode_request :: "fast_request \<Rightarrow> bytes \<Rightarrow> bytes" where
  "encode_request request out =
     (let out = out @ [FAST_REQUEST_MAGIC, FAST_PROTOCOL_VERSION, discriminant (command_kind (command request)), request_flags request];
          body_len_index = length out;
          out = out @ u32_bytes 0;
          body_start = length out;
          out = out @ (case key_hash request of Some h \<Rightarrow> u64_bytes h | None \<Rightarrow> []);
          out = out @ (case route_shard request of Some shard \<Rightarrow> u32_bytes shard | None \<Rightarrow> []);
          out = out @ (case key_tag request of Some tag \<Rightarrow> u64_bytes tag | None \<Rightarrow> []);
          out = encode_command (command request) out;
          body_len = word_of_int (int (length out - body_start))
      in patch body_len_index (u32_bytes body_len) out)"

section \<open>Responses\<close>

definition encode_array_body :: "bytes option list \<Rightarrow> bytes \<Rightarrow> bytes" where
  "encode_array_body vals out =
     foldl (\<lambda>out value. case value of
         Some value \<Rightarrow> out @ u32_bytes (len32 value) @ value
       | None \<Rightarrow> out @ u32_bytes (- 1)) (out @ u32_bytes (len32 vals)) vals"

fun encode_response :: "fast_response \<Rightarrow> bytes \<Rightarrow> bytes" where
  "encode_response Ok out = out @ [FAST_RESPONSE_MAGIC, FAST_PROTOCOL_VERSION, 0, 0] @ u32_bytes 0"
| "encode_response Null out = out @ [FAST_RESPONSE_MAGIC, FAST_PROTOCOL_VERSION, 1, 0] @ u32_bytes 0"
| "encode_response (Error message) out =
     out @ [FAST_RESPONSE_MAGIC, FAST_PROTOCOL_VERSION, 2, 0] @ u32_bytes (len32 message) @ message"
| "encode_response (Integer v) out =
     out @ [FAST_RESPONSE_MAGIC, FAST_PROTOCOL_VERSION, 3, 0] @ u32_bytes 8 @ i64_bytes v"
| "encode_response (Value bs) out =
     out @ [FAST_RESPONSE_MAGIC, FAST_PROTOCOL_VERSION, 4, 0] @ u32_bytes (len32 bs) @ bs"
| "encode_response (Boolean v) out =
     out @ [FAST_RESPONSE_MAGIC, FAST_PROTOCOL_VERSION, 5, 0] @ u32_bytes 1 @ [if v then 1 else 0]"
| "encode_response (Array vals) out =
     (let out = out @ [FAST_RESPONSE_MAGIC, FAST_PROTOCOL_VERSION, 6, 0];
          body_len_index = length out;
          out = out @ u32_bytes 0;
          body_start = length out;
          out = encode_array_body vals out;
          body_len = word_of_int (int (length out - body_start))
      in patch body_len_index (u32_bytes body_len) out)"
| "encode_response (Float v) out =
     out @ [FAST_RESPONSE_MAGIC, FAST_PROTOCOL_VERSION, 7, 0] @ u32_bytes 8 @ u64_bytes (f64_bits v)"
| "encode_response (NativeFrame bs) out =
     out @ [FAST_RESPONSE_MAGIC, FAST_PROTOCOL_VERSION, 8, 0] @ u32_bytes (len32 bs) @ bs"

definition take_array_item :: "bytes \<Rightarrow> nat \<Rightarrow> bytes option taken" where
  "take_array_item body cursor =
     try_ok (take_u32 body cursor ''fast array item'') (\<lambda>(len, cursor).
       if len = - 1 then Inr (None, cursor)
       else try_ok (take_exact_slice body cursor (unat len) ''fast array item'') (\<lambda>(value, cursor). Inr (Some value, cursor)))"

definition decode_array_body :: "(nat \<Rightarrow> bool) \<Rightarrow> bytes \<Rightarrow> fast_error + bytes option list" where
  "decode_array_body reserve body =
     try_ok (take_u32 body 0 ''fast array count'') (\<lambda>(n, cursor).
     try_ok (take_counted reserve ''fast array'' ((length body - cursor) div 4) (unat n) (take_array_item body) cursor) (\<lambda>(vals, cursor).
     try_ok (ensure_finished body cursor ''fast array response'') (\<lambda>_. Inr vals)))"

definition decode_status :: "(nat \<Rightarrow> bool) \<Rightarrow> u8 \<Rightarrow> bytes \<Rightarrow> fast_error + fast_response" where
  "decode_status reserve status body =
     (if status = 0 then Inr Ok
      else if status = 1 then Inr Null
      else if status = 2 then Inr (Error body)
      else if status = 3 then
        if length body \<noteq> 8 then Inl (ResponseTruncated ''integer'') else Inr (Integer (sint (from_le body :: u64)))
      else if status = 4 then Inr (Value body)
      else if status = 5 then
        if length body \<noteq> 1 then Inl (ResponseTruncated ''boolean'') else Inr (Boolean (body ! 0 \<noteq> 0))
      else if status = 6 then try_ok (decode_array_body reserve body) (\<lambda>vals. Inr (Array vals))
      else if status = 7 then
        if length body \<noteq> 8 then Inl (ResponseTruncated ''float'') else Inr (Float (F64 (from_le body)))
      else if status = 8 then Inr (NativeFrame body)
      else Inl (UnsupportedStatus status))"

definition decode_response :: "(nat \<Rightarrow> bool) \<Rightarrow> bytes \<Rightarrow> fast_error + (fast_response \<times> nat) option" where
  "decode_response reserve buffer =
     (if buffer = [] then Inr None
      else if buffer ! 0 \<noteq> FAST_RESPONSE_MAGIC then Inl InvalidMagic
      else if length buffer < RESPONSE_HEADER_LEN then Inr None
      else if buffer ! 1 \<noteq> FAST_PROTOCOL_VERSION then Inl (UnsupportedVersion (buffer ! 1))
      else case usize_add RESPONSE_HEADER_LEN (unat (from_le (take 4 (drop 4 buffer)) :: u32)) of
        None \<Rightarrow> Inl FrameLengthOverflow
      | Some frame_len \<Rightarrow>
          if length buffer < frame_len then Inr None
          else try_ok (decode_status reserve (buffer ! 2) (drop RESPONSE_HEADER_LEN (take frame_len buffer)))
            (\<lambda>response. Inr (Some (response, frame_len))))"

section \<open>The keys of a request\<close>

fun route_keys :: "fast_command \<Rightarrow> fast_redis_route_keys option" where
  "route_keys (Ping _) = Some NoRouteKeys"
| "route_keys Auth = Some NoRouteKeys"
| "route_keys (Hello _) = Some NoRouteKeys"
| "route_keys (Select _) = Some NoRouteKeys"
| "route_keys Quit = Some NoRouteKeys"
| "route_keys (Echo _) = Some NoRouteKeys"
| "route_keys Info = Some NoRouteKeys"
| "route_keys Command = Some NoRouteKeys"
| "route_keys CommandDocs = Some NoRouteKeys"
| "route_keys (ConfigGet _) = Some NoRouteKeys"
| "route_keys DbSize = Some NoRouteKeys"
| "route_keys Time = Some NoRouteKeys"
| "route_keys ClientGetName = Some NoRouteKeys"
| "route_keys (ClientSetName _) = Some NoRouteKeys"
| "route_keys ClientId = Some NoRouteKeys"
| "route_keys ClientList = Some NoRouteKeys"
| "route_keys ClientKill = Some NoRouteKeys"
| "route_keys (Get key) = Some (RouteKeys [key])"
| "route_keys (Set key _) = Some (RouteKeys [key])"
| "route_keys (SetEx key _ _) = Some (RouteKeys [key])"
| "route_keys (GetEx key _) = Some (RouteKeys [key])"
| "route_keys (Delete key) = Some (RouteKeys [key])"
| "route_keys (Exists key) = Some (RouteKeys [key])"
| "route_keys (Ttl key) = Some (RouteKeys [key])"
| "route_keys (Expire key _) = Some (RouteKeys [key])"
| "route_keys (MGet keys) = Some (RouteKeys keys)"
| "route_keys (MSet items) = Some (RouteKeys (map fst items))"
| "route_keys (HSet key _ _) = Some (RouteKeys [key])"
| "route_keys (HGet key _) = Some (RouteKeys [key])"
| "route_keys (HDel key _) = Some (RouteKeys [key])"
| "route_keys (HLen key) = Some (RouteKeys [key])"
| "route_keys (HMGet key _) = Some (RouteKeys [key])"
| "route_keys (LPush key _) = Some (RouteKeys [key])"
| "route_keys (RPush key _) = Some (RouteKeys [key])"
| "route_keys (LPop key) = Some (RouteKeys [key])"
| "route_keys (RPop key) = Some (RouteKeys [key])"
| "route_keys (LLen key) = Some (RouteKeys [key])"
| "route_keys (LIndex key _) = Some (RouteKeys [key])"
| "route_keys (LRange key _ _) = Some (RouteKeys [key])"
| "route_keys (SAdd key _) = Some (RouteKeys [key])"
| "route_keys (SRem key _) = Some (RouteKeys [key])"
| "route_keys (SIsMember key _) = Some (RouteKeys [key])"
| "route_keys (SCard key) = Some (RouteKeys [key])"
| "route_keys (SMembers key) = Some (RouteKeys [key])"
| "route_keys (ZAdd key _ _) = Some (RouteKeys [key])"
| "route_keys (ZRem key _) = Some (RouteKeys [key])"
| "route_keys (ZScore key _) = Some (RouteKeys [key])"
| "route_keys (ZCard key) = Some (RouteKeys [key])"
| "route_keys (ZRange key _ _) = Some (RouteKeys [key])"
| "route_keys (RespCommand parts) = (case parts of
     [] \<Rightarrow> Some NoRouteKeys
   | name # args \<Rightarrow> (case from_redis_name name of Some kind \<Rightarrow> redis_route_keys kind args | None \<Rightarrow> Some NoRouteKeys))"
| "route_keys (RedisCommand kind args) = redis_route_keys kind args"
| "route_keys (NativeRedisCommand name args) = 
     (case from_redis_name name of Some kind \<Rightarrow> redis_route_keys kind args | None \<Rightarrow> Some NoRouteKeys)"

definition route_key :: "fast_command \<Rightarrow> bytes option option" where
  "route_key cmd = map_option first_key (route_keys cmd)"

end
