(* ===== verification/FastRoundTrip.thy ===== *)
theory FastRoundTrip
  imports Fast "HOL-Library.Sublist"
begin

text \<open>
  Decoding inverts encoding for the native protocol. \<open>reads p x bs\<close> says that the reader \<open>p\<close> takes \<open>x\<close> from the bytes \<open>bs\<close> wherever they
  stand in a body; it is closed under the sequencing of readers, so that each reader of \<^verbatim>\<open>protocol/fast.rs\<close> is matched with its encoder by
  introduction rules.
\<close>

unbundle bit_operations_syntax

section \<open>Little-endian words\<close>

lemma length_to_le [simp]: "length (to_le k w) = k"
  by (induction k w rule: to_le.induct) auto

lemma from_to_le: "from_le (to_le k (w :: 'a::len word)) = take_bit (8 * k) w"
proof (induction k w rule: to_le.induct)
  case (2 k w)
  then show ?case
    by (auto intro!: bit_word_eqI simp: bit_or_iff bit_push_bit_iff bit_take_bit_iff bit_drop_bit_eq bit_unsigned_iff)
qed simp

lemma from_le_u32 [simp]: "from_le (u32_bytes w) = w"
  by (simp add: from_to_le take_bit_word_eq_self)

lemma from_le_u64 [simp]: "from_le (u64_bytes w) = w"
  by (simp add: from_to_le take_bit_word_eq_self)

text \<open>Less than 4 Gi elements, as lengths are 32 bits wide.\<close>

definition short :: "'a list \<Rightarrow> bool" where
  "short xs \<longleftrightarrow> int (length xs) < 2 ^ 32"

lemma unat_len32: "short xs \<Longrightarrow> unat (len32 xs) = length xs"
  by (simp add: short_def len32_def unat_of_nat)

lemma sint_i64: "in_i64 v \<Longrightarrow> sint (word_of_int v :: u64) = v"
  by (simp add: in_i64_def int_word_sint)

section \<open>Readers\<close>

lemma try_ok_simps [simp]: "try_ok (Inl e) f = Inl e" "try_ok (Inr x) f = f x"
  by (simp_all add: try_ok_def)

definition reads :: "(bytes \<Rightarrow> nat \<Rightarrow> 'a taken) \<Rightarrow> 'a \<Rightarrow> bytes \<Rightarrow> bool" where
  "reads p x bs \<longleftrightarrow> (\<forall>pre post. p (pre @ bs @ post) (length pre) = Inr (x, length pre + length bs))"

named_theorems reads_intros

lemma reads_at: "reads p x bs \<Longrightarrow> p (pre @ bs @ post) (length pre) = Inr (x, length pre + length bs)"
  by (simp add: reads_def)

lemma reads_return [reads_intros]: "reads (\<lambda>body cursor. Inr (x, cursor)) x []"
  by (simp add: reads_def)

lemma reads_bind [reads_intros]:
  assumes "reads p v bs" "reads (q v) y cs"
  shows "reads (\<lambda>body cursor. try_ok (p body cursor) (\<lambda>(v, cursor). q v body cursor)) y (bs @ cs)"
  unfolding reads_def
proof (intro allI)
  fix pre post
  from reads_at [OF assms(1), of pre "cs @ post"] reads_at [OF assms(2), of "pre @ bs" post]
  show "try_ok (p (pre @ (bs @ cs) @ post) (length pre)) (\<lambda>(v, cursor). q v (pre @ (bs @ cs) @ post) cursor) =
      Inr (y, length pre + length (bs @ cs))"
    by (simp add: add.assoc)
qed

lemma reads_last [reads_intros]:
  assumes "reads p v bs"
  shows "reads (\<lambda>body cursor. try_ok (p body cursor) (\<lambda>(v, cursor). Inr (g v, cursor))) (g v) bs"
  using reads_bind [OF assms reads_return, of g] by simp

lemma reads_words [reads_intros]:
  "reads (\<lambda>body cursor. take_u32 body cursor field) w (u32_bytes w)"
  "reads (\<lambda>body cursor. take_u64 body cursor field) d (u64_bytes d)"
  "in_i64 v \<Longrightarrow> reads (\<lambda>body cursor. take_i64 body cursor field) v (i64_bytes v)"
  "reads (\<lambda>body cursor. take_f64 body cursor field) x (u64_bytes (f64_bits x))"
  by (simp_all add: reads_def take_u32_def take_u64_def take_i64_def take_f64_def sint_i64)

lemma reads_slice [reads_intros]:
  "n = length bs \<Longrightarrow> reads (\<lambda>body cursor. take_exact_slice body cursor n field) bs bs"
  by (simp add: reads_def take_exact_slice_def)

lemma reads_len_prefixed [reads_intros]:
  assumes "short bs"
  shows "reads (\<lambda>body cursor. take_len_prefixed_slice body cursor field) bs (u32_bytes (len32 bs) @ bs)"
  unfolding take_len_prefixed_slice_def
  by (rule reads_bind [OF reads_words(1) reads_slice]) (rule unat_len32 [OF assms])

lemma reads_pair [reads_intros]:
  assumes "short k" "short v"
  shows "reads (\<lambda>body cursor. take_key_value body cursor field) (k, v) (u32_bytes (len32 k) @ u32_bytes (len32 v) @ k @ v)"
    and "reads (\<lambda>body cursor. take_key_field body cursor field) (k, v) (u32_bytes (len32 k) @ u32_bytes (len32 v) @ k @ v)"
  unfolding take_key_value_def take_key_field_def
  by (rule reads_words reads_slice reads_last reads_bind unat_len32 assms)+

lemma reads_triple [reads_intros]:
  assumes "short k" "short f" "short v"
  shows "reads (\<lambda>body cursor. take_key_field_value body cursor field) (k, f, v)
    (u32_bytes (len32 k) @ u32_bytes (len32 f) @ u32_bytes (len32 v) @ k @ f @ v)"
  unfolding take_key_field_value_def
  by (rule reads_words reads_slice reads_last reads_bind unat_len32 assms)+

section \<open>Lists\<close>

lemma reads_times:
  assumes "\<And>x. x \<in> set xs \<Longrightarrow> reads item x (enc x)"
  shows "reads (\<lambda>body cursor. take_times (length xs) (item body) cursor) xs (concat (map enc xs))"
  using assms
proof (induction xs)
  case (Cons x xs)
  from Cons.prems have "reads item x (enc x)" by simp
  from reads_bind [OF this reads_bind [OF Cons.IH reads_return]] Cons.prems
  show ?case by simp
qed (simp add: reads_def)

lemma reads_counted:
  assumes "n = length xs" "n \<le> FAST_MAX_COLLECTION_ITEMS" "reserve n"
    and items: "\<And>x. x \<in> set xs \<Longrightarrow> reads item x (enc x)"
    and room: "\<And>body cursor. length (concat (map enc xs)) \<le> length body - cursor \<Longrightarrow> n \<le> room body cursor"
  shows "reads (\<lambda>body cursor. take_counted reserve field (room body cursor) n (item body) cursor) xs (concat (map enc xs))"
  unfolding reads_def
proof (intro allI)
  fix pre post
  let ?body = "pre @ concat (map enc xs) @ post"
  have "n \<le> room ?body (length pre)" by (rule room) simp
  then show "take_counted reserve field (room ?body (length pre)) n (item ?body) (length pre) =
      Inr (xs, length pre + length (concat (map enc xs)))"
    using assms(1-3) reads_at [OF reads_times [of xs item enc], OF items, of pre post] by (simp add: take_counted_def)
qed

lemma concat_min:
  "(\<And>x. x \<in> set xs \<Longrightarrow> m \<le> length (enc x)) \<Longrightarrow> m * length xs \<le> length (concat (map enc xs))"
proof (induction xs)
  case (Cons x xs)
  then have "m \<le> length (enc x)" "m * length xs \<le> length (concat (map enc xs))" by simp_all
  then show ?case by simp
qed simp

text \<open>A list that the decoders accept.\<close>

definition list_ok :: "(nat \<Rightarrow> bool) \<Rightarrow> 'a list \<Rightarrow> bool" where
  "list_ok reserve xs \<longleftrightarrow> length xs \<le> FAST_MAX_COLLECTION_ITEMS \<and> reserve (length xs)"

lemma list_ok_short: "list_ok reserve xs \<Longrightarrow> unat (len32 xs) = length xs"
  by (simp add: list_ok_def FAST_MAX_COLLECTION_ITEMS_def unat_len32 short_def)

abbreviation slice_bytes :: "bytes \<Rightarrow> bytes" where
  "slice_bytes bs \<equiv> u32_bytes (len32 bs) @ bs"

abbreviation pair_bytes :: "bytes \<times> bytes \<Rightarrow> bytes" where
  "pair_bytes kv \<equiv> u32_bytes (len32 (fst kv)) @ u32_bytes (len32 (snd kv)) @ fst kv @ snd kv"

lemma reads_list [reads_intros]:
  assumes "list_ok reserve xs" "\<forall>x\<in>set xs. short x"
  shows "reads (\<lambda>body cursor. take_len_prefixed_list reserve body cursor field) xs
    (u32_bytes (len32 xs) @ concat (map slice_bytes xs))"
  unfolding take_len_prefixed_list_def
proof (rule reads_bind [OF reads_words(1)], rule reads_counted)
  show "unat (len32 xs) \<le> (length body - cursor) div 4" if "length (concat (map slice_bytes xs)) \<le> length body - cursor"
    for body :: bytes and cursor
    using that concat_min [of xs 4 slice_bytes] by (simp add: list_ok_short [OF assms(1)])
  show "reads (\<lambda>body cursor. take_len_prefixed_slice body cursor field) x (slice_bytes x)" if "x \<in> set xs" for x
    using that assms(2) by (blast intro: reads_len_prefixed)
qed (use assms(1) in \<open>simp_all add: list_ok_short list_ok_def\<close>)

lemma reads_pairs [reads_intros]:
  assumes "list_ok reserve xs" "\<forall>(k, v)\<in>set xs. short k \<and> short v"
  shows "reads (\<lambda>body cursor. take_key_value_list reserve body cursor field) xs
    (u32_bytes (len32 xs) @ concat (map pair_bytes xs))"
  unfolding take_key_value_list_def
proof (rule reads_bind [OF reads_words(1)], rule reads_counted)
  show "unat (len32 xs) \<le> (length body - cursor) div 8" if "length (concat (map pair_bytes xs)) \<le> length body - cursor"
    for body :: bytes and cursor
    using that concat_min [of xs 8 pair_bytes] by (simp add: list_ok_short [OF assms(1)])
  show "reads (\<lambda>body cursor. take_key_value body cursor field) x (pair_bytes x)" if "x \<in> set xs" for x
    using reads_pair(1) [of "fst x" "snd x"] that assms(2) by (simp add: case_prod_unfold)
qed (use assms(1) in \<open>simp_all add: list_ok_short list_ok_def\<close>)

lemma reads_key_list [reads_intros]:
  assumes "short k" "list_ok reserve xs" "\<forall>x\<in>set xs. short x"
  shows "reads (\<lambda>body cursor. take_key_list reserve body cursor field) (k, xs)
    (u32_bytes (len32 k) @ k @ u32_bytes (len32 xs) @ concat (map slice_bytes xs))"
  using reads_bind [OF reads_len_prefixed [OF assms(1)] reads_last [OF reads_list [OF assms(2,3)]]]
  by (simp add: take_key_list_def)

section \<open>Variable-length integers\<close>

lemma encode_var_append: "encode_var_u32 w out = out @ encode_var_u32 w []"
proof (induction w out rule: encode_var_u32.induct)
  case (1 w out)
  then show ?case by (subst (1 2) encode_var_u32.simps) (simp add: encode_var_u32.simps)
qed

lemma mask7: "(0x7f :: 'a::len word) = mask 7"
  by (simp add: mask_eq_exp_minus_1)

lemma var_byte:
  fixes w :: u32
  shows "ucast (((ucast w :: u8) AND 0x7f OR 0x80) AND 0x7f) = w AND 0x7f"
    and "((ucast w :: u8) AND 0x7f OR 0x80) AND 0x80 \<noteq> 0"
proof -
  have "take_bit 7 (0x80 :: u8) = 0" by simp
  then have "(((ucast w :: u8) AND 0x7f OR 0x80) AND 0x7f) = take_bit 7 (ucast w)"
    by (simp add: mask7 flip: take_bit_eq_mask)
  then show "ucast (((ucast w :: u8) AND 0x7f OR 0x80) AND 0x7f) = w AND 0x7f"
    by (auto intro!: bit_word_eqI simp: mask7 bit_unsigned_iff bit_take_bit_iff bit_and_iff bit_mask_iff)
  have "bit (((ucast w :: u8) AND 0x7f OR 0x80) AND 0x80) 7" by (simp add: bit_or_iff bit_and_iff)
  then show "((ucast w :: u8) AND 0x7f OR 0x80) AND 0x80 \<noteq> 0" by (metis bit_0_eq bot_apply bot_boolE)
qed

lemma var_bits:
  fixes w :: u32
  shows "(acc OR push_bit shift (w AND 0x7f)) OR push_bit (shift + 7) (drop_bit 7 w) = acc OR push_bit shift w"
proof (rule bit_word_eqI)
  fix n
  have "7 + (n - (shift + 7)) = n - shift" if "shift + 7 \<le> n" using that by simp
  then show "bit ((acc OR push_bit shift (w AND 0x7f)) OR push_bit (shift + 7) (drop_bit 7 w)) n = bit (acc OR push_bit shift w) n"
    by (cases "shift + 7 \<le> n") (auto simp: mask7 bit_or_iff bit_push_bit_iff bit_and_iff bit_mask_iff bit_drop_bit_eq)
qed

lemma last_byte:
  fixes w :: u32
  assumes "\<not> 0x80 \<le> w"
  shows "ucast ((ucast w :: u8) AND 0x7f) = w" "(ucast w :: u8) AND 0x80 = 0"
proof -
  have "w < 2 ^ 7" using assms by simp
  then have w: "take_bit 7 w = w" by (metis less_mask_eq take_bit_eq_mask)
  then have b: "n < 7" if "bit w n" for n using that by (metis bit_take_bit_iff)
  show "ucast ((ucast w :: u8) AND 0x7f) = w"
    by (rule bit_word_eqI) (use b in \<open>fastforce simp: mask7 bit_unsigned_iff bit_and_iff bit_mask_iff dest: b less_trans\<close>)
  have "n = 7" if "bit ((2 :: u8) ^ 7) n" for n using that by (simp only: bit_exp_iff)
  then have "n = 7" if "bit (0x80 :: u8) n" for n using that by simp
  with b show "(ucast w :: u8) AND 0x80 = 0"
    by (intro bit_word_eqI) (fastforce simp: bit_unsigned_iff bit_and_iff)
qed

text \<open>Five groups of seven bits are enough for 32 bits.\<close>

lemma var_loop_reads:
  assumes "unat w < 2 ^ (7 * n)" "0 < n"
  shows "reads (\<lambda>body cursor. var_u32_loop n body cursor field acc shift) (acc OR push_bit shift w) (encode_var_u32 w [])"
  using assms
proof (induction n arbitrary: w acc shift)
  case (Suc n)
  show ?case
  proof (cases "0x80 \<le> w")
    case True
    let ?b = "(ucast w :: u8) AND 0x7f OR 0x80"
    have "unat (drop_bit 7 w) = unat w div 2 ^ 7" by (simp add: drop_bit_eq_div unat_div)
    moreover have n: "0 < n" using Suc.prems(1) True by (cases n) (auto simp: word_le_nat_alt)
    ultimately have "unat (drop_bit 7 w) < 2 ^ (7 * n)"
      using Suc.prems(1) by (simp add: div_less_iff_less_mult power_add mult.commute)
    note rest = Suc.IH [OF this n, of "acc OR push_bit shift (w AND 0x7f)" "shift + 7", unfolded var_bits]
    have enc: "encode_var_u32 w [] = ?b # encode_var_u32 (drop_bit 7 w) []"
      using True by (subst encode_var_u32.simps, subst encode_var_append) simp
    show ?thesis
      unfolding reads_def enc
    proof (intro allI)
      fix pre post
      from reads_at [OF rest, of "pre @ [?b]" post] var_byte [of w]
      show "var_u32_loop (Suc n) (pre @ (?b # encode_var_u32 (drop_bit 7 w) []) @ post) (length pre) field acc shift =
        Inr (acc OR push_bit shift w, length pre + length (?b # encode_var_u32 (drop_bit 7 w) []))"
        by (simp add: Let_def nth_append)
    qed
  next
    case False
    have "encode_var_u32 w [] = [ucast w]" using False by (subst encode_var_u32.simps) simp
    with last_byte [OF False] show ?thesis by (simp add: reads_def nth_append Let_def)
  qed
qed simp

lemma reads_var [reads_intros]:
  "reads (\<lambda>body cursor. take_var_u32 body cursor field) w (encode_var_u32 w [])"
proof -
  have "unat w < 2 ^ (7 * 5)" using unsigned_less [of w, where ?'a = nat] by simp
  from var_loop_reads [OF this, of field 0 0] show ?thesis by (simp add: take_var_u32_def)
qed

abbreviation compact_bytes :: "bytes \<Rightarrow> bytes" where
  "compact_bytes bs \<equiv> encode_var_u32 (len32 bs) [] @ bs"

lemma reads_compact:
  assumes "short bs"
  shows "reads (\<lambda>body cursor. take_compact_len_prefixed_slice body cursor field) bs (compact_bytes bs)"
  unfolding take_compact_len_prefixed_slice_def
  by (rule reads_bind [OF reads_var reads_slice]) (rule unat_len32 [OF assms])

lemma var_not_empty: "1 \<le> length (encode_var_u32 w out)"
  by (subst encode_var_u32.simps) (simp add: encode_var_append [of _ "_ @ _"])

lemma reads_compact_list [reads_intros]:
  assumes "list_ok reserve xs" "\<forall>x\<in>set xs. short x"
  shows "reads (\<lambda>body cursor. take_compact_len_prefixed_list reserve body cursor field) xs
    (encode_var_u32 (len32 xs) [] @ concat (map compact_bytes xs))"
  unfolding take_compact_len_prefixed_list_def
proof (rule reads_bind [OF reads_var], rule reads_counted)
  show "unat (len32 xs) \<le> length body - cursor" if "length (concat (map compact_bytes xs)) \<le> length body - cursor"
    for body :: bytes and cursor
    using that concat_min [of xs 1 compact_bytes] var_not_empty by (simp add: list_ok_short [OF assms(1)] trans_le_add1)
  show "reads (\<lambda>body cursor. take_compact_len_prefixed_slice body cursor field) x (compact_bytes x)" if "x \<in> set xs" for x
    using that assms(2) by (blast intro: reads_compact)
qed (use assms(1) in \<open>simp_all add: list_ok_short list_ok_def\<close>)

section \<open>What the encoders append\<close>

lemma encode_compact: "encode_compact_len_prefixed v out = out @ compact_bytes v"
  unfolding encode_compact_len_prefixed_def by (subst encode_var_append) simp

lemma encode_compact_list:
  "encode_compact_len_prefixed_list vs out = out @ encode_var_u32 (len32 vs) [] @ concat (map compact_bytes vs)"
proof -
  have "foldl (\<lambda>out value. encode_compact_len_prefixed value out) out' vs = out' @ concat (map compact_bytes vs)" for out'
    by (rule foldl_append) (rule encode_compact)
  then show ?thesis unfolding encode_compact_len_prefixed_list_def by (subst encode_var_append) simp
qed

lemma encoders:
  "encode_len_prefixed v out = out @ slice_bytes v"
  "encode_key_value k v out = out @ pair_bytes (k, v)"
  "encode_key_field k v out = out @ pair_bytes (k, v)"
  "encode_key_field_value k f v out = out @ u32_bytes (len32 k) @ u32_bytes (len32 f) @ u32_bytes (len32 v) @ k @ f @ v"
  "encode_len_prefixed_list vs out = out @ u32_bytes (len32 vs) @ concat (map slice_bytes vs)"
  "encode_key_list k vs out = out @ slice_bytes k @ u32_bytes (len32 vs) @ concat (map slice_bytes vs)"
  "encode_key_value_list kvs out = out @ u32_bytes (len32 kvs) @ concat (map pair_bytes kvs)"
  "encode_compact_len_prefixed_list vs out = out @ encode_var_u32 (len32 vs) [] @ concat (map compact_bytes vs)"
  by (simp_all add: encode_len_prefixed_def encode_key_value_def encode_key_field_def encode_key_field_value_def
      encode_len_prefixed_list_def encode_key_list_def encode_key_value_list_def encode_compact_list
      case_prod_unfold foldl_append [where fb = slice_bytes] foldl_append [where fb = pair_bytes])

lemma encode_command_append: "encode_command c out = out @ encode_command c []"
  by (cases c) (simp_all add: encoders split: option.split)

section \<open>Commands\<close>

text \<open>
  The commands that are read back: a \<^verbatim>\<open>PING\<close> with a payload has a nonempty one, lists are not too long, numbers fit, and the kind of a
  \<open>RedisCommand\<close> has a Redis name.
\<close>

definition command_ok :: "(nat \<Rightarrow> bool) \<Rightarrow> fast_command \<Rightarrow> bool" where
  "command_ok reserve cmd \<longleftrightarrow>
     (case cmd of
        Ping payload \<Rightarrow> payload \<noteq> Some []
      | ConfigGet vs \<Rightarrow> list_ok reserve vs
      | MGet vs \<Rightarrow> list_ok reserve vs
      | MSet kvs \<Rightarrow> list_ok reserve kvs
      | HMGet _ vs \<Rightarrow> list_ok reserve vs
      | LPush _ vs \<Rightarrow> list_ok reserve vs
      | RPush _ vs \<Rightarrow> list_ok reserve vs
      | SAdd _ vs \<Rightarrow> list_ok reserve vs
      | SRem _ vs \<Rightarrow> list_ok reserve vs
      | LIndex _ i \<Rightarrow> in_i64 i
      | LRange _ i j \<Rightarrow> in_i64 i \<and> in_i64 j
      | ZRange _ i j \<Rightarrow> in_i64 i \<and> in_i64 j
      | RespCommand vs \<Rightarrow> list_ok reserve vs
      | RedisCommand kind vs \<Rightarrow> redis_name kind \<noteq> None \<and> list_ok reserve vs
      | NativeRedisCommand _ vs \<Rightarrow> list_ok reserve vs
      | _ \<Rightarrow> True)"

lemma short_parts: "short (xs @ ys) \<Longrightarrow> short xs \<and> short ys"
  by (simp add: short_def)

lemma short_concat: "short (concat (map f xs)) \<Longrightarrow> x \<in> set xs \<Longrightarrow> short (f x)"
  by (induction xs) (auto dest: short_parts)

lemma short_slices:
  "short (concat (map slice_bytes xs)) \<Longrightarrow> \<forall>x\<in>set xs. short x"
  "short (concat (map compact_bytes xs)) \<Longrightarrow> \<forall>x\<in>set xs. short x"
  "short (concat (map pair_bytes kvs)) \<Longrightarrow> \<forall>(k, v)\<in>set kvs. short k \<and> short v"
  by (fastforce dest: short_concat short_parts)+

lemma reads_tuples:
  "reads p (k, v) bs \<Longrightarrow> reads (\<lambda>body cursor. try_ok (p body cursor) (\<lambda>((k, v), cursor). Inr (g k v, cursor))) (g k v) bs"
  "reads q (k, f, v) bs \<Longrightarrow>
    reads (\<lambda>body cursor. try_ok (q body cursor) (\<lambda>((k, f, v), cursor). Inr (h k f v, cursor))) (h k f v) bs"
  by (simp_all add: reads_def)

lemma typed_reads:
  assumes "command_ok reserve c" "short (encode_command c [])" "\<not> is_redis_command c"
    and "\<nexists>p. c = Ping p" "\<nexists>p. c = Hello p"
  shows "reads (\<lambda>body cursor. decode_typed reserve (command_kind c) body cursor) c (encode_command c [])"
  by (insert assms; cases c; simp add: decode_typed_def [abs_def] command_ok_def is_redis_command_def encoders;
      ((erule conjE | drule short_parts)+)?;
      (rule reads_return reads_last reads_tuples reads_intros reads_bind [OF reads_words(2)]
          reads_bind [OF reads_words(3)] reads_bind [OF reads_words(4)]
        | assumption | erule short_slices)+)

lemma native_unnamed: "redis_name KNativeRedisCommand = None"
  by code_simp

lemma redis_reads:
  assumes "command_ok reserve c" "short (encode_command c [])" "is_redis_command c"
  shows "reads (\<lambda>body cursor. decode_redis_args reserve (command_kind c) body cursor) c (encode_command c [])"
proof (cases c)
  case (RedisCommand kind args)
  with assms obtain n where n: "redis_name kind = Some n" and "list_ok reserve args" by (auto simp: command_ok_def)
  moreover from n native_unnamed have "kind \<noteq> KNativeRedisCommand" by auto
  moreover have "\<forall>x\<in>set args. short x" using assms(2) RedisCommand by (auto simp: encoders dest: short_parts short_slices)
  ultimately show ?thesis
    using reads_last [OF reads_compact_list [of reserve args]] by (simp add: RedisCommand decode_redis_args_def [abs_def] encoders)
next
  case (NativeRedisCommand name args)
  with assms have "list_ok reserve args" "short name" "\<forall>x\<in>set args. short x"
    by (auto simp: encoders command_ok_def dest!: short_parts dest: short_slices)
  then have "reads (\<lambda>body cursor. decode_redis_args reserve (command_kind c) body cursor) c
      (slice_bytes name @ encode_var_u32 (len32 args) [] @ concat (map compact_bytes args))"
    unfolding decode_redis_args_def NativeRedisCommand
    by (simp del: append_assoc) (rule reads_last reads_bind reads_len_prefixed reads_compact_list | assumption)+
  then show ?thesis by (simp add: NativeRedisCommand encoders)
qed (use assms(3) in \<open>simp_all add: is_redis_command_def\<close>)

lemma typed_optional:
  "decode_typed reserve KPing body cursor = Inr (Ping (if drop cursor body \<noteq> [] then Some (drop cursor body) else None), length body)"
  "decode_typed reserve KHello body cursor =
    (if 8 \<le> length body - cursor
     then try_ok (take_u64 body cursor ''fast HELLO proto'') (\<lambda>(proto, cursor). Inr (Hello (Some proto), cursor))
     else Inr (Hello None, cursor))"
  by (simp_all add: decode_typed_def take_u64_def)

lemma command_body:
  assumes "command_ok reserve c" "short (encode_command c [])"
  shows "(if is_redis_command c then decode_redis_args reserve (command_kind c) (pre @ encode_command c []) (length pre)
          else decode_typed reserve (command_kind c) (pre @ encode_command c []) (length pre)) =
         Inr (c, length pre + length (encode_command c []))"
proof (cases "(\<exists>p. c = Ping p) \<or> (\<exists>p. c = Hello p)")
  case True
  with assms(1) show ?thesis
    by (auto simp: is_redis_command_def typed_optional command_ok_def take_u64_def split: option.split)
next
  case False
  with typed_reads [OF assms] redis_reads [OF assms] show ?thesis
    by (auto dest!: reads_at [of _ _ _ pre "[]"])
qed

lemma typed_opcodes:
  "list_all (\<lambda>k. from_opcode (discriminant k) = Some k)
     [KPing, KAuth, KHello, KSelect, KQuit, KEcho, KInfo, KCommand, KCommandDocs, KConfigGet, KDbSize, KTime, KClientGetName,
      KClientSetName, KClientId, KClientList, KClientKill, KGet, KSet, KSetEx, KGetEx, KDelete, KExists, KTtl, KExpire, KMGet,
      KMSet, KHSet, KHGet, KHDel, KHLen, KHMGet, KLPush, KRPush, KLPop, KRPop, KLLen, KLIndex, KLRange, KSAdd, KSRem, KSIsMember,
      KSCard, KSMembers, KZAdd, KZRem, KZScore, KZCard, KZRange, KRespCommand, KNativeRedisCommand]"
  by code_simp

lemma kind_opcode: "command_ok reserve c \<Longrightarrow> from_u8 (discriminant (command_kind c)) = Inr (command_kind c)"
proof -
  assume ok: "command_ok reserve c"
  have "from_opcode (discriminant (command_kind c)) = Some (command_kind c)"
  proof (cases "\<exists>kind args. c = RedisCommand kind args")
    case True
    with ok show ?thesis by (auto simp: command_ok_def intro: named_opcode)
  next
    case False
    then show ?thesis using typed_opcodes by (cases c) simp_all
  qed
  then show ?thesis by (simp add: from_u8_def)
qed

section \<open>Frames\<close>

text \<open>The header of eight bytes and the body.\<close>

definition framed :: "u8 \<Rightarrow> u8 \<Rightarrow> u8 \<Rightarrow> bytes \<Rightarrow> bytes" where
  "framed magic tag flags body = [magic, FAST_PROTOCOL_VERSION, tag, flags] @ u32_bytes (len32 body) @ body"

lemma length_framed [simp]: "length (framed magic tag flags body) = 8 + length body"
  by (simp add: framed_def)

lemma patch_frame:
  "patch (length out + 4) (u32_bytes w) (out @ [a, b, c, d] @ u32_bytes v @ body) = out @ [a, b, c, d] @ u32_bytes w @ body"
  by (simp add: patch_def)

text \<open>
  What both decoders do with a frame: they wait for the header and for the body that it announces, and then decode the body.
\<close>

locale frame_decoder =
  fixes decode :: "bytes \<Rightarrow> fast_error + ('a \<times> nat) option"
    and magic :: u8
    and known :: "u8 \<Rightarrow> u8 \<Rightarrow> bool"
    and decode_inner :: "u8 \<Rightarrow> u8 \<Rightarrow> bytes \<Rightarrow> fast_error + 'a"
  assumes no_input: "decode [] = Inr None"
    and short_header: "length bs < 7 \<Longrightarrow> decode (magic # bs) = Inr None"
    and whole_header: "known tag flags \<Longrightarrow>
      decode ([magic, FAST_PROTOCOL_VERSION, tag, flags] @ u32_bytes n @ bs) =
        (if length bs < unat n then Inr None
         else try_ok (decode_inner tag flags (take (unat n) bs)) (\<lambda>x. Inr (Some (x, 8 + unat n))))"
begin

lemma frame_decoded:
  assumes "known tag flags" "short body" "decode_inner tag flags body = Inr x"
  shows "decode (framed magic tag flags body @ rest) = Inr (Some (x, length (framed magic tag flags body)))"
  using assms whole_header [OF assms(1), of "len32 body" "body @ rest"] by (simp add: framed_def unat_len32)

lemma frame_awaited:
  assumes "known tag flags" "short body" "strict_prefix bs (framed magic tag flags body)"
  shows "decode bs = Inr None"
proof (cases "length bs < 8")
  case True
  with assms(3) no_input short_header show ?thesis by (cases bs) (auto simp: framed_def)
next
  case False
  let ?h = "[magic, FAST_PROTOCOL_VERSION, tag, flags] @ u32_bytes (len32 body)"
  have h: "framed magic tag flags body = ?h @ body" "length ?h = 8" by (simp_all add: framed_def)
  have "bs = take (length bs) (framed magic tag flags body)"
    using assms(3) by (metis append_eq_conv_conj prefix_def strict_prefix_def)
  then have "bs = take (length bs) ?h @ take (length bs - 8) body" unfolding h(1) using h(2) by (metis take_append)
  with False h(2) have bs: "bs = ?h @ take (length bs - 8) body" by simp
  have "length bs < 8 + length body" using prefix_length_less [OF assms(3)] by simp
  with False have "length (take (length bs - 8) body) < unat (len32 body)" by (simp add: unat_len32 assms(2))
  with whole_header [OF assms(1), of "len32 body" "take (length bs - 8) body"] bs show ?thesis by simp
qed

end

lemma header_sizes: "REQUEST_HEADER_LEN = 8" "RESPONSE_HEADER_LEN = 8" "usize_add 8 (unat (n :: u32)) = Some (8 + unat n)"
  using unsigned_less [of n, where ?'a = nat]
  by (simp_all add: REQUEST_HEADER_LEN_def RESPONSE_HEADER_LEN_def usize_add_def USIZE_MAX_def)

lemma drop_header: "drop 8 (take (8 + n) (a # b # c # d # u32_bytes w @ bs)) = take n bs"
  by (simp add: drop_take)

abbreviation known_request :: "u8 \<Rightarrow> u8 \<Rightarrow> bool" where
  "known_request tag flags \<equiv> from_opcode tag \<noteq> None \<and>
     flags AND NOT (FAST_FLAG_KEY_HASH OR FAST_FLAG_ROUTE_SHARD OR FAST_FLAG_KEY_TAG OR FAST_FLAG_REDIS_COMMAND_ARGS) = 0"

interpretation requests: frame_decoder "decode_request reserve" FAST_REQUEST_MAGIC known_request
    "\<lambda>tag flags body. try_ok (from_u8 tag) (\<lambda>kind. decode_body reserve kind flags body)" for reserve
  by unfold_locales (auto simp: decode_request_def header_sizes drop_header from_u8_def Let_def)

interpretation responses: frame_decoder "decode_response reserve" FAST_RESPONSE_MAGIC "\<lambda>_ _. True"
    "\<lambda>status _ body. decode_status reserve status body" for reserve
  by unfold_locales (auto simp: decode_response_def header_sizes drop_header Let_def)

section \<open>Requests\<close>

text \<open>A routing field is written when it is there.\<close>

abbreviation optional :: "('a \<Rightarrow> bytes) \<Rightarrow> 'a option \<Rightarrow> bytes" where
  "optional enc x \<equiv> (case x of Some v \<Rightarrow> enc v | None \<Rightarrow> [])"

definition request_body :: "fast_request \<Rightarrow> bytes" where
  "request_body r = optional u64_bytes (key_hash r) @ optional u32_bytes (route_shard r) @ optional u64_bytes (key_tag r) @
     encode_command (command r) []"

lemma encode_request_framed:
  "encode_request r out =
    out @ framed FAST_REQUEST_MAGIC (discriminant (command_kind (command r))) (request_flags r) (request_body r)"
  unfolding encode_request_def Let_def
  by (subst (1 2) encode_command_append) (simp add: patch_def framed_def request_body_def len32_def)

lemma request_flags_bits:
  "request_flags r AND FAST_FLAG_KEY_HASH \<noteq> 0 \<longleftrightarrow> key_hash r \<noteq> None"
  "request_flags r AND FAST_FLAG_ROUTE_SHARD \<noteq> 0 \<longleftrightarrow> route_shard r \<noteq> None"
  "request_flags r AND FAST_FLAG_KEY_TAG \<noteq> 0 \<longleftrightarrow> key_tag r \<noteq> None"
  "request_flags r AND FAST_FLAG_REDIS_COMMAND_ARGS \<noteq> 0 \<longleftrightarrow> is_redis_command (command r)"
  "request_flags r AND NOT (FAST_FLAG_KEY_HASH OR FAST_FLAG_ROUTE_SHARD OR FAST_FLAG_KEY_TAG OR FAST_FLAG_REDIS_COMMAND_ARGS) = 0"
  by (simp_all add: request_flags_def FAST_FLAG_KEY_HASH_def FAST_FLAG_ROUTE_SHARD_def FAST_FLAG_KEY_TAG_def
      FAST_FLAG_REDIS_COMMAND_ARGS_def)

lemma reads_flagged:
  assumes "flags AND flag \<noteq> 0 \<longleftrightarrow> x \<noteq> None" "\<And>v. reads item v (enc v)"
  shows "reads (\<lambda>body cursor. take_flagged flags flag (item body) cursor) x (optional enc x)"
  using assms by (cases x) (auto simp: reads_def take_flagged_def)

lemma body_decoded:
  assumes "command_ok reserve (command r)" "short (request_body r)"
  shows "decode_body reserve (command_kind (command r)) (request_flags r) (request_body r) = Inr r"
proof -
  let ?h = "optional u64_bytes (key_hash r)" and ?s = "optional u32_bytes (route_shard r)" and ?t = "optional u64_bytes (key_tag r)"
    and ?c = "encode_command (command r) []"
  have b: "request_body r = ?h @ ?s @ ?t @ ?c" by (simp add: request_body_def)
  then have c: "short ?c" using assms(2) by (metis short_parts)
  have fields:
    "reads (\<lambda>body cursor. take_flagged (request_flags r) FAST_FLAG_KEY_HASH (\<lambda>cursor. take_u64 body cursor f) cursor) (key_hash r) ?h"
    "reads (\<lambda>body cursor. take_flagged (request_flags r) FAST_FLAG_ROUTE_SHARD (\<lambda>cursor. take_u32 body cursor f) cursor) (route_shard r) ?s"
    "reads (\<lambda>body cursor. take_flagged (request_flags r) FAST_FLAG_KEY_TAG (\<lambda>cursor. take_u64 body cursor f) cursor) (key_tag r) ?t" for f
    by (rule reads_flagged, rule request_flags_bits, rule reads_words)+
  note fields = reads_at [OF fields(1), of "[]" "?s @ ?t @ ?c"] reads_at [OF fields(2), of ?h "?t @ ?c"] reads_at [OF fields(3), of "?h @ ?s" ?c]
  from command_body [OF assms(1) c, of "?h @ ?s @ ?t"] fields show ?thesis
    by (simp add: decode_body_def b ensure_finished_def request_flags_bits(4) add.assoc split: if_splits)
qed

lemma request_known: "command_ok reserve (command r) \<Longrightarrow> known_request (discriminant (command_kind (command r))) (request_flags r)"
  using kind_opcode [of reserve "command r"] request_flags_bits(5) [of r] by (auto simp: from_u8_def split: option.splits)

lemma request_inner:
  assumes "command_ok reserve (command r)" "short (request_body r)"
  shows "try_ok (from_u8 (discriminant (command_kind (command r))))
      (\<lambda>kind. decode_body reserve kind (request_flags r) (request_body r)) = Inr r"
  by (simp add: kind_opcode [OF assms(1)] body_decoded [OF assms])

section \<open>Responses\<close>

abbreviation item_bytes :: "bytes option \<Rightarrow> bytes" where
  "item_bytes v \<equiv> (case v of Some v \<Rightarrow> slice_bytes v | None \<Rightarrow> u32_bytes (- 1))"

fun status :: "fast_response \<Rightarrow> u8" where
  "status Ok = 0"
| "status Null = 1"
| "status (Error _) = 2"
| "status (Integer _) = 3"
| "status (Value _) = 4"
| "status (Boolean _) = 5"
| "status (Array _) = 6"
| "status (Float _) = 7"
| "status (NativeFrame _) = 8"

fun response_body :: "fast_response \<Rightarrow> bytes" where
  "response_body Ok = []"
| "response_body Null = []"
| "response_body (Error message) = message"
| "response_body (Integer v) = i64_bytes v"
| "response_body (Value bs) = bs"
| "response_body (Boolean v) = [if v then 1 else 0]"
| "response_body (Array vals) = u32_bytes (len32 vals) @ concat (map item_bytes vals)"
| "response_body (Float v) = u64_bytes (f64_bits v)"
| "response_body (NativeFrame bs) = bs"

text \<open>The responses that are read back.\<close>

definition response_ok :: "(nat \<Rightarrow> bool) \<Rightarrow> fast_response \<Rightarrow> bool" where
  "response_ok reserve r \<longleftrightarrow> short (response_body r) \<and>
     (case r of Integer v \<Rightarrow> in_i64 v | Array vals \<Rightarrow> list_ok reserve vals | _ \<Rightarrow> True)"

lemma encode_array: "encode_array_body vals out = out @ u32_bytes (len32 vals) @ concat (map item_bytes vals)"
  unfolding encode_array_body_def
  by (subst foldl_append [where fb = item_bytes]) (simp_all split: option.split)

lemma encode_response_framed: "encode_response r out = out @ framed FAST_RESPONSE_MAGIC (status r) 0 (response_body r)"
  by (cases r) (simp_all add: framed_def Let_def encode_array patch_def len32_def)

lemma reads_item: "4 + int (length (case v of Some v \<Rightarrow> v | None \<Rightarrow> [])) < 2 ^ 32 \<Longrightarrow> reads take_array_item v (item_bytes v)"
proof (cases v)
  case (Some bs)
  moreover assume "4 + int (length (case v of Some v \<Rightarrow> v | None \<Rightarrow> [])) < 2 ^ 32"
  ultimately have "short bs" "length bs \<noteq> 2 ^ 32 - 1" by (auto simp: short_def)
  moreover from this have "len32 bs \<noteq> - 1" using unat_len32 [of bs] by (auto simp: unsigned_minus_1_eq_mask mask_eq_exp_minus_1)
  ultimately show ?thesis
    by (auto simp: Some reads_def take_array_item_def take_u32_def take_exact_slice_def unat_len32)
qed (simp add: reads_def take_array_item_def take_u32_def)

lemma response_inner: "response_ok reserve r \<Longrightarrow> decode_status reserve (status r) (response_body r) = Inr r"
proof (cases "\<exists>vals. r = Array vals")
  case True
  then obtain vals where r: "r = Array vals" by blast
  assume "response_ok reserve r"
  then have ok: "list_ok reserve vals" "short (u32_bytes (len32 vals) @ concat (map item_bytes vals))"
    by (simp_all add: r response_ok_def)
  have items: "reads take_array_item v (item_bytes v)" if "v \<in> set vals" for v
  proof (rule reads_item)
    have "short (u32_bytes (len32 vals) @ item_bytes v)"
      using ok(2) split_list [OF that] by (auto simp: short_def)
    then show "4 + int (length (case v of Some v \<Rightarrow> v | None \<Rightarrow> [])) < 2 ^ 32" by (auto simp: short_def split: option.splits)
  qed
  have "4 * length vals \<le> length (concat (map item_bytes vals))" by (rule concat_min) (auto split: option.split)
  then have arr: "reads (\<lambda>body cursor. take_counted reserve f ((length body - cursor) div 4) (unat (len32 vals)) (take_array_item body) cursor)
      vals (concat (map item_bytes vals))" for f
    by (intro reads_counted) (use ok items in \<open>auto simp: list_ok_short list_ok_def\<close>)
  from reads_at [OF arr, where pre = "u32_bytes (len32 vals)" and post = "[]"] show ?thesis
    by (simp add: r decode_status_def decode_array_body_def take_u32_def ensure_finished_def)
next
  case False
  assume "response_ok reserve r"
  with False show ?thesis by (cases r) (auto simp: decode_status_def response_ok_def sint_i64)
qed

end
