(* ===== verification/FastDecoded.thy ===== *)
theory FastDecoded
  imports FastRoundTrip
begin

text \<open>
  What the decoders of the native protocol return: requests and responses that the encoders write and the decoders read back, no longer
  than the bytes they were read from. \<open>returns P m\<close> is a postcondition of a fallible computation.
\<close>

unbundle bit_operations_syntax

section \<open>Postconditions\<close>

definition returns :: "('a \<Rightarrow> bool) \<Rightarrow> 'e + 'a \<Rightarrow> bool" where
  "returns P m \<longleftrightarrow> (\<forall>x. m = Inr x \<longrightarrow> P x)"

lemma returnsD: "returns P m \<Longrightarrow> m = Inr x \<Longrightarrow> P x"
  by (simp add: returns_def)

lemma returns_simps [simp]: "returns P (Inl e)" "returns P (Inr x) \<longleftrightarrow> P x"
  by (simp_all add: returns_def)

lemma returns_try: "returns Q m \<Longrightarrow> (\<And>x. Q x \<Longrightarrow> returns P (f x)) \<Longrightarrow> returns P (try_ok m f)"
  by (cases m) simp_all

lemma returns_taken:
  "returns (\<lambda>(v, cur). Q v cur) m \<Longrightarrow> (\<And>v cur. Q v cur \<Longrightarrow> returns P (f v cur)) \<Longrightarrow> returns P (try_ok m (\<lambda>(v, cur). f v cur))"
  by (cases m) auto

lemma returns_mono: "returns Q m \<Longrightarrow> (\<And>x. Q x \<Longrightarrow> P x) \<Longrightarrow> returns P m"
  by (auto simp: returns_def)

lemma returns_if: "(b \<Longrightarrow> returns P m) \<Longrightarrow> (\<not> b \<Longrightarrow> returns P n) \<Longrightarrow> returns P (if b then m else n)"
  by simp

named_theorems taken

lemma word_taken [taken]:
  "returns (\<lambda>(v, cur). cur = c + 4) (take_u32 body c f)"
  "returns (\<lambda>(v, cur). cur = c + 8) (take_u64 body c f)"
  "returns (\<lambda>(v, cur). cur = c + 8 \<and> in_i64 v) (take_i64 body c f)"
  "returns (\<lambda>(v, cur). cur = c + 8) (take_f64 body c f)"
  using sint_ge [of "from_le (take 8 (drop c body)) :: u64"] sint_lt [of "from_le (take 8 (drop c body)) :: u64"]
  by (simp_all add: take_u32_def take_u64_def take_i64_def take_f64_def in_i64_def)

lemma slice_taken [taken]: "returns (\<lambda>(v, cur). length v = n \<and> cur = c + n) (take_exact_slice body c n f)"
  by (simp add: take_exact_slice_def)

lemma len_prefixed_taken [taken]: "returns (\<lambda>(v, cur). cur = c + 4 + length v) (take_len_prefixed_slice body c f)"
  unfolding take_len_prefixed_slice_def
  by (rule returns_taken [OF word_taken(1)], rule returns_mono [OF slice_taken]) auto

lemma pair_taken [taken]:
  "returns (\<lambda>((k, v), cur). cur = c + 8 + length k + length v) (take_key_value body c f)"
  "returns (\<lambda>((k, v), cur). cur = c + 8 + length k + length v) (take_key_field body c f)"
  unfolding take_key_value_def take_key_field_def
  by ((rule returns_taken, rule word_taken(1) slice_taken)+, simp)+

lemma triple_taken [taken]:
  "returns (\<lambda>((k, m, v), cur). cur = c + 12 + length k + length m + length v) (take_key_field_value body c f)"
  unfolding take_key_field_value_def
  by ((rule returns_taken, rule word_taken(1) slice_taken)+, simp)

section \<open>Lists\<close>

lemma times_taken:
  assumes "\<And>c. returns (\<lambda>(x, cur). c + length (enc x) \<le> cur) (item c)"
  shows "returns (\<lambda>(xs, cur). length xs = n \<and> c + length (concat (map enc xs)) \<le> cur) (take_times n item c)"
proof (induction n arbitrary: c)
  case (Suc n)
  show ?case
    unfolding take_times.simps by (rule returns_taken [OF assms], rule returns_taken [OF Suc.IH]) auto
qed simp

lemma counted_taken:
  assumes "\<And>c. returns (\<lambda>(x, cur). c + length (enc x) \<le> cur) (item c)"
  shows "returns (\<lambda>(xs, cur). list_ok reserve xs \<and> c + length (concat (map enc xs)) \<le> cur) (take_counted reserve f room n item c)"
  unfolding take_counted_def
  by (intro returns_if) (auto simp: list_ok_def intro: returns_mono [OF times_taken, OF assms])

lemma list_taken [taken]:
  "returns (\<lambda>(xs, cur). list_ok reserve xs \<and> c + 4 + length (concat (map slice_bytes xs)) \<le> cur) (take_len_prefixed_list reserve body c f)"
  unfolding take_len_prefixed_list_def
  by (rule returns_taken [OF word_taken(1)], rule returns_mono [OF counted_taken [where enc = slice_bytes]])
    (auto intro: returns_mono [OF len_prefixed_taken])

lemma pairs_taken [taken]:
  "returns (\<lambda>(xs, cur). list_ok reserve xs \<and> c + 4 + length (concat (map pair_bytes xs)) \<le> cur) (take_key_value_list reserve body c f)"
  unfolding take_key_value_list_def
  by (rule returns_taken [OF word_taken(1)], rule returns_mono [OF counted_taken [where enc = pair_bytes]])
    (auto intro: returns_mono [OF pair_taken(1)])

lemma key_list_taken [taken]:
  "returns (\<lambda>((k, xs), cur). list_ok reserve xs \<and> c + 8 + length k + length (concat (map slice_bytes xs)) \<le> cur)
     (take_key_list reserve body c f)"
  unfolding take_key_list_def
  by (rule returns_taken [OF len_prefixed_taken], rule returns_taken [OF list_taken]) auto

section \<open>Variable-length integers\<close>

text \<open>The encoder writes the shortest form.\<close>

lemma var_shortest: "take_bit (7 * n) w = w \<Longrightarrow> 0 < n \<Longrightarrow> length (encode_var_u32 w []) \<le> n"
proof (induction n arbitrary: w)
  case (Suc n)
  show ?case
  proof (cases "0x80 \<le> w")
    case True
    have "0 < n"
    proof (rule ccontr)
      assume "\<not> 0 < n"
      with Suc.prems(1) have "w = w AND mask 7" by (simp add: take_bit_eq_mask)
      then have "w \<le> 0x7f" unfolding mask7 [symmetric] by (metis word_and_le1)
      with True have "(0x80 :: u32) \<le> 0x7f" by (rule order_trans)
      then show False by simp
    qed
    moreover have "take_bit (7 * n) (drop_bit 7 w) = drop_bit 7 w"
      using Suc.prems(1) by (simp add: take_bit_drop_bit add.commute)
    ultimately have "length (encode_var_u32 (drop_bit 7 w) []) \<le> n" by (rule Suc.IH [rotated])
    with True show ?thesis by (subst encode_var_u32.simps, subst encode_var_append) simp
  next
    case False
    then show ?thesis by (subst encode_var_u32.simps) simp
  qed
qed simp

lemma var_loop_taken:
  fixes acc :: u32
  assumes "take_bit shift acc = acc"
  shows "returns (\<lambda>(w, cur). \<exists>k. 0 < k \<and> cur = c + k \<and> take_bit (shift + 7 * k) w = w) (var_u32_loop n body c f acc shift)"
  using assms
proof (induction n arbitrary: c acc shift)
  case (Suc n)
  let ?acc = "acc OR push_bit shift (ucast (body ! c AND 0x7f))"
  have bits: "take_bit (shift + 7) ?acc = ?acc"
  proof (rule bit_word_eqI)
    fix i
    have "bit acc i \<Longrightarrow> i < shift" using Suc.prems by (metis bit_take_bit_iff)
    then show "bit (take_bit (shift + 7) ?acc) i = bit ?acc i"
      by (auto simp: mask7 bit_take_bit_iff bit_or_iff bit_push_bit_iff bit_unsigned_iff bit_and_iff bit_mask_iff)
  qed
  have "returns (\<lambda>(w, cur). \<exists>k. 0 < k \<and> cur = c + k \<and> take_bit (shift + 7 * k) w = w) (var_u32_loop n body (c + 1) f ?acc (shift + 7))"
    by (rule returns_mono [OF Suc.IH [OF bits]]) (auto intro: exI [of _ "Suc _"] simp: algebra_simps)
  moreover have "\<exists>k. 0 < k \<and> c + 1 = c + k \<and> take_bit (shift + 7 * k) ?acc = ?acc" using bits by (intro exI [of _ 1]) simp
  ultimately show ?case by (simp add: Let_def)
qed simp

lemma var_taken [taken]: "returns (\<lambda>(w, cur). c + length (encode_var_u32 w []) \<le> cur) (take_var_u32 body c f)"
  unfolding take_var_u32_def
  by (rule returns_mono [OF var_loop_taken]) (auto dest: var_shortest)

lemma compact_taken: "returns (\<lambda>(v, cur). c + length (compact_bytes v) \<le> cur) (take_compact_len_prefixed_slice body c f)"
  unfolding take_compact_len_prefixed_slice_def
proof (rule returns_taken [OF var_taken])
  fix w cur
  assume "c + length (encode_var_u32 w []) \<le> cur"
  then show "returns (\<lambda>(v, cur). c + length (compact_bytes v) \<le> cur) (take_exact_slice body cur (unat w) f)"
    by (intro returns_mono [OF slice_taken]) (auto simp: len32_def)
qed

lemma compact_list_taken [taken]:
  "returns (\<lambda>(xs, cur). list_ok reserve xs \<and> c + length (encode_var_u32 (len32 xs) [] @ concat (map compact_bytes xs)) \<le> cur)
     (take_compact_len_prefixed_list reserve body c f)"
  unfolding take_compact_len_prefixed_list_def take_counted_def
proof (rule returns_taken [OF var_taken], intro returns_if returns_simps)
  fix w cur
  assume w: "c + length (encode_var_u32 w []) \<le> cur" "\<not> (FAST_MAX_COLLECTION_ITEMS < unat w \<or> length body - cur < unat w)"
    "\<not> \<not> reserve (unat w)"
  have "returns (\<lambda>(xs, cur'). length xs = unat w \<and> cur + length (concat (map compact_bytes xs)) \<le> cur')
      (take_times (unat w) (\<lambda>cursor. take_compact_len_prefixed_slice body cursor f) cur)"
    by (rule times_taken [OF compact_taken])
  then show "returns (\<lambda>(xs, cur). list_ok reserve xs \<and> c + length (encode_var_u32 (len32 xs) [] @ concat (map compact_bytes xs)) \<le> cur)
      (take_times (unat w) (\<lambda>cursor. take_compact_len_prefixed_slice body cursor f) cur)"
    by (rule returns_mono) (use w in \<open>auto simp: list_ok_def len32_def\<close>)
qed

section \<open>Commands\<close>

lemma hello_taken [taken]:
  "returns (\<lambda>(proto, cur). cur = c + length (optional u64_bytes proto))
     (if b then try_ok (take_u64 body c f) (\<lambda>(proto, cursor). Inr (Some proto, cursor)) else Inr (None, c))"
  by (intro returns_if; (rule returns_taken, rule word_taken)?) simp_all

lemma typed_taken:
  assumes "c \<le> length body"
  shows "returns (\<lambda>(cmd, cur). command_ok reserve cmd \<and> command_kind cmd = kind \<and> c + length (encode_command cmd []) \<le> cur)
     (decode_typed reserve kind body c)"
  unfolding decode_typed_def
  by (intro returns_if returns_simps; ((rule returns_taken, rule taken)+)?;
     (use assms in \<open>simp add: command_ok_def encoders case_prod_unfold is_generic_redis_opcode_def\<close>))

lemma redis_taken:
  "returns (\<lambda>(cmd, cur). command_ok reserve cmd \<and> command_kind cmd = kind \<and> c + length (encode_command cmd []) \<le> cur)
     (decode_redis_args reserve kind body c)"
  unfolding decode_redis_args_def
  by (intro returns_if returns_simps; ((rule returns_taken, rule taken)+)?;
     (simp add: command_ok_def encoders case_prod_unfold))

lemma flagged_taken:
  assumes "returns (\<lambda>(v, cur). cur = c + n \<and> cur \<le> len) (item c)" "\<And>v. length (enc v) = n"
  shows "returns (\<lambda>(x, cur). cur = c + length (optional enc x) \<and> (c \<le> len \<longrightarrow> cur \<le> len)) (take_flagged flags flag item c)"
  unfolding take_flagged_def
  by (intro returns_if; (rule returns_taken, rule assms(1))?) (simp_all add: assms(2))

lemma field_taken:
  "returns (\<lambda>(v, cur). cur = c + 4 \<and> cur \<le> length body) (take_u32 body c f)"
  "returns (\<lambda>(v, cur). cur = c + 8 \<and> cur \<le> length body) (take_u64 body c f)"
  by (auto simp: take_u32_def take_u64_def)

section \<open>Requests and responses\<close>

lemma body_taken:
  "returns (\<lambda>r. command_ok reserve (command r) \<and> command_kind (command r) = kind \<and> length (request_body r) \<le> length body)
     (decode_body reserve kind flags body)"
  unfolding decode_body_def
proof (rule returns_taken [OF flagged_taken [OF field_taken(2), where enc = u64_bytes]],
    simp, rule returns_taken [OF flagged_taken [OF field_taken(1), where enc = u32_bytes]],
    simp, rule returns_taken [OF flagged_taken [OF field_taken(2), where enc = u64_bytes]], simp)
  fix hash cur shard cur' tag cur''
  assume routing: "cur = 0 + length (optional u64_bytes hash) \<and> (0 \<le> length body \<longrightarrow> cur \<le> length body)"
    "cur' = cur + length (optional u32_bytes shard) \<and> (cur \<le> length body \<longrightarrow> cur' \<le> length body)"
    "cur'' = cur' + length (optional u64_bytes tag) \<and> (cur' \<le> length body \<longrightarrow> cur'' \<le> length body)"
  have "returns (\<lambda>(cmd, cur). command_ok reserve cmd \<and> command_kind cmd = kind \<and> cur'' + length (encode_command cmd []) \<le> cur)
     (if flags AND FAST_FLAG_REDIS_COMMAND_ARGS \<noteq> 0 then decode_redis_args reserve kind body cur'' else decode_typed reserve kind body cur'')"
    by (intro returns_if redis_taken typed_taken) (use routing in simp)
  then show "returns (\<lambda>r. command_ok reserve (command r) \<and> command_kind (command r) = kind \<and> length (request_body r) \<le> length body)
     (try_ok (if flags AND FAST_FLAG_REDIS_COMMAND_ARGS \<noteq> 0 then decode_redis_args reserve kind body cur''
              else decode_typed reserve kind body cur'') (\<lambda>(cmd, cursor).
      try_ok (ensure_finished body cursor ''fast request'') (\<lambda>_.
      Inr \<lparr>key_hash = hash, route_shard = shard, key_tag = tag, command = cmd\<rparr>)))"
    by (rule returns_taken) (use routing in \<open>auto simp: ensure_finished_def request_body_def\<close>)
qed

lemma item_taken: "returns (\<lambda>(v, cur). c + length (item_bytes v) \<le> cur) (take_array_item body c)"
  unfolding take_array_item_def
  by (rule returns_taken [OF word_taken(1)], intro returns_if; (rule returns_taken [OF slice_taken])?) auto

lemma array_taken:
  "returns (\<lambda>vals. list_ok reserve vals \<and> length (response_body (Array vals)) \<le> length body) (decode_array_body reserve body)"
  unfolding decode_array_body_def
  by (rule returns_taken [OF word_taken(1)], rule returns_taken [OF counted_taken [OF item_taken]]) (auto simp: ensure_finished_def)

lemma status_taken:
  assumes "short body"
  shows "returns (\<lambda>r. response_ok reserve r \<and> length (response_body r) \<le> length body) (decode_status reserve s body)"
proof -
  have "in_i64 (sint (w :: u64))" for w
    using sint_ge [of w] sint_lt [of w] by (simp add: in_i64_def)
  moreover have "short (response_body r)" if "length (response_body r) \<le> length body" for r
    using that assms by (simp add: short_def)
  moreover have "returns (\<lambda>r. response_ok reserve r \<and> length (response_body r) \<le> length body)
      (try_ok (decode_array_body reserve body) (\<lambda>vals. Inr (Array vals)))"
    by (rule returns_try [OF array_taken]) (use calculation(2) in \<open>auto simp: response_ok_def simp del: response_body.simps\<close>)
  ultimately show ?thesis
    unfolding decode_status_def
    by (intro returns_if returns_simps) (use assms in \<open>auto simp: response_ok_def short_def\<close>)
qed

lemma announced_body:
  assumes "\<not> length buffer < 8 + unat (w :: u32)"
  shows "length (drop 8 (take (8 + unat w) buffer)) = unat w" "short (drop 8 (take (8 + unat w) buffer))"
  using assms unsigned_less [of w, where ?'a = int] by (auto simp: short_def)

lemma request_inverted:
  assumes "decode_request reserve buffer = Inr (Some (r, n))"
  shows "8 \<le> n \<and> n \<le> length buffer \<and> short (drop 8 (take n buffer)) \<and>
    decode_body reserve (Kind (buffer ! 2)) (buffer ! 3) (drop 8 (take n buffer)) = Inr r"
proof -
  let ?w = "from_le (take 4 (drop 4 buffer)) :: u32"
  from assms obtain kind where "from_opcode (buffer ! 2) = Some kind" "n = 8 + unat ?w" "\<not> length buffer < n"
    "decode_body reserve kind (buffer ! 3) (drop 8 (take n buffer)) = Inr r"
    by (auto simp: decode_request_def header_sizes from_u8_def Let_def try_ok_def split: if_splits sum.splits option.splits)
  then show ?thesis using announced_body(2) [of buffer ?w] by (auto simp: from_opcode_iff)
qed

lemma response_inverted:
  assumes "decode_response reserve buffer = Inr (Some (r, n))"
  shows "8 \<le> n \<and> n \<le> length buffer \<and> short (drop 8 (take n buffer)) \<and>
    decode_status reserve (buffer ! 2) (drop 8 (take n buffer)) = Inr r"
proof -
  let ?w = "from_le (take 4 (drop 4 buffer)) :: u32"
  from assms have "n = 8 + unat ?w" "\<not> length buffer < n" "decode_status reserve (buffer ! 2) (drop 8 (take n buffer)) = Inr r"
    by (auto simp: decode_response_def header_sizes Let_def try_ok_def split: if_splits sum.splits option.splits)
  then show ?thesis using announced_body(2) [of buffer ?w] by auto
qed

text \<open>What is decoded as a response is well formed; encoded again it takes no more bytes and decodes to itself.\<close>

lemma decoded_response:
  assumes "decode_response reserve buffer = Inr (Some (r, n))"
  shows "8 \<le> n \<and> n \<le> length buffer \<and> response_ok reserve r \<and> length (encode_response r []) \<le> n \<and>
    decode_response reserve (encode_response r []) = Inr (Some (r, length (encode_response r [])))"
proof -
  note inv = response_inverted [OF assms]
  then have r: "response_ok reserve r" "length (response_body r) \<le> length (drop 8 (take n buffer))"
    using returnsD [OF status_taken] by blast+
  then have "short (response_body r)" by (simp add: response_ok_def)
  from responses.frame_decoded [OF TrueI this response_inner [OF r(1)], where rest = "[]"] inv r
  show ?thesis by (auto simp: encode_response_framed)
qed

section \<open>Observations\<close>

text \<open>
  The fifth byte of a variable-length integer carries four bits; further bits are dropped without an error, so that this encoding of
  \<open>2 ^ 32\<close> is read as zero.
\<close>

lemma varint_wraps: "take_var_u32 [0x80, 0x80, 0x80, 0x80, 0x10] 0 f = Inr (0, 5)"
  by code_simp

text \<open>
  The routing keys of \<^verbatim>\<open>SUNIONSTORE\<close>, \<^verbatim>\<open>SINTERSTORE\<close> and \<^verbatim>\<open>SDIFFSTORE\<close> leave out the destination, which those of \<^verbatim>\<open>ZUNIONSTORE\<close> contain.
\<close>

lemma set_store_destination:
  "kind \<in> {KSUnionStore, KSInterStore, KSDiffStore} \<Longrightarrow> redis_route_keys kind (destination # keys) = Some (RouteKeys keys)"
  by (elim insertE emptyE) (simp_all add: redis_route_keys_def first_and_tail_route_keys_def)

lemma zset_store_destination:
  "redis_route_keys KZUnionStore [destination, ascii ''1'', key] = Some (RouteKeys [destination, key])"
proof -
  have "ascii ''1'' = [49]" "digits_value [49] = 1" "is_digit 49" by code_simp+
  then have "parse_ascii_usize (ascii ''1'') = Some 1" by (simp add: parse_ascii_usize_def)
  then show ?thesis
    by (simp add: redis_route_keys_def zaggregate_store_route_keys_def usize_add_def USIZE_MAX_def with_capacity_def)
qed

text \<open>A number of keys that a client sends with \<^verbatim>\<open>ZUNIONSTORE\<close> is a capacity, and a large one panics.\<close>

lemma zset_store_panics:
  assumes "parse_ascii_usize count_arg = Some n" "2 ^ 59 \<le> n"
  shows "redis_route_keys KZUnionStore [destination, count_arg, key] = None"
  using assms
  by (auto simp: redis_route_keys_def zaggregate_store_route_keys_def usize_add_def with_capacity_def)

lemma zset_store_panic_input: "parse_ascii_usize (ascii ''9223372036854775808'') = Some (2 ^ 63)"
proof -
  let ?ds = "[57, 50, 50, 51, 51, 55, 50, 48, 51, 54, 56, 53, 52, 55, 55, 53, 56, 48, 56] :: bytes"
  have "ascii ''9223372036854775808'' = ?ds" "digits_value ?ds = 2 ^ 63" "list_all is_digit ?ds" by code_simp+
  then show ?thesis by (simp add: parse_ascii_usize_def)
qed

section \<open>Properties\<close>

text \<open>
  C33: A request that the encoder writes is decoded to itself, whatever follows it in the buffer, and exactly its frame is consumed; of a
  frame that has only partly arrived, nothing is decoded and no error is reported.
\<close>

theorem fast_request_round_trip:
  assumes "command_ok reserve (command r)" "short (request_body r)"
  shows "decode_request reserve (encode_request r [] @ rest) = Inr (Some (r, length (encode_request r []))) \<and>
    (strict_prefix bs (encode_request r []) \<longrightarrow> decode_request reserve bs = Inr None)"
  using requests.frame_decoded [OF request_known [OF assms(1)] assms(2) request_inner [OF assms]]
    requests.frame_awaited [OF request_known [OF assms(1)] assms(2)]
  by (simp add: encode_request_framed)

abbreviation sample_request :: fast_request where
  "sample_request \<equiv> \<lparr>key_hash = Some 7, route_shard = Some 3, key_tag = None, command = MGet [[97], [98, 99]]\<rparr>"

lemma sample_request_ok: "command_ok (\<lambda>n. n \<le> 10) (command sample_request) \<and> short (request_body sample_request)"
  by (simp add: command_ok_def list_ok_def FAST_MAX_COLLECTION_ITEMS_def request_body_def encoders short_def)

lemma sample_request_bytes:
  "encode_request sample_request [] =
     [0xFA, 2, 10, 3, 27, 0, 0, 0, 7, 0, 0, 0, 0, 0, 0, 0, 3, 0, 0, 0, 2, 0, 0, 0, 1, 0, 0, 0, 97, 2, 0, 0, 0, 98, 99]"
  by code_simp

theorem fast_request_round_trip_witness:
  "decode_request (\<lambda>n. n \<le> 10) (encode_request sample_request [] @ [0xFA]) = Inr (Some (sample_request, 35)) \<and>
   decode_request (\<lambda>n. n \<le> 10) [0xFA, 2, 10] = Inr None"
proof -
  have "strict_prefix [0xFA, 2, 10] (encode_request sample_request [])" unfolding sample_request_bytes by simp
  with fast_request_round_trip [OF conjunct1 [OF sample_request_ok] conjunct2 [OF sample_request_ok], of "[0xFA]" "[0xFA, 2, 10]"]
  show ?thesis by (simp add: sample_request_bytes)
qed

text \<open>
  C34: A response that the encoder writes, with arrays that have absent items, is decoded to itself, whatever follows it in the buffer, and
  exactly its frame is consumed; of a frame that has only partly arrived, nothing is decoded and no error is reported.
\<close>

theorem fast_response_round_trip:
  assumes "response_ok reserve r"
  shows "decode_response reserve (encode_response r [] @ rest) = Inr (Some (r, length (encode_response r []))) \<and>
    (strict_prefix bs (encode_response r []) \<longrightarrow> decode_response reserve bs = Inr None)"
proof -
  have "short (response_body r)" using assms by (simp add: response_ok_def)
  with responses.frame_decoded [OF TrueI this response_inner [OF assms]] responses.frame_awaited [OF TrueI this]
  show ?thesis by (simp add: encode_response_framed)
qed

theorem fast_response_round_trip_witness:
  "decode_response (\<lambda>n. n \<le> 10) (encode_response (Array [Some [1, 2], None]) [] @ [9]) =
     Inr (Some (Array [Some [1, 2], None], 22)) \<and>
   decode_response (\<lambda>n. n \<le> 10) [0xFB, 2] = Inr None"
proof -
  have b: "encode_response (Array [Some [1, 2], None]) [] =
      [0xFB, 2, 6, 0, 14, 0, 0, 0, 2, 0, 0, 0, 2, 0, 0, 0, 1, 2, 255, 255, 255, 255]"
    by code_simp
  then have "strict_prefix [0xFB, 2] (encode_response (Array [Some [1, 2], None]) [])" by simp
  moreover have "response_ok (\<lambda>n. n \<le> 10) (Array [Some [1, 2], None])"
    by (simp add: response_ok_def list_ok_def FAST_MAX_COLLECTION_ITEMS_def short_def)
  ultimately show ?thesis
    using fast_response_round_trip [of "\<lambda>n. n \<le> 10" "Array [Some [1, 2], None]" "[9]" "[0xFB, 2]"] by (simp only: b) simp
qed

text \<open>
  C35: What the decoder returns from any buffer is a well-formed request of the kind that the third byte names, read from a frame
  inside the buffer; encoded again it takes no more bytes and decodes to itself.
\<close>

theorem fast_decoded_request:
  assumes "decode_request reserve buffer = Inr (Some (r, n))"
  shows "8 \<le> n \<and> n \<le> length buffer \<and> command_ok reserve (command r) \<and> discriminant (command_kind (command r)) = buffer ! 2 \<and>
    length (encode_request r []) \<le> n \<and>
    decode_request reserve (encode_request r []) = Inr (Some (r, length (encode_request r [])))"
proof -
  note inv = request_inverted [OF assms]
  have r: "command_ok reserve (command r)" "command_kind (command r) = Kind (buffer ! 2)"
    "length (request_body r) \<le> length (drop 8 (take n buffer))"
    using returnsD [OF body_taken] inv by blast+
  with inv have body: "short (request_body r)" by (auto simp: short_def)
  from requests.frame_decoded [OF request_known [OF r(1)] body request_inner [OF r(1) body], where rest = "[]"] inv r
  show ?thesis by (auto simp: encode_request_framed)
qed

text \<open>The length of the second argument is written in two bytes, which the encoder shortens to one.\<close>

abbreviation incr_request :: fast_request where
  "incr_request \<equiv> \<lparr>key_hash = None, route_shard = None, key_tag = None, command = RedisCommand KIncr [[107]]\<rparr>"

theorem fast_decoded_request_witness:
  "decode_request (\<lambda>n. n \<le> 10) [0xFA, 2, 91, 8, 4, 0, 0, 0, 1, 129, 0, 107] = Inr (Some (incr_request, 12)) \<and>
   decode_request (\<lambda>n. n \<le> 10) (encode_request incr_request []) = Inr (Some (incr_request, 11))"
proof -
  have "decode_request (\<lambda>n. n \<le> 10) [0xFA, 2, 91, 8, 4, 0, 0, 0, 1, 129, 0, 107] = Inr (Some (incr_request, 12))"
    by code_simp
  moreover have "length (encode_request incr_request []) = 11" by code_simp
  ultimately show ?thesis using fast_decoded_request [of "\<lambda>n. n \<le> 10" _ incr_request 12] by metis
qed

text \<open>
  C36: The opcode tables agree: an opcode decodes to the kind with that number; every kind with a Redis name is found by its opcode and by
  its name, in upper or lower case, and a name is found for no other kind.
\<close>

theorem fast_opcode_table:
  "(from_opcode v = Some k \<longrightarrow> discriminant k = v) \<and>
   (redis_name k = Some n \<longrightarrow> from_opcode (discriminant k) = Some k \<and> from_redis_name (ascii n) = Some k) \<and>
   (from_redis_name name = Some k \<longleftrightarrow> (\<exists>n. redis_name k = Some n \<and> eq_ignore_ascii_case name (ascii n)))"
  using named_opcode [of k n] by (auto simp: from_opcode_iff from_redis_name_iff eq_ignore_ascii_case_def)

theorem fast_opcode_table_witness:
  "from_opcode (discriminant KRestoreAsking) = Some KRestoreAsking \<and> from_redis_name (ascii ''RESTORE-ASKING'') = Some KRestoreAsking"
proof -
  have "redis_name KRestoreAsking = Some ''RESTORE-ASKING''" by code_simp
  with fast_opcode_table [of 0 KRestoreAsking "''RESTORE-ASKING''" "[]"] show ?thesis by simp
qed

end
