(* ===== verification/Routing.thy ===== *)
theory Routing
  imports Prelude
begin

text \<open>
  Which shard a key belongs to (\<^verbatim>\<open>storage/embedded_store/routing.rs\<close>). The shard is read from the upper
  bits of a 64-bit hash (\<^verbatim>\<open>stripe_index\<close>), of the whole key, of its session prefix, or it is encoded in the
  key, depending on the route mode. The key hash XXH3 is the parameter \<open>hk\<close>; nothing is assumed of it.

  Shown: every route is a valid shard index when the shard count is a power of two; routing with a
  precomputed hash agrees with routing the key; a shard is recovered from the hash synthesised for
  it; all chunks of a session are routed to one shard.
\<close>

unbundle bit_operations_syntax

section \<open>Routes\<close>

datatype embedded_route_mode = FullKey | SessionPrefix | OverflowSlot

record embedded_key_route =
  shard_id :: nat
  key_hash :: u64

text \<open>The modes' configuration strings.\<close>

fun route_mode_as_str :: "embedded_route_mode \<Rightarrow> string" where
  "route_mode_as_str FullKey = ''full_key''"
| "route_mode_as_str SessionPrefix = ''session_prefix''"
| "route_mode_as_str OverflowSlot = ''overflow_slot''"

definition stripe_index :: "u64 \<Rightarrow> nat \<Rightarrow> nat" where
  "stripe_index hash shift = (if shift = 64 then 0 else unat (drop_bit shift (push_bit 7 hash)))"

text \<open>\<^verbatim>\<open>usize::trailing_zeros\<close> of a positive number.\<close>

fun trailing_zeros :: "nat \<Rightarrow> nat" where
  "trailing_zeros n = (if n = 0 then 64 else if even n then Suc (trailing_zeros (n div 2)) else 0)"

declare trailing_zeros.simps [simp del]

definition shift_for :: "nat \<Rightarrow> nat" where
  "shift_for shard_count = 64 - trailing_zeros shard_count"

text \<open>\<^verbatim>\<open>usize::is_power_of_two\<close>.\<close>

definition is_power_of_two :: "nat \<Rightarrow> bool" where
  "is_power_of_two n \<longleftrightarrow> n \<noteq> 0 \<and> n = 2 ^ trailing_zeros n"

text \<open>\<^const>\<open>None\<close> is the failing assertion.\<close>

definition assert_valid_shard_count :: "nat \<Rightarrow> unit option" where
  "assert_valid_shard_count shard_count =
     (if 0 < shard_count \<and> is_power_of_two shard_count then Some () else None)"

definition OVERFLOW_SLOT_KEY_MAGIC :: bytes where
  "OVERFLOW_SLOT_KEY_MAGIC = ascii ''SCKVKEY1''"

fun from_le_bytes :: "bytes \<Rightarrow> nat" where
  "from_le_bytes [] = 0"
| "from_le_bytes (b # bs) = unat b + 256 * from_le_bytes bs"

definition overflow_slot_shard :: "bytes \<Rightarrow> nat \<Rightarrow> nat option" where
  "overflow_slot_shard key shift =
     (if length key < 18 \<or> take 8 key \<noteq> OVERFLOW_SLOT_KEY_MAGIC then None
      else let shard = from_le_bytes (take 4 (drop 8 key));
               shard_count = (if shift = 64 then 1 else 2 ^ (64 - shift))
           in if shard < shard_count then Some shard else None)"

text \<open>\<^const>\<open>None\<close> is the subtraction below zero.\<close>

definition route_hash_for_shard :: "nat \<Rightarrow> nat \<Rightarrow> u64 option" where
  "route_hash_for_shard shard shift =
     (if shift = 64 then Some 0
      else do { n \<leftarrow> usize_sub shift 7; Some (push_bit n (of_nat shard)) })"

section \<open>Session prefixes\<close>

definition starts_with :: "bytes \<Rightarrow> bytes \<Rightarrow> bool" where
  "starts_with key p \<longleftrightarrow> take (length p) key = p"

definition separator_at :: "bytes \<Rightarrow> nat \<Rightarrow> bool" where
  "separator_at key index \<longleftrightarrow>
     key ! index = 58 \<and> key ! (index + 1) = 99 \<and> key ! (index + 2) = 58"

fun separator_loop :: "bytes \<Rightarrow> nat \<Rightarrow> nat option" where
  "separator_loop key 0 = (if separator_at key 0 then Some 0 else None)"
| "separator_loop key (Suc index) =
     (if separator_at key (Suc index) then Some (Suc index) else separator_loop key index)"

definition session_chunk_separator :: "bytes \<Rightarrow> nat option" where
  "session_chunk_separator key = (if length key < 3 then None else separator_loop key (length key - 3))"

definition session_route_prefix :: "bytes \<Rightarrow> bytes" where
  "session_route_prefix key =
     (if \<not> starts_with key (ascii ''s:'') then key
      else case session_chunk_separator key of
             Some index \<Rightarrow> take index key
           | None \<Rightarrow> key)"

definition compute_session_shard :: "(bytes \<Rightarrow> u64) \<Rightarrow> nat \<Rightarrow> bytes \<Rightarrow> nat" where
  "compute_session_shard hk shift session_prefix = stripe_index (hk session_prefix) shift"

definition compute_key_route :: "(bytes \<Rightarrow> u64) \<Rightarrow> embedded_route_mode \<Rightarrow> nat \<Rightarrow> bytes \<Rightarrow> embedded_key_route" where
  "compute_key_route hk route_mode shift key =
     (case (if route_mode = OverflowSlot then overflow_slot_shard key shift else None) of
        Some shard \<Rightarrow> \<lparr>shard_id = shard, key_hash = hk key\<rparr>
      | None \<Rightarrow>
          let route_hash = (case route_mode of
                SessionPrefix \<Rightarrow> hk (session_route_prefix key)
              | _ \<Rightarrow> hk key)
          in \<lparr>shard_id = stripe_index route_hash shift, key_hash = hk key\<rparr>)"

definition can_route_with_key_hash :: "embedded_route_mode \<Rightarrow> nat \<Rightarrow> bytes \<Rightarrow> bool" where
  "can_route_with_key_hash route_mode shard_count key =
     (case route_mode of
        FullKey \<Rightarrow> True
      | SessionPrefix \<Rightarrow> shard_count = 1 \<or> \<not> starts_with key (ascii ''s:'')
      | OverflowSlot \<Rightarrow> shard_count = 1)"

definition can_use_route_hash_as_key_hash :: "embedded_route_mode \<Rightarrow> bytes \<Rightarrow> bool" where
  "can_use_route_hash_as_key_hash route_mode key =
     (case route_mode of
        FullKey \<Rightarrow> True
      | SessionPrefix \<Rightarrow> \<not> starts_with key (ascii ''s:'')
      | OverflowSlot \<Rightarrow> False)"

definition route_key_prehashed ::
  "(bytes \<Rightarrow> u64) \<Rightarrow> embedded_route_mode \<Rightarrow> nat \<Rightarrow> nat \<Rightarrow> u64 \<Rightarrow> bytes \<Rightarrow> embedded_key_route" where
  "route_key_prehashed hk route_mode shard_count shift hash key =
     (if can_route_with_key_hash route_mode shard_count key
      then \<lparr>shard_id = stripe_index hash shift, key_hash = hash\<rparr>
      else compute_key_route hk route_mode shift key)"

section \<open>Session storage\<close>

text \<open>\<^verbatim>\<open>str::from_utf8\<close> succeeds.\<close>

definition cont :: "u8 \<Rightarrow> bool" where
  "cont c \<longleftrightarrow> 128 \<le> c \<and> c \<le> 191"

fun valid_utf8 :: "bytes \<Rightarrow> bool" where
  "valid_utf8 [] = True"
| "valid_utf8 (a # rest) =
     (if a < 128 then valid_utf8 rest
      else case rest of
        [] \<Rightarrow> False
      | b # rest1 \<Rightarrow>
          if 194 \<le> a \<and> a \<le> 223 then cont b \<and> valid_utf8 rest1
          else case rest1 of
            [] \<Rightarrow> False
          | c # rest2 \<Rightarrow>
              if a = 224 then 160 \<le> b \<and> b \<le> 191 \<and> cont c \<and> valid_utf8 rest2
              else if a = 237 then 128 \<le> b \<and> b \<le> 159 \<and> cont c \<and> valid_utf8 rest2
              else if 225 \<le> a \<and> a \<le> 239 then cont b \<and> cont c \<and> valid_utf8 rest2
              else case rest2 of
                [] \<Rightarrow> False
              | d # rest3 \<Rightarrow>
                  if a = 240 then 144 \<le> b \<and> b \<le> 191 \<and> cont c \<and> cont d \<and> valid_utf8 rest3
                  else if a = 244 then 128 \<le> b \<and> b \<le> 143 \<and> cont c \<and> cont d \<and> valid_utf8 rest3
                  else 241 \<le> a \<and> a \<le> 243 \<and> cont b \<and> cont c \<and> cont d \<and> valid_utf8 rest3)"

text \<open>\<^verbatim>\<open>str::split\<close> at an ASCII character.\<close>

fun split_on :: "u8 \<Rightarrow> bytes \<Rightarrow> bytes list" where
  "split_on c [] = [[]]"
| "split_on c (x # xs) =
     (if x = c then [] # split_on c xs
      else case split_on c xs of [] \<Rightarrow> [[x]] | p # ps \<Rightarrow> (x # p) # ps)"

definition strip_prefix :: "bytes \<Rightarrow> bytes \<Rightarrow> bytes option" where
  "strip_prefix p s = (if starts_with s p then Some (drop (length p) s) else None)"

fun find_map :: "('a \<Rightarrow> 'b option) \<Rightarrow> 'a list \<Rightarrow> 'b option" where
  "find_map f [] = None"
| "find_map f (x # xs) = (case f x of Some y \<Rightarrow> Some y | None \<Rightarrow> find_map f xs)"

definition derived_session_storage_prefix :: "bytes \<Rightarrow> bytes option" where
  "derived_session_storage_prefix key =
     (if starts_with key (ascii ''s:'') then Some (session_route_prefix key)
      else if 64 \<notin> set key then None
      else if \<not> valid_utf8 key then None
      else map_option (\<lambda>session. ascii ''lmcache-session:'' @ session)
             (find_map (strip_prefix (ascii ''session%'')) (split_on 64 key)))"

definition point_write_session_storage_prefix :: "bytes \<Rightarrow> bytes option" where
  "point_write_session_storage_prefix key =
     (if starts_with key (ascii ''s:'') then Some (session_route_prefix key) else None)"

definition batch_derived_session_storage_prefix :: "bytes list \<Rightarrow> bytes option" where
  "batch_derived_session_storage_prefix keys =
     (case keys of
        [] \<Rightarrow> None
      | k # ks \<Rightarrow> do {
          first \<leftarrow> derived_session_storage_prefix k;
          if list_all (\<lambda>key. derived_session_storage_prefix key = Some first) ks then Some first else None
        })"

definition uses_flat_key_storage :: "embedded_route_mode \<Rightarrow> bytes \<Rightarrow> bool" where
  "uses_flat_key_storage route_mode key \<longleftrightarrow>
     route_mode = FullKey \<or> derived_session_storage_prefix key = None"

section \<open>Shard indices\<close>

lemma trailing_zeros_1 [simp]: "trailing_zeros (Suc 0) = 0"
  by (simp add: trailing_zeros.simps)

lemma trailing_zeros_power [simp]: "trailing_zeros (2 ^ n) = n"
proof (induction n)
  case (Suc n)
  then show ?case by (subst trailing_zeros.simps) simp
qed simp

lemma power_of_two: "is_power_of_two n \<longleftrightarrow> (\<exists>m. n = 2 ^ m)"
  by (auto simp: is_power_of_two_def)

lemma shift_for_power: "shift_for (2 ^ n) = 64 - n"
  by (simp add: shift_for_def)

lemma stripe_index_value: "shift < 64 \<Longrightarrow> stripe_index h shift = unat h * 128 mod 2 ^ 64 div 2 ^ shift"
proof -
  assume "shift < 64"
  then have "stripe_index h shift = drop_bit shift (unat (push_bit 7 h))"
    by (simp add: stripe_index_def unat_drop_bit_eq)
  also have "\<dots> = unat (push_bit 7 h) div 2 ^ shift" by (rule drop_bit_eq_div)
  also have "unat (push_bit 7 h) = unat h * 128 mod 2 ^ 64" by (simp add: push_bit_eq_mult unat_word_ariths)
  finally show ?thesis .
qed

lemma stripe_index_bound:
  assumes "n < 64"
  shows "stripe_index h (64 - n) < 2 ^ n"
proof (cases "n = 0")
  case False
  have "(2 :: nat) ^ 64 = 2 ^ n * 2 ^ (64 - n)" using assms by (simp flip: power_add)
  then have "unat h * 128 mod 2 ^ 64 < 2 ^ n * 2 ^ (64 - n)" by (metis mod_less_divisor zero_less_numeral zero_less_power)
  with False assms show ?thesis by (simp add: stripe_index_value less_mult_imp_div_less)
qed (simp add: stripe_index_def)

lemma overflow_slot_bound: "n < 64 \<Longrightarrow> overflow_slot_shard key (64 - n) = Some s \<Longrightarrow> s < 2 ^ n"
  by (auto simp: overflow_slot_shard_def Let_def split: if_splits)

lemma route_bound: "n < 64 \<Longrightarrow> shard_id (compute_key_route hk mode (64 - n) key) < 2 ^ n"
  by (auto simp: compute_key_route_def Let_def stripe_index_bound overflow_slot_bound split: option.split)

lemma route_hash [simp]: "key_hash (compute_key_route hk mode shift key) = hk key"
  by (simp add: compute_key_route_def Let_def split: option.split)

lemma prehashed_route:
  assumes "n < 64"
  shows "route_key_prehashed hk mode (2 ^ n) (64 - n) (hk key) key = compute_key_route hk mode (64 - n) key"
proof (cases "can_route_with_key_hash mode (2 ^ n) key")
  case True
  have "shard_id (compute_key_route hk mode (64 - n) key) = stripe_index (hk key) (64 - n)"
  proof (cases "n = 0")
    case True
    then show ?thesis using route_bound [of 0 hk mode key] by (simp add: stripe_index_def)
  next
    case False
    with True show ?thesis
      by (auto simp: can_route_with_key_hash_def compute_key_route_def session_route_prefix_def
          split: embedded_route_mode.splits)
  qed
  with True show ?thesis by (simp add: route_key_prehashed_def)
qed (simp add: route_key_prehashed_def)

lemma route_hash_for_shard_stripe:
  assumes "n \<le> 57" "s < 2 ^ n"
  shows "\<exists>h. route_hash_for_shard s (64 - n) = Some h \<and> stripe_index h (64 - n) = s"
proof (cases "n = 0")
  case False
  let ?h = "push_bit (57 - n) (of_nat s) :: u64"
  have "s * 2 ^ (57 - n) < 2 ^ n * 2 ^ (57 - n)" using assms(2) by simp
  also have "\<dots> = (2 :: nat) ^ 57" using assms(1) by (simp flip: power_add)
  finally have small: "s * 2 ^ (57 - n) < 2 ^ 57" .
  have of_nat: "?h = of_nat (s * 2 ^ (57 - n))" by (simp add: push_bit_eq_mult)
  have h: "unat ?h = s * 2 ^ (57 - n)" unfolding of_nat unat_of_nat using small by simp
  have "64 - n = (57 - n) + 7" using assms(1) by simp
  then have "unat ?h * 128 = s * 2 ^ (64 - n)" by (simp only: h power_add) simp
  moreover have "unat ?h * 128 < 2 ^ 64" using small h by simp
  ultimately have "stripe_index ?h (64 - n) = s" using False by (simp add: stripe_index_value)
  moreover have "usize_sub (64 - n) 7 = Some (57 - n)" using assms(1) by simp
  moreover have "64 - n \<noteq> 64" using False assms(1) by simp
  ultimately show ?thesis by (simp add: route_hash_for_shard_def)
qed (use assms in \<open>simp add: route_hash_for_shard_def stripe_index_def\<close>)

section \<open>Sessions\<close>

lemma starts_with_iff: "starts_with key p \<longleftrightarrow> (\<exists>rest. key = p @ rest)"
  by (metis append_eq_conv_conj append_take_drop_id starts_with_def)

lemma separator_at_append: "separator_at (xs @ ys) (length xs + i) = separator_at ys i"
  by (simp add: separator_at_def nth_append)

lemma separator_loop_last:
  assumes "separator_at key i" "\<And>j. i < j \<Longrightarrow> j \<le> n \<Longrightarrow> \<not> separator_at key j" "i \<le> n"
  shows "separator_loop key n = Some i"
  using assms by (induction n) (auto simp: le_Suc_eq)

text \<open>\<open>:c:\<close> occurs nowhere in \<open>xs\<close>.\<close>

definition no_separator :: "bytes \<Rightarrow> bool" where
  "no_separator xs \<longleftrightarrow> (\<forall>i. i + 2 < length xs \<longrightarrow> \<not> separator_at xs i)"

text \<open>The prefix of a chunk key ends at its last separator.\<close>

lemma session_prefix_of_chunk:
  assumes "starts_with p (ascii ''s:'')" "no_separator (drop 1 (ascii '':c:'' @ chunk))"
  shows "session_route_prefix (p @ ascii '':c:'' @ chunk) = p"
proof -
  let ?key = "p @ ascii '':c:'' @ chunk"
  have a: "ascii '':c:'' = [58, 99, 58]" "ascii ''s:'' = [115, 58]" by code_simp+
  have "starts_with ?key (ascii ''s:'')" using assms(1) by (auto simp: starts_with_iff)
  moreover have "separator_loop ?key (length ?key - 3) = Some (length p)"
  proof (rule separator_loop_last)
    show "separator_at ?key (length p)" by (simp add: separator_at_def a nth_append)
    fix j assume j: "length p < j" "j \<le> length ?key - 3"
    then have "\<not> separator_at (drop 1 (ascii '':c:'' @ chunk)) (j - length p - 1)"
      using assms(2) by (simp add: no_separator_def a)
    moreover have "?key = (p @ [58]) @ drop 1 (ascii '':c:'' @ chunk)" "j = length (p @ [58]) + (j - length p - 1)"
      using j by (simp_all add: a)
    ultimately show "\<not> separator_at ?key j" by (metis separator_at_append)
  qed (simp add: a)
  ultimately show ?thesis by (simp add: session_route_prefix_def session_chunk_separator_def a)
qed

text \<open>In session mode all chunks of a session have one shard; their key hashes still differ.\<close>

lemma session_chunks_one_shard:
  assumes "starts_with p (ascii ''s:'')" "no_separator (drop 1 (ascii '':c:'' @ chunk))"
  shows "shard_id (compute_key_route hk SessionPrefix shift (p @ ascii '':c:'' @ chunk)) = compute_session_shard hk shift p"
    "derived_session_storage_prefix (p @ ascii '':c:'' @ chunk) = Some p"
    "point_write_session_storage_prefix (p @ ascii '':c:'' @ chunk) = Some p"
proof -
  have "starts_with (p @ ascii '':c:'' @ chunk) (ascii ''s:'')" using assms(1) by (auto simp: starts_with_iff)
  with session_prefix_of_chunk [OF assms] show
    "shard_id (compute_key_route hk SessionPrefix shift (p @ ascii '':c:'' @ chunk)) = compute_session_shard hk shift p"
    "derived_session_storage_prefix (p @ ascii '':c:'' @ chunk) = Some p"
    "point_write_session_storage_prefix (p @ ascii '':c:'' @ chunk) = Some p"
    by (simp_all add: compute_key_route_def compute_session_shard_def derived_session_storage_prefix_def
        point_write_session_storage_prefix_def)
qed

lemma batch_prefix_all:
  "batch_derived_session_storage_prefix keys = Some p \<longleftrightarrow>
     keys \<noteq> [] \<and> (\<forall>k\<in>set keys. derived_session_storage_prefix k = Some p)"
  by (cases keys) (auto simp: batch_derived_session_storage_prefix_def list_all_iff bind_eq_Some_conv)

end
