(* ===== verification/Resp.thy ===== *)
theory Resp
  imports F64 Routing
begin

text \<open>
  The RESP codec (\<^verbatim>\<open>protocol/resp.rs\<close>): the frames of RESP2 and RESP3, the encoder, the frame
  decoder with its bounds on container sizes and nesting, and the two command decoders, one that
  borrows the parts of a command and one that returns their spans.

  \<^verbatim>\<open>memchr::memmem::find\<close>, \<^verbatim>\<open>itoa\<close> and the outcome of \<^verbatim>\<open>try_reserve_exact\<close> are the parameters
  of the record \<open>libs\<close>; \<open>libs_ok\<close> states what the first two document. A \<^verbatim>\<open>String\<close> is its UTF-8
  bytes. \<open>Inl\<close> is a protocol error, \<open>Inr None\<close> asks for more input and \<open>Inr (Some (x, n))\<close> is \<open>x\<close>
  read from \<open>n\<close> bytes. Every slice of the source starts behind a byte that has been read, so
  none is out of range.

  Shown: decoding an encoded frame returns it and the bytes it took, whatever follows; a decoded
  frame or an error is not changed by more input and never reads past the buffer; the short path
  for headers agrees with the general one; the three ways to decode a command agree.
\<close>

section \<open>Frames\<close>

datatype frame =
    is_SimpleString: SimpleString bytes
  | is_BlobString: BlobString bytes
  | is_Integer: Integer int
  | is_Array: Array "frame list"
  | Map "(frame \<times> frame) list"
  | Set "frame list"
  | Push "frame list"
  | Null
  | Boolean bool
  | Double bytes
  | BigNumber bytes
  | VerbatimString (verbatim_format: bytes) (verbatim_value: bytes)
  | Attribute (attributes: "(frame \<times> frame) list") (attribute_data: frame)
  | Error bytes

record command_frame =
  parts :: "bytes list"

text \<open>The spans are pairs of a start and an end.\<close>

record command_span_frame =
  part_spans :: "(nat \<times> nat) list"

text \<open>The messages of \<^verbatim>\<open>ShardCacheError::Protocol\<close>, with the values they print.\<close>

datatype resp_error =
    InvalidUtf8 string
  | UnsupportedPrefix u8
  | UnsupportedPartPrefix u8
  | ExpectedCommandArray
  | NullNotSupported string
  | MissingTerminator string
  | NegativeLength string
  | OffsetOverflow string
  | LengthOverflow string
  | NegativeCount string
  | CountExceedsMaximum string nat
  | CountOverflow string
  | AllocationFailed string
  | NestingTooDeep
  | InvalidNull
  | InvalidBooleanMarker u8
  | InvalidBoolean
  | InvalidDouble
  | InvalidBigNumber
  | VerbatimTooShort
  | VerbatimNoSeparator
  | VerbatimFormatLength
  | EmptyInteger
  | NonDigit u8
  | IntegerOverflow
  | BadCommandPart frame
  | NotACommand frame

type_synonym 'a decoded = "resp_error + ('a \<times> nat) option"

definition RESP_MAX_CONTAINER_ITEMS :: nat where
  "RESP_MAX_CONTAINER_ITEMS = 65536"

definition RESP_MAX_NESTING_DEPTH :: nat where
  "RESP_MAX_NESTING_DEPTH = 128"

definition RESP_MIN_FRAME_BYTES :: nat where
  "RESP_MIN_FRAME_BYTES = 3"

section \<open>Libraries\<close>

text \<open>
  The search of a needle in a haystack, the decimal rendering of integers, and whether reserving
  room for a number of items succeeds.
\<close>

record libs =
  memmem :: "bytes \<Rightarrow> bytes \<Rightarrow> nat option"
  itoa :: "int \<Rightarrow> bytes"
  try_reserve :: "nat \<Rightarrow> bool"

definition occurs_at :: "bytes \<Rightarrow> bytes \<Rightarrow> nat \<Rightarrow> bool" where
  "occurs_at hay needle i \<longleftrightarrow> i + length needle \<le> length hay \<and> take (length needle) (drop i hay) = needle"

definition libs_ok :: "libs \<Rightarrow> bool" where
  "libs_ok L \<longleftrightarrow>
     (\<forall>hay needle. case memmem L hay needle of
        None \<Rightarrow> \<forall>i. \<not> occurs_at hay needle i
      | Some i \<Rightarrow> occurs_at hay needle i \<and> (\<forall>j<i. \<not> occurs_at hay needle j)) \<and>
     (\<forall>v. itoa L v = i64_to_string v)"

definition reserve_ok :: "libs \<Rightarrow> bool" where
  "reserve_ok L \<longleftrightarrow> (\<forall>n \<le> RESP_MAX_CONTAINER_ITEMS. try_reserve L n)"

definition plain_libs :: libs where
  "plain_libs = \<lparr>memmem = (\<lambda>hay needle. position (occurs_at hay needle) [0..<Suc (length hay)]),
                 itoa = i64_to_string, try_reserve = (\<lambda>n. True)\<rparr>"

section \<open>Encoding\<close>

definition CRLF :: bytes where
  "CRLF = [13, 10]"

text \<open>\<^verbatim>\<open>RespCodec::encode\<close>; \<open>out\<close> is the vector appended to. The prefix bytes are those of the source's match.\<close>

fun encode :: "libs \<Rightarrow> frame \<Rightarrow> bytes \<Rightarrow> bytes" where
  "encode L (SimpleString value) out = out @ ascii ''+'' @ value @ CRLF"
| "encode L (BlobString value) out = out @ ascii ''$'' @ itoa L (int (length value)) @ CRLF @ value @ CRLF"
| "encode L (Integer value) out = out @ ascii '':'' @ itoa L value @ CRLF"
| "encode L (Array items) out =
     foldl (\<lambda>out item. encode L item out) (out @ ascii ''*'' @ itoa L (int (length items)) @ CRLF) items"
| "encode L (Map items) out =
     foldl (\<lambda>out (key, value). encode L value (encode L key out))
       (out @ ascii ''%'' @ itoa L (int (length items)) @ CRLF) items"
| "encode L (Set items) out =
     foldl (\<lambda>out item. encode L item out) (out @ ascii ''~'' @ itoa L (int (length items)) @ CRLF) items"
| "encode L (Push items) out =
     foldl (\<lambda>out item. encode L item out) (out @ ascii ''>'' @ itoa L (int (length items)) @ CRLF) items"
| "encode L Null out = out @ ascii ''_'' @ CRLF"
| "encode L (Boolean value) out = out @ (if value then ascii ''#t'' else ascii ''#f'') @ CRLF"
| "encode L (Double value) out = out @ ascii '','' @ value @ CRLF"
| "encode L (BigNumber value) out = out @ ascii ''('' @ value @ CRLF"
| "encode L (VerbatimString format value) out =
     out @ ascii ''='' @ itoa L (int (length format + 1 + length value)) @ CRLF @
       format @ ascii '':'' @ value @ CRLF"
| "encode L (Attribute attrs data) out =
     encode L data
       (foldl (\<lambda>out (key, value). encode L value (encode L key out))
         (out @ ascii ''|'' @ itoa L (int (length attrs)) @ CRLF) attrs)"
| "encode L (Error message) out = out @ ascii ''-'' @ message @ CRLF"

section \<open>Lines and headers\<close>

text \<open>\<^verbatim>\<open>let Some(x) = m? else { return Ok(None) };\<close>\<close>

definition let_some :: "'e + 'a option \<Rightarrow> ('a \<Rightarrow> 'e + 'b option) \<Rightarrow> 'e + 'b option" where
  "let_some m f = (case m of Inl e \<Rightarrow> Inl e | Inr None \<Rightarrow> Inr None | Inr (Some x) \<Rightarrow> f x)"

text \<open>\<^verbatim>\<open>&buffer[a..b]\<close>.\<close>

definition slice :: "nat \<Rightarrow> nat \<Rightarrow> 'a list \<Rightarrow> 'a list" where
  "slice a b xs = take (b - a) (drop a xs)"

definition find_crlf :: "libs \<Rightarrow> bytes \<Rightarrow> nat option" where
  "find_crlf L buffer = memmem L buffer CRLF"

definition split_sign :: "bytes \<Rightarrow> bool \<times> bytes" where
  "split_sign bs =
     (case bs of
        [] \<Rightarrow> (False, bs)
      | c # rest \<Rightarrow> if c = 45 then (True, rest) else if c = 43 then (False, rest) else (False, bs))"

text \<open>The loop over the digits, at the width of \<^verbatim>\<open>i64\<close> and \<^verbatim>\<open>isize\<close>.\<close>

fun ascii_digits :: "bytes \<Rightarrow> int \<Rightarrow> resp_error + int" where
  "ascii_digits [] value = Inr value"
| "ascii_digits (b # bs) value =
     (if \<not> is_digit b then Inl (NonDigit b)
      else case Option.bind (checked_mul value 10) (\<lambda>v. checked_add v (uint (b - 48))) of
             None \<Rightarrow> Inl IntegerOverflow
           | Some value \<Rightarrow> ascii_digits bs value)"

definition parse_ascii_isize :: "bytes \<Rightarrow> resp_error + int" where
  "parse_ascii_isize bs =
     (let (negative, digits) = split_sign bs
      in if digits = [] then Inl EmptyInteger
         else case ascii_digits digits 0 of
                Inl e \<Rightarrow> Inl e
              | Inr value \<Rightarrow> Inr (if negative then - value else value))"

definition parse_ascii_i64 :: "bytes \<Rightarrow> resp_error + int" where
  "parse_ascii_i64 bs =
     (let (negative, digits) = split_sign bs
      in if digits = [] then Inl EmptyInteger
         else case ascii_digits digits 0 of
                Inl e \<Rightarrow> Inl e
              | Inr value \<Rightarrow> Inr (if negative then - value else value))"

definition try_parse_short_uint_line :: "bytes \<Rightarrow> (nat \<times> nat) option" where
  "try_parse_short_uint_line buffer =
     (if length buffer < 3 then None
      else if \<not> is_digit (buffer ! 0) then None
      else let d0 = unat (buffer ! 0 - 48) in
      if buffer ! 1 = 13 \<and> buffer ! 2 = 10 then Some (d0, 3)
      else if length buffer < 4 then None
      else if \<not> is_digit (buffer ! 1) then None
      else let d1 = unat (buffer ! 1 - 48) in
      if buffer ! 2 = 13 \<and> buffer ! 3 = 10 then Some (d0 * 10 + d1, 4)
      else if length buffer < 5 then None
      else if \<not> is_digit (buffer ! 2) then None
      else let d2 = unat (buffer ! 2 - 48) in
      if buffer ! 3 = 13 \<and> buffer ! 4 = 10 then Some (d0 * 100 + d1 * 10 + d2, 5)
      else if length buffer < 6 then None
      else if \<not> is_digit (buffer ! 3) then None
      else let d3 = unat (buffer ! 3 - 48) in
      if buffer ! 4 = 13 \<and> buffer ! 5 = 10 then Some (d0 * 1000 + d1 * 100 + d2 * 10 + d3, 6)
      else None)"

definition parse_isize_line :: "libs \<Rightarrow> bytes \<Rightarrow> int decoded" where
  "parse_isize_line L buffer =
     (case try_parse_short_uint_line buffer of
        Some (value, consumed) \<Rightarrow> Inr (Some (int value, consumed))
      | None \<Rightarrow>
          (case find_crlf L buffer of
             None \<Rightarrow> Inr None
           | Some e \<Rightarrow>
               (case parse_ascii_isize (take e buffer) of
                  Inl x \<Rightarrow> Inl x
                | Inr value \<Rightarrow> Inr (Some (value, e + 2)))))"

definition parse_i64_line :: "libs \<Rightarrow> bytes \<Rightarrow> int decoded" where
  "parse_i64_line L buffer =
     (case find_crlf L buffer of
        None \<Rightarrow> Inr None
      | Some e \<Rightarrow>
          (case parse_ascii_i64 (take e buffer) of
             Inl x \<Rightarrow> Inl x
           | Inr value \<Rightarrow> Inr (Some (value, e + 2))))"

definition parse_line :: "libs \<Rightarrow> bytes \<Rightarrow> bytes decoded" where
  "parse_line L buffer =
     (case find_crlf L buffer of
        None \<Rightarrow> Inr None
      | Some e \<Rightarrow>
          if valid_utf8 (take e buffer) then Inr (Some (take e buffer, e + 2))
          else Inl (InvalidUtf8 ''RESP line''))"

text \<open>\<^verbatim>\<open>usize::checked_add\<close> and \<^verbatim>\<open>checked_mul\<close>.\<close>

definition usize_checked :: "nat \<Rightarrow> nat option" where
  "usize_checked n = (if n \<le> USIZE_MAX then Some n else None)"

definition exceeds_maximum :: "nat \<Rightarrow> bool" where
  "exceeds_maximum n \<longleftrightarrow> RESP_MAX_CONTAINER_ITEMS < n"

text \<open>Evaluation compares with the large bounds as integers.\<close>

lemma bounds_code [code]:
  "usize_checked n = (if int n < 2 ^ 64 then Some n else None)"
  "exceeds_maximum n \<longleftrightarrow> 65536 < int n"
  by (auto simp: usize_checked_def USIZE_MAX_def exceeds_maximum_def RESP_MAX_CONTAINER_ITEMS_def)

declare exceeds_maximum_def [simp]

definition validate_container_count :: "bytes \<Rightarrow> nat \<Rightarrow> int \<Rightarrow> nat \<Rightarrow> string \<Rightarrow> resp_error + nat option" where
  "validate_container_count buffer cursor cnt frames_per_item label =
     (if cnt < 0 then Inl (NegativeCount label)
      else let n = nat cnt in
      if exceeds_maximum n then Inl (CountExceedsMaximum label n)
      else case Option.bind (usize_checked (n * frames_per_item))
                  (\<lambda>c. usize_checked (c * RESP_MIN_FRAME_BYTES)) of
             None \<Rightarrow> Inl (CountOverflow label)
           | Some minimum \<Rightarrow>
               if length buffer - cursor < minimum then Inr None else Inr (Some n))"

definition payload_bounds :: "bytes \<Rightarrow> nat \<Rightarrow> nat \<Rightarrow> int \<Rightarrow> string \<Rightarrow> resp_error + (nat \<times> nat \<times> nat) option" where
  "payload_bounds buffer offset header_consumed len label =
     (if len < 0 then Inl (NegativeLength label)
      else case Option.bind (usize_checked (offset + 1)) (\<lambda>v. usize_checked (v + header_consumed)) of
        None \<Rightarrow> Inl (OffsetOverflow label)
      | Some start \<Rightarrow>
          (case usize_checked (start + nat len) of
             None \<Rightarrow> Inl (LengthOverflow label)
           | Some e \<Rightarrow>
               (case usize_checked (e + 2) of
                  None \<Rightarrow> Inl (LengthOverflow label)
                | Some frame_end \<Rightarrow>
                    if length buffer < frame_end then Inr None else Inr (Some (start, e, frame_end)))))"

text \<open>
  The bounds of a payload and the check of its terminator, which the five parsers of a payload
  share; \<open>label\<close> is the one of the bounds, \<open>what\<close> the one of the terminator's message.
\<close>

definition payload :: "bytes \<Rightarrow> nat \<Rightarrow> nat \<Rightarrow> int \<Rightarrow> string \<Rightarrow> string \<Rightarrow> resp_error + (nat \<times> nat \<times> nat) option" where
  "payload buffer offset header_consumed len label what =
     let_some (payload_bounds buffer offset header_consumed len label) (\<lambda>(start, e, frame_end).
       if slice e (e + 2) buffer \<noteq> CRLF then Inl (MissingTerminator what)
       else Inr (Some (start, e, frame_end)))"

section \<open>Command decoding\<close>

definition parse_command_blob_string :: "libs \<Rightarrow> bytes \<Rightarrow> nat \<Rightarrow> bytes decoded" where
  "parse_command_blob_string L buffer offset =
     let_some (parse_isize_line L (drop (offset + 1) buffer)) (\<lambda>(len, header_consumed).
       if len < 0 then Inl (NullNotSupported ''bulk strings'')
       else let_some (payload buffer offset header_consumed len ''command blob string'' ''blob string'')
         (\<lambda>(start, e, frame_end). Inr (Some (slice start e buffer, frame_end - offset))))"

definition parse_command_blob_string_span :: "libs \<Rightarrow> bytes \<Rightarrow> nat \<Rightarrow> (nat \<times> nat) decoded" where
  "parse_command_blob_string_span L buffer offset =
     let_some (parse_isize_line L (drop (offset + 1) buffer)) (\<lambda>(len, header_consumed).
       if len < 0 then Inl (NullNotSupported ''bulk strings'')
       else let_some (payload buffer offset header_consumed len ''command blob string'' ''blob string'')
         (\<lambda>(start, e, frame_end). Inr (Some ((start, e), frame_end - offset))))"

definition parse_command_simple_string :: "libs \<Rightarrow> bytes \<Rightarrow> nat \<Rightarrow> bytes decoded" where
  "parse_command_simple_string L buffer offset =
     (case find_crlf L (drop (offset + 1) buffer) of
        None \<Rightarrow> Inr None
      | Some line_end \<Rightarrow>
          (let start = offset + 1; e = start + line_end
           in Inr (Some (slice start e buffer, e + 2 - offset))))"

definition parse_command_line_span :: "libs \<Rightarrow> bytes \<Rightarrow> nat \<Rightarrow> (nat \<times> nat) decoded" where
  "parse_command_line_span L buffer offset =
     (case find_crlf L (drop (offset + 1) buffer) of
        None \<Rightarrow> Inr None
      | Some line_end \<Rightarrow>
          (let start = offset + 1; e = start + line_end
           in Inr (Some ((start, e), e + 2 - offset))))"

definition parse_command_integer :: "libs \<Rightarrow> bytes \<Rightarrow> nat \<Rightarrow> bytes decoded" where
  "parse_command_integer L buffer offset =
     (case find_crlf L (drop (offset + 1) buffer) of
        None \<Rightarrow> Inr None
      | Some line_end \<Rightarrow>
          (let start = offset + 1; e = start + line_end
           in Inr (Some (slice start e buffer, e + 2 - offset))))"

definition parse_command_part :: "libs \<Rightarrow> bytes \<Rightarrow> nat \<Rightarrow> bytes decoded" where
  "parse_command_part L buffer offset =
     (if length buffer \<le> offset then Inr None
      else if buffer ! offset = 36 then parse_command_blob_string L buffer offset
      else if buffer ! offset = 43 then parse_command_simple_string L buffer offset
      else if buffer ! offset = 58 then parse_command_integer L buffer offset
      else Inl (UnsupportedPartPrefix (buffer ! offset)))"

definition parse_command_part_span :: "libs \<Rightarrow> bytes \<Rightarrow> nat \<Rightarrow> (nat \<times> nat) decoded" where
  "parse_command_part_span L buffer offset =
     (if length buffer \<le> offset then Inr None
      else if buffer ! offset = 36 then parse_command_blob_string_span L buffer offset
      else if buffer ! offset = 43 then parse_command_line_span L buffer offset
      else if buffer ! offset = 58 then parse_command_line_span L buffer offset
      else Inl (UnsupportedPartPrefix (buffer ! offset)))"

text \<open>
  \<^verbatim>\<open>for _ in 0..count\<close> over a parser of items, which gives the items and the cursor behind them, and
  the same loop over pairs of items.
\<close>

fun parse_items :: "(nat \<Rightarrow> 'a decoded) \<Rightarrow> nat \<Rightarrow> nat \<Rightarrow> 'a list decoded" where
  "parse_items item 0 cursor = Inr (Some ([], cursor))"
| "parse_items item (Suc n) cursor =
     let_some (item cursor) (\<lambda>(x, consumed).
       let_some (parse_items item n (cursor + consumed)) (\<lambda>(xs, cursor).
         Inr (Some (x # xs, cursor))))"

fun parse_pairs :: "(nat \<Rightarrow> 'a decoded) \<Rightarrow> nat \<Rightarrow> nat \<Rightarrow> ('a \<times> 'a) list decoded" where
  "parse_pairs item 0 cursor = Inr (Some ([], cursor))"
| "parse_pairs item (Suc n) cursor =
     let_some (item cursor) (\<lambda>(key, consumed).
       let_some (item (cursor + consumed)) (\<lambda>(value, consumed').
         let_some (parse_pairs item n (cursor + consumed + consumed')) (\<lambda>(xs, cursor).
           Inr (Some ((key, value) # xs, cursor)))))"

text \<open>
  The count of a container is validated and room reserved before its loop runs, in every parser
  of a container; \<open>room\<close> names the room in the message.
\<close>

definition counted :: "libs \<Rightarrow> bytes \<Rightarrow> nat \<Rightarrow> int \<Rightarrow> nat \<Rightarrow> string \<Rightarrow> string \<Rightarrow>
    (nat \<Rightarrow> nat \<Rightarrow> 'a decoded) \<Rightarrow> 'a decoded" where
  "counted L buffer cursor cnt frames_per_item label room loop =
     let_some (validate_container_count buffer cursor cnt frames_per_item label) (\<lambda>n.
       if \<not> try_reserve L n then Inl (AllocationFailed room) else loop n cursor)"

definition parse_command_frame :: "libs \<Rightarrow> bytes \<Rightarrow> nat \<Rightarrow> command_frame decoded" where
  "parse_command_frame L buffer offset =
     (if length buffer \<le> offset then Inr None
      else if buffer ! offset \<noteq> 42 then Inl ExpectedCommandArray
      else let_some (parse_isize_line L (drop (offset + 1) buffer)) (\<lambda>(cnt, header_consumed).
        if cnt < 0 then Inl (NullNotSupported ''command arrays'')
        else let_some (counted L buffer (offset + 1 + header_consumed) cnt 1 ''command array'' ''command part''
                         (parse_items (parse_command_part L buffer)))
          (\<lambda>(ps, cursor). Inr (Some (\<lparr>parts = ps\<rparr>, cursor - offset)))))"

definition parse_command_span_frame :: "libs \<Rightarrow> bytes \<Rightarrow> nat \<Rightarrow> command_span_frame decoded" where
  "parse_command_span_frame L buffer offset =
     (if length buffer \<le> offset then Inr None
      else if buffer ! offset \<noteq> 42 then Inl ExpectedCommandArray
      else let_some (parse_isize_line L (drop (offset + 1) buffer)) (\<lambda>(cnt, header_consumed).
        if cnt < 0 then Inl (NullNotSupported ''command arrays'')
        else let_some (counted L buffer (offset + 1 + header_consumed) cnt 1 ''command array'' ''command span''
                         (parse_items (parse_command_part_span L buffer)))
          (\<lambda>(ps, cursor). Inr (Some (\<lparr>part_spans = ps\<rparr>, cursor - offset)))))"

definition decode_command :: "libs \<Rightarrow> bytes \<Rightarrow> command_frame decoded" where
  "decode_command L buffer = (if buffer = [] then Inr None else parse_command_frame L buffer 0)"

definition decode_command_spans :: "libs \<Rightarrow> bytes \<Rightarrow> command_span_frame decoded" where
  "decode_command_spans L buffer = (if buffer = [] then Inr None else parse_command_span_frame L buffer 0)"

section \<open>Frame decoding\<close>

text \<open>
  The parsers of the kinds of frame. A parser of a container takes the parser of its items, which is
  \<^verbatim>\<open>parse_frame_at_depth\<close> one level deeper, as \<open>item\<close>.
\<close>

definition parse_simple_string :: "libs \<Rightarrow> bytes \<Rightarrow> nat \<Rightarrow> frame decoded" where
  "parse_simple_string L buffer offset =
     let_some (parse_line L (drop (offset + 1) buffer)) (\<lambda>(line, consumed).
       Inr (Some (SimpleString line, consumed + 1)))"

definition parse_error :: "libs \<Rightarrow> bytes \<Rightarrow> nat \<Rightarrow> frame decoded" where
  "parse_error L buffer offset =
     let_some (parse_line L (drop (offset + 1) buffer)) (\<lambda>(line, consumed).
       Inr (Some (Error line, consumed + 1)))"

definition parse_blob_error :: "libs \<Rightarrow> bytes \<Rightarrow> nat \<Rightarrow> frame decoded" where
  "parse_blob_error L buffer offset =
     let_some (parse_isize_line L (drop (offset + 1) buffer)) (\<lambda>(len, header_consumed).
       if len < 0 then Inl (NullNotSupported ''blob errors'')
       else let_some (payload buffer offset header_consumed len ''blob error'' ''blob error'')
         (\<lambda>(start, e, frame_end).
           if valid_utf8 (slice start e buffer)
           then Inr (Some (Error (slice start e buffer), frame_end - offset))
           else Inl (InvalidUtf8 ''RESP error'')))"

definition parse_integer :: "libs \<Rightarrow> bytes \<Rightarrow> nat \<Rightarrow> frame decoded" where
  "parse_integer L buffer offset =
     let_some (parse_i64_line L (drop (offset + 1) buffer)) (\<lambda>(value, consumed).
       Inr (Some (Integer value, consumed + 1)))"

definition parse_blob_string :: "libs \<Rightarrow> bytes \<Rightarrow> nat \<Rightarrow> frame decoded" where
  "parse_blob_string L buffer offset =
     let_some (parse_isize_line L (drop (offset + 1) buffer)) (\<lambda>(len, header_consumed).
       if len < 0 then Inr (Some (Null, header_consumed + 1))
       else let_some (payload buffer offset header_consumed len ''blob string'' ''blob string'')
         (\<lambda>(start, e, frame_end). Inr (Some (BlobString (slice start e buffer), frame_end - offset))))"

definition parse_array :: "libs \<Rightarrow> (nat \<Rightarrow> frame decoded) \<Rightarrow> bytes \<Rightarrow> nat \<Rightarrow> frame decoded" where
  "parse_array L item buffer offset =
     let_some (parse_isize_line L (drop (offset + 1) buffer)) (\<lambda>(cnt, header_consumed).
       if cnt < 0 then Inr (Some (Null, header_consumed + 1))
       else let_some (counted L buffer (offset + 1 + header_consumed) cnt 1 ''array'' ''array'' (parse_items item))
         (\<lambda>(items, cursor). Inr (Some (Array items, cursor - offset))))"

definition parse_map :: "libs \<Rightarrow> (nat \<Rightarrow> frame decoded) \<Rightarrow> bytes \<Rightarrow> nat \<Rightarrow> frame decoded" where
  "parse_map L item buffer offset =
     let_some (parse_isize_line L (drop (offset + 1) buffer)) (\<lambda>(cnt, header_consumed).
       if cnt < 0 then Inl (NullNotSupported ''maps'')
       else let_some (counted L buffer (offset + 1 + header_consumed) cnt 2 ''map'' ''map'' (parse_pairs item))
         (\<lambda>(items, cursor). Inr (Some (Map items, cursor - offset))))"

definition parse_set :: "libs \<Rightarrow> (nat \<Rightarrow> frame decoded) \<Rightarrow> bytes \<Rightarrow> nat \<Rightarrow> frame decoded" where
  "parse_set L item buffer offset =
     let_some (parse_isize_line L (drop (offset + 1) buffer)) (\<lambda>(cnt, header_consumed).
       if cnt < 0 then Inl (NullNotSupported ''sets'')
       else let_some (counted L buffer (offset + 1 + header_consumed) cnt 1 ''set'' ''set'' (parse_items item))
         (\<lambda>(items, cursor). Inr (Some (Set items, cursor - offset))))"

definition parse_push :: "libs \<Rightarrow> (nat \<Rightarrow> frame decoded) \<Rightarrow> bytes \<Rightarrow> nat \<Rightarrow> frame decoded" where
  "parse_push L item buffer offset =
     let_some (parse_isize_line L (drop (offset + 1) buffer)) (\<lambda>(cnt, header_consumed).
       if cnt < 0 then Inl (NullNotSupported ''pushes'')
       else let_some (counted L buffer (offset + 1 + header_consumed) cnt 1 ''push'' ''push'' (parse_items item))
         (\<lambda>(items, cursor). Inr (Some (Push items, cursor - offset))))"

definition parse_null :: "bytes \<Rightarrow> nat \<Rightarrow> frame decoded" where
  "parse_null buffer offset =
     (if length buffer < offset + 3 then Inr None
      else if slice (offset + 1) (offset + 3) buffer \<noteq> CRLF then Inl InvalidNull
      else Inr (Some (Null, 3)))"

definition parse_boolean :: "bytes \<Rightarrow> nat \<Rightarrow> frame decoded" where
  "parse_boolean buffer offset =
     (if length buffer < offset + 4 then Inr None
      else let marker = buffer ! (offset + 1) in
      if marker \<noteq> 116 \<and> marker \<noteq> 102 then Inl (InvalidBooleanMarker marker)
      else if slice (offset + 2) (offset + 4) buffer \<noteq> CRLF then Inl InvalidBoolean
      else Inr (Some (Boolean (marker = 116), 4)))"

definition double_ok :: "bytes \<Rightarrow> bool" where
  "double_ok line \<longleftrightarrow>
     line \<in> {ascii ''inf'', ascii ''+inf'', ascii ''-inf'', ascii ''nan''} \<or> f64_from_str line \<noteq> None"

definition parse_double :: "libs \<Rightarrow> bytes \<Rightarrow> nat \<Rightarrow> frame decoded" where
  "parse_double L buffer offset =
     let_some (parse_line L (drop (offset + 1) buffer)) (\<lambda>(line, consumed).
       if \<not> double_ok line then Inl InvalidDouble
       else Inr (Some (Double line, consumed + 1)))"

definition big_number_ok :: "bytes \<Rightarrow> bool" where
  "big_number_ok line \<longleftrightarrow>
     (let digits = (case line of c # rest \<Rightarrow> if c = 43 \<or> c = 45 then rest else line | [] \<Rightarrow> line)
      in digits \<noteq> [] \<and> list_all is_digit digits)"

definition parse_big_number :: "libs \<Rightarrow> bytes \<Rightarrow> nat \<Rightarrow> frame decoded" where
  "parse_big_number L buffer offset =
     let_some (parse_line L (drop (offset + 1) buffer)) (\<lambda>(line, consumed).
       if \<not> big_number_ok line then Inl InvalidBigNumber
       else Inr (Some (BigNumber line, consumed + 1)))"

definition parse_verbatim_string :: "libs \<Rightarrow> bytes \<Rightarrow> nat \<Rightarrow> frame decoded" where
  "parse_verbatim_string L buffer offset =
     let_some (parse_isize_line L (drop (offset + 1) buffer)) (\<lambda>(len, header_consumed).
       if len < 4 then Inl VerbatimTooShort
       else let_some (payload buffer offset header_consumed len ''verbatim string'' ''verbatim string'')
         (\<lambda>(start, e, frame_end).
           let body = slice start e buffer in
           case position (\<lambda>byte. byte = 58) body of
             None \<Rightarrow> Inl VerbatimNoSeparator
           | Some colon \<Rightarrow>
               if colon \<noteq> 3 then Inl VerbatimFormatLength
               else if \<not> valid_utf8 (take colon body) then Inl (InvalidUtf8 ''RESP3 verbatim format'')
               else Inr (Some (VerbatimString (take colon body) (drop (colon + 1) body), frame_end - offset))))"

text \<open>\<^verbatim>\<open>debug_assert_eq!\<close> on the prefix holds at the only call.\<close>

definition parse_map_with_prefix :: "libs \<Rightarrow> (nat \<Rightarrow> frame decoded) \<Rightarrow> bytes \<Rightarrow> nat \<Rightarrow> frame decoded" where
  "parse_map_with_prefix L item buffer offset =
     let_some (parse_isize_line L (drop (offset + 1) buffer)) (\<lambda>(cnt, header_consumed).
       if cnt < 0 then Inl (NullNotSupported ''attributes'')
       else let_some (counted L buffer (offset + 1 + header_consumed) cnt 2 ''attribute'' ''attribute'' (parse_pairs item))
         (\<lambda>(items, cursor). Inr (Some (Map items, cursor - offset))))"

definition parse_attribute :: "libs \<Rightarrow> (nat \<Rightarrow> frame decoded) \<Rightarrow> bytes \<Rightarrow> nat \<Rightarrow> frame decoded" where
  "parse_attribute L item buffer offset =
     let_some (parse_map_with_prefix L item buffer offset) (\<lambda>(f, consumed).
       case f of
         Map attrs \<Rightarrow>
           let_some (item (offset + consumed)) (\<lambda>(data, data_consumed).
             Inr (Some (Attribute attrs data, consumed + data_consumed)))
       | _ \<Rightarrow> Inr None)"

function parse_frame_at_depth :: "libs \<Rightarrow> bytes \<Rightarrow> nat \<Rightarrow> nat \<Rightarrow> frame decoded" where
  "parse_frame_at_depth L buffer offset depth =
     (if length buffer \<le> offset then Inr None
      else if RESP_MAX_NESTING_DEPTH < depth then Inl NestingTooDeep
      else let item = (\<lambda>cursor. parse_frame_at_depth L buffer cursor (depth + 1)); prefix = buffer ! offset in
      if prefix = 43 then parse_simple_string L buffer offset
      else if prefix = 45 then parse_error L buffer offset
      else if prefix = 33 then parse_blob_error L buffer offset
      else if prefix = 58 then parse_integer L buffer offset
      else if prefix = 36 then parse_blob_string L buffer offset
      else if prefix = 42 then parse_array L item buffer offset
      else if prefix = 37 then parse_map L item buffer offset
      else if prefix = 126 then parse_set L item buffer offset
      else if prefix = 62 then parse_push L item buffer offset
      else if prefix = 95 then parse_null buffer offset
      else if prefix = 35 then parse_boolean buffer offset
      else if prefix = 44 then parse_double L buffer offset
      else if prefix = 40 then parse_big_number L buffer offset
      else if prefix = 61 then parse_verbatim_string L buffer offset
      else if prefix = 124 then parse_attribute L item buffer offset
      else Inl (UnsupportedPrefix prefix))"
  by pat_completeness auto
termination
  by (relation "measure (\<lambda>(L, buffer, offset, depth). RESP_MAX_NESTING_DEPTH + 1 - depth)") auto

declare parse_frame_at_depth.simps [simp del]

definition parse_frame :: "libs \<Rightarrow> bytes \<Rightarrow> nat \<Rightarrow> frame decoded" where
  "parse_frame L buffer offset = parse_frame_at_depth L buffer offset 0"

definition decode :: "libs \<Rightarrow> bytes \<Rightarrow> frame decoded" where
  "decode L buffer = (if buffer = [] then Inr None else parse_frame L buffer 0)"

text \<open>\<^verbatim>\<open>RespCodec::as_command\<close> and its loop over the parts.\<close>

fun command_parts :: "frame list \<Rightarrow> resp_error + bytes list" where
  "command_parts [] = Inr []"
| "command_parts (part # rest) =
     (case part of
        BlobString bs \<Rightarrow> map_sum id (\<lambda>output. bs # output) (command_parts rest)
      | SimpleString text \<Rightarrow> map_sum id (\<lambda>output. text # output) (command_parts rest)
      | Integer value \<Rightarrow> map_sum id (\<lambda>output. i64_to_string value # output) (command_parts rest)
      | other \<Rightarrow> Inl (BadCommandPart other))"

fun as_command :: "frame \<Rightarrow> resp_error + command_frame" where
  "as_command (Array ps) = map_sum id (\<lambda>output. \<lparr>parts = output\<rparr>) (command_parts ps)"
| "as_command (Attribute attrs data) = as_command data"
| "as_command other = Inl (NotACommand other)"

end
