(* ===== verification/RespStream.thy ===== *)
theory RespStream
  imports Resp
begin

text \<open>
  How the decoders of \<^verbatim>\<open>protocol/resp.rs\<close> behave on a buffer that grows: what they decide, a frame
  or an error, is kept when bytes are appended, and a frame never reaches past the buffer. The
  interface between a container and its items is the locale \<open>item_parser\<close>, interpreted on
  \<open>parse_frame_at_depth\<close> and on the two parsers of a command part.
\<close>

section \<open>Combinators\<close>

named_theorems settled_intros

lemma let_some_simps [simp]:
  "let_some (Inl e) f = Inl e" "let_some (Inr None) f = Inr None" "let_some (Inr (Some x)) f = f x"
  by (simp_all add: let_some_def)

lemma let_some_Some: "let_some m f = Inr (Some y) \<longleftrightarrow> (\<exists>x. m = Inr (Some x) \<and> f x = Inr (Some y))"
  by (auto simp: let_some_def split: sum.splits option.splits)

definition settled :: "'e + 'a option \<Rightarrow> 'e + 'a option \<Rightarrow> bool" where
  "settled r r' \<longleftrightarrow> (r \<noteq> Inr None \<longrightarrow> r' = r)"

lemma settled_refl [simp, settled_intros]: "settled r r"
  by (simp add: settled_def)

lemma settled_None [simp, settled_intros]: "settled (Inr None) r"
  by (simp add: settled_def)

lemma settled_let_some [settled_intros]:
  assumes "settled m m'" "\<And>x. m = Inr (Some x) \<Longrightarrow> settled (f x) (f' x)"
  shows "settled (let_some m f) (let_some m' f')"
  using assms by (auto simp: settled_def let_some_def split: sum.splits option.splits)

lemma settled_if [settled_intros]:
  "(c \<Longrightarrow> settled x x') \<Longrightarrow> (\<not> c \<Longrightarrow> settled y y') \<Longrightarrow> settled (if c then x else y) (if c then x' else y')"
  by simp

lemma slice_append [simp]: "e \<le> length b \<Longrightarrow> slice a e (b @ c) = slice a e b"
  by (cases "a \<le> e") (auto simp: slice_def)

section \<open>The library parameters\<close>

lemma plain_libs_ok: "libs_ok plain_libs" "reserve_ok plain_libs"
proof -
  have "case position (occurs_at hay needle) [0..<Suc (length hay)] of
        None \<Rightarrow> \<forall>i. \<not> occurs_at hay needle i
      | Some i \<Rightarrow> occurs_at hay needle i \<and> (\<forall>j<i. \<not> occurs_at hay needle j)" for hay needle
  proof (cases "position (occurs_at hay needle) [0..<Suc (length hay)]")
    case None
    then have "\<not> occurs_at hay needle i" for i
      by (cases "i \<le> length hay") (auto simp: position_None occurs_at_def simp del: upt_Suc)
    with None show ?thesis by (simp del: upt_Suc)
  next
    case (Some i)
    from position_Some [OF Some] show ?thesis by (auto simp: Some nth_append simp del: upt_Suc)
  qed
  then show "libs_ok plain_libs" by (simp add: libs_ok_def plain_libs_def del: upt_Suc)
  show "reserve_ok plain_libs" by (simp add: reserve_ok_def plain_libs_def)
qed

lemma itoa_ok: "libs_ok L \<Longrightarrow> itoa L v = i64_to_string v"
  by (simp add: libs_ok_def)

lemma length_CRLF [simp]: "length CRLF = 2"
  by (simp add: CRLF_def)

lemma find_crlf_iff:
  assumes "libs_ok L"
  shows "find_crlf L b = Some e \<longleftrightarrow> occurs_at b CRLF e \<and> (\<forall>j<e. \<not> occurs_at b CRLF j)"
proof -
  from assms have spec: "case find_crlf L b of None \<Rightarrow> \<forall>i. \<not> occurs_at b CRLF i
      | Some i \<Rightarrow> occurs_at b CRLF i \<and> (\<forall>j<i. \<not> occurs_at b CRLF j)"
    by (simp add: libs_ok_def find_crlf_def)
  show ?thesis
  proof (cases "find_crlf L b")
    case (Some i)
    with spec show ?thesis by (auto intro: linorder_cases [of i e])
  qed (use spec in auto)
qed

lemma find_crlf_bound: "libs_ok L \<Longrightarrow> find_crlf L b = Some e \<Longrightarrow> e + 2 \<le> length b"
  by (simp add: find_crlf_iff occurs_at_def)

lemma occurs_at_append: "i + length n \<le> length b \<Longrightarrow> occurs_at (b @ c) n i = occurs_at b n i"
  by (simp add: occurs_at_def)

lemma find_crlf_append: "libs_ok L \<Longrightarrow> find_crlf L b = Some e \<Longrightarrow> find_crlf L (b @ c) = Some e"
  using find_crlf_bound [of L b e] by (auto simp: find_crlf_iff occurs_at_append)

text \<open>A line without the terminator ends at the terminator that follows it.\<close>

lemma find_crlf_line:
  assumes L: "libs_ok L" and free: "\<forall>j. \<not> occurs_at s CRLF j"
  shows "find_crlf L (s @ CRLF @ rest) = Some (length s)"
proof -
  have "\<not> occurs_at (s @ CRLF @ rest) CRLF j" if j: "j < length s" for j
  proof (cases "Suc j < length s")
    case True
    with occurs_at_append [of j CRLF s "CRLF @ rest"] free show ?thesis by simp
  next
    case False
    with j have "Suc j = length s" by simp
    then have "drop j s = [s ! j]" by (simp add: Cons_nth_drop_Suc [symmetric])
    then show ?thesis using \<open>Suc j = length s\<close> by (simp add: occurs_at_def CRLF_def)
  qed
  moreover have "occurs_at (s @ CRLF @ rest) CRLF (length s)" by (simp add: occurs_at_def)
  ultimately show ?thesis by (simp add: find_crlf_iff [OF L])
qed

lemma digits_no_crlf: "list_all is_digit ds \<Longrightarrow> \<not> occurs_at ds CRLF j"
proof
  assume ds: "list_all is_digit ds" and at: "occurs_at ds CRLF j"
  then have "take 2 (drop j ds) = CRLF" by (simp add: occurs_at_def)
  then have "13 \<in> set ds" by (metis CRLF_def in_set_dropD in_set_takeD list.set_intros(1))
  with ds have "is_digit 13" by (simp add: list_all_iff)
  then show False by (simp add: is_digit_def)
qed

section \<open>Integers\<close>

lemma digit_value: "is_digit c \<Longrightarrow> uint (c - 48) = uint c - 48 \<and> 48 \<le> uint c \<and> uint c \<le> 57"
  by (auto simp: is_digit_def word_le_def uint_word_ariths)

abbreviation digits_from :: "int \<Rightarrow> bytes \<Rightarrow> int" where
  "digits_from acc ds \<equiv> foldl (\<lambda>acc c. 10 * acc + (uint c - 48)) acc ds"

lemma digits_from_mono: "list_all is_digit ds \<Longrightarrow> 0 \<le> acc \<Longrightarrow> acc \<le> digits_from acc ds"
proof (induction ds arbitrary: acc)
  case (Cons c ds)
  then have "10 * acc + (uint c - 48) \<le> digits_from (10 * acc + (uint c - 48)) ds"
    using digit_value [of c] by simp
  moreover have "acc \<le> 10 * acc + (uint c - 48)" using Cons.prems digit_value [of c] by simp
  ultimately show ?case by simp
qed simp

lemma ascii_digits_value:
  "list_all is_digit ds \<Longrightarrow> 0 \<le> acc \<Longrightarrow> acc < 2 ^ 63 \<Longrightarrow>
   ascii_digits ds acc = (if digits_from acc ds < 2 ^ 63 then Inr (digits_from acc ds) else Inl IntegerOverflow)"
proof (induction ds arbitrary: acc)
  case (Cons c ds)
  let ?v = "10 * acc + (uint c - 48)"
  from Cons.prems digit_value [of c] have c: "uint (c - 48) = uint c - 48" "0 \<le> ?v" "10 * acc \<le> ?v" by auto
  with digits_from_mono [of ds ?v] Cons.prems have "?v \<le> digits_from ?v ds" by simp
  with Cons c show ?case
    by (auto simp: checked_add_def checked_mul_def in_i64_def mult.commute)
qed simp

lemma ascii_digits_valid:
  "ascii_digits ds acc = Inr v \<Longrightarrow> 0 \<le> acc \<Longrightarrow> list_all is_digit ds \<and> 0 \<le> v \<and> (acc < 2 ^ 63 \<longrightarrow> v < 2 ^ 63)"
  by (induction ds arbitrary: acc)
    (fastforce simp: checked_add_def checked_mul_def in_i64_def split: if_splits option.splits bind_splits)+

text \<open>The path without a search accepts one to four digits and their terminator, and reads their value.\<close>

lemma short_line:
  assumes "try_parse_short_uint_line b = Some (v, n)"
  shows "\<exists>ds rest. b = ds @ CRLF @ rest \<and> list_all is_digit ds \<and> ds \<noteq> [] \<and> length ds \<le> 4 \<and>
    int v = digits_from 0 ds \<and> n = length ds + 2"
proof -
  note u = try_parse_short_uint_line_def Let_def CRLF_def digit_value [THEN conjunct1]
  obtain b0 b1 b2 r where b: "b = b0 # b1 # b2 # r"
    using assms by (cases b; cases "tl b"; cases "tl (tl b)") (auto simp: try_parse_short_uint_line_def)
  consider "b1 = 13 \<and> b2 = 10" | b3 r1 where "\<not> (b1 = 13 \<and> b2 = 10)" "r = b3 # r1"
    using assms b by (cases r) (auto simp: try_parse_short_uint_line_def Let_def split: if_splits)
  then show ?thesis
  proof cases
    case 1
    with assms b show ?thesis
      by - (rule exI [of _ "[b0]"], rule exI [of _ r], auto simp: u split: if_splits)
  next
    case 2
    consider "b2 = 13 \<and> b3 = 10" | b4 r2 where "\<not> (b2 = 13 \<and> b3 = 10)" "r1 = b4 # r2"
      using assms b 2 by (cases r1) (auto simp: try_parse_short_uint_line_def Let_def split: if_splits)
    then show ?thesis
    proof cases
      case 1
      with assms b 2 show ?thesis
        by - (rule exI [of _ "[b0,b1]"], rule exI [of _ r1], auto simp: u split: if_splits)
    next
      case 3: 2
      consider "b3 = 13 \<and> b4 = 10" | b5 r3 where "\<not> (b3 = 13 \<and> b4 = 10)" "r2 = b5 # r3"
        using assms b 2 3 by (cases r2) (auto simp: try_parse_short_uint_line_def Let_def split: if_splits)
      then show ?thesis
      proof cases
        case 1
        with assms b 2 3 show ?thesis
          by - (rule exI [of _ "[b0,b1,b2]"], rule exI [of _ r2], auto simp: u split: if_splits)
      next
        case 4: 2
        with assms b 2 3 show ?thesis
          by - (rule exI [of _ "[b0,b1,b2,b3]"], rule exI [of _ r3], auto simp: u split: if_splits)
      qed
    qed
  qed
qed

lemma parse_isize_line_general:
  assumes L: "libs_ok L"
  shows "parse_isize_line L b =
    (case find_crlf L b of
       None \<Rightarrow> Inr None
     | Some e \<Rightarrow> (case parse_ascii_isize (take e b) of Inl x \<Rightarrow> Inl x | Inr v \<Rightarrow> Inr (Some (v, e + 2))))"
proof (cases "try_parse_short_uint_line b")
  case None
  then show ?thesis by (simp add: parse_isize_line_def)
next
  case (Some vn)
  obtain v n where vn: "vn = (v, n)" by (cases vn)
  with Some short_line obtain ds rest where ds: "b = ds @ CRLF @ rest" "list_all is_digit ds" "ds \<noteq> []"
    "int v = digits_from 0 ds" "n = length ds + 2" "length ds \<le> 4" by blast
  have v: "int v \<le> 9999"
    using Some vn by (auto simp: try_parse_short_uint_line_def Let_def is_digit_def word_le_nat_alt unat_sub split: if_splits)
  have "split_sign ds = (False, ds)"
    using ds(2,3) by (cases ds) (auto simp: split_sign_def is_digit_def)
  moreover have "ascii_digits ds 0 = Inr (int v)"
    using ascii_digits_value [OF ds(2), of 0] ds(4) v by simp
  ultimately have "parse_ascii_isize ds = Inr (int v)" using ds(3) by (simp add: parse_ascii_isize_def)
  with find_crlf_line [OF L, of ds rest] digits_no_crlf [OF ds(2)] ds(1,5) Some vn show ?thesis
    by (simp add: parse_isize_line_def)
qed

section \<open>Headers and payloads\<close>

lemma line_settled [settled_intros]:
  assumes L: "libs_ok L" and "off < length b"
  shows "settled (parse_line L (drop (off + 1) b)) (parse_line L (drop (off + 1) (b @ c)))"
    and "settled (parse_i64_line L (drop (off + 1) b)) (parse_i64_line L (drop (off + 1) (b @ c)))"
    and "settled (parse_isize_line L (drop (off + 1) b)) (parse_isize_line L (drop (off + 1) (b @ c)))"
  using assms find_crlf_append [OF L, of "drop (off + 1) b" _ c] find_crlf_bound [OF L, of "drop (off + 1) b"]
  by (auto simp: parse_line_def parse_i64_line_def parse_isize_line_general settled_def split: option.splits)

lemma line_bound:
  assumes L: "libs_ok L"
  shows "parse_line L b = Inr (Some (s, n)) \<Longrightarrow> 2 \<le> n \<and> n \<le> length b"
    and "parse_i64_line L b = Inr (Some (v, n)) \<Longrightarrow> 2 \<le> n \<and> n \<le> length b"
    and "parse_isize_line L b = Inr (Some (v, n)) \<Longrightarrow> 2 \<le> n \<and> n \<le> length b"
  using find_crlf_bound [OF L]
  by (fastforce simp: parse_line_def parse_i64_line_def parse_isize_line_general [OF L]
      split: option.splits sum.splits if_splits)+

lemma payload_Some:
  "payload b off h len label what = Inr (Some (start, e, frame_end)) \<Longrightarrow>
    start = off + 1 + h \<and> e = start + nat len \<and> frame_end = e + 2 \<and> frame_end \<le> length b"
  by (auto simp: payload_def let_some_Some payload_bounds_def usize_checked_def bind_eq_Some_conv
      split: if_splits option.splits)

lemma payload_bounds_settled: "settled (payload_bounds b off h len label) (payload_bounds (b @ c) off h len label)"
  by (auto simp: settled_def payload_bounds_def usize_checked_def split: option.splits bind_splits)

lemma payload_settled [settled_intros]: "settled (payload b off h len label what) (payload (b @ c) off h len label what)"
  unfolding payload_def
proof (rule settled_let_some [OF payload_bounds_settled])
  fix x assume "payload_bounds b off h len label = Inr (Some x)"
  then have "fst (snd x) + 2 \<le> length b"
    by (auto simp: payload_bounds_def usize_checked_def split: option.splits bind_splits if_splits)
  then show "settled (case x of (start, e, frame_end) \<Rightarrow>
      if slice e (e + 2) b \<noteq> CRLF then Inl (MissingTerminator what) else Inr (Some (start, e, frame_end)))
    (case x of (start, e, frame_end) \<Rightarrow>
      if slice e (e + 2) (b @ c) \<noteq> CRLF then Inl (MissingTerminator what) else Inr (Some (start, e, frame_end)))"
    by (auto split: prod.split)
qed

lemma validate_settled [settled_intros]:
  "settled (validate_container_count b cur cnt k label) (validate_container_count (b @ c) cur cnt k label)"
  by (auto simp: settled_def validate_container_count_def Let_def split: option.splits)

lemma counted_settled [settled_intros]:
  "(\<And>n. settled (loop n cur) (loop' n cur)) \<Longrightarrow>
   settled (counted L b cur cnt k label room loop) (counted L (b @ c) cur cnt k label room loop')"
  unfolding counted_def by (intro settled_intros) auto

lemma counted_Some:
  "counted L b cur cnt k label room loop = Inr (Some x) \<Longrightarrow> \<exists>n. loop n cur = Inr (Some x)"
  by (auto simp: counted_def let_some_Some split: if_splits)

section \<open>The interface of an item parser\<close>

locale item_parser =
  fixes item :: "libs \<Rightarrow> bytes \<Rightarrow> nat \<Rightarrow> 'a decoded"
  assumes item_bound: "libs_ok L \<Longrightarrow> item L b off = Inr (Some (x, n)) \<Longrightarrow> 0 < n \<and> off + n \<le> length b"
    and item_settled: "libs_ok L \<Longrightarrow> settled (item L b off) (item L (b @ c) off)"
begin

lemma items_bound:
  "libs_ok L \<Longrightarrow> parse_items (item L b) k cur = Inr (Some (xs, cur')) \<Longrightarrow> cur \<le> length b \<Longrightarrow>
    length xs = k \<and> cur \<le> cur' \<and> cur' \<le> length b"
proof (induction k arbitrary: cur xs)
  case (Suc k)
  from Suc.prems obtain x n ys where it: "item L b cur = Inr (Some (x, n))"
    "parse_items (item L b) k (cur + n) = Inr (Some (ys, cur'))" "xs = x # ys"
    by (auto simp: let_some_Some)
  with Suc.IH [OF Suc.prems(1) it(2)] item_bound [OF Suc.prems(1) it(1)] show ?case by simp
qed simp

lemma pairs_bound:
  "libs_ok L \<Longrightarrow> parse_pairs (item L b) k cur = Inr (Some (xs, cur')) \<Longrightarrow> cur \<le> length b \<Longrightarrow>
    length xs = k \<and> cur \<le> cur' \<and> cur' \<le> length b"
proof (induction k arbitrary: cur xs)
  case (Suc k)
  from Suc.prems obtain x n y m ys where it: "item L b cur = Inr (Some (x, n))"
    "item L b (cur + n) = Inr (Some (y, m))"
    "parse_pairs (item L b) k (cur + n + m) = Inr (Some (ys, cur'))" "xs = (x, y) # ys"
    by (auto simp: let_some_Some)
  with Suc.IH [OF Suc.prems(1) it(3)] item_bound [OF Suc.prems(1) it(1)] item_bound [OF Suc.prems(1) it(2)]
  show ?case by simp
qed simp

lemma items_settled:
  "libs_ok L \<Longrightarrow> settled (parse_items (item L b) k cur) (parse_items (item L (b @ c)) k cur)"
  by (induction k arbitrary: cur) (auto intro!: settled_let_some item_settled)

lemma pairs_settled:
  "libs_ok L \<Longrightarrow> settled (parse_pairs (item L b) k cur) (parse_pairs (item L (b @ c)) k cur)"
  by (induction k arbitrary: cur) (auto intro!: settled_let_some item_settled)

end

section \<open>Command parts\<close>

lemma part_bound:
  assumes "libs_ok L" "parse_command_part L b off = Inr (Some (x, n))"
  shows "0 < n \<and> off + n \<le> length b"
  using assms find_crlf_bound [OF assms(1), of "drop (off + 1) b"]
  by (auto simp: parse_command_part_def parse_command_blob_string_def parse_command_simple_string_def
      parse_command_integer_def let_some_Some Let_def dest!: payload_Some split: if_splits option.splits)

lemma part_settled:
  assumes L: "libs_ok L"
  shows "settled (parse_command_part L b off) (parse_command_part L (b @ c) off)"
proof (cases "off < length b")
  case True
  have line: "settled (case find_crlf L (drop (off + 1) b) of None \<Rightarrow> Inr None | Some e \<Rightarrow> f e)
    (case find_crlf L (drop (off + 1) (b @ c)) of None \<Rightarrow> Inr None | Some e \<Rightarrow> f' e)"
    if "\<And>e. off + 1 + e \<le> length b \<Longrightarrow> f' e = f e" for f f' :: "nat \<Rightarrow> bytes decoded"
    using that find_crlf_append [OF L, of "drop (off + 1) b" _ c] find_crlf_bound [OF L, of "drop (off + 1) b"] True
    by (auto simp: settled_def split: option.splits)
  have blob: "settled (parse_command_blob_string L b off) (parse_command_blob_string L (b @ c) off)"
    unfolding parse_command_blob_string_def
    by (intro settled_intros L True) (auto dest!: payload_Some intro!: settled_intros)
  from True line blob show ?thesis
    by (auto simp: parse_command_part_def parse_command_simple_string_def parse_command_integer_def nth_append Let_def)
qed (simp add: parse_command_part_def)

lemma span_settled:
  assumes L: "libs_ok L"
  shows "settled (parse_command_part_span L b off) (parse_command_part_span L (b @ c) off)"
proof (cases "off < length b")
  case True
  have line: "settled (parse_command_line_span L b off) (parse_command_line_span L (b @ c) off)"
    using find_crlf_append [OF L, of "drop (off + 1) b" _ c] True
    by (auto simp: settled_def parse_command_line_span_def split: option.splits)
  have blob: "settled (parse_command_blob_string_span L b off) (parse_command_blob_string_span L (b @ c) off)"
    unfolding parse_command_blob_string_span_def
    by (intro settled_intros L True) (auto intro!: settled_intros)
  from True line blob show ?thesis by (auto simp: parse_command_part_span_def nth_append)
qed (simp add: parse_command_part_span_def)

text \<open>A span is where the borrowed part lies.\<close>

definition map_decoded :: "('a \<Rightarrow> 'b) \<Rightarrow> 'a decoded \<Rightarrow> 'b decoded" where
  "map_decoded f r = map_sum id (map_option (map_prod f id)) r"

lemma map_decoded_simps [simp]:
  "map_decoded f (Inl e) = Inl e" "map_decoded f (Inr None) = Inr None"
  "map_decoded f (Inr (Some (x, n))) = Inr (Some (f x, n))"
  by (simp_all add: map_decoded_def)

lemma map_decoded_Some: "map_decoded f r = Inr (Some (y, n)) \<longleftrightarrow> (\<exists>x. r = Inr (Some (x, n)) \<and> y = f x)"
  by (cases r) (auto simp: map_decoded_def)

lemma blob_of_span:
  "parse_command_blob_string L b off =
    map_decoded (\<lambda>(start, e). slice start e b) (parse_command_blob_string_span L b off)"
  by (simp add: parse_command_blob_string_def parse_command_blob_string_span_def let_some_def
      split: sum.split option.split prod.split)

lemma part_of_span:
  "parse_command_part L b off = map_decoded (\<lambda>(start, e). slice start e b) (parse_command_part_span L b off)"
  by (simp add: parse_command_part_def parse_command_part_span_def parse_command_simple_string_def
      parse_command_integer_def parse_command_line_span_def blob_of_span Let_def split: option.split)

lemma span_bound:
  assumes "libs_ok L" "parse_command_part_span L b off = Inr (Some (x, n))"
  shows "0 < n \<and> off + n \<le> length b"
  by (rule part_bound [OF assms(1), of b off "slice (fst x) (snd x) b"])
    (simp add: part_of_span assms(2) case_prod_unfold)

interpretation command_part: item_parser parse_command_part
  by unfold_locales (rule part_bound, assumption+, rule part_settled)

interpretation command_span: item_parser parse_command_part_span
  by unfold_locales (rule span_bound, assumption+, rule span_settled)

section \<open>Frames\<close>

context item_parser
begin

lemma container_settled [settled_intros]:
  "libs_ok L \<Longrightarrow> settled (counted L b cur cnt k label room (parse_items (item L b)))
     (counted L (b @ c) cur cnt k label room (parse_items (item L (b @ c))))"
  "libs_ok L \<Longrightarrow> settled (counted L b cur cnt k label room (parse_pairs (item L b)))
     (counted L (b @ c) cur cnt k label room (parse_pairs (item L (b @ c))))"
  by (auto intro!: counted_settled items_settled pairs_settled)

lemma container_bound:
  assumes L: "libs_ok L" and off: "off < length b" and h: "parse_isize_line L (drop (Suc off) b) = Inr (Some (cnt, h))"
  shows "counted L b (Suc (off + h)) cnt k label room (parse_items (item L b)) = Inr (Some (xs, cur)) \<Longrightarrow>
      off + 3 \<le> cur \<and> cur \<le> length b"
    and "counted L b (Suc (off + h)) cnt k label room (parse_pairs (item L b)) = Inr (Some (ys, cur)) \<Longrightarrow>
      off + 3 \<le> cur \<and> cur \<le> length b"
  using line_bound(3) [OF L h] off items_bound [OF L] pairs_bound [OF L]
  by (fastforce dest!: counted_Some)+

end

lemma leaf_bound:
  assumes L: "libs_ok L" and off: "off < length b"
  shows "parse_simple_string L b off = Inr (Some (f, n)) \<Longrightarrow> 0 < n \<and> off + n \<le> length b"
    and "parse_error L b off = Inr (Some (f, n)) \<Longrightarrow> 0 < n \<and> off + n \<le> length b"
    and "parse_blob_error L b off = Inr (Some (f, n)) \<Longrightarrow> 0 < n \<and> off + n \<le> length b"
    and "parse_integer L b off = Inr (Some (f, n)) \<Longrightarrow> 0 < n \<and> off + n \<le> length b"
    and "parse_blob_string L b off = Inr (Some (f, n)) \<Longrightarrow> 0 < n \<and> off + n \<le> length b"
    and "parse_null b off = Inr (Some (f, n)) \<Longrightarrow> 0 < n \<and> off + n \<le> length b"
    and "parse_boolean b off = Inr (Some (f, n)) \<Longrightarrow> 0 < n \<and> off + n \<le> length b"
    and "parse_double L b off = Inr (Some (f, n)) \<Longrightarrow> 0 < n \<and> off + n \<le> length b"
    and "parse_big_number L b off = Inr (Some (f, n)) \<Longrightarrow> 0 < n \<and> off + n \<le> length b"
    and "parse_verbatim_string L b off = Inr (Some (f, n)) \<Longrightarrow> 0 < n \<and> off + n \<le> length b"
  using off
  by (auto simp: parse_simple_string_def parse_error_def parse_integer_def parse_double_def parse_big_number_def
      parse_blob_error_def parse_blob_string_def parse_verbatim_string_def parse_null_def parse_boolean_def
      let_some_Some Let_def dest!: payload_Some line_bound [OF L] split: if_splits option.splits)

lemma line_frames_settled:
  assumes L: "libs_ok L" and off: "off < length b"
  shows "settled (parse_simple_string L b off) (parse_simple_string L (b @ c) off)"
    and "settled (parse_error L b off) (parse_error L (b @ c) off)"
    and "settled (parse_integer L b off) (parse_integer L (b @ c) off)"
    and "settled (parse_double L b off) (parse_double L (b @ c) off)"
    and "settled (parse_big_number L b off) (parse_big_number L (b @ c) off)"
  unfolding parse_simple_string_def parse_error_def parse_integer_def parse_double_def parse_big_number_def
  by (intro settled_let_some line_settled L off; auto)+

lemma blob_frames_settled:
  assumes L: "libs_ok L" and off: "off < length b"
  shows "settled (parse_blob_error L b off) (parse_blob_error L (b @ c) off)"
    and "settled (parse_blob_string L b off) (parse_blob_string L (b @ c) off)"
    and "settled (parse_verbatim_string L b off) (parse_verbatim_string L (b @ c) off)"
  unfolding parse_blob_error_def parse_blob_string_def parse_verbatim_string_def
  by (intro settled_let_some line_settled L off; auto intro!: settled_let_some payload_settled dest!: payload_Some)+

lemma fixed_frames_settled:
  assumes "off < length b"
  shows "settled (parse_null b off) (parse_null (b @ c) off)"
    and "settled (parse_boolean b off) (parse_boolean (b @ c) off)"
  using assms by (auto simp: settled_def parse_null_def parse_boolean_def Let_def nth_append)

definition within :: "bytes \<Rightarrow> nat \<Rightarrow> 'a decoded \<Rightarrow> bool" where
  "within b off r \<longleftrightarrow> (\<forall>x n. r = Inr (Some (x, n)) \<longrightarrow> 0 < n \<and> off + n \<le> length b)"

lemma within_fail [simp]: "within b off (Inl e)" "within b off (Inr None)"
  by (simp_all add: within_def)

lemma leaf_within:
  assumes "libs_ok L" "off < length b"
  shows "within b off (parse_simple_string L b off)" "within b off (parse_error L b off)"
    "within b off (parse_blob_error L b off)" "within b off (parse_integer L b off)"
    "within b off (parse_blob_string L b off)" "within b off (parse_null b off)"
    "within b off (parse_boolean b off)" "within b off (parse_double L b off)"
    "within b off (parse_big_number L b off)" "within b off (parse_verbatim_string L b off)"
  unfolding within_def using leaf_bound [OF assms] by blast+

locale frame_parser = item_parser item for item :: "libs \<Rightarrow> bytes \<Rightarrow> nat \<Rightarrow> frame decoded"
begin

lemma aggregate_bound:
  assumes L: "libs_ok L" and off: "off < length b"
  shows "parse_array L (item L b) b off = Inr (Some (f, n)) \<Longrightarrow> 0 < n \<and> off + n \<le> length b"
    and "parse_map L (item L b) b off = Inr (Some (f, n)) \<Longrightarrow> 0 < n \<and> off + n \<le> length b"
    and "parse_set L (item L b) b off = Inr (Some (f, n)) \<Longrightarrow> 0 < n \<and> off + n \<le> length b"
    and "parse_push L (item L b) b off = Inr (Some (f, n)) \<Longrightarrow> 0 < n \<and> off + n \<le> length b"
    and "parse_map_with_prefix L (item L b) b off = Inr (Some (f, n)) \<Longrightarrow> 0 < n \<and> off + n \<le> length b"
  using off
  by (auto simp: parse_array_def parse_map_def parse_set_def parse_push_def parse_map_with_prefix_def let_some_Some
      dest: line_bound(3) [OF L] container_bound [OF L off]
      split: if_splits)

lemma attribute_bound:
  assumes "libs_ok L" "off < length b" "parse_attribute L (item L b) b off = Inr (Some (f, n))"
  shows "0 < n \<and> off + n \<le> length b"
proof -
  from assms(3) obtain g k where g: "parse_map_with_prefix L (item L b) b off = Inr (Some (g, k))"
    "(case g of Map attrs \<Rightarrow> let_some (item L b (off + k)) (\<lambda>(data, m). Inr (Some (Attribute attrs data, k + m)))
      | _ \<Rightarrow> Inr None) = Inr (Some (f, n))"
    by (auto simp: parse_attribute_def let_some_Some)
  then obtain data m where "item L b (off + k) = Inr (Some (data, m))" "n = k + m"
    by (cases g) (auto simp: let_some_Some)
  with g(1) aggregate_bound(5) [OF assms(1,2)] item_bound [OF assms(1)] show ?thesis by fastforce
qed

lemma aggregate_settled:
  assumes L: "libs_ok L" and off: "off < length b"
  shows "settled (parse_array L (item L b) b off) (parse_array L (item L (b @ c)) (b @ c) off)"
    and "settled (parse_map L (item L b) b off) (parse_map L (item L (b @ c)) (b @ c) off)"
    and "settled (parse_set L (item L b) b off) (parse_set L (item L (b @ c)) (b @ c) off)"
    and "settled (parse_push L (item L b) b off) (parse_push L (item L (b @ c)) (b @ c) off)"
    and "settled (parse_map_with_prefix L (item L b) b off) (parse_map_with_prefix L (item L (b @ c)) (b @ c) off)"
  unfolding parse_array_def parse_map_def parse_set_def parse_push_def parse_map_with_prefix_def
  by (intro settled_intros L off; auto intro!: settled_intros container_settled L)+

lemma attribute_settled:
  assumes L: "libs_ok L" and off: "off < length b"
  shows "settled (parse_attribute L (item L b) b off) (parse_attribute L (item L (b @ c)) (b @ c) off)"
  unfolding parse_attribute_def
  by (intro settled_let_some aggregate_settled L off)
    (auto intro!: settled_let_some item_settled L split: frame.splits)

lemma aggregate_within:
  assumes "libs_ok L" "off < length b"
  shows "within b off (parse_array L (item L b) b off)" "within b off (parse_map L (item L b) b off)"
    "within b off (parse_set L (item L b) b off)" "within b off (parse_push L (item L b) b off)"
    "within b off (parse_attribute L (item L b) b off)"
  unfolding within_def using aggregate_bound [OF assms] attribute_bound [OF assms] by blast+

end

lemmas frame_cases = parse_frame_at_depth.simps

lemma frame_at_depth_step:
  assumes deeper: "depth \<le> RESP_MAX_NESTING_DEPTH \<Longrightarrow>
    frame_parser (\<lambda>L b off. parse_frame_at_depth L b off (depth + 1))"
  shows "frame_parser (\<lambda>L b off. parse_frame_at_depth L b off depth)"
proof (unfold_locales, goal_cases)
  case (1 L b off x n)
  have "within b off (parse_frame_at_depth L b off depth)"
  proof (cases "off < length b \<and> depth \<le> RESP_MAX_NESTING_DEPTH")
    case True
    note inner = frame_parser.aggregate_within [OF deeper, of L off b, simplified]
    from True 1(1) show ?thesis by (simp add: frame_cases [of L b off depth] Let_def leaf_within inner)
  next
    case False
    then show ?thesis by (auto simp: frame_cases [of L b off depth])
  qed
  with 1 show ?case by (simp add: within_def)
next
  case (2 L b off c)
  show ?case
  proof (cases "off < length b \<and> depth \<le> RESP_MAX_NESTING_DEPTH")
    case True
    note inner = frame_parser.aggregate_settled [OF deeper, of L off b c, simplified]
      frame_parser.attribute_settled [OF deeper, of L off b c, simplified]
    from True 2 show ?thesis
      by (simp add: frame_cases [of L b off depth] frame_cases [of L "b @ c" off depth] Let_def nth_append
          line_frames_settled blob_frames_settled fixed_frames_settled inner)
  next
    case False
    then show ?thesis by (auto simp: frame_cases [of L b off depth] frame_cases [of L "b @ c" off depth])
  qed
qed

lemma frame_at_depth: "frame_parser (\<lambda>L b off. parse_frame_at_depth L b off depth)"
proof (induction "RESP_MAX_NESTING_DEPTH + 1 - depth" arbitrary: depth rule: less_induct)
  case less
  show ?case by (rule frame_at_depth_step, rule less) simp
qed

interpretation frames: frame_parser "\<lambda>L b off. parse_frame_at_depth L b off depth" for depth
  by (rule frame_at_depth)

section \<open>The decoders on a growing buffer\<close>

lemma decode_settled: "libs_ok L \<Longrightarrow> settled (decode L b) (decode L (b @ c))"
  using frames.item_settled [of L b 0 0 c] by (simp add: decode_def parse_frame_def)

lemma decode_bound: "libs_ok L \<Longrightarrow> decode L b = Inr (Some (f, n)) \<Longrightarrow> 0 < n \<and> n \<le> length b"
  using frames.item_bound [of L b 0 0 f n] by (auto simp: decode_def parse_frame_def split: if_splits)

lemma decode_command_settled:
  assumes L: "libs_ok L"
  shows "settled (decode_command L b) (decode_command L (b @ c))"
proof (cases "b = []")
  case False
  then have "0 < length b" by simp
  then have "settled (parse_command_frame L b 0) (parse_command_frame L (b @ c) 0)"
    unfolding parse_command_frame_def
    by (auto simp: nth_append intro!: settled_let_some line_settled(3) [OF L, simplified] command_part.container_settled L)
  with False show ?thesis by (simp add: decode_command_def)
qed (simp add: decode_command_def)

lemma decode_command_bound:
  assumes "libs_ok L" "decode_command L b = Inr (Some (cf, n))"
  shows "0 < n \<and> n \<le> length b"
  using assms(2) command_part.container_bound(1) [OF assms(1), of 0 b]
  by (fastforce simp: decode_command_def parse_command_frame_def let_some_Some split: if_splits)

lemma decode_command_spans_settled:
  assumes L: "libs_ok L"
  shows "settled (decode_command_spans L b) (decode_command_spans L (b @ c))"
proof (cases "b = []")
  case False
  then have "0 < length b" by simp
  then have "settled (parse_command_span_frame L b 0) (parse_command_span_frame L (b @ c) 0)"
    unfolding parse_command_span_frame_def
    by (auto simp: nth_append intro!: settled_let_some line_settled(3) [OF L, simplified] command_span.container_settled L)
  with False show ?thesis by (simp add: decode_command_spans_def)
qed (simp add: decode_command_spans_def)

section \<open>Three ways to decode a command\<close>

lemma parse_items_map:
  "(\<And>off. item' off = map_decoded f (item off)) \<Longrightarrow>
   parse_items item' k cur = map_decoded (map f) (parse_items item k cur)"
proof (induction k arbitrary: cur)
  case (Suc k)
  then show ?case
    by (simp add: let_some_def map_decoded_def split: sum.split option.split prod.split)
qed simp

lemma counted_map:
  assumes "reserve_ok L" "\<And>k. loop' k cur = map_decoded f (loop k cur)"
  shows "counted L b cur cnt m label room' loop' = map_decoded f (counted L b cur cnt m label room loop)"
proof -
  have "n \<le> RESP_MAX_CONTAINER_ITEMS" if "validate_container_count b cur cnt m label = Inr (Some n)" for n
    using that by (auto simp: validate_container_count_def Let_def split: if_splits option.splits)
  with assms show ?thesis
    by (auto simp: counted_def let_some_def reserve_ok_def split: sum.split option.split)
qed

definition read_spans :: "bytes \<Rightarrow> command_span_frame \<Rightarrow> command_frame" where
  "read_spans b sf = \<lparr>parts = map (\<lambda>(start, e). slice start e b) (part_spans sf)\<rparr>"

lemma command_of_spans:
  assumes "reserve_ok L"
  shows "decode_command L b = map_decoded (read_spans b) (decode_command_spans L b)"
proof -
  let ?f = "map_decoded (map (\<lambda>(start, e). slice start e b))"
  have items: "counted L b cur cnt (Suc 0) ''command array'' ''command part'' (parse_items (parse_command_part L b)) =
      ?f (counted L b cur cnt (Suc 0) ''command array'' ''command span'' (parse_items (parse_command_part_span L b)))"
    for cur cnt
    by (rule counted_map [OF assms parse_items_map [OF part_of_span]])
  have wrap: "let_some (?f r) (\<lambda>(ps, cur). Inr (Some (\<lparr>parts = ps\<rparr>, cur))) =
      map_decoded (read_spans b) (let_some r (\<lambda>(ps, cur). Inr (Some (\<lparr>part_spans = ps\<rparr>, cur))))" for r
    by (cases r) (auto simp: let_some_def read_spans_def split: option.split)
  show ?thesis
    unfolding decode_command_def decode_command_spans_def parse_command_frame_def parse_command_span_frame_def
    by (cases "parse_isize_line L (drop (Suc 0) b)"; cases "projr (parse_isize_line L (drop (Suc 0) b))")
      (auto simp: items wrap)
qed

lemma payload_label:
  "payload b off h len label what = Inr (Some r) \<Longrightarrow> payload b off h len label' what' = Inr (Some r)"
  by (auto simp: payload_def payload_bounds_def let_some_def split: if_splits option.splits)

lemma blob_part:
  assumes "parse_blob_string L b off = Inr (Some (BlobString s, n))"
  shows "parse_command_blob_string L b off = Inr (Some (s, n))"
  using assms payload_label [of b off _ _ "''blob string''" "''blob string''" _ "''command blob string''" "''blob string''"]
  by (fastforce simp: parse_blob_string_def parse_command_blob_string_def let_some_Some split: if_splits)

lemma line_part:
  assumes "parse_simple_string L b off = Inr (Some (SimpleString s, n))"
  shows "parse_command_simple_string L b off = Inr (Some (s, n))"
  using assms
  by (auto simp: parse_simple_string_def parse_line_def parse_command_simple_string_def slice_def let_some_Some
      split: if_splits option.splits)

definition yields :: "('a \<Rightarrow> bool) \<Rightarrow> 'e + ('a \<times> nat) option \<Rightarrow> bool" where
  "yields P r \<longleftrightarrow> (\<forall>x n. r = Inr (Some (x, n)) \<longrightarrow> P x)"

lemma yields_simps [simp]:
  "yields P (Inl e)" "yields P (Inr None)" "yields P (Inr (Some (x, n))) \<longleftrightarrow> P x"
  by (simp_all add: yields_def)

lemma yieldsD: "yields P r \<Longrightarrow> r = Inr (Some (x, n)) \<Longrightarrow> P x"
  by (simp add: yields_def)

lemma yields_let_some: "(\<And>x n. m = Inr (Some (x, n)) \<Longrightarrow> yields P (f (x, n))) \<Longrightarrow> yields P (let_some m f)"
  by (auto simp: yields_def let_some_Some)

lemma not_array:
  "yields (\<lambda>f. \<not> is_Array f) (parse_error L b off)" "yields (\<lambda>f. \<not> is_Array f) (parse_blob_error L b off)"
  "yields (\<lambda>f. \<not> is_Array f) (parse_integer L b off)" "yields (\<lambda>f. \<not> is_Array f) (parse_null b off)"
  "yields (\<lambda>f. \<not> is_Array f) (parse_boolean b off)" "yields (\<lambda>f. \<not> is_Array f) (parse_double L b off)"
  "yields (\<lambda>f. \<not> is_Array f) (parse_big_number L b off)" "yields (\<lambda>f. \<not> is_Array f) (parse_verbatim_string L b off)"
  "yields (\<lambda>f. \<not> is_Array f) (parse_map L item b off)" "yields (\<lambda>f. \<not> is_Array f) (parse_set L item b off)"
  "yields (\<lambda>f. \<not> is_Array f) (parse_push L item b off)" "yields (\<lambda>f. \<not> is_Array f) (parse_attribute L item b off)"
  "yields (\<lambda>f. \<not> is_Array f) (parse_blob_string L b off)" "yields (\<lambda>f. \<not> is_Array f) (parse_simple_string L b off)"
  unfolding parse_error_def parse_blob_error_def parse_integer_def parse_null_def parse_boolean_def parse_double_def
    parse_big_number_def parse_verbatim_string_def parse_map_def parse_set_def parse_push_def
    parse_attribute_def parse_blob_string_def parse_simple_string_def
  by (auto intro!: yields_let_some simp: Let_def split: frame.split option.split)

lemma array_frame:
  assumes "parse_frame_at_depth L b off depth = Inr (Some (Array fs, n))"
  obtains "off < length b" "b ! off = 42"
    "parse_array L (\<lambda>cursor. parse_frame_at_depth L b cursor (depth + 1)) b off = Inr (Some (Array fs, n))"
proof -
  have "r \<noteq> Inr (Some (Array fs, n))" if "yields (\<lambda>f. \<not> is_Array f) r" for r :: "frame decoded"
    using that by (auto simp: yields_def)
  note other = not_array [THEN this]
  from assms that show ?thesis by (simp add: frame_cases [of L b off depth] Let_def other split: if_splits)
qed

end
