(* ===== verification/RespFrames.thy ===== *)
theory RespFrames
  imports RespStream
begin

text \<open>
  Which frames \<^verbatim>\<open>RespCodec::decode\<close> returns, \<open>frame_ok\<close>, and that it returns every one of them from
  its encoding when the error messages in it are single lines.
\<close>

section \<open>Well-formed frames\<close>

text \<open>A line holds no terminator; being a \<^verbatim>\<open>String\<close>, it is UTF-8.\<close>

definition line_ok :: "bytes \<Rightarrow> bool" where
  "line_ok s \<longleftrightarrow> valid_utf8 s \<and> list_all (\<lambda>j. \<not> occurs_at s CRLF j) [0..<length s]"

text \<open>\<open>depth\<close> is the nesting at which the frame stands.\<close>

fun frame_ok :: "nat \<Rightarrow> frame \<Rightarrow> bool" where
  "frame_ok depth (SimpleString s) \<longleftrightarrow> depth \<le> RESP_MAX_NESTING_DEPTH \<and> line_ok s"
| "frame_ok depth (BlobString s) \<longleftrightarrow> depth \<le> RESP_MAX_NESTING_DEPTH"
| "frame_ok depth (Integer v) \<longleftrightarrow> depth \<le> RESP_MAX_NESTING_DEPTH \<and> - (2 ^ 63) < v \<and> v < 2 ^ 63"
| "frame_ok depth (Array fs) \<longleftrightarrow> depth \<le> RESP_MAX_NESTING_DEPTH \<and> \<not> exceeds_maximum (length fs) \<and>
     list_all (frame_ok (depth + 1)) fs"
| "frame_ok depth (Map kvs) \<longleftrightarrow> depth \<le> RESP_MAX_NESTING_DEPTH \<and> \<not> exceeds_maximum (length kvs) \<and>
     list_all (\<lambda>(k, v). frame_ok (depth + 1) k \<and> frame_ok (depth + 1) v) kvs"
| "frame_ok depth (Set fs) \<longleftrightarrow> depth \<le> RESP_MAX_NESTING_DEPTH \<and> \<not> exceeds_maximum (length fs) \<and>
     list_all (frame_ok (depth + 1)) fs"
| "frame_ok depth (Push fs) \<longleftrightarrow> depth \<le> RESP_MAX_NESTING_DEPTH \<and> \<not> exceeds_maximum (length fs) \<and>
     list_all (frame_ok (depth + 1)) fs"
| "frame_ok depth Null \<longleftrightarrow> depth \<le> RESP_MAX_NESTING_DEPTH"
| "frame_ok depth (Boolean v) \<longleftrightarrow> depth \<le> RESP_MAX_NESTING_DEPTH"
| "frame_ok depth (Double s) \<longleftrightarrow> depth \<le> RESP_MAX_NESTING_DEPTH \<and> line_ok s \<and> double_ok s"
| "frame_ok depth (BigNumber s) \<longleftrightarrow> depth \<le> RESP_MAX_NESTING_DEPTH \<and> line_ok s \<and> big_number_ok s"
| "frame_ok depth (VerbatimString format v) \<longleftrightarrow> depth \<le> RESP_MAX_NESTING_DEPTH \<and>
     length format = 3 \<and> valid_utf8 format \<and> 58 \<notin> set format"
| "frame_ok depth (Attribute kvs data) \<longleftrightarrow> depth \<le> RESP_MAX_NESTING_DEPTH \<and>
     \<not> exceeds_maximum (length kvs) \<and>
     list_all (\<lambda>(k, v). frame_ok (depth + 1) k \<and> frame_ok (depth + 1) v) kvs \<and> frame_ok (depth + 1) data"
| "frame_ok depth (Error s) \<longleftrightarrow> depth \<le> RESP_MAX_NESTING_DEPTH \<and> valid_utf8 s"

text \<open>The encoder writes an error as a line.\<close>

fun errors_ok :: "frame \<Rightarrow> bool" where
  "errors_ok (Error s) \<longleftrightarrow> line_ok s"
| "errors_ok (Array fs) \<longleftrightarrow> list_all errors_ok fs"
| "errors_ok (Set fs) \<longleftrightarrow> list_all errors_ok fs"
| "errors_ok (Push fs) \<longleftrightarrow> list_all errors_ok fs"
| "errors_ok (Map kvs) \<longleftrightarrow> list_all (\<lambda>(k, v). errors_ok k \<and> errors_ok v) kvs"
| "errors_ok (Attribute kvs data) \<longleftrightarrow> list_all (\<lambda>(k, v). errors_ok k \<and> errors_ok v) kvs \<and> errors_ok data"
| "errors_ok f \<longleftrightarrow> True"

lemma line_ok_free: "line_ok s \<longleftrightarrow> valid_utf8 s \<and> (\<forall>j. \<not> occurs_at s CRLF j)"
  by (auto simp: line_ok_def list_all_iff occurs_at_def)

section \<open>Decoded frames are well formed\<close>

lemma found_line_free:
  assumes "libs_ok L" "find_crlf L b = Some e"
  shows "\<not> occurs_at (take e b) CRLF j"
  using assms occurs_at_append [of j CRLF "take e b" "drop e b"]
  by (auto simp: find_crlf_iff occurs_at_def)

lemma parsed_line: "libs_ok L \<Longrightarrow> parse_line L b = Inr (Some (s, n)) \<Longrightarrow> line_ok s"
  by (auto simp: parse_line_def line_ok_free found_line_free split: option.splits if_splits)

lemma parsed_utf8: "parse_line L b = Inr (Some (s, n)) \<Longrightarrow> valid_utf8 s"
  by (auto simp: parse_line_def split: option.splits if_splits)

lemma parsed_i64:
  assumes "parse_ascii_i64 s = Inr v"
  shows "- (2 ^ 63) < v \<and> v < 2 ^ 63"
proof -
  obtain w where "ascii_digits (snd (split_sign s)) 0 = Inr w" "v = w \<or> v = - w"
    using assms by (auto simp: parse_ascii_i64_def case_prod_unfold Let_def split: if_splits sum.splits)
  with ascii_digits_valid [OF this(1)] show ?thesis by auto
qed

lemma counted_count:
  "counted L b cur cnt m label room loop = Inr (Some r) \<Longrightarrow>
    \<exists>n \<le> RESP_MAX_CONTAINER_ITEMS. loop n cur = Inr (Some r)"
  by (auto intro!: exI [of _ "nat cnt"] simp: counted_def validate_container_count_def let_some_Some Let_def split: if_splits option.splits)

lemma parsed_items:
  "parse_items item k cur = Inr (Some (xs, cur')) \<Longrightarrow> (\<And>off. yields P (item off)) \<Longrightarrow> list_all P xs \<and> length xs = k"
  by (induction k arbitrary: cur xs) (fastforce simp: let_some_Some yields_def)+

lemma parsed_pairs:
  "parse_pairs item k cur = Inr (Some (xs, cur')) \<Longrightarrow> (\<And>off. yields P (item off)) \<Longrightarrow>
    list_all (\<lambda>(k, v). P k \<and> P v) xs \<and> length xs = k"
  by (induction k arbitrary: cur xs) (fastforce simp: let_some_Some yields_def)+

lemma leaf_ok:
  assumes L: "libs_ok L" and d: "depth \<le> RESP_MAX_NESTING_DEPTH"
  shows "yields (frame_ok depth) (parse_simple_string L b off)" "yields (frame_ok depth) (parse_error L b off)"
    "yields (frame_ok depth) (parse_blob_error L b off)" "yields (frame_ok depth) (parse_integer L b off)"
    "yields (frame_ok depth) (parse_blob_string L b off)" "yields (frame_ok depth) (parse_null b off)"
    "yields (frame_ok depth) (parse_boolean b off)" "yields (frame_ok depth) (parse_double L b off)"
    "yields (frame_ok depth) (parse_big_number L b off)"
  unfolding parse_simple_string_def parse_error_def parse_blob_error_def parse_integer_def parse_null_def
    parse_boolean_def parse_double_def parse_big_number_def parse_blob_string_def parse_i64_line_def
  by (auto intro!: yields_let_some simp: Let_def d dest: parsed_line [OF L] parsed_utf8 parsed_i64
      split: option.splits sum.splits if_splits)

lemma verbatim_ok:
  assumes "depth \<le> RESP_MAX_NESTING_DEPTH"
  shows "yields (frame_ok depth) (parse_verbatim_string L b off)"
proof -
  have "length (take 3 body) = 3 \<and> 58 \<notin> set (take 3 body)" if "position (\<lambda>byte. byte = 58) body = Some 3" for body :: bytes
    using position_Some [OF that] by (auto simp: in_set_conv_nth)
  with assms show ?thesis
    unfolding parse_verbatim_string_def by (auto intro!: yields_let_some simp: Let_def split: option.split)
qed

lemma aggregate_ok:
  assumes d: "depth \<le> RESP_MAX_NESTING_DEPTH" and item: "\<And>off. yields (frame_ok (depth + 1)) (item off)"
  shows "yields (frame_ok depth) (parse_array L item b off)" "yields (frame_ok depth) (parse_map L item b off)"
    "yields (frame_ok depth) (parse_set L item b off)" "yields (frame_ok depth) (parse_push L item b off)"
    "yields (frame_ok depth) (parse_map_with_prefix L item b off)"
  unfolding parse_array_def parse_map_def parse_set_def parse_push_def parse_map_with_prefix_def
  using parsed_items [OF _ item] parsed_pairs [OF _ item] d
  by (fastforce intro!: yields_let_some dest!: counted_count)+

lemma attribute_ok:
  assumes d: "depth \<le> RESP_MAX_NESTING_DEPTH" and item: "\<And>off. yields (frame_ok (depth + 1)) (item off)"
  shows "yields (frame_ok depth) (parse_attribute L item b off)"
proof -
  have "yields (frame_ok depth) (parse_map_with_prefix L item b off)" by (rule aggregate_ok(5) [OF assms])
  then show ?thesis
    unfolding parse_attribute_def
    by (auto intro!: yields_let_some dest: yieldsD dest!: yieldsD [OF item] split: frame.split)
qed

lemma frame_at_depth_ok:
  assumes L: "libs_ok L"
  shows "yields (frame_ok depth) (parse_frame_at_depth L b off depth)"
proof (induction "RESP_MAX_NESTING_DEPTH + 1 - depth" arbitrary: depth off rule: less_induct)
  case less
  show ?case
  proof (cases "depth \<le> RESP_MAX_NESTING_DEPTH")
    case True
    with less have item: "yields (frame_ok (depth + 1)) (parse_frame_at_depth L b o' (depth + 1))" for o' by simp
    note inner = aggregate_ok [OF True, of "\<lambda>o'. parse_frame_at_depth L b o' (depth + 1)", OF item, simplified]
      attribute_ok [OF True, of "\<lambda>o'. parse_frame_at_depth L b o' (depth + 1)", OF item, simplified]
    from True show ?thesis
      by (simp add: frame_cases [of L b off depth] Let_def leaf_ok [OF L True] verbatim_ok [OF True] inner)
  qed (simp add: frame_cases [of L b off depth])
qed

lemma decode_ok: "libs_ok L \<Longrightarrow> decode L b = Inr (Some (f, n)) \<Longrightarrow> frame_ok 0 f"
  using frame_at_depth_ok [of L 0 b 0] by (auto simp: decode_def parse_frame_def yields_def split: if_splits)

section \<open>Encoded frames\<close>

text \<open>The bytes a frame adds to the vector it is encoded to.\<close>

fun frame_bytes :: "libs \<Rightarrow> frame \<Rightarrow> bytes" where
  "frame_bytes L (SimpleString s) = ascii ''+'' @ s @ CRLF"
| "frame_bytes L (BlobString s) = ascii ''$'' @ itoa L (int (length s)) @ CRLF @ s @ CRLF"
| "frame_bytes L (Integer v) = ascii '':'' @ itoa L v @ CRLF"
| "frame_bytes L (Array fs) = ascii ''*'' @ itoa L (int (length fs)) @ CRLF @ concat (map (frame_bytes L) fs)"
| "frame_bytes L (Map kvs) = ascii ''%'' @ itoa L (int (length kvs)) @ CRLF @
     concat (map (\<lambda>(k, v). frame_bytes L k @ frame_bytes L v) kvs)"
| "frame_bytes L (Set fs) = ascii ''~'' @ itoa L (int (length fs)) @ CRLF @ concat (map (frame_bytes L) fs)"
| "frame_bytes L (Push fs) = ascii ''>'' @ itoa L (int (length fs)) @ CRLF @ concat (map (frame_bytes L) fs)"
| "frame_bytes L Null = ascii ''_'' @ CRLF"
| "frame_bytes L (Boolean v) = (if v then ascii ''#t'' else ascii ''#f'') @ CRLF"
| "frame_bytes L (Double s) = ascii '','' @ s @ CRLF"
| "frame_bytes L (BigNumber s) = ascii ''('' @ s @ CRLF"
| "frame_bytes L (VerbatimString format v) = ascii ''='' @ itoa L (int (length (format @ ascii '':'' @ v))) @ CRLF @
     (format @ ascii '':'' @ v) @ CRLF"
| "frame_bytes L (Attribute kvs data) = ascii ''|'' @ itoa L (int (length kvs)) @ CRLF @
     concat (map (\<lambda>(k, v). frame_bytes L k @ frame_bytes L v) kvs) @ frame_bytes L data"
| "frame_bytes L (Error s) = ascii ''-'' @ s @ CRLF"

lemma ascii_length [simp]: "length (ascii s) = length s"
  by (simp add: ascii_def)

lemma encode_bytes: "encode L f out = out @ frame_bytes L f"
proof (induction f arbitrary: out)
  case (Map kvs)
  then show ?case
    by (subst encode.simps, subst foldl_append [where fb = "\<lambda>(k, v). frame_bytes L k @ frame_bytes L v"])
      (auto simp: prod_set_simps)
next
  case (Attribute kvs data)
  then show ?case
    by (subst encode.simps, subst foldl_append [where fb = "\<lambda>(k, v). frame_bytes L k @ frame_bytes L v"])
      (auto simp: prod_set_simps)
qed (simp_all add: foldl_append [where fb = "frame_bytes L"])

lemma frame_bytes_min: "3 \<le> length (frame_bytes L f)"
  by (cases f) auto

lemma items_bytes_min: "3 * length fs \<le> length (concat (map (frame_bytes L) fs))"
proof (induction fs)
  case (Cons f fs)
  with frame_bytes_min [of L f] show ?case by simp
qed simp

lemma pairs_bytes_min: "6 * length kvs \<le> length (concat (map (\<lambda>(k, v). frame_bytes L k @ frame_bytes L v) kvs))"
proof (induction kvs)
  case (Cons kv kvs)
  with frame_bytes_min [of L "fst kv"] frame_bytes_min [of L "snd kv"] show ?case by (simp add: case_prod_unfold)
qed simp

section \<open>Reading back a header and a payload\<close>

lemma digits_text:
  assumes "0 \<le> n" "n < 2 ^ 63"
  shows "parse_ascii_i64 (nat_digits n) = Inr n" "parse_ascii_isize (nat_digits n) = Inr n"
    "\<not> occurs_at (nat_digits n) CRLF j" "ascii_digits (nat_digits n) 0 = Inr n" "nat_digits n \<noteq> []"
proof -
  have d: "digits_from 0 (nat_digits n) = n" "list_all is_digit (nat_digits n)" "nat_digits n \<noteq> []"
    using nat_digits_value [OF assms(1)] by (auto simp: digits_value_def)
  then have "split_sign (nat_digits n) = (False, nat_digits n)"
    by (cases "nat_digits n") (auto simp: split_sign_def is_digit_def)
  with d ascii_digits_value [OF d(2), of 0] assms(2)
  show "ascii_digits (nat_digits n) 0 = Inr n" "parse_ascii_i64 (nat_digits n) = Inr n" "parse_ascii_isize (nat_digits n) = Inr n"
    by (simp_all add: parse_ascii_i64_def parse_ascii_isize_def)
  show "\<not> occurs_at (nat_digits n) CRLF j" by (rule digits_no_crlf [OF d(2)])
  show "nat_digits n \<noteq> []" by (rule d(3))
qed

lemma i64_text:
  assumes "- (2 ^ 63) < v" "v < 2 ^ 63"
  shows "parse_ascii_i64 (i64_to_string v) = Inr v" "\<not> occurs_at (i64_to_string v) CRLF j"
proof -
  have neg: "parse_ascii_i64 (45 # nat_digits n) = Inr (- n)" if "0 \<le> n" "n < 2 ^ 63" for n
    using digits_text(4,5) [OF that] by (simp add: parse_ascii_i64_def split_sign_def)
  from assms neg [of "- v"] show "parse_ascii_i64 (i64_to_string v) = Inr v"
    by (auto simp: i64_to_string_def digits_text)
  have tail: "occurs_at s CRLF (j - 1)" if "occurs_at (45 # s) CRLF j" for s :: bytes
    using that by (cases j) (auto simp: occurs_at_def CRLF_def)
  show "\<not> occurs_at (i64_to_string v) CRLF j"
  proof (cases "v < 0")
    case True
    with assms digits_text(3) [of "- v"] tail [of "nat_digits (- v)"] show ?thesis
      by (simp add: i64_to_string_def) blast
  qed (use assms digits_text(3) [of v] in \<open>simp add: i64_to_string_def\<close>)
qed

lemma header_read:
  assumes "libs_ok L" "int n < 2 ^ 63"
  shows "parse_isize_line L (itoa L (int n) @ CRLF @ rest) = Inr (Some (int n, length (itoa L (int n)) + 2))"
  using assms digits_text [of "int n"] find_crlf_line [of L "nat_digits (int n)" rest]
  by (simp add: itoa_ok i64_to_string_def parse_isize_line_general)

lemma payload_read:
  assumes "b = pre @ c # head @ CRLF @ body @ CRLF @ post" "int (length b) < 2 ^ 63"
    and "start = length pre + 1 + (length head + 2)" "e = start + length body"
  shows "payload b (length pre) (length head + 2) (int (length body)) label what = Inr (Some (start, e, e + 2))"
    "slice start e b = body"
proof -
  have split: "b = (pre @ c # head @ CRLF) @ body @ CRLF @ post" "length (pre @ c # head @ CRLF) = start"
    using assms(1,3) by simp_all
  then have drop: "drop start b = body @ CRLF @ post" by (metis append_eq_conv_conj)
  then show "slice start e b = body" by (simp add: slice_def assms(4))
  from drop have "drop e b = CRLF @ post" by (simp add: assms(4) add.commute [of start] flip: drop_drop)
  then have "slice e (e + 2) b = CRLF" by (simp add: slice_def)
  moreover have "payload_bounds b (length pre) (length head + 2) (int (length body)) label = Inr (Some (start, e, e + 2))"
    using assms by (simp add: payload_bounds_def usize_checked_def USIZE_MAX_def)
  ultimately show "payload b (length pre) (length head + 2) (int (length body)) label what = Inr (Some (start, e, e + 2))"
    by (simp add: payload_def)
qed

lemma counted_read:
  assumes "reserve_ok L" "k \<le> RESP_MAX_CONTAINER_ITEMS" "m \<le> 2" "k * m * 3 \<le> length b - cur"
  shows "counted L b cur (int k) m label room loop = loop k cur"
proof -
  have "k * m \<le> 65536 * 2" using mult_le_mono [OF assms(2,3)] by (simp add: RESP_MAX_CONTAINER_ITEMS_def)
  with assms show ?thesis
    by (simp add: counted_def validate_container_count_def usize_checked_def USIZE_MAX_def RESP_MIN_FRAME_BYTES_def
        RESP_MAX_CONTAINER_ITEMS_def reserve_ok_def)
qed

lemma items_read:
  assumes "\<And>f pre post. f \<in> set fs \<Longrightarrow> b = pre @ fb f @ post \<Longrightarrow> item (length pre) = Inr (Some (f, length (fb f)))"
    and "b = pre @ concat (map fb fs) @ post"
  shows "parse_items item (length fs) (length pre) = Inr (Some (fs, length pre + length (concat (map fb fs))))"
  using assms
proof (induction fs arbitrary: pre)
  case (Cons f fs)
  from Cons.prems(1) [of f pre "concat (map fb fs) @ post"] Cons.prems(2)
  have "item (length pre) = Inr (Some (f, length (fb f)))" by simp
  moreover have "parse_items item (length fs) (length (pre @ fb f)) =
      Inr (Some (fs, length (pre @ fb f) + length (concat (map fb fs))))"
    by (rule Cons.IH, rule Cons.prems(1)) (use Cons.prems(2) in auto)
  ultimately show ?case by simp
qed simp

lemma pairs_read:
  assumes "\<And>k v f pre post. (k, v) \<in> set kvs \<Longrightarrow> f \<in> {k, v} \<Longrightarrow> b = pre @ fb f @ post \<Longrightarrow>
      item (length pre) = Inr (Some (f, length (fb f)))"
    and "b = pre @ concat (map (\<lambda>(k, v). fb k @ fb v) kvs) @ post"
  shows "parse_pairs item (length kvs) (length pre) =
    Inr (Some (kvs, length pre + length (concat (map (\<lambda>(k, v). fb k @ fb v) kvs))))"
  using assms
proof (induction kvs arbitrary: pre)
  case (Cons kv kvs)
  obtain k v where kv: "kv = (k, v)" by (cases kv)
  let ?rest = "concat (map (\<lambda>(k, v). fb k @ fb v) kvs) @ post"
  from Cons.prems(1) [of k v k pre "fb v @ ?rest"] Cons.prems(1) [of k v v "pre @ fb k" ?rest] Cons.prems(2) kv
  have "item (length pre) = Inr (Some (k, length (fb k)))"
    "item (length pre + length (fb k)) = Inr (Some (v, length (fb v)))" by simp_all
  moreover have "parse_pairs item (length kvs) (length (pre @ fb k @ fb v)) =
      Inr (Some (kvs, length (pre @ fb k @ fb v) + length (concat (map (\<lambda>(k, v). fb k @ fb v) kvs))))"
    by (rule Cons.IH, rule Cons.prems(1)) (use Cons.prems(2) kv in auto)
  ultimately show ?case by (simp add: kv add.assoc)
qed simp

section \<open>Reading back a frame\<close>

lemma line_read: "libs_ok L \<Longrightarrow> line_ok s \<Longrightarrow> parse_line L (s @ CRLF @ rest) = Inr (Some (s, length s + 2))"
  by (simp add: line_ok_free find_crlf_line parse_line_def)

lemma at_prefix:
  assumes "b = pre @ c # rest"
  shows "b ! length pre = c" "length b = length pre + 1 + length rest" "drop (Suc (length pre)) b = rest"
  using assms by simp_all

lemma prefix_bytes:
  "ascii ''+'' = [43]" "ascii ''-'' = [45]" "ascii '':'' = [58]" "ascii ''$'' = [36]" "ascii ''*'' = [42]"
  "ascii ''%'' = [37]" "ascii ''~'' = [126]" "ascii ''>'' = [62]" "ascii ''_'' = [95]" "ascii '','' = [44]"
  "ascii ''('' = [40]" "ascii ''='' = [61]" "ascii ''|'' = [124]" "ascii ''#t'' = [35, 116]" "ascii ''#f'' = [35, 102]"
  by (simp_all add: ascii_def)

definition reads_back :: "libs \<Rightarrow> bytes \<Rightarrow> nat \<Rightarrow> frame \<Rightarrow> bool" where
  "reads_back L b depth f \<longleftrightarrow>
     (\<forall>pre post. b = pre @ frame_bytes L f @ post \<longrightarrow>
        parse_frame_at_depth L b (length pre) depth = Inr (Some (f, length (frame_bytes L f))))"

lemma reads_backI:
  assumes "frame_bytes L f = c # text"
    and "\<And>pre post. b ! length pre = c \<Longrightarrow> length b = length pre + 1 + length text + length post \<Longrightarrow>
      drop (Suc (length pre)) b = text @ post \<Longrightarrow> b = pre @ c # text @ post \<Longrightarrow>
      parse_frame_at_depth L b (length pre) depth = Inr (Some (f, length (frame_bytes L f)))"
  shows "reads_back L b depth f"
  using assms unfolding reads_back_def by auto

lemmas frame_at = frame_cases [of _ b "length pre" for b pre]

lemma line_frames_read:
  assumes L: "libs_ok L" and d: "depth \<le> RESP_MAX_NESTING_DEPTH" and s: "line_ok s"
  shows "reads_back L b depth (SimpleString s)" "reads_back L b depth (Error s)"
    "double_ok s \<Longrightarrow> reads_back L b depth (Double s)" "big_number_ok s \<Longrightarrow> reads_back L b depth (BigNumber s)"
  using line_read [OF L s] d
  by (auto intro!: reads_backI simp: prefix_bytes frame_at parse_simple_string_def parse_error_def parse_double_def
      parse_big_number_def)

lemma integer_read:
  assumes L: "libs_ok L" and d: "depth \<le> RESP_MAX_NESTING_DEPTH" and v: "- (2 ^ 63) < v" "v < 2 ^ 63"
  shows "reads_back L b depth (Integer v)"
  using d i64_text [OF v] find_crlf_line [OF L, of "i64_to_string v"]
  by (auto intro!: reads_backI simp: prefix_bytes frame_at parse_integer_def parse_i64_line_def itoa_ok [OF L])

lemma fixed_frames_read:
  assumes "depth \<le> RESP_MAX_NESTING_DEPTH"
  shows "reads_back L b depth Null" "reads_back L b depth (Boolean v)"
proof -
  show "reads_back L b depth Null"
    by (rule reads_backI [of _ _ 95 CRLF])
      (use assms in \<open>auto simp: prefix_bytes frame_at parse_null_def slice_def\<close>)
  have "drop (Suc (Suc k)) b = rest \<and> b ! Suc k = x" if "drop (Suc k) b = x # rest" for k x rest
    using that by (metis drop_Suc list.sel(3) nth_via_drop tl_drop)
  then show "reads_back L b depth (Boolean v)"
    by (intro reads_backI [of _ _ 35 "(if v then 116 else 102) # CRLF"])
      (use assms in \<open>auto simp: prefix_bytes frame_at parse_boolean_def slice_def\<close>)
qed

lemma blob_read:
  assumes L: "libs_ok L" and d: "depth \<le> RESP_MAX_NESTING_DEPTH" and b: "int (length b) < 2 ^ 63"
  shows "reads_back L b depth (BlobString s)"
proof (rule reads_backI [of _ _ 36 "itoa L (int (length s)) @ CRLF @ s @ CRLF"], goal_cases)
  case (2 pre post)
  note payload_read [of b pre 36 "itoa L (int (length s))" s post, OF _ b refl refl]
  with 2 b d header_read [OF L, of "length s" "s @ CRLF @ post"] show ?case
    by (simp add: frame_at parse_blob_string_def)
qed (simp add: prefix_bytes)

lemma verbatim_read:
  assumes L: "libs_ok L" and d: "depth \<le> RESP_MAX_NESTING_DEPTH" and b: "int (length b) < 2 ^ 63"
    and "length format = 3" "valid_utf8 format" "58 \<notin> set format"
  shows "reads_back L b depth (VerbatimString format v)"
proof (rule reads_backI [of _ _ 61 "itoa L (int (length (format @ 58 # v))) @ CRLF @ (format @ 58 # v) @ CRLF"], goal_cases)
  case (2 pre post)
  have "position (\<lambda>byte. byte = 58) (xs @ 58 # ys) = Some (length xs)" if "58 \<notin> set xs" for xs ys :: bytes
    using that by (induction xs) auto
  note sep = this [OF assms(6)]
  note payload_read [of b pre 61 "itoa L (int (length (format @ 58 # v)))" "format @ 58 # v" post, OF _ b refl refl]
  with 2 b d assms(4-) sep header_read [OF L, of "length (format @ 58 # v)" "(format @ 58 # v) @ CRLF @ post"] show ?case
    by (simp add: frame_at parse_verbatim_string_def)
qed (simp add: prefix_bytes)

text \<open>The header of a container and the loop over its items.\<close>

lemma container_read:
  assumes L: "libs_ok L" "reserve_ok L" and n: "n \<le> RESP_MAX_CONTAINER_ITEMS" and m: "m \<le> 2"
    and size: "n * m * 3 \<le> length body"
    and b: "b = pre @ c # itoa L (int n) @ CRLF @ body @ post"
    and loop: "loop n (length (pre @ c # itoa L (int n) @ CRLF)) =
      Inr (Some (x, length (pre @ c # itoa L (int n) @ CRLF) + length body))"
  shows "let_some (parse_isize_line L (drop (length pre + 1) b)) (\<lambda>(cnt, h).
      if cnt < 0 then none h
      else let_some (counted L b (length pre + 1 + h) cnt m label room loop)
        (\<lambda>(items, cursor). Inr (Some (wrap items, cursor - length pre)))) =
    Inr (Some (wrap x, 3 + length (itoa L (int n)) + length body))"
proof -
  have "int n < 2 ^ 63" using n by (simp add: RESP_MAX_CONTAINER_ITEMS_def)
  from header_read [OF L(1) this, of "body @ post"] b
  have h: "parse_isize_line L (drop (Suc (length pre)) b) = Inr (Some (int n, length (itoa L (int n)) + 2))" by simp
  have "n * m * 3 \<le> length b - Suc (length pre + (length (itoa L (int n)) + 2))" using b size by simp
  from counted_read [OF L(2) n m this, where label = label and room = room and loop = loop] loop h show ?thesis
    by (simp add: eval_nat_numeral)
qed

lemma aggregate_readI:
  assumes "frame_bytes L f = c # itoa L n @ CRLF @ body"
    and "\<And>pre. length pre < length b \<Longrightarrow> b ! length pre = c \<Longrightarrow> parse_frame_at_depth L b (length pre) depth = P pre"
    and "\<And>pre post. b = pre @ c # itoa L n @ CRLF @ body @ post \<Longrightarrow>
      P pre = Inr (Some (f, 3 + length (itoa L n) + length body))"
  shows "reads_back L b depth f"
  unfolding reads_back_def using assms(1) assms(2,3) by fastforce

lemma items_container_read:
  assumes L: "libs_ok L" "reserve_ok L" and n: "length fs \<le> RESP_MAX_CONTAINER_ITEMS"
    and items: "\<And>f. f \<in> set fs \<Longrightarrow> reads_back L b (Suc depth) f"
    and b: "b = pre @ c # itoa L (int (length fs)) @ CRLF @ concat (map (frame_bytes L) fs) @ post"
  shows "let_some (parse_isize_line L (drop (length pre + 1) b)) (\<lambda>(cnt, h).
      if cnt < 0 then none h
      else let_some (counted L b (length pre + 1 + h) cnt 1 label room
          (parse_items (\<lambda>cursor. parse_frame_at_depth L b cursor (Suc depth))))
        (\<lambda>(items, cursor). Inr (Some (wrap items, cursor - length pre)))) =
    Inr (Some (wrap fs, 3 + length (itoa L (int (length fs))) + length (concat (map (frame_bytes L) fs))))"
proof (rule container_read [OF L n])
  let ?pre = "pre @ c # itoa L (int (length fs)) @ CRLF"
  show "parse_items (\<lambda>cursor. parse_frame_at_depth L b cursor (Suc depth)) (length fs) (length ?pre) =
      Inr (Some (fs, length ?pre + length (concat (map (frame_bytes L) fs))))"
  proof (rule items_read)
    show "b = ?pre @ concat (map (frame_bytes L) fs) @ post" using b by simp
  qed (use items in \<open>auto simp: reads_back_def\<close>)
  show "length fs * 1 * 3 \<le> length (concat (map (frame_bytes L) fs))" using items_bytes_min [of fs L] by simp
qed (use b in simp_all)

lemma items_frames_read:
  assumes L: "libs_ok L" "reserve_ok L" and d: "depth \<le> RESP_MAX_NESTING_DEPTH"
    and n: "length fs \<le> RESP_MAX_CONTAINER_ITEMS" and items: "\<And>f. f \<in> set fs \<Longrightarrow> reads_back L b (Suc depth) f"
  shows "reads_back L b depth (Array fs)" "reads_back L b depth (Set fs)" "reads_back L b depth (Push fs)"
proof -
  note read = items_container_read [OF L n items]
  show "reads_back L b depth (Array fs)"
    by (rule aggregate_readI [of L "Array fs" 42 "int (length fs)",
          OF _ _ read [where wrap = Array and none = "\<lambda>h. Inr (Some (Null, h + 1))" and label = "''array''" and room = "''array''"]])
      (simp_all add: leD [OF d] prefix_bytes frame_at parse_array_def Let_def)
  show "reads_back L b depth (Set fs)"
    by (rule aggregate_readI [of L "Set fs" 126 "int (length fs)",
          OF _ _ read [where wrap = Set and none = "\<lambda>h. Inl (NullNotSupported ''sets'')" and label = "''set''" and room = "''set''"]])
      (simp_all add: leD [OF d] prefix_bytes frame_at parse_set_def Let_def)
  show "reads_back L b depth (Push fs)"
    by (rule aggregate_readI [of L "Push fs" 62 "int (length fs)",
          OF _ _ read [where wrap = Push and none = "\<lambda>h. Inl (NullNotSupported ''pushes'')" and label = "''push''" and room = "''push''"]])
      (simp_all add: leD [OF d] prefix_bytes frame_at parse_push_def Let_def)
qed

lemma pairs_container_read:
  assumes L: "libs_ok L" "reserve_ok L" and n: "length kvs \<le> RESP_MAX_CONTAINER_ITEMS"
    and items: "\<And>k v. (k, v) \<in> set kvs \<Longrightarrow> reads_back L b (Suc depth) k \<and> reads_back L b (Suc depth) v"
    and b: "b = pre @ c # itoa L (int (length kvs)) @ CRLF @ body @ post"
    and body: "body = concat (map (\<lambda>(k, v). frame_bytes L k @ frame_bytes L v) kvs)"
  shows "let_some (parse_isize_line L (drop (length pre + 1) b)) (\<lambda>(cnt, h).
      if cnt < 0 then none h
      else let_some (counted L b (length pre + 1 + h) cnt 2 label room
          (parse_pairs (\<lambda>cursor. parse_frame_at_depth L b cursor (Suc depth))))
        (\<lambda>(items, cursor). Inr (Some (Map items, cursor - length pre)))) =
    Inr (Some (Map kvs, 3 + length (itoa L (int (length kvs))) + length body))"
proof (rule container_read [OF L n])
  let ?pre = "pre @ c # itoa L (int (length kvs)) @ CRLF"
  show "parse_pairs (\<lambda>cursor. parse_frame_at_depth L b cursor (Suc depth)) (length kvs) (length ?pre) =
      Inr (Some (kvs, length ?pre + length body))"
    unfolding body
  proof (rule pairs_read)
    show "b = ?pre @ concat (map (\<lambda>(k, v). frame_bytes L k @ frame_bytes L v) kvs) @ post" using b body by simp
  qed (use items in \<open>auto simp: reads_back_def\<close>)
  show "length kvs * 2 * 3 \<le> length body" using pairs_bytes_min [of kvs L] by (simp add: body)
qed (use b in simp_all)

lemma map_read:
  assumes L: "libs_ok L" "reserve_ok L" and d: "depth \<le> RESP_MAX_NESTING_DEPTH"
    and n: "length kvs \<le> RESP_MAX_CONTAINER_ITEMS"
    and items: "\<And>k v. (k, v) \<in> set kvs \<Longrightarrow> reads_back L b (Suc depth) k \<and> reads_back L b (Suc depth) v"
  shows "reads_back L b depth (Map kvs)"
  by (rule aggregate_readI [of L "Map kvs" 37 "int (length kvs)", OF _ _ pairs_container_read [OF L n items _ refl,
        where none = "\<lambda>h. Inl (NullNotSupported ''maps'')" and label = "''map''" and room = "''map''"]])
    (simp_all add: leD [OF d] prefix_bytes frame_at parse_map_def Let_def)

lemma attribute_read:
  assumes L: "libs_ok L" "reserve_ok L" and d: "depth \<le> RESP_MAX_NESTING_DEPTH"
    and n: "length kvs \<le> RESP_MAX_CONTAINER_ITEMS"
    and items: "\<And>k v. (k, v) \<in> set kvs \<Longrightarrow> reads_back L b (Suc depth) k \<and> reads_back L b (Suc depth) v"
    and data: "reads_back L b (Suc depth) data"
  shows "reads_back L b depth (Attribute kvs data)"
proof -
  let ?body = "concat (map (\<lambda>(k, v). frame_bytes L k @ frame_bytes L v) kvs)"
  let ?head = "itoa L (int (length kvs)) @ CRLF @ ?body"
  show ?thesis
  proof (rule reads_backI [of _ _ 124 "?head @ frame_bytes L data"], goal_cases)
    case (2 pre post)
    from 2(4) have "b = pre @ 124 # itoa L (int (length kvs)) @ CRLF @ ?body @ (frame_bytes L data @ post)" by simp
    from pairs_container_read [OF L n items this refl]
    have "parse_map_with_prefix L (\<lambda>cursor. parse_frame_at_depth L b cursor (Suc depth)) b (length pre) =
        Inr (Some (Map kvs, 1 + length ?head))"
      by (simp add: parse_map_with_prefix_def)
    moreover have "parse_frame_at_depth L b (length (pre @ 124 # ?head)) (Suc depth) =
        Inr (Some (data, length (frame_bytes L data)))"
      using data 2(4) unfolding reads_back_def by (metis append.assoc append_Cons)
    ultimately show ?case using 2(1-3) d by (simp add: prefix_bytes frame_at parse_attribute_def Let_def)
  qed (simp add: prefix_bytes)
qed

text \<open>The conditions on a buffer that a well-formed frame is read back from.\<close>

theorem frame_read:
  assumes L: "libs_ok L" "reserve_ok L" and b: "int (length b) < 2 ^ 63"
  shows "frame_ok depth f \<Longrightarrow> errors_ok f \<Longrightarrow> reads_back L b depth f"
proof (induction f arbitrary: depth)
  case (Map kvs)
  then show ?case
    by (intro map_read [OF L]) (fastforce simp: list_all_iff prod_set_simps)+
next
  case (Attribute kvs data)
  then show ?case
    by (intro attribute_read [OF L]) (fastforce simp: list_all_iff prod_set_simps)+
qed (auto simp: list_all_iff intro!: items_frames_read [OF L] line_frames_read [OF L(1)] integer_read [OF L(1)]
    fixed_frames_read blob_read [OF L(1) _ b] verbatim_read [OF L(1) _ b])

lemma decode_encode:
  assumes "libs_ok L" "reserve_ok L" "frame_ok 0 f" "errors_ok f" "int (length (encode L f [] @ rest)) < 2 ^ 63"
  shows "decode L (encode L f [] @ rest) = Inr (Some (f, length (encode L f [])))"
proof -
  have "encode L f [] = frame_bytes L f" by (simp add: encode_bytes)
  with frame_read [OF assms(1,2,5,3,4)] frame_bytes_min [of L f] show ?thesis
    unfolding reads_back_def by (fastforce simp: decode_def parse_frame_def)
qed

section \<open>Frames that are not read back\<close>

text \<open>
  The smallest integer is written but not read: the digits are accumulated before the sign is applied. A blob error may hold a line break,
  but an error is always written as a line, so its message is cut.
\<close>

lemma i64_min_not_read: "decode plain_libs (encode plain_libs (Integer (- (2 ^ 63))) []) = Inl IntegerOverflow"
  by code_simp

lemma blob_error_split:
  "decode plain_libs (ascii ''!4'' @ CRLF @ ascii ''a'' @ CRLF @ ascii ''b'' @ CRLF) =
     Inr (Some (Error (ascii ''a'' @ CRLF @ ascii ''b''), 10))"
  "decode plain_libs (encode plain_libs (Error (ascii ''a'' @ CRLF @ ascii ''b'')) []) = Inr (Some (Error (ascii ''a''), 4))"
  by code_simp+

section \<open>The codec\<close>

text \<open>
  C37: Decoding inverts encoding: from a buffer that starts with the encoding of a well-formed frame, whatever follows it, \<^verbatim>\<open>decode\<close> returns that
  frame and the number of bytes of its encoding. Well-formed frames are those whose strings are lines or payloads, with at most 65536 items
  in a container and 128 levels of nesting; the messages of errors are single lines.
\<close>

theorem resp_round_trip:
  assumes "libs_ok L" "reserve_ok L" "frame_ok 0 f" "errors_ok f" "int (length (encode L f [] @ rest)) < 2 ^ 63"
  shows "decode L (encode L f [] @ rest) = Inr (Some (f, length (encode L f [])))"
  by (rule decode_encode [OF assms])

theorem resp_round_trip_witness:
  "decode plain_libs (encode plain_libs (Attribute [(SimpleString (ascii ''ttl''), Integer (- 12))]
       (Array [BlobString (ascii ''GET''), Null, Double (ascii ''1.5e3''), VerbatimString (ascii ''txt'') [13, 10]])) [] @ [42]) =
     Inr (Some (Attribute [(SimpleString (ascii ''ttl''), Integer (- 12))]
       (Array [BlobString (ascii ''GET''), Null, Double (ascii ''1.5e3''), VerbatimString (ascii ''txt'') [13, 10]]), 52))"
proof -
  let ?f = "Attribute [(SimpleString (ascii ''ttl''), Integer (- 12))]
       (Array [BlobString (ascii ''GET''), Null, Double (ascii ''1.5e3''), VerbatimString (ascii ''txt'') [13, 10]])"
  have "frame_ok 0 ?f" "errors_ok ?f" "length (encode plain_libs ?f []) = 52" by code_simp+
  with resp_round_trip [OF plain_libs_ok, of ?f "[42]"] show ?thesis by simp
qed

text \<open>
  C38: Every decoded frame is well formed: its strings are UTF-8, its integers fit, its containers and its nesting are bounded; and it takes
  at least one byte and none behind the buffer.
\<close>

theorem resp_decoded_frame:
  assumes "libs_ok L" "decode L b = Inr (Some (f, n))"
  shows "frame_ok 0 f \<and> 0 < n \<and> n \<le> length b"
  using decode_ok [OF assms] decode_bound [OF assms] by blast

theorem resp_decoded_frame_witness:
  "decode plain_libs (ascii ''~1'' @ CRLF @ ascii ''#t'' @ CRLF @ [7]) = Inr (Some (Set [Boolean True], 8)) \<and>
   frame_ok 0 (Set [Boolean True])"
proof -
  have "decode plain_libs (ascii ''~1'' @ CRLF @ ascii ''#t'' @ CRLF @ [7]) = Inr (Some (Set [Boolean True], 8))" by code_simp
  with resp_decoded_frame [OF plain_libs_ok(1) this] show ?thesis by blast
qed

text \<open>
  C39: A decoder may be called again whenever bytes have arrived: once it returns a frame or an error instead of asking for more, further
  bytes do not change its answer. This holds for frames, for commands and for spans.
\<close>

theorem resp_incremental:
  assumes "libs_ok L"
  shows "(decode L b \<noteq> Inr None \<longrightarrow> decode L (b @ c) = decode L b) \<and>
    (decode_command L b \<noteq> Inr None \<longrightarrow> decode_command L (b @ c) = decode_command L b) \<and>
    (decode_command_spans L b \<noteq> Inr None \<longrightarrow> decode_command_spans L (b @ c) = decode_command_spans L b)"
  using decode_settled [OF assms] decode_command_settled [OF assms] decode_command_spans_settled [OF assms]
  by (simp add: settled_def)

theorem resp_incremental_witness:
  "decode plain_libs (ascii ''*2'' @ CRLF @ ascii ''?abcde'' @ [42]) = Inl (UnsupportedPrefix 63) \<and>
   decode_command plain_libs (ascii ''*1'' @ CRLF @ ascii ''+PING'' @ CRLF @ [42]) = Inr (Some (\<lparr>parts = [ascii ''PING'']\<rparr>, 11))"
proof -
  have "decode plain_libs (ascii ''*2'' @ CRLF @ ascii ''?abcde'') = Inl (UnsupportedPrefix 63)"
    "decode_command plain_libs (ascii ''*1'' @ CRLF @ ascii ''+PING'' @ CRLF) = Inr (Some (\<lparr>parts = [ascii ''PING'']\<rparr>, 11))"
    by code_simp+
  with resp_incremental [OF plain_libs_ok(1), of "ascii ''*2'' @ CRLF @ ascii ''?abcde''" "[42]"]
    resp_incremental [OF plain_libs_ok(1), of "ascii ''*1'' @ CRLF @ ascii ''+PING'' @ CRLF" "[42]"]
  show ?thesis by simp
qed

section \<open>Commands\<close>
















text \<open>
  Where the decoders part: an integer is passed on as it was written, and is not read at all; a simple string need not be UTF-8; and
  only the frame decoder looks through an attribute.
\<close>

lemma commands_differ:
  "decode_command plain_libs (ascii ''*1'' @ CRLF @ ascii '':+5'' @ CRLF) = Inr (Some (\<lparr>parts = [ascii ''+5'']\<rparr>, 9))"
  "decode plain_libs (ascii ''*1'' @ CRLF @ ascii '':+5'' @ CRLF) = Inr (Some (Array [Integer 5], 9))"
  "decode_command plain_libs (ascii ''*1'' @ CRLF @ ascii '':abc'' @ CRLF) = Inr (Some (\<lparr>parts = [ascii ''abc'']\<rparr>, 10))"
  "decode plain_libs (ascii ''*1'' @ CRLF @ ascii '':abc'' @ CRLF) = Inl (NonDigit 97)"
  "decode_command plain_libs (ascii ''*1'' @ CRLF @ [43, 255] @ CRLF) = Inr (Some (\<lparr>parts = [[255]]\<rparr>, 8))"
  "decode plain_libs (ascii ''*1'' @ CRLF @ [43, 255] @ CRLF) = Inl (InvalidUtf8 ''RESP line'')"
  "decode_command plain_libs (ascii ''|0'' @ CRLF @ ascii ''*1'' @ CRLF @ ascii ''+A'' @ CRLF) = Inl ExpectedCommandArray"
  "decode plain_libs (ascii ''|0'' @ CRLF @ ascii ''*1'' @ CRLF @ ascii ''+A'' @ CRLF) =
     Inr (Some (Attribute [] (Array [SimpleString (ascii ''A'')]), 12))"
  by code_simp+



end
