(* ===== verification/Env.thy ===== *)
theory Env
  imports F64
begin

text \<open>
  The third-party code the object store calls, as the parameter of the model: the XXH3 key
  hash, the process-local re-keying hash (\<^verbatim>\<open>ahash\<close>), the raw hash table of \<^verbatim>\<open>hashbrown\<close>, the
  order-statistics tree of \<^verbatim>\<open>indextreemap\<close>, and the iteration order of the standard hash
  maps, which no program may rely on. \<open>env_ok\<close> collects the documented behaviour of those
  crates; the concrete environment \<open>list_env\<close> at the end satisfies it.
\<close>

section \<open>Keys of the two container crates\<close>

type_synonym slot_id = nat

record slot_entry =
  se_hash :: u64
  se_key :: bytes
  se_slot :: slot_id

text \<open>\<^verbatim>\<open>ZSetOrderKey\<close>: ordered by score (\<^verbatim>\<open>total_cmp\<close>), then by member.\<close>

datatype zkey = ZKey (zk_score: f64) (zk_member: bytes)

instantiation zkey :: linorder
begin

definition less_eq_zkey :: "zkey \<Rightarrow> zkey \<Rightarrow> bool" where
  "less_eq_zkey x y \<longleftrightarrow>
     zk_score x < zk_score y \<or> zk_score x = zk_score y \<and> zk_member x \<le> zk_member y"

definition less_zkey :: "zkey \<Rightarrow> zkey \<Rightarrow> bool" where
  "less_zkey x y \<longleftrightarrow>
     zk_score x < zk_score y \<or> zk_score x = zk_score y \<and> zk_member x < zk_member y"

instance
proof
  fix x y z :: zkey
  show "x < y \<longleftrightarrow> x \<le> y \<and> \<not> y \<le> x" by (auto simp: less_eq_zkey_def less_zkey_def)
  show "x \<le> x" by (simp add: less_eq_zkey_def)
  show "x \<le> y \<Longrightarrow> y \<le> z \<Longrightarrow> x \<le> z" by (auto simp: less_eq_zkey_def)
  show "x \<le> y \<Longrightarrow> y \<le> x \<Longrightarrow> x = y" by (cases x; cases y) (auto simp: less_eq_zkey_def)
  show "x \<le> y \<or> y \<le> x" by (auto simp: less_eq_zkey_def)
qed

end

section \<open>The environment\<close>

text \<open>
  \<open>ht_update\<close> is \<^verbatim>\<open>find_mut\<close> followed by a write through the reference, \<open>ht_remove\<close> is
  \<^verbatim>\<open>find_entry\<close> followed by \<^verbatim>\<open>OccupiedEntry::remove\<close>. \<open>ht_stored\<close> is a ghost: the entries of
  a table with the hash each was inserted under; no definition uses it.
\<close>

record ('h, 't) env =
  hash_key :: "bytes \<Rightarrow> u64"
  local_table_hash :: "u64 \<Rightarrow> u64"
  ht_new :: 'h
  ht_find :: "'h \<Rightarrow> u64 \<Rightarrow> (slot_entry \<Rightarrow> bool) \<Rightarrow> slot_entry option"
  ht_update :: "'h \<Rightarrow> u64 \<Rightarrow> (slot_entry \<Rightarrow> bool) \<Rightarrow> (slot_entry \<Rightarrow> slot_entry) \<Rightarrow> 'h"
  ht_insert_unique :: "'h \<Rightarrow> u64 \<Rightarrow> slot_entry \<Rightarrow> (slot_entry \<Rightarrow> u64) \<Rightarrow> 'h"
  ht_remove :: "'h \<Rightarrow> u64 \<Rightarrow> (slot_entry \<Rightarrow> bool) \<Rightarrow> (slot_entry \<times> 'h) option"
  ht_iter :: "'h \<Rightarrow> slot_entry list"
  ht_len :: "'h \<Rightarrow> nat"
  ht_stored :: "'h \<Rightarrow> (u64 \<times> slot_entry) multiset"
  its_new :: 't
  its_insert :: "'t \<Rightarrow> zkey \<Rightarrow> 't"
  its_remove :: "'t \<Rightarrow> zkey \<Rightarrow> 't"
  its_first :: "'t \<Rightarrow> zkey option"
  its_last :: "'t \<Rightarrow> zkey option"
  its_key_at :: "'t \<Rightarrow> nat \<Rightarrow> zkey option"
  its_index_of :: "'t \<Rightarrow> zkey \<Rightarrow> nat option"
  its_len :: "'t \<Rightarrow> nat"
  its_iter :: "'t \<Rightarrow> zkey list"
  map_order :: "bytes list \<Rightarrow> bytes list"

definition hash_table_ok :: "('h, 't) env \<Rightarrow> bool" where
  "hash_table_ok E \<longleftrightarrow>
     ht_stored E (ht_new E) = {#} \<and>
     (\<forall>t. mset (ht_iter E t) = image_mset snd (ht_stored E t)) \<and>
     (\<forall>t. ht_len E t = size (ht_stored E t)) \<and>
     (\<forall>t h eq e. ht_find E t h eq = Some e \<longrightarrow> eq e \<and> e \<in># image_mset snd (ht_stored E t)) \<and>
     (\<forall>t h eq e. ht_find E t h eq = None \<longrightarrow> (h, e) \<in># ht_stored E t \<longrightarrow> \<not> eq e) \<and>
     (\<forall>t h e hasher. (\<forall>p\<in>#ht_stored E t. hasher (snd p) = fst p) \<longrightarrow> hasher e = h \<longrightarrow>
        ht_stored E (ht_insert_unique E t h e hasher) = add_mset (h, e) (ht_stored E t)) \<and>
     (\<forall>t h eq f e. ht_find E t h eq = Some e \<longrightarrow>
        (\<exists>h'. (h', e) \<in># ht_stored E t \<and>
           ht_stored E (ht_update E t h eq f) = add_mset (h', f e) (ht_stored E t - {#(h', e)#}))) \<and>
     (\<forall>t h eq. ht_find E t h eq = None \<longrightarrow> ht_remove E t h eq = None) \<and>
     (\<forall>t h eq e. ht_find E t h eq = Some e \<longrightarrow>
        (\<exists>h' t'. ht_remove E t h eq = Some (e, t') \<and> (h', e) \<in># ht_stored E t \<and>
           ht_stored E t' = ht_stored E t - {#(h', e)#}))"

definition index_tree_ok :: "('h, 't) env \<Rightarrow> bool" where
  "index_tree_ok E \<longleftrightarrow>
     its_iter E (its_new E) = [] \<and>
     (\<forall>t k. sorted_wrt (<) (its_iter E t) \<longrightarrow>
        sorted_wrt (<) (its_iter E (its_insert E t k)) \<and>
        set (its_iter E (its_insert E t k)) = insert k (set (its_iter E t))) \<and>
     (\<forall>t k. sorted_wrt (<) (its_iter E t) \<longrightarrow> its_iter E (its_remove E t k) = remove1 k (its_iter E t)) \<and>
     (\<forall>t. its_len E t = length (its_iter E t)) \<and>
     (\<forall>t. its_first E t = (case its_iter E t of [] \<Rightarrow> None | k # _ \<Rightarrow> Some k)) \<and>
     (\<forall>t. its_last E t = (if its_iter E t = [] then None else Some (last (its_iter E t)))) \<and>
     (\<forall>t i. its_key_at E t i = (if i < length (its_iter E t) then Some (its_iter E t ! i) else None)) \<and>
     (\<forall>t k. sorted_wrt (<) (its_iter E t) \<longrightarrow>
        its_index_of E t k = position (\<lambda>x. x = k) (its_iter E t))"

definition env_ok :: "('h, 't) env \<Rightarrow> bool" where
  "env_ok E \<longleftrightarrow> hash_table_ok E \<and> index_tree_ok E \<and> (\<forall>ks. mset (map_order E ks) = mset ks)"

section \<open>A concrete environment\<close>

text \<open>Tables as association lists with the stored hash, trees as sorted lists.\<close>

type_synonym list_table = "(u64 \<times> slot_entry) list"
type_synonym list_tree = "zkey list"

definition lt_match :: "u64 \<Rightarrow> (slot_entry \<Rightarrow> bool) \<Rightarrow> u64 \<times> slot_entry \<Rightarrow> bool" where
  "lt_match h eq p \<longleftrightarrow> fst p = h \<and> eq (snd p)"

definition lt_find :: "list_table \<Rightarrow> u64 \<Rightarrow> (slot_entry \<Rightarrow> bool) \<Rightarrow> slot_entry option" where
  "lt_find t h eq = map_option snd (find (lt_match h eq) t)"

fun lt_update :: "list_table \<Rightarrow> u64 \<Rightarrow> (slot_entry \<Rightarrow> bool) \<Rightarrow> (slot_entry \<Rightarrow> slot_entry) \<Rightarrow> list_table" where
  "lt_update [] h eq f = []"
| "lt_update (p # t) h eq f =
     (if lt_match h eq p then (fst p, f (snd p)) # t else p # lt_update t h eq f)"

fun lt_remove :: "list_table \<Rightarrow> u64 \<Rightarrow> (slot_entry \<Rightarrow> bool) \<Rightarrow> (slot_entry \<times> list_table) option" where
  "lt_remove [] h eq = None"
| "lt_remove (p # t) h eq =
     (if lt_match h eq p then Some (snd p, t)
      else map_option (\<lambda>(e, t'). (e, p # t')) (lt_remove t h eq))"

fun tree_insert :: "list_tree \<Rightarrow> zkey \<Rightarrow> list_tree" where
  "tree_insert [] k = [k]"
| "tree_insert (x # xs) k = (if k < x then k # x # xs else if k = x then x # xs else x # tree_insert xs k)"

text \<open>A stand-in for XXH3: the polynomial of the bytes.\<close>

definition poly_hash :: "bytes \<Rightarrow> u64" where
  "poly_hash k = foldl (\<lambda>acc b. 31 * acc + ucast b) 7 k"

definition list_env :: "(list_table, list_tree) env" where
  "list_env =
     \<lparr>hash_key = poly_hash, local_table_hash = (\<lambda>h. 3 * h + 1),
      ht_new = [], ht_find = lt_find, ht_update = lt_update,
      ht_insert_unique = (\<lambda>t h e hasher. (h, e) # t), ht_remove = lt_remove,
      ht_iter = map snd, ht_len = length, ht_stored = mset,
      its_new = [], its_insert = tree_insert, its_remove = (\<lambda>t k. remove1 k t),
      its_first = (\<lambda>t. case t of [] \<Rightarrow> None | k # _ \<Rightarrow> Some k),
      its_last = (\<lambda>t. if t = [] then None else Some (last t)),
      its_key_at = (\<lambda>t i. if i < length t then Some (t ! i) else None),
      its_index_of = (\<lambda>t k. position (\<lambda>x. x = k) t),
      its_len = length, its_iter = id, map_order = id\<rparr>"

lemma lt_find_Some:
  "lt_find t h eq = Some e \<Longrightarrow> eq e \<and> (h, e) \<in> set t \<and>
     mset (lt_update t h eq f) = add_mset (h, f e) (mset t - {#(h, e)#}) \<and>
     (\<exists>t'. lt_remove t h eq = Some (e, t') \<and> mset t' = mset t - {#(h, e)#})"
proof (induction t)
  case Nil
  then show ?case by (simp add: lt_find_def)
next
  case (Cons p t)
  show ?case
  proof (cases "lt_match h eq p")
    case True
    with Cons.prems have "p = (h, e)" "eq e" by (auto simp: lt_find_def lt_match_def prod_eq_iff)
    then show ?thesis by (simp add: lt_match_def)
  next
    case False
    with Cons.prems have "lt_find t h eq = Some e" by (simp add: lt_find_def)
    from Cons.IH [OF this] have ih: "eq e" "(h, e) \<in> set t"
      "mset (lt_update t h eq f) = add_mset (h, f e) (mset t - {#(h, e)#})"
      "\<exists>t'. lt_remove t h eq = Some (e, t') \<and> mset t' = mset t - {#(h, e)#}"
      by simp_all
    with False have "p \<noteq> (h, e)" by (auto simp: lt_match_def)
    with False ih show ?thesis by auto
  qed
qed

lemma lt_find_None:
  "lt_find t h eq = None \<Longrightarrow> ((h, e) \<in> set t \<longrightarrow> \<not> eq e) \<and> lt_remove t h eq = None"
  by (induction t) (auto simp: lt_find_def lt_match_def split: if_splits)

lemma tree_insert_sorted:
  "sorted_wrt (<) t \<Longrightarrow> sorted_wrt (<) (tree_insert t k) \<and> set (tree_insert t k) = insert k (set t)"
  by (induction t) (auto simp: not_less intro: order.strict_trans)

lemma list_env_ok: "env_ok list_env"
proof -
  have "hash_table_ok list_env"
    unfolding hash_table_ok_def
    by (intro conjI allI impI)
      (auto simp: list_env_def simp flip: mset_map dest: lt_find_None dest!: lt_find_Some
        intro: rev_image_eqI)
  moreover have "index_tree_ok list_env"
    unfolding index_tree_ok_def by (simp add: list_env_def tree_insert_sorted)
  ultimately show ?thesis by (simp add: env_ok_def list_env_def)
qed

end
