(* ===== verification/Slots.thy ===== *)
theory Slots
  imports Env
begin

text \<open>
  \<^verbatim>\<open>ObjectSlab\<close> (\<^verbatim>\<open>slab.rs\<close>) and \<^verbatim>\<open>SlotMap\<close> (\<^verbatim>\<open>slot_map.rs\<close>). A slot map and a slab together form
  an object table: the map gives the slot of a key, the slab the object in the slot. The
  invariant \<open>table_ok\<close> says that the two agree; the lemmas show that lookup, in-place
  update, creation and deletion act on the table as on a finite map.
\<close>

section \<open>Slab\<close>

record 'o slab =
  slab_entries :: "'o option list"
  slab_free :: "nat list"

definition slab_new :: "'o slab" where
  "slab_new = \<lparr>slab_entries = [], slab_free = []\<rparr>"

definition slab_insert :: "'o slab \<Rightarrow> 'o \<Rightarrow> (slot_id \<times> 'o slab) option" where
  "slab_insert s v =
     (if slab_free s \<noteq> []
      then let slot = last (slab_free s)
           in if slot < length (slab_entries s)
              then Some (slot, \<lparr>slab_entries = (slab_entries s)[slot := Some v],
                                slab_free = butlast (slab_free s)\<rparr>)
              else None
      else Some (length (slab_entries s), s\<lparr>slab_entries := slab_entries s @ [Some v]\<rparr>))"

definition slab_get :: "'o slab \<Rightarrow> slot_id \<Rightarrow> 'o option" where
  "slab_get s slot = (if slot < length (slab_entries s) then slab_entries s ! slot else None)"

text \<open>A write through the reference that \<^verbatim>\<open>get_mut\<close> returns.\<close>

definition slab_put :: "'o slab \<Rightarrow> slot_id \<Rightarrow> 'o \<Rightarrow> 'o slab" where
  "slab_put s slot v = s\<lparr>slab_entries := (slab_entries s)[slot := Some v]\<rparr>"

definition slab_remove :: "'o slab \<Rightarrow> slot_id \<Rightarrow> 'o option \<times> 'o slab" where
  "slab_remove s slot =
     (case slab_get s slot of
        None \<Rightarrow> (None, s)
      | Some v \<Rightarrow> (Some v, \<lparr>slab_entries = (slab_entries s)[slot := None],
                            slab_free = slab_free s @ [slot]\<rparr>))"

section \<open>Slot map\<close>

definition sm_len :: "('h, 't) env \<Rightarrow> 'h \<Rightarrow> nat" where
  "sm_len E t = ht_len E t"

definition sm_get_hashed :: "('h, 't) env \<Rightarrow> 'h \<Rightarrow> u64 \<Rightarrow> bytes \<Rightarrow> slot_id option" where
  "sm_get_hashed E t hash key =
     map_option se_slot (ht_find E t (local_table_hash E hash) (\<lambda>entry. se_key entry = key))"

definition sm_get :: "('h, 't) env \<Rightarrow> 'h \<Rightarrow> bytes \<Rightarrow> slot_id option" where
  "sm_get E t key =
     (let hash = hash_key E key
      in map_option se_slot (ht_find E t (local_table_hash E hash) (\<lambda>entry. se_key entry = key)))"

definition sm_contains_key :: "('h, 't) env \<Rightarrow> 'h \<Rightarrow> bytes \<Rightarrow> bool" where
  "sm_contains_key E t key \<longleftrightarrow> sm_get E t key \<noteq> None"

definition sm_contains_key_hashed :: "('h, 't) env \<Rightarrow> 'h \<Rightarrow> u64 \<Rightarrow> bytes \<Rightarrow> bool" where
  "sm_contains_key_hashed E t hash key \<longleftrightarrow> sm_get_hashed E t hash key \<noteq> None"

definition sm_insert_hashed ::
  "('h, 't) env \<Rightarrow> 'h \<Rightarrow> u64 \<Rightarrow> bytes \<Rightarrow> slot_id \<Rightarrow> slot_id option \<times> 'h" where
  "sm_insert_hashed E t hash key slot =
     (let eq = (\<lambda>entry. se_key entry = key)
      in case ht_find E t (local_table_hash E hash) eq of
           Some entry \<Rightarrow>
             (Some (se_slot entry),
              ht_update E t (local_table_hash E hash) eq (\<lambda>entry. entry\<lparr>se_slot := slot\<rparr>))
         | None \<Rightarrow>
             (None,
              ht_insert_unique E t (local_table_hash E hash)
                \<lparr>se_hash = hash, se_key = key, se_slot = slot\<rparr>
                (\<lambda>entry. local_table_hash E (se_hash entry))))"

definition sm_insert :: "('h, 't) env \<Rightarrow> 'h \<Rightarrow> bytes \<Rightarrow> slot_id \<Rightarrow> slot_id option \<times> 'h" where
  "sm_insert E t key slot = sm_insert_hashed E t (hash_key E key) key slot"

definition sm_remove_hashed :: "('h, 't) env \<Rightarrow> 'h \<Rightarrow> u64 \<Rightarrow> bytes \<Rightarrow> slot_id option \<times> 'h" where
  "sm_remove_hashed E t hash key =
     (case ht_remove E t (local_table_hash E hash) (\<lambda>entry. se_key entry = key) of
        None \<Rightarrow> (None, t)
      | Some (entry, t') \<Rightarrow> (Some (se_slot entry), t'))"

definition sm_remove :: "('h, 't) env \<Rightarrow> 'h \<Rightarrow> bytes \<Rightarrow> slot_id option \<times> 'h" where
  "sm_remove E t key = sm_remove_hashed E t (hash_key E key) key"

definition sm_keys :: "('h, 't) env \<Rightarrow> 'h \<Rightarrow> bytes list" where
  "sm_keys E t = map se_key (ht_iter E t)"

section \<open>The slab as a finite map\<close>

definition slab_ok :: "'o slab \<Rightarrow> bool" where
  "slab_ok s \<longleftrightarrow>
     distinct (slab_free s) \<and>
     (\<forall>i. i \<in> set (slab_free s) \<longleftrightarrow> i < length (slab_entries s) \<and> slab_entries s ! i = None)"

lemma slab_ok_new: "slab_ok slab_new"
  by (simp add: slab_ok_def slab_new_def)

lemma slab_get_new [simp]: "slab_get slab_new i = None"
  by (simp add: slab_get_def slab_new_def)

lemma slab_put_ok: "slab_ok s \<Longrightarrow> slab_get s i \<noteq> None \<Longrightarrow> slab_ok (slab_put s i v)"
  by (auto simp: slab_ok_def slab_put_def slab_get_def nth_list_update split: if_splits)

lemma slab_get_put:
  "slab_get s i \<noteq> None \<Longrightarrow> slab_get (slab_put s i v) = (slab_get s)(i \<mapsto> v)"
  by (auto simp: slab_get_def slab_put_def fun_eq_iff nth_list_update split: if_splits)

lemma slab_insert_ok:
  assumes "slab_ok s"
  obtains i s' where "slab_insert s v = Some (i, s')" "slab_ok s'" "slab_get s i = None"
    "slab_get s' = (slab_get s)(i \<mapsto> v)"
proof (cases "slab_free s = []")
  case True
  show thesis
  proof (rule that)
    show "slab_insert s v = Some (length (slab_entries s), s\<lparr>slab_entries := slab_entries s @ [Some v]\<rparr>)"
      using True by (simp add: slab_insert_def)
    show "slab_ok (s\<lparr>slab_entries := slab_entries s @ [Some v]\<rparr>)"
      using assms True by (auto simp: slab_ok_def nth_append)
  qed (auto simp: slab_get_def fun_eq_iff nth_append)
next
  case False
  let ?i = "last (slab_free s)"
  let ?s = "\<lparr>slab_entries = (slab_entries s)[?i := Some v], slab_free = butlast (slab_free s)\<rparr>"
  have mem: "?i \<in> set (slab_free s)" using False by simp
  then have i: "?i < length (slab_entries s)" "slab_entries s ! ?i = None"
    using assms by (auto simp: slab_ok_def)
  have split: "slab_free s = butlast (slab_free s) @ [?i]" using False by simp
  then have d: "distinct (butlast (slab_free s) @ [?i])" using assms by (simp add: slab_ok_def)
  have m: "j \<in> set (butlast (slab_free s)) \<longleftrightarrow> j \<in> set (slab_free s) \<and> j \<noteq> ?i" for j
    using d by (subst (2) split) (auto simp del: append_butlast_last_id)
  show thesis
  proof (rule that)
    show "slab_insert s v = Some (?i, ?s)" using False i by (simp add: slab_insert_def Let_def)
    show "slab_ok ?s" using assms d i m by (auto simp: slab_ok_def nth_list_update)
    show "slab_get s ?i = None" using i by (simp add: slab_get_def)
    show "slab_get ?s = (slab_get s)(?i \<mapsto> v)"
      using i by (auto simp: slab_get_def fun_eq_iff nth_list_update)
  qed
qed

lemma slab_remove_ok:
  assumes "slab_ok s" "slab_get s i = Some v"
  shows "fst (slab_remove s i) = Some v" "slab_ok (snd (slab_remove s i))"
    "slab_get (snd (slab_remove s i)) = (slab_get s)(i := None)"
  using assms
  by (auto simp: slab_remove_def slab_ok_def slab_get_def nth_list_update fun_eq_iff split: if_splits)

section \<open>The slot map as a finite map\<close>

text \<open>Every entry sits under the hash of its key, and no key occurs twice.\<close>

definition slotmap_ok :: "('h, 't) env \<Rightarrow> 'h \<Rightarrow> bool" where
  "slotmap_ok E t \<longleftrightarrow>
     (\<forall>p\<in>#ht_stored E t. fst p = local_table_hash E (se_hash (snd p)) \<and>
        se_hash (snd p) = hash_key E (se_key (snd p))) \<and>
     distinct (map se_key (ht_iter E t))"

definition sm_map :: "('h, 't) env \<Rightarrow> 'h \<Rightarrow> bytes \<rightharpoonup> slot_id" where
  "sm_map E t = map_of (map (\<lambda>e. (se_key e, se_slot e)) (ht_iter E t))"

lemma hash_table_okD:
  assumes "env_ok E"
  shows "ht_stored E (ht_new E) = {#}"
    "mset (ht_iter E t) = image_mset snd (ht_stored E t)"
    "ht_len E t = size (ht_stored E t)"
    "ht_find E t h eq = Some e \<Longrightarrow> eq e \<and> e \<in># image_mset snd (ht_stored E t)"
    "ht_find E t h eq = None \<Longrightarrow> (h, e) \<in># ht_stored E t \<Longrightarrow> \<not> eq e"
    "\<forall>p\<in>#ht_stored E t. hasher (snd p) = fst p \<Longrightarrow> hasher e = h \<Longrightarrow>
       ht_stored E (ht_insert_unique E t h e hasher) = add_mset (h, e) (ht_stored E t)"
    "ht_find E t h eq = Some e \<Longrightarrow> \<exists>h'. (h', e) \<in># ht_stored E t \<and>
       ht_stored E (ht_update E t h eq f) = add_mset (h', f e) (ht_stored E t - {#(h', e)#})"
    "ht_find E t h eq = None \<Longrightarrow> ht_remove E t h eq = None"
    "ht_find E t h eq = Some e \<Longrightarrow> \<exists>h' t'. ht_remove E t h eq = Some (e, t') \<and>
       (h', e) \<in># ht_stored E t \<and> ht_stored E t' = ht_stored E t - {#(h', e)#}"
proof -
  note laws = assms [unfolded env_ok_def hash_table_ok_def, THEN conjunct1]
  note l2 = laws [THEN conjunct2] note l3 = l2 [THEN conjunct2] note l4 = l3 [THEN conjunct2]
  note l5 = l4 [THEN conjunct2] note l6 = l5 [THEN conjunct2] note l7 = l6 [THEN conjunct2]
  note l8 = l7 [THEN conjunct2] note l9 = l8 [THEN conjunct2]
  show "ht_stored E (ht_new E) = {#}" by (rule laws [THEN conjunct1])
  show "mset (ht_iter E t) = image_mset snd (ht_stored E t)"
    by (rule l2 [THEN conjunct1, rule_format])
  show "ht_len E t = size (ht_stored E t)" by (rule l3 [THEN conjunct1, rule_format])
  show "eq e \<and> e \<in># image_mset snd (ht_stored E t)" if "ht_find E t h eq = Some e"
    using that by (rule l4 [THEN conjunct1, rule_format])
  show "\<not> eq e" if "ht_find E t h eq = None" "(h, e) \<in># ht_stored E t"
    using that by (rule l5 [THEN conjunct1, rule_format])
  show "ht_stored E (ht_insert_unique E t h e hasher) = add_mset (h, e) (ht_stored E t)"
    if "\<forall>p\<in>#ht_stored E t. hasher (snd p) = fst p" "hasher e = h"
    by (rule l6 [THEN conjunct1, rule_format]) (use that in auto)
  show "\<exists>h'. (h', e) \<in># ht_stored E t \<and>
      ht_stored E (ht_update E t h eq f) = add_mset (h', f e) (ht_stored E t - {#(h', e)#})"
    if "ht_find E t h eq = Some e"
    using that by (rule l7 [THEN conjunct1, rule_format])
  show "ht_remove E t h eq = None" if "ht_find E t h eq = None"
    using that by (rule l8 [THEN conjunct1, rule_format])
  show "\<exists>h' t'. ht_remove E t h eq = Some (e, t') \<and>
      (h', e) \<in># ht_stored E t \<and> ht_stored E t' = ht_stored E t - {#(h', e)#}"
    if "ht_find E t h eq = Some e"
    using that by (rule l9 [rule_format])
qed

lemma ht_iter_set: "env_ok E \<Longrightarrow> set (ht_iter E t) = snd ` set_mset (ht_stored E t)"
  using hash_table_okD(2) [of E t] by (metis set_image_mset set_mset_mset)

lemma sm_map_iff:
  "slotmap_ok E t \<Longrightarrow> sm_map E t k = Some i \<longleftrightarrow> (\<exists>e\<in>set (ht_iter E t). se_key e = k \<and> se_slot e = i)"
  unfolding sm_map_def by (subst map_of_eq_Some_iff) (auto simp: slotmap_ok_def o_def)

lemma slotmap_ok_new: "env_ok E \<Longrightarrow> slotmap_ok E (ht_new E)"
  using ht_iter_set [of E "ht_new E"] by (simp add: slotmap_ok_def hash_table_okD(1))

lemma sm_map_new: "env_ok E \<Longrightarrow> sm_map E (ht_new E) = Map.empty"
  using ht_iter_set [of E "ht_new E"] by (simp add: sm_map_def hash_table_okD(1))

lemma sm_find:
  assumes E: "env_ok E" and t: "slotmap_ok E t"
  shows "map_option se_slot (ht_find E t (local_table_hash E (hash_key E k)) (\<lambda>e. se_key e = k)) = sm_map E t k"
proof (cases "ht_find E t (local_table_hash E (hash_key E k)) (\<lambda>e. se_key e = k)")
  case None
  have "se_key e \<noteq> k" if "e \<in> set (ht_iter E t)" for e
  proof
    assume k: "se_key e = k"
    from that obtain h where h: "(h, e) \<in># ht_stored E t" by (auto simp: ht_iter_set [OF E])
    with t k have "h = local_table_hash E (hash_key E k)" by (fastforce simp: slotmap_ok_def)
    with h None k show False using hash_table_okD(5) [OF E] by blast
  qed
  then have "sm_map E t k = None"
    by (auto simp: sm_map_iff [OF t] simp flip: not_Some_eq)
  with None show ?thesis by simp
next
  case (Some e)
  from hash_table_okD(4) [OF E Some] have "e \<in> set (ht_iter E t)" "se_key e = k"
    by (auto simp: ht_iter_set [OF E])
  then have "sm_map E t k = Some (se_slot e)" by (auto simp: sm_map_iff [OF t])
  with Some show ?thesis by simp
qed

lemma sm_get_hashed_map [simp]:
  "env_ok E \<Longrightarrow> slotmap_ok E t \<Longrightarrow> sm_get_hashed E t (hash_key E k) k = sm_map E t k"
  by (simp add: sm_get_hashed_def sm_find)

lemma sm_get_map [simp]: "env_ok E \<Longrightarrow> slotmap_ok E t \<Longrightarrow> sm_get E t k = sm_map E t k"
  by (simp add: sm_get_def sm_find)

lemma sm_contains_key_map [simp]:
  "env_ok E \<Longrightarrow> slotmap_ok E t \<Longrightarrow> sm_contains_key E t k \<longleftrightarrow> sm_map E t k \<noteq> None"
  by (simp add: sm_contains_key_def)

lemma sm_contains_key_hashed_map [simp]:
  "env_ok E \<Longrightarrow> slotmap_ok E t \<Longrightarrow> sm_contains_key_hashed E t (hash_key E k) k \<longleftrightarrow> sm_map E t k \<noteq> None"
  by (simp add: sm_contains_key_hashed_def)

text \<open>How the iteration changes when the stored entries do.\<close>

lemma ht_iter_add:
  assumes "env_ok E" "ht_stored E t' = add_mset (h, e) (ht_stored E t)"
  shows "mset (ht_iter E t') = mset (e # ht_iter E t)"
  using assms by (simp add: hash_table_okD(2))

lemma ht_iter_del:
  assumes E: "env_ok E" and "(h, e) \<in># ht_stored E t" "ht_stored E t' = ht_stored E t - {#(h, e)#}"
  shows "mset (ht_iter E t') = mset (remove1 e (ht_iter E t))"
proof -
  have "image_mset snd (ht_stored E t) = add_mset e (image_mset snd (ht_stored E t'))"
    using assms(2,3) by (metis image_mset_add_mset insert_DiffM snd_conv)
  then show ?thesis by (simp add: hash_table_okD(2) [OF E])
qed

lemma mset_keys_distinct:
  "mset xs = mset ys \<Longrightarrow> distinct (map se_key xs) \<longleftrightarrow> distinct (map se_key ys)"
  by (rule mset_eq_imp_distinct_iff) simp

lemma slotmap_remove_entry:
  assumes E: "env_ok E" and t: "slotmap_ok E t" and h: "(h, e) \<in># ht_stored E t"
    and t': "ht_stored E t' = ht_stored E t - {#(h, e)#}"
  shows "slotmap_ok E t'" "sm_map E t' = (sm_map E t)(se_key e := None)"
proof -
  have d: "distinct (map se_key (ht_iter E t))" using t by (simp add: slotmap_ok_def)
  then have di: "distinct (ht_iter E t)" by (simp add: distinct_map)
  note m = ht_iter_del [OF E h t']
  have e: "e \<in> set (ht_iter E t)" using h by (auto simp: ht_iter_set [OF E] intro: rev_image_eqI)
  have set': "set (ht_iter E t') = set (ht_iter E t) - {e}"
    using di mset_eq_setD [OF m] by simp
  have "distinct (map se_key (remove1 e (ht_iter E t)))" 
    using d by (auto simp: distinct_map intro: inj_on_subset)
  then have "distinct (map se_key (ht_iter E t'))" using mset_keys_distinct [OF m] by simp
  with t t' show ok: "slotmap_ok E t'" by (auto simp: slotmap_ok_def dest: in_diffD)
  have inj: "x = e" if "x \<in> set (ht_iter E t)" "se_key x = se_key e" for x
    using d e that by (auto simp: distinct_map dest: inj_onD)
  show "sm_map E t' = (sm_map E t)(se_key e := None)"
  proof
    fix k
    have "sm_map E t' k = Some i \<longleftrightarrow> ((sm_map E t)(se_key e := None)) k = Some i" for i
      using inj by (auto simp: sm_map_iff [OF ok] sm_map_iff [OF t] set')
    then show "sm_map E t' k = ((sm_map E t)(se_key e := None)) k"
      by (metis option.exhaust)
  qed
qed

lemma slotmap_add_entry:
  assumes E: "env_ok E" and t: "slotmap_ok E t" and k: "sm_map E t (se_key e) = None"
    and e: "se_hash e = hash_key E (se_key e)" "h = local_table_hash E (se_hash e)"
    and t': "ht_stored E t' = add_mset (h, e) (ht_stored E t)"
  shows "slotmap_ok E t'" "sm_map E t' = (sm_map E t)(se_key e \<mapsto> se_slot e)"
proof -
  note m = ht_iter_add [OF E t']
  have set': "set (ht_iter E t') = insert e (set (ht_iter E t))" using mset_eq_setD [OF m] by simp
  have fresh: "se_key x \<noteq> se_key e" if "x \<in> set (ht_iter E t)" for x
    using k that by (metis option.distinct(1) sm_map_iff [OF t])
  have "distinct (map se_key (e # ht_iter E t))" using t fresh by (force simp: slotmap_ok_def)
  then have "distinct (map se_key (ht_iter E t'))" using mset_keys_distinct [OF m] by simp
  with t t' e show ok: "slotmap_ok E t'" by (auto simp: slotmap_ok_def)
  show "sm_map E t' = (sm_map E t)(se_key e \<mapsto> se_slot e)"
  proof
    fix k
    have "sm_map E t' k = Some i \<longleftrightarrow> ((sm_map E t)(se_key e \<mapsto> se_slot e)) k = Some i" for i
      using fresh by (auto simp: sm_map_iff [OF ok] sm_map_iff [OF t] set')
    then show "sm_map E t' k = ((sm_map E t)(se_key e \<mapsto> se_slot e)) k"
      by (metis option.exhaust)
  qed
qed

lemma sm_remove_map:
  assumes E: "env_ok E" and t: "slotmap_ok E t"
  shows "fst (sm_remove E t k) = sm_map E t k" "slotmap_ok E (snd (sm_remove E t k))"
    "sm_map E (snd (sm_remove E t k)) = (sm_map E t)(k := None)"
proof (atomize (full), cases "ht_find E t (local_table_hash E (hash_key E k)) (\<lambda>e. se_key e = k)")
  case None
  with sm_find [OF E t, of k] have "sm_map E t k = None" by simp
  with None t show "fst (sm_remove E t k) = sm_map E t k \<and> slotmap_ok E (snd (sm_remove E t k)) \<and>
      sm_map E (snd (sm_remove E t k)) = (sm_map E t)(k := None)"
    by (auto simp: sm_remove_def sm_remove_hashed_def hash_table_okD(8) [OF E] fun_eq_iff)
next
  case (Some e)
  from hash_table_okD(4) [OF E Some] have "se_key e = k" by simp
  moreover from hash_table_okD(9) [OF E Some] obtain h t' where
    "ht_remove E t (local_table_hash E (hash_key E k)) (\<lambda>e. se_key e = k) = Some (e, t')"
    "(h, e) \<in># ht_stored E t" "ht_stored E t' = ht_stored E t - {#(h, e)#}" by blast
  ultimately show "fst (sm_remove E t k) = sm_map E t k \<and> slotmap_ok E (snd (sm_remove E t k)) \<and>
      sm_map E (snd (sm_remove E t k)) = (sm_map E t)(k := None)"
    using slotmap_remove_entry [OF E t, of h e t'] sm_find [OF E t, of k] Some
    by (simp add: sm_remove_def sm_remove_hashed_def)
qed

lemma sm_insert_hashed_new:
  assumes E: "env_ok E" and t: "slotmap_ok E t" and k: "sm_map E t k = None"
  shows "fst (sm_insert_hashed E t (hash_key E k) k i) = None"
    "slotmap_ok E (snd (sm_insert_hashed E t (hash_key E k) k i))"
    "sm_map E (snd (sm_insert_hashed E t (hash_key E k) k i)) = (sm_map E t)(k \<mapsto> i)"
proof -
  let ?e = "\<lparr>se_hash = hash_key E k, se_key = k, se_slot = i\<rparr>"
  let ?h = "local_table_hash E (hash_key E k)"
  let ?hasher = "\<lambda>entry. local_table_hash E (se_hash entry)"
  have "ht_stored E (ht_insert_unique E t ?h ?e ?hasher) = add_mset (?h, ?e) (ht_stored E t)"
    by (rule hash_table_okD(6) [OF E]) (use t in \<open>auto simp: slotmap_ok_def\<close>)
  from slotmap_add_entry [OF E t _ _ _ this] k sm_find [OF E t, of k]
  show "fst (sm_insert_hashed E t (hash_key E k) k i) = None"
    "slotmap_ok E (snd (sm_insert_hashed E t (hash_key E k) k i))"
    "sm_map E (snd (sm_insert_hashed E t (hash_key E k) k i)) = (sm_map E t)(k \<mapsto> i)"
    by (simp_all add: sm_insert_hashed_def)
qed

section \<open>Object tables\<close>

text \<open>
  Every slot of the map holds an object, no two keys share a slot, and no object of the
  slab is unreachable.
\<close>

definition table_ok :: "('h, 't) env \<Rightarrow> 'h \<Rightarrow> 'o slab \<Rightarrow> bool" where
  "table_ok E t s \<longleftrightarrow>
     slotmap_ok E t \<and> slab_ok s \<and>
     (\<forall>k i. sm_map E t k = Some i \<longrightarrow> slab_get s i \<noteq> None) \<and>
     (\<forall>k k' i. sm_map E t k = Some i \<longrightarrow> sm_map E t k' = Some i \<longrightarrow> k = k') \<and>
     (\<forall>i. slab_get s i \<noteq> None \<longrightarrow> (\<exists>k. sm_map E t k = Some i))"

definition tbl :: "('h, 't) env \<Rightarrow> 'h \<Rightarrow> 'o slab \<Rightarrow> bytes \<rightharpoonup> 'o" where
  "tbl E t s k = Option.bind (sm_map E t k) (slab_get s)"

lemma table_ok_slotmap [simp]: "table_ok E t s \<Longrightarrow> slotmap_ok E t"
  by (simp add: table_ok_def)

lemma table_okI:
  assumes "slotmap_ok E t" "slab_ok s"
    "\<And>k i. sm_map E t k = Some i \<Longrightarrow> slab_get s i \<noteq> None"
    "\<And>k k' i. sm_map E t k = Some i \<Longrightarrow> sm_map E t k' = Some i \<Longrightarrow> k = k'"
    "\<And>i. slab_get s i \<noteq> None \<Longrightarrow> \<exists>k. sm_map E t k = Some i"
  shows "table_ok E t s"
  unfolding table_ok_def using assms by blast

lemma table_okD:
  assumes "table_ok E t s"
  shows "slotmap_ok E t" "slab_ok s"
    "sm_map E t k = Some i \<Longrightarrow> slab_get s i \<noteq> None"
    "sm_map E t k = Some i \<Longrightarrow> sm_map E t k' = Some i \<Longrightarrow> k = k'"
    "slab_get s i \<noteq> None \<Longrightarrow> \<exists>k. sm_map E t k = Some i"
  using assms unfolding table_ok_def by blast+

lemma table_ok_new: "env_ok E \<Longrightarrow> table_ok E (ht_new E) slab_new"
  by (simp add: table_ok_def slotmap_ok_new slab_ok_new sm_map_new)

lemma tbl_new: "env_ok E \<Longrightarrow> tbl E (ht_new E) slab_new = Map.empty"
  by (simp add: tbl_def sm_map_new fun_eq_iff)

lemma tbl_slot:
  assumes "table_ok E t s" "sm_map E t k = Some i"
  obtains v where "slab_get s i = Some v" "tbl E t s k = Some v"
proof -
  from assms obtain v where "slab_get s i = Some v" unfolding table_ok_def by blast
  with assms(2) show thesis by (intro that) (simp_all add: tbl_def)
qed

lemma tbl_None_iff: "table_ok E t s \<Longrightarrow> sm_map E t k = None \<longleftrightarrow> tbl E t s k = None"
proof (cases "sm_map E t k")
  case (Some i)
  moreover assume "table_ok E t s"
  ultimately obtain v where "tbl E t s k = Some v" by (auto elim: tbl_slot)
  with Some show ?thesis by simp
qed (simp add: tbl_def)

lemma tbl_Some_slot:
  assumes "tbl E t s k = Some v"
  obtains i where "sm_map E t k = Some i" "slab_get s i = Some v"
  using assms by (cases "sm_map E t k") (auto simp: tbl_def)

lemma tbl_put:
  assumes "table_ok E t s" "sm_map E t k = Some i"
  shows "table_ok E t (slab_put s i v)" "tbl E t (slab_put s i v) = (tbl E t s)(k \<mapsto> v)"
proof -
  from assms have i: "slab_get s i \<noteq> None" unfolding table_ok_def by blast
  note get = slab_get_put [OF i, of v]
  show "table_ok E t (slab_put s i v)"
  proof (rule table_okI, goal_cases)
    case (3 k' j)
    with table_okD(3) [OF assms(1)] show ?case by (auto simp: get)
  next
    case (4 k' k'' j)
    with table_okD(4) [OF assms(1)] show ?case by blast
  next
    case (5 j)
    with table_okD(5) [OF assms(1), of j] assms(2) show ?case by (auto simp: get split: if_splits)
  qed (use table_okD(1,2) [OF assms(1)] slab_put_ok [OF _ i] in simp_all)
  show "tbl E t (slab_put s i v) = (tbl E t s)(k \<mapsto> v)"
  proof
    fix k'
    show "tbl E t (slab_put s i v) k' = ((tbl E t s)(k \<mapsto> v)) k'"
    proof (cases "k' = k")
      case True
      with assms(2) show ?thesis by (simp add: tbl_def get)
    next
      case False
      with assms have "sm_map E t k' \<noteq> Some i" unfolding table_ok_def by blast
      with False show ?thesis by (cases "sm_map E t k'") (auto simp: tbl_def get)
    qed
  qed
qed

lemma tbl_create:
  assumes E: "env_ok E" and t: "table_ok E t s" and k: "tbl E t s k = None"
  obtains i s' where "slab_insert s v = Some (i, s')"
    "table_ok E (snd (sm_insert_hashed E t (hash_key E k) k i)) s'"
    "tbl E (snd (sm_insert_hashed E t (hash_key E k) k i)) s' = (tbl E t s)(k \<mapsto> v)"
proof -
  have sm: "slotmap_ok E t" "sm_map E t k = None" using t k by (simp_all add: tbl_None_iff)
  have "slab_ok s" using t by (simp add: table_ok_def)
  then obtain i s' where s': "slab_insert s v = Some (i, s')" "slab_ok s'" "slab_get s i = None"
    "slab_get s' = (slab_get s)(i \<mapsto> v)" by (rule slab_insert_ok)
  note ins = sm_insert_hashed_new [OF E sm, of i]
  have fresh: "sm_map E t k' \<noteq> Some i" for k' using t s'(3) unfolding table_ok_def by metis
  show thesis
  proof (rule that)
    show "slab_insert s v = Some (i, s')" by (rule s'(1))
    show "table_ok E (snd (sm_insert_hashed E t (hash_key E k) k i)) s'"
    proof (rule table_okI, goal_cases)
      case (3 k' j)
      then show ?case using table_okD(3) [OF t] by (auto simp: ins s'(4) split: if_splits)
    next
      case (4 k' k'' j)
      then show ?case using table_okD(4) [OF t] fresh by (auto simp: ins split: if_splits)
    next
      case (5 j)
      show ?case
      proof (cases "j = i")
        case True
        then show ?thesis by (intro exI [of _ k]) (simp add: ins)
      next
        case False
        with 5 have "slab_get s j \<noteq> None" by (simp add: s'(4))
        from table_okD(5) [OF t this] obtain k' where "sm_map E t k' = Some j" ..
        with sm(2) show ?thesis by (intro exI [of _ k']) (auto simp: ins)
      qed
    qed (use ins s' in simp_all)
    show "tbl E (snd (sm_insert_hashed E t (hash_key E k) k i)) s' = (tbl E t s)(k \<mapsto> v)"
    proof
      fix k'
      show "tbl E (snd (sm_insert_hashed E t (hash_key E k) k i)) s' k' = ((tbl E t s)(k \<mapsto> v)) k'"
        using fresh [of k'] by (cases "sm_map E t k'") (auto simp: tbl_def ins s'(4))
    qed
  qed
qed

lemma tbl_delete:
  assumes E: "env_ok E" and t: "table_ok E t s" and i: "sm_map E t k = Some i"
  shows "table_ok E (snd (sm_remove E t k)) (snd (slab_remove s i))"
    "tbl E (snd (sm_remove E t k)) (snd (slab_remove s i)) = (tbl E t s)(k := None)"
proof -
  have sm: "slotmap_ok E t" and "slab_ok s" using t by (simp_all add: table_ok_def)
  obtain v where "slab_get s i = Some v" using t i by (rule tbl_slot)
  note rm = slab_remove_ok [OF \<open>slab_ok s\<close> this] and sr = sm_remove_map [OF E sm, of k]
  have uniq: "k' = k" if "sm_map E t k' = Some i" for k'
    using t i that unfolding table_ok_def by blast
  show "table_ok E (snd (sm_remove E t k)) (snd (slab_remove s i))"
  proof (rule table_okI, goal_cases)
    case (3 k' j)
    then have "k' \<noteq> k" "sm_map E t k' = Some j" by (auto simp: sr split: if_splits)
    with uniq [of k'] table_okD(3) [OF t] show ?case by (auto simp: rm)
  next
    case (4 k' k'' j)
    then show ?case using table_okD(4) [OF t] by (auto simp: sr split: if_splits)
  next
    case (5 j)
    then have j: "j \<noteq> i" "slab_get s j \<noteq> None" by (auto simp: rm split: if_splits)
    from table_okD(5) [OF t j(2)] obtain k' where "sm_map E t k' = Some j" ..
    with i j(1) show ?case by (intro exI [of _ k']) (auto simp: sr)
  qed (simp_all add: sr rm)
  show "tbl E (snd (sm_remove E t k)) (snd (slab_remove s i)) = (tbl E t s)(k := None)"
  proof
    fix k'
    show "tbl E (snd (sm_remove E t k)) (snd (slab_remove s i)) k' = ((tbl E t s)(k := None)) k'"
      using uniq [of k'] by (cases "sm_map E t k'") (auto simp: tbl_def sr rm)
  qed
qed

lemma sm_keys_dom:
  assumes E: "env_ok E" and t: "table_ok E t s"
  shows "set (sm_keys E t) = dom (tbl E t s)" "distinct (sm_keys E t)"
proof -
  have sm: "slotmap_ok E t" using t by simp
  have "set (sm_keys E t) = dom (sm_map E t)"
    by (auto simp: sm_keys_def sm_map_iff [OF sm] dom_def)
  also have "\<dots> = dom (tbl E t s)" using tbl_None_iff [OF t] by (auto simp: dom_def)
  finally show "set (sm_keys E t) = dom (tbl E t s)" .
  show "distinct (sm_keys E t)" using sm by (simp add: sm_keys_def slotmap_ok_def)
qed

lemma sm_len_keys: "env_ok E \<Longrightarrow> sm_len E t = length (sm_keys E t)"
  using arg_cong [OF hash_table_okD(2) [of E t], of size]
  by (simp add: sm_len_def sm_keys_def hash_table_okD(3))

lemma sm_len_card: "env_ok E \<Longrightarrow> table_ok E t s \<Longrightarrow> sm_len E t = card (dom (tbl E t s))"
  using sm_keys_dom [of E t s] by (simp add: sm_len_keys distinct_card flip: sm_keys_dom(1))

end
