(* ===== verification/Ring.thy ===== *)
theory Ring
  imports Prelude
begin

text \<open>
  The two fixed-capacity circular buffers of the list object: \<^verbatim>\<open>ListChunk\<close>
  (\<^verbatim>\<open>list_chunk.rs\<close>, capacity 32) and \<^verbatim>\<open>SmallListDeque\<close> (\<^verbatim>\<open>list_deque.rs\<close>, capacity 8).
  The two structs have the same fields and, but for the capacity constant, the same
  method bodies; the model has one definition per method with the capacity as an argument,
  and the names of the smaller buffer are instances.
\<close>

section \<open>State\<close>

abbreviation SMALL_LIST_INLINE :: nat where "SMALL_LIST_INLINE \<equiv> 8"

abbreviation LIST_CHUNK_CAPACITY :: nat where "LIST_CHUNK_CAPACITY \<equiv> 32"

record 'a ring =
  entries :: "'a option list"
  head :: nat
  len :: nat


section \<open>Operations\<close>

definition ring_new :: "nat \<Rightarrow> 'a ring" where
  "ring_new cap = \<lparr>entries = replicate cap None, head = 0, len = 0\<rparr>"

definition ring_is_empty :: "'a ring \<Rightarrow> bool" where
  "ring_is_empty r \<longleftrightarrow> len r = 0"

definition ring_is_full :: "nat \<Rightarrow> 'a ring \<Rightarrow> bool" where
  "ring_is_full cap r \<longleftrightarrow> len r = cap"

definition physical_index :: "nat \<Rightarrow> 'a ring \<Rightarrow> nat \<Rightarrow> nat" where
  "physical_index cap r logical_index = (head r + logical_index) mod cap"

definition ring_get :: "nat \<Rightarrow> 'a ring \<Rightarrow> nat \<Rightarrow> 'a option" where
  "ring_get cap r index =
     (if index < len r then entries r ! physical_index cap r index else None)"

definition ring_set :: "nat \<Rightarrow> 'a ring \<Rightarrow> nat \<Rightarrow> 'a \<Rightarrow> 'a ring" where
  "ring_set cap r index v =
     r\<lparr>entries := (entries r)[physical_index cap r index := Some v]\<rparr>"

definition ring_push_front :: "nat \<Rightarrow> 'a ring \<Rightarrow> 'a \<Rightarrow> ('a + unit) \<times> 'a ring" where
  "ring_push_front cap r v =
     (if ring_is_full cap r then (Inl v, r)
      else let h = (if len r = 0 then 0 else (head r + cap - 1) mod cap)
           in (Inr (), r\<lparr>head := h, entries := (entries r)[h := Some v], len := len r + 1\<rparr>))"

definition ring_push_back :: "nat \<Rightarrow> 'a ring \<Rightarrow> 'a \<Rightarrow> ('a + unit) \<times> 'a ring" where
  "ring_push_back cap r v =
     (if ring_is_full cap r then (Inl v, r)
      else let index = physical_index cap r (len r)
           in (Inr (), r\<lparr>entries := (entries r)[index := Some v], len := len r + 1\<rparr>))"

definition ring_pop_front :: "nat \<Rightarrow> 'a ring \<Rightarrow> 'a option \<times> 'a ring" where
  "ring_pop_front cap r =
     (if len r = 0 then (None, r)
      else let v = entries r ! head r;
               h = (head r + 1) mod cap;
               n = len r - 1
           in (v, r\<lparr>entries := (entries r)[head r := None],
                    head := (if n = 0 then 0 else h), len := n\<rparr>))"

definition ring_pop_back :: "nat \<Rightarrow> 'a ring \<Rightarrow> 'a option \<times> 'a ring" where
  "ring_pop_back cap r =
     (if len r = 0 then (None, r)
      else let index = physical_index cap r (len r - 1);
               v = entries r ! index;
               n = len r - 1
           in (v, r\<lparr>entries := (entries r)[index := None],
                    head := (if n = 0 then 0 else head r), len := n\<rparr>))"

text \<open>The loop of \<^verbatim>\<open>take_all\<close>: each slot is taken, and a vacant slot panics.\<close>

fun ring_take_loop :: "nat \<Rightarrow> 'a ring \<Rightarrow> nat list \<Rightarrow> ('a list \<times> 'a ring) option" where
  "ring_take_loop cap r [] = Some ([], r)"
| "ring_take_loop cap r (index # is) =
     (let i = physical_index cap r index in
      case entries r ! i of
        None \<Rightarrow> None
      | Some v \<Rightarrow>
          (case ring_take_loop cap (r\<lparr>entries := (entries r)[i := None]\<rparr>) is of
             None \<Rightarrow> None
           | Some (vs, r') \<Rightarrow> Some (v # vs, r')))"

definition ring_take_all :: "nat \<Rightarrow> 'a ring \<Rightarrow> ('a list \<times> 'a ring) option" where
  "ring_take_all cap r =
     (case ring_take_loop cap r [0..<len r] of
        None \<Rightarrow> None
      | Some (vs, r') \<Rightarrow> Some (vs, r'\<lparr>head := 0, len := 0\<rparr>))"

text \<open>A \<^verbatim>\<open>for\<close> loop of \<^verbatim>\<open>push_back(..).expect(..)\<close> and of \<^verbatim>\<open>push_front(..).expect(..)\<close>.\<close>

fun ring_push_back_all :: "nat \<Rightarrow> 'a ring \<Rightarrow> 'a list \<Rightarrow> 'a ring option" where
  "ring_push_back_all cap r [] = Some r"
| "ring_push_back_all cap r (v # vs) =
     Option.bind (expect_ok (ring_push_back cap r v)) (\<lambda>r'. ring_push_back_all cap r' vs)"

fun ring_push_front_all :: "nat \<Rightarrow> 'a ring \<Rightarrow> 'a list \<Rightarrow> 'a ring option" where
  "ring_push_front_all cap r [] = Some r"
| "ring_push_front_all cap r (v # vs) =
     Option.bind (expect_ok (ring_push_front cap r v)) (\<lambda>r'. ring_push_front_all cap r' vs)"

definition chunk_remove :: "nat \<Rightarrow> 'a ring \<Rightarrow> nat \<Rightarrow> ('a option \<times> 'a ring) option" where
  "chunk_remove cap r index =
     (if len r \<le> index then Some (None, r)
      else do {
        (vs, r1) \<leftarrow> ring_take_all cap r;
        (v, vs') \<leftarrow> vec_remove index vs;
        r2 \<leftarrow> ring_push_back_all cap r1 vs';
        Some (Some v, r2)
      })"

text \<open>The iterator calls \<^verbatim>\<open>get\<close> at increasing indices until it returns nothing.\<close>

function ring_iter_from :: "nat \<Rightarrow> 'a ring \<Rightarrow> nat \<Rightarrow> 'a list" where
  "ring_iter_from cap r index =
     (case ring_get cap r index of
        None \<Rightarrow> []
      | Some v \<Rightarrow> v # ring_iter_from cap r (index + 1))"
  by pat_completeness auto
termination
  by (relation "measure (\<lambda>(cap, r, index). len r - index)")
    (auto simp: ring_get_def split: if_splits)

definition ring_iter :: "nat \<Rightarrow> 'a ring \<Rightarrow> 'a list" where
  "ring_iter cap r = ring_iter_from cap r 0"

declare ring_iter_from.simps [simp del]

section \<open>The small deque\<close>

definition deque_from_vec :: "'a list \<Rightarrow> 'a ring option" where
  "deque_from_vec vs = ring_push_back_all SMALL_LIST_INLINE (ring_new SMALL_LIST_INLINE) vs"

definition deque_insert :: "'a ring \<Rightarrow> nat \<Rightarrow> 'a \<Rightarrow> (('a + unit) \<times> 'a ring) option" where
  "deque_insert r index v =
     (if ring_is_full SMALL_LIST_INLINE r then Some (Inl v, r)
      else do {
        (vs, r1) \<leftarrow> ring_take_all SMALL_LIST_INLINE r;
        vs' \<leftarrow> vec_insert index v vs;
        r2 \<leftarrow> deque_from_vec vs';
        Some (Inr (), r2)
      })"

definition deque_remove :: "'a ring \<Rightarrow> nat \<Rightarrow> ('a option \<times> 'a ring) option" where
  "deque_remove r index =
     (if len r \<le> index then Some (None, r)
      else do {
        (vs, r1) \<leftarrow> ring_take_all SMALL_LIST_INLINE r;
        (v, vs') \<leftarrow> vec_remove index vs;
        r2 \<leftarrow> deque_from_vec vs';
        Some (Some v, r2)
      })"

definition push_values_small :: "'a ring \<Rightarrow> 'a list \<Rightarrow> bool \<Rightarrow> 'a ring option" where
  "push_values_small r vs front =
     (if front then ring_push_front_all SMALL_LIST_INLINE r vs
      else ring_push_back_all SMALL_LIST_INLINE r vs)"

text \<open>The methods of \<^verbatim>\<open>SmallListDeque\<close> that are instances at its capacity.\<close>

abbreviation deque_new :: "'a ring" where "deque_new \<equiv> ring_new SMALL_LIST_INLINE"

abbreviation deque_is_full :: "'a ring \<Rightarrow> bool" where
  "deque_is_full \<equiv> ring_is_full SMALL_LIST_INLINE"

abbreviation deque_get :: "'a ring \<Rightarrow> nat \<Rightarrow> 'a option" where
  "deque_get \<equiv> ring_get SMALL_LIST_INLINE"

abbreviation deque_set :: "'a ring \<Rightarrow> nat \<Rightarrow> 'a \<Rightarrow> 'a ring" where
  "deque_set \<equiv> ring_set SMALL_LIST_INLINE"

abbreviation deque_push_front :: "'a ring \<Rightarrow> 'a \<Rightarrow> ('a + unit) \<times> 'a ring" where
  "deque_push_front \<equiv> ring_push_front SMALL_LIST_INLINE"

abbreviation deque_push_back :: "'a ring \<Rightarrow> 'a \<Rightarrow> ('a + unit) \<times> 'a ring" where
  "deque_push_back \<equiv> ring_push_back SMALL_LIST_INLINE"

abbreviation deque_pop_front :: "'a ring \<Rightarrow> 'a option \<times> 'a ring" where
  "deque_pop_front \<equiv> ring_pop_front SMALL_LIST_INLINE"

abbreviation deque_pop_back :: "'a ring \<Rightarrow> 'a option \<times> 'a ring" where
  "deque_pop_back \<equiv> ring_pop_back SMALL_LIST_INLINE"

abbreviation deque_take_all :: "'a ring \<Rightarrow> ('a list \<times> 'a ring) option" where
  "deque_take_all \<equiv> ring_take_all SMALL_LIST_INLINE"

abbreviation deque_iter :: "'a ring \<Rightarrow> 'a list" where
  "deque_iter \<equiv> ring_iter SMALL_LIST_INLINE"


section \<open>Representation\<close>

text \<open>
  A buffer stands for the sequence \<open>xs\<close> when, read from its head, its slots hold exactly
  \<open>xs\<close> followed by vacant slots: in particular no slot outside the window keeps a value.
\<close>

definition ring_rep :: "nat \<Rightarrow> 'a ring \<Rightarrow> 'a list \<Rightarrow> bool" where
  "ring_rep cap r xs \<longleftrightarrow>
     length (entries r) = cap \<and> head r < cap \<and> len r = length xs \<and> length xs \<le> cap \<and>
     rotate (head r) (entries r) = map Some xs @ replicate (cap - length xs) None"

definition ring_inv :: "nat \<Rightarrow> 'a ring \<Rightarrow> bool" where
  "ring_inv cap r \<longleftrightarrow> (\<exists>xs. ring_rep cap r xs)"

locale ring_capacity =
  fixes cap :: nat
  assumes cap_pos: "0 < cap"
begin

lemma rep_new: "ring_rep cap (ring_new cap) []"
  using cap_pos by (simp add: ring_rep_def ring_new_def rotate_conv_mod [of 0])

lemma rep_len: "ring_rep cap r xs \<Longrightarrow> len r = length xs"
  by (simp add: ring_rep_def)

lemma rep_le: "ring_rep cap r xs \<Longrightarrow> length xs \<le> cap"
  by (simp add: ring_rep_def)

lemma rep_full: "ring_rep cap r xs \<Longrightarrow> ring_is_full cap r \<longleftrightarrow> length xs = cap"
  by (simp add: ring_rep_def ring_is_full_def)

lemma rep_slot:
  assumes "ring_rep cap r xs" "i < cap"
  shows "entries r ! physical_index cap r i = (if i < length xs then Some (xs ! i) else None)"
proof -
  have "entries r ! physical_index cap r i = rotate (head r) (entries r) ! i"
    using assms by (subst nth_rotate) (simp_all add: ring_rep_def physical_index_def)
  then show ?thesis
    using assms by (auto simp: ring_rep_def nth_append)
qed

lemma rep_get:
  assumes "ring_rep cap r xs"
  shows "ring_get cap r i = (if i < length xs then Some (xs ! i) else None)"
  using assms rep_slot [OF assms, of i] by (auto simp: ring_get_def ring_rep_def)

lemma rep_update:
  assumes "ring_rep cap r xs" "i < cap"
  shows "rotate (head r) ((entries r)[physical_index cap r i := v]) =
         (map Some xs @ replicate (cap - length xs) None)[i := v]"
  using assms rotate_update [of i "entries r" "head r" v]
  by (simp add: ring_rep_def physical_index_def)

lemma rep_set:
  assumes "ring_rep cap r xs" "i < length xs"
  shows "ring_rep cap (ring_set cap r i v) (xs[i := v])"
proof -
  have "i < cap" using assms by (simp add: ring_rep_def)
  from rep_update [OF assms(1) this, of "Some v"] show ?thesis
    using assms by (simp add: ring_rep_def ring_set_def list_update_append map_update)
qed

lemma rep_push_back:
  assumes "ring_rep cap r xs" "length xs < cap"
  obtains r' where "ring_push_back cap r v = (Inr (), r')" "ring_rep cap r' (xs @ [v])"
proof -
  have n: "len r = length xs" using assms by (simp add: ring_rep_def)
  from rep_update [OF assms, of "Some v"] assms n
  have "ring_rep cap (r\<lparr>entries := (entries r)[physical_index cap r (len r) := Some v],
                     len := len r + 1\<rparr>) (xs @ [v])"
    by (simp add: ring_rep_def list_update_append replicate_diff_Cons)
  moreover have "\<not> ring_is_full cap r" using assms n by (simp add: ring_is_full_def)
  ultimately show thesis by (intro that) (auto simp: ring_push_back_def Let_def)
qed

lemma rep_empty: "ring_rep cap r [] \<Longrightarrow> entries r = replicate cap None"
  by (rule rotate_eq_replicate [of "head r"]) (simp add: ring_rep_def)

lemma rep_vacant:
  "rotate h es = replicate cap None \<Longrightarrow> ring_rep cap \<lparr>entries = es, head = 0, len = 0\<rparr> []"
  using cap_pos rotate_eq_replicate [of h es cap None] by (simp add: ring_rep_def)

lemma rep_prev_head:
  assumes "ring_rep cap r xs" "xs \<noteq> []" "length xs < cap"
  shows "rotate ((head r + cap - 1) mod cap) (entries r) =
         None # map Some xs @ replicate (cap - Suc (length xs)) None"
proof -
  let ?h = "(head r + cap - 1) mod cap"
  have rot: "rotate (head r) (entries r) =
      (map Some xs @ replicate (cap - Suc (length xs)) None) @ [None]"
    using assms by (simp add: ring_rep_def replicate_diff_snoc)
  have "rotate1 (rotate ?h (entries r)) = rotate (Suc ?h mod cap) (entries r)"
    using assms by (simp add: rotate_mod ring_rep_def)
  also have "Suc ?h mod cap = head r"
    using assms cap_pos by (simp add: ring_rep_def mod_Suc_eq)
  finally have "rotate1 (rotate ?h (entries r)) =
      rotate1 (None # map Some xs @ replicate (cap - Suc (length xs)) None)"
    using rot by simp
  then show ?thesis using inj_rotate1 by (metis injD)
qed

lemma rep_push_front:
  assumes "ring_rep cap r xs" "length xs < cap"
  obtains r' where "ring_push_front cap r v = (Inr (), r')" "ring_rep cap r' (v # xs)"
proof -
  let ?h = "if len r = 0 then 0 else (head r + cap - 1) mod cap"
  let ?r = "r\<lparr>head := ?h, entries := (entries r)[?h := Some v], len := len r + 1\<rparr>"
  have n: "len r = length xs" and l: "length (entries r) = cap"
    using assms by (simp_all add: ring_rep_def)
  have h: "?h < cap" using cap_pos by simp
  have "rotate ?h (entries r) = None # map Some xs @ replicate (cap - Suc (length xs)) None"
  proof (cases "xs = []")
    case True
    with assms rep_empty [of r] n show ?thesis by (simp add: Suc_diff_Suc flip: replicate_Suc)
  next
    case False
    with rep_prev_head [OF assms(1) _ assms(2)] n show ?thesis by simp
  qed
  moreover have "rotate ?h ((entries r)[?h := Some v]) = (rotate ?h (entries r))[0 := Some v]"
    using rotate_update [of 0 "entries r" ?h "Some v"] h l cap_pos by simp
  ultimately have "ring_rep cap ?r (v # xs)"
    using assms n l h by (simp add: ring_rep_def)
  moreover have "\<not> ring_is_full cap r" using assms n by (simp add: ring_is_full_def)
  ultimately show thesis by (intro that) (auto simp: ring_push_front_def Let_def)
qed

lemma rep_pop_front_Nil: "ring_rep cap r [] \<Longrightarrow> ring_pop_front cap r = (None, r)"
  by (simp add: ring_rep_def ring_pop_front_def)

lemma rep_pop_back_Nil: "ring_rep cap r [] \<Longrightarrow> ring_pop_back cap r = (None, r)"
  by (simp add: ring_rep_def ring_pop_back_def)

lemma ring_eqI:
  "entries r = es \<Longrightarrow> head r = h \<Longrightarrow> len r = n \<Longrightarrow> r = \<lparr>entries = es, head = h, len = n\<rparr>"
  by simp

lemma rep_pop_front:
  assumes "ring_rep cap r (x # xs)"
  obtains r' where "ring_pop_front cap r = (Some x, r')" "ring_rep cap r' xs"
proof -
  have n: "len r = Suc (length xs)" and l: "length (entries r) = cap" and h: "head r < cap"
    using assms by (simp_all add: ring_rep_def)
  have p0: "physical_index cap r 0 = head r" using h by (simp add: physical_index_def)
  have v: "entries r ! head r = Some x"
    using rep_slot [OF assms cap_pos] p0 by simp
  let ?es = "(entries r)[head r := None]"
  have rot: "rotate (head r) ?es = None # map Some xs @ replicate (cap - Suc (length xs)) None"
    using rep_update [OF assms cap_pos, of None] p0 by simp
  have rot1: "rotate ((head r + 1) mod cap) ?es = map Some xs @ replicate (cap - length xs) None"
  proof -
    have "rotate ((head r + 1) mod cap) ?es = rotate1 (rotate (head r) ?es)"
      using l by (simp add: rotate_mod)
    also have "\<dots> = map Some xs @ replicate (cap - length xs) None"
      using rot n rep_le [OF assms] by (simp add: replicate_diff_snoc)
    finally show ?thesis .
  qed
  let ?r = "r\<lparr>entries := ?es, head := (if xs = [] then 0 else (head r + 1) mod cap),
              len := length xs\<rparr>"
  have "ring_rep cap ?r xs"
  proof (cases "xs = []")
    case True
    with rot1 have "?es = replicate cap None" by (metis (no_types) rotate_eq_replicate diff_zero append_Nil list.map(1) list.size(3))
    with True cap_pos show ?thesis by (simp add: ring_rep_def)
  next
    case False
    with rot1 l rep_le [OF assms] cap_pos show ?thesis by (simp add: ring_rep_def)
  qed
  moreover have "ring_pop_front cap r = (Some x, ?r)"
    using n v by (simp add: ring_pop_front_def)
  ultimately show thesis by (intro that)
qed

lemma rep_pop_back:
  assumes "ring_rep cap r (xs @ [x])"
  obtains r' where "ring_pop_back cap r = (Some x, r')" "ring_rep cap r' xs"
proof -
  have n: "len r = Suc (length xs)" and l: "length (entries r) = cap" and lt: "length xs < cap"
    using assms by (simp_all add: ring_rep_def)
  let ?i = "physical_index cap r (length xs)"
  let ?es = "(entries r)[?i := None]"
  have v: "entries r ! ?i = Some x" using rep_slot [OF assms lt] by simp
  have rot: "rotate (head r) ?es = map Some xs @ replicate (cap - length xs) None"
    using rep_update [OF assms lt, of None] lt
    by (simp add: list_update_append replicate_diff_Cons)
  let ?r = "r\<lparr>entries := ?es, head := (if xs = [] then 0 else head r), len := length xs\<rparr>"
  have "ring_rep cap ?r xs"
  proof (cases "xs = []")
    case True
    with rot have "?es = replicate cap None" by (metis (no_types) rotate_eq_replicate diff_zero append_Nil list.map(1) list.size(3))
    with True cap_pos show ?thesis by (simp add: ring_rep_def)
  next
    case False
    with rot l lt assms show ?thesis by (simp add: ring_rep_def)
  qed
  moreover have "ring_pop_back cap r = (Some x, ?r)"
    using n v by (simp add: ring_pop_back_def Let_def)
  ultimately show thesis by (intro that)
qed

text \<open>Taking everything out leaves a vacant buffer, and never meets a vacant slot.\<close>

lemma take_loop:
  assumes "head r = h" "length (entries r) = cap" "k + length ys \<le> cap"
    and "\<And>i. i < length ys \<Longrightarrow> entries r ! ((h + (k + i)) mod cap) = Some (ys ! i)"
  shows "\<exists>es. ring_take_loop cap r [k..<k + length ys] = Some (ys, r\<lparr>entries := es\<rparr>) \<and>
     length es = cap \<and>
     (\<forall>j<cap. es ! ((h + j) mod cap) =
        (if k \<le> j \<and> j < k + length ys then None else entries r ! ((h + j) mod cap)))"
  using assms
proof (induction ys arbitrary: r k)
  case Nil
  then show ?case by (auto intro: exI [of _ "entries r"])
next
  case (Cons y ys)
  let ?i = "(h + k) mod cap"
  let ?r = "r\<lparr>entries := (entries r)[?i := None]\<rparr>"
  have y: "entries r ! ?i = Some y" using Cons.prems(4) [of 0] by simp
  have i: "?i < length (entries r)" using Cons.prems(2) cap_pos by simp
  have "entries ?r ! ((h + (Suc k + i)) mod cap) = Some (ys ! i)" if "i < length ys" for i
    using that Cons.prems(3) Cons.prems(4) [of "Suc i"] mod_shift_eq_iff [of k cap "Suc k + i" h]
    by simp
  from Cons.IH [of ?r "Suc k", OF _ _ _ this] Cons.prems
  obtain es where es: "ring_take_loop cap ?r [Suc k..<Suc k + length ys] = Some (ys, ?r\<lparr>entries := es\<rparr>)"
    "length es = cap"
    "\<forall>j<cap. es ! ((h + j) mod cap) =
        (if Suc k \<le> j \<and> j < Suc k + length ys then None else entries ?r ! ((h + j) mod cap))"
    by auto
  have "[k..<k + length (y # ys)] = k # [Suc k..<Suc k + length ys]"
    by (subst upt_conv_Cons) simp_all
  then have "ring_take_loop cap r [k..<k + length (y # ys)] = Some (y # ys, r\<lparr>entries := es\<rparr>)"
    using es(1) y Cons.prems(1) by (simp add: physical_index_def)
  moreover have "es ! ((h + j) mod cap) =
        (if k \<le> j \<and> j < k + length (y # ys) then None else entries r ! ((h + j) mod cap))"
    if "j < cap" for j
    using es(3) that i Cons.prems(3) mod_shift_eq_iff [of k cap j h]
    by (cases "j = k") auto
  ultimately show ?case using es(2) by blast
qed

lemma rep_take_all:
  assumes "ring_rep cap r xs"
  obtains r' where "ring_take_all cap r = Some (xs, r')" "ring_rep cap r' []"
proof -
  have "entries r ! ((head r + (0 + i)) mod cap) = Some (xs ! i)" if "i < length xs" for i
    using rep_slot [OF assms, of i] that rep_le [OF assms] by (simp add: physical_index_def)
  from take_loop [of r "head r" 0 xs, OF _ _ _ this] assms
  obtain es where es: "ring_take_loop cap r [0..<length xs] = Some (xs, r\<lparr>entries := es\<rparr>)"
    "length es = cap"
    "\<forall>j<cap. es ! ((head r + j) mod cap) =
        (if 0 \<le> j \<and> j < 0 + length xs then None else entries r ! ((head r + j) mod cap))"
    by (auto simp: ring_rep_def)
  have "rotate (head r) es = replicate cap None"
  proof (rule nth_equalityI)
    show "length (rotate (head r) es) = length (replicate cap None)" using es(2) by simp
  next
    fix j
    assume "j < length (rotate (head r) es)"
    then have j: "j < cap" using es(2) by simp
    with es rep_slot [OF assms j] show "rotate (head r) es ! j = replicate cap None ! j"
      by (subst nth_rotate) (auto simp: physical_index_def)
  qed
  from rep_vacant [OF this] es(1) rep_len [OF assms] show thesis
    by (intro that [of "r\<lparr>entries := es, head := 0, len := 0\<rparr>"]) (simp_all add: ring_take_all_def ring_rep_def)
qed

lemma push_back_all:
  assumes "ring_rep cap r xs" "length xs + length vs \<le> cap"
  obtains r' where "ring_push_back_all cap r vs = Some r'" "ring_rep cap r' (xs @ vs)"
  using assms
proof (induction vs arbitrary: r xs thesis)
  case Nil
  then show ?case by simp
next
  case (Cons v vs)
  from Cons.prems have "length xs < cap" by simp
  then obtain r1 where r1: "ring_push_back cap r v = (Inr (), r1)" "ring_rep cap r1 (xs @ [v])"
    using rep_push_back Cons.prems(2) by metis
  from Cons.prems(3) have "length (xs @ [v]) + length vs \<le> cap" by simp
  then obtain r2 where "ring_push_back_all cap r1 vs = Some r2" "ring_rep cap r2 ((xs @ [v]) @ vs)"
    using Cons.IH r1(2) by metis
  with r1(1) show ?case by (intro Cons.prems(1) [of r2]) simp_all
qed

lemma push_front_all:
  assumes "ring_rep cap r xs" "length xs + length vs \<le> cap"
  obtains r' where "ring_push_front_all cap r vs = Some r'" "ring_rep cap r' (rev vs @ xs)"
  using assms
proof (induction vs arbitrary: r xs thesis)
  case Nil
  then show ?case by simp
next
  case (Cons v vs)
  from Cons.prems have "length xs < cap" by simp
  then obtain r1 where r1: "ring_push_front cap r v = (Inr (), r1)" "ring_rep cap r1 (v # xs)"
    using rep_push_front Cons.prems(2) by metis
  from Cons.prems(3) have "length (v # xs) + length vs \<le> cap" by simp
  then obtain r2 where "ring_push_front_all cap r1 vs = Some r2" "ring_rep cap r2 (rev vs @ v # xs)"
    using Cons.IH r1(2) by metis
  with r1(1) show ?case by (intro Cons.prems(1) [of r2]) simp_all
qed

lemma rep_chunk_remove:
  assumes "ring_rep cap r xs" "i < length xs"
  obtains r' where "chunk_remove cap r i = Some (Some (xs ! i), r')"
    "ring_rep cap r' (take i xs @ drop (Suc i) xs)"
proof -
  obtain r1 where r1: "ring_take_all cap r = Some (xs, r1)" "ring_rep cap r1 []"
    using rep_take_all assms(1) by metis
  have "length [] + length (take i xs @ drop (Suc i) xs) \<le> cap"
    using rep_le [OF assms(1)] assms(2) by simp
  then obtain r2 where "ring_push_back_all cap r1 (take i xs @ drop (Suc i) xs) = Some r2"
    "ring_rep cap r2 ([] @ take i xs @ drop (Suc i) xs)"
    using push_back_all [OF r1(2)] by metis
  with r1 assms rep_len [OF assms(1)] show thesis
    by (intro that [of r2]) (simp_all add: chunk_remove_def)
qed

lemma rep_iter_from: "ring_rep cap r xs \<Longrightarrow> ring_iter_from cap r i = drop i xs"
proof (induction "length xs - i" arbitrary: i)
  case 0
  then show ?case by (subst ring_iter_from.simps) (simp add: rep_get)
next
  case (Suc n)
  then have "ring_iter_from cap r (Suc i) = drop (Suc i) xs" by simp
  with Suc show ?case by (subst ring_iter_from.simps) (simp add: rep_get Cons_nth_drop_Suc)
qed

lemma rep_iter: "ring_rep cap r xs \<Longrightarrow> ring_iter cap r = xs"
  by (simp add: ring_iter_def rep_iter_from)

lemma rep_iter_iff: "ring_inv cap r \<longleftrightarrow> ring_rep cap r (ring_iter cap r)"
  by (auto simp: ring_inv_def rep_iter)

end

interpretation chunk: ring_capacity LIST_CHUNK_CAPACITY
  by unfold_locales simp

interpretation deque: ring_capacity SMALL_LIST_INLINE
  by unfold_locales simp

section \<open>The small deque as a sequence\<close>

lemma deque_from_vec_rep:
  assumes "length vs \<le> SMALL_LIST_INLINE"
  obtains r where "deque_from_vec vs = Some r" "ring_rep SMALL_LIST_INLINE r vs"
  using deque.push_back_all [OF deque.rep_new, of vs] assms by (auto simp: deque_from_vec_def)

lemma deque_insert_rep:
  assumes "ring_rep SMALL_LIST_INLINE r xs" "length xs < SMALL_LIST_INLINE" "i \<le> length xs"
  obtains r' where "deque_insert r i v = Some (Inr (), r')"
    "ring_rep SMALL_LIST_INLINE r' (take i xs @ v # drop i xs)"
proof -
  obtain r1 where "ring_take_all SMALL_LIST_INLINE r = Some (xs, r1)"
    using deque.rep_take_all assms(1) by metis
  moreover obtain r2 where "deque_from_vec (take i xs @ v # drop i xs) = Some r2"
    "ring_rep SMALL_LIST_INLINE r2 (take i xs @ v # drop i xs)"
    using deque_from_vec_rep [of "take i xs @ v # drop i xs"] assms(2,3) by auto
  ultimately show thesis using assms deque.rep_full [OF assms(1)]
    by (intro that [of r2]) (simp_all add: deque_insert_def)
qed

lemma deque_remove_rep:
  assumes "ring_rep SMALL_LIST_INLINE r xs" "i < length xs"
  obtains r' where "deque_remove r i = Some (Some (xs ! i), r')"
    "ring_rep SMALL_LIST_INLINE r' (take i xs @ drop (Suc i) xs)"
proof -
  obtain r1 where "ring_take_all SMALL_LIST_INLINE r = Some (xs, r1)"
    using deque.rep_take_all assms(1) by metis
  moreover have "length (take i xs @ drop (Suc i) xs) \<le> SMALL_LIST_INLINE"
    using assms(2) deque.rep_le [OF assms(1)] by simp
  then obtain r2 where "deque_from_vec (take i xs @ drop (Suc i) xs) = Some r2"
    "ring_rep SMALL_LIST_INLINE r2 (take i xs @ drop (Suc i) xs)"
    by (rule deque_from_vec_rep)
  ultimately show thesis using assms deque.rep_len [OF assms(1)]
    by (intro that [of r2]) (simp_all add: deque_remove_def)
qed

lemma push_values_small_rep:
  assumes "ring_rep SMALL_LIST_INLINE r xs" "length xs + length vs \<le> SMALL_LIST_INLINE"
  obtains r' where "push_values_small r vs front = Some r'"
    "ring_rep SMALL_LIST_INLINE r' (if front then rev vs @ xs else xs @ vs)"
proof (cases front)
  case True
  with deque.push_front_all [OF assms] that show thesis by (simp add: push_values_small_def) metis
next
  case False
  with deque.push_back_all [OF assms] that show thesis by (simp add: push_values_small_def) metis
qed

end
