(* ===== verification/Sequence.thy ===== *)
theory Sequence
  imports Prelude
begin

text \<open>
  The interface between the list commands (\<^verbatim>\<open>bucket_list.rs\<close>) and the structures that store
  a list. The loops of the commands (\<^verbatim>\<open>pop_list_count\<close>, \<^verbatim>\<open>lrem\<close>, \<^verbatim>\<open>ltrim\<close>) are written over
  the operations they call; the locale \<open>sequence\<close> states what those operations promise,
  and the loops are verified against it once.
\<close>

section \<open>Reference functions on lists\<close>

text \<open>Remove the first \<open>n\<close> occurrences of a value.\<close>

fun remove_first :: "nat \<Rightarrow> 'a \<Rightarrow> 'a list \<Rightarrow> 'a list" where
  "remove_first n v [] = []"
| "remove_first n v (x # xs) =
     (case n of
        0 \<Rightarrow> x # xs
      | Suc m \<Rightarrow> if x = v then remove_first m v xs else x # remove_first n v xs)"

definition remove_last :: "nat \<Rightarrow> 'a \<Rightarrow> 'a list \<Rightarrow> 'a list" where
  "remove_last n v xs = rev (remove_first n v (rev xs))"

definition push_list_spec :: "'a list \<Rightarrow> 'a list \<Rightarrow> bool \<Rightarrow> 'a list" where
  "push_list_spec xs vs front = (if front then rev vs @ xs else xs @ vs)"

lemma remove_first_0 [simp]: "remove_first 0 v xs = xs"
  by (cases xs) simp_all

lemma remove_first_all: "length xs \<le> n \<Longrightarrow> remove_first n v xs = filter (\<lambda>x. x \<noteq> v) xs"
proof (induction xs arbitrary: n)
  case (Cons x xs)
  then obtain m where "n = Suc m" by (cases n) auto
  with Cons.prems Cons.IH [of m] Cons.IH [of n] show ?case by simp
qed simp

lemma remove_first_notin: "v \<notin> set xs \<Longrightarrow> remove_first n v xs = xs"
  by (induction xs) (auto split: nat.split)

lemma remove_first_append:
  "v \<notin> set xs \<Longrightarrow> remove_first n v (xs @ ys) = xs @ remove_first n v ys"
  by (induction xs) (auto split: nat.split)

lemma length_remove_first:
  "length (remove_first n v xs) = length xs - min n (count_list xs v)"
proof (induction xs arbitrary: n)
  case (Cons x xs)
  have "count_list xs v \<le> length xs" by (rule count_le_length)
  with Cons.IH show ?case by (auto split: nat.split simp: min_def)
qed simp

lemma remove_last_eqI: "remove_first n v (rev xs) = rev ys \<Longrightarrow> remove_last n v xs = ys"
  by (simp add: remove_last_def)

section \<open>The loops of the list commands\<close>

text \<open>\<^verbatim>\<open>for _ in 0..count { let Some(value) = pop() else { break }; values.push(value) }\<close>\<close>

fun pop_count_loop :: "('s \<Rightarrow> ('a option \<times> 's) option) \<Rightarrow> nat \<Rightarrow> 's \<Rightarrow> ('a list \<times> 's) option" where
  "pop_count_loop pop 0 s = Some ([], s)"
| "pop_count_loop pop (Suc n) s =
     (case pop s of
        None \<Rightarrow> None
      | Some (None, s') \<Rightarrow> Some ([], s')
      | Some (Some v, s') \<Rightarrow>
          (case pop_count_loop pop n s' of
             None \<Rightarrow> None
           | Some (vs, s'') \<Rightarrow> Some (v # vs, s'')))"

text \<open>\<^verbatim>\<open>for _ in 0..start { list.pop_front(); }\<close>\<close>

fun pop_times :: "('s \<Rightarrow> ('a option \<times> 's) option) \<Rightarrow> nat \<Rightarrow> 's \<Rightarrow> 's option" where
  "pop_times pop 0 s = Some s"
| "pop_times pop (Suc n) s = Option.bind (pop s) (\<lambda>(_, s'). pop_times pop n s')"

text \<open>\<^verbatim>\<open>while list.len() > keep { list.pop_back(); }\<close>\<close>

partial_function (option) pop_while_longer ::
  "('s \<Rightarrow> ('a option \<times> 's) option) \<Rightarrow> ('s \<Rightarrow> nat) \<Rightarrow> nat \<Rightarrow> 's \<Rightarrow> 's option" where
  "pop_while_longer pop len keep s =
     (if len s > keep
      then Option.bind (pop s) (\<lambda>r. pop_while_longer pop len keep (snd r))
      else Some s)"

text \<open>The two scans of \<^verbatim>\<open>lrem\<close>; the result is \<open>removed\<close> and the list.\<close>

partial_function (option) lrem_forward ::
  "('s \<Rightarrow> nat \<Rightarrow> 'a option) \<Rightarrow> ('s \<Rightarrow> nat \<Rightarrow> ('a option \<times> 's) option) \<Rightarrow> ('s \<Rightarrow> nat) \<Rightarrow>
   'a \<Rightarrow> nat \<Rightarrow> nat \<Rightarrow> nat \<Rightarrow> 's \<Rightarrow> (nat \<times> 's) option" where
  "lrem_forward get rem len v limit index removed s =
     (if index < len s \<and> removed < limit
      then if get s index = Some v
           then Option.bind (rem s index)
                  (\<lambda>r. lrem_forward get rem len v limit index (removed + 1) (snd r))
           else lrem_forward get rem len v limit (index + 1) removed s
      else Some (removed, s))"

fun lrem_backward ::
  "('s \<Rightarrow> nat \<Rightarrow> 'a option) \<Rightarrow> ('s \<Rightarrow> nat \<Rightarrow> ('a option \<times> 's) option) \<Rightarrow>
   'a \<Rightarrow> nat \<Rightarrow> nat \<Rightarrow> nat \<Rightarrow> 's \<Rightarrow> (nat \<times> 's) option" where
  "lrem_backward get rem v limit 0 removed s = Some (removed, s)"
| "lrem_backward get rem v limit (Suc index) removed s =
     (if removed < limit
      then if get s index = Some v
           then Option.bind (rem s index)
                  (\<lambda>r. lrem_backward get rem v limit index (removed + 1) (snd r))
           else lrem_backward get rem v limit index removed s
      else Some (removed, s))"

section \<open>The interface\<close>

locale sequence =
  fixes rep :: "'s \<Rightarrow> 'a list \<Rightarrow> bool"
    and push_values :: "'s \<Rightarrow> 'a list \<Rightarrow> bool \<Rightarrow> 's option"
    and pop_front :: "'s \<Rightarrow> ('a option \<times> 's) option"
    and pop_back :: "'s \<Rightarrow> ('a option \<times> 's) option"
    and get :: "'s \<Rightarrow> nat \<Rightarrow> 'a option"
    and set_at :: "'s \<Rightarrow> nat \<Rightarrow> 'a \<Rightarrow> 's option"
    and insert_at :: "'s \<Rightarrow> nat \<Rightarrow> 'a \<Rightarrow> 's option"
    and remove_at :: "'s \<Rightarrow> nat \<Rightarrow> ('a option \<times> 's) option"
    and iter :: "'s \<Rightarrow> 'a list"
    and size_of :: "'s \<Rightarrow> nat"
  assumes rep_iter: "rep s xs \<Longrightarrow> iter s = xs"
    and rep_size: "rep s xs \<Longrightarrow> size_of s = length xs"
    and rep_get: "rep s xs \<Longrightarrow> get s i = (if i < length xs then Some (xs ! i) else None)"
    and rep_push: "rep s xs \<Longrightarrow>
          \<exists>s'. push_values s vs front = Some s' \<and> rep s' (push_list_spec xs vs front)"
    and rep_pop_front: "rep s xs \<Longrightarrow>
          \<exists>s'. pop_front s = Some (if xs = [] then None else Some (hd xs), s') \<and> rep s' (tl xs)"
    and rep_pop_back: "rep s xs \<Longrightarrow>
          \<exists>s'. pop_back s = Some (if xs = [] then None else Some (last xs), s') \<and> rep s' (butlast xs)"
    and rep_set: "rep s xs \<Longrightarrow> i < length xs \<Longrightarrow>
          \<exists>s'. set_at s i v = Some s' \<and> rep s' (xs[i := v])"
    and rep_insert: "rep s xs \<Longrightarrow> i \<le> length xs \<Longrightarrow>
          \<exists>s'. insert_at s i v = Some s' \<and> rep s' (take i xs @ v # drop i xs)"
    and rep_remove: "rep s xs \<Longrightarrow> i < length xs \<Longrightarrow>
          \<exists>s'. remove_at s i = Some (Some (xs ! i), s') \<and> rep s' (take i xs @ drop (Suc i) xs)"
begin

lemma pop_count_front:
  "rep s xs \<Longrightarrow> \<exists>s'. pop_count_loop pop_front n s = Some (take n xs, s') \<and> rep s' (drop n xs)"
proof (induction n arbitrary: s xs)
  case 0
  then show ?case by simp
next
  case (Suc n)
  obtain s' where s': "pop_front s = Some (if xs = [] then None else Some (hd xs), s')"
    "rep s' (tl xs)" using rep_pop_front [OF Suc.prems] by blast
  from Suc.IH [OF s'(2)] s' show ?case by (cases xs) auto
qed

lemma pop_count_back:
  "rep s xs \<Longrightarrow> \<exists>s'. pop_count_loop pop_back n s = Some (take n (rev xs), s') \<and>
     rep s' (take (length xs - n) xs)"
proof (induction n arbitrary: s xs)
  case 0
  then show ?case by simp
next
  case (Suc n)
  obtain s' where s': "pop_back s = Some (if xs = [] then None else Some (last xs), s')"
    "rep s' (butlast xs)" using rep_pop_back [OF Suc.prems] by blast
  from Suc.IH [OF s'(2)] s' show ?case by (cases xs rule: rev_cases) auto
qed

lemma pop_times_front:
  "rep s xs \<Longrightarrow> \<exists>s'. pop_times pop_front n s = Some s' \<and> rep s' (drop n xs)"
proof (induction n arbitrary: s xs)
  case 0
  then show ?case by simp
next
  case (Suc n)
  obtain s' where s': "pop_front s = Some (if xs = [] then None else Some (hd xs), s')"
    "rep s' (tl xs)" using rep_pop_front [OF Suc.prems] by blast
  from Suc.IH [OF s'(2)] s' show ?case by (cases xs) auto
qed

lemma pop_while_longer_back:
  "rep s xs \<Longrightarrow> \<exists>s'. pop_while_longer pop_back size_of keep s = Some s' \<and> rep s' (take keep xs)"
proof (induction xs arbitrary: s rule: rev_induct)
  case Nil
  then show ?case by (simp add: pop_while_longer.simps rep_size)
next
  case (snoc x xs)
  obtain s' where "pop_back s = Some (Some x, s')" "rep s' xs"
    using rep_pop_back [OF snoc.prems] by auto
  with snoc.IH [of s'] snoc.prems show ?case
    by (cases "keep \<le> length xs") (simp_all add: pop_while_longer.simps [of _ _ _ s] rep_size)
qed

lemma ltrim_loop:
  assumes "rep s xs"
  shows "\<exists>s'. Option.bind (pop_times pop_front start s) (pop_while_longer pop_back size_of keep) = Some s'
    \<and> rep s' (take keep (drop start xs))"
proof -
  obtain s1 where "pop_times pop_front start s = Some s1" "rep s1 (drop start xs)"
    using pop_times_front [OF assms] by blast
  with pop_while_longer_back [of s1 "drop start xs" keep] show ?thesis by simp
qed

text \<open>The forward scan keeps a prefix free of the value and has the rest to look at.\<close>

lemma lrem_forward_scan:
  assumes "rep s (ys @ zs)" "removed \<le> limit"
  shows "\<exists>s'. lrem_forward get remove_at size_of v limit (length ys) removed s =
           Some (removed + min (limit - removed) (count_list zs v), s') \<and>
           rep s' (ys @ remove_first (limit - removed) v zs)"
  using assms
proof (induction zs arbitrary: s ys removed)
  case Nil
  then show ?case by (simp add: lrem_forward.simps rep_size)
next
  case (Cons z zs)
  have g: "get s (length ys) = Some z" using Cons.prems(1) by (simp add: rep_get)
  have n: "size_of s = length ys + Suc (length zs)" using Cons.prems(1) by (simp add: rep_size)
  show ?case
  proof (cases "removed < limit")
    case False
    with Cons.prems show ?thesis by (simp add: lrem_forward.simps [of _ _ _ _ _ _ _ s])
  next
    case True
    then obtain m where m: "limit - removed = Suc m" "limit - Suc removed = m"
      by (cases "limit - removed") auto
    show ?thesis
    proof (cases "z = v")
      case True
      obtain s' where s': "remove_at s (length ys) = Some (Some z, s')" "rep s' (ys @ zs)"
        using rep_remove [OF Cons.prems(1), of "length ys"] by auto
      from Cons.IH [OF s'(2), of "Suc removed"] \<open>removed < limit\<close> s'(1) m g n True
      show ?thesis by (auto simp: lrem_forward.simps [of _ _ _ _ _ _ _ s])
    next
      case False
      have "rep s ((ys @ [z]) @ zs)" using Cons.prems(1) by simp
      from Cons.IH [OF this Cons.prems(2)] \<open>removed < limit\<close> m g n False
      show ?thesis by (auto simp: lrem_forward.simps [of _ _ _ _ _ _ _ s])
    qed
  qed
qed

lemma lrem_backward_scan:
  assumes "rep s (ys @ zs)" "removed \<le> limit"
  shows "\<exists>s'. lrem_backward get remove_at v limit (length ys) removed s =
           Some (removed + min (limit - removed) (count_list ys v), s') \<and>
           rep s' (remove_last (limit - removed) v ys @ zs)"
  using assms
proof (induction ys arbitrary: s zs removed rule: rev_induct)
  case Nil
  then show ?case by (simp add: remove_last_def)
next
  case (snoc y ys)
  have g: "get s (length ys) = Some y" using snoc.prems(1) by (simp add: rep_get nth_append)
  show ?case
  proof (cases "removed < limit")
    case False
    with snoc.prems show ?thesis by (simp add: remove_last_def)
  next
    case True
    then obtain m where m: "limit - removed = Suc m" "limit - Suc removed = m"
      by (cases "limit - removed") auto
    show ?thesis
    proof (cases "y = v")
      case True
      obtain s' where s': "remove_at s (length ys) = Some (Some y, s')" "rep s' (ys @ zs)"
        using rep_remove [OF snoc.prems(1), of "length ys"] by (auto simp: nth_append)
      from snoc.IH [OF s'(2), of "Suc removed"] \<open>removed < limit\<close> s'(1) m g True
      show ?thesis by (auto simp: remove_last_def)
    next
      case False
      have "rep s (ys @ y # zs)" using snoc.prems(1) by simp
      from snoc.IH [OF this snoc.prems(2)] \<open>removed < limit\<close> m g False
      show ?thesis by (auto simp: remove_last_def)
    qed
  qed
qed

lemmas lrem_forward_all = lrem_forward_scan [of _ "[]", simplified]

lemmas lrem_backward_all = lrem_backward_scan [of _ _ "[]", simplified]

end

end
