(* ===== verification/Segmented.thy ===== *)
theory Segmented
  imports Ring Sequence
begin

text \<open>
  \<^verbatim>\<open>SegmentedList\<close> (\<^verbatim>\<open>segmented_list.rs\<close>): a deque of circular chunks of capacity 32 with a
  cached total length. The theory gives every method and shows that the structure is a
  sequence: each operation acts on the concatenation of the chunks as on a list, and no
  \<^verbatim>\<open>expect\<close> or length subtraction panics.
\<close>

section \<open>State and operations\<close>

record 'a segmented =
  chunks :: "'a ring list"
  seg_len :: nat

text \<open>\<^verbatim>\<open>with_capacity\<close> only reserves memory for the chunk deque.\<close>

definition seg_new :: "'a segmented" where
  "seg_new = \<lparr>chunks = [], seg_len = 0\<rparr>"

definition seg_push_front :: "'a segmented \<Rightarrow> 'a \<Rightarrow> 'a segmented option" where
  "seg_push_front s v =
     (case chunks s of
        c # cs \<Rightarrow>
          if \<not> ring_is_full LIST_CHUNK_CAPACITY c
          then do {
            c' \<leftarrow> expect_ok (ring_push_front LIST_CHUNK_CAPACITY c v);
            Some (s\<lparr>chunks := c' # cs, seg_len := seg_len s + 1\<rparr>)
          }
          else do {
            c' \<leftarrow> expect_ok (ring_push_front LIST_CHUNK_CAPACITY (ring_new LIST_CHUNK_CAPACITY) v);
            Some (s\<lparr>chunks := c' # c # cs, seg_len := seg_len s + 1\<rparr>)
          }
      | [] \<Rightarrow> do {
            c' \<leftarrow> expect_ok (ring_push_front LIST_CHUNK_CAPACITY (ring_new LIST_CHUNK_CAPACITY) v);
            Some (s\<lparr>chunks := [c'], seg_len := seg_len s + 1\<rparr>)
          })"

definition seg_push_back :: "'a segmented \<Rightarrow> 'a \<Rightarrow> 'a segmented option" where
  "seg_push_back s v =
     (if chunks s \<noteq> [] \<and> \<not> ring_is_full LIST_CHUNK_CAPACITY (last (chunks s))
      then do {
        c' \<leftarrow> expect_ok (ring_push_back LIST_CHUNK_CAPACITY (last (chunks s)) v);
        Some (s\<lparr>chunks := butlast (chunks s) @ [c'], seg_len := seg_len s + 1\<rparr>)
      }
      else do {
        c' \<leftarrow> expect_ok (ring_push_back LIST_CHUNK_CAPACITY (ring_new LIST_CHUNK_CAPACITY) v);
        Some (s\<lparr>chunks := chunks s @ [c'], seg_len := seg_len s + 1\<rparr>)
      })"

text \<open>\<^verbatim>\<open>for\<close> loops of \<^verbatim>\<open>push_front\<close> and \<^verbatim>\<open>push_back\<close>.\<close>

fun seg_push_front_all :: "'a segmented \<Rightarrow> 'a list \<Rightarrow> 'a segmented option" where
  "seg_push_front_all s [] = Some s"
| "seg_push_front_all s (v # vs) = Option.bind (seg_push_front s v) (\<lambda>s'. seg_push_front_all s' vs)"

fun seg_push_back_all :: "'a segmented \<Rightarrow> 'a list \<Rightarrow> 'a segmented option" where
  "seg_push_back_all s [] = Some s"
| "seg_push_back_all s (v # vs) = Option.bind (seg_push_back s v) (\<lambda>s'. seg_push_back_all s' vs)"

definition seg_from_vec :: "'a list \<Rightarrow> 'a segmented option" where
  "seg_from_vec vs = seg_push_back_all seg_new vs"

definition seg_push_values :: "'a segmented \<Rightarrow> 'a list \<Rightarrow> bool \<Rightarrow> 'a segmented option" where
  "seg_push_values s vs front = (if front then seg_push_front_all s vs else seg_push_back_all s vs)"

definition seg_pop_front :: "'a segmented \<Rightarrow> ('a option \<times> 'a segmented) option" where
  "seg_pop_front s =
     (case chunks s of
        [] \<Rightarrow> Some (None, s)
      | c # cs \<Rightarrow>
          (case ring_pop_front LIST_CHUNK_CAPACITY c of
             (None, c') \<Rightarrow> Some (None, s\<lparr>chunks := c' # cs\<rparr>)
           | (Some v, c') \<Rightarrow> do {
               n \<leftarrow> usize_sub (seg_len s) 1;
               Some (Some v, s\<lparr>chunks := (if ring_is_empty c' then cs else c' # cs), seg_len := n\<rparr>)
             }))"

definition seg_pop_back :: "'a segmented \<Rightarrow> ('a option \<times> 'a segmented) option" where
  "seg_pop_back s =
     (if chunks s = [] then Some (None, s)
      else case ring_pop_back LIST_CHUNK_CAPACITY (last (chunks s)) of
             (None, c') \<Rightarrow> Some (None, s\<lparr>chunks := butlast (chunks s) @ [c']\<rparr>)
           | (Some v, c') \<Rightarrow> do {
               n \<leftarrow> usize_sub (seg_len s) 1;
               Some (Some v, s\<lparr>chunks := (if ring_is_empty c' then butlast (chunks s)
                                          else butlast (chunks s) @ [c']), seg_len := n\<rparr>)
             })"

text \<open>\<^verbatim>\<open>get\<close> and \<^verbatim>\<open>set\<close> walk the chunks from the nearer end.\<close>

fun seg_get_forward :: "'a ring list \<Rightarrow> nat \<Rightarrow> 'a option" where
  "seg_get_forward [] offset = None"
| "seg_get_forward (c # cs) offset =
     (if offset < len c then ring_get LIST_CHUNK_CAPACITY c offset
      else seg_get_forward cs (offset - len c))"

fun seg_get_backward :: "'a ring list \<Rightarrow> nat \<Rightarrow> 'a option" where
  "seg_get_backward [] offset = None"
| "seg_get_backward (c # cs) offset =
     (if offset < len c then ring_get LIST_CHUNK_CAPACITY c (len c - offset - 1)
      else seg_get_backward cs (offset - len c))"

definition seg_get :: "'a segmented \<Rightarrow> nat \<Rightarrow> 'a option" where
  "seg_get s index =
     (if seg_len s \<le> index then None
      else if index \<le> seg_len s div 2 then seg_get_forward (chunks s) index
      else seg_get_backward (rev (chunks s)) (seg_len s - index - 1))"

fun seg_set_forward :: "'a ring list \<Rightarrow> nat \<Rightarrow> 'a \<Rightarrow> 'a ring list" where
  "seg_set_forward [] offset v = []"
| "seg_set_forward (c # cs) offset v =
     (if offset < len c then ring_set LIST_CHUNK_CAPACITY c offset v # cs
      else c # seg_set_forward cs (offset - len c) v)"

fun seg_set_backward :: "'a ring list \<Rightarrow> nat \<Rightarrow> 'a \<Rightarrow> 'a ring list" where
  "seg_set_backward [] offset v = []"
| "seg_set_backward (c # cs) offset v =
     (if offset < len c then ring_set LIST_CHUNK_CAPACITY c (len c - offset - 1) v # cs
      else c # seg_set_backward cs (offset - len c) v)"

definition seg_set :: "'a segmented \<Rightarrow> nat \<Rightarrow> 'a \<Rightarrow> 'a segmented option" where
  "seg_set s index v =
     (if index \<le> seg_len s div 2
      then Some (s\<lparr>chunks := seg_set_forward (chunks s) index v\<rparr>)
      else do {
        rest \<leftarrow> usize_sub (seg_len s) index;
        offset \<leftarrow> usize_sub rest 1;
        Some (s\<lparr>chunks := rev (seg_set_backward (rev (chunks s)) offset v)\<rparr>)
      })"

text \<open>\<^verbatim>\<open>take_all\<close> drains every chunk in order.\<close>

fun seg_take_chunks :: "'a ring list \<Rightarrow> 'a list option" where
  "seg_take_chunks [] = Some []"
| "seg_take_chunks (c # cs) = do {
     (vs, _) \<leftarrow> ring_take_all LIST_CHUNK_CAPACITY c;
     rest \<leftarrow> seg_take_chunks cs;
     Some (vs @ rest)
   }"

definition seg_take_all :: "'a segmented \<Rightarrow> ('a list \<times> 'a segmented) option" where
  "seg_take_all s = do {
     vs \<leftarrow> seg_take_chunks (chunks s);
     Some (vs, s\<lparr>chunks := [], seg_len := 0\<rparr>)
   }"

definition seg_insert :: "'a segmented \<Rightarrow> nat \<Rightarrow> 'a \<Rightarrow> 'a segmented option" where
  "seg_insert s index v =
     (if index = 0 then seg_push_front s v
      else if seg_len s \<le> index then seg_push_back s v
      else do {
        (vs, _) \<leftarrow> seg_take_all s;
        vs' \<leftarrow> vec_insert index v vs;
        seg_from_vec vs'
      })"

text \<open>The chunk loop of \<^verbatim>\<open>remove\<close>: the inner option is \<open>None\<close> when no chunk holds the index.\<close>

fun seg_remove_loop :: "'a ring list \<Rightarrow> nat \<Rightarrow> ('a option \<times> 'a ring list) option option" where
  "seg_remove_loop [] offset = Some None"
| "seg_remove_loop (c # cs) offset =
     (if offset < len c
      then do {
        (v, c') \<leftarrow> chunk_remove LIST_CHUNK_CAPACITY c offset;
        Some (Some (v, if ring_is_empty c' then cs else c' # cs))
      }
      else do {
        r \<leftarrow> seg_remove_loop cs (offset - len c);
        Some (map_option (\<lambda>(v, cs'). (v, c # cs')) r)
      })"

definition seg_remove :: "'a segmented \<Rightarrow> nat \<Rightarrow> ('a option \<times> 'a segmented) option" where
  "seg_remove s index =
     (if seg_len s \<le> index then Some (None, s)
      else do {
        r \<leftarrow> seg_remove_loop (chunks s) index;
        (case r of
           None \<Rightarrow> Some (None, s)
         | Some (v, cs) \<Rightarrow> do {
             n \<leftarrow> usize_sub (seg_len s) 1;
             Some (v, s\<lparr>chunks := cs, seg_len := n\<rparr>)
           })
      })"

definition seg_clear :: "'a segmented \<Rightarrow> 'a segmented" where
  "seg_clear s = s\<lparr>chunks := [], seg_len := 0\<rparr>"

text \<open>The iterator runs the iterator of each chunk in turn.\<close>

definition seg_iter :: "'a segmented \<Rightarrow> 'a list" where
  "seg_iter s = concat (map (ring_iter LIST_CHUNK_CAPACITY) (chunks s))"

definition deque_into_segmented :: "'a ring \<Rightarrow> 'a segmented option" where
  "deque_into_segmented r = do {
     (vs, _) \<leftarrow> ring_take_all SMALL_LIST_INLINE r;
     seg_push_back_all seg_new vs
   }"

section \<open>Representation\<close>

text \<open>Every chunk is well formed and holds at least one value; the length is cached correctly.\<close>

definition seg_rep :: "'a segmented \<Rightarrow> 'a list \<Rightarrow> bool" where
  "seg_rep s xs \<longleftrightarrow>
     (\<exists>xss. list_all2 (ring_rep LIST_CHUNK_CAPACITY) (chunks s) xss \<and> [] \<notin> set xss \<and>
            xs = concat xss) \<and> seg_len s = length xs"

lemma seg_repI:
  "list_all2 (ring_rep LIST_CHUNK_CAPACITY) (chunks s) xss \<Longrightarrow> [] \<notin> set xss \<Longrightarrow>
   xs = concat xss \<Longrightarrow> seg_len s = length xs \<Longrightarrow> seg_rep s xs"
  by (auto simp: seg_rep_def)

lemma seg_repE:
  assumes "seg_rep s xs"
  obtains xss where "list_all2 (ring_rep LIST_CHUNK_CAPACITY) (chunks s) xss" "[] \<notin> set xss"
    "xs = concat xss" "seg_len s = length xs"
  using assms by (auto simp: seg_rep_def)

lemma seg_rep_len: "seg_rep s xs \<Longrightarrow> seg_len s = length xs"
  by (simp add: seg_rep_def)

lemma seg_rep_new: "seg_rep seg_new []"
  by (rule seg_repI [of _ "[]"]) (simp_all add: seg_new_def)

lemma seg_rep_clear: "seg_rep (seg_clear s) []"
  by (rule seg_repI [of _ "[]"]) (simp_all add: seg_clear_def)

lemma seg_rep_iter:
  assumes "seg_rep s xs"
  shows "seg_iter s = xs"
proof -
  obtain xss where xss: "list_all2 (ring_rep LIST_CHUNK_CAPACITY) (chunks s) xss" "xs = concat xss"
    using assms by (rule seg_repE)
  have "map (ring_iter LIST_CHUNK_CAPACITY) (chunks s) = xss"
    using xss(1) by (induction rule: list_all2_induct) (simp_all add: chunk.rep_iter)
  with xss(2) show ?thesis by (simp add: seg_iter_def)
qed

lemma fresh_chunk_front:
  obtains c where "expect_ok (ring_push_front LIST_CHUNK_CAPACITY (ring_new LIST_CHUNK_CAPACITY) v) = Some c"
    "ring_rep LIST_CHUNK_CAPACITY c [v]"
proof -
  obtain c where "ring_push_front LIST_CHUNK_CAPACITY (ring_new LIST_CHUNK_CAPACITY) v = (Inr (), c)"
    "ring_rep LIST_CHUNK_CAPACITY c [v]"
    by (rule chunk.rep_push_front [OF chunk.rep_new, of v]) simp
  then show thesis by (intro that [of c]) simp_all
qed

lemma fresh_chunk_back:
  obtains c where "expect_ok (ring_push_back LIST_CHUNK_CAPACITY (ring_new LIST_CHUNK_CAPACITY) v) = Some c"
    "ring_rep LIST_CHUNK_CAPACITY c [v]"
proof -
  obtain c where "ring_push_back LIST_CHUNK_CAPACITY (ring_new LIST_CHUNK_CAPACITY) v = (Inr (), c)"
    "ring_rep LIST_CHUNK_CAPACITY c ([] @ [v])"
    by (rule chunk.rep_push_back [OF chunk.rep_new, of v]) simp
  then show thesis by (intro that [of c]) simp_all
qed

lemma seg_push_front_rep:
  assumes "seg_rep s xs"
  obtains s' where "seg_push_front s v = Some s'" "seg_rep s' (v # xs)"
proof -
  obtain xss where xss: "list_all2 (ring_rep LIST_CHUNK_CAPACITY) (chunks s) xss" "[] \<notin> set xss"
    "xs = concat xss" "seg_len s = length xs"
    using assms by (rule seg_repE)
  obtain f where f: "expect_ok (ring_push_front LIST_CHUNK_CAPACITY (ring_new LIST_CHUNK_CAPACITY) v) = Some f"
    "ring_rep LIST_CHUNK_CAPACITY f [v]"
    by (rule fresh_chunk_front)
  show thesis
  proof (cases "\<exists>c cs. chunks s = c # cs \<and> \<not> ring_is_full LIST_CHUNK_CAPACITY c")
    case True
    then obtain c cs where c: "chunks s = c # cs" "\<not> ring_is_full LIST_CHUNK_CAPACITY c" by auto
    then obtain ys yss where ys: "xss = ys # yss" "ring_rep LIST_CHUNK_CAPACITY c ys"
      "list_all2 (ring_rep LIST_CHUNK_CAPACITY) cs yss"
      using xss(1) by (auto simp: list_all2_Cons1)
    then have "length ys < LIST_CHUNK_CAPACITY"
      using c(2) chunk.rep_le [OF ys(2)] chunk.rep_full [OF ys(2)] by simp
    then obtain c' where "ring_push_front LIST_CHUNK_CAPACITY c v = (Inr (), c')"
      "ring_rep LIST_CHUNK_CAPACITY c' (v # ys)"
      using chunk.rep_push_front ys(2) by metis
    with c ys xss show thesis
      by (intro that [of "s\<lparr>chunks := c' # cs, seg_len := seg_len s + 1\<rparr>"])
        (auto simp: seg_push_front_def intro!: seg_repI [of _ "(v # ys) # yss"])
  next
    case False
    with f have "seg_push_front s v = Some (s\<lparr>chunks := f # chunks s, seg_len := seg_len s + 1\<rparr>)"
      by (auto simp: seg_push_front_def split: list.splits)
    with f xss show thesis
      by (intro that) (auto intro!: seg_repI [of _ "[v] # xss"])
  qed
qed

lemma seg_push_back_rep:
  assumes "seg_rep s xs"
  obtains s' where "seg_push_back s v = Some s'" "seg_rep s' (xs @ [v])"
proof -
  obtain xss where xss: "list_all2 (ring_rep LIST_CHUNK_CAPACITY) (chunks s) xss" "[] \<notin> set xss"
    "xs = concat xss" "seg_len s = length xs"
    using assms by (rule seg_repE)
  obtain f where f: "expect_ok (ring_push_back LIST_CHUNK_CAPACITY (ring_new LIST_CHUNK_CAPACITY) v) = Some f"
    "ring_rep LIST_CHUNK_CAPACITY f [v]"
    by (rule fresh_chunk_back)
  show thesis
  proof (cases "chunks s \<noteq> [] \<and> \<not> ring_is_full LIST_CHUNK_CAPACITY (last (chunks s))")
    case True
    then obtain cs c where c: "chunks s = cs @ [c]" "\<not> ring_is_full LIST_CHUNK_CAPACITY c"
      by (metis append_butlast_last_id)
    then obtain yss ys where ys: "xss = yss @ [ys]" "ring_rep LIST_CHUNK_CAPACITY c ys"
      "list_all2 (ring_rep LIST_CHUNK_CAPACITY) cs yss"
      using xss(1) by (auto simp: list_all2_append1 list_all2_Cons1)
    then have "length ys < LIST_CHUNK_CAPACITY"
      using c(2) chunk.rep_le [OF ys(2)] chunk.rep_full [OF ys(2)] by simp
    then obtain c' where "ring_push_back LIST_CHUNK_CAPACITY c v = (Inr (), c')"
      "ring_rep LIST_CHUNK_CAPACITY c' (ys @ [v])"
      using chunk.rep_push_back ys(2) by metis
    with c ys xss show thesis
      by (intro that [of "s\<lparr>chunks := cs @ [c'], seg_len := seg_len s + 1\<rparr>"])
        (auto simp: seg_push_back_def intro!: seg_repI [of _ "yss @ [ys @ [v]]"] list_all2_appendI)
  next
    case False
    with f have "seg_push_back s v = Some (s\<lparr>chunks := chunks s @ [f], seg_len := seg_len s + 1\<rparr>)"
      by (auto simp: seg_push_back_def)
    with f xss show thesis
      by (intro that) (auto intro!: seg_repI [of _ "xss @ [[v]]"] list_all2_appendI)
  qed
qed

lemma seg_push_front_all_rep:
  assumes "seg_rep s xs"
  obtains s' where "seg_push_front_all s vs = Some s'" "seg_rep s' (rev vs @ xs)"
  using assms
proof (induction vs arbitrary: s xs thesis)
  case Nil
  then show ?case by simp
next
  case (Cons v vs)
  obtain s1 where s1: "seg_push_front s v = Some s1" "seg_rep s1 (v # xs)"
    using Cons.prems(2) by (rule seg_push_front_rep)
  obtain s2 where "seg_push_front_all s1 vs = Some s2" "seg_rep s2 (rev vs @ v # xs)"
    using Cons.IH [OF _ s1(2)] by metis
  with s1(1) show ?case by (intro Cons.prems(1) [of s2]) simp_all
qed

lemma seg_push_back_all_rep:
  assumes "seg_rep s xs"
  obtains s' where "seg_push_back_all s vs = Some s'" "seg_rep s' (xs @ vs)"
  using assms
proof (induction vs arbitrary: s xs thesis)
  case Nil
  then show ?case by simp
next
  case (Cons v vs)
  obtain s1 where s1: "seg_push_back s v = Some s1" "seg_rep s1 (xs @ [v])"
    using Cons.prems(2) by (rule seg_push_back_rep)
  obtain s2 where "seg_push_back_all s1 vs = Some s2" "seg_rep s2 ((xs @ [v]) @ vs)"
    using Cons.IH [OF _ s1(2)] by metis
  with s1(1) show ?case by (intro Cons.prems(1) [of s2]) simp_all
qed

lemma seg_from_vec_rep:
  obtains s where "seg_from_vec vs = Some s" "seg_rep s vs"
proof -
  obtain s where "seg_push_back_all seg_new vs = Some s" "seg_rep s ([] @ vs)"
    using seg_rep_new by (rule seg_push_back_all_rep)
  then show thesis by (intro that [of s]) (simp_all add: seg_from_vec_def)
qed

lemma seg_push_values_rep:
  assumes "seg_rep s xs"
  obtains s' where "seg_push_values s vs front = Some s'"
    "seg_rep s' (if front then rev vs @ xs else xs @ vs)"
proof (cases front)
  case True
  obtain s' where "seg_push_front_all s vs = Some s'" "seg_rep s' (rev vs @ xs)"
    using assms by (rule seg_push_front_all_rep)
  with True show thesis by (intro that [of s']) (simp_all add: seg_push_values_def)
next
  case False
  obtain s' where "seg_push_back_all s vs = Some s'" "seg_rep s' (xs @ vs)"
    using assms by (rule seg_push_back_all_rep)
  with False show thesis by (intro that [of s']) (simp_all add: seg_push_values_def)
qed

lemma deque_into_segmented_rep:
  assumes "ring_rep SMALL_LIST_INLINE r xs"
  obtains s where "deque_into_segmented r = Some s" "seg_rep s xs"
proof -
  obtain r1 where r1: "ring_take_all SMALL_LIST_INLINE r = Some (xs, r1)"
    using assms by (rule deque.rep_take_all)
  obtain s where "seg_push_back_all seg_new xs = Some s" "seg_rep s ([] @ xs)"
    using seg_rep_new by (rule seg_push_back_all_rep)
  with r1 show thesis by (intro that [of s]) (simp_all add: deque_into_segmented_def)
qed

lemma ring_is_empty_rep: "ring_rep cap r xs \<Longrightarrow> ring_is_empty r \<longleftrightarrow> xs = []"
  by (simp add: ring_rep_def ring_is_empty_def)

lemma seg_rep_Nil:
  assumes "seg_rep s []"
  shows "chunks s = []"
proof -
  obtain xss where xss: "list_all2 (ring_rep LIST_CHUNK_CAPACITY) (chunks s) xss" "[] \<notin> set xss"
    "[] = concat xss"
    using assms by (rule seg_repE)
  then have "xss = []" by (cases xss) auto
  with xss(1) show ?thesis by simp
qed

lemma seg_pop_front_Nil: "seg_rep s [] \<Longrightarrow> seg_pop_front s = Some (None, s)"
  by (simp add: seg_pop_front_def seg_rep_Nil)

lemma seg_pop_back_Nil: "seg_rep s [] \<Longrightarrow> seg_pop_back s = Some (None, s)"
  by (simp add: seg_pop_back_def seg_rep_Nil)

lemma seg_pop_front_rep:
  assumes "seg_rep s (x # xs)"
  obtains s' where "seg_pop_front s = Some (Some x, s')" "seg_rep s' xs"
proof -
  obtain xss where xss: "list_all2 (ring_rep LIST_CHUNK_CAPACITY) (chunks s) xss" "[] \<notin> set xss"
    "x # xs = concat xss" "seg_len s = length (x # xs)"
    using assms by (rule seg_repE)
  then obtain ys yss where ys: "xss = (x # ys) # yss" "xs = ys @ concat yss"
    by (cases xss; cases "hd xss") auto
  then obtain c cs where c: "chunks s = c # cs" "ring_rep LIST_CHUNK_CAPACITY c (x # ys)"
    "list_all2 (ring_rep LIST_CHUNK_CAPACITY) cs yss"
    using xss(1) by (auto simp: list_all2_Cons2)
  obtain c' where c': "ring_pop_front LIST_CHUNK_CAPACITY c = (Some x, c')"
    "ring_rep LIST_CHUNK_CAPACITY c' ys"
    using c(2) by (rule chunk.rep_pop_front)
  have "seg_pop_front s = Some (Some x, s\<lparr>chunks := (if ys = [] then cs else c' # cs), seg_len := length xs\<rparr>)"
    using c(1) c' xss(4) by (simp add: seg_pop_front_def ring_is_empty_rep [OF c'(2)])
  moreover have "seg_rep (s\<lparr>chunks := (if ys = [] then cs else c' # cs), seg_len := length xs\<rparr>) xs"
    using c c' ys xss(2)
    by (intro seg_repI [of _ "if ys = [] then yss else ys # yss"]) auto
  ultimately show thesis by (rule that)
qed

lemma concat_snocE:
  assumes "concat xss = xs @ [x]" "[] \<notin> set xss"
  obtains yss ys where "xss = yss @ [ys @ [x]]" "xs = concat yss @ ys"
proof (cases xss rule: rev_cases)
  case Nil
  with assms show thesis by simp
next
  case (snoc yss zs)
  with assms obtain ys where "zs = ys @ [x]" by (cases zs rule: rev_cases) auto
  with snoc assms show thesis by (intro that [of yss ys]) auto
qed

lemma seg_pop_back_rep:
  assumes "seg_rep s (xs @ [x])"
  obtains s' where "seg_pop_back s = Some (Some x, s')" "seg_rep s' xs"
proof -
  obtain xss where xss: "list_all2 (ring_rep LIST_CHUNK_CAPACITY) (chunks s) xss" "[] \<notin> set xss"
    "xs @ [x] = concat xss" "seg_len s = length (xs @ [x])"
    using assms by (rule seg_repE)
  obtain yss ys where ys: "xss = yss @ [ys @ [x]]" "xs = concat yss @ ys"
    using xss(3) [symmetric] xss(2) by (rule concat_snocE)
  then obtain cs c where c: "chunks s = cs @ [c]" "ring_rep LIST_CHUNK_CAPACITY c (ys @ [x])"
    "list_all2 (ring_rep LIST_CHUNK_CAPACITY) cs yss"
    using xss(1) by (auto simp: list_all2_append2 list_all2_Cons2)
  obtain c' where c': "ring_pop_back LIST_CHUNK_CAPACITY c = (Some x, c')"
    "ring_rep LIST_CHUNK_CAPACITY c' ys"
    using c(2) by (rule chunk.rep_pop_back)
  have "seg_pop_back s = Some (Some x, s\<lparr>chunks := (if ys = [] then cs else cs @ [c']), seg_len := length xs\<rparr>)"
    using c(1) c' xss(4) by (simp add: seg_pop_back_def ring_is_empty_rep [OF c'(2)])
  moreover have "seg_rep (s\<lparr>chunks := (if ys = [] then cs else cs @ [c']), seg_len := length xs\<rparr>) xs"
    using c c' ys xss(2)
    by (intro seg_repI [of _ "if ys = [] then yss else yss @ [ys]"]) (auto intro: list_all2_appendI)
  ultimately show thesis by (rule that)
qed

lemma get_forward_chunks:
  "list_all2 (ring_rep LIST_CHUNK_CAPACITY) cs xss \<Longrightarrow>
   seg_get_forward cs i = (if i < length (concat xss) then Some (concat xss ! i) else None)"
proof (induction arbitrary: i rule: list_all2_induct)
  case Nil
  then show ?case by simp
next
  case (Cons c cs ys yss)
  then show ?case
    by (auto simp: chunk.rep_get [OF Cons(1)] chunk.rep_len [OF Cons(1)] nth_append)
qed

lemma get_backward_chunks:
  "list_all2 (ring_rep LIST_CHUNK_CAPACITY) cs xss \<Longrightarrow>
   seg_get_backward cs i =
     (if i < length (concat (map rev xss)) then Some (concat (map rev xss) ! i) else None)"
proof (induction arbitrary: i rule: list_all2_induct)
  case Nil
  then show ?case by simp
next
  case (Cons c cs ys yss)
  then show ?case
    by (auto simp: chunk.rep_get [OF Cons(1)] chunk.rep_len [OF Cons(1)] nth_append rev_nth)
qed

lemma seg_get_rep:
  assumes "seg_rep s xs"
  shows "seg_get s i = (if i < length xs then Some (xs ! i) else None)"
proof -
  obtain xss where xss: "list_all2 (ring_rep LIST_CHUNK_CAPACITY) (chunks s) xss"
    "xs = concat xss" "seg_len s = length xs"
    using assms by (rule seg_repE)
  have "list_all2 (ring_rep LIST_CHUNK_CAPACITY) (rev (chunks s)) (rev xss)"
    using xss(1) by simp
  from get_backward_chunks [OF this] have
    "seg_get_backward (rev (chunks s)) j = (if j < length xs then Some (rev xs ! j) else None)" for j
    using xss(2) by (simp add: rev_concat [symmetric])
  with get_forward_chunks [OF xss(1)] xss(2,3) show ?thesis
    by (auto simp: seg_get_def rev_nth)
qed

lemma set_forward_chunks:
  "list_all2 (ring_rep LIST_CHUNK_CAPACITY) cs xss \<Longrightarrow> i < length (concat xss) \<Longrightarrow>
   \<exists>yss. list_all2 (ring_rep LIST_CHUNK_CAPACITY) (seg_set_forward cs i v) yss \<and>
     map length yss = map length xss \<and> concat yss = (concat xss)[i := v]"
proof (induction arbitrary: i rule: list_all2_induct)
  case Nil
  then show ?case by simp
next
  case (Cons c cs ys yss)
  show ?case
  proof (cases "i < length ys")
    case True
    with chunk.rep_set [OF Cons(1) True, of v] Cons(2) show ?thesis
      by (intro exI [of _ "ys[i := v] # yss"])
        (simp add: chunk.rep_len [OF Cons(1)] list_update_append)
  next
    case False
    with Cons.prems have "i - length ys < length (concat yss)" by simp
    from Cons.IH [OF this] obtain zss where
      "list_all2 (ring_rep LIST_CHUNK_CAPACITY) (seg_set_forward cs (i - length ys) v) zss"
      "map length zss = map length yss" "concat zss = (concat yss)[i - length ys := v]"
      by auto
    with False Cons(1) show ?thesis
      by (intro exI [of _ "ys # zss"]) (simp add: chunk.rep_len [OF Cons(1)] list_update_append)
  qed
qed

lemma set_backward_chunks:
  "list_all2 (ring_rep LIST_CHUNK_CAPACITY) cs xss \<Longrightarrow> i < length (concat (map rev xss)) \<Longrightarrow>
   \<exists>yss. list_all2 (ring_rep LIST_CHUNK_CAPACITY) (seg_set_backward cs i v) yss \<and>
     map length yss = map length xss \<and>
     concat (map rev yss) = (concat (map rev xss))[i := v]"
proof (induction arbitrary: i rule: list_all2_induct)
  case Nil
  then show ?case by simp
next
  case (Cons c cs ys yss)
  show ?case
  proof (cases "i < length ys")
    case True
    then have "length ys - i - 1 < length ys" by simp
    from chunk.rep_set [OF Cons(1) this, of v] Cons(2) True show ?thesis
      by (intro exI [of _ "ys[length ys - i - 1 := v] # yss"])
        (simp add: chunk.rep_len [OF Cons(1)] list_update_append rev_update)
  next
    case False
    with Cons.prems have "i - length ys < length (concat (map rev yss))" by simp
    from Cons.IH [OF this] obtain zss where
      "list_all2 (ring_rep LIST_CHUNK_CAPACITY) (seg_set_backward cs (i - length ys) v) zss"
      "map length zss = map length yss"
      "concat (map rev zss) = (concat (map rev yss))[i - length ys := v]"
      by auto
    with False Cons(1) show ?thesis
      by (intro exI [of _ "ys # zss"]) (simp add: chunk.rep_len [OF Cons(1)] list_update_append)
  qed
qed

lemma nonempty_map_length: "map length yss = map length xss \<Longrightarrow> [] \<notin> set xss \<Longrightarrow> [] \<notin> set yss"
  by (metis imageE image_eqI length_0_conv list.set_map)

lemma seg_set_rep:
  assumes "seg_rep s xs" "i < length xs"
  obtains s' where "seg_set s i v = Some s'" "seg_rep s' (xs[i := v])"
proof -
  obtain xss where xss: "list_all2 (ring_rep LIST_CHUNK_CAPACITY) (chunks s) xss" "[] \<notin> set xss"
    "xs = concat xss" "seg_len s = length xs"
    using assms(1) by (rule seg_repE)
  show thesis
  proof (cases "i \<le> seg_len s div 2")
    case True
    from set_forward_chunks [OF xss(1), of i v] assms(2) xss(3) obtain yss where
      "list_all2 (ring_rep LIST_CHUNK_CAPACITY) (seg_set_forward (chunks s) i v) yss"
      "map length yss = map length xss" "concat yss = xs[i := v]"
      by auto
    with True xss nonempty_map_length show thesis
      by (intro that [of "s\<lparr>chunks := seg_set_forward (chunks s) i v\<rparr>"])
        (auto simp: seg_set_def intro!: seg_repI [of _ yss])
  next
    case False
    let ?j = "length xs - i - 1"
    have rev_all: "list_all2 (ring_rep LIST_CHUNK_CAPACITY) (rev (chunks s)) (rev xss)"
      using xss(1) by simp
    have rc: "concat (map rev (rev xss)) = rev xs" using xss(3) by (simp add: rev_concat [symmetric])
    have "?j < length (concat (map rev (rev xss)))" using assms(2) by (simp only: rc) simp
    from set_backward_chunks [OF rev_all this, of v] rc obtain yss where
      yss: "list_all2 (ring_rep LIST_CHUNK_CAPACITY) (seg_set_backward (rev (chunks s)) ?j v) yss"
      "map length yss = map length (rev xss)" "concat (map rev yss) = (rev xs)[?j := v]"
      by metis
    have "rev (concat (rev yss)) = rev (xs[i := v])"
      using yss(3) assms(2) by (simp add: rev_concat rev_update)
    then have cc: "concat (rev yss) = xs[i := v]" by simp
    have "[] \<notin> set (rev yss)" using nonempty_map_length [OF yss(2)] xss(2) by simp
    with False xss yss cc assms(2) show thesis
      by (intro that [of "s\<lparr>chunks := rev (seg_set_backward (rev (chunks s)) ?j v)\<rparr>"])
        (auto simp: seg_set_def intro!: seg_repI [of _ "rev yss"])
  qed
qed

lemma take_chunks:
  "list_all2 (ring_rep LIST_CHUNK_CAPACITY) cs xss \<Longrightarrow> seg_take_chunks cs = Some (concat xss)"
proof (induction rule: list_all2_induct)
  case Nil
  then show ?case by simp
next
  case (Cons c cs ys yss)
  obtain c' where "ring_take_all LIST_CHUNK_CAPACITY c = Some (ys, c')"
    using Cons(1) by (rule chunk.rep_take_all)
  with Cons.IH show ?case by simp
qed

lemma seg_take_all_rep:
  assumes "seg_rep s xs"
  shows "seg_take_all s = Some (xs, seg_clear s)"
proof -
  obtain xss where "list_all2 (ring_rep LIST_CHUNK_CAPACITY) (chunks s) xss" "xs = concat xss"
    using assms by (rule seg_repE)
  then show ?thesis by (simp add: seg_take_all_def take_chunks seg_clear_def)
qed

lemma seg_insert_rep:
  assumes "seg_rep s xs" "i \<le> length xs"
  obtains s' where "seg_insert s i v = Some s'" "seg_rep s' (take i xs @ v # drop i xs)"
proof -
  consider "i = 0" | "i = length xs" "i \<noteq> 0" | "0 < i" "i < length xs" using assms(2) by linarith
  then show thesis
  proof cases
    case 1
    obtain s' where "seg_push_front s v = Some s'" "seg_rep s' (v # xs)"
      using assms(1) by (rule seg_push_front_rep)
    with 1 show thesis by (intro that [of s']) (simp_all add: seg_insert_def)
  next
    case 2
    obtain s' where "seg_push_back s v = Some s'" "seg_rep s' (xs @ [v])"
      using assms(1) by (rule seg_push_back_rep)
    with 2 seg_rep_len [OF assms(1)] show thesis
      by (intro that [of s']) (simp_all add: seg_insert_def)
  next
    case 3
    obtain s' where "seg_from_vec (take i xs @ v # drop i xs) = Some s'"
      "seg_rep s' (take i xs @ v # drop i xs)"
      by (rule seg_from_vec_rep)
    with 3 seg_rep_len [OF assms(1)] show thesis
      by (intro that [of s']) (simp_all add: seg_insert_def seg_take_all_rep [OF assms(1)])
  qed
qed

lemma remove_chunks:
  "list_all2 (ring_rep LIST_CHUNK_CAPACITY) cs xss \<Longrightarrow> [] \<notin> set xss \<Longrightarrow> i < length (concat xss) \<Longrightarrow>
   \<exists>cs' yss. seg_remove_loop cs i = Some (Some (Some (concat xss ! i), cs')) \<and>
     list_all2 (ring_rep LIST_CHUNK_CAPACITY) cs' yss \<and> [] \<notin> set yss \<and>
     concat yss = take i (concat xss) @ drop (Suc i) (concat xss)"
proof (induction arbitrary: i rule: list_all2_induct)
  case Nil
  then show ?case by simp
next
  case (Cons c cs ys yss)
  show ?case
  proof (cases "i < length ys")
    case True
    obtain c' where c': "chunk_remove LIST_CHUNK_CAPACITY c i = Some (Some (ys ! i), c')"
      "ring_rep LIST_CHUNK_CAPACITY c' (take i ys @ drop (Suc i) ys)"
      using Cons(1) True by (rule chunk.rep_chunk_remove)
    let ?zs = "take i ys @ drop (Suc i) ys"
    have e: "ring_is_empty c' \<longleftrightarrow> ?zs = []" using c'(2) by (rule ring_is_empty_rep)
    show ?thesis
      using c' e True Cons(2) Cons.prems(1)
      by (intro exI [of _ "if ?zs = [] then cs else c' # cs"] exI [of _ "if ?zs = [] then yss else ?zs # yss"])
        (auto simp: chunk.rep_len [OF Cons(1)] nth_append)
  next
    case False
    with Cons.prems have "[] \<notin> set yss" "i - length ys < length (concat yss)" by simp_all
    from Cons.IH [OF this] obtain cs' zss where
      "seg_remove_loop cs (i - length ys) = Some (Some (Some (concat yss ! (i - length ys)), cs'))"
      "list_all2 (ring_rep LIST_CHUNK_CAPACITY) cs' zss" "[] \<notin> set zss"
      "concat zss = take (i - length ys) (concat yss) @ drop (Suc (i - length ys)) (concat yss)"
      by blast
    with False Cons(1) Cons.prems(1) show ?thesis
      by (intro exI [of _ "c # cs'"] exI [of _ "ys # zss"])
        (auto simp: chunk.rep_len [OF Cons(1)] nth_append Suc_diff_le)
  qed
qed

lemma seg_remove_rep:
  assumes "seg_rep s xs" "i < length xs"
  obtains s' where "seg_remove s i = Some (Some (xs ! i), s')"
    "seg_rep s' (take i xs @ drop (Suc i) xs)"
proof -
  obtain xss where xss: "list_all2 (ring_rep LIST_CHUNK_CAPACITY) (chunks s) xss" "[] \<notin> set xss"
    "xs = concat xss" "seg_len s = length xs"
    using assms(1) by (rule seg_repE)
  from remove_chunks [OF xss(1,2), of i] assms(2) xss(3) obtain cs yss where
    "seg_remove_loop (chunks s) i = Some (Some (Some (xs ! i), cs))"
    "list_all2 (ring_rep LIST_CHUNK_CAPACITY) cs yss" "[] \<notin> set yss"
    "concat yss = take i xs @ drop (Suc i) xs"
    by blast
  with xss(4) assms(2) show thesis
    by (intro that [of "s\<lparr>chunks := cs, seg_len := length xs - 1\<rparr>"])
      (auto simp: seg_remove_def intro!: seg_repI [of _ yss])
qed

section \<open>The list interface\<close>

interpretation seg: sequence seg_rep seg_push_values seg_pop_front seg_pop_back seg_get seg_set
  seg_insert seg_remove seg_iter seg_len
proof (unfold_locales, goal_cases)
  case (1 s xs)
  then show ?case by (rule seg_rep_iter)
next
  case (2 s xs)
  then show ?case by (rule seg_rep_len)
next
  case (3 s xs i)
  then show ?case by (rule seg_get_rep)
next
  case (4 s xs vs front)
  then show ?case unfolding push_list_spec_def by (rule seg_push_values_rep [of s xs vs front]) blast
next
  case (5 s xs)
  then show ?case
  proof (cases xs)
    case Nil
    with 5 show ?thesis by (simp add: seg_pop_front_Nil)
  next
    case (Cons y ys)
    from 5 [unfolded Cons] show ?thesis unfolding Cons by (rule seg_pop_front_rep) simp
  qed
next
  case (6 s xs)
  then show ?case
  proof (cases xs rule: rev_cases)
    case Nil
    with 6 show ?thesis by (simp add: seg_pop_back_Nil)
  next
    case (snoc ys y)
    from 6 [unfolded snoc] show ?thesis unfolding snoc by (rule seg_pop_back_rep) simp
  qed
next
  case (7 s xs i v)
  then show ?case by (rule seg_set_rep [of s xs i v]) blast
next
  case (8 s xs i v)
  then show ?case by (rule seg_insert_rep [of s xs i v]) blast
next
  case (9 s xs i)
  then show ?case by (rule seg_remove_rep [of s xs i]) blast
qed

end
