(* ===== verification/ListObject.thy ===== *)
theory ListObject
  imports Segmented
begin

text \<open>
  \<^verbatim>\<open>ListObject\<close> (\<^verbatim>\<open>list_object.rs\<close>): the four representations of a list value and the upgrades
  between them, and the index helpers of \<^verbatim>\<open>helpers.rs\<close>. \<^verbatim>\<open>debug_assert\<close> is not modelled: the
  definitions follow a release build, where the assertion is absent.
\<close>

section \<open>State and operations\<close>

datatype 'a list_object =
    ListEmpty
  | ListSingle 'a
  | ListSmall "'a ring"
  | ListSegmented "'a segmented"

definition list_from_vec :: "'a list \<Rightarrow> 'a list_object option" where
  "list_from_vec vs =
     (case vs of
        [] \<Rightarrow> Some ListEmpty
      | [v] \<Rightarrow> Some (ListSingle v)
      | _ \<Rightarrow>
          if length vs \<le> SMALL_LIST_INLINE
          then map_option ListSmall (deque_from_vec vs)
          else map_option ListSegmented (seg_from_vec vs))"

text \<open>The \<^verbatim>\<open>Small\<close> arm of \<^verbatim>\<open>push_values\<close>, which \<^verbatim>\<open>from_values\<close> reaches with an empty deque.\<close>

definition small_push_values :: "'a ring \<Rightarrow> 'a list \<Rightarrow> bool \<Rightarrow> 'a list_object option" where
  "small_push_values r vs front =
     (if len r + length vs \<le> SMALL_LIST_INLINE
      then map_option ListSmall (push_values_small r vs front)
      else do {
        s \<leftarrow> deque_into_segmented r;
        s' \<leftarrow> seg_push_values s vs front;
        Some (ListSegmented s')
      })"

definition list_from_values :: "'a list \<Rightarrow> bool \<Rightarrow> 'a list_object option" where
  "list_from_values vs front =
     (case vs of
        [] \<Rightarrow> Some ListEmpty
      | [v] \<Rightarrow> Some (ListSingle v)
      | _ \<Rightarrow> small_push_values deque_new vs front)"

definition list_push_values :: "'a list_object \<Rightarrow> 'a list \<Rightarrow> bool \<Rightarrow> 'a list_object option" where
  "list_push_values l vs front =
     (if vs = [] then Some l
      else case l of
        ListEmpty \<Rightarrow> list_from_values vs front
      | ListSingle x \<Rightarrow>
          if 1 + length vs \<le> SMALL_LIST_INLINE
          then do {
            r \<leftarrow> expect_ok (deque_push_back deque_new x);
            r' \<leftarrow> push_values_small r vs front;
            Some (ListSmall r')
          }
          else do {
            s \<leftarrow> seg_push_back seg_new x;
            s' \<leftarrow> seg_push_values s vs front;
            Some (ListSegmented s')
          }
      | ListSmall r \<Rightarrow> small_push_values r vs front
      | ListSegmented s \<Rightarrow> map_option ListSegmented (seg_push_values s vs front))"

fun list_pop_front :: "'a list_object \<Rightarrow> ('a option \<times> 'a list_object) option" where
  "list_pop_front ListEmpty = Some (None, ListEmpty)"
| "list_pop_front (ListSingle v) = Some (Some v, ListEmpty)"
| "list_pop_front (ListSmall r) = Some (apsnd ListSmall (deque_pop_front r))"
| "list_pop_front (ListSegmented s) = map_option (apsnd ListSegmented) (seg_pop_front s)"

fun list_pop_back :: "'a list_object \<Rightarrow> ('a option \<times> 'a list_object) option" where
  "list_pop_back ListEmpty = Some (None, ListEmpty)"
| "list_pop_back (ListSingle v) = Some (Some v, ListEmpty)"
| "list_pop_back (ListSmall r) = Some (apsnd ListSmall (deque_pop_back r))"
| "list_pop_back (ListSegmented s) = map_option (apsnd ListSegmented) (seg_pop_back s)"

fun list_insert :: "'a list_object \<Rightarrow> nat \<Rightarrow> 'a \<Rightarrow> 'a list_object option" where
  "list_insert ListEmpty index v = Some (ListSingle v)"
| "list_insert (ListSingle x) index v = do {
     r \<leftarrow> expect_ok (deque_push_back deque_new x);
     r1 \<leftarrow> deque_insert r index v;
     r2 \<leftarrow> expect_ok r1;
     Some (ListSmall r2)
   }"
| "list_insert (ListSmall r) index v =
     (if \<not> deque_is_full r
      then do {
        (_, r') \<leftarrow> deque_insert r index v;
        Some (ListSmall r')
      }
      else do {
        s \<leftarrow> deque_into_segmented r;
        s' \<leftarrow> seg_insert s index v;
        Some (ListSegmented s')
      })"
| "list_insert (ListSegmented s) index v = map_option ListSegmented (seg_insert s index v)"

fun list_remove :: "'a list_object \<Rightarrow> nat \<Rightarrow> ('a option \<times> 'a list_object) option" where
  "list_remove ListEmpty index = Some (None, ListEmpty)"
| "list_remove (ListSingle v) index = Some (Some v, ListEmpty)"
| "list_remove (ListSmall r) index = map_option (apsnd ListSmall) (deque_remove r index)"
| "list_remove (ListSegmented s) index = map_option (apsnd ListSegmented) (seg_remove s index)"

fun list_set :: "'a list_object \<Rightarrow> nat \<Rightarrow> 'a \<Rightarrow> 'a list_object option" where
  "list_set ListEmpty index v = Some ListEmpty"
| "list_set (ListSingle x) index v = Some (ListSingle v)"
| "list_set (ListSmall r) index v = Some (ListSmall (deque_set r index v))"
| "list_set (ListSegmented s) index v = map_option ListSegmented (seg_set s index v)"

fun list_get :: "'a list_object \<Rightarrow> nat \<Rightarrow> 'a option" where
  "list_get ListEmpty index = None"
| "list_get (ListSingle v) index = (if index = 0 then Some v else None)"
| "list_get (ListSmall r) index = deque_get r index"
| "list_get (ListSegmented s) index = seg_get s index"

fun list_len :: "'a list_object \<Rightarrow> nat" where
  "list_len ListEmpty = 0"
| "list_len (ListSingle v) = 1"
| "list_len (ListSmall r) = len r"
| "list_len (ListSegmented s) = seg_len s"

definition list_is_empty :: "'a list_object \<Rightarrow> bool" where
  "list_is_empty l \<longleftrightarrow> list_len l = 0"

fun list_clear :: "'a list_object \<Rightarrow> 'a list_object" where
  "list_clear (ListSegmented s) = ListSegmented (seg_clear s)"
| "list_clear _ = ListEmpty"

fun list_iter :: "'a list_object \<Rightarrow> 'a list" where
  "list_iter ListEmpty = []"
| "list_iter (ListSingle v) = [v]"
| "list_iter (ListSmall r) = deque_iter r"
| "list_iter (ListSegmented s) = seg_iter s"

section \<open>Index helpers\<close>

definition normalize_index :: "int \<Rightarrow> nat \<Rightarrow> nat option" where
  "normalize_index index n =
     (if n = 0 then None
      else let i = (if index < 0 then int n + index else index)
           in if 0 \<le> i \<and> i < int n then Some (nat i) else None)"

definition normalize_range :: "int \<Rightarrow> int \<Rightarrow> nat \<Rightarrow> (nat \<times> nat) option" where
  "normalize_range start0 stop0 n =
     (if n = 0 then None
      else let start1 = (if start0 < 0 then int n + start0 else start0);
               stop1 = (if stop0 < 0 then int n + stop0 else stop0);
               start2 = (if start1 < 0 then 0 else start1)
           in if stop1 < 0 then None
              else if int n \<le> start2 then None
              else let stop2 = (if int n \<le> stop1 then int n - 1 else stop1)
                   in if start2 \<le> stop2 then Some (nat start2, nat stop2) else None)"

lemma normalize_index_less: "normalize_index i n = Some k \<Longrightarrow> k < n"
  by (auto simp: normalize_index_def Let_def split: if_splits)

lemma normalize_range_bounds:
  "normalize_range a b n = Some (s, e) \<Longrightarrow> s \<le> e \<and> e < n"
  by (auto simp: normalize_range_def Let_def split: if_splits)

section \<open>Representation\<close>

fun list_rep :: "'a list_object \<Rightarrow> 'a list \<Rightarrow> bool" where
  "list_rep ListEmpty xs \<longleftrightarrow> xs = []"
| "list_rep (ListSingle v) xs \<longleftrightarrow> xs = [v]"
| "list_rep (ListSmall r) xs \<longleftrightarrow> ring_rep SMALL_LIST_INLINE r xs"
| "list_rep (ListSegmented s) xs \<longleftrightarrow> seg_rep s xs"

lemma list_rep_iter: "list_rep l xs \<Longrightarrow> list_iter l = xs"
  by (cases l) (simp_all add: deque.rep_iter seg_rep_iter)

lemma list_rep_len: "list_rep l xs \<Longrightarrow> list_len l = length xs"
  by (cases l) (simp_all add: deque.rep_len seg_rep_len)

lemma list_rep_get: "list_rep l xs \<Longrightarrow> list_get l i = (if i < length xs then Some (xs ! i) else None)"
  by (cases l) (simp_all add: deque.rep_get seg_get_rep)

lemma list_rep_clear: "list_rep (list_clear l) []"
  by (cases l) (simp_all add: seg_rep_clear)


lemma single_deque:
  obtains r where "expect_ok (deque_push_back deque_new x) = Some r" "ring_rep SMALL_LIST_INLINE r [x]"
proof -
  obtain r where "deque_push_back deque_new x = (Inr (), r)" "ring_rep SMALL_LIST_INLINE r ([] @ [x])"
    by (rule deque.rep_push_back [OF deque.rep_new, of x]) simp
  then show thesis by (intro that [of r]) simp_all
qed

lemma list_from_vec_rep: "\<exists>l. list_from_vec vs = Some l \<and> list_rep l vs"
proof (cases "2 \<le> length vs")
  case False
  then show ?thesis by (cases vs; cases "tl vs") (auto simp: list_from_vec_def)
next
  case True
  then obtain x y zs where vs: "vs = x # y # zs" by (auto simp: Suc_le_length_iff numeral_2_eq_2)
  show ?thesis
  proof (cases "length vs \<le> SMALL_LIST_INLINE")
    case True
    then obtain r where "deque_from_vec vs = Some r" "ring_rep SMALL_LIST_INLINE r vs"
      by (rule deque_from_vec_rep)
    with True vs show ?thesis by (simp add: list_from_vec_def)
  next
    case False
    obtain s where "seg_from_vec vs = Some s" "seg_rep s vs" by (rule seg_from_vec_rep)
    with False vs show ?thesis by (simp add: list_from_vec_def)
  qed
qed

lemma small_push_values_rep:
  assumes "ring_rep SMALL_LIST_INLINE r xs"
  shows "\<exists>l. small_push_values r vs front = Some l \<and> list_rep l (push_list_spec xs vs front)"
proof (cases "length xs + length vs \<le> SMALL_LIST_INLINE")
  case True
  obtain r' where "push_values_small r vs front = Some r'"
    "ring_rep SMALL_LIST_INLINE r' (if front then rev vs @ xs else xs @ vs)"
    using assms True by (rule push_values_small_rep)
  with True show ?thesis
    by (simp add: small_push_values_def push_list_spec_def deque.rep_len [OF assms])
next
  case False
  obtain s where s: "deque_into_segmented r = Some s" "seg_rep s xs"
    using assms by (rule deque_into_segmented_rep)
  from s(2) obtain s' where "seg_push_values s vs front = Some s'"
    "seg_rep s' (if front then rev vs @ xs else xs @ vs)"
    by (rule seg_push_values_rep)
  with False s(1) show ?thesis
    by (simp add: small_push_values_def push_list_spec_def deque.rep_len [OF assms])
qed

lemma list_from_values_rep:
  "\<exists>l. list_from_values vs front = Some l \<and> list_rep l (push_list_spec [] vs front)"
proof (cases "2 \<le> length vs")
  case False
  then show ?thesis
    by (cases vs; cases "tl vs") (auto simp: list_from_values_def push_list_spec_def)
next
  case True
  then obtain x y zs where vs: "vs = x # y # zs" by (auto simp: Suc_le_length_iff numeral_2_eq_2)
  with small_push_values_rep [OF deque.rep_new, of vs front] show ?thesis
    by (simp add: list_from_values_def)
qed

lemma single_push_values_rep:
  assumes "vs \<noteq> []"
  shows "\<exists>l. list_push_values (ListSingle x) vs front = Some l \<and> list_rep l (push_list_spec [x] vs front)"
proof (cases "1 + length vs \<le> SMALL_LIST_INLINE")
  case True
  obtain r where r: "expect_ok (deque_push_back deque_new x) = Some r" "ring_rep SMALL_LIST_INLINE r [x]"
    by (rule single_deque)
  obtain r' where "push_values_small r vs front = Some r'"
    "ring_rep SMALL_LIST_INLINE r' (if front then rev vs @ [x] else [x] @ vs)"
    by (rule push_values_small_rep [OF r(2), of vs front]) (use True in simp_all)
  with True r(1) assms show ?thesis by (simp add: list_push_values_def push_list_spec_def)
next
  case False
  obtain s where s: "seg_push_back seg_new x = Some s" "seg_rep s ([] @ [x])"
    by (rule seg_push_back_rep [OF seg_rep_new])
  from s(2) obtain s' where "seg_push_values s vs front = Some s'"
    "seg_rep s' (if front then rev vs @ [] @ [x] else ([] @ [x]) @ vs)"
    by (rule seg_push_values_rep)
  with False s(1) assms show ?thesis
    by (simp add: list_push_values_def push_list_spec_def split: if_splits)
qed

lemma list_push_values_rep:
  assumes "list_rep l xs"
  shows "\<exists>l'. list_push_values l vs front = Some l' \<and> list_rep l' (push_list_spec xs vs front)"
proof (cases "vs = []")
  case True
  with assms show ?thesis by (simp add: list_push_values_def push_list_spec_def)
next
  case False
  show ?thesis
  proof (cases l)
    case ListEmpty
    with assms False list_from_values_rep [of vs front] show ?thesis
      by (simp add: list_push_values_def)
  next
    case (ListSingle x)
    with assms False single_push_values_rep [of vs x front] show ?thesis by simp
  next
    case (ListSmall r)
    with assms False small_push_values_rep [of r xs vs front] show ?thesis
      by (simp add: list_push_values_def)
  next
    case (ListSegmented s)
    with assms have "seg_rep s xs" by simp
    from seg.rep_push [OF this, of vs front] ListSegmented False show ?thesis
      by (auto simp: list_push_values_def)
  qed
qed

lemma list_pop_front_rep:
  assumes "list_rep l xs"
  shows "\<exists>l'. list_pop_front l = Some (if xs = [] then None else Some (hd xs), l') \<and> list_rep l' (tl xs)"
proof (cases l)
  case (ListSmall r)
  show ?thesis
  proof (cases xs)
    case Nil
    with assms ListSmall show ?thesis by (simp add: deque.rep_pop_front_Nil)
  next
    case (Cons y ys)
    with assms ListSmall have "ring_rep SMALL_LIST_INLINE r (y # ys)" by simp
    then obtain r' where "deque_pop_front r = (Some y, r')" "ring_rep SMALL_LIST_INLINE r' ys"
      by (rule deque.rep_pop_front)
    with ListSmall Cons show ?thesis by simp
  qed
next
  case (ListSegmented s)
  with assms have "seg_rep s xs" by simp
  from seg.rep_pop_front [OF this] ListSegmented show ?thesis by auto
qed (use assms in simp_all)

lemma list_pop_back_rep:
  assumes "list_rep l xs"
  shows "\<exists>l'. list_pop_back l = Some (if xs = [] then None else Some (last xs), l') \<and> list_rep l' (butlast xs)"
proof (cases l)
  case (ListSmall r)
  show ?thesis
  proof (cases xs rule: rev_cases)
    case Nil
    with assms ListSmall show ?thesis by (simp add: deque.rep_pop_back_Nil)
  next
    case (snoc ys y)
    with assms ListSmall have "ring_rep SMALL_LIST_INLINE r (ys @ [y])" by simp
    then obtain r' where "deque_pop_back r = (Some y, r')" "ring_rep SMALL_LIST_INLINE r' ys"
      by (rule deque.rep_pop_back)
    with ListSmall snoc show ?thesis by simp
  qed
next
  case (ListSegmented s)
  with assms have "seg_rep s xs" by simp
  from seg.rep_pop_back [OF this] ListSegmented show ?thesis by auto
qed (use assms in simp_all)

lemma list_insert_rep:
  assumes "list_rep l xs" "i \<le> length xs"
  shows "\<exists>l'. list_insert l i v = Some l' \<and> list_rep l' (take i xs @ v # drop i xs)"
proof (cases l)
  case ListEmpty
  with assms show ?thesis by simp
next
  case (ListSingle x)
  obtain r where r: "expect_ok (deque_push_back deque_new x) = Some r" "ring_rep SMALL_LIST_INLINE r [x]"
    by (rule single_deque)
  obtain r' where "deque_insert r i v = Some (Inr (), r')"
    "ring_rep SMALL_LIST_INLINE r' (take i [x] @ v # drop i [x])"
    by (rule deque_insert_rep [OF r(2), of i v]) (use assms ListSingle in simp_all)
  with r(1) assms ListSingle show ?thesis by simp
next
  case (ListSmall r)
  with assms have rep: "ring_rep SMALL_LIST_INLINE r xs" by simp
  show ?thesis
  proof (cases "length xs = SMALL_LIST_INLINE")
    case True
    obtain s where s: "deque_into_segmented r = Some s" "seg_rep s xs"
      using rep by (rule deque_into_segmented_rep)
    from seg.rep_insert [OF s(2) assms(2), of v] s(1) ListSmall True deque.rep_full [OF rep]
    show ?thesis by auto
  next
    case False
    with deque.rep_le [OF rep] have "length xs < SMALL_LIST_INLINE" by simp
    with rep obtain r' where "deque_insert r i v = Some (Inr (), r')"
      "ring_rep SMALL_LIST_INLINE r' (take i xs @ v # drop i xs)"
      using assms(2) by (rule deque_insert_rep)
    with ListSmall False deque.rep_full [OF rep] show ?thesis by simp
  qed
next
  case (ListSegmented s)
  with assms have "seg_rep s xs" by simp
  from seg.rep_insert [OF this assms(2), of v] ListSegmented show ?thesis by auto
qed

lemma list_remove_rep:
  assumes "list_rep l xs" "i < length xs"
  shows "\<exists>l'. list_remove l i = Some (Some (xs ! i), l') \<and> list_rep l' (take i xs @ drop (Suc i) xs)"
proof (cases l)
  case (ListSmall r)
  with assms have "ring_rep SMALL_LIST_INLINE r xs" by simp
  then obtain r' where "deque_remove r i = Some (Some (xs ! i), r')"
    "ring_rep SMALL_LIST_INLINE r' (take i xs @ drop (Suc i) xs)"
    using assms(2) by (rule deque_remove_rep)
  with ListSmall show ?thesis by simp
next
  case (ListSegmented s)
  with assms have "seg_rep s xs" by simp
  from seg.rep_remove [OF this assms(2)] ListSegmented show ?thesis by auto
qed (use assms in simp_all)

lemma list_set_rep:
  assumes "list_rep l xs" "i < length xs"
  shows "\<exists>l'. list_set l i v = Some l' \<and> list_rep l' (xs[i := v])"
proof (cases l)
  case (ListSmall r)
  with assms have "ring_rep SMALL_LIST_INLINE r xs" by simp
  from deque.rep_set [OF this assms(2), of v] ListSmall show ?thesis by simp
next
  case (ListSegmented s)
  with assms have "seg_rep s xs" by simp
  from seg.rep_set [OF this assms(2), of v] ListSegmented show ?thesis by auto
qed (use assms in simp_all)

interpretation lo: sequence list_rep list_push_values list_pop_front list_pop_back list_get list_set
  list_insert list_remove list_iter list_len
  by unfold_locales
    (fact list_rep_iter list_rep_len list_rep_get list_push_values_rep list_pop_front_rep
      list_pop_back_rep list_set_rep list_insert_rep list_remove_rep)+

end
