(* ===== verification/Containers.thy ===== *)
theory Containers
  imports Env
begin

text \<open>
  \<^verbatim>\<open>FastHashMap\<close> and \<^verbatim>\<open>FastHashSet\<close>, the standard hash containers, as lists with distinct keys
  whose iteration order is a parameter of the environment; and the interface that the hash,
  set and sorted-set objects offer to the commands. The loops of the commands over such an
  object (insert many, remove many) are written over the interface and verified in the
  locale \<open>keyed\<close>.
\<close>

section \<open>HashMap\<close>

type_synonym 'v hmap = "(bytes \<times> 'v) list"

definition hm_insert :: "bytes \<Rightarrow> 'v \<Rightarrow> 'v hmap \<Rightarrow> 'v option \<times> 'v hmap" where
  "hm_insert k v m = (map_of m k, AList.update k v m)"

definition hm_remove :: "bytes \<Rightarrow> 'v hmap \<Rightarrow> 'v option \<times> 'v hmap" where
  "hm_remove k m = (map_of m k, AList.delete k m)"

definition hm_keys :: "('h, 't) env \<Rightarrow> 'v hmap \<Rightarrow> bytes list" where
  "hm_keys E m = map_order E (map fst m)"

definition hm_iter :: "('h, 't) env \<Rightarrow> 'v hmap \<Rightarrow> (bytes \<times> 'v) list" where
  "hm_iter E m = List.map_filter (\<lambda>k. map_option (Pair k) (map_of m k)) (hm_keys E m)"

section \<open>HashSet\<close>

type_synonym hset = "bytes list"

definition hs_insert :: "bytes \<Rightarrow> hset \<Rightarrow> bool \<times> hset" where
  "hs_insert x s = (if x \<in> set s then (False, s) else (True, s @ [x]))"

definition hs_remove :: "bytes \<Rightarrow> hset \<Rightarrow> bool \<times> hset" where
  "hs_remove x s = (x \<in> set s, remove1 x s)"

definition hs_iter :: "('h, 't) env \<Rightarrow> hset \<Rightarrow> bytes list" where
  "hs_iter E s = map_order E s"

lemma map_order_mset: "env_ok E \<Longrightarrow> mset (map_order E ks) = mset ks"
  by (simp add: env_ok_def)

lemma map_order_set [simp]: "env_ok E \<Longrightarrow> set (map_order E ks) = set ks"
  by (metis map_order_mset mset_eq_setD)

lemma map_order_distinct [simp]: "env_ok E \<Longrightarrow> distinct (map_order E ks) \<longleftrightarrow> distinct ks"
  by (metis map_order_mset mset_eq_imp_distinct_iff)

lemma map_order_length [simp]: "env_ok E \<Longrightarrow> length (map_order E ks) = length ks"
  by (metis map_order_mset size_mset)

lemma sort_map_order: "env_ok E \<Longrightarrow> distinct ks \<Longrightarrow> sort (map_order E ks) = sorted_list_of_set (set ks)"
  by (metis map_order_set map_order_distinct sorted_list_of_set_sort_remdups distinct_remdups_id)

lemma map_filter_Some: "(\<And>x. x \<in> set xs \<Longrightarrow> f x = Some (g x)) \<Longrightarrow> List.map_filter f xs = map g xs"
  by (induction xs) (auto simp: List.map_filter_def)

lemma hm_iter_map:
  assumes "env_ok E"
  shows "hm_iter E m = map (\<lambda>k. (k, the (map_of m k))) (hm_keys E m)"
  unfolding hm_iter_def
proof (rule map_filter_Some)
  fix k assume "k \<in> set (hm_keys E m)"
  then have "k \<in> dom (map_of m)" using assms by (simp add: hm_keys_def dom_map_of_conv_image_fst)
  then show "map_option (Pair k) (map_of m k) = Some (k, the (map_of m k))" by auto
qed

lemma hm_iter_mem:
  assumes "env_ok E"
  shows "(k, v) \<in> set (hm_iter E m) \<longleftrightarrow> map_of m k = Some v"
proof -
  have "k \<in> set (hm_keys E m)" if "map_of m k = Some v"
    using assms map_of_SomeD [OF that] by (force simp: hm_keys_def)
  then show ?thesis by (auto simp: hm_iter_def List.map_filter_def intro: rev_image_eqI [of k])
qed

lemma hm_iter_keys: "env_ok E \<Longrightarrow> map fst (hm_iter E m) = hm_keys E m"
  by (simp add: hm_iter_map o_def)

section \<open>Association lists\<close>

lemma position_delete:
  "distinct (map fst es) \<Longrightarrow> position (\<lambda>e. fst e = k) es = Some i \<Longrightarrow>
   i < length es \<and> map_of es k = Some (snd (es ! i)) \<and> take i es @ drop (Suc i) es = AList.delete k es"
proof (induction es arbitrary: i)
  case Nil
  then show ?case by simp
next
  case (Cons e es)
  show ?case
  proof (cases "fst e = k")
    case True
    with Cons.prems have "k \<notin> fst ` set es" by auto
    then have "AList.delete k es = es" by (induction es) auto
    with True Cons.prems show ?thesis by auto
  next
    case False
    with Cons.prems obtain j where "position (\<lambda>e. fst e = k) es = Some j" "i = Suc j" by auto
    with Cons False show ?thesis by auto
  qed
qed

lemma length_update: "k \<in> fst ` set es \<Longrightarrow> length (AList.update k v es) = length es"
  by (induction es) auto

lemma position_fst_None: "position (\<lambda>e. fst e = k) es = None \<longleftrightarrow> map_of es k = None"
  by (induction es) auto

lemma alist_sorted:
  assumes "distinct (map fst xs)" "sorted (map fst xs)"
  shows "xs = map (\<lambda>k. (k, the (map_of xs k))) (sorted_list_of_set (dom (map_of xs)))"
proof -
  have "map fst xs = sorted_list_of_set (dom (map_of xs))"
    using assms sorted_list_of_set.idem_if_sorted_distinct [of "map fst xs"]
    by (simp add: dom_map_of_conv_image_fst)
  moreover have "xs = map (\<lambda>k. (k, the (map_of xs k))) (map fst xs)"
  proof (rule nth_equalityI)
    fix i assume "i < length xs"
    then have "map_of xs (fst (xs ! i)) = Some (snd (xs ! i))"
      using assms(1) by (subst map_of_eq_Some_iff) simp_all
    with \<open>i < length xs\<close> show "xs ! i = map (\<lambda>k. (k, the (map_of xs k))) (map fst xs) ! i" by simp
  qed simp
  ultimately show ?thesis by simp
qed

lemma sort_key_alist:
  assumes "distinct (map fst xs)" "\<And>k. map_of xs k = m k"
  shows "sort_key fst xs = map (\<lambda>k. (k, the (m k))) (sorted_list_of_set (dom m))"
proof -
  have d: "distinct (map fst (sort_key fst xs))"
    using assms(1) mset_eq_imp_distinct_iff [of "map fst (sort_key fst xs)" "map fst xs"] by simp
  have "map_of (sort_key fst xs) = map_of xs"
    by (rule map_of_inject_set [THEN iffD2]) (use d assms(1) in simp_all)
  also have "\<dots> = m" using assms(2) by (simp add: fun_eq_iff)
  finally show ?thesis using alist_sorted [OF d] by (simp add: sorted_sort_key)
qed

section \<open>Loops over a keyed object\<close>

text \<open>\<^verbatim>\<open>items.iter().filter(|(k, v)| object.insert_slice(k, v)).count()\<close>\<close>

fun insert_each :: "('o \<Rightarrow> bytes \<Rightarrow> 'v \<Rightarrow> (bool \<times> 'o) option) \<Rightarrow> 'o \<Rightarrow> (bytes \<times> 'v) list \<Rightarrow> (nat \<times> 'o) option" where
  "insert_each ins ob [] = Some (0, ob)"
| "insert_each ins ob ((k, v) # kvs) =
     (case ins ob k v of
        None \<Rightarrow> None
      | Some (fresh, ob1) \<Rightarrow>
          (case insert_each ins ob1 kvs of
             None \<Rightarrow> None
           | Some (n, ob2) \<Rightarrow> Some ((if fresh then 1 else 0) + n, ob2)))"

text \<open>\<^verbatim>\<open>items.iter().filter(|k| object.remove(k))\<close>, collected.\<close>

fun remove_each :: "('o \<Rightarrow> bytes \<Rightarrow> bool \<times> 'o) \<Rightarrow> 'o \<Rightarrow> bytes list \<Rightarrow> bytes list \<times> 'o" where
  "remove_each rem ob [] = ([], ob)"
| "remove_each rem ob (k # ks) =
     (let (hit, ob1) = rem ob k; (gone, ob2) = remove_each rem ob1 ks
      in (if hit then k # gone else gone, ob2))"

locale keyed =
  fixes ok :: "'o \<Rightarrow> bool"
    and view :: "'o \<Rightarrow> bytes \<rightharpoonup> 'v"
    and insert_slice :: "'o \<Rightarrow> bytes \<Rightarrow> 'v \<Rightarrow> (bool \<times> 'o) option"
    and remove :: "'o \<Rightarrow> bytes \<Rightarrow> bool \<times> 'o"
    and size_of :: "'o \<Rightarrow> nat"
    and is_empty :: "'o \<Rightarrow> bool"
  assumes view_finite: "ok ob \<Longrightarrow> finite (dom (view ob))"
    and insert_law: "ok ob \<Longrightarrow> \<exists>ob'. insert_slice ob k v = Some (view ob k = None, ob') \<and>
          ok ob' \<and> view ob' = (view ob)(k \<mapsto> v)"
    and remove_law: "ok ob \<Longrightarrow> \<exists>ob'. remove ob k = (view ob k \<noteq> None, ob') \<and>
          ok ob' \<and> view ob' = (view ob)(k := None)"
    and size_law: "ok ob \<Longrightarrow> size_of ob = card (dom (view ob))"
    and empty_law: "ok ob \<Longrightarrow> is_empty ob \<longleftrightarrow> view ob = Map.empty"
begin

lemma remove_each_law:
  "ok ob \<Longrightarrow> \<exists>ob' gone. remove_each remove ob ks = (gone, ob') \<and> ok ob' \<and>
     view ob' = view ob |` (- set ks) \<and> set gone = set ks \<inter> dom (view ob) \<and> distinct gone"
proof (induction ks arbitrary: ob)
  case Nil
  then show ?case by simp
next
  case (Cons k ks)
  from remove_law [OF Cons.prems, of k] obtain ob1 where ob1: "remove ob k = (view ob k \<noteq> None, ob1)"
    "ok ob1" "view ob1 = (view ob)(k := None)" by blast
  from Cons.IH [OF ob1(2)] obtain ob2 gone where ob2: "remove_each remove ob1 ks = (gone, ob2)" "ok ob2"
    "view ob2 = view ob1 |` (- set ks)" "set gone = set ks \<inter> dom (view ob1)" "distinct gone"
    by blast
  let ?gone = "if view ob k \<noteq> None then k # gone else gone"
  have "remove_each remove ob (k # ks) = (?gone, ob2)" by (simp add: ob1(1) ob2(1))
  moreover have "view ob2 = view ob |` (- set (k # ks))"
    unfolding ob2(3) ob1(3) by (simp add: restrict_map_def fun_eq_iff)
  moreover have "set ?gone = set (k # ks) \<inter> dom (view ob)"
    using ob2(4) by (simp add: ob1(3)) blast
  moreover have "distinct ?gone" using ob2(4,5) by (simp add: ob1(3))
  ultimately show ?case using ob2(2) by blast
qed

lemma remove_each_count:
  assumes "ok ob"
  shows "length (fst (remove_each remove ob ks)) = card (set ks \<inter> dom (view ob))"
  using remove_each_law [OF assms, of ks] by (metis distinct_card fst_conv)

lemma insert_each_law:
  "ok ob \<Longrightarrow> \<exists>ob'. insert_each insert_slice ob kvs = Some (card (fst ` set kvs - dom (view ob)), ob') \<and>
     ok ob' \<and> view ob' = view ob ++ map_of (rev kvs)"
proof (induction kvs arbitrary: ob)
  case Nil
  then show ?case by simp
next
  case (Cons kv kvs)
  obtain k v where kv: "kv = (k, v)" by (cases kv)
  from insert_law [OF Cons.prems, of k v] obtain ob1 where ob1:
    "insert_slice ob k v = Some (view ob k = None, ob1)" "ok ob1" "view ob1 = (view ob)(k \<mapsto> v)" by blast
  from Cons.IH [OF ob1(2)] obtain ob2 where ob2:
    "insert_each insert_slice ob1 kvs = Some (card (fst ` set kvs - dom (view ob1)), ob2)" "ok ob2"
    "view ob2 = view ob1 ++ map_of (rev kvs)" by blast
  let ?D = "fst ` set kvs - dom (view ob1)"
  have D: "fst ` set (kv # kvs) - dom (view ob) = (if view ob k = None then insert k ?D else ?D)" "k \<notin> ?D"
    using ob1(3) kv by (auto simp: domIff image_iff split: if_splits)
  have "card (fst ` set (kv # kvs) - dom (view ob)) = (if view ob k = None then 1 else 0) + card ?D"
    using D by simp
  moreover have "view ob2 = view ob ++ map_of (rev (kv # kvs))"
    unfolding ob2(3) ob1(3) by (simp add: kv map_add_def fun_eq_iff split: option.split)
  ultimately show ?case using kv ob1(1) ob2 by simp
qed

lemma insert_each_empty:
  assumes "ok ob" "view ob = Map.empty"
  shows "\<exists>ob'. insert_each insert_slice ob kvs = Some (card (fst ` set kvs), ob') \<and>
     ok ob' \<and> view ob' = map_of (rev kvs)"
  using insert_each_law [OF assms(1), of kvs] assms(2) by simp

end

end
