(* ===== verification/HashObject.thy ===== *)
theory HashObject
  imports Containers
begin

text \<open>
  \<^verbatim>\<open>HashObject\<close> (\<^verbatim>\<open>hash_object.rs\<close>): up to four fields in an inline vector, then a hash map. Both
  representations are shown to behave as the finite map from fields to values they stand for.
\<close>

section \<open>State and operations\<close>

abbreviation SMALL_HASH_INLINE :: nat where "SMALL_HASH_INLINE \<equiv> 4"

datatype hash_object = HashSmall "(bytes \<times> bytes) list" | HashMap "bytes hmap"

definition replace_bytes :: "bytes \<Rightarrow> bytes \<Rightarrow> bytes" where
  "replace_bytes existing value = (if length existing = length value then value else [] @ value)"

text \<open>\<^verbatim>\<open>iter_mut().find(..)\<close> and \<^verbatim>\<open>replace_bytes\<close>: \<open>None\<close> when the field is not there.\<close>

fun small_replace :: "bytes \<Rightarrow> bytes \<Rightarrow> (bytes \<times> bytes) list \<Rightarrow> (bytes \<times> bytes) list option" where
  "small_replace field value [] = None"
| "small_replace field value ((f, v) # es) =
     (if f = field then Some ((f, replace_bytes v value) # es)
      else map_option (Cons (f, v)) (small_replace field value es))"

definition hash_single :: "bytes \<Rightarrow> bytes \<Rightarrow> hash_object" where
  "hash_single field value = HashSmall [(field, value)]"

text \<open>\<^verbatim>\<open>map_with_capacity\<close> only reserves memory.\<close>

definition hash_map_with_capacity :: "nat \<Rightarrow> hash_object" where
  "hash_map_with_capacity capacity = HashMap []"

definition hash_promote :: "(bytes \<times> bytes) list \<Rightarrow> bytes hmap" where
  "hash_promote old = fold (\<lambda>(f, v) m. snd (hm_insert f v m)) old []"

fun hash_insert_slice :: "hash_object \<Rightarrow> bytes \<Rightarrow> bytes \<Rightarrow> bool \<times> hash_object" where
  "hash_insert_slice (HashSmall es) field value =
     (if es \<noteq> [] \<and> fst (hd es) = field
      then (False, HashSmall ((fst (hd es), replace_bytes (snd (hd es)) value) # tl es))
      else case small_replace field value es of
             Some es' \<Rightarrow> (False, HashSmall es')
           | None \<Rightarrow>
               if length es < SMALL_HASH_INLINE then (True, HashSmall (es @ [(field, value)]))
               else (True, HashMap (snd (hm_insert field value (hash_promote es)))))"
| "hash_insert_slice (HashMap m) field value =
     (let (old, m') = hm_insert field value m in (old = None, HashMap m'))"

fun hash_get :: "hash_object \<Rightarrow> bytes \<Rightarrow> bytes option" where
  "hash_get (HashSmall es) field = map_of es field"
| "hash_get (HashMap m) field = map_of m field"

definition hash_contains_key :: "hash_object \<Rightarrow> bytes \<Rightarrow> bool" where
  "hash_contains_key h field \<longleftrightarrow> hash_get h field \<noteq> None"

fun hash_visit_entries :: "('h, 't) env \<Rightarrow> hash_object \<Rightarrow> (bytes \<times> bytes) list" where
  "hash_visit_entries E (HashSmall es) = es"
| "hash_visit_entries E (HashMap m) = hm_iter E m"

fun hash_visit_fields :: "('h, 't) env \<Rightarrow> hash_object \<Rightarrow> bytes list" where
  "hash_visit_fields E (HashSmall es) = map fst es"
| "hash_visit_fields E (HashMap m) = hm_keys E m"

fun hash_visit_values :: "('h, 't) env \<Rightarrow> hash_object \<Rightarrow> bytes list" where
  "hash_visit_values E (HashSmall es) = map snd es"
| "hash_visit_values E (HashMap m) = map snd (hm_iter E m)"

definition hash_fields :: "('h, 't) env \<Rightarrow> hash_object \<Rightarrow> bytes list" where
  "hash_fields E h = sort (case h of HashSmall es \<Rightarrow> map fst es | HashMap m \<Rightarrow> hm_keys E m)"

fun hash_values :: "('h, 't) env \<Rightarrow> hash_object \<Rightarrow> bytes list" where
  "hash_values E (HashSmall es) = map snd es"
| "hash_values E (HashMap m) = map snd (hm_iter E m)"

definition hash_entries :: "('h, 't) env \<Rightarrow> hash_object \<Rightarrow> (bytes \<times> bytes) list" where
  "hash_entries E h = sort_key fst (case h of HashSmall es \<Rightarrow> es | HashMap m \<Rightarrow> hm_iter E m)"

fun hash_remove :: "hash_object \<Rightarrow> bytes \<Rightarrow> bytes option \<times> hash_object" where
  "hash_remove (HashSmall es) field =
     (case position (\<lambda>e. fst e = field) es of
        None \<Rightarrow> (None, HashSmall es)
      | Some index \<Rightarrow> (Some (snd (es ! index)), HashSmall (take index es @ drop (Suc index) es)))"
| "hash_remove (HashMap m) field = (let (old, m') = hm_remove field m in (old, HashMap m'))"

text \<open>\<^verbatim>\<open>hash.remove(field).is_some()\<close>\<close>

definition hash_remove_is_some :: "hash_object \<Rightarrow> bytes \<Rightarrow> bool \<times> hash_object" where
  "hash_remove_is_some h field = (let (old, h') = hash_remove h field in (old \<noteq> None, h'))"

fun hash_len :: "hash_object \<Rightarrow> nat" where
  "hash_len (HashSmall es) = length es"
| "hash_len (HashMap m) = length m"

fun hash_is_empty :: "hash_object \<Rightarrow> bool" where
  "hash_is_empty (HashSmall es) \<longleftrightarrow> es = []"
| "hash_is_empty (HashMap m) \<longleftrightarrow> m = []"

section \<open>Representation\<close>

fun hash_alist :: "hash_object \<Rightarrow> (bytes \<times> bytes) list" where
  "hash_alist (HashSmall es) = es"
| "hash_alist (HashMap m) = m"

text \<open>No field occurs twice, and the inline form never exceeds its capacity.\<close>

fun hash_ok :: "hash_object \<Rightarrow> bool" where
  "hash_ok (HashSmall es) \<longleftrightarrow> distinct (map fst es) \<and> length es \<le> SMALL_HASH_INLINE"
| "hash_ok (HashMap m) \<longleftrightarrow> distinct (map fst m)"

lemma replace_bytes_eq [simp]: "replace_bytes v w = w"
  by (simp add: replace_bytes_def)

lemma hash_get_alist: "hash_get h = map_of (hash_alist h)"
  by (cases h) auto

lemma small_replace_None: "small_replace f v es = None \<longleftrightarrow> map_of es f = None"
  by (induction f v es rule: small_replace.induct) auto

lemma small_replace_Some:
  "small_replace f v es = Some es' \<Longrightarrow> map_of es f \<noteq> None \<and> map fst es' = map fst es \<and>
     map_of es' = (map_of es)(f \<mapsto> v)"
  by (induction f v es arbitrary: es' rule: small_replace.induct)
    (auto split: if_splits simp: fun_upd_twist)

lemma hash_promote_aux:
  "distinct (map fst m) \<Longrightarrow>
   distinct (map fst (fold (\<lambda>(f, v) m. snd (hm_insert f v m)) es m)) \<and>
   map_of (fold (\<lambda>(f, v) m. snd (hm_insert f v m)) es m) = map_of m ++ map_of (rev es)"
  by (induction es arbitrary: m)
    (auto simp: hm_insert_def distinct_update update_conv' map_add_def fun_eq_iff split: option.split)

lemma map_of_rev_distinct: "distinct (map fst es) \<Longrightarrow> map_of (rev es) = map_of es"
  by (rule map_of_inject_set [THEN iffD2]) (simp_all flip: rev_map)

lemma hash_promote_map:
  "distinct (map fst es) \<Longrightarrow> distinct (map fst (hash_promote es)) \<and> map_of (hash_promote es) = map_of es"
  using hash_promote_aux [of "[]" es] by (simp add: hash_promote_def map_of_rev_distinct)

lemma hash_insert_law:
  assumes "hash_ok h"
  shows "\<exists>h'. hash_insert_slice h f v = (hash_get h f = None, h') \<and> hash_ok h' \<and>
           hash_get h' = (hash_get h)(f \<mapsto> v)"
proof (cases h)
  case (HashMap m)
  with assms show ?thesis
    by (simp add: hm_insert_def distinct_update update_conv' hash_get_alist)
next
  case (HashSmall es)
  show ?thesis
  proof (cases "es \<noteq> [] \<and> fst (hd es) = f")
    case True
    with HashSmall assms show ?thesis by (cases es) (auto simp: hash_get_alist)
  next
    case False
    then have ne: "\<not> (es \<noteq> [] \<and> fst (hd es) = f)" .
    show ?thesis
    proof (cases "small_replace f v es")
      case (Some es')
      from small_replace_Some [OF this] HashSmall assms ne Some show ?thesis
        by (auto simp: hash_get_alist) (metis length_map)
    next
      case None
      then have "map_of es f = None" by (simp add: small_replace_None)
      then have "f \<notin> fst ` set es" by (simp add: map_of_eq_None_iff)
      with HashSmall assms ne None hash_promote_map [of es] \<open>map_of es f = None\<close> show ?thesis
        by (auto simp: hash_get_alist hm_insert_def distinct_update update_conv' map_add_def fun_eq_iff
            split: option.split)
    qed
  qed
qed

lemma hash_remove_law:
  assumes "hash_ok h"
  shows "\<exists>h'. hash_remove h f = (hash_get h f, h') \<and> hash_ok h' \<and> hash_get h' = (hash_get h)(f := None)"
proof (cases h)
  case (HashMap m)
  with assms show ?thesis
    by (simp add: hm_remove_def distinct_delete delete_conv' hash_get_alist)
next
  case (HashSmall es)
  then have d: "distinct (map fst es)" using assms by simp
  show ?thesis
  proof (cases "position (\<lambda>e. fst e = f) es")
    case None
    then have "map_of es f = None" by (simp add: position_fst_None)
    with None HashSmall assms show ?thesis by (auto simp: hash_get_alist fun_eq_iff)
  next
    case (Some i)
    note del = position_delete [OF d Some]
    have "length (AList.delete f es) \<le> length es" by (rule length_delete_le)
    with del Some HashSmall assms d show ?thesis
      by (auto simp: hash_get_alist delete_conv' distinct_delete)
  qed
qed

lemma hash_ok_distinct: "hash_ok h \<Longrightarrow> distinct (map fst (hash_alist h))"
  by (cases h) auto

lemma dom_hash_get: "dom (hash_get h) = fst ` set (hash_alist h)"
  by (simp add: hash_get_alist dom_map_of_conv_image_fst)

lemma hash_len_card: "hash_ok h \<Longrightarrow> hash_len h = card (dom (hash_get h))"
  using hash_ok_distinct [of h] distinct_card [of "map fst (hash_alist h)"]
  by (cases h) (simp_all add: dom_hash_get)

lemma hash_is_empty_iff: "hash_is_empty h \<longleftrightarrow> hash_get h = Map.empty"
  using dom_hash_get [of h] by (cases h) (auto simp: hash_get_alist dest: arg_cong [of _ _ dom])

lemma finite_hash [simp]: "finite (dom (hash_get h))"
  by (simp add: dom_hash_get)

interpretation ho: keyed hash_ok hash_get "\<lambda>h f v. Some (hash_insert_slice h f v)"
  hash_remove_is_some hash_len hash_is_empty
proof (unfold_locales, goal_cases)
  case (2 h f v)
  then show ?case using hash_insert_law [of h f v] by auto
next
  case (3 h f)
  then show ?case using hash_remove_law [of h f] by (auto simp: hash_remove_is_some_def)
qed (simp_all add: hash_len_card hash_is_empty_iff)

lemma hash_single_law: "hash_ok (hash_single f v) \<and> hash_get (hash_single f v) = [f \<mapsto> v]"
  by (simp add: hash_single_def hash_get_alist)

lemma hash_capacity_law: "hash_ok (hash_map_with_capacity n) \<and> hash_get (hash_map_with_capacity n) = Map.empty"
  by (simp add: hash_map_with_capacity_def hash_get_alist)

lemma hash_fields_sorted:
  assumes "env_ok E" "hash_ok h"
  shows "hash_fields E h = sorted_list_of_set (dom (hash_get h))"
proof (cases h)
  case (HashSmall es)
  with assms show ?thesis
    using sorted_list_of_set_sort_remdups [of "map fst es"]
    by (simp add: hash_fields_def dom_hash_get distinct_remdups_id)
next
  case (HashMap m)
  with assms show ?thesis by (simp add: hash_fields_def hm_keys_def dom_hash_get sort_map_order)
qed

lemma hash_entries_sorted:
  assumes "env_ok E" "hash_ok h"
  shows "hash_entries E h = map (\<lambda>f. (f, the (hash_get h f))) (sorted_list_of_set (dom (hash_get h)))"
proof (cases h)
  case (HashSmall es)
  with assms sort_key_alist [of es "hash_get h"] show ?thesis
    by (simp add: hash_entries_def hash_get_alist)
next
  case (HashMap m)
  have "distinct (map fst (hm_iter E m))" using assms HashMap by (simp add: hm_iter_keys hm_keys_def)
  moreover from this have "map_of (hm_iter E m) k = map_of m k" for k
    using hm_iter_mem [OF assms(1), of k _ m]
    by (metis (no_types, lifting) map_of_eq_Some_iff option.exhaust)
  ultimately show ?thesis
    using sort_key_alist [of "hm_iter E m" "hash_get h"] HashMap
    by (simp add: hash_entries_def hash_get_alist)
qed

end
