(* ===== verification/SetObject.thy ===== *)
theory SetObject
  imports Containers
begin

text \<open>
  \<^verbatim>\<open>SetObject\<close> (\<^verbatim>\<open>set_object.rs\<close>): up to four members in an inline vector, then a hash set, both
  shown to behave as the finite set of their members.
\<close>

section \<open>State and operations\<close>

abbreviation SMALL_SET_INLINE :: nat where "SMALL_SET_INLINE \<equiv> 4"

datatype set_object = SetSmall "bytes list" | SetMap hset

definition set_empty :: set_object where
  "set_empty = SetSmall []"

definition set_map_with_capacity :: "nat \<Rightarrow> set_object" where
  "set_map_with_capacity capacity = SetMap []"

definition set_promote :: "bytes list \<Rightarrow> hset" where
  "set_promote old = fold (\<lambda>x s. snd (hs_insert x s)) old []"

fun set_insert_slice :: "set_object \<Rightarrow> bytes \<Rightarrow> bool \<times> set_object" where
  "set_insert_slice (SetSmall es) member =
     (if es \<noteq> [] \<and> hd es = member then (False, SetSmall es)
      else if list_ex (\<lambda>existing. existing = member) es then (False, SetSmall es)
      else if length es < SMALL_SET_INLINE then (True, SetSmall (es @ [member]))
      else let (inserted, s) = hs_insert member (set_promote es) in (inserted, SetMap s))"
| "set_insert_slice (SetMap s) member =
     (let (inserted, s') = hs_insert member s in (inserted, SetMap s'))"

fun set_insert_many :: "set_object \<Rightarrow> bytes list \<Rightarrow> nat \<times> set_object" where
  "set_insert_many ob [] = (0, ob)"
| "set_insert_many ob (m # ms) =
     (let (fresh, ob1) = set_insert_slice ob m; (n, ob2) = set_insert_many ob1 ms
      in ((if fresh then 1 else 0) + n, ob2))"

fun set_remove :: "set_object \<Rightarrow> bytes \<Rightarrow> bool \<times> set_object" where
  "set_remove (SetSmall es) member =
     (case position (\<lambda>existing. existing = member) es of
        None \<Rightarrow> (False, SetSmall es)
      | Some index \<Rightarrow> (True, SetSmall (take index es @ drop (Suc index) es)))"
| "set_remove (SetMap s) member = (let (gone, s') = hs_remove member s in (gone, SetMap s'))"

fun set_contains :: "set_object \<Rightarrow> bytes \<Rightarrow> bool" where
  "set_contains (SetSmall es) member \<longleftrightarrow> list_ex (\<lambda>existing. existing = member) es"
| "set_contains (SetMap s) member \<longleftrightarrow> member \<in> set s"

fun set_len :: "set_object \<Rightarrow> nat" where
  "set_len (SetSmall es) = length es"
| "set_len (SetMap s) = length s"

fun set_is_empty :: "set_object \<Rightarrow> bool" where
  "set_is_empty (SetSmall es) \<longleftrightarrow> es = []"
| "set_is_empty (SetMap s) \<longleftrightarrow> s = []"

fun set_iter :: "('h, 't) env \<Rightarrow> set_object \<Rightarrow> bytes list" where
  "set_iter E (SetSmall es) = es"
| "set_iter E (SetMap s) = hs_iter E s"

fun set_visit_members :: "('h, 't) env \<Rightarrow> set_object \<Rightarrow> bytes list" where
  "set_visit_members E (SetSmall es) = es"
| "set_visit_members E (SetMap s) = hs_iter E s"

fun set_visit_members_limited :: "('h, 't) env \<Rightarrow> set_object \<Rightarrow> nat \<Rightarrow> bytes list" where
  "set_visit_members_limited E (SetSmall es) limit = take limit es"
| "set_visit_members_limited E (SetMap s) limit = take limit (hs_iter E s)"

section \<open>Representation\<close>

fun set_members_of :: "set_object \<Rightarrow> bytes list" where
  "set_members_of (SetSmall es) = es"
| "set_members_of (SetMap s) = s"

fun set_ok :: "set_object \<Rightarrow> bool" where
  "set_ok (SetSmall es) \<longleftrightarrow> distinct es \<and> length es \<le> SMALL_SET_INLINE"
| "set_ok (SetMap s) \<longleftrightarrow> distinct s"

definition set_view :: "set_object \<Rightarrow> bytes \<rightharpoonup> unit" where
  "set_view ob m = (if m \<in> set (set_members_of ob) then Some () else None)"

lemma dom_set_view: "dom (set_view ob) = set (set_members_of ob)"
  by (auto simp: set_view_def dom_def)

lemma set_contains_view: "set_contains ob m \<longleftrightarrow> set_view ob m \<noteq> None"
  by (cases ob) (auto simp: set_view_def list_ex_iff)

lemma set_promote_aux:
  "distinct s \<Longrightarrow> distinct (fold (\<lambda>x s. snd (hs_insert x s)) es s) \<and>
     set (fold (\<lambda>x s. snd (hs_insert x s)) es s) = set s \<union> set es"
  by (induction es arbitrary: s) (auto simp: hs_insert_def)

lemma set_promote_set: "distinct (set_promote es) \<and> set (set_promote es) = set es"
  using set_promote_aux [of "[]" es] by (simp add: set_promote_def)

lemma set_insert_law:
  assumes "set_ok ob"
  shows "\<exists>ob'. set_insert_slice ob m = (set_view ob m = None, ob') \<and> set_ok ob' \<and>
           set_view ob' = (set_view ob)(m \<mapsto> ())"
proof (cases ob)
  case (SetSmall es)
  show ?thesis
  proof (cases "m \<in> set es")
    case True
    with SetSmall assms show ?thesis by (auto simp: set_view_def list_ex_iff fun_eq_iff)
  next
    case False
    then have "\<not> (es \<noteq> [] \<and> hd es = m)" by auto
    with False SetSmall assms set_promote_set [of es] show ?thesis
      by (auto simp: set_view_def list_ex_iff fun_eq_iff hs_insert_def)
  qed
next
  case (SetMap s)
  with assms show ?thesis by (auto simp: set_view_def hs_insert_def fun_eq_iff)
qed

lemma position_remove1:
  "position (\<lambda>x. x = m) es = Some i \<Longrightarrow> m \<in> set es \<and> take i es @ drop (Suc i) es = remove1 m es"
  by (induction es arbitrary: i) (auto split: if_splits)

lemma set_remove_law:
  assumes "set_ok ob"
  shows "\<exists>ob'. set_remove ob m = (set_view ob m \<noteq> None, ob') \<and> set_ok ob' \<and>
           set_view ob' = (set_view ob)(m := None)"
proof (cases ob)
  case (SetSmall es)
  show ?thesis
  proof (cases "position (\<lambda>x. x = m) es")
    case None
    then have "m \<notin> set es" by (auto simp: position_None)
    with None SetSmall assms show ?thesis by (auto simp: set_view_def fun_eq_iff)
  next
    case (Some i)
    with position_remove1 [OF Some] SetSmall assms show ?thesis
      by (auto simp: set_view_def fun_eq_iff length_remove1)
  qed
next
  case (SetMap s)
  with assms show ?thesis by (auto simp: set_view_def hs_remove_def fun_eq_iff)
qed

lemma set_len_card: "set_ok ob \<Longrightarrow> set_len ob = card (dom (set_view ob))"
  by (cases ob) (simp_all add: dom_set_view distinct_card)

lemma set_is_empty_iff: "set_is_empty ob \<longleftrightarrow> set_view ob = Map.empty"
  using dom_set_view [of ob] by (cases ob) (auto dest: arg_cong [of _ _ dom])

interpretation so: keyed set_ok set_view "\<lambda>ob m _. Some (set_insert_slice ob m)"
  set_remove set_len set_is_empty
proof (unfold_locales, goal_cases)
  case (2 ob m v)
  then show ?case using set_insert_law [of ob m] by auto
next
  case (3 ob m)
  then show ?case using set_remove_law [of ob m] by auto
qed (simp_all add: set_len_card set_is_empty_iff dom_set_view)

lemma set_empty_law: "set_ok set_empty \<and> set_view set_empty = Map.empty"
  by (simp add: set_empty_def set_view_def fun_eq_iff)

lemma set_insert_many_each:
  "insert_each (\<lambda>ob m _. Some (set_insert_slice ob m)) ob (map (\<lambda>m. (m, ())) ms) =
     Some (set_insert_many ob ms)"
  by (induction ms arbitrary: ob) (auto split: prod.split)

lemma set_insert_many_law:
  assumes "set_ok ob"
  shows "\<exists>ob'. set_insert_many ob ms = (card (set ms - dom (set_view ob)), ob') \<and> set_ok ob' \<and>
           dom (set_view ob') = dom (set_view ob) \<union> set ms"
proof -
  have "fst ` set (map (\<lambda>m. (m, ())) ms) = set ms" by (simp add: image_image)
  with so.insert_each_law [OF assms, of "map (\<lambda>m. (m, ())) ms"] show ?thesis
    unfolding set_insert_many_each
    by (auto simp: dom_map_add dom_map_of_conv_image_fst image_image)
qed

lemma set_iter_members:
  assumes "env_ok E" "set_ok ob"
  shows "set (set_iter E ob) = dom (set_view ob)" "distinct (set_iter E ob)"
    "set_visit_members E ob = set_iter E ob"
    "set_visit_members_limited E ob n = take n (set_iter E ob)"
  using assms by (cases ob; simp add: dom_set_view hs_iter_def)+

end
