(* ===== verification/Results.thy ===== *)
theory Results
  imports Env
begin

text \<open>
  The result types that the object store returns to the command layer
  (\<^verbatim>\<open>redis_objects.rs\<close>).
\<close>

datatype redis_object_result =
    Simple string
  | Integer int
  | IntegerArray "int list"
  | Bulk "bytes option"
  | Array "bytes option list"
  | WrongType

datatype read_outcome = Written | Missing | WrongTypeOutcome

datatype write_attempt = Complete redis_object_result | MissingObject

text \<open>The items that a \<^verbatim>\<open>visit\<close> method passes to its callback.\<close>

datatype array_item = Begin nat | Item "bytes option"

datatype zset_range_item = ZBegin nat | ZEntry bytes f64

datatype redis_object_value =
    HashValue "(bytes \<times> bytes) list"
  | ListValue "bytes list"
  | SetValue "bytes list"
  | ZSetValue "(bytes \<times> f64) list"

text \<open>\<^verbatim>\<open>bool as i64\<close> and \<^verbatim>\<open>bool as usize\<close>.\<close>

definition bool_int :: "bool \<Rightarrow> int" where
  "bool_int b = (if b then 1 else 0)"

end
