(* ===== verification/ZSetObject.thy ===== *)
theory ZSetObject
  imports Containers Results ListObject
begin

text \<open>
  \<^verbatim>\<open>ZSetObject\<close> (\<^verbatim>\<open>zset_object.rs\<close>): up to four members in an inline vector sorted by score and
  member, then a hash map of scores next to an order-statistics tree. The theorems show
  that both representations are the sorted sequence of the score map they stand for, and
  that every operation acts on that sequence.
\<close>

section \<open>State\<close>

abbreviation SMALL_ZSET_INLINE :: nat where "SMALL_ZSET_INLINE \<equiv> 4"

datatype 't zset_object = ZSmall "(bytes \<times> f64) list" | ZMap "f64 hmap" 't

definition zk :: "bytes \<times> f64 \<Rightarrow> zkey" where
  "zk e = ZKey (snd e) (fst e)"

definition zentry :: "zkey \<Rightarrow> bytes \<times> f64" where
  "zentry k = (zk_member k, zk_score k)"

definition sort_small_zset :: "(bytes \<times> f64) list \<Rightarrow> (bytes \<times> f64) list" where
  "sort_small_zset es = sort_key zk es"

section \<open>Construction, update and removal\<close>

definition zset_single :: "bytes \<Rightarrow> f64 \<Rightarrow> 't zset_object" where
  "zset_single member score = ZSmall [(member, score)]"

definition zset_map_with_capacity :: "('h, 't) env \<Rightarrow> nat \<Rightarrow> 't zset_object" where
  "zset_map_with_capacity E capacity = ZMap [] (its_new E)"

text \<open>The copying loop of the promotion to the map form.\<close>

fun zset_promote :: "('h, 't) env \<Rightarrow> (bytes \<times> f64) list \<Rightarrow> f64 hmap \<Rightarrow> 't \<Rightarrow> f64 hmap \<times> 't" where
  "zset_promote E [] scores ordered = (scores, ordered)"
| "zset_promote E ((m, s) # es) scores ordered =
     zset_promote E es (snd (hm_insert m s scores)) (its_insert E ordered (ZKey s m))"

fun zset_insert_slice :: "('h, 't) env \<Rightarrow> 't zset_object \<Rightarrow> bytes \<Rightarrow> f64 \<Rightarrow> (bool \<times> 't zset_object) option" where
  "zset_insert_slice E (ZSmall es) member score =
     (if length es = 1 \<and> fst (hd es) = member
      then Some (False, ZSmall [(fst (hd es), score)])
      else if map_of es member \<noteq> None
      then Some (False, ZSmall (sort_small_zset (AList.update member score es)))
      else if length es < SMALL_ZSET_INLINE
      then Some (True, ZSmall (sort_small_zset (es @ [(member, score)])))
      else let (scores, ordered) = zset_promote E es [] (its_new E)
           in Some (True, ZMap (snd (hm_insert member score scores))
                               (its_insert E ordered (ZKey score member))))"
| "zset_insert_slice E (ZMap scores ordered) member score =
     (case map_of scores member of
        Some old_score \<Rightarrow>
          if f64_total_key old_score \<noteq> f64_total_key score
          then let ordered1 = its_remove E ordered (ZKey old_score member)
               in if map_of scores member = None then None
                  else Some (False, ZMap (AList.update member score scores)
                                         (its_insert E ordered1 (ZKey score member)))
          else Some (False, ZMap scores ordered)
      | None \<Rightarrow>
          Some (True, ZMap (snd (hm_insert member score scores))
                           (its_insert E ordered (ZKey score member))))"

fun zset_remove :: "('h, 't) env \<Rightarrow> 't zset_object \<Rightarrow> bytes \<Rightarrow> bool \<times> 't zset_object" where
  "zset_remove E (ZSmall es) member =
     (case position (\<lambda>e. fst e = member) es of
        None \<Rightarrow> (False, ZSmall es)
      | Some index \<Rightarrow> (True, ZSmall (take index es @ drop (Suc index) es)))"
| "zset_remove E (ZMap scores ordered) member =
     (case hm_remove member scores of
        (None, _) \<Rightarrow> (False, ZMap scores ordered)
      | (Some score, scores') \<Rightarrow> (True, ZMap scores' (its_remove E ordered (ZKey score member))))"

section \<open>Queries\<close>

fun zset_score :: "'t zset_object \<Rightarrow> bytes \<Rightarrow> f64 option" where
  "zset_score (ZSmall es) member = map_of es member"
| "zset_score (ZMap scores ordered) member = map_of scores member"

fun zset_len :: "'t zset_object \<Rightarrow> nat" where
  "zset_len (ZSmall es) = length es"
| "zset_len (ZMap scores ordered) = length scores"

fun zset_is_empty :: "'t zset_object \<Rightarrow> bool" where
  "zset_is_empty (ZSmall es) \<longleftrightarrow> es = []"
| "zset_is_empty (ZMap scores ordered) \<longleftrightarrow> scores = []"

definition extreme_ordered_item :: "('h, 't) env \<Rightarrow> 't \<Rightarrow> bool \<Rightarrow> zkey option" where
  "extreme_ordered_item E ordered hi_end = (if hi_end then its_last E ordered else its_first E ordered)"

text \<open>The two loops of \<^verbatim>\<open>pop_extreme\<close>.\<close>

fun small_pop_loop :: "nat \<Rightarrow> bool \<Rightarrow> (bytes \<times> f64) list \<Rightarrow> ((bytes \<times> f64) list \<times> (bytes \<times> f64) list) option" where
  "small_pop_loop 0 hi_end es = Some ([], es)"
| "small_pop_loop (Suc n) hi_end es = do {
     index \<leftarrow> (if hi_end then usize_sub (length es) 1 else Some 0);
     (e, es1) \<leftarrow> vec_remove index es;
     (popped, es2) \<leftarrow> small_pop_loop n hi_end es1;
     Some (e # popped, es2)
   }"

fun map_pop_loop :: "('h, 't) env \<Rightarrow> nat \<Rightarrow> bool \<Rightarrow> f64 hmap \<Rightarrow> 't \<Rightarrow> (bytes \<times> f64) list \<times> f64 hmap \<times> 't" where
  "map_pop_loop E 0 hi_end scores ordered = ([], scores, ordered)"
| "map_pop_loop E (Suc n) hi_end scores ordered =
     (case extreme_ordered_item E ordered hi_end of
        None \<Rightarrow> ([], scores, ordered)
      | Some item \<Rightarrow>
          let (popped, r) = map_pop_loop E n hi_end (snd (hm_remove (zk_member item) scores))
                              (its_remove E ordered item)
          in ((zk_member item, zk_score item) # popped, r))"

fun zset_pop_extreme :: "('h, 't) env \<Rightarrow> 't zset_object \<Rightarrow> nat \<Rightarrow> bool \<Rightarrow> ((bytes \<times> f64) list \<times> 't zset_object) option" where
  "zset_pop_extreme E (ZSmall es) n hi_end =
     map_option (apsnd ZSmall) (small_pop_loop (min n (length es)) hi_end es)"
| "zset_pop_extreme E (ZMap scores ordered) n hi_end =
     (let (popped, scores', ordered') = map_pop_loop E (min n (length scores)) hi_end scores ordered
      in Some (popped, ZMap scores' ordered'))"

definition score_matches_lower :: "f64 \<Rightarrow> f64 \<Rightarrow> bool \<Rightarrow> bool" where
  "score_matches_lower score lo inclusive = (if inclusive then f64_le lo score else f64_lt lo score)"

definition score_matches_upper :: "f64 \<Rightarrow> f64 \<Rightarrow> bool \<Rightarrow> bool" where
  "score_matches_upper score hi inclusive = (if inclusive then f64_le score hi else f64_lt score hi)"

definition range_covers_sorted_scores ::
  "f64 option \<Rightarrow> f64 option \<Rightarrow> nat \<Rightarrow> f64 \<Rightarrow> bool \<Rightarrow> f64 \<Rightarrow> bool \<Rightarrow> bool" where
  "range_covers_sorted_scores first final n lo lo_incl hi hi_incl =
     (if n = 0 then True
      else case (first, final) of
             (Some f, Some l) \<Rightarrow>
               score_matches_lower f lo lo_incl \<and> score_matches_upper l hi hi_incl
           | _ \<Rightarrow> False)"

text \<open>The binary search; \<open>None\<close> is the panic on a missing index.\<close>

function zset_partition_loop :: "('h, 't) env \<Rightarrow> 't \<Rightarrow> (zkey \<Rightarrow> bool) \<Rightarrow> nat \<Rightarrow> nat \<Rightarrow> nat option" where
  "zset_partition_loop E ordered pred low high =
     (if low < high
      then let mid = low + (high - low) div 2
           in case its_key_at E ordered mid of
                None \<Rightarrow> None
              | Some item \<Rightarrow>
                  if pred item then zset_partition_loop E ordered pred (mid + 1) high
                  else zset_partition_loop E ordered pred low mid
      else Some low)"
  by pat_completeness auto
termination
  by (relation "measure (\<lambda>(E, ordered, pred, low, high). high - low)") auto

declare zset_partition_loop.simps [simp del]

definition zset_partition_point :: "('h, 't) env \<Rightarrow> 't \<Rightarrow> (zkey \<Rightarrow> bool) \<Rightarrow> nat option" where
  "zset_partition_point E ordered pred = zset_partition_loop E ordered pred 0 (its_len E ordered)"

fun zset_count_by_score :: "('h, 't) env \<Rightarrow> 't zset_object \<Rightarrow> f64 \<Rightarrow> bool \<Rightarrow> f64 \<Rightarrow> bool \<Rightarrow> nat option" where
  "zset_count_by_score E (ZSmall es) lo lo_incl hi hi_incl =
     (if range_covers_sorted_scores
           (if es = [] then None else Some (snd (hd es)))
           (if es = [] then None else Some (snd (last es)))
           (length es) lo lo_incl hi hi_incl
      then Some (length es)
      else Some (length (filter (\<lambda>e. score_matches_lower (snd e) lo lo_incl \<and>
                                     score_matches_upper (snd e) hi hi_incl) es)))"
| "zset_count_by_score E (ZMap scores ordered) lo lo_incl hi hi_incl =
     (if scores = [] then Some 0
      else if range_covers_sorted_scores
           (map_option zk_score (its_first E ordered)) (map_option zk_score (its_last E ordered))
           (length scores) lo lo_incl hi hi_incl
      then Some (length scores)
      else do {
        start \<leftarrow> zset_partition_point E ordered
          (\<lambda>item. if lo_incl then f64_lt (zk_score item) lo else f64_le (zk_score item) lo);
        stop \<leftarrow> zset_partition_point E ordered
          (\<lambda>item. if hi_incl then f64_le (zk_score item) hi else f64_lt (zk_score item) hi);
        Some (stop - start)
      })"

text \<open>The outer option is the panic of \<^verbatim>\<open>ordered.len() - rank - 1\<close>.\<close>

fun zset_rank :: "('h, 't) env \<Rightarrow> 't zset_object \<Rightarrow> bytes \<Rightarrow> bool \<Rightarrow> nat option option" where
  "zset_rank E (ZSmall es) member rv =
     Some (position (\<lambda>e. fst e = member) (if rv then rev es else es))"
| "zset_rank E (ZMap scores ordered) member rv =
     (case map_of scores member of
        None \<Rightarrow> Some None
      | Some target_score \<Rightarrow>
          (case its_index_of E ordered (ZKey target_score member) of
             None \<Rightarrow> Some None
           | Some rank \<Rightarrow>
               if rv then do {
                 n \<leftarrow> usize_sub (its_len E ordered) rank;
                 r \<leftarrow> usize_sub n 1;
                 Some (Some r)
               }
               else Some (Some rank)))"

text \<open>
  The entries that \<^verbatim>\<open>range\<close>, \<^verbatim>\<open>range_visit\<close> and \<^verbatim>\<open>range_entries_visit\<close> produce in the map form
  at the normalized indices: by index lookup when the range starts far from the front,
  by skipping the iterator otherwise.
\<close>

definition ordered_slice :: "('h, 't) env \<Rightarrow> 't \<Rightarrow> nat \<Rightarrow> nat \<Rightarrow> zkey list" where
  "ordered_slice E ordered start stop =
     (let count = stop - start + 1
      in if count < start then List.map_filter (its_key_at E ordered) [start..<Suc stop]
         else take count (drop start (its_iter E ordered)))"

fun zset_range :: "('h, 't) env \<Rightarrow> 't zset_object \<Rightarrow> int \<Rightarrow> int \<Rightarrow> bytes option list" where
  "zset_range E (ZSmall es) start stop =
     (case normalize_range start stop (length es) of
        None \<Rightarrow> []
      | Some (a, b) \<Rightarrow> map (\<lambda>e. Some (fst e)) (take (b - a + 1) (drop a es)))"
| "zset_range E (ZMap scores ordered) start stop =
     (case normalize_range start stop (its_len E ordered) of
        None \<Rightarrow> []
      | Some (a, b) \<Rightarrow> map (\<lambda>k. Some (zk_member k)) (ordered_slice E ordered a b))"

fun zset_range_visit :: "('h, 't) env \<Rightarrow> 't zset_object \<Rightarrow> int \<Rightarrow> int \<Rightarrow> array_item list" where
  "zset_range_visit E (ZSmall es) start stop =
     (case normalize_range start stop (length es) of
        None \<Rightarrow> [Begin 0]
      | Some (a, b) \<Rightarrow>
          Begin (b - a + 1) # map (\<lambda>e. Item (Some (fst e))) (take (b - a + 1) (drop a es)))"
| "zset_range_visit E (ZMap scores ordered) start stop =
     (case normalize_range start stop (its_len E ordered) of
        None \<Rightarrow> [Begin 0]
      | Some (a, b) \<Rightarrow>
          Begin (b - a + 1) # map (\<lambda>k. Item (Some (zk_member k))) (ordered_slice E ordered a b))"

fun zset_range_entries_visit ::
  "('h, 't) env \<Rightarrow> 't zset_object \<Rightarrow> int \<Rightarrow> int \<Rightarrow> bool \<Rightarrow> zset_range_item list option" where
  "zset_range_entries_visit E (ZSmall es) start stop rv =
     (case normalize_range start stop (length es) of
        None \<Rightarrow> Some [ZBegin 0]
      | Some (a, b) \<Rightarrow>
          Some (ZBegin (b - a + 1) #
                map (\<lambda>e. ZEntry (fst e) (snd e))
                  (take (b - a + 1) (drop a (if rv then rev es else es)))))"
| "zset_range_entries_visit E (ZMap scores ordered) start stop rv =
     (case normalize_range start stop (its_len E ordered) of
        None \<Rightarrow> Some [ZBegin 0]
      | Some (a, b) \<Rightarrow>
          (let emit = map (\<lambda>k. ZEntry (zk_member k) (zk_score k)) in
           if rv then do {
             n1 \<leftarrow> usize_sub (its_len E ordered) 1;
             first \<leftarrow> usize_sub n1 b;
             final \<leftarrow> usize_sub n1 a;
             Some (ZBegin (b - a + 1) #
                   emit (List.map_filter (its_key_at E ordered) (rev [first..<Suc final])))
           }
           else Some (ZBegin (b - a + 1) # emit (ordered_slice E ordered a b))))"

fun zset_entries :: "('h, 't) env \<Rightarrow> 't zset_object \<Rightarrow> (bytes \<times> f64) list" where
  "zset_entries E (ZSmall es) = es"
| "zset_entries E (ZMap scores ordered) = map (\<lambda>k. (zk_member k, zk_score k)) (its_iter E ordered)"

section \<open>Representation\<close>

text \<open>The ordered keys of a score map.\<close>

definition keyset :: "(bytes \<rightharpoonup> f64) \<Rightarrow> zkey set" where
  "keyset v = {k. v (zk_member k) = Some (zk_score k)}"

definition zcanon :: "(bytes \<rightharpoonup> f64) \<Rightarrow> (bytes \<times> f64) list" where
  "zcanon v = map zentry (sorted_list_of_set (keyset v))"

fun zset_keys :: "('h, 't) env \<Rightarrow> 't zset_object \<Rightarrow> zkey list" where
  "zset_keys E (ZSmall es) = map zk es"
| "zset_keys E (ZMap scores ordered) = its_iter E ordered"

fun zset_ok :: "('h, 't) env \<Rightarrow> 't zset_object \<Rightarrow> bool" where
  "zset_ok E (ZSmall es) \<longleftrightarrow>
     sorted_wrt (<) (map zk es) \<and> distinct (map fst es) \<and> length es \<le> SMALL_ZSET_INLINE"
| "zset_ok E (ZMap scores ordered) \<longleftrightarrow>
     distinct (map fst scores) \<and> sorted_wrt (<) (its_iter E ordered) \<and>
     set (its_iter E ordered) = keyset (map_of scores)"

lemma zk_simps [simp]: "zk_score (zk e) = snd e" "zk_member (zk e) = fst e" "zentry (zk e) = e" "zk (zentry k) = k"
  by (simp_all add: zk_def zentry_def)

lemma zentry_simps [simp]: "fst (zentry k) = zk_member k" "snd (zentry k) = zk_score k"
  by (simp_all add: zentry_def)

lemma zk_inj: "inj zk"
  by (rule inj_on_inverseI [of _ zentry]) simp

lemma keyset_upd: "keyset (v(m \<mapsto> s)) = insert (ZKey s m) (keyset v - {k. zk_member k = m})"
  by (auto simp: keyset_def split: if_splits)

lemma keyset_del: "keyset (v(m := None)) = keyset v - {k. zk_member k = m}"
  by (auto simp: keyset_def split: if_splits)

lemma keyset_member: "{k \<in> keyset v. zk_member k = m} = (case v m of None \<Rightarrow> {} | Some s \<Rightarrow> {ZKey s m})"
  by (auto simp: keyset_def split: option.split)

lemma keyset_empty [simp]: "keyset Map.empty = {}"
  by (simp add: keyset_def)

lemma keyset_alist:
  assumes "distinct (map fst es)"
  shows "zk ` set es = keyset (map_of es)"
proof -
  have "k \<in> zk ` set es \<longleftrightarrow> zentry k \<in> set es" for k
    using zk_simps(3,4) by (metis imageE imageI)
  then show ?thesis using assms by (auto simp: keyset_def zentry_def)
qed

lemma zset_keys_sorted: "zset_ok E z \<Longrightarrow> sorted_wrt (<) (zset_keys E z)"
  by (cases z) auto

lemma zset_score_eq: "zset_score (ZSmall es) = map_of es" "zset_score (ZMap scores t) = map_of scores"
  by (simp_all add: fun_eq_iff)

lemma zset_keys_set: "zset_ok E z \<Longrightarrow> set (zset_keys E z) = keyset (zset_score z)"
  by (cases z) (simp_all add: keyset_alist zset_score_eq)

lemma zset_entries_keys: "zset_entries E z = map zentry (zset_keys E z)"
  by (cases z) (simp_all add: zentry_def o_def zk_def)

lemma zset_entries_canon:
  assumes "zset_ok E z"
  shows "zset_entries E z = zcanon (zset_score z)"
proof -
  have "sorted (zset_keys E z)" "distinct (zset_keys E z)"
    using zset_keys_sorted [OF assms] by (simp_all add: strict_sorted_iff)
  then have "sorted_list_of_set (set (zset_keys E z)) = zset_keys E z"
    by (simp add: sorted_list_of_set.idem_if_sorted_distinct)
  then show ?thesis by (simp add: zset_entries_keys zcanon_def zset_keys_set [OF assms])
qed

lemma index_tree_okD:
  assumes "env_ok E"
  shows "its_iter E (its_new E) = []"
    "sorted_wrt (<) (its_iter E t) \<Longrightarrow> sorted_wrt (<) (its_iter E (its_insert E t k))"
    "sorted_wrt (<) (its_iter E t) \<Longrightarrow> set (its_iter E (its_insert E t k)) = insert k (set (its_iter E t))"
    "sorted_wrt (<) (its_iter E t) \<Longrightarrow> its_iter E (its_remove E t k) = remove1 k (its_iter E t)"
    "its_len E t = length (its_iter E t)"
    "its_first E t = (case its_iter E t of [] \<Rightarrow> None | k # _ \<Rightarrow> Some k)"
    "its_last E t = (if its_iter E t = [] then None else Some (last (its_iter E t)))"
    "its_key_at E t i = (if i < length (its_iter E t) then Some (its_iter E t ! i) else None)"
    "sorted_wrt (<) (its_iter E t) \<Longrightarrow> its_index_of E t k = position (\<lambda>x. x = k) (its_iter E t)"
  using assms by (simp_all add: env_ok_def index_tree_ok_def)

lemma strict_remove1:
  fixes xs :: "zkey list"
  assumes "sorted_wrt (<) xs"
  shows "sorted_wrt (<) (remove1 k xs)" "set (remove1 k xs) = set xs - {k}"
  using assms by (simp_all add: strict_sorted_iff sorted_remove1)

section \<open>Update and removal\<close>

lemma small_sort_ok:
  assumes "distinct (map fst es)" "length es \<le> SMALL_ZSET_INLINE"
  shows "zset_ok E (ZSmall (sort_small_zset es))" "map_of (sort_small_zset es) = map_of es"
proof -
  let ?ss = "sort_key zk es"
  have d: "distinct (map fst ?ss)"
    using assms(1) mset_eq_imp_distinct_iff [of "map fst ?ss" "map fst es"] by simp
  then have "distinct ?ss" by (simp add: distinct_map)
  then have "distinct (map zk ?ss)" by (simp add: distinct_map inj_on_subset [OF zk_inj])
  then have "sorted_wrt (<) (map zk ?ss)" by (simp add: strict_sorted_iff)
  with d assms(2) show "zset_ok E (ZSmall (sort_small_zset es))" by (simp add: sort_small_zset_def)
  show "map_of (sort_small_zset es) = map_of es"
    unfolding sort_small_zset_def
    by (rule map_of_inject_set [THEN iffD2]) (use d assms(1) in simp_all)
qed

lemma zmap_insert_ok:
  assumes E: "env_ok E" and z: "zset_ok E (ZMap scores t)" and "map_of scores m = None"
  shows "zset_ok E (ZMap (AList.update m s scores) (its_insert E t (ZKey s m)))"
proof -
  have "keyset (map_of scores) - {k. zk_member k = m} = keyset (map_of scores)"
    using assms(3) by (auto simp: keyset_def)
  with z show ?thesis
    by (simp add: index_tree_okD(2,3) [OF E] distinct_update update_conv' keyset_upd)
qed

lemma zmap_remove_ok:
  assumes E: "env_ok E" and z: "zset_ok E (ZMap scores t)" and m: "map_of scores m = Some s"
  shows "zset_ok E (ZMap (AList.delete m scores) (its_remove E t (ZKey s m)))"
proof -
  have "keyset (map_of scores) - {ZKey s m} = keyset (map_of scores) - {k. zk_member k = m}"
    using m by (auto simp: keyset_def)
  with z show ?thesis
    by (simp add: index_tree_okD(4) [OF E] strict_remove1 distinct_delete delete_conv' keyset_del)
qed

lemma zmap_update_ok:
  assumes E: "env_ok E" and z: "zset_ok E (ZMap scores t)" and m: "map_of scores m = Some old"
  shows "zset_ok E (ZMap (AList.update m s scores) (its_insert E (its_remove E t (ZKey old m)) (ZKey s m)))"
proof -
  have "keyset (map_of scores) - {ZKey old m} = keyset (map_of scores) - {k. zk_member k = m}"
    using m by (auto simp: keyset_def)
  with z show ?thesis
    by (simp add: index_tree_okD(2-4) [OF E] strict_remove1 distinct_update update_conv' keyset_upd)
qed

lemma zset_promote_ok:
  assumes "env_ok E"
  shows "zset_ok E (ZMap scores t) \<Longrightarrow> distinct (map fst es) \<Longrightarrow>
    fst ` set es \<inter> dom (map_of scores) = {} \<Longrightarrow>
    \<exists>sc' t'. zset_promote E es scores t = (sc', t') \<and> zset_ok E (ZMap sc' t') \<and>
      map_of sc' = map_of scores ++ map_of es"
proof (induction es arbitrary: scores t)
  case Nil
  then show ?case by simp
next
  case (Cons e es)
  obtain m s where e: "e = (m, s)" by (cases e)
  with Cons.prems have none: "map_of scores m = None" and nm: "m \<notin> fst ` set es" by auto
  have ok: "zset_ok E (ZMap (AList.update m s scores) (its_insert E t (ZKey s m)))"
    using zmap_insert_ok [OF assms Cons.prems(1) none] .
  have "fst ` set es \<inter> dom (map_of (AList.update m s scores)) = {}" "distinct (map fst es)"
    using Cons.prems e nm by (auto simp: update_conv')
  from Cons.IH [OF ok this(2,1)] obtain sc' t' where
    "zset_promote E es (AList.update m s scores) (its_insert E t (ZKey s m)) = (sc', t')"
    "zset_ok E (ZMap sc' t')" "map_of sc' = map_of (AList.update m s scores) ++ map_of es" by blast
  moreover have "map_of (AList.update m s scores) ++ map_of es = map_of scores ++ map_of (e # es)"
    using nm map_of_eq_None_iff [of es m]
    by (auto simp: e update_conv' map_add_def fun_eq_iff split: option.split simp del: map_of_eq_None_iff)
  ultimately have "zset_promote E (e # es) scores t = (sc', t') \<and> zset_ok E (ZMap sc' t') \<and>
      map_of sc' = map_of scores ++ map_of (e # es)"
    by (simp only: e zset_promote.simps hm_insert_def snd_conv simp_thms)
  then show ?case by blast
qed

lemma zset_insert_small:
  assumes E: "env_ok E" and z: "zset_ok E (ZSmall es)"
  shows "\<exists>z'. zset_insert_slice E (ZSmall es) m s = Some (map_of es m = None, z') \<and> zset_ok E z' \<and>
           zset_score z' = (map_of es)(m \<mapsto> s)"
proof -
  have d: "distinct (map fst es)" and l: "length es \<le> SMALL_ZSET_INLINE" using z by simp_all
  consider (one) "length es = 1" "fst (hd es) = m"
    | (upd) "\<not> (length es = 1 \<and> fst (hd es) = m)" "map_of es m \<noteq> None"
    | (push) "\<not> (length es = 1 \<and> fst (hd es) = m)" "map_of es m = None" "length es < SMALL_ZSET_INLINE"
    | (promote) "\<not> (length es = 1 \<and> fst (hd es) = m)" "map_of es m = None" "\<not> length es < SMALL_ZSET_INLINE"
    by blast
  then show ?thesis
  proof cases
    case one
    then obtain e where "es = [e]" "fst e = m" by (auto simp: length_Suc_conv)
    then show ?thesis by (auto simp: zset_score_eq fun_eq_iff)
  next
    case upd
    have "m \<in> fst ` set es" using upd(2) by (metis map_of_eq_None_iff)
    then have "length (AList.update m s es) = length es" by (rule length_update)
    with upd d l small_sort_ok [of "AList.update m s es"] show ?thesis
      by (auto simp: distinct_update zset_score_eq update_conv')
  next
    case push
    then have "m \<notin> fst ` set es" by (simp add: map_of_eq_None_iff)
    with push d small_sort_ok [of "es @ [(m, s)]"] show ?thesis
      by (auto simp: zset_score_eq map_add_def fun_eq_iff split: option.split)
  next
    case promote
    have "zset_ok E (ZMap [] (its_new E))" by (simp add: index_tree_okD(1) [OF E])
    from zset_promote_ok [OF E this d] obtain sc t where sc: "zset_promote E es [] (its_new E) = (sc, t)"
      "zset_ok E (ZMap sc t)" "map_of sc = map_of es" by auto
    from zmap_insert_ok [OF E sc(2)] sc promote show ?thesis
      by (auto simp: hm_insert_def zset_score_eq update_conv')
  qed
qed

lemma zset_insert_map:
  assumes E: "env_ok E" and z: "zset_ok E (ZMap scores t)"
  shows "\<exists>z'. zset_insert_slice E (ZMap scores t) m s = Some (map_of scores m = None, z') \<and> zset_ok E z' \<and>
           zset_score z' = (map_of scores)(m \<mapsto> s)"
proof (cases "map_of scores m")
  case None
  with zmap_insert_ok [OF E z None, of s] show ?thesis
    by (simp add: hm_insert_def zset_score_eq update_conv' del: zset_ok.simps)
next
  case (Some old)
  show ?thesis
  proof (cases "old = s")
    case True
    with Some z show ?thesis by (auto simp: zset_score_eq fun_eq_iff)
  next
    case False
    then have "f64_total_key old \<noteq> f64_total_key s" using f64_total_key_inj by blast
    with Some zmap_update_ok [OF E z Some, of s] show ?thesis
      by (simp add: zset_score_eq update_conv' del: zset_ok.simps)
  qed
qed

lemma zset_insert_law:
  assumes "env_ok E" "zset_ok E z"
  shows "\<exists>z'. zset_insert_slice E z m s = Some (zset_score z m = None, z') \<and> zset_ok E z' \<and>
           zset_score z' = (zset_score z)(m \<mapsto> s)"
  using assms zset_insert_small zset_insert_map
  by (cases z) (simp_all only: zset_score_eq)

lemma zset_remove_law:
  assumes E: "env_ok E" and z: "zset_ok E z"
  shows "\<exists>z'. zset_remove E z m = (zset_score z m \<noteq> None, z') \<and> zset_ok E z' \<and>
           zset_score z' = (zset_score z)(m := None)"
proof (cases z)
  case (ZMap scores t)
  show ?thesis
  proof (cases "map_of scores m")
    case None
    with ZMap z show ?thesis by (auto simp: hm_remove_def zset_score_eq fun_eq_iff)
  next
    case (Some s)
    from zmap_remove_ok [OF E _ Some] z ZMap Some show ?thesis
      by (auto simp: hm_remove_def zset_score_eq delete_conv')
  qed
next
  case (ZSmall es)
  show ?thesis
  proof (cases "position (\<lambda>e. fst e = m) es")
    case None
    then have "map_of es m = None" by (simp add: position_fst_None)
    with None ZSmall z show ?thesis by (auto simp: zset_score_eq fun_eq_iff)
  next
    case (Some i)
    have d: "distinct (map fst es)" and srt: "sorted_wrt (<) (map zk es)" using z ZSmall by simp_all
    note del = position_delete [OF d Some]
    have "sorted_wrt (<) (map zk (take i es @ drop (Suc i) es))"
    proof -
      have "map zk es = map zk (take i es) @ zk (es ! i) # map zk (drop (Suc i) es)"
        using del by (metis id_take_nth_drop list.simps(9) map_append)
      with srt show ?thesis by (auto simp: sorted_wrt_append)
    qed
    moreover have "length (AList.delete m es) \<le> length es" by (rule length_delete_le)
    ultimately show ?thesis
      using del Some ZSmall z d by (auto simp: zset_score_eq delete_conv' distinct_delete)
  qed
qed

lemma zset_len_length: "env_ok E \<Longrightarrow> zset_ok E z \<Longrightarrow> zset_len z = card (dom (zset_score z))"
  using distinct_card [of "map fst (case z of ZSmall es \<Rightarrow> es | ZMap sc t \<Rightarrow> sc)"]
  by (cases z) (simp_all add: zset_score_eq dom_map_of_conv_image_fst)

lemma finite_zset [simp]: "finite (dom (zset_score z))"
  by (cases z) (simp_all add: zset_score_eq finite_dom_map_of)

lemma zset_is_empty_iff: "zset_is_empty z \<longleftrightarrow> zset_score z = Map.empty"
  by (cases z) (auto simp: zset_score_eq dom_map_of_conv_image_fst dest: arg_cong [of _ _ dom])

interpretation zo: keyed "\<lambda>z. env_ok E \<and> zset_ok E z" zset_score "zset_insert_slice E"
  "zset_remove E" zset_len zset_is_empty for E
proof (unfold_locales, goal_cases)
  case (2 z m s)
  then show ?case using zset_insert_law [of E z m s] by auto
next
  case (3 z m)
  then show ?case using zset_remove_law [of E z m] by auto
next
  case (4 z)
  then show ?case using zset_len_length [of E z] by simp
qed (simp_all add: zset_is_empty_iff)

lemma zset_single_law: "zset_ok E (zset_single m s) \<and> zset_score (zset_single m s) = [m \<mapsto> s]"
  by (simp add: zset_single_def zset_score_eq)

lemma zset_capacity_law:
  "env_ok E \<Longrightarrow> zset_ok E (zset_map_with_capacity E n) \<and> zset_score (zset_map_with_capacity E n) = Map.empty"
  by (simp add: zset_map_with_capacity_def zset_score_eq index_tree_okD(1))

lemma keyset_card: "finite (dom v) \<Longrightarrow> card (keyset v) = card (dom v)"
proof -
  have "bij_betw zk_member (keyset v) (dom v)"
  proof (rule bij_betwI')
    fix x y assume "x \<in> keyset v" "y \<in> keyset v"
    then show "zk_member x = zk_member y \<longleftrightarrow> x = y" by (cases x; cases y) (auto simp: keyset_def)
  next
    fix m assume "m \<in> dom v"
    then obtain s where "v m = Some s" by blast
    then show "\<exists>k\<in>keyset v. m = zk_member k" by (intro bexI [of _ "ZKey s m"]) (simp_all add: keyset_def)
  qed (auto simp: keyset_def)
  then show ?thesis by (rule bij_betw_same_card)
qed

lemma zset_len_entries:
  assumes "env_ok E" "zset_ok E z"
  shows "length (zset_keys E z) = zset_len z" "length (zset_entries E z) = zset_len z"
proof -
  have "distinct (zset_keys E z)" using zset_keys_sorted [OF assms(2)] by (simp add: strict_sorted_iff)
  then show "length (zset_keys E z) = zset_len z"
    using zset_keys_set [OF assms(2)] keyset_card [of "zset_score z"] zset_len_length [OF assms]
    by (simp add: distinct_card [symmetric])
  then show "length (zset_entries E z) = zset_len z" by (simp add: zset_entries_keys)
qed

section \<open>Popping the extremes\<close>

lemma zset_entries_cases:
  assumes "zset_ok E z"
  shows "distinct (map fst (zset_entries E z))" "map_of (zset_entries E z) = zset_score z"
proof -
  have d: "distinct (zset_keys E z)" using zset_keys_sorted [OF assms] by (simp add: strict_sorted_iff)
  have "inj_on zk_member (keyset (zset_score z))"
  proof (rule inj_onI)
    fix x y assume "x \<in> keyset (zset_score z)" "y \<in> keyset (zset_score z)" "zk_member x = zk_member y"
    then show "x = y" by (cases x; cases y) (auto simp: keyset_def)
  qed
  then have dm: "distinct (map zk_member (zset_keys E z))"
    using d zset_keys_set [OF assms] by (simp add: distinct_map)
  then show dd: "distinct (map fst (zset_entries E z))" by (simp add: zset_entries_keys o_def)
  show "map_of (zset_entries E z) = zset_score z"
  proof
    fix m
    have "map_of (zset_entries E z) m = Some s \<longleftrightarrow> zset_score z m = Some s" for s
    proof -
      have "(m, s) \<in> set (zset_entries E z) \<longleftrightarrow> ZKey s m \<in> set (zset_keys E z)"
        by (auto simp: zset_entries_keys zentry_def image_iff) (metis zkey.sel)
      then show ?thesis
        using map_of_eq_Some_iff [OF dd, of m s] by (simp add: zset_keys_set [OF assms] keyset_def)
    qed
    then show "map_of (zset_entries E z) m = zset_score z m" by (metis option.exhaust)
  qed
qed

lemma small_pop_loop_front: "n \<le> length es \<Longrightarrow> small_pop_loop n False es = Some (take n es, drop n es)"
proof (induction n arbitrary: es)
  case (Suc n)
  then obtain e es' where "es = e # es'" by (cases es) auto
  with Suc show ?case by simp
qed simp

lemma small_pop_loop_back:
  "n \<le> length es \<Longrightarrow> small_pop_loop n True es = Some (take n (rev es), take (length es - n) es)"
proof (induction n arbitrary: es)
  case (Suc n)
  then obtain es' e where "es = es' @ [e]" by (cases es rule: rev_cases) auto
  with Suc show ?case by simp
qed simp

text \<open>What remains of the ordered keys after one item is popped.\<close>

definition pop_rest :: "bool \<Rightarrow> 'a list \<Rightarrow> 'a list" where
  "pop_rest hi_end xs = (if hi_end then butlast xs else tl xs)"

lemma extreme_item:
  assumes "env_ok E" "its_iter E t \<noteq> []"
  shows "extreme_ordered_item E t hi_end =
    Some (if hi_end then last (its_iter E t) else hd (its_iter E t))"
  using assms
  by (cases "its_iter E t") (simp_all add: extreme_ordered_item_def index_tree_okD(6,7))

lemma remove1_extreme:
  "distinct xs \<Longrightarrow> xs \<noteq> [] \<Longrightarrow> remove1 (if hi_end then last xs else hd xs) xs = pop_rest hi_end xs"
proof (cases hi_end)
  case True
  assume "distinct xs" "xs \<noteq> []"
  then obtain ys y where "xs = ys @ [y]" "y \<notin> set ys" by (cases xs rule: rev_cases) auto
  with True show ?thesis by (simp add: pop_rest_def remove1_append)
next
  case False
  assume "xs \<noteq> []"
  with False show ?thesis by (cases xs) (simp_all add: pop_rest_def)
qed

lemma map_pop_step:
  fixes hi_end :: bool
  assumes E: "env_ok E" and z: "zset_ok E (ZMap scores t)" and ne: "its_iter E t \<noteq> []"
  defines "item \<equiv> (if hi_end then last (its_iter E t) else hd (its_iter E t))"
  shows "zset_ok E (ZMap (AList.delete (zk_member item) scores) (its_remove E t item))"
    "its_iter E (its_remove E t item) = pop_rest hi_end (its_iter E t)"
proof -
  have "item \<in> set (its_iter E t)" using ne by (simp add: item_def)
  then have "map_of scores (zk_member item) = Some (zk_score item)" using z by (simp add: keyset_def)
  from zmap_remove_ok [OF E z this]
  show "zset_ok E (ZMap (AList.delete (zk_member item) scores) (its_remove E t item))" by simp
  have "sorted_wrt (<) (its_iter E t)" using z by simp
  then show "its_iter E (its_remove E t item) = pop_rest hi_end (its_iter E t)"
    using remove1_extreme [of "its_iter E t" hi_end] ne
    by (simp add: index_tree_okD(4) [OF E] item_def strict_sorted_iff)
qed

text \<open>The sequence popped from one end, and what is left.\<close>

definition popped_seq :: "nat \<Rightarrow> bool \<Rightarrow> 'a list \<Rightarrow> 'a list" where
  "popped_seq n hi_end xs = take n (if hi_end then rev xs else xs)"

definition left_seq :: "nat \<Rightarrow> bool \<Rightarrow> 'a list \<Rightarrow> 'a list" where
  "left_seq n hi_end xs = (if hi_end then take (length xs - n) xs else drop n xs)"

lemma popped_seq_Suc:
  assumes "xs \<noteq> []"
  shows "popped_seq (Suc n) hi_end xs = (if hi_end then last xs else hd xs) # popped_seq n hi_end (pop_rest hi_end xs)"
    "left_seq (Suc n) hi_end xs = left_seq n hi_end (pop_rest hi_end xs)"
proof (atomize (full), cases hi_end)
  case True
  from assms obtain ys y where "xs = ys @ [y]" by (cases xs rule: rev_cases) auto
  with True show "popped_seq (Suc n) hi_end xs =
      (if hi_end then last xs else hd xs) # popped_seq n hi_end (pop_rest hi_end xs) \<and>
      left_seq (Suc n) hi_end xs = left_seq n hi_end (pop_rest hi_end xs)"
    by (simp add: popped_seq_def left_seq_def pop_rest_def)
next
  case False
  from assms obtain y ys where "xs = y # ys" by (cases xs) auto
  with False show "popped_seq (Suc n) hi_end xs =
      (if hi_end then last xs else hd xs) # popped_seq n hi_end (pop_rest hi_end xs) \<and>
      left_seq (Suc n) hi_end xs = left_seq n hi_end (pop_rest hi_end xs)"
    by (simp add: popped_seq_def left_seq_def pop_rest_def)
qed

lemma map_pop_loop_law:
  assumes E: "env_ok E"
  shows "zset_ok E (ZMap scores t) \<Longrightarrow> \<exists>sc' t'. map_pop_loop E n hi_end scores t =
     (map zentry (popped_seq n hi_end (its_iter E t)), sc', t') \<and> zset_ok E (ZMap sc' t') \<and>
     its_iter E t' = left_seq n hi_end (its_iter E t)"
proof (induction n arbitrary: scores t)
  case 0
  then show ?case by (simp add: popped_seq_def left_seq_def)
next
  case (Suc n)
  show ?case
  proof (cases "its_iter E t = []")
    case True
    with Suc.prems show ?thesis
      by (simp add: extreme_ordered_item_def index_tree_okD(6,7) [OF E] popped_seq_def left_seq_def)
  next
    case False
    let ?item = "if hi_end then last (its_iter E t) else hd (its_iter E t)"
    note step = map_pop_step [OF E Suc.prems False, of hi_end]
    from Suc.IH [OF step(1)] obtain sc' t' where
      "map_pop_loop E n hi_end (AList.delete (zk_member ?item) scores) (its_remove E t ?item) =
        (map zentry (popped_seq n hi_end (pop_rest hi_end (its_iter E t))), sc', t')"
      "zset_ok E (ZMap sc' t')" "its_iter E t' = left_seq n hi_end (pop_rest hi_end (its_iter E t))"
      unfolding step(2) by blast
    then show ?thesis
      by (simp add: extreme_item [OF E False] hm_remove_def popped_seq_Suc [OF False] zentry_def
          del: zset_ok.simps)
  qed
qed

lemma seq_min:
  "length xs = k \<Longrightarrow> popped_seq (min n k) hi_end xs = popped_seq n hi_end xs"
  "length xs = k \<Longrightarrow> left_seq (min n k) hi_end xs = left_seq n hi_end xs"
  by (auto simp: popped_seq_def left_seq_def min_def)

lemma seq_map: "popped_seq n hi_end (map f xs) = map f (popped_seq n hi_end xs)"
  "left_seq n hi_end (map f xs) = map f (left_seq n hi_end xs)"
  by (simp_all add: popped_seq_def left_seq_def take_map drop_map rev_map)

lemma zset_ok_sub:
  assumes "zset_ok E (ZSmall es)"
  shows "zset_ok E (ZSmall (take k es))" "zset_ok E (ZSmall (drop k es))"
  using assms by (auto simp: sorted_wrt_take sorted_wrt_drop distinct_take distinct_drop
      simp flip: take_map drop_map)

lemma zset_pop_extreme_law:
  assumes E: "env_ok E" and z: "zset_ok E z"
  shows "\<exists>z'. zset_pop_extreme E z n hi_end = Some (popped_seq n hi_end (zset_entries E z), z') \<and>
           zset_ok E z' \<and> zset_entries E z' = left_seq n hi_end (zset_entries E z)"
proof (cases z)
  case (ZSmall es)
  have "small_pop_loop (min n (length es)) hi_end es =
      Some (popped_seq n hi_end es, left_seq n hi_end es)"
    by (cases hi_end)
      (simp_all add: small_pop_loop_back small_pop_loop_front popped_seq_def left_seq_def min_def)
  moreover have "zset_ok E (ZSmall (left_seq n hi_end es))"
    using zset_ok_sub [OF z [unfolded ZSmall]] by (simp add: left_seq_def del: zset_ok.simps)
  ultimately show ?thesis by (simp add: ZSmall del: zset_ok.simps)
next
  case (ZMap scores t)
  have len: "length (its_iter E t) = length scores"
    using zset_len_entries(1) [OF assms] by (simp add: ZMap)
  from map_pop_loop_law [OF E z [unfolded ZMap], of "length scores" hi_end]
    map_pop_loop_law [OF E z [unfolded ZMap], of "min n (length scores)" hi_end]
  show ?thesis
    by (auto simp: ZMap seq_min [OF len] zset_entries_keys seq_map simp del: zset_ok.simps)
qed

section \<open>Rank and ranges\<close>

lemma position_unique:
  "distinct (map f es) \<Longrightarrow> i < length es \<Longrightarrow> f (es ! i) = m \<Longrightarrow> position (\<lambda>e. f e = m) es = Some i"
proof (induction es arbitrary: i)
  case (Cons e es)
  show ?case
  proof (cases i)
    case 0
    with Cons.prems show ?thesis by simp
  next
    case (Suc j)
    with Cons.prems have "f e \<noteq> m" by auto
    with Cons Suc show ?thesis by simp
  qed
qed simp

lemma position_rev:
  assumes "distinct (map f es)"
  shows "position (\<lambda>e. f e = m) (rev es) = map_option (\<lambda>i. length es - 1 - i) (position (\<lambda>e. f e = m) es)"
proof (cases "position (\<lambda>e. f e = m) es")
  case None
  then have "\<forall>e\<in>set (rev es). f e \<noteq> m" by (simp add: position_None)
  then have "position (\<lambda>e. f e = m) (rev es) = None" by (subst position_None) simp
  with None show ?thesis by simp
next
  case (Some i)
  with position_Some [OF Some] have i: "i < length es" "f (es ! i) = m" by auto
  have "position (\<lambda>e. f e = m) (rev es) = Some (length es - 1 - i)"
    by (rule position_unique) (use assms i in \<open>auto simp: rev_map [symmetric] rev_nth\<close>)
  with Some show ?thesis by simp
qed

lemma zset_rank_law:
  assumes E: "env_ok E" and z: "zset_ok E z"
  shows "zset_rank E z m rv =
    Some (position (\<lambda>e. fst e = m) (if rv then rev (zset_entries E z) else zset_entries E z))"
proof (cases z)
  case (ZSmall es)
  then show ?thesis by simp
next
  case (ZMap scores t)
  note de = zset_entries_cases [OF z] and len = zset_len_entries(2) [OF assms]
  have pos: "position (\<lambda>e. fst e = m) (zset_entries E z) =
      (case map_of scores m of None \<Rightarrow> None | Some s \<Rightarrow> its_index_of E t (ZKey s m))"
  proof (cases "map_of scores m")
    case None
    then have "map_of (zset_entries E z) m = None" using de(2) ZMap by (simp add: zset_score_eq)
    with None show ?thesis by (simp add: position_fst_None)
  next
    case (Some s)
    have srt: "sorted_wrt (<) (its_iter E t)" using z ZMap by simp
    have "ZKey s m \<in> set (its_iter E t)" using z ZMap Some by (simp add: keyset_def)
    then obtain i where i: "i < length (its_iter E t)" "its_iter E t ! i = ZKey s m"
      by (metis in_set_conv_nth)
    have "position (\<lambda>x. id x = ZKey s m) (its_iter E t) = Some i"
      by (rule position_unique) (use i srt in \<open>simp_all add: strict_sorted_iff\<close>)
    moreover have "position (\<lambda>e. fst e = m) (zset_entries E z) = Some i"
      by (rule position_unique [OF de(1)]) (use i in \<open>simp_all add: ZMap\<close>)
    ultimately show ?thesis using Some by (simp add: index_tree_okD(9) [OF E srt])
  qed
  show ?thesis
  proof (cases "position (\<lambda>e. fst e = m) (zset_entries E z)")
    case None
    with pos position_rev [OF de(1), of m] show ?thesis
      by (auto simp: ZMap simp del: zset_entries.simps split: option.splits)
  next
    case (Some i)
    with position_Some [OF Some] have "i < its_len E t"
      by (simp add: ZMap index_tree_okD(5) [OF E])
    moreover have "length (zset_entries E z) = its_len E t"
      by (simp add: ZMap index_tree_okD(5) [OF E])
    ultimately show ?thesis
      using pos Some position_rev [OF de(1), of m]
      by (auto simp: ZMap simp del: zset_entries.simps split: option.splits)
  qed
qed

text \<open>The slice of a list between two inclusive indices.\<close>

definition slice :: "'a list \<Rightarrow> nat \<Rightarrow> nat \<Rightarrow> 'a list" where
  "slice xs a b = take (b - a + 1) (drop a xs)"

lemma nth_slice: "b < length xs \<Longrightarrow> map ((!) xs) [a..<Suc b] = take (Suc b - a) (drop a xs)"
  by (rule nth_equalityI) (auto simp del: upt_Suc)

lemma key_at_slice:
  assumes E: "env_ok E" and "a \<le> b" "b < length (its_iter E t)"
  shows "List.map_filter (its_key_at E t) [a..<Suc b] = slice (its_iter E t) a b"
proof -
  have "List.map_filter (its_key_at E t) [a..<Suc b] = map ((!) (its_iter E t)) [a..<Suc b]"
    by (rule map_filter_Some) (use assms in \<open>auto simp: index_tree_okD(8) [OF E]\<close>)
  also have "\<dots> = slice (its_iter E t) a b"
    using nth_slice [OF assms(3), of a] assms(2) by (simp add: slice_def Suc_diff_le del: upt_Suc)
  finally show ?thesis .
qed

lemma ordered_slice_eq:
  assumes "env_ok E" "a \<le> b" "b < length (its_iter E t)"
  shows "ordered_slice E t a b = slice (its_iter E t) a b"
  using key_at_slice [OF assms] by (simp add: ordered_slice_def slice_def Let_def del: upt_Suc)

definition zrange_spec :: "'a list \<Rightarrow> int \<Rightarrow> int \<Rightarrow> 'a list" where
  "zrange_spec es start stop =
     (case normalize_range start stop (length es) of None \<Rightarrow> [] | Some (a, b) \<Rightarrow> slice es a b)"

lemma length_slice: "a \<le> b \<Longrightarrow> b < length xs \<Longrightarrow> length (slice xs a b) = b - a + 1"
  by (simp add: slice_def)

lemma map_slice: "map f (slice xs a b) = slice (map f xs) a b"
  by (simp add: slice_def take_map drop_map)

lemma zset_range_law:
  assumes E: "env_ok E" and z: "zset_ok E z"
  shows "zset_range E z start stop = map (\<lambda>e. Some (fst e)) (zrange_spec (zset_entries E z) start stop)"
proof (cases z)
  case (ZSmall es)
  then show ?thesis by (auto simp: zrange_spec_def slice_def split: option.split)
next
  case (ZMap scores t)
  then show ?thesis
    by (auto simp: zrange_spec_def index_tree_okD(5) [OF E] ordered_slice_eq [OF E] map_slice o_def
        dest: normalize_range_bounds split: option.split)
qed

lemma zset_range_visit_law:
  assumes E: "env_ok E" and z: "zset_ok E z"
  shows "zset_range_visit E z start stop =
    Begin (length (zrange_spec (zset_entries E z) start stop)) #
    map (\<lambda>e. Item (Some (fst e))) (zrange_spec (zset_entries E z) start stop)"
proof (cases z)
  case (ZSmall es)
  then show ?thesis
    by (auto simp: zrange_spec_def slice_def dest: normalize_range_bounds split: option.split)
next
  case (ZMap scores t)
  then show ?thesis
    by (auto simp: zrange_spec_def index_tree_okD(5) [OF E] ordered_slice_eq [OF E] map_slice o_def
        length_slice dest: normalize_range_bounds split: option.split)
qed

lemma slice_rev:
  assumes "a \<le> b" "b < length xs"
  shows "slice (rev xs) a b = rev (slice xs (length xs - 1 - b) (length xs - 1 - a))"
  using assms by (auto simp: slice_def rev_nth intro!: nth_equalityI)

lemma map_filter_rev: "List.map_filter f (rev xs) = rev (List.map_filter f xs)"
  by (simp add: List.map_filter_def rev_filter rev_map)

lemma zset_range_entries_visit_law:
  assumes E: "env_ok E" and z: "zset_ok E z"
  defines "es \<equiv> zset_entries E z"
  shows "zset_range_entries_visit E z start stop rv =
    (let r = zrange_spec (if rv then rev es else es) start stop
     in Some (ZBegin (length r) # map (\<lambda>e. ZEntry (fst e) (snd e)) r))"
proof (cases z)
  case (ZSmall xs)
  then show ?thesis
    by (auto simp: es_def zrange_spec_def slice_def dest: normalize_range_bounds split: option.split)
next
  case (ZMap scores t)
  let ?n = "length (its_iter E t)"
  show ?thesis
  proof (cases "normalize_range start stop ?n")
    case None
    then show ?thesis by (simp add: ZMap es_def zrange_spec_def index_tree_okD(5) [OF E])
  next
    case (Some r)
    obtain a b where r: "r = (a, b)" by (cases r)
    with Some have ab: "a \<le> b" "b < ?n" by (auto dest: normalize_range_bounds)
    have tail_first: "List.map_filter (its_key_at E t) (rev [?n - 1 - b..<Suc (?n - 1 - a)]) =
        slice (rev (its_iter E t)) a b"
      using ab by (simp add: map_filter_rev key_at_slice [OF E] slice_rev del: upt_Suc)
    have "usize_sub ?n 1 = Some (?n - 1)" "usize_sub (?n - 1) b = Some (?n - 1 - b)"
      "usize_sub (?n - 1) a = Some (?n - 1 - a)"
      using ab by (intro usize_sub_Some; simp)+
    with Some r ab tail_first show ?thesis
      by (simp add: ZMap es_def zrange_spec_def index_tree_okD(5) [OF E] ordered_slice_eq [OF E]
          length_slice map_slice rev_map o_def Let_def del: upt_Suc)
  qed
qed

section \<open>Counting by score\<close>

lemma partition_loop:
  assumes E: "env_ok E" and pred: "\<And>i. i < length (its_iter E t) \<Longrightarrow> pred (its_iter E t ! i) \<longleftrightarrow> i < k"
  shows "low \<le> k \<Longrightarrow> k \<le> high \<Longrightarrow> high \<le> length (its_iter E t) \<Longrightarrow>
    zset_partition_loop E t pred low high = Some k"
proof (induction "high - low" arbitrary: low high rule: less_induct)
  case less
  show ?case
  proof (cases "low < high")
    case False
    with less.prems show ?thesis by (simp add: zset_partition_loop.simps)
  next
    case True
    define mid where "mid = low + (high - low) div 2"
    have mid: "low \<le> mid" "mid < high" using True by (auto simp: mid_def)
    with less.prems have "its_key_at E t mid = Some (its_iter E t ! mid)"
      by (simp add: index_tree_okD(8) [OF E])
    moreover have "pred (its_iter E t ! mid) \<longleftrightarrow> mid < k" using mid less.prems by (intro pred) simp
    ultimately have "zset_partition_loop E t pred low high =
        (if mid < k then zset_partition_loop E t pred (mid + 1) high else zset_partition_loop E t pred low mid)"
      using True by (subst zset_partition_loop.simps) (simp add: Let_def mid_def)
    then show ?thesis
      using less.hyps [of high "mid + 1"] less.hyps [of mid low] less.prems mid by auto
  qed
qed

lemma antitone_prefix:
  "sorted_wrt (\<lambda>x y. P y \<longrightarrow> P x) xs \<Longrightarrow> i < length xs \<Longrightarrow> P (xs ! i) \<longleftrightarrow> i < length (filter P xs)"
proof (induction xs arbitrary: i)
  case (Cons x xs)
  show ?case
  proof (cases "P x")
    case True
    with Cons show ?thesis by (cases i) simp_all
  next
    case False
    with Cons.prems have "\<forall>y\<in>set (x # xs). \<not> P y" by auto
    then have "filter P (x # xs) = []" by (simp add: filter_empty_conv)
    with \<open>\<forall>y\<in>set (x # xs). \<not> P y\<close> Cons.prems(2) show ?thesis by (metis list.size(3) not_less0 nth_mem)
  qed
qed simp

lemma partition_point_law:
  assumes E: "env_ok E" and "sorted_wrt (\<lambda>x y. pred y \<longrightarrow> pred x) (its_iter E t)"
  shows "zset_partition_point E t pred = Some (length (filter pred (its_iter E t)))"
  unfolding zset_partition_point_def index_tree_okD(5) [OF E]
  by (rule partition_loop [OF E]) (use antitone_prefix [OF assms(2)] in simp_all)

lemma filter_between:
  assumes "sorted_wrt (\<lambda>x y. P y \<longrightarrow> P x) xs" "sorted_wrt (\<lambda>x y. Q y \<longrightarrow> Q x) xs"
  shows "length (filter (\<lambda>x. \<not> P x \<and> Q x) xs) = length (filter Q xs) - length (filter P xs)"
proof -
  let ?p = "length (filter P xs)" and ?q = "length (filter Q xs)"
  have "{i. i < length xs \<and> \<not> P (xs ! i) \<and> Q (xs ! i)} = {?p..<?q}"
  proof (rule set_eqI)
    fix i
    show "i \<in> {i. i < length xs \<and> \<not> P (xs ! i) \<and> Q (xs ! i)} \<longleftrightarrow> i \<in> {?p..<?q}"
      using antitone_prefix [OF assms(1), of i] antitone_prefix [OF assms(2), of i]
      by (cases "i < length xs") (auto dest: less_le_trans [OF _ length_filter_le])
  qed
  then show ?thesis by (simp add: length_filter_conv_card)
qed

definition in_score_range :: "f64 \<Rightarrow> bool \<Rightarrow> f64 \<Rightarrow> bool \<Rightarrow> f64 \<Rightarrow> bool" where
  "in_score_range lo lo_incl hi hi_incl s \<longleftrightarrow>
     score_matches_lower s lo lo_incl \<and> score_matches_upper s hi hi_incl"

definition no_nan :: "(bytes \<times> f64) list \<Rightarrow> bool" where
  "no_nan es \<longleftrightarrow> (\<forall>e\<in>set es. \<not> f64_is_nan (snd e))"

lemma zkey_less_value: "x < y \<Longrightarrow> f64_value_key (zk_score x) \<le> f64_value_key (zk_score y)"
  by (rule f64_total_value_le) (auto simp: less_zkey_def)

lemma lower_not:
  "\<not> f64_is_nan s \<Longrightarrow> \<not> f64_is_nan lo \<Longrightarrow>
   score_matches_lower s lo incl \<longleftrightarrow> \<not> (if incl then f64_lt s lo else f64_le s lo)"
  by (auto simp: score_matches_lower_def f64_le_def f64_lt_def)

text \<open>On keys whose scores are numbers every bound test is monotone in the order.\<close>

lemma bound_monotone:
  assumes "sorted_wrt (<) ks" "\<forall>k\<in>set ks. \<not> f64_is_nan (zk_score k)" "\<not> f64_is_nan b"
  shows "sorted_wrt (\<lambda>x y. (if incl then f64_le (zk_score y) b else f64_lt (zk_score y) b) \<longrightarrow>
      (if incl then f64_le (zk_score x) b else f64_lt (zk_score x) b)) ks"
  using assms
  by (auto intro!: sorted_wrt_mono_rel [OF _ assms(1)] dest: zkey_less_value
      simp: f64_le_def f64_lt_def split: if_splits)

lemma covers_all:
  assumes "sorted_wrt (<) ks" "\<forall>k\<in>set ks. \<not> f64_is_nan (zk_score k)" "\<not> f64_is_nan lo" "\<not> f64_is_nan hi"
    and "ks \<noteq> []" "score_matches_lower (zk_score (hd ks)) lo lo_incl"
    "score_matches_upper (zk_score (last ks)) hi hi_incl" "k \<in> set ks"
  shows "in_score_range lo lo_incl hi hi_incl (zk_score k)"
proof -
  have mono: "f64_value_key (zk_score (hd ks)) \<le> f64_value_key (zk_score k) \<and>
      f64_value_key (zk_score k) \<le> f64_value_key (zk_score (last ks))"
  proof -
    obtain y ys where ks: "ks = y # ys" using assms(5) by (cases ks) auto
    obtain ws w where ks': "ks = ws @ [w]" using assms(5) by (cases ks rule: rev_cases) auto
    have "k = hd ks \<or> hd ks < k" using assms(1,8) by (auto simp: ks)
    moreover have "k = last ks \<or> k < last ks" using assms(1,8) by (auto simp: ks' sorted_wrt_append)
    ultimately show ?thesis by (auto dest: zkey_less_value)
  qed
  have "\<not> f64_is_nan (zk_score k)" using assms(2,8) by blast
  with mono assms(6,7) show ?thesis
    by (auto simp: in_score_range_def score_matches_lower_def score_matches_upper_def f64_le_def f64_lt_def
        split: if_splits)
qed

lemma zset_count_by_score_law:
  assumes E: "env_ok E" and z: "zset_ok E z"
    and nn: "no_nan (zset_entries E z)" "\<not> f64_is_nan lo" "\<not> f64_is_nan hi"
  shows "zset_count_by_score E z lo lo_incl hi hi_incl =
    Some (length (filter (\<lambda>e. in_score_range lo lo_incl hi hi_incl (snd e)) (zset_entries E z)))"
proof -
  let ?ks = "zset_keys E z" and ?in = "in_score_range lo lo_incl hi hi_incl"
  have srt: "sorted_wrt (<) ?ks" using z by (rule zset_keys_sorted)
  have num: "\<forall>k\<in>set ?ks. \<not> f64_is_nan (zk_score k)"
    using nn(1) by (simp add: no_nan_def zset_entries_keys)
  have spec: "length (filter (\<lambda>e. ?in (snd e)) (zset_entries E z)) = length (filter (\<lambda>k. ?in (zk_score k)) ?ks)"
    by (simp add: zset_entries_keys filter_map o_def)
  have all: "length (filter (\<lambda>k. ?in (zk_score k)) ?ks) = length ?ks"
    if "?ks \<noteq> []" "score_matches_lower (zk_score (hd ?ks)) lo lo_incl"
      "score_matches_upper (zk_score (last ?ks)) hi hi_incl"
  proof -
    have "filter (\<lambda>k. ?in (zk_score k)) ?ks = ?ks"
      by (rule filter_True) (use covers_all [OF srt num nn(2,3) that] in blast)
    then show ?thesis by simp
  qed
  show ?thesis
  proof (cases z)
    case (ZSmall es)
    show ?thesis
    proof (cases "es = []")
      case True
      with ZSmall show ?thesis by (simp add: range_covers_sorted_scores_def)
    next
      case False
      with all spec ZSmall show ?thesis
        by (auto simp: range_covers_sorted_scores_def in_score_range_def hd_map last_map)
    qed
  next
    case (ZMap scores t)
    have len: "length scores = length (its_iter E t)" using zset_len_entries(1) [OF E z] ZMap by simp
    let ?P = "\<lambda>k. if lo_incl then f64_lt (zk_score k) lo else f64_le (zk_score k) lo"
    let ?Q = "\<lambda>k. if hi_incl then f64_le (zk_score k) hi else f64_lt (zk_score k) hi"
    have P: "sorted_wrt (\<lambda>x y. ?P y \<longrightarrow> ?P x) (its_iter E t)"
      using bound_monotone(1) [OF srt num nn(2), of "\<not> lo_incl"] by (cases lo_incl) (simp_all add: ZMap)
    have Q: "sorted_wrt (\<lambda>x y. ?Q y \<longrightarrow> ?Q x) (its_iter E t)"
      using bound_monotone(1) [OF srt num nn(3), of hi_incl] by (cases hi_incl) (simp_all add: ZMap)
    have "length (filter (\<lambda>k. ?in (zk_score k)) (its_iter E t)) =
        length (filter (\<lambda>k. \<not> ?P k \<and> ?Q k) (its_iter E t))"
      using num nn(2) by (intro arg_cong [of _ _ length] filter_cong)
        (auto simp: ZMap in_score_range_def lower_not score_matches_upper_def)
    also have "\<dots> = length (filter ?Q (its_iter E t)) - length (filter ?P (its_iter E t))"
      by (rule filter_between [OF P Q])
    finally have cnt: "length (filter (\<lambda>k. ?in (zk_score k)) (its_iter E t)) = \<dots>" .
    show ?thesis
    proof (cases "its_iter E t")
      case Nil
      with len show ?thesis by (simp add: ZMap)
    next
      case (Cons k ks)
      then have "scores \<noteq> []" using len by auto
      with all spec cnt len Cons show ?thesis
        by (simp add: ZMap range_covers_sorted_scores_def index_tree_okD(6,7) [OF E]
            partition_point_law [OF E P] partition_point_law [OF E Q])
    qed
  qed
qed

text \<open>With a bound that is not a number the two forms count differently.\<close>

lemma nan_bound_differs:
  "zset_count_by_score list_env (ZSmall [([5], f64_zero)]) f64_nan True f64_zero True = Some 0"
  "zset_count_by_score list_env (ZMap [([5], f64_zero)] (its_insert list_env (its_new list_env) (ZKey f64_zero [5]))) f64_nan True f64_zero True =
     Some 1"
  by code_simp+

end
