(* ===== verification/Bucket.thy ===== *)
theory Bucket
  imports Slots ListObject HashObject SetObject ZSetObject
begin

text \<open>
  \<^verbatim>\<open>RedisObjectBucket\<close>: the state of one object bucket, its type tests (\<^verbatim>\<open>bucket_core.rs\<close>) and
  its per-field TTL helpers (\<^verbatim>\<open>bucket_hash.rs\<close>); the invariant of a bucket and its abstraction
  to a map from keys to values; and the lemmas on the three ways in which every command
  changes a bucket: an object is updated in place, created, or deleted.

  A method that can panic returns an option; each reading of the clock (\<^verbatim>\<open>now_millis\<close>) is an
  argument.
\<close>

section \<open>State\<close>

record ('h, 't) bucket =
  hashes :: 'h
  lists :: 'h
  sets :: 'h
  zsets :: 'h
  expire_at_ms :: "u64 hmap"
  hash_field_expire_at_ms :: "u64 hmap hmap"
  hash_slab :: "hash_object slab"
  list_slab :: "bytes list_object slab"
  set_slab :: "set_object slab"
  zset_slab :: "'t zset_object slab"

definition bucket_default :: "('h, 't) env \<Rightarrow> ('h, 't) bucket" where
  "bucket_default E =
     \<lparr>hashes = ht_new E, lists = ht_new E, sets = ht_new E, zsets = ht_new E,
      expire_at_ms = [], hash_field_expire_at_ms = [],
      hash_slab = slab_new, list_slab = slab_new, set_slab = slab_new, zset_slab = slab_new\<rparr>"

text \<open>\<^verbatim>\<open>insert\<close> and \<^verbatim>\<open>remove\<close> of a hash map whose result is dropped.\<close>

abbreviation hm_put :: "bytes \<Rightarrow> 'v \<Rightarrow> 'v hmap \<Rightarrow> 'v hmap" where
  "hm_put k v m \<equiv> snd (hm_insert k v m)"

abbreviation hm_del :: "bytes \<Rightarrow> 'v hmap \<Rightarrow> 'v hmap" where
  "hm_del k m \<equiv> snd (hm_remove k m)"

section \<open>Type tests\<close>

definition contains_object :: "('h, 't) env \<Rightarrow> ('h, 't) bucket \<Rightarrow> bytes \<Rightarrow> bool" where
  "contains_object E b key \<longleftrightarrow>
     sm_contains_key E (hashes b) key \<or> sm_contains_key E (lists b) key \<or>
     sm_contains_key E (sets b) key \<or> sm_contains_key E (zsets b) key"

definition has_expirations :: "('h, 't) bucket \<Rightarrow> bool" where
  "has_expirations b \<longleftrightarrow> expire_at_ms b \<noteq> []"

definition object_is_expired :: "('h, 't) bucket \<Rightarrow> bytes \<Rightarrow> u64 \<Rightarrow> bool" where
  "object_is_expired b key now_ms \<longleftrightarrow>
     (case map_of (expire_at_ms b) key of None \<Rightarrow> False | Some at \<Rightarrow> at \<le> now_ms)"

definition has_non_hash :: "('h, 't) env \<Rightarrow> ('h, 't) bucket \<Rightarrow> bytes \<Rightarrow> bool" where
  "has_non_hash E b key \<longleftrightarrow>
     sm_contains_key E (lists b) key \<or> sm_contains_key E (sets b) key \<or> sm_contains_key E (zsets b) key"

definition has_non_list :: "('h, 't) env \<Rightarrow> ('h, 't) bucket \<Rightarrow> bytes \<Rightarrow> bool" where
  "has_non_list E b key \<longleftrightarrow>
     sm_contains_key E (hashes b) key \<or> sm_contains_key E (sets b) key \<or> sm_contains_key E (zsets b) key"

definition has_non_list_hashed :: "('h, 't) env \<Rightarrow> ('h, 't) bucket \<Rightarrow> u64 \<Rightarrow> bytes \<Rightarrow> bool" where
  "has_non_list_hashed E b hash key \<longleftrightarrow>
     sm_contains_key_hashed E (hashes b) hash key \<or> sm_contains_key_hashed E (sets b) hash key \<or>
     sm_contains_key_hashed E (zsets b) hash key"

definition has_non_set :: "('h, 't) env \<Rightarrow> ('h, 't) bucket \<Rightarrow> bytes \<Rightarrow> bool" where
  "has_non_set E b key \<longleftrightarrow>
     sm_contains_key E (hashes b) key \<or> sm_contains_key E (lists b) key \<or> sm_contains_key E (zsets b) key"

definition has_non_zset :: "('h, 't) env \<Rightarrow> ('h, 't) bucket \<Rightarrow> bytes \<Rightarrow> bool" where
  "has_non_zset E b key \<longleftrightarrow>
     sm_contains_key E (hashes b) key \<or> sm_contains_key E (lists b) key \<or> sm_contains_key E (sets b) key"

section \<open>Slots of the four kinds\<close>

text \<open>
  The statement groups that the commands repeat for each kind: writing through
  \<^verbatim>\<open>get_mut(slot)\<close>; \<^verbatim>\<open>slab.insert(object)\<close> followed by \<^verbatim>\<open>insert_hashed(key_hash, key, slot)\<close>
  (\<^verbatim>\<open>insert(key, slot)\<close> is the same with the hash of the key); and the removal of an emptied
  object together with its TTL.
\<close>

definition put_list :: "('h, 't) bucket \<Rightarrow> slot_id \<Rightarrow> bytes list_object \<Rightarrow> ('h, 't) bucket" where
  "put_list b slot l = b\<lparr>list_slab := slab_put (list_slab b) slot l\<rparr>"

definition put_set :: "('h, 't) bucket \<Rightarrow> slot_id \<Rightarrow> set_object \<Rightarrow> ('h, 't) bucket" where
  "put_set b slot s = b\<lparr>set_slab := slab_put (set_slab b) slot s\<rparr>"

definition put_zset :: "('h, 't) bucket \<Rightarrow> slot_id \<Rightarrow> 't zset_object \<Rightarrow> ('h, 't) bucket" where
  "put_zset b slot z = b\<lparr>zset_slab := slab_put (zset_slab b) slot z\<rparr>"

definition put_hash :: "('h, 't) bucket \<Rightarrow> slot_id \<Rightarrow> hash_object \<Rightarrow> ('h, 't) bucket" where
  "put_hash b slot h = b\<lparr>hash_slab := slab_put (hash_slab b) slot h\<rparr>"

definition new_list :: "('h, 't) env \<Rightarrow> ('h, 't) bucket \<Rightarrow> u64 \<Rightarrow> bytes \<Rightarrow> bytes list_object \<Rightarrow> ('h, 't) bucket option" where
  "new_list E b hash key l = do {
     (slot, slab) \<leftarrow> slab_insert (list_slab b) l;
     Some (b\<lparr>list_slab := slab, lists := snd (sm_insert_hashed E (lists b) hash key slot)\<rparr>)
   }"

definition new_set :: "('h, 't) env \<Rightarrow> ('h, 't) bucket \<Rightarrow> u64 \<Rightarrow> bytes \<Rightarrow> set_object \<Rightarrow> ('h, 't) bucket option" where
  "new_set E b hash key s = do {
     (slot, slab) \<leftarrow> slab_insert (set_slab b) s;
     Some (b\<lparr>set_slab := slab, sets := snd (sm_insert_hashed E (sets b) hash key slot)\<rparr>)
   }"

definition new_zset :: "('h, 't) env \<Rightarrow> ('h, 't) bucket \<Rightarrow> u64 \<Rightarrow> bytes \<Rightarrow> 't zset_object \<Rightarrow> ('h, 't) bucket option" where
  "new_zset E b hash key z = do {
     (slot, slab) \<leftarrow> slab_insert (zset_slab b) z;
     Some (b\<lparr>zset_slab := slab, zsets := snd (sm_insert_hashed E (zsets b) hash key slot)\<rparr>)
   }"

definition new_hash :: "('h, 't) env \<Rightarrow> ('h, 't) bucket \<Rightarrow> u64 \<Rightarrow> bytes \<Rightarrow> hash_object \<Rightarrow> ('h, 't) bucket option" where
  "new_hash E b hash key h = do {
     (slot, slab) \<leftarrow> slab_insert (hash_slab b) h;
     Some (b\<lparr>hash_slab := slab, hashes := snd (sm_insert_hashed E (hashes b) hash key slot)\<rparr>)
   }"

definition drop_list :: "('h, 't) env \<Rightarrow> ('h, 't) bucket \<Rightarrow> bytes \<Rightarrow> slot_id \<Rightarrow> ('h, 't) bucket" where
  "drop_list E b key slot =
     b\<lparr>lists := snd (sm_remove E (lists b) key), list_slab := snd (slab_remove (list_slab b) slot),
       expire_at_ms := hm_del key (expire_at_ms b)\<rparr>"

definition drop_set :: "('h, 't) env \<Rightarrow> ('h, 't) bucket \<Rightarrow> bytes \<Rightarrow> slot_id \<Rightarrow> ('h, 't) bucket" where
  "drop_set E b key slot =
     b\<lparr>sets := snd (sm_remove E (sets b) key), set_slab := snd (slab_remove (set_slab b) slot),
       expire_at_ms := hm_del key (expire_at_ms b)\<rparr>"

definition drop_zset :: "('h, 't) env \<Rightarrow> ('h, 't) bucket \<Rightarrow> bytes \<Rightarrow> slot_id \<Rightarrow> ('h, 't) bucket" where
  "drop_zset E b key slot =
     b\<lparr>zsets := snd (sm_remove E (zsets b) key), zset_slab := snd (slab_remove (zset_slab b) slot),
       expire_at_ms := hm_del key (expire_at_ms b)\<rparr>"

section \<open>Per-field TTLs\<close>

definition set_hash_field_expiry :: "('h, 't) bucket \<Rightarrow> bytes \<Rightarrow> bytes \<Rightarrow> u64 \<Rightarrow> ('h, 't) bucket" where
  "set_hash_field_expiry b key field at =
     (let sub = (case map_of (hash_field_expire_at_ms b) key of None \<Rightarrow> [] | Some sub \<Rightarrow> sub)
      in b\<lparr>hash_field_expire_at_ms :=
            hm_put key (hm_put field at sub) (hash_field_expire_at_ms b)\<rparr>)"

definition clear_hash_field_ttl :: "('h, 't) bucket \<Rightarrow> bytes \<Rightarrow> bytes \<Rightarrow> ('h, 't) bucket" where
  "clear_hash_field_ttl b key field =
     (case map_of (hash_field_expire_at_ms b) key of
        None \<Rightarrow> b
      | Some sub \<Rightarrow>
          let sub' = hm_del field sub
          in if sub' = []
             then b\<lparr>hash_field_expire_at_ms := hm_del key (hash_field_expire_at_ms b)\<rparr>
             else b\<lparr>hash_field_expire_at_ms := hm_put key sub' (hash_field_expire_at_ms b)\<rparr>)"

text \<open>\<^verbatim>\<open>for field in fields { self.clear_hash_field_ttl(key, field); }\<close>\<close>

definition clear_hash_field_ttls :: "('h, 't) bucket \<Rightarrow> bytes \<Rightarrow> bytes list \<Rightarrow> ('h, 't) bucket" where
  "clear_hash_field_ttls b key fs = fold (\<lambda>field b. clear_hash_field_ttl b key field) fs b"

definition hash_field_expiry :: "('h, 't) bucket \<Rightarrow> bytes \<Rightarrow> bytes \<Rightarrow> u64 option" where
  "hash_field_expiry b key field =
     Option.bind (map_of (hash_field_expire_at_ms b) key) (\<lambda>sub. map_of sub field)"

definition hash_field_is_expired :: "('h, 't) bucket \<Rightarrow> bytes \<Rightarrow> bytes \<Rightarrow> u64 \<Rightarrow> bool" where
  "hash_field_is_expired b key field now_ms \<longleftrightarrow>
     (case hash_field_expiry b key field of None \<Rightarrow> False | Some at \<Rightarrow> at \<le> now_ms)"

definition remove_expired_hash_fields ::
  "('h, 't) env \<Rightarrow> ('h, 't) bucket \<Rightarrow> bytes \<Rightarrow> u64 \<Rightarrow> ('h, 't) bucket option" where
  "remove_expired_hash_fields E b key now_ms =
     (case map_of (hash_field_expire_at_ms b) key of
        None \<Rightarrow> Some b
      | Some ttls \<Rightarrow>
          let expired = map fst (filter (\<lambda>(_, at). at \<le> now_ms) (hm_iter E ttls))
          in if expired = [] then Some b
             else do {
               b1 \<leftarrow> (case sm_get E (hashes b) key of
                        None \<Rightarrow> Some b
                      | Some slot \<Rightarrow> do {
                          hash \<leftarrow> slab_get (hash_slab b) slot;
                          Some (put_hash b slot (snd (remove_each hash_remove_is_some hash expired)))
                        });
               Some (clear_hash_field_ttls b1 key expired)
             })"

definition remove_hash_slot :: "('h, 't) env \<Rightarrow> ('h, 't) bucket \<Rightarrow> bytes \<Rightarrow> slot_id \<Rightarrow> ('h, 't) bucket" where
  "remove_hash_slot E b key slot =
     b\<lparr>hashes := snd (sm_remove E (hashes b) key),
       hash_slab := snd (slab_remove (hash_slab b) slot),
       expire_at_ms := hm_del key (expire_at_ms b),
       hash_field_expire_at_ms := hm_del key (hash_field_expire_at_ms b)\<rparr>"

definition remove_hash_if_empty ::
  "('h, 't) env \<Rightarrow> ('h, 't) bucket \<Rightarrow> bytes \<Rightarrow> (bool \<times> ('h, 't) bucket) option" where
  "remove_hash_if_empty E b key =
     (case sm_get E (hashes b) key of
        None \<Rightarrow> Some (False, b)
      | Some slot \<Rightarrow> do {
          hash \<leftarrow> slab_get (hash_slab b) slot;
          if \<not> hash_is_empty hash then Some (False, b)
          else Some (True, remove_hash_slot E b key slot)
        })"

definition remove_expired_hash_if_empty ::
  "('h, 't) env \<Rightarrow> ('h, 't) bucket \<Rightarrow> bytes \<Rightarrow> u64 \<Rightarrow> (bool \<times> ('h, 't) bucket) option" where
  "remove_expired_hash_if_empty E b key now_ms = do {
     b1 \<leftarrow> remove_expired_hash_fields E b key now_ms;
     remove_hash_if_empty E b1 key
   }"

definition hash_has_live_fields ::
  "('h, 't) env \<Rightarrow> ('h, 't) bucket \<Rightarrow> bytes \<Rightarrow> u64 \<Rightarrow> bool option" where
  "hash_has_live_fields E b key now_ms =
     (case sm_get E (hashes b) key of
        None \<Rightarrow> Some False
      | Some slot \<Rightarrow> do {
          hash \<leftarrow> slab_get (hash_slab b) slot;
          if hash_is_empty hash then Some False
          else if map_of (hash_field_expire_at_ms b) key = None then Some True
          else Some (list_ex (\<lambda>field. \<not> hash_field_is_expired b key field now_ms) (hash_fields E hash))
        })"

definition hash_needs_empty_expiry_cleanup ::
  "('h, 't) env \<Rightarrow> ('h, 't) bucket \<Rightarrow> bytes \<Rightarrow> u64 \<Rightarrow> bool option" where
  "hash_needs_empty_expiry_cleanup E b key now_ms =
     (if sm_contains_key E (hashes b) key
      then map_option Not (hash_has_live_fields E b key now_ms)
      else Some False)"

text \<open>The clock is read only when some key has field TTLs; \<open>clock\<close> is that reading.\<close>

definition hash_field_lazily_expired :: "('h, 't) bucket \<Rightarrow> bytes \<Rightarrow> bytes \<Rightarrow> u64 \<Rightarrow> bool" where
  "hash_field_lazily_expired b key field clock =
     (if hash_field_expire_at_ms b = [] then False else hash_field_is_expired b key field clock)"

definition hash_field_now_ms_for :: "('h, 't) bucket \<Rightarrow> bytes \<Rightarrow> u64 \<Rightarrow> u64 option" where
  "hash_field_now_ms_for b key clock =
     (if hash_field_expire_at_ms b = [] then None
      else case map_of (hash_field_expire_at_ms b) key of
             None \<Rightarrow> None
           | Some sub \<Rightarrow> if sub = [] then None else Some clock)"

definition hash_expired_field_count :: "('h, 't) env \<Rightarrow> ('h, 't) bucket \<Rightarrow> bytes \<Rightarrow> u64 \<Rightarrow> nat" where
  "hash_expired_field_count E b key clock =
     (if hash_field_expire_at_ms b = [] then 0
      else case map_of (hash_field_expire_at_ms b) key of
             None \<Rightarrow> 0
           | Some sub \<Rightarrow> length (filter (\<lambda>at. at \<le> clock) (map snd (hm_iter E sub))))"

definition remove_expired_hash_fields_for_write ::
  "('h, 't) env \<Rightarrow> ('h, 't) bucket \<Rightarrow> bytes \<Rightarrow> u64 \<Rightarrow> ('h, 't) bucket option" where
  "remove_expired_hash_fields_for_write E b key clock =
     (if map_of (hash_field_expire_at_ms b) key \<noteq> None
      then remove_expired_hash_fields E b key clock
      else Some b)"

end
