(* ===== verification/BucketInv.thy ===== *)
theory BucketInv
  imports Bucket
begin

text \<open>
  The invariant of a bucket, its abstraction, and the lemmas that carry every command
  proof: what an in-place update, a creation and a deletion do to the abstract state, for
  each of the four kinds of object, and what the TTL helpers do to it.
\<close>

section \<open>The abstract state\<close>

datatype robj =
    OHash "bytes \<rightharpoonup> bytes"
  | OList "bytes list"
  | OSet "bytes set"
  | OZSet "bytes \<rightharpoonup> f64"

record astate =
  a_obj :: "bytes \<rightharpoonup> robj"
  a_ttl :: "bytes \<rightharpoonup> u64"
  a_fttl :: "bytes \<Rightarrow> bytes \<rightharpoonup> u64"

definition a_put :: "bytes \<Rightarrow> robj \<Rightarrow> astate \<Rightarrow> astate" where
  "a_put k v A = A\<lparr>a_obj := (a_obj A)(k \<mapsto> v)\<rparr>"

definition a_del :: "bytes \<Rightarrow> astate \<Rightarrow> astate" where
  "a_del k A = A\<lparr>a_obj := (a_obj A)(k := None), a_ttl := (a_ttl A)(k := None),
                 a_fttl := (a_fttl A)(k := Map.empty)\<rparr>"

text \<open>The general change at one key.\<close>

definition a_at :: "bytes \<Rightarrow> robj option \<Rightarrow> u64 option \<Rightarrow> (bytes \<rightharpoonup> u64) \<Rightarrow> astate \<Rightarrow> astate" where
  "a_at k v ttl ft A = \<lparr>a_obj = (a_obj A)(k := v), a_ttl = (a_ttl A)(k := ttl), a_fttl = (a_fttl A)(k := ft)\<rparr>"

section \<open>Tables of a bucket\<close>

definition hash_tab :: "('h, 't) env \<Rightarrow> ('h, 't) bucket \<Rightarrow> bytes \<rightharpoonup> hash_object" where
  "hash_tab E b = tbl E (hashes b) (hash_slab b)"

definition list_tab :: "('h, 't) env \<Rightarrow> ('h, 't) bucket \<Rightarrow> bytes \<rightharpoonup> bytes list_object" where
  "list_tab E b = tbl E (lists b) (list_slab b)"

definition set_tab :: "('h, 't) env \<Rightarrow> ('h, 't) bucket \<Rightarrow> bytes \<rightharpoonup> set_object" where
  "set_tab E b = tbl E (sets b) (set_slab b)"

definition zset_tab :: "('h, 't) env \<Rightarrow> ('h, 't) bucket \<Rightarrow> bytes \<rightharpoonup> 't zset_object" where
  "zset_tab E b = tbl E (zsets b) (zset_slab b)"

definition list_ok :: "'a list_object \<Rightarrow> bool" where
  "list_ok l \<longleftrightarrow> list_rep l (list_iter l) \<and> list_iter l \<noteq> []"

definition set_good :: "set_object \<Rightarrow> bool" where
  "set_good s \<longleftrightarrow> set_ok s \<and> set_view s \<noteq> Map.empty"

definition zset_good :: "('h, 't) env \<Rightarrow> 't zset_object \<Rightarrow> bool" where
  "zset_good E z \<longleftrightarrow> zset_ok E z \<and> zset_score z \<noteq> Map.empty"

definition obj_of :: "hash_object option \<Rightarrow> bytes list_object option \<Rightarrow> set_object option \<Rightarrow>
    't zset_object option \<Rightarrow> robj option" where
  "obj_of h l s z =
     (case h of Some h \<Rightarrow> Some (OHash (hash_get h)) | None \<Rightarrow>
      case l of Some l \<Rightarrow> Some (OList (list_iter l)) | None \<Rightarrow>
      case s of Some s \<Rightarrow> Some (OSet (dom (set_view s))) | None \<Rightarrow>
      map_option (\<lambda>z. OZSet (zset_score z)) z)"

definition fttl :: "u64 hmap hmap \<Rightarrow> bytes \<Rightarrow> bytes \<rightharpoonup> u64" where
  "fttl m k f = Option.bind (map_of m k) (\<lambda>sub. map_of sub f)"

definition bucket_abs :: "('h, 't) env \<Rightarrow> ('h, 't) bucket \<Rightarrow> astate" where
  "bucket_abs E b =
     \<lparr>a_obj = (\<lambda>k. obj_of (hash_tab E b k) (list_tab E b k) (set_tab E b k) (zset_tab E b k)),
      a_ttl = map_of (expire_at_ms b),
      a_fttl = fttl (hash_field_expire_at_ms b)\<rparr>"

section \<open>The invariant\<close>

text \<open>No key has two objects: at most one of four options is present.\<close>

definition at_most_one :: "'a option \<Rightarrow> 'b option \<Rightarrow> 'c option \<Rightarrow> 'd option \<Rightarrow> bool" where
  "at_most_one h l s z \<longleftrightarrow>
     (h \<noteq> None \<longrightarrow> l = None \<and> s = None \<and> z = None) \<and> (l \<noteq> None \<longrightarrow> s = None \<and> z = None) \<and>
     (s \<noteq> None \<longrightarrow> z = None)"

text \<open>
  The invariant at one key: the objects there are well formed, there is at most one, a
  TTL belongs to an object and a field TTL to a field of a hash.
\<close>

definition key_inv :: "('h, 't) env \<Rightarrow> hash_object option \<Rightarrow> bytes list_object option \<Rightarrow> set_object option \<Rightarrow>
    't zset_object option \<Rightarrow> u64 option \<Rightarrow> (bytes \<rightharpoonup> u64) \<Rightarrow> bool" where
  "key_inv E h l s z ttl ft \<longleftrightarrow>
     at_most_one h l s z \<and>
     (\<forall>x. h = Some x \<longrightarrow> hash_ok x) \<and> (\<forall>x. l = Some x \<longrightarrow> list_ok x) \<and>
     (\<forall>x. s = Some x \<longrightarrow> set_good x) \<and> (\<forall>x. z = Some x \<longrightarrow> zset_good E x) \<and>
     (ttl \<noteq> None \<longrightarrow> \<not> (h = None \<and> l = None \<and> s = None \<and> z = None)) \<and>
     (case h of None \<Rightarrow> ft = Map.empty | Some x \<Rightarrow> dom ft \<subseteq> dom (hash_get x))"

definition ttl_maps_ok :: "u64 hmap \<Rightarrow> u64 hmap hmap \<Rightarrow> bool" where
  "ttl_maps_ok ex fe \<longleftrightarrow>
     distinct (map fst ex) \<and> distinct (map fst fe) \<and>
     (\<forall>p\<in>set fe. distinct (map fst (snd p)) \<and> snd p \<noteq> [])"

definition bucket_inv :: "('h, 't) env \<Rightarrow> ('h, 't) bucket \<Rightarrow> bool" where
  "bucket_inv E b \<longleftrightarrow>
     table_ok E (hashes b) (hash_slab b) \<and> table_ok E (lists b) (list_slab b) \<and>
     table_ok E (sets b) (set_slab b) \<and> table_ok E (zsets b) (zset_slab b) \<and>
     ttl_maps_ok (expire_at_ms b) (hash_field_expire_at_ms b) \<and>
     (\<forall>k. key_inv E (hash_tab E b k) (list_tab E b k) (set_tab E b k) (zset_tab E b k)
            (map_of (expire_at_ms b) k) (fttl (hash_field_expire_at_ms b) k))"

lemmas tab_defs = hash_tab_def list_tab_def set_tab_def zset_tab_def

lemma bucket_invD:
  assumes "bucket_inv E b"
  shows "table_ok E (hashes b) (hash_slab b)" "table_ok E (lists b) (list_slab b)"
    "table_ok E (sets b) (set_slab b)" "table_ok E (zsets b) (zset_slab b)"
    "ttl_maps_ok (expire_at_ms b) (hash_field_expire_at_ms b)"
    "key_inv E (hash_tab E b k) (list_tab E b k) (set_tab E b k) (zset_tab E b k)
       (map_of (expire_at_ms b) k) (fttl (hash_field_expire_at_ms b) k)"
  using assms by (simp_all add: bucket_inv_def)

lemma bucket_inv_default: "env_ok E \<Longrightarrow> bucket_inv E (bucket_default E)"
  by (simp add: bucket_inv_def bucket_default_def tab_defs table_ok_new tbl_new ttl_maps_ok_def
      key_inv_def at_most_one_def fttl_def fun_eq_iff)

lemma bucket_abs_default:
  "env_ok E \<Longrightarrow> bucket_abs E (bucket_default E) = \<lparr>a_obj = Map.empty, a_ttl = Map.empty, a_fttl = (\<lambda>_. Map.empty)\<rparr>"
  by (simp add: bucket_abs_def bucket_default_def tab_defs tbl_new obj_of_def fttl_def fun_eq_iff)

section \<open>Reading the abstract state\<close>

text \<open>What the object at a key says about the four tables.\<close>

lemma a_obj_cases:
  assumes "bucket_inv E b"
  obtains
    (none) "a_obj (bucket_abs E b) k = None" "hash_tab E b k = None" "list_tab E b k = None"
      "set_tab E b k = None" "zset_tab E b k = None"
  | (hash) h where "a_obj (bucket_abs E b) k = Some (OHash (hash_get h))" "hash_tab E b k = Some h"
      "list_tab E b k = None" "set_tab E b k = None" "zset_tab E b k = None" "hash_ok h"
  | (list) l where "a_obj (bucket_abs E b) k = Some (OList (list_iter l))" "list_tab E b k = Some l"
      "hash_tab E b k = None" "set_tab E b k = None" "zset_tab E b k = None"
      "list_rep l (list_iter l)" "list_iter l \<noteq> []"
  | (set) s where "a_obj (bucket_abs E b) k = Some (OSet (dom (set_view s)))" "set_tab E b k = Some s"
      "hash_tab E b k = None" "list_tab E b k = None" "zset_tab E b k = None"
      "set_ok s" "set_view s \<noteq> Map.empty"
  | (zset) z where "a_obj (bucket_abs E b) k = Some (OZSet (zset_score z))" "zset_tab E b k = Some z"
      "hash_tab E b k = None" "list_tab E b k = None" "set_tab E b k = None"
      "zset_ok E z" "zset_score z \<noteq> Map.empty"
proof -
  have inv: "key_inv E (hash_tab E b k) (list_tab E b k) (set_tab E b k) (zset_tab E b k)
       (map_of (expire_at_ms b) k) (fttl (hash_field_expire_at_ms b) k)"
    using bucket_invD(6) [OF assms] .
  note defs = key_inv_def at_most_one_def bucket_abs_def obj_of_def list_ok_def set_good_def zset_good_def
  show thesis
  proof (cases "hash_tab E b k")
    case (Some h)
    with inv show thesis by (intro hash [of h]) (simp_all add: defs)
  next
    case h: None
    show thesis
    proof (cases "list_tab E b k")
      case (Some l)
      with inv h show thesis by (intro list [of l]) (simp_all add: defs)
    next
      case l: None
      show thesis
      proof (cases "set_tab E b k")
        case (Some s)
        with inv h l show thesis by (intro set [of s]) (simp_all add: defs)
      next
        case s: None
        show thesis
        proof (cases "zset_tab E b k")
          case (Some z)
          with inv h l s show thesis by (intro zset [of z]) (simp_all add: defs)
        next
          case None
          with h l s show thesis by (intro none) (simp_all add: defs)
        qed
      qed
    qed
  qed
qed

lemma sm_tab:
  assumes "env_ok E" "bucket_inv E b"
  shows "sm_map E (hashes b) k = None \<longleftrightarrow> hash_tab E b k = None"
    "sm_map E (lists b) k = None \<longleftrightarrow> list_tab E b k = None"
    "sm_map E (sets b) k = None \<longleftrightarrow> set_tab E b k = None"
    "sm_map E (zsets b) k = None \<longleftrightarrow> zset_tab E b k = None"
  using bucket_invD(1-4) [OF assms(2)] by (simp_all add: tab_defs tbl_None_iff)

lemma slotmaps_ok:
  assumes "bucket_inv E b"
  shows "slotmap_ok E (hashes b)" "slotmap_ok E (lists b)" "slotmap_ok E (sets b)" "slotmap_ok E (zsets b)"
  using bucket_invD(1-4) [OF assms] by simp_all

lemma type_tests:
  assumes "env_ok E" "bucket_inv E b"
  shows "contains_object E b k \<longleftrightarrow> a_obj (bucket_abs E b) k \<noteq> None"
    "has_non_hash E b k \<longleftrightarrow> list_tab E b k \<noteq> None \<or> set_tab E b k \<noteq> None \<or> zset_tab E b k \<noteq> None"
    "has_non_list E b k \<longleftrightarrow> hash_tab E b k \<noteq> None \<or> set_tab E b k \<noteq> None \<or> zset_tab E b k \<noteq> None"
    "has_non_list_hashed E b (hash_key E k) k \<longleftrightarrow>
       hash_tab E b k \<noteq> None \<or> set_tab E b k \<noteq> None \<or> zset_tab E b k \<noteq> None"
    "has_non_set E b k \<longleftrightarrow> hash_tab E b k \<noteq> None \<or> list_tab E b k \<noteq> None \<or> zset_tab E b k \<noteq> None"
    "has_non_zset E b k \<longleftrightarrow> hash_tab E b k \<noteq> None \<or> list_tab E b k \<noteq> None \<or> set_tab E b k \<noteq> None"
proof -
  note sm = slotmaps_ok [OF assms(2)] and tab = sm_tab [OF assms, of k]
  note tests = contains_object_def has_non_hash_def has_non_list_def has_non_list_hashed_def
    has_non_set_def has_non_zset_def sm_contains_key_map [OF assms(1)] sm_contains_key_hashed_map [OF assms(1)]
  show "has_non_hash E b k \<longleftrightarrow> list_tab E b k \<noteq> None \<or> set_tab E b k \<noteq> None \<or> zset_tab E b k \<noteq> None"
    by (simp only: tests sm tab)
  show "has_non_list E b k \<longleftrightarrow> hash_tab E b k \<noteq> None \<or> set_tab E b k \<noteq> None \<or> zset_tab E b k \<noteq> None"
    by (simp only: tests sm tab)
  show "has_non_list_hashed E b (hash_key E k) k \<longleftrightarrow>
      hash_tab E b k \<noteq> None \<or> set_tab E b k \<noteq> None \<or> zset_tab E b k \<noteq> None"
    by (simp only: tests sm tab)
  show "has_non_set E b k \<longleftrightarrow> hash_tab E b k \<noteq> None \<or> list_tab E b k \<noteq> None \<or> zset_tab E b k \<noteq> None"
    by (simp only: tests sm tab)
  show "has_non_zset E b k \<longleftrightarrow> hash_tab E b k \<noteq> None \<or> list_tab E b k \<noteq> None \<or> set_tab E b k \<noteq> None"
    by (simp only: tests sm tab)
  have "contains_object E b k \<longleftrightarrow> hash_tab E b k \<noteq> None \<or> list_tab E b k \<noteq> None \<or>
      set_tab E b k \<noteq> None \<or> zset_tab E b k \<noteq> None"
    by (simp only: tests sm tab)
  then show "contains_object E b k \<longleftrightarrow> a_obj (bucket_abs E b) k \<noteq> None"
    by (simp add: bucket_abs_def obj_of_def split: option.split)
qed

section \<open>Changing one key\<close>

text \<open>A bucket that differs from a good one at a single key is good if it is good there.\<close>

lemma bucket_inv_at:
  assumes "bucket_inv E b"
    "table_ok E (hashes b') (hash_slab b')" "table_ok E (lists b') (list_slab b')"
    "table_ok E (sets b') (set_slab b')" "table_ok E (zsets b') (zset_slab b')"
    "ttl_maps_ok (expire_at_ms b') (hash_field_expire_at_ms b')"
    "hash_tab E b' = (hash_tab E b)(k := h)" "list_tab E b' = (list_tab E b)(k := l)"
    "set_tab E b' = (set_tab E b)(k := s)" "zset_tab E b' = (zset_tab E b)(k := z)"
    "map_of (expire_at_ms b') = (map_of (expire_at_ms b))(k := ttl)"
    "fttl (hash_field_expire_at_ms b') = (fttl (hash_field_expire_at_ms b))(k := ft)"
    "key_inv E h l s z ttl ft" "obj_of h l s z = v"
  shows "bucket_inv E b' \<and> bucket_abs E b' = a_at k v ttl ft (bucket_abs E b)"
proof
  show "bucket_inv E b'"
    using assms(2-13) bucket_invD(6) [OF assms(1)] by (simp add: bucket_inv_def)
  show "bucket_abs E b' = a_at k v ttl ft (bucket_abs E b)"
    by (simp add: a_at_def bucket_abs_def assms(7-12) assms(14) [symmetric] fun_eq_iff)
qed

lemma set_delete_mem: "p \<in> set (AList.delete k m) \<Longrightarrow> p \<in> set m"
  by (auto simp: AList.delete_eq)

lemma ttl_del:
  assumes "ttl_maps_ok ex fe"
  shows "ttl_maps_ok (hm_del k ex) fe" "map_of (hm_del k ex) = (map_of ex)(k := None)"
    "ttl_maps_ok ex (hm_del k fe)" "fttl (hm_del k fe) = (fttl fe)(k := Map.empty)"
  using assms
  by (auto simp: ttl_maps_ok_def hm_remove_def distinct_delete delete_conv' fttl_def fun_eq_iff
      dest: set_delete_mem)

lemma slab_remove_put:
  "slab_get s i \<noteq> None \<Longrightarrow> snd (slab_remove (slab_put s i v) i) = snd (slab_remove s i)"
  by (auto simp: slab_remove_def slab_put_def slab_get_def split: if_splits)

lemma key_inv_none:
  assumes "bucket_inv E b" "a_obj (bucket_abs E b) k = None"
  shows "hash_tab E b k = None" "list_tab E b k = None" "set_tab E b k = None" "zset_tab E b k = None"
    "map_of (expire_at_ms b) k = None" "fttl (hash_field_expire_at_ms b) k = Map.empty"
proof -
  show t: "hash_tab E b k = None" "list_tab E b k = None" "set_tab E b k = None" "zset_tab E b k = None"
    using a_obj_cases [OF assms(1), of k] assms(2) by force+
  show "map_of (expire_at_ms b) k = None" "fttl (hash_field_expire_at_ms b) k = Map.empty"
    using bucket_invD(6) [OF assms(1), of k] t by (auto simp: key_inv_def)
qed

lemma key_inv_nonhash:
  "bucket_inv E b \<Longrightarrow> hash_tab E b k = None \<Longrightarrow> fttl (hash_field_expire_at_ms b) k = Map.empty"
  using bucket_invD(6) [of E b k] by (simp add: key_inv_def)

lemma a_at_put:
  "a_at k (Some v) (map_of (expire_at_ms b) k) (fttl (hash_field_expire_at_ms b) k) (bucket_abs E b) =
     a_put k v (bucket_abs E b)"
  by (simp add: a_at_def a_put_def bucket_abs_def fun_upd_idem)

lemma a_at_new:
  assumes "bucket_inv E b" "a_obj (bucket_abs E b) k = None"
  shows "a_at k (Some v) None Map.empty (bucket_abs E b) = a_put k v (bucket_abs E b)"
  using key_inv_none(5,6) [OF assms] by (simp add: a_at_put [symmetric])

lemma a_at_del: "a_at k None None Map.empty A = a_del k A"
  by (simp add: a_del_def a_at_def)

section \<open>Lists\<close>

lemma list_slot:
  assumes "env_ok E" "bucket_inv E b" "sm_map E (lists b) k = Some i"
  obtains l where "list_tab E b k = Some l" "slab_get (list_slab b) i = Some l"
    "a_obj (bucket_abs E b) k = Some (OList (list_iter l))" "list_rep l (list_iter l)" "list_iter l \<noteq> []"
    "hash_tab E b k = None" "set_tab E b k = None" "zset_tab E b k = None"
    "fttl (hash_field_expire_at_ms b) k = Map.empty"
proof -
  obtain l where l: "slab_get (list_slab b) i = Some l" "list_tab E b k = Some l"
    using bucket_invD(2) [OF assms(2)] assms(3) by (auto simp: tab_defs elim: tbl_slot)
  with a_obj_cases [OF assms(2), of k] have "a_obj (bucket_abs E b) k = Some (OList (list_iter l))"
    "list_rep l (list_iter l)" "list_iter l \<noteq> []" "hash_tab E b k = None" "set_tab E b k = None"
    "zset_tab E b k = None"
    by force+
  with l key_inv_nonhash [OF assms(2)] show thesis by (intro that [of l]) simp_all
qed

lemma list_put:
  assumes E: "env_ok E" and b: "bucket_inv E b" and i: "sm_map E (lists b) k = Some i"
    and l: "list_rep l xs" "xs \<noteq> []"
  shows "bucket_inv E (put_list b i l) \<and> bucket_abs E (put_list b i l) = a_put k (OList xs) (bucket_abs E b)"
proof -
  note t = bucket_invD(1-5) [OF b]
  have it: "list_iter l = xs" using l(1) by (rule list_rep_iter)
  from list_slot [OF E b i] obtain l0 where o: "hash_tab E b k = None" "set_tab E b k = None"
    "zset_tab E b k = None" "fttl (hash_field_expire_at_ms b) k = Map.empty" by metis
  have "bucket_inv E (put_list b i l) \<and> bucket_abs E (put_list b i l) =
      a_at k (Some (OList xs)) (map_of (expire_at_ms b) k)
        (fttl (hash_field_expire_at_ms b) k) (bucket_abs E b)"
    by (rule bucket_inv_at [where h = None and l = "Some l" and s = None and z = None, OF b])
      (use t o tbl_put [OF t(2) i] l it in
        \<open>simp_all add: put_list_def tab_defs fun_upd_idem key_inv_def at_most_one_def list_ok_def obj_of_def\<close>)
  then show ?thesis by (simp add: a_at_put)
qed

lemma list_create:
  assumes E: "env_ok E" and b: "bucket_inv E b" and k: "a_obj (bucket_abs E b) k = None"
    and l: "list_rep l xs" "xs \<noteq> []"
  shows "\<exists>b'. new_list E b (hash_key E k) k l = Some b' \<and> bucket_inv E b' \<and>
           bucket_abs E b' = a_put k (OList xs) (bucket_abs E b)"
proof -
  note t = bucket_invD(1-5) [OF b] and o = key_inv_none [OF b k]
  have it: "list_iter l = xs" using l(1) by (rule list_rep_iter)
  obtain i s where s: "slab_insert (list_slab b) l = Some (i, s)"
    "table_ok E (snd (sm_insert_hashed E (lists b) (hash_key E k) k i)) s"
    "tbl E (snd (sm_insert_hashed E (lists b) (hash_key E k) k i)) s = (tbl E (lists b) (list_slab b))(k \<mapsto> l)"
    using tbl_create [OF E t(2)] o(2) by (metis list_tab_def)
  let ?b = "b\<lparr>list_slab := s, lists := snd (sm_insert_hashed E (lists b) (hash_key E k) k i)\<rparr>"
  have "bucket_inv E ?b \<and> bucket_abs E ?b = a_at k (Some (OList xs)) None Map.empty (bucket_abs E b)"
    by (rule bucket_inv_at [where h = None and l = "Some l" and s = None and z = None, OF b])
      (use t o s l it in \<open>simp_all add: tab_defs fun_upd_idem key_inv_def at_most_one_def list_ok_def obj_of_def\<close>)
  with s(1) show ?thesis by (simp add: new_list_def a_at_new [OF b k])
qed

lemma list_delete:
  assumes E: "env_ok E" and b: "bucket_inv E b" and i: "sm_map E (lists b) k = Some i"
  shows "bucket_inv E (drop_list E b k i) \<and> bucket_abs E (drop_list E b k i) = a_del k (bucket_abs E b)"
proof -
  note t = bucket_invD(1-5) [OF b]
  from list_slot [OF E b i] obtain l0 where o: "hash_tab E b k = None" "set_tab E b k = None"
    "zset_tab E b k = None" "fttl (hash_field_expire_at_ms b) k = Map.empty" by metis
  have "bucket_inv E (drop_list E b k i) \<and> bucket_abs E (drop_list E b k i) =
      a_at k None None Map.empty (bucket_abs E b)"
    by (rule bucket_inv_at [where h = None and l = None and s = None and z = None, OF b])
      (use t o tbl_delete [OF E t(2) i] ttl_del [OF t(5), of k] in
        \<open>simp_all add: drop_list_def tab_defs fun_upd_idem key_inv_def at_most_one_def obj_of_def\<close>)
  then show ?thesis by (simp add: a_at_del)
qed

lemma drop_put_list:
  "slab_get (list_slab b) i \<noteq> None \<Longrightarrow> drop_list E (put_list b i l) k i = drop_list E b k i"
  by (simp add: drop_list_def put_list_def slab_remove_put)

section \<open>Sets\<close>

lemma set_slot:
  assumes "env_ok E" "bucket_inv E b" "sm_map E (sets b) k = Some i"
  obtains x where "set_tab E b k = Some x" "slab_get (set_slab b) i = Some x"
    "a_obj (bucket_abs E b) k = Some (OSet (dom (set_view x)))" "set_ok x" "set_view x \<noteq> Map.empty"
    "hash_tab E b k = None" "list_tab E b k = None" "zset_tab E b k = None"
    "fttl (hash_field_expire_at_ms b) k = Map.empty"
proof -
  obtain x where x: "slab_get (set_slab b) i = Some x" "set_tab E b k = Some x"
    using bucket_invD(3) [OF assms(2)] assms(3) by (auto simp: tab_defs elim: tbl_slot)
  with a_obj_cases [OF assms(2), of k] have "a_obj (bucket_abs E b) k = Some (OSet (dom (set_view x)))"
    "set_ok x" "set_view x \<noteq> Map.empty" "hash_tab E b k = None" "list_tab E b k = None" "zset_tab E b k = None"
    by force+
  with x key_inv_nonhash [OF assms(2)] show thesis by (intro that [of x]) simp_all
qed

lemma set_put:
  assumes E: "env_ok E" and b: "bucket_inv E b" and i: "sm_map E (sets b) k = Some i"
    and x: "set_ok x" "set_view x \<noteq> Map.empty"
  shows "bucket_inv E (put_set b i x) \<and> bucket_abs E (put_set b i x) = a_put k (OSet (dom (set_view x))) (bucket_abs E b)"
proof -
  note t = bucket_invD(1-5) [OF b]
  from set_slot [OF E b i] obtain x0 where o: "hash_tab E b k = None" "list_tab E b k = None"
    "zset_tab E b k = None" "fttl (hash_field_expire_at_ms b) k = Map.empty" by metis
  have "bucket_inv E (put_set b i x) \<and> bucket_abs E (put_set b i x) =
      a_at k (Some (OSet (dom (set_view x)))) (map_of (expire_at_ms b) k)
        (fttl (hash_field_expire_at_ms b) k) (bucket_abs E b)"
    by (rule bucket_inv_at [where h = None and l = None and s = "Some x" and z = None, OF b])
      (use t o tbl_put [OF t(3) i] x in
        \<open>simp_all add: put_set_def tab_defs fun_upd_idem key_inv_def at_most_one_def set_good_def obj_of_def\<close>)
  then show ?thesis by (simp add: a_at_put)
qed

lemma set_create:
  assumes E: "env_ok E" and b: "bucket_inv E b" and k: "a_obj (bucket_abs E b) k = None"
    and x: "set_ok x" "set_view x \<noteq> Map.empty"
  shows "\<exists>b'. new_set E b (hash_key E k) k x = Some b' \<and> bucket_inv E b' \<and>
           bucket_abs E b' = a_put k (OSet (dom (set_view x))) (bucket_abs E b)"
proof -
  note t = bucket_invD(1-5) [OF b] and o = key_inv_none [OF b k]
  obtain i s where s: "slab_insert (set_slab b) x = Some (i, s)"
    "table_ok E (snd (sm_insert_hashed E (sets b) (hash_key E k) k i)) s"
    "tbl E (snd (sm_insert_hashed E (sets b) (hash_key E k) k i)) s = (tbl E (sets b) (set_slab b))(k \<mapsto> x)"
    using tbl_create [OF E t(3)] o(3) by (metis set_tab_def)
  let ?b = "b\<lparr>set_slab := s, sets := snd (sm_insert_hashed E (sets b) (hash_key E k) k i)\<rparr>"
  have "bucket_inv E ?b \<and> bucket_abs E ?b = a_at k (Some (OSet (dom (set_view x)))) None Map.empty (bucket_abs E b)"
    by (rule bucket_inv_at [where h = None and l = None and s = "Some x" and z = None, OF b])
      (use t o s x in \<open>simp_all add: tab_defs fun_upd_idem key_inv_def at_most_one_def set_good_def obj_of_def\<close>)
  with s(1) show ?thesis by (simp add: new_set_def a_at_new [OF b k])
qed

lemma set_delete:
  assumes E: "env_ok E" and b: "bucket_inv E b" and i: "sm_map E (sets b) k = Some i"
  shows "bucket_inv E (drop_set E b k i) \<and> bucket_abs E (drop_set E b k i) = a_del k (bucket_abs E b)"
proof -
  note t = bucket_invD(1-5) [OF b]
  from set_slot [OF E b i] obtain x0 where o: "hash_tab E b k = None" "list_tab E b k = None"
    "zset_tab E b k = None" "fttl (hash_field_expire_at_ms b) k = Map.empty" by metis
  have "bucket_inv E (drop_set E b k i) \<and> bucket_abs E (drop_set E b k i) =
      a_at k None None Map.empty (bucket_abs E b)"
    by (rule bucket_inv_at [where h = None and l = None and s = None and z = None, OF b])
      (use t o tbl_delete [OF E t(3) i] ttl_del [OF t(5), of k] in
        \<open>simp_all add: drop_set_def tab_defs fun_upd_idem key_inv_def at_most_one_def obj_of_def\<close>)
  then show ?thesis by (simp add: a_at_del)
qed

lemma drop_put_set:
  "slab_get (set_slab b) i \<noteq> None \<Longrightarrow> drop_set E (put_set b i x) k i = drop_set E b k i"
  by (simp add: drop_set_def put_set_def slab_remove_put)

section \<open>Sorted sets\<close>

lemma zset_slot:
  assumes "env_ok E" "bucket_inv E b" "sm_map E (zsets b) k = Some i"
  obtains x where "zset_tab E b k = Some x" "slab_get (zset_slab b) i = Some x"
    "a_obj (bucket_abs E b) k = Some (OZSet (zset_score x))" "zset_ok E x" "zset_score x \<noteq> Map.empty"
    "hash_tab E b k = None" "list_tab E b k = None" "set_tab E b k = None"
    "fttl (hash_field_expire_at_ms b) k = Map.empty"
proof -
  obtain x where x: "slab_get (zset_slab b) i = Some x" "zset_tab E b k = Some x"
    using bucket_invD(4) [OF assms(2)] assms(3) by (auto simp: tab_defs elim: tbl_slot)
  with a_obj_cases [OF assms(2), of k] have "a_obj (bucket_abs E b) k = Some (OZSet (zset_score x))"
    "zset_ok E x" "zset_score x \<noteq> Map.empty" "hash_tab E b k = None" "list_tab E b k = None" "set_tab E b k = None"
    by force+
  with x key_inv_nonhash [OF assms(2)] show thesis by (intro that [of x]) simp_all
qed

lemma zset_put:
  assumes E: "env_ok E" and b: "bucket_inv E b" and i: "sm_map E (zsets b) k = Some i"
    and x: "zset_ok E x" "zset_score x \<noteq> Map.empty"
  shows "bucket_inv E (put_zset b i x) \<and> bucket_abs E (put_zset b i x) = a_put k (OZSet (zset_score x)) (bucket_abs E b)"
proof -
  note t = bucket_invD(1-5) [OF b]
  from zset_slot [OF E b i] obtain x0 where o: "hash_tab E b k = None" "list_tab E b k = None"
    "set_tab E b k = None" "fttl (hash_field_expire_at_ms b) k = Map.empty" by metis
  have "bucket_inv E (put_zset b i x) \<and> bucket_abs E (put_zset b i x) =
      a_at k (Some (OZSet (zset_score x))) (map_of (expire_at_ms b) k)
        (fttl (hash_field_expire_at_ms b) k) (bucket_abs E b)"
    by (rule bucket_inv_at [where h = None and l = None and z = "Some x" and s = None, OF b])
      (use t o tbl_put [OF t(4) i] x in
        \<open>simp_all add: put_zset_def tab_defs fun_upd_idem key_inv_def at_most_one_def zset_good_def obj_of_def\<close>)
  then show ?thesis by (simp add: a_at_put)
qed

lemma zset_create:
  assumes E: "env_ok E" and b: "bucket_inv E b" and k: "a_obj (bucket_abs E b) k = None"
    and x: "zset_ok E x" "zset_score x \<noteq> Map.empty"
  shows "\<exists>b'. new_zset E b (hash_key E k) k x = Some b' \<and> bucket_inv E b' \<and>
           bucket_abs E b' = a_put k (OZSet (zset_score x)) (bucket_abs E b)"
proof -
  note t = bucket_invD(1-5) [OF b] and o = key_inv_none [OF b k]
  obtain i s where s: "slab_insert (zset_slab b) x = Some (i, s)"
    "table_ok E (snd (sm_insert_hashed E (zsets b) (hash_key E k) k i)) s"
    "tbl E (snd (sm_insert_hashed E (zsets b) (hash_key E k) k i)) s = (tbl E (zsets b) (zset_slab b))(k \<mapsto> x)"
    using tbl_create [OF E t(4)] o(4) by (metis zset_tab_def)
  let ?b = "b\<lparr>zset_slab := s, zsets := snd (sm_insert_hashed E (zsets b) (hash_key E k) k i)\<rparr>"
  have "bucket_inv E ?b \<and> bucket_abs E ?b = a_at k (Some (OZSet (zset_score x))) None Map.empty (bucket_abs E b)"
    by (rule bucket_inv_at [where h = None and l = None and z = "Some x" and s = None, OF b])
      (use t o s x in \<open>simp_all add: tab_defs fun_upd_idem key_inv_def at_most_one_def zset_good_def obj_of_def\<close>)
  with s(1) show ?thesis by (simp add: new_zset_def a_at_new [OF b k])
qed

lemma zset_delete:
  assumes E: "env_ok E" and b: "bucket_inv E b" and i: "sm_map E (zsets b) k = Some i"
  shows "bucket_inv E (drop_zset E b k i) \<and> bucket_abs E (drop_zset E b k i) = a_del k (bucket_abs E b)"
proof -
  note t = bucket_invD(1-5) [OF b]
  from zset_slot [OF E b i] obtain x0 where o: "hash_tab E b k = None" "list_tab E b k = None"
    "set_tab E b k = None" "fttl (hash_field_expire_at_ms b) k = Map.empty" by metis
  have "bucket_inv E (drop_zset E b k i) \<and> bucket_abs E (drop_zset E b k i) =
      a_at k None None Map.empty (bucket_abs E b)"
    by (rule bucket_inv_at [where h = None and l = None and s = None and z = None, OF b])
      (use t o tbl_delete [OF E t(4) i] ttl_del [OF t(5), of k] in
        \<open>simp_all add: drop_zset_def tab_defs fun_upd_idem key_inv_def at_most_one_def obj_of_def\<close>)
  then show ?thesis by (simp add: a_at_del)
qed

lemma drop_put_zset:
  "slab_get (zset_slab b) i \<noteq> None \<Longrightarrow> drop_zset E (put_zset b i x) k i = drop_zset E b k i"
  by (simp add: drop_zset_def put_zset_def slab_remove_put)

section \<open>Hashes\<close>

definition a_hash :: "bytes \<Rightarrow> (bytes \<rightharpoonup> bytes) \<Rightarrow> (bytes \<rightharpoonup> u64) \<Rightarrow> astate \<Rightarrow> astate" where
  "a_hash k m ft A = a_at k (Some (OHash m)) (a_ttl A k) ft A"

lemma hash_slot:
  assumes "env_ok E" "bucket_inv E b" "sm_map E (hashes b) k = Some i"
  obtains x where "hash_tab E b k = Some x" "slab_get (hash_slab b) i = Some x"
    "a_obj (bucket_abs E b) k = Some (OHash (hash_get x))" "hash_ok x"
    "list_tab E b k = None" "set_tab E b k = None" "zset_tab E b k = None"
    "dom (fttl (hash_field_expire_at_ms b) k) \<subseteq> dom (hash_get x)"
proof -
  obtain x where x: "slab_get (hash_slab b) i = Some x" "hash_tab E b k = Some x"
    using bucket_invD(1) [OF assms(2)] assms(3) by (auto simp: tab_defs elim: tbl_slot)
  with a_obj_cases [OF assms(2), of k] have "a_obj (bucket_abs E b) k = Some (OHash (hash_get x))"
    "hash_ok x" "list_tab E b k = None" "set_tab E b k = None" "zset_tab E b k = None"
    by force+
  moreover have "dom (fttl (hash_field_expire_at_ms b) k) \<subseteq> dom (hash_get x)"
    using bucket_invD(6) [OF assms(2), of k] x by (simp add: key_inv_def)
  ultimately show thesis using x by (intro that [of x]) simp_all
qed

text \<open>A hash is updated together with the TTLs of its fields.\<close>

lemma hash_put:
  assumes E: "env_ok E" and b: "bucket_inv E b" and i: "sm_map E (hashes b) k = Some i"
    and h: "hash_ok h" and fe: "ttl_maps_ok (expire_at_ms b) fe"
    "fttl fe = (fttl (hash_field_expire_at_ms b))(k := ft)" "dom ft \<subseteq> dom (hash_get h)"
  defines "b' \<equiv> (put_hash b i h)\<lparr>hash_field_expire_at_ms := fe\<rparr>"
  shows "bucket_inv E b' \<and> bucket_abs E b' = a_hash k (hash_get h) ft (bucket_abs E b)"
proof -
  note t = bucket_invD(1-5) [OF b]
  from hash_slot [OF E b i] obtain x0 where o: "list_tab E b k = None" "set_tab E b k = None"
    "zset_tab E b k = None" by metis
  have "bucket_inv E b' \<and> bucket_abs E b' =
      a_at k (Some (OHash (hash_get h))) (map_of (expire_at_ms b) k) ft (bucket_abs E b)"
    by (rule bucket_inv_at [where h = "Some h" and l = None and s = None and z = None, OF b])
      (use t o tbl_put [OF t(1) i] h fe in
        \<open>simp_all add: b'_def put_hash_def tab_defs fun_upd_idem key_inv_def at_most_one_def obj_of_def\<close>)
  then show ?thesis by (simp add: a_hash_def bucket_abs_def)
qed

lemma hash_create:
  assumes E: "env_ok E" and b: "bucket_inv E b" and k: "a_obj (bucket_abs E b) k = None" and x: "hash_ok x"
  shows "\<exists>b'. new_hash E b (hash_key E k) k x = Some b' \<and> bucket_inv E b' \<and>
           bucket_abs E b' = a_put k (OHash (hash_get x)) (bucket_abs E b)"
proof -
  note t = bucket_invD(1-5) [OF b] and o = key_inv_none [OF b k]
  obtain i s where s: "slab_insert (hash_slab b) x = Some (i, s)"
    "table_ok E (snd (sm_insert_hashed E (hashes b) (hash_key E k) k i)) s"
    "tbl E (snd (sm_insert_hashed E (hashes b) (hash_key E k) k i)) s = (tbl E (hashes b) (hash_slab b))(k \<mapsto> x)"
    using tbl_create [OF E t(1)] o(1) by (metis hash_tab_def)
  let ?b = "b\<lparr>hash_slab := s, hashes := snd (sm_insert_hashed E (hashes b) (hash_key E k) k i)\<rparr>"
  have "bucket_inv E ?b \<and> bucket_abs E ?b = a_at k (Some (OHash (hash_get x))) None Map.empty (bucket_abs E b)"
    by (rule bucket_inv_at [where h = "Some x" and l = None and s = None and z = None, OF b])
      (use t o s x in \<open>simp_all add: tab_defs fun_upd_idem key_inv_def at_most_one_def obj_of_def\<close>)
  with s(1) show ?thesis by (simp add: new_hash_def a_at_new [OF b k])
qed

lemma hash_delete:
  assumes E: "env_ok E" and b: "bucket_inv E b" and i: "sm_map E (hashes b) k = Some i"
  shows "bucket_inv E (remove_hash_slot E b k i) \<and>
    bucket_abs E (remove_hash_slot E b k i) = a_del k (bucket_abs E b)"
proof -
  note t = bucket_invD(1-5) [OF b]
  from hash_slot [OF E b i] obtain x0 where o: "list_tab E b k = None" "set_tab E b k = None"
    "zset_tab E b k = None" by metis
  note d = ttl_del [OF t(5), of k] and d' = ttl_del [OF ttl_del(1) [OF t(5), of k], of k]
  have "bucket_inv E (remove_hash_slot E b k i) \<and> bucket_abs E (remove_hash_slot E b k i) =
      a_at k None None Map.empty (bucket_abs E b)"
    by (rule bucket_inv_at [where h = None and l = None and s = None and z = None, OF b])
      (use t o tbl_delete [OF E t(1) i] d d' in
        \<open>simp_all add: remove_hash_slot_def tab_defs fun_upd_idem key_inv_def at_most_one_def obj_of_def\<close>)
  then show ?thesis by (simp add: a_at_del)
qed

text \<open>Deleting after an edit of the same hash and of its TTLs is deleting.\<close>

lemma delete_put_hash:
  "slab_get (hash_slab b) i \<noteq> None \<Longrightarrow> remove_hash_slot E (put_hash b i h) k i = remove_hash_slot E b k i"
  by (simp add: remove_hash_slot_def put_hash_def slab_remove_put)

section \<open>Field TTLs\<close>

lemma ttl_maps_upd:
  assumes "ttl_maps_ok ex fe" "distinct (map fst sub)" "sub \<noteq> []"
  shows "ttl_maps_ok ex (hm_put k sub fe)" "fttl (hm_put k sub fe) = (fttl fe)(k := map_of sub)"
proof -
  have "snd p = sub \<or> p \<in> set fe" if "p \<in> set (AList.update k sub fe)" for p
    using that by (induction fe) (auto split: if_splits)
  then show "ttl_maps_ok ex (hm_put k sub fe)"
    using assms by (auto simp: ttl_maps_ok_def hm_insert_def distinct_update)
  show "fttl (hm_put k sub fe) = (fttl fe)(k := map_of sub)"
    by (auto simp: fttl_def hm_insert_def update_conv' fun_eq_iff)
qed

lemma ttl_sub:
  "ttl_maps_ok ex fe \<Longrightarrow> map_of fe k = Some sub \<Longrightarrow> distinct (map fst sub) \<and> sub \<noteq> [] \<and> fttl fe k = map_of sub"
  by (auto simp: ttl_maps_ok_def fttl_def fun_eq_iff dest: map_of_SomeD)

lemma clear_ttl:
  assumes "ttl_maps_ok (expire_at_ms b) (hash_field_expire_at_ms b)"
  shows "\<exists>fe. clear_hash_field_ttl b k f = b\<lparr>hash_field_expire_at_ms := fe\<rparr> \<and>
    ttl_maps_ok (expire_at_ms b) fe \<and>
    fttl fe = (fttl (hash_field_expire_at_ms b))(k := (fttl (hash_field_expire_at_ms b) k)(f := None))"
proof (cases "map_of (hash_field_expire_at_ms b) k")
  case None
  then have "clear_hash_field_ttl b k f = b\<lparr>hash_field_expire_at_ms := hash_field_expire_at_ms b\<rparr>"
    by (simp add: clear_hash_field_ttl_def)
  moreover have "fttl (hash_field_expire_at_ms b) k = Map.empty" using None by (simp add: fttl_def fun_eq_iff)
  ultimately show ?thesis using assms by (metis fun_upd_triv)
next
  case (Some sub)
  note sub = ttl_sub [OF assms Some]
  have del: "map_of (hm_del f sub) = (map_of sub)(f := None)" by (simp add: hm_remove_def delete_conv')
  show ?thesis
  proof (cases "hm_del f sub = []")
    case True
    then have "(map_of sub)(f := None) = Map.empty" using del by simp
    with True Some sub ttl_del(3,4) [OF assms, of k] show ?thesis
      by (intro exI [of _ "hm_del k (hash_field_expire_at_ms b)"]) (simp add: clear_hash_field_ttl_def)
  next
    case False
    have "distinct (map fst (hm_del f sub))" using sub by (simp add: hm_remove_def distinct_delete)
    from ttl_maps_upd [OF assms this False, of k] False Some sub del show ?thesis
      by (intro exI [of _ "hm_put k (hm_del f sub) (hash_field_expire_at_ms b)"])
        (simp add: clear_hash_field_ttl_def)
  qed
qed

lemma clear_ttls:
  "ttl_maps_ok (expire_at_ms b) (hash_field_expire_at_ms b) \<Longrightarrow>
   \<exists>fe. clear_hash_field_ttls b k fs = b\<lparr>hash_field_expire_at_ms := fe\<rparr> \<and>
    ttl_maps_ok (expire_at_ms b) fe \<and>
    fttl fe = (fttl (hash_field_expire_at_ms b))(k := (fttl (hash_field_expire_at_ms b) k) |` (- set fs))"
proof (induction fs arbitrary: b)
  case Nil
  then show ?case
    by (intro exI [of _ "hash_field_expire_at_ms b"]) (simp add: clear_hash_field_ttls_def)
next
  case (Cons f fs)
  obtain fe where fe: "clear_hash_field_ttl b k f = b\<lparr>hash_field_expire_at_ms := fe\<rparr>"
    "ttl_maps_ok (expire_at_ms b) fe"
    "fttl fe = (fttl (hash_field_expire_at_ms b))(k := (fttl (hash_field_expire_at_ms b) k)(f := None))"
    using clear_ttl [OF Cons.prems] by blast
  have "\<exists>fe'. clear_hash_field_ttls (b\<lparr>hash_field_expire_at_ms := fe\<rparr>) k fs = b\<lparr>hash_field_expire_at_ms := fe'\<rparr> \<and>
      ttl_maps_ok (expire_at_ms b) fe' \<and> fttl fe' = (fttl fe)(k := (fttl fe k) |` (- set fs))"
    using Cons.IH [of "b\<lparr>hash_field_expire_at_ms := fe\<rparr>"] fe(2) by (simp add: fun_upd_def)
  then obtain fe' where
    "clear_hash_field_ttls (b\<lparr>hash_field_expire_at_ms := fe\<rparr>) k fs = b\<lparr>hash_field_expire_at_ms := fe'\<rparr>"
    "ttl_maps_ok (expire_at_ms b) fe'" "fttl fe' = (fttl fe)(k := (fttl fe k) |` (- set fs))"
    by blast
  with fe show ?case
    by (intro exI [of _ fe'])
      (auto simp: clear_hash_field_ttls_def restrict_map_def fun_eq_iff)
qed

lemma set_ttl:
  assumes "ttl_maps_ok (expire_at_ms b) (hash_field_expire_at_ms b)"
  shows "\<exists>fe. set_hash_field_expiry b k f at = b\<lparr>hash_field_expire_at_ms := fe\<rparr> \<and>
    ttl_maps_ok (expire_at_ms b) fe \<and>
    fttl fe = (fttl (hash_field_expire_at_ms b))(k := (fttl (hash_field_expire_at_ms b) k)(f \<mapsto> at))"
proof -
  let ?sub = "case map_of (hash_field_expire_at_ms b) k of None \<Rightarrow> [] | Some sub \<Rightarrow> sub"
  have sub: "distinct (map fst ?sub)" "fttl (hash_field_expire_at_ms b) k = map_of ?sub"
    using ttl_sub [OF assms, of k] by (auto simp: fttl_def fun_eq_iff split: option.split)
  have "distinct (map fst (hm_put f at ?sub))" "hm_put f at ?sub \<noteq> []"
    "map_of (hm_put f at ?sub) = (map_of ?sub)(f \<mapsto> at)"
    using sub(1) by (auto simp: hm_insert_def distinct_update update_conv' simp del: map_of.simps
        dest: arg_cong [of _ _ "\<lambda>m. map_of m f"])
  with ttl_maps_upd [OF assms this(1,2), of k] sub(2) show ?thesis
    by (intro exI [of _ "hm_put k (hm_put f at ?sub) (hash_field_expire_at_ms b)"])
      (simp add: set_hash_field_expiry_def)
qed

section \<open>Expired fields\<close>

definition a_dead :: "astate \<Rightarrow> bytes \<Rightarrow> u64 \<Rightarrow> bytes set" where
  "a_dead A k now = {f. \<exists>at. a_fttl A k f = Some at \<and> at \<le> now}"

text \<open>The fields of a hash that are alive at a time.\<close>

definition a_live :: "astate \<Rightarrow> bytes \<Rightarrow> u64 \<Rightarrow> bytes \<rightharpoonup> bytes" where
  "a_live A k now =
     (case a_obj A k of Some (OHash m) \<Rightarrow> m |` (- a_dead A k now) | _ \<Rightarrow> Map.empty)"

definition a_purge :: "bytes \<Rightarrow> u64 \<Rightarrow> astate \<Rightarrow> astate" where
  "a_purge k now A =
     (case a_obj A k of
        Some (OHash m) \<Rightarrow> a_hash k (m |` (- a_dead A k now)) (a_fttl A k |` (- a_dead A k now)) A
      | _ \<Rightarrow> A)"

lemma a_fttl_abs [simp]: "a_fttl (bucket_abs E b) = fttl (hash_field_expire_at_ms b)"
  by (simp add: bucket_abs_def)

lemma a_ttl_abs [simp]: "a_ttl (bucket_abs E b) = map_of (expire_at_ms b)"
  by (simp add: bucket_abs_def)

lemma hash_field_expiry_abs: "hash_field_expiry b k f = a_fttl (bucket_abs E b) k f"
  by (simp add: hash_field_expiry_def fttl_def)

lemma is_expired_dead: "hash_field_is_expired b k f now \<longleftrightarrow> f \<in> a_dead (bucket_abs E b) k now"
  by (auto simp: hash_field_is_expired_def hash_field_expiry_abs [of b k f E] a_dead_def split: option.split)

lemma restrict_UNIV [simp]: "m |` UNIV = m"
  by (simp add: restrict_map_def)

lemma a_purge_id: "a_dead A k now = {} \<Longrightarrow> a_purge k now A = A"
  by (auto simp: a_purge_def a_hash_def a_at_def fun_upd_idem split: option.split robj.split)

lemma put_same_fe: "(put_hash b i h)\<lparr>hash_field_expire_at_ms := hash_field_expire_at_ms b\<rparr> = put_hash b i h"
  by (simp add: put_hash_def)

lemma expired_fields:
  assumes E: "env_ok E" and sub: "distinct (map fst sub)"
  shows "set (map fst (filter (\<lambda>(_, at). at \<le> now) (hm_iter E sub))) =
      {f. \<exists>at. map_of sub f = Some at \<and> at \<le> now}"
    "length (filter (\<lambda>at. at \<le> now) (map snd (hm_iter E sub))) =
      card {f. \<exists>at. map_of sub f = Some at \<and> at \<le> now}"
proof -
  show S: "set (map fst (filter (\<lambda>(_, at). at \<le> now) (hm_iter E sub))) =
      {f. \<exists>at. map_of sub f = Some at \<and> at \<le> now}"
    using hm_iter_mem [OF E, of _ _ sub] by force
  have "distinct (map fst (hm_iter E sub))" using E sub by (simp add: hm_iter_keys hm_keys_def)
  then have "distinct (map fst (filter (\<lambda>(_, at). at \<le> now) (hm_iter E sub)))"
    by (rule distinct_map_filter)
  from distinct_card [OF this] S
  show "length (filter (\<lambda>at. at \<le> now) (map snd (hm_iter E sub))) =
      card {f. \<exists>at. map_of sub f = Some at \<and> at \<le> now}"
    by (simp add: filter_map o_def case_prod_beta')
qed

lemma remove_expired_law:
  assumes E: "env_ok E" and b: "bucket_inv E b"
  shows "\<exists>b'. remove_expired_hash_fields E b k now = Some b' \<and> bucket_inv E b' \<and>
    bucket_abs E b' = a_purge k now (bucket_abs E b) \<and> hashes b' = hashes b"
proof (cases "map_of (hash_field_expire_at_ms b) k")
  case None
  then have "a_dead (bucket_abs E b) k now = {}" by (simp add: a_dead_def fttl_def)
  with None b show ?thesis by (simp add: remove_expired_hash_fields_def a_purge_id)
next
  case (Some sub)
  note t = bucket_invD(5) [OF b] and sub = ttl_sub [OF bucket_invD(5) [OF b] Some]
  let ?ex = "map fst (filter (\<lambda>(_, at). at \<le> now) (hm_iter E sub))"
  have dead: "set ?ex = a_dead (bucket_abs E b) k now"
    unfolding a_dead_def a_fttl_abs sub [THEN conjunct2, THEN conjunct2]
    by (rule expired_fields(1) [OF E]) (use sub in blast)
  show ?thesis
  proof (cases "?ex = []")
    case True
    with dead have "a_dead (bucket_abs E b) k now = {}" by simp
    with True Some b show ?thesis by (simp add: remove_expired_hash_fields_def a_purge_id)
  next
    case False
    have "fttl (hash_field_expire_at_ms b) k \<noteq> Map.empty" using sub by (metis map_of_eq_empty_iff)
    then obtain i where i: "sm_map E (hashes b) k = Some i"
      using key_inv_nonhash [OF b, of k] sm_tab(1) [OF E b, of k] by fastforce
    obtain x where x: "slab_get (hash_slab b) i = Some x" "a_obj (bucket_abs E b) k = Some (OHash (hash_get x))"
      "hash_ok x" "dom (fttl (hash_field_expire_at_ms b) k) \<subseteq> dom (hash_get x)"
      using hash_slot [OF E b i] by metis
    from ho.remove_each_law [OF x(3), of ?ex] obtain h gone where
      h: "remove_each hash_remove_is_some x ?ex = (gone, h)" "hash_ok h"
      "hash_get h = hash_get x |` (- set ?ex)" by blast
    from clear_ttls [of "put_hash b i h" k ?ex] t obtain fe where
      fe: "clear_hash_field_ttls (put_hash b i h) k ?ex = (put_hash b i h)\<lparr>hash_field_expire_at_ms := fe\<rparr>"
      "ttl_maps_ok (expire_at_ms b) fe"
      "fttl fe = (fttl (hash_field_expire_at_ms b))(k := (fttl (hash_field_expire_at_ms b) k) |` (- set ?ex))"
      by (auto simp: put_hash_def)
    have "dom ((fttl (hash_field_expire_at_ms b) k) |` (- set ?ex)) \<subseteq> dom (hash_get h)"
      using x(4) h(3) by auto
    from hash_put [OF E b i h(2) fe(2,3) this] fe(1) h x Some False i E slotmaps_ok(1) [OF b] show ?thesis
      by (simp add: remove_expired_hash_fields_def Let_def a_purge_def dead del: map_map set_map)
        (simp add: put_hash_def)
  qed
qed

lemma hash_tab_obj:
  assumes "bucket_inv E b"
  shows "hash_tab E b k = None \<longleftrightarrow> (\<forall>m. a_obj (bucket_abs E b) k \<noteq> Some (OHash m))"
  by (rule a_obj_cases [OF assms, of k]) auto

lemma remove_if_empty_law:
  fixes k :: bytes
  assumes E: "env_ok E" and b: "bucket_inv E b"
  defines "hit \<equiv> a_obj (bucket_abs E b) k = Some (OHash Map.empty)"
  shows "\<exists>b'. remove_hash_if_empty E b k = Some (hit, b') \<and> bucket_inv E b' \<and>
    bucket_abs E b' = (if hit then a_del k (bucket_abs E b) else bucket_abs E b) \<and>
    (\<not> hit \<longrightarrow> b' = b)"
proof (cases "sm_map E (hashes b) k")
  case None
  then have "hash_tab E b k = None" using sm_tab(1) [OF E b] by blast
  then have "\<not> hit" using hash_tab_obj [OF b, of k] by (simp add: hit_def)
  with None b E slotmaps_ok(1) [OF b] show ?thesis by (simp add: remove_hash_if_empty_def)
next
  case (Some i)
  obtain x where x: "slab_get (hash_slab b) i = Some x" "a_obj (bucket_abs E b) k = Some (OHash (hash_get x))"
    using hash_slot [OF E b Some] by metis
  then have "hash_is_empty x \<longleftrightarrow> hit" by (simp add: hash_is_empty_iff hit_def)
  with x Some b E slotmaps_ok(1) [OF b] hash_delete [OF E b Some] show ?thesis
    by (simp add: remove_hash_if_empty_def)
qed

text \<open>Purging a key and dropping it when nothing is left, as every routed access does first.\<close>

definition a_reap :: "bytes \<Rightarrow> u64 \<Rightarrow> astate \<Rightarrow> bool \<times> astate" where
  "a_reap k now A =
     (let A1 = a_purge k now A
      in if a_obj A1 k = Some (OHash Map.empty) then (True, a_del k A1) else (False, A1))"

lemma remove_expired_if_empty_law:
  assumes E: "env_ok E" and b: "bucket_inv E b"
  shows "\<exists>b'. remove_expired_hash_if_empty E b k now = Some (fst (a_reap k now (bucket_abs E b)), b') \<and>
    bucket_inv E b' \<and> bucket_abs E b' = snd (a_reap k now (bucket_abs E b))"
proof -
  obtain b1 where b1: "remove_expired_hash_fields E b k now = Some b1" "bucket_inv E b1"
    "bucket_abs E b1 = a_purge k now (bucket_abs E b)"
    using remove_expired_law [OF E b] by blast
  from remove_if_empty_law [OF E b1(2), of k] b1 show ?thesis
    by (auto simp: remove_expired_hash_if_empty_def a_reap_def Let_def)
qed

lemma for_write_law:
  assumes E: "env_ok E" and b: "bucket_inv E b"
  shows "\<exists>b'. remove_expired_hash_fields_for_write E b k now = Some b' \<and> bucket_inv E b' \<and>
    bucket_abs E b' = a_purge k now (bucket_abs E b)"
proof (cases "map_of (hash_field_expire_at_ms b) k = None")
  case True
  then have "a_dead (bucket_abs E b) k now = {}" by (simp add: a_dead_def fttl_def)
  with True b show ?thesis by (simp add: remove_expired_hash_fields_for_write_def a_purge_id)
next
  case False
  with remove_expired_law [OF E b] show ?thesis
    by (fastforce simp: remove_expired_hash_fields_for_write_def)
qed

lemma has_live_law:
  assumes E: "env_ok E" and b: "bucket_inv E b"
  shows "hash_has_live_fields E b k now = Some (a_live (bucket_abs E b) k now \<noteq> Map.empty)"
proof (cases "sm_map E (hashes b) k")
  case None
  then have "hash_tab E b k = None" using sm_tab(1) [OF E b] by blast
  then have "a_live (bucket_abs E b) k now = Map.empty"
    using hash_tab_obj [OF b, of k] by (auto simp: a_live_def split: option.split robj.split)
  with None E slotmaps_ok(1) [OF b] show ?thesis by (simp add: hash_has_live_fields_def)
next
  case (Some i)
  obtain x where x: "slab_get (hash_slab b) i = Some x" "a_obj (bucket_abs E b) k = Some (OHash (hash_get x))"
    "hash_ok x" using hash_slot [OF E b Some] by metis
  let ?D = "a_dead (bucket_abs E b) k now"
  have live: "a_live (bucket_abs E b) k now = hash_get x |` (- ?D)" using x by (simp add: a_live_def)
  have nodead: "?D = {}" if "map_of (hash_field_expire_at_ms b) k = None"
    using that by (simp add: a_dead_def fttl_def)
  have any: "list_ex (\<lambda>f. \<not> hash_field_is_expired b k f now) (hash_fields E x) \<longleftrightarrow>
      hash_get x |` (- ?D) \<noteq> Map.empty"
  proof -
    have "hash_get x |` (- ?D) \<noteq> Map.empty \<longleftrightarrow> dom (hash_get x |` (- ?D)) \<noteq> {}"
      by (simp only: dom_eq_empty_conv)
    also have "\<dots> \<longleftrightarrow> (\<exists>f\<in>dom (hash_get x). f \<notin> ?D)" by auto
    finally show ?thesis
      by (simp add: list_ex_iff hash_fields_sorted [OF E x(3)] is_expired_dead [of b k _ now E])
  qed
  have sg: "sm_get E (hashes b) k = Some i" using Some E slotmaps_ok(1) [OF b] by simp
  show ?thesis
    unfolding hash_has_live_fields_def sg live
    using x(1) nodead any by (auto simp: hash_is_empty_iff)
qed

lemma needs_cleanup_law:
  assumes E: "env_ok E" and b: "bucket_inv E b"
  shows "hash_needs_empty_expiry_cleanup E b k now =
    Some ((\<exists>m. a_obj (bucket_abs E b) k = Some (OHash m)) \<and> a_live (bucket_abs E b) k now = Map.empty)"
  using E slotmaps_ok(1) [OF b] sm_tab(1) [OF E b, of k] hash_tab_obj [OF b, of k]
  by (auto simp: hash_needs_empty_expiry_cleanup_def has_live_law [OF E b])

lemma lazily_expired_law:
  "hash_field_lazily_expired b k f now \<longleftrightarrow> f \<in> a_dead (bucket_abs E b) k now"
  by (auto simp: hash_field_lazily_expired_def is_expired_dead [of b k f now E] a_dead_def fttl_def)

text \<open>The filter that the multi-field reads apply with the clock of \<open>hash_field_now_ms_for\<close>.\<close>

lemma now_ms_for_law:
  assumes "bucket_inv E b"
  shows "(case hash_field_now_ms_for b k clock of Some now \<Rightarrow> \<not> hash_field_is_expired b k f now | None \<Rightarrow> True)
     \<longleftrightarrow> f \<notin> a_dead (bucket_abs E b) k clock"
proof (cases "map_of (hash_field_expire_at_ms b) k")
  case None
  then show ?thesis by (simp add: hash_field_now_ms_for_def a_dead_def fttl_def)
next
  case (Some sub)
  then have "hash_field_expire_at_ms b \<noteq> []" by auto
  with Some ttl_sub [OF bucket_invD(5) [OF assms] Some] show ?thesis
    by (simp add: hash_field_now_ms_for_def is_expired_dead [of b k f clock E])
qed

lemma expired_count_law:
  assumes E: "env_ok E" and b: "bucket_inv E b"
  shows "hash_expired_field_count E b k clock = card (a_dead (bucket_abs E b) k clock)"
proof (cases "map_of (hash_field_expire_at_ms b) k")
  case None
  then show ?thesis by (simp add: hash_expired_field_count_def a_dead_def fttl_def)
next
  case (Some sub)
  then have ne: "hash_field_expire_at_ms b \<noteq> []" by auto
  note sub = ttl_sub [OF bucket_invD(5) [OF b] Some]
  from expired_fields(2) [OF E, of sub clock] ne Some sub show ?thesis
    by (simp add: hash_expired_field_count_def a_dead_def del: map_of_eq_Some_iff)
qed

end
