(* ===== verification/Refine.thy ===== *)
theory Refine
  imports BucketInv
begin

text \<open>
  The contract between the bucket commands and the code that routes them
  (\<^verbatim>\<open>embedded_store/objects/access.rs\<close>): a write command never panics on a well-formed bucket,
  keeps it well formed, implements an abstract command on the abstract state, touches
  nothing but its key, and returns the flag that tells whether the object at the key appeared
  or disappeared. The router keeps its object counter with that flag.
\<close>

type_synonym ('h, 't) write_op = "('h, 't) bucket \<Rightarrow> (redis_object_result \<times> bool \<times> ('h, 't) bucket) option"
type_synonym 'r read_op_spec = "astate \<Rightarrow> 'r"
type_synonym write_spec = "astate \<Rightarrow> redis_object_result \<times> bool \<times> astate"

definition refines :: "('h, 't) env \<Rightarrow> ('h, 't) write_op \<Rightarrow> write_spec \<Rightarrow> bool" where
  "refines E op spec \<longleftrightarrow>
     (\<forall>b. bucket_inv E b \<longrightarrow>
        (\<exists>r fl b'. op b = Some (r, fl, b') \<and> bucket_inv E b' \<and>
           spec (bucket_abs E b) = (r, fl, bucket_abs E b')))"

definition reads :: "('h, 't) env \<Rightarrow> (('h, 't) bucket \<Rightarrow> 'r option) \<Rightarrow> 'r read_op_spec \<Rightarrow> bool" where
  "reads E op spec \<longleftrightarrow> (\<forall>b. bucket_inv E b \<longrightarrow> op b = Some (spec (bucket_abs E b)))"

text \<open>Nothing changes but the key.\<close>

definition same_but :: "bytes \<Rightarrow> astate \<Rightarrow> astate \<Rightarrow> bool" where
  "same_but key A A' \<longleftrightarrow>
     (\<forall>k. k \<noteq> key \<longrightarrow> a_obj A' k = a_obj A k \<and> a_ttl A' k = a_ttl A k \<and> a_fttl A' k = a_fttl A k)"

text \<open>The flag of an abstract command is set exactly when the object at the key toggles.\<close>

definition flag_exact :: "bytes \<Rightarrow> write_spec \<Rightarrow> bool" where
  "flag_exact key spec \<longleftrightarrow>
     (\<forall>A r fl A'. spec A = (r, fl, A') \<longrightarrow>
        (fl \<longleftrightarrow> (a_obj A key = None) \<noteq> (a_obj A' key = None)) \<and> same_but key A A')"

lemma ex_not_bool [simp]: "\<exists>b. \<not> b"
  by blast

lemma flag_exactD:
  assumes "flag_exact key spec" "spec A = (r, fl, A')"
  shows "fl \<longleftrightarrow> (a_obj A key = None) \<noteq> (a_obj A' key = None)" "same_but key A A'"
  using assms by (auto simp: flag_exact_def)

lemma refinesI:
  assumes "\<And>b. bucket_inv E b \<Longrightarrow>
    \<exists>r fl b'. op b = Some (r, fl, b') \<and> bucket_inv E b' \<and> spec (bucket_abs E b) = (r, fl, bucket_abs E b')"
  shows "refines E op spec"
  using assms by (simp add: refines_def)

lemma refinesD:
  assumes "refines E op spec" "bucket_inv E b"
  obtains r fl b' where "op b = Some (r, fl, b')" "bucket_inv E b'"
    "spec (bucket_abs E b) = (r, fl, bucket_abs E b')"
  using assms unfolding refines_def by blast

lemma readsI: "(\<And>b. bucket_inv E b \<Longrightarrow> op b = Some (spec (bucket_abs E b))) \<Longrightarrow> reads E op spec"
  by (simp add: reads_def)

lemma readsD: "reads E op spec \<Longrightarrow> bucket_inv E b \<Longrightarrow> op b = Some (spec (bucket_abs E b))"
  by (simp add: reads_def)

named_theorems same_but_intros

lemma same_but_refl [same_but_intros]: "same_but key A A"
  by (simp add: same_but_def)

lemma same_but_put [same_but_intros]: "same_but key A A' \<Longrightarrow> same_but key A (a_put key v A')"
  by (simp add: same_but_def a_put_def)

lemma same_but_del [same_but_intros]: "same_but key A A' \<Longrightarrow> same_but key A (a_del key A')"
  by (simp add: same_but_def a_del_def)

lemma same_but_at [same_but_intros]: "same_but key A A' \<Longrightarrow> same_but key A (a_at key v ttl ft A')"
  by (simp add: same_but_def a_at_def)

lemma same_but_hash [same_but_intros]: "same_but key A A' \<Longrightarrow> same_but key A (a_hash key m ft A')"
  by (simp add: a_hash_def same_but_at)

lemma same_but_purge [same_but_intros]: "same_but key A A' \<Longrightarrow> same_but key A (a_purge key now A')"
  by (auto simp: a_purge_def intro: same_but_intros split: option.split robj.split)

lemma a_obj_put [simp]: "a_obj (a_put k v A) = (a_obj A)(k \<mapsto> v)"
  by (simp add: a_put_def)

lemma a_obj_del [simp]: "a_obj (a_del k A) = (a_obj A)(k := None)"
  by (simp add: a_del_def)

lemma a_obj_hash [simp]: "a_obj (a_hash k m ft A) = (a_obj A)(k \<mapsto> OHash m)"
  by (simp add: a_hash_def a_at_def)

lemma a_fttl_hash [simp]: "a_fttl (a_hash k m ft A) = (a_fttl A)(k := ft)"
  by (simp add: a_hash_def a_at_def)

lemma a_ttl_hash [simp]: "a_ttl (a_hash k m ft A) = a_ttl A"
  by (simp add: a_hash_def a_at_def fun_upd_idem)

lemma a_fttl_put [simp]: "a_fttl (a_put k v A) = a_fttl A"
  by (simp add: a_put_def)

lemma a_obj_purge_None [simp]: "a_obj (a_purge k now A) k = None \<longleftrightarrow> a_obj A k = None"
  by (auto simp: a_purge_def split: option.split robj.split)

section \<open>The interface\<close>

text \<open>What the router relies on: a total operation with an exact flag.\<close>

locale bucket_op =
  fixes E :: "('h, 't) env" and key :: bytes and op :: "('h, 't) write_op"
  assumes total: "env_ok E \<Longrightarrow> bucket_inv E b \<Longrightarrow>
    \<exists>r fl b'. op b = Some (r, fl, b') \<and> bucket_inv E b' \<and>
      fl = ((a_obj (bucket_abs E b) key = None) \<noteq> (a_obj (bucket_abs E b') key = None)) \<and>
      same_but key (bucket_abs E b) (bucket_abs E b')"

text \<open>The commands whose effect is a function of the abstract state.\<close>

locale bucket_write =
  fixes E :: "('h, 't) env" and key :: bytes and op :: "('h, 't) write_op" and spec :: write_spec
  assumes refine: "env_ok E \<Longrightarrow> refines E op spec"
    and flag: "flag_exact key spec"
begin

lemma write_ok:
  assumes "env_ok E" "bucket_inv E b"
  obtains r fl b' where "op b = Some (r, fl, b')" "bucket_inv E b'"
    "spec (bucket_abs E b) = (r, fl, bucket_abs E b')"
    "fl \<longleftrightarrow> (a_obj (bucket_abs E b) key = None) \<noteq> (a_obj (bucket_abs E b') key = None)"
    "same_but key (bucket_abs E b) (bucket_abs E b')"
proof -
  obtain r fl b' where w: "op b = Some (r, fl, b')" "bucket_inv E b'"
    "spec (bucket_abs E b) = (r, fl, bucket_abs E b')"
    using refine [OF assms(1)] assms(2) by (rule refinesD)
  show thesis by (rule that [OF w]) (rule flag_exactD [OF flag w(3)])+
qed

end

sublocale bucket_write \<subseteq> op: bucket_op E key op
proof
  fix b assume "env_ok E" "bucket_inv E b"
  then show "\<exists>r fl b'. op b = Some (r, fl, b') \<and> bucket_inv E b' \<and>
      fl = ((a_obj (bucket_abs E b) key = None) \<noteq> (a_obj (bucket_abs E b') key = None)) \<and>
      same_but key (bucket_abs E b) (bucket_abs E b')"
    by (rule write_ok) blast
qed

section \<open>Commands that create their object\<close>

text \<open>
  A creating command comes as two functions: an attempt on the existing object, and the
  creation that the router calls when the attempt found none and no string has the key.
\<close>

type_synonym ('h, 't) attempt_op = "('h, 't) bucket \<Rightarrow> (write_attempt \<times> ('h, 't) bucket) option"
type_synonym ('h, 't) create_op = "('h, 't) bucket \<Rightarrow> (redis_object_result \<times> ('h, 't) bucket) option"

definition attempt_then_create :: "('h, 't) attempt_op \<Rightarrow> ('h, 't) create_op \<Rightarrow> ('h, 't) write_op" where
  "attempt_then_create attempt create b =
     Option.bind (attempt b) (\<lambda>(a, b').
       case a of
         Complete r \<Rightarrow> Some (r, False, b')
       | MissingObject \<Rightarrow> map_option (\<lambda>(r, b''). (r, True, b'')) (create b'))"

locale bucket_create =
  fixes E :: "('h, 't) env" and key :: bytes
    and attempt :: "('h, 't) attempt_op" and create :: "('h, 't) create_op" and spec :: write_spec
  assumes refine: "env_ok E \<Longrightarrow> refines E (attempt_then_create attempt create) spec"
    and flag: "flag_exact key spec"
    and missing: "env_ok E \<Longrightarrow> bucket_inv E b \<Longrightarrow> attempt b = Some (MissingObject, b') \<Longrightarrow>
      b' = b \<and> a_obj (bucket_abs E b) key = None"

sublocale bucket_create \<subseteq> both: bucket_write E key "attempt_then_create attempt create" spec
  by unfold_locales (fact refine flag)+

text \<open>How a pair of an attempt and a creation is shown to implement a specification.\<close>

lemma refines_create:
  assumes "\<And>b. bucket_inv E b \<Longrightarrow>
      (\<exists>r b'. attempt b = Some (Complete r, b') \<and> bucket_inv E b' \<and> spec (bucket_abs E b) = (r, False, bucket_abs E b')) \<or>
      (attempt b = Some (MissingObject, b) \<and> a_obj (bucket_abs E b) key = None \<and>
        (\<exists>r b'. create b = Some (r, b') \<and> bucket_inv E b' \<and> spec (bucket_abs E b) = (r, True, bucket_abs E b')))"
  shows "refines E (attempt_then_create attempt create) spec"
    "bucket_inv E b \<Longrightarrow> attempt b = Some (MissingObject, b') \<Longrightarrow> b' = b \<and> a_obj (bucket_abs E b) key = None"
proof -
  show "refines E (attempt_then_create attempt create) spec"
  proof (rule refinesI)
    fix b assume "bucket_inv E b"
    from assms [OF this] show "\<exists>r fl b'. attempt_then_create attempt create b = Some (r, fl, b') \<and>
        bucket_inv E b' \<and> spec (bucket_abs E b) = (r, fl, bucket_abs E b')"
      by (auto simp: attempt_then_create_def)
  qed
  show "b' = b \<and> a_obj (bucket_abs E b) key = None" if "bucket_inv E b" "attempt b = Some (MissingObject, b')"
    using assms [OF that(1)] that(2) by auto
qed

end
