(* ===== verification/Kinds.thy ===== *)
theory Kinds
  imports Refine
begin

text \<open>
  What the commands on hashes, lists, sets and sorted sets share. Each kind of object has its
  own slot map and slab; a command looks its key up there and, when the key is not there,
  asks whether another kind holds it. The locale \<open>object_kind\<close> states this lookup as a law and
  proves once how a command over it refines a specification; it is interpreted for the four
  kinds.
\<close>

section \<open>Abstract commands on one kind\<close>

fun as_hash :: "robj \<Rightarrow> (bytes \<rightharpoonup> bytes) option" where
  "as_hash (OHash m) = Some m"
| "as_hash _ = None"

fun as_list :: "robj \<Rightarrow> bytes list option" where
  "as_list (OList xs) = Some xs"
| "as_list _ = None"

fun as_set :: "robj \<Rightarrow> bytes set option" where
  "as_set (OSet S) = Some S"
| "as_set _ = None"

fun as_zset :: "robj \<Rightarrow> (bytes \<rightharpoonup> f64) option" where
  "as_zset (OZSet v) = Some v"
| "as_zset _ = None"

lemma as_kind_Some [simp]:
  "as_hash ob = Some m \<longleftrightarrow> ob = OHash m" "as_list ob = Some xs \<longleftrightarrow> ob = OList xs"
  "as_set ob = Some S \<longleftrightarrow> ob = OSet S" "as_zset ob = Some v \<longleftrightarrow> ob = OZSet v"
  by (cases ob; auto)+

text \<open>A default when the key has no object, an error when it has one of another kind.\<close>

definition read_obj :: "(robj \<Rightarrow> 'v option) \<Rightarrow> bytes \<Rightarrow> 'r \<Rightarrow> 'r \<Rightarrow> ('v \<Rightarrow> 'r) \<Rightarrow> astate \<Rightarrow> 'r" where
  "read_obj proj k dflt wrong f A =
     (case a_obj A k of
        None \<Rightarrow> dflt
      | Some ob \<Rightarrow> (case proj ob of Some v \<Rightarrow> f v | None \<Rightarrow> wrong))"

definition on_obj ::
  "(robj \<Rightarrow> 'v option) \<Rightarrow> bytes \<Rightarrow> redis_object_result \<Rightarrow> ('v \<Rightarrow> redis_object_result \<times> bool \<times> astate) \<Rightarrow> write_spec" where
  "on_obj proj k dflt f A = read_obj proj k (dflt, False, A) (WrongType, False, A) f A"

text \<open>The object left by a removing command: an emptied one goes away.\<close>

definition obj_left :: "bytes \<Rightarrow> bool \<Rightarrow> robj \<Rightarrow> astate \<Rightarrow> astate" where
  "obj_left k emptied v A = (if emptied then a_del k A else a_put k v A)"

lemma obj_left_obj [simp]: "a_obj (obj_left k emptied v A) k = None \<longleftrightarrow> emptied"
  by (simp add: obj_left_def)

lemma same_but_left [same_but_intros]: "same_but k A A' \<Longrightarrow> same_but k A (obj_left k emptied v A')"
  by (simp add: obj_left_def same_but_intros)

lemma on_obj_flag:
  assumes "\<And>A ob v. a_obj A k = Some ob \<Longrightarrow> proj ob = Some v \<Longrightarrow>
      fst (snd (f A v)) = (a_obj (snd (snd (f A v))) k = None) \<and> same_but k A (snd (snd (f A v)))"
  shows "flag_exact k (\<lambda>A. on_obj proj k dflt (f A) A)"
  unfolding flag_exact_def
proof (intro allI impI)
  fix A r fl A' assume w: "on_obj proj k dflt (f A) A = (r, fl, A')"
  show "(fl \<longleftrightarrow> (a_obj A k = None) \<noteq> (a_obj A' k = None)) \<and> same_but k A A'"
  proof (cases "\<exists>ob v. a_obj A k = Some ob \<and> proj ob = Some v")
    case True
    then obtain ob v where "a_obj A k = Some ob" "proj ob = Some v" by blast
    with w assms [OF this] show ?thesis by (auto simp: on_obj_def read_obj_def)
  next
    case False
    with w show ?thesis by (auto simp: on_obj_def read_obj_def same_but_refl split: option.splits)
  qed
qed

section \<open>The lookup of one kind\<close>

locale object_kind =
  fixes E :: "('h, 't) env"
    and slot_of :: "('h, 't) bucket \<Rightarrow> bytes \<Rightarrow> slot_id option"
    and slot_map :: "('h, 't) bucket \<Rightarrow> bytes \<rightharpoonup> slot_id"
    and obj_at :: "('h, 't) bucket \<Rightarrow> slot_id \<Rightarrow> 'o option"
    and has_non :: "('h, 't) bucket \<Rightarrow> bytes \<Rightarrow> bool"
    and good :: "'o \<Rightarrow> 'v \<Rightarrow> bool"
    and proj :: "robj \<Rightarrow> 'v option"
  assumes slot_of: "env_ok E \<Longrightarrow> bucket_inv E b \<Longrightarrow> slot_of b k = slot_map b k"
    and present: "env_ok E \<Longrightarrow> bucket_inv E b \<Longrightarrow> slot_map b k = Some slot \<Longrightarrow>
      \<exists>ob v r. obj_at b slot = Some ob \<and> good ob v \<and> a_obj (bucket_abs E b) k = Some r \<and> proj r = Some v \<and>
        \<not> has_non b k"
    and absent: "env_ok E \<Longrightarrow> bucket_inv E b \<Longrightarrow> slot_map b k = None \<Longrightarrow>
      has_non b k = (a_obj (bucket_abs E b) k \<noteq> None) \<and>
      (\<forall>r. a_obj (bucket_abs E b) k = Some r \<longrightarrow> proj r = None)"
begin

lemma lookup:
  assumes E: "env_ok E" and b: "bucket_inv E b"
  obtains (hit) slot ob v r where "slot_map b k = Some slot" "slot_of b k = Some slot" "obj_at b slot = Some ob"
      "good ob v" "a_obj (bucket_abs E b) k = Some r" "proj r = Some v" "\<not> has_non b k"
  | (wrong) r where "slot_map b k = None" "slot_of b k = None" "has_non b k" "a_obj (bucket_abs E b) k = Some r" "proj r = None"
  | (miss) "slot_map b k = None" "slot_of b k = None" "\<not> has_non b k" "a_obj (bucket_abs E b) k = None"
proof (cases "slot_map b k")
  case (Some slot)
  with present [OF E b Some] slot_of [OF E b, of k] show thesis by (metis hit)
next
  case None
  with absent [OF E b None] slot_of [OF E b, of k] wrong miss show thesis by auto
qed

lemma reads_on:
  assumes E: "env_ok E" and hit: "\<And>ob v. good ob v \<Longrightarrow> g ob = Some (f v)"
  shows "reads E (\<lambda>b. case slot_of b k of
       None \<Rightarrow> if has_non b k then Some wrong else Some dflt
     | Some slot \<Rightarrow> Option.bind (obj_at b slot) g) (read_obj proj k dflt wrong f)"
proof (rule readsI)
  fix b assume b: "bucket_inv E b"
  show "(case slot_of b k of None \<Rightarrow> if has_non b k then Some wrong else Some dflt
     | Some slot \<Rightarrow> Option.bind (obj_at b slot) g) = Some (read_obj proj k dflt wrong f (bucket_abs E b))"
    using E b by (cases rule: lookup [where k = k]) (auto simp: read_obj_def hit)
qed

lemma refines_on:
  assumes E: "env_ok E"
    and hit: "\<And>b slot ob v. bucket_inv E b \<Longrightarrow> slot_map b k = Some slot \<Longrightarrow> obj_at b slot = Some ob \<Longrightarrow> good ob v \<Longrightarrow>
      \<exists>r fl b'. g b slot ob = Some (r, fl, b') \<and> bucket_inv E b' \<and> f (bucket_abs E b) v = (r, fl, bucket_abs E b')"
  shows "refines E (\<lambda>b. case slot_of b k of
       None \<Rightarrow> if has_non b k then Some (WrongType, False, b) else Some (dflt, False, b)
     | Some slot \<Rightarrow> Option.bind (obj_at b slot) (g b slot)) (\<lambda>A. on_obj proj k dflt (f A) A)"
proof (rule refinesI)
  fix b assume b: "bucket_inv E b"
  show "\<exists>r fl b'. (case slot_of b k of
       None \<Rightarrow> if has_non b k then Some (WrongType, False, b) else Some (dflt, False, b)
     | Some slot \<Rightarrow> Option.bind (obj_at b slot) (g b slot)) = Some (r, fl, b') \<and> bucket_inv E b' \<and>
      on_obj proj k dflt (f (bucket_abs E b)) (bucket_abs E b) = (r, fl, bucket_abs E b')"
    using E b
  proof (cases rule: lookup [where k = k])
    case (hit slot ob v)
    with assms(2) [OF b hit(1,3,4)] show ?thesis by (auto simp: on_obj_def read_obj_def)
  qed (use b in \<open>auto simp: on_obj_def read_obj_def\<close>)
qed

end

section \<open>The four kinds\<close>

interpretation list_kind: object_kind E "\<lambda>b. sm_get E (lists b)" "\<lambda>b. sm_map E (lists b)"
  "\<lambda>b. slab_get (list_slab b)" "has_non_list E" "\<lambda>l xs. list_rep l xs \<and> xs \<noteq> []" as_list for E
proof (unfold_locales, goal_cases)
  case (1 b k)
  then show ?case by (simp add: slotmaps_ok)
next
  case (2 b k slot)
  then obtain "hash_tab E b k = None" "set_tab E b k = None" "zset_tab E b k = None"
    by (rule list_slot)
  then have "\<not> has_non_list E b k" using type_tests [OF 2(1,2), of k] by simp
  with list_slot [OF 2] show ?case by (metis as_kind_Some(2))
next
  case (3 b k)
  then have "list_tab E b k = None" using sm_tab(2) [OF 3(1,2)] by blast
  then show ?case
    using type_tests [OF 3(1,2), of k] by (cases rule: a_obj_cases [OF 3(2), of k]) auto
qed

interpretation set_kind: object_kind E "\<lambda>b. sm_get E (sets b)" "\<lambda>b. sm_map E (sets b)"
  "\<lambda>b. slab_get (set_slab b)" "has_non_set E" "\<lambda>s S. set_ok s \<and> dom (set_view s) = S \<and> S \<noteq> {}" as_set for E
proof (unfold_locales, goal_cases)
  case (1 b k)
  then show ?case by (simp add: slotmaps_ok)
next
  case (2 b k slot)
  then obtain "hash_tab E b k = None" "list_tab E b k = None" "zset_tab E b k = None"
    by (rule set_slot)
  then have "\<not> has_non_set E b k" using type_tests [OF 2(1,2), of k] by simp
  with set_slot [OF 2] show ?case by (metis as_kind_Some(3) dom_eq_empty_conv)
next
  case (3 b k)
  then have "set_tab E b k = None" using sm_tab(3) [OF 3(1,2)] by blast
  then show ?case
    using type_tests [OF 3(1,2), of k] by (cases rule: a_obj_cases [OF 3(2), of k]) auto
qed

interpretation zset_kind: object_kind E "\<lambda>b. sm_get E (zsets b)" "\<lambda>b. sm_map E (zsets b)"
  "\<lambda>b. slab_get (zset_slab b)" "has_non_zset E"
  "\<lambda>z v. zset_ok E z \<and> zset_score z = v \<and> v \<noteq> Map.empty" as_zset for E
proof (unfold_locales, goal_cases)
  case (1 b k)
  then show ?case by (simp add: slotmaps_ok)
next
  case (2 b k slot)
  then obtain "hash_tab E b k = None" "list_tab E b k = None" "set_tab E b k = None"
    by (rule zset_slot)
  then have "\<not> has_non_zset E b k" using type_tests [OF 2(1,2), of k] by simp
  with zset_slot [OF 2] show ?case by (metis as_kind_Some(4))
next
  case (3 b k)
  then have "zset_tab E b k = None" using sm_tab(4) [OF 3(1,2)] by blast
  then show ?case
    using type_tests [OF 3(1,2), of k] by (cases rule: a_obj_cases [OF 3(2), of k]) auto
qed

interpretation hash_kind: object_kind E "\<lambda>b. sm_get E (hashes b)" "\<lambda>b. sm_map E (hashes b)"
  "\<lambda>b. slab_get (hash_slab b)" "has_non_hash E" "\<lambda>h m. hash_ok h \<and> hash_get h = m" as_hash for E
proof (unfold_locales, goal_cases)
  case (1 b k)
  then show ?case by (simp add: slotmaps_ok)
next
  case (2 b k slot)
  then obtain "list_tab E b k = None" "set_tab E b k = None" "zset_tab E b k = None"
    by (rule hash_slot)
  then have "\<not> has_non_hash E b k" using type_tests [OF 2(1,2), of k] by simp
  with hash_slot [OF 2] show ?case by (metis as_kind_Some(1))
next
  case (3 b k)
  then have "hash_tab E b k = None" using sm_tab(1) [OF 3(1,2)] by blast
  then show ?case
    using type_tests [OF 3(1,2), of k] by (cases rule: a_obj_cases [OF 3(2), of k]) auto
qed

end
