(* ===== verification/BucketHash.thy ===== *)
theory BucketHash
  imports Kinds
begin

text \<open>
  The hash commands of a bucket (\<^verbatim>\<open>bucket_hash.rs\<close>). Fields may carry their own deadline: a
  read skips the fields whose deadline has passed, a write first removes them. The readings of
  the clock are arguments (\<open>clock\<close>). The abstract commands see only the live fields; the code
  is shown to implement them.
\<close>

section \<open>Writes\<close>

text \<open>The guard around \<^verbatim>\<open>clear_hash_field_ttl\<close> in the commands that overwrite a field.\<close>

definition clear_overwritten :: "('h, 't) bucket \<Rightarrow> bytes \<Rightarrow> bytes list \<Rightarrow> ('h, 't) bucket" where
  "clear_overwritten b key fs =
     (if hash_field_expire_at_ms b \<noteq> [] then clear_hash_field_ttls b key fs else b)"

definition hset_stored ::
  "('h, 't) env \<Rightarrow> bytes \<Rightarrow> bytes \<Rightarrow> bytes \<Rightarrow> ('h, 't) bucket \<Rightarrow> (redis_object_result \<times> bool \<times> ('h, 't) bucket) option" where
  "hset_stored E key field value b =
     (case sm_get E (hashes b) key of
        Some slot \<Rightarrow> do {
          h \<leftarrow> slab_get (hash_slab b) slot;
          let (inserted, h') = hash_insert_slice h field value
          in Some (Integer (bool_int inserted), False, clear_overwritten (put_hash b slot h') key [field])
        }
      | None \<Rightarrow>
          if has_non_hash E b key then Some (WrongType, False, b)
          else do {
            b' \<leftarrow> new_hash E b (hash_key E key) key (hash_single field value);
            Some (Integer 1, True, b')
          })"

definition hset ::
  "('h, 't) env \<Rightarrow> bytes \<Rightarrow> bytes \<Rightarrow> bytes \<Rightarrow> u64 \<Rightarrow> ('h, 't) bucket \<Rightarrow> (redis_object_result \<times> bool \<times> ('h, 't) bucket) option" where
  "hset E key field value clock b = do {
     b1 \<leftarrow> remove_expired_hash_fields_for_write E b key clock;
     hset_stored E key field value b1
   }"

definition hset_existing_or_wrongtype_hashed ::
  "('h, 't) env \<Rightarrow> u64 \<Rightarrow> bytes \<Rightarrow> bytes \<Rightarrow> bytes \<Rightarrow> u64 \<Rightarrow> ('h, 't) bucket \<Rightarrow> (write_attempt \<times> ('h, 't) bucket) option" where
  "hset_existing_or_wrongtype_hashed E key_hash key field value clock b = do {
     b1 \<leftarrow> remove_expired_hash_fields_for_write E b key clock;
     case sm_get_hashed E (hashes b1) key_hash key of
       Some slot \<Rightarrow> do {
         h \<leftarrow> slab_get (hash_slab b1) slot;
         let (inserted, h') = hash_insert_slice h field value
         in Some (Complete (Integer (bool_int inserted)), clear_overwritten (put_hash b1 slot h') key [field])
       }
     | None \<Rightarrow>
         if has_non_hash E b1 key then Some (Complete WrongType, b1)
         else Some (MissingObject, b1)
   }"

definition hset_new_unchecked_hashed ::
  "('h, 't) env \<Rightarrow> u64 \<Rightarrow> bytes \<Rightarrow> bytes \<Rightarrow> bytes \<Rightarrow> ('h, 't) bucket \<Rightarrow> (redis_object_result \<times> ('h, 't) bucket) option" where
  "hset_new_unchecked_hashed E key_hash key field value b = do {
     b' \<leftarrow> new_hash E b key_hash key (hash_single field value);
     Some (Integer 1, b')
   }"

definition hset_many_stored ::
  "('h, 't) env \<Rightarrow> bytes \<Rightarrow> (bytes \<times> bytes) list \<Rightarrow> ('h, 't) bucket \<Rightarrow> (redis_object_result \<times> bool \<times> ('h, 't) bucket) option" where
  "hset_many_stored E key fvs b =
     (case sm_get E (hashes b) key of
        Some slot \<Rightarrow> do {
          h \<leftarrow> slab_get (hash_slab b) slot;
          (inserted, h') \<leftarrow> insert_each (\<lambda>h f v. Some (hash_insert_slice h f v)) h fvs;
          Some (Integer (int inserted), False, clear_overwritten (put_hash b slot h') key (map fst fvs))
        }
      | None \<Rightarrow>
          if has_non_hash E b key then Some (WrongType, False, b)
          else do {
            (inserted, h) \<leftarrow> insert_each (\<lambda>h f v. Some (hash_insert_slice h f v)) (hash_map_with_capacity (length fvs)) fvs;
            b' \<leftarrow> new_hash E b (hash_key E key) key h;
            Some (Integer (int inserted), True, b')
          })"

definition hset_many ::
  "('h, 't) env \<Rightarrow> bytes \<Rightarrow> (bytes \<times> bytes) list \<Rightarrow> u64 \<Rightarrow> ('h, 't) bucket \<Rightarrow> (redis_object_result \<times> bool \<times> ('h, 't) bucket) option" where
  "hset_many E key fvs clock b =
     (if fvs = [] then Some (Integer 0, False, b)
      else do {
        b1 \<leftarrow> remove_expired_hash_fields_for_write E b key clock;
        hset_many_stored E key fvs b1
      })"

definition hdel_stored ::
  "('h, 't) env \<Rightarrow> bytes \<Rightarrow> bytes \<Rightarrow> ('h, 't) bucket \<Rightarrow> (redis_object_result \<times> bool \<times> ('h, 't) bucket) option" where
  "hdel_stored E key field b = do {
     (gone, b1) \<leftarrow> remove_hash_if_empty E b key;
     if gone then Some (Integer 0, True, b1)
     else case sm_get E (hashes b1) key of
         Some slot \<Rightarrow> do {
           h \<leftarrow> slab_get (hash_slab b1) slot;
           let (removed, h') = hash_remove_is_some h field;
               b2 = put_hash b1 slot h';
               emptied = hash_is_empty h';
               b3 = (if emptied then remove_hash_slot E b2 key slot
                     else if removed then clear_hash_field_ttl b2 key field
                     else b2)
           in Some (Integer (bool_int removed), emptied, b3)
         }
       | None \<Rightarrow> if has_non_hash E b1 key then Some (WrongType, False, b1) else Some (Integer 0, False, b1)
   }"

definition hdel ::
  "('h, 't) env \<Rightarrow> bytes \<Rightarrow> bytes \<Rightarrow> u64 \<Rightarrow> ('h, 't) bucket \<Rightarrow> (redis_object_result \<times> bool \<times> ('h, 't) bucket) option" where
  "hdel E key field clock b = do {
     b1 \<leftarrow> remove_expired_hash_fields_for_write E b key clock;
     hdel_stored E key field b1
   }"

definition hdel_many_stored ::
  "('h, 't) env \<Rightarrow> bytes \<Rightarrow> bytes list \<Rightarrow> ('h, 't) bucket \<Rightarrow> (redis_object_result \<times> bool \<times> ('h, 't) bucket) option" where
  "hdel_many_stored E key fs b = do {
     (gone, b1) \<leftarrow> remove_hash_if_empty E b key;
     if gone then Some (Integer 0, True, b1)
     else case sm_get E (hashes b1) key of
         Some slot \<Rightarrow> do {
           h \<leftarrow> slab_get (hash_slab b1) slot;
           let (removed_fields, h') = remove_each hash_remove_is_some h fs;
               b2 = put_hash b1 slot h';
               emptied = hash_is_empty h';
               b3 = (if emptied then remove_hash_slot E b2 key slot
                     else clear_hash_field_ttls b2 key removed_fields)
           in Some (Integer (int (length removed_fields)), emptied, b3)
         }
       | None \<Rightarrow> if has_non_hash E b1 key then Some (WrongType, False, b1) else Some (Integer 0, False, b1)
   }"

definition hdel_many ::
  "('h, 't) env \<Rightarrow> bytes \<Rightarrow> bytes list \<Rightarrow> u64 \<Rightarrow> ('h, 't) bucket \<Rightarrow> (redis_object_result \<times> bool \<times> ('h, 't) bucket) option" where
  "hdel_many E key fs clock b = do {
     b1 \<leftarrow> remove_expired_hash_fields_for_write E b key clock;
     hdel_many_stored E key fs b1
   }"

definition hsetnx_stored ::
  "('h, 't) env \<Rightarrow> bytes \<Rightarrow> bytes \<Rightarrow> bytes \<Rightarrow> ('h, 't) bucket \<Rightarrow> (redis_object_result \<times> bool \<times> ('h, 't) bucket) option" where
  "hsetnx_stored E key field value b =
     (case sm_get E (hashes b) key of
        Some slot \<Rightarrow> do {
          h \<leftarrow> slab_get (hash_slab b) slot;
          if hash_contains_key h field then Some (Integer 0, False, b)
          else Some (Integer 1, False, put_hash b slot (snd (hash_insert_slice h field value)))
        }
      | None \<Rightarrow>
          if has_non_hash E b key then Some (WrongType, False, b)
          else do {
            b' \<leftarrow> new_hash E b (hash_key E key) key (hash_single field value);
            Some (Integer 1, True, b')
          })"

definition hsetnx ::
  "('h, 't) env \<Rightarrow> bytes \<Rightarrow> bytes \<Rightarrow> bytes \<Rightarrow> u64 \<Rightarrow> ('h, 't) bucket \<Rightarrow> (redis_object_result \<times> bool \<times> ('h, 't) bucket) option" where
  "hsetnx E key field value clock b = do {
     b1 \<leftarrow> remove_expired_hash_fields_for_write E b key clock;
     hsetnx_stored E key field value b1
   }"

text \<open>
  \<^verbatim>\<open>HINCRBY\<close> and \<^verbatim>\<open>HINCRBYFLOAT\<close> read the field, parsing it when it is there, and store the sum
  through \<^verbatim>\<open>hset\<close>, which reads the clock again.
\<close>

definition current_value ::
  "('h, 't) env \<Rightarrow> (bytes \<Rightarrow> unit + 'n) \<Rightarrow> bytes \<Rightarrow> bytes \<Rightarrow> ('h, 't) bucket \<Rightarrow> (unit + 'n option) option option" where
  "current_value E parse key field b =
     (case sm_get E (hashes b) key of
        Some slot \<Rightarrow> do {
          h \<leftarrow> slab_get (hash_slab b) slot;
          Some (Some (case hash_get h field of
              None \<Rightarrow> Inr None
            | Some value \<Rightarrow> (case parse value of Inl e \<Rightarrow> Inl e | Inr n \<Rightarrow> Inr (Some n))))
        }
      | None \<Rightarrow> if has_non_hash E b key then Some None else Some (Some (Inr None)))"

definition keep_wrong_type :: "redis_object_result \<Rightarrow> redis_object_result \<Rightarrow> redis_object_result" where
  "keep_wrong_type result reply = (if result = WrongType then result else reply)"

definition hincrby_stored ::
  "('h, 't) env \<Rightarrow> bytes \<Rightarrow> bytes \<Rightarrow> int \<Rightarrow> u64 \<Rightarrow> ('h, 't) bucket \<Rightarrow> (redis_object_result \<times> bool \<times> ('h, 't) bucket) option" where
  "hincrby_stored E key field delta clock b = do {
     current \<leftarrow> current_value E parse_i64_bytes key field b;
     case current of
       None \<Rightarrow> Some (WrongType, False, b)
     | Some (Inl _) \<Rightarrow> Some (Simple ''ERR hash value is not an integer'', False, b)
     | Some (Inr n) \<Rightarrow>
         (case checked_add (case n of None \<Rightarrow> 0 | Some n \<Rightarrow> n) delta of
            None \<Rightarrow> Some (Simple ''ERR increment or decrement would overflow'', False, b)
          | Some value \<Rightarrow> do {
              (result, created, b') \<leftarrow> hset E key field (i64_to_string value) clock b;
              Some (keep_wrong_type result (Integer value), created, b')
            })
   }"

definition hincrby ::
  "('h, 't) env \<Rightarrow> bytes \<Rightarrow> bytes \<Rightarrow> int \<Rightarrow> u64 \<Rightarrow> u64 \<Rightarrow> ('h, 't) bucket \<Rightarrow> (redis_object_result \<times> bool \<times> ('h, 't) bucket) option" where
  "hincrby E key field delta clock1 clock2 b = do {
     b1 \<leftarrow> remove_expired_hash_fields_for_write E b key clock1;
     hincrby_stored E key field delta clock2 b1
   }"

definition hincrbyfloat_stored ::
  "('h, 't) env \<Rightarrow> bytes \<Rightarrow> bytes \<Rightarrow> f64 \<Rightarrow> u64 \<Rightarrow> ('h, 't) bucket \<Rightarrow> (redis_object_result \<times> bool \<times> ('h, 't) bucket) option" where
  "hincrbyfloat_stored E key field delta clock b = do {
     current \<leftarrow> current_value E parse_f64_bytes key field b;
     case current of
       None \<Rightarrow> Some (WrongType, False, b)
     | Some (Inl _) \<Rightarrow> Some (Simple ''ERR hash value is not a float'', False, b)
     | Some (Inr n) \<Rightarrow>
         (let value = f64_add (case n of None \<Rightarrow> f64_zero | Some n \<Rightarrow> n) delta
          in if \<not> f64_is_finite value
             then Some (Simple ''ERR increment would produce NaN or Infinity'', False, b)
             else do {
               (result, created, b') \<leftarrow> hset E key field (format_score value) clock b;
               Some (keep_wrong_type result (Bulk (Some (format_score value))), created, b')
             })
   }"

definition hincrbyfloat ::
  "('h, 't) env \<Rightarrow> bytes \<Rightarrow> bytes \<Rightarrow> f64 \<Rightarrow> u64 \<Rightarrow> u64 \<Rightarrow> ('h, 't) bucket \<Rightarrow> (redis_object_result \<times> bool \<times> ('h, 't) bucket) option" where
  "hincrbyfloat E key field delta clock1 clock2 b = do {
     b1 \<leftarrow> remove_expired_hash_fields_for_write E b key clock1;
     hincrbyfloat_stored E key field delta clock2 b1
   }"

section \<open>Reads\<close>

definition emit_pairs :: "(bytes \<times> bytes) list \<Rightarrow> array_item list" where
  "emit_pairs es = concat (map (\<lambda>e. [Item (Some (fst e)), Item (Some (snd e))]) es)"

definition hget ::
  "('h, 't) env \<Rightarrow> bytes \<Rightarrow> bytes \<Rightarrow> u64 \<Rightarrow> ('h, 't) bucket \<Rightarrow> redis_object_result option" where
  "hget E key field clock b =
     (case sm_get E (hashes b) key of
        Some slot \<Rightarrow>
          if hash_field_lazily_expired b key field clock then Some (Bulk None)
          else do { h \<leftarrow> slab_get (hash_slab b) slot; Some (Bulk (hash_get h field)) }
      | None \<Rightarrow> if has_non_hash E b key then Some WrongType else Some (Bulk None))"

definition hexists ::
  "('h, 't) env \<Rightarrow> bytes \<Rightarrow> bytes \<Rightarrow> u64 \<Rightarrow> ('h, 't) bucket \<Rightarrow> redis_object_result option" where
  "hexists E key field clock b =
     (case sm_get E (hashes b) key of
        Some slot \<Rightarrow>
          if hash_field_lazily_expired b key field clock then Some (Integer 0)
          else do { h \<leftarrow> slab_get (hash_slab b) slot; Some (Integer (bool_int (hash_contains_key h field))) }
      | None \<Rightarrow> if has_non_hash E b key then Some WrongType else Some (Integer 0))"

definition hexists_visit ::
  "('h, 't) env \<Rightarrow> bytes \<Rightarrow> bytes \<Rightarrow> u64 \<Rightarrow> ('h, 't) bucket \<Rightarrow> (int list \<times> read_outcome) option" where
  "hexists_visit E key field clock b =
     (case sm_get E (hashes b) key of
        Some slot \<Rightarrow>
          if hash_field_lazily_expired b key field clock then Some ([0], Written)
          else do { h \<leftarrow> slab_get (hash_slab b) slot; Some ([bool_int (hash_contains_key h field)], Written) }
      | None \<Rightarrow> if has_non_hash E b key then Some ([], WrongTypeOutcome) else Some ([], Missing))"

definition hget_visit ::
  "('h, 't) env \<Rightarrow> bytes \<Rightarrow> bytes \<Rightarrow> u64 \<Rightarrow> ('h, 't) bucket \<Rightarrow> (bytes option list \<times> read_outcome) option" where
  "hget_visit E key field clock b =
     (case sm_get E (hashes b) key of
        Some slot \<Rightarrow>
          if hash_field_lazily_expired b key field clock then Some ([None], Written)
          else do { h \<leftarrow> slab_get (hash_slab b) slot; Some ([hash_get h field], Written) }
      | None \<Rightarrow> if has_non_hash E b key then Some ([], WrongTypeOutcome) else Some ([], Missing))"

definition hlen ::
  "('h, 't) env \<Rightarrow> bytes \<Rightarrow> u64 \<Rightarrow> ('h, 't) bucket \<Rightarrow> redis_object_result option" where
  "hlen E key clock b =
     (case sm_get E (hashes b) key of
        Some slot \<Rightarrow>
          do {
            h \<leftarrow> slab_get (hash_slab b) slot;
            let live = hash_len h - hash_expired_field_count E b key clock
            in Some (Integer (int live))
          }
      | None \<Rightarrow> if has_non_hash E b key then Some WrongType else Some (Integer 0))"

definition hlen_visit ::
  "('h, 't) env \<Rightarrow> bytes \<Rightarrow> u64 \<Rightarrow> ('h, 't) bucket \<Rightarrow> (int list \<times> read_outcome) option" where
  "hlen_visit E key clock b =
     (case sm_get E (hashes b) key of
        Some slot \<Rightarrow>
          do {
            h \<leftarrow> slab_get (hash_slab b) slot;
            let live = hash_len h - hash_expired_field_count E b key clock
            in Some ([int live], Written)
          }
      | None \<Rightarrow> if has_non_hash E b key then Some ([], WrongTypeOutcome) else Some ([], Missing))"

definition hmget ::
  "('h, 't) env \<Rightarrow> bytes \<Rightarrow> bytes list \<Rightarrow> u64 \<Rightarrow> ('h, 't) bucket \<Rightarrow> redis_object_result option" where
  "hmget E key fs clock b =
     (case sm_get E (hashes b) key of
        Some slot \<Rightarrow>
          do {
            h \<leftarrow> slab_get (hash_slab b) slot;
            let now_ms = (if hash_field_expire_at_ms b \<noteq> [] then Some clock else None)
            in Some (Array (map (\<lambda>field.
                 case now_ms of
                   Some now \<Rightarrow> if hash_field_is_expired b key field now then None else hash_get h field
                 | None \<Rightarrow> hash_get h field) fs))
          }
      | None \<Rightarrow> if has_non_hash E b key then Some WrongType else Some (Array (replicate (length fs) None)))"

definition hkeys ::
  "('h, 't) env \<Rightarrow> bytes \<Rightarrow> u64 \<Rightarrow> ('h, 't) bucket \<Rightarrow> redis_object_result option" where
  "hkeys E key clock b =
     (case sm_get E (hashes b) key of
        Some slot \<Rightarrow>
          do {
            h \<leftarrow> slab_get (hash_slab b) slot;
            let now_ms = hash_field_now_ms_for b key clock
            in Some (Array (map Some (filter (\<lambda>field.
                 case now_ms of Some now \<Rightarrow> \<not> hash_field_is_expired b key field now | None \<Rightarrow> True) (hash_fields E h))))
          }
      | None \<Rightarrow> if has_non_hash E b key then Some WrongType else Some (Array []))"

definition hvals ::
  "('h, 't) env \<Rightarrow> bytes \<Rightarrow> u64 \<Rightarrow> ('h, 't) bucket \<Rightarrow> redis_object_result option" where
  "hvals E key clock b =
     (case sm_get E (hashes b) key of
        Some slot \<Rightarrow>
          do {
            h \<leftarrow> slab_get (hash_slab b) slot;
            let now_ms = hash_field_now_ms_for b key clock
            in Some (Array (map (\<lambda>e. Some (snd e)) (filter (\<lambda>e.
                 case now_ms of Some now \<Rightarrow> \<not> hash_field_is_expired b key (fst e) now | None \<Rightarrow> True) (hash_entries E h))))
          }
      | None \<Rightarrow> if has_non_hash E b key then Some WrongType else Some (Array []))"

definition hgetall ::
  "('h, 't) env \<Rightarrow> bytes \<Rightarrow> u64 \<Rightarrow> ('h, 't) bucket \<Rightarrow> redis_object_result option" where
  "hgetall E key clock b =
     (case sm_get E (hashes b) key of
        Some slot \<Rightarrow>
          do {
            h \<leftarrow> slab_get (hash_slab b) slot;
            let now_ms = hash_field_now_ms_for b key clock
            in Some (Array (concat (map (\<lambda>e. [Some (fst e), Some (snd e)]) (filter (\<lambda>e.
                 case now_ms of Some now \<Rightarrow> \<not> hash_field_is_expired b key (fst e) now | None \<Rightarrow> True) (hash_entries E h)))))
          }
      | None \<Rightarrow> if has_non_hash E b key then Some WrongType else Some (Array []))"

definition hkeys_visit ::
  "('h, 't) env \<Rightarrow> bytes \<Rightarrow> u64 \<Rightarrow> ('h, 't) bucket \<Rightarrow> (array_item list \<times> read_outcome) option" where
  "hkeys_visit E key clock b =
     (case sm_get E (hashes b) key of
        Some slot \<Rightarrow>
          do {
            h \<leftarrow> slab_get (hash_slab b) slot;
            case hash_field_now_ms_for b key clock of
              None \<Rightarrow> Some (Begin (hash_len h) # map (\<lambda>f. Item (Some f)) (hash_visit_fields E h), Written)
            | Some now \<Rightarrow>
                let live = filter (\<lambda>f. \<not> hash_field_is_expired b key f now) (hash_fields E h)
                in Some (Begin (length live) # map (\<lambda>f. Item (Some f)) live, Written)
          }
      | None \<Rightarrow> if has_non_hash E b key then Some ([], WrongTypeOutcome) else Some ([], Missing))"

definition hvals_visit ::
  "('h, 't) env \<Rightarrow> bytes \<Rightarrow> u64 \<Rightarrow> ('h, 't) bucket \<Rightarrow> (array_item list \<times> read_outcome) option" where
  "hvals_visit E key clock b =
     (case sm_get E (hashes b) key of
        Some slot \<Rightarrow>
          do {
            h \<leftarrow> slab_get (hash_slab b) slot;
            case hash_field_now_ms_for b key clock of
              None \<Rightarrow> Some (Begin (hash_len h) # map (\<lambda>v. Item (Some v)) (hash_visit_values E h), Written)
            | Some now \<Rightarrow>
                let live = map snd (filter (\<lambda>e. \<not> hash_field_is_expired b key (fst e) now) (hash_entries E h))
                in Some (Begin (length live) # map (\<lambda>v. Item (Some v)) live, Written)
          }
      | None \<Rightarrow> if has_non_hash E b key then Some ([], WrongTypeOutcome) else Some ([], Missing))"

definition hgetall_visit ::
  "('h, 't) env \<Rightarrow> bytes \<Rightarrow> u64 \<Rightarrow> ('h, 't) bucket \<Rightarrow> (array_item list \<times> read_outcome) option" where
  "hgetall_visit E key clock b =
     (case sm_get E (hashes b) key of
        Some slot \<Rightarrow>
          do {
            h \<leftarrow> slab_get (hash_slab b) slot;
            case hash_field_now_ms_for b key clock of
              None \<Rightarrow> Some (Begin (saturating_mul (hash_len h) 2) # emit_pairs (hash_visit_entries E h), Written)
            | Some now \<Rightarrow>
                let live = filter (\<lambda>e. \<not> hash_field_is_expired b key (fst e) now) (hash_entries E h)
                in Some (Begin (saturating_mul (length live) 2) # emit_pairs live, Written)
          }
      | None \<Rightarrow> if has_non_hash E b key then Some ([], WrongTypeOutcome) else Some ([], Missing))"

definition hrandfield ::
  "('h, 't) env \<Rightarrow> bytes \<Rightarrow> int option \<Rightarrow> bool \<Rightarrow> u64 \<Rightarrow> ('h, 't) bucket \<Rightarrow> redis_object_result option" where
  "hrandfield E key wanted with_values clock b =
     (case sm_get E (hashes b) key of
        Some slot \<Rightarrow>
          do {
            h \<leftarrow> slab_get (hash_slab b) slot;
            let entries = (case hash_field_now_ms_for b key clock of
                Some now \<Rightarrow> filter (\<lambda>e. \<not> hash_field_is_expired b key (fst e) now) (hash_entries E h)
              | None \<Rightarrow> hash_entries E h)
            in Some (case wanted of
                Some n \<Rightarrow>
                  let taken = take (nat \<bar>n\<bar>) entries
                  in if with_values then Array (concat (map (\<lambda>e. [Some (fst e), Some (snd e)]) taken))
                     else Array (map (\<lambda>e. Some (fst e)) taken)
              | None \<Rightarrow> Bulk (case entries of [] \<Rightarrow> None | e # _ \<Rightarrow> Some (fst e)))
          }
      | None \<Rightarrow> if has_non_hash E b key then Some WrongType else Some (if wanted \<noteq> None then Array [] else Bulk None))"

definition hmget_visit ::
  "('h, 't) env \<Rightarrow> bytes \<Rightarrow> bytes list \<Rightarrow> u64 \<Rightarrow> ('h, 't) bucket \<Rightarrow> (array_item list \<times> read_outcome) option" where
  "hmget_visit E key fs clock b =
     (case sm_get E (hashes b) key of
        Some slot \<Rightarrow>
          do {
            h \<leftarrow> slab_get (hash_slab b) slot;
            let now_ms = hash_field_now_ms_for b key clock
            in Some (Begin (length fs) # map (\<lambda>field. Item (
                 case now_ms of
                   Some now \<Rightarrow> if hash_field_is_expired b key field now then None else hash_get h field
                 | None \<Rightarrow> hash_get h field)) fs, Written)
          }
      | None \<Rightarrow> if has_non_hash E b key then Some ([], WrongTypeOutcome) else Some ([], Missing))"

section \<open>Reads see the live fields\<close>

text \<open>A read of the hash at a key is a function of the fields that are alive at the time.\<close>

definition read_live :: "bytes \<Rightarrow> u64 \<Rightarrow> 'r \<Rightarrow> 'r \<Rightarrow> ((bytes \<rightharpoonup> bytes) \<Rightarrow> 'r) \<Rightarrow> astate \<Rightarrow> 'r" where
  "read_live k now dflt wrong f A = read_obj as_hash k dflt wrong (\<lambda>_. f (a_live A k now)) A"

lemma a_live_hash: "a_obj A k = Some (OHash m) \<Longrightarrow> a_live A k now = m |` (- a_dead A k now)"
  by (simp add: a_live_def)

lemma hash_reads_on:
  assumes E: "env_ok E"
    and hit: "\<And>b slot h. bucket_inv E b \<Longrightarrow> slab_get (hash_slab b) slot = Some h \<Longrightarrow> hash_ok h \<Longrightarrow>
      a_obj (bucket_abs E b) k = Some (OHash (hash_get h)) \<Longrightarrow>
      dom (a_fttl (bucket_abs E b) k) \<subseteq> dom (hash_get h) \<Longrightarrow>
      g b slot = Some (f (hash_get h |` (- a_dead (bucket_abs E b) k now)))"
  shows "reads E (\<lambda>b. case sm_get E (hashes b) k of
       None \<Rightarrow> if has_non_hash E b k then Some wrong else Some dflt
     | Some slot \<Rightarrow> g b slot) (read_live k now dflt wrong f)"
proof (rule readsI)
  fix b assume b: "bucket_inv E b"
  show "(case sm_get E (hashes b) k of
       None \<Rightarrow> if has_non_hash E b k then Some wrong else Some dflt
     | Some slot \<Rightarrow> g b slot) = Some (read_live k now dflt wrong f (bucket_abs E b))"
    using E b
  proof (cases rule: hash_kind.lookup [where k = k])
    case (hit slot h m r)
    have "dom (a_fttl (bucket_abs E b) k) \<subseteq> dom (hash_get h)"
      using hash_slot [OF E b hit(1)] hit(3) by (metis a_fttl_abs option.inject)
    from assms(2) [OF b hit(3) _ _ this] hit show ?thesis
      by (auto simp: read_live_def read_obj_def a_live_hash)
  qed (auto simp: read_live_def read_obj_def)
qed

lemma live_get:
  "(if hash_field_lazily_expired b k f now then None else m f) = (m |` (- a_dead (bucket_abs E b) k now)) f"
  by (simp add: lazily_expired_law [of b k f now E] restrict_map_def)

lemma hget_reads:
  assumes "env_ok E"
  shows "reads E (hget E k f now) (read_live k now (Bulk None) WrongType (\<lambda>m. Bulk (m f)))"
  unfolding hget_def [abs_def]
  by (rule hash_reads_on [OF assms]) (simp add: lazily_expired_law [where E = E] restrict_map_def)

lemma hexists_reads:
  assumes "env_ok E"
  shows "reads E (hexists E k f now) (read_live k now (Integer 0) WrongType (\<lambda>m. Integer (bool_int (m f \<noteq> None))))"
  unfolding hexists_def [abs_def]
  by (rule hash_reads_on [OF assms])
    (simp add: lazily_expired_law [where E = E] restrict_map_def hash_contains_key_def bool_int_def)

lemma hexists_visit_reads:
  assumes "env_ok E"
  shows "reads E (hexists_visit E k f now)
    (read_live k now ([], Missing) ([], WrongTypeOutcome) (\<lambda>m. ([bool_int (m f \<noteq> None)], Written)))"
  unfolding hexists_visit_def [abs_def]
  by (rule hash_reads_on [OF assms])
    (simp add: lazily_expired_law [where E = E] restrict_map_def hash_contains_key_def bool_int_def)

lemma hget_visit_reads:
  assumes "env_ok E"
  shows "reads E (hget_visit E k f now)
    (read_live k now ([], Missing) ([], WrongTypeOutcome) (\<lambda>m. ([m f], Written)))"
  unfolding hget_visit_def [abs_def]
  by (rule hash_reads_on [OF assms]) (simp add: lazily_expired_law [where E = E] restrict_map_def)

lemma a_dead_fttl: "a_dead A k now \<subseteq> dom (a_fttl A k)"
  by (auto simp: a_dead_def)

lemma live_len:
  assumes "hash_ok h" "a_dead A k now \<subseteq> dom (hash_get h)"
  shows "hash_len h - card (a_dead A k now) = card (dom (hash_get h |` (- a_dead A k now)))"
proof -
  have "dom (hash_get h |` (- a_dead A k now)) = dom (hash_get h) - a_dead A k now" by auto
  moreover have "finite (a_dead A k now)" using assms(2) finite_hash by (rule finite_subset)
  ultimately show ?thesis using assms by (simp add: hash_len_card card_Diff_subset)
qed

lemma hlen_reads:
  assumes "env_ok E"
  shows "reads E (hlen E k now) (read_live k now (Integer 0) WrongType (\<lambda>m. Integer (int (card (dom m)))))"
  unfolding hlen_def [abs_def]
  by (rule hash_reads_on [OF assms])
    (simp add: expired_count_law [OF assms] live_len subset_trans [OF a_dead_fttl] del: dom_restrict)

lemma hlen_visit_reads:
  assumes "env_ok E"
  shows "reads E (hlen_visit E k now)
    (read_live k now ([], Missing) ([], WrongTypeOutcome) (\<lambda>m. ([int (card (dom m))], Written)))"
  unfolding hlen_visit_def [abs_def]
  by (rule hash_reads_on [OF assms])
    (simp add: expired_count_law [OF assms] live_len subset_trans [OF a_dead_fttl] del: dom_restrict)

lemma hmget_reads:
  assumes "env_ok E"
  shows "reads E (hmget E k fs now)
    (read_live k now (Array (replicate (length fs) None)) WrongType (\<lambda>m. Array (map m fs)))"
  unfolding hmget_def [abs_def]
proof (rule hash_reads_on [OF assms], goal_cases)
  case (1 b slot h)
  have "a_dead (bucket_abs E b) k now = {}" if "hash_field_expire_at_ms b = []"
    using that by (simp add: a_dead_def fttl_def)
  with 1 show ?case by (auto simp: is_expired_dead [where E = E] restrict_map_def)
qed

section \<open>Enumerations of a hash\<close>

text \<open>The live entries in the order of their fields.\<close>

definition live_entries :: "(bytes \<rightharpoonup> bytes) \<Rightarrow> (bytes \<times> bytes) list" where
  "live_entries m = map (\<lambda>f. (f, the (m f))) (sorted_list_of_set (dom m))"

lemma filter_sorted_set:
  fixes S :: "'a :: linorder set"
  assumes "finite S"
  shows "filter P (sorted_list_of_set S) = sorted_list_of_set {x \<in> S. P x}"
proof -
  have "sorted (filter P (sorted_list_of_set S))" "distinct (filter P (sorted_list_of_set S))"
    by (simp_all add: sorted_wrt_filter)
  with sorted_list_of_set.idem_if_sorted_distinct [OF this] show ?thesis using assms by simp
qed

lemma live_filter:
  assumes E: "env_ok E" and h: "hash_ok h" and D: "\<And>f. P f \<longleftrightarrow> f \<notin> D"
  shows "filter P (hash_fields E h) = map fst (live_entries (hash_get h |` (- D)))"
    "filter (\<lambda>e. P (fst e)) (hash_entries E h) = live_entries (hash_get h |` (- D))"
proof -
  have S: "{f \<in> dom (hash_get h). P f} = dom (hash_get h |` (- D))" by (auto simp: D)
  show "filter P (hash_fields E h) = map fst (live_entries (hash_get h |` (- D)))"
    unfolding hash_fields_sorted [OF E h] filter_sorted_set [OF finite_hash] S live_entries_def
    by (simp add: o_def)
  have "filter (\<lambda>e. P (fst e)) (hash_entries E h) =
      map (\<lambda>f. (f, the (hash_get h f))) (sorted_list_of_set {f \<in> dom (hash_get h). P f})"
    unfolding hash_entries_sorted [OF E h] by (simp add: filter_map o_def filter_sorted_set)
  also have "\<dots> = live_entries (hash_get h |` (- D))"
    unfolding S live_entries_def by (rule map_cong) simp_all
  finally show "filter (\<lambda>e. P (fst e)) (hash_entries E h) = live_entries (hash_get h |` (- D))" .
qed

lemma hkeys_reads:
  assumes E: "env_ok E"
  shows "reads E (hkeys E k now)
    (read_live k now (Array []) WrongType (\<lambda>m. Array (map Some (map fst (live_entries m)))))"
  unfolding hkeys_def [abs_def]
  by (rule hash_reads_on [OF E]) (simp add: live_filter [OF E _ now_ms_for_law] del: map_map)

lemma hvals_reads:
  assumes E: "env_ok E"
  shows "reads E (hvals E k now)
    (read_live k now (Array []) WrongType (\<lambda>m. Array (map (\<lambda>e. Some (snd e)) (live_entries m))))"
  unfolding hvals_def [abs_def]
  by (rule hash_reads_on [OF E]) (simp add: live_filter [OF E _ now_ms_for_law])

lemma hgetall_reads:
  assumes E: "env_ok E"
  shows "reads E (hgetall E k now)
    (read_live k now (Array []) WrongType
      (\<lambda>m. Array (concat (map (\<lambda>e. [Some (fst e), Some (snd e)]) (live_entries m)))))"
  unfolding hgetall_def [abs_def]
  by (rule hash_reads_on [OF E]) (simp add: live_filter [OF E _ now_ms_for_law])

lemma now_ms_get:
  assumes "bucket_inv E b"
  shows "(case hash_field_now_ms_for b k now of
       Some t \<Rightarrow> if hash_field_is_expired b k f t then None else m f | None \<Rightarrow> m f) =
     (m |` (- a_dead (bucket_abs E b) k now)) f"
  using now_ms_for_law [OF assms, of k f now] by (auto simp: restrict_map_def split: option.splits)

lemma hmget_visit_reads:
  assumes E: "env_ok E"
  shows "reads E (hmget_visit E k fs now)
    (read_live k now ([], Missing) ([], WrongTypeOutcome) (\<lambda>m. (Begin (length fs) # map (\<lambda>f. Item (m f)) fs, Written)))"
  unfolding hmget_visit_def [abs_def] by (rule hash_reads_on [OF E]) (simp add: now_ms_get)

definition hrandfield_result :: "int option \<Rightarrow> bool \<Rightarrow> (bytes \<times> bytes) list \<Rightarrow> redis_object_result" where
  "hrandfield_result wanted with_values es =
     (case wanted of
        None \<Rightarrow> Bulk (case es of [] \<Rightarrow> None | e # _ \<Rightarrow> Some (fst e))
      | Some n \<Rightarrow>
          if with_values then Array (concat (map (\<lambda>e. [Some (fst e), Some (snd e)]) (take (nat \<bar>n\<bar>) es)))
          else Array (map (\<lambda>e. Some (fst e)) (take (nat \<bar>n\<bar>) es)))"

lemma now_ms_entries:
  assumes E: "env_ok E" and b: "bucket_inv E b" and h: "hash_ok h"
  shows "(case hash_field_now_ms_for b k now of
       Some t \<Rightarrow> filter (\<lambda>e. \<not> hash_field_is_expired b k (fst e) t) (hash_entries E h)
     | None \<Rightarrow> hash_entries E h) = live_entries (hash_get h |` (- a_dead (bucket_abs E b) k now))"
  using live_filter(2) [OF E h now_ms_for_law [OF b, of k _ now]] by (cases "hash_field_now_ms_for b k now") simp_all

lemma hrandfield_reads:
  assumes E: "env_ok E"
  shows "reads E (hrandfield E k wanted with_values now)
    (read_live k now (if wanted \<noteq> None then Array [] else Bulk None) WrongType
      (\<lambda>m. hrandfield_result wanted with_values (live_entries m)))"
  unfolding hrandfield_def [abs_def]
  by (rule hash_reads_on [OF E])
    (simp add: now_ms_entries [OF E] hrandfield_result_def Let_def split: option.split)

text \<open>
  The visiting reads emit the fields of a hash without TTLs in the order of its container,
  and those of a hash with TTLs in sorted order: some enumeration of the live entries.
\<close>

definition lists_entries :: "(bytes \<times> bytes) list \<Rightarrow> (bytes \<rightharpoonup> bytes) \<Rightarrow> bool" where
  "lists_entries es m \<longleftrightarrow> distinct (map fst es) \<and> map_of es = m"

lemma visit_entries_lists:
  assumes E: "env_ok E" and h: "hash_ok h"
  shows "lists_entries (hash_visit_entries E h) (hash_get h)"
    "hash_visit_fields E h = map fst (hash_visit_entries E h)"
    "hash_visit_values E h = map snd (hash_visit_entries E h)"
proof -
  have keys: "map fst (hm_iter E m) = hm_keys E m" if "distinct (map fst m)" for m :: "bytes hmap"
    using E that by (simp add: hm_iter_keys)
  have "map_of (hm_iter E m) = map_of m" if "distinct (map fst m)" for m :: "bytes hmap"
  proof (rule map_of_inject_set [THEN iffD2])
    show "set (hm_iter E m) = set m" using hm_iter_mem [OF E, of _ _ m] that by auto
    show "distinct (map fst (hm_iter E m))" using keys [OF that] E that by (simp add: hm_keys_def)
  qed (rule that)
  with h keys E show "lists_entries (hash_visit_entries E h) (hash_get h)"
    "hash_visit_fields E h = map fst (hash_visit_entries E h)"
    "hash_visit_values E h = map snd (hash_visit_entries E h)"
    by (cases h; simp add: lists_entries_def hash_get_alist hm_keys_def)+
qed

lemma live_entries_lists: "finite (dom m) \<Longrightarrow> lists_entries (live_entries m) m"
proof -
  assume fin: "finite (dom m)"
  have "map_of (live_entries m) f = m f" for f
  proof -
    have "map_of (map (\<lambda>f. (f, the (m f))) xs) f = (if f \<in> set xs then Some (the (m f)) else None)" for xs
      by (induction xs) auto
    with fin show ?thesis by (cases "m f") (auto simp: live_entries_def)
  qed
  with fin show ?thesis by (auto simp: lists_entries_def live_entries_def o_def fun_eq_iff)
qed

lemma lists_entries_length: "lists_entries es m \<Longrightarrow> length es = card (dom m)"
  using distinct_card [of "map fst es"] by (auto simp: lists_entries_def dom_map_of_conv_image_fst)

lemma visit_law:
  fixes now :: u64
  assumes E: "env_ok E" and b: "bucket_inv E b" and m: "a_obj (bucket_abs E b) k = Some (OHash m)"
  defines "live \<equiv> a_live (bucket_abs E b) k now"
  shows "\<exists>es. lists_entries es live \<and>
    hkeys_visit E k now b = Some (Begin (card (dom live)) # map (\<lambda>e. Item (Some (fst e))) es, Written) \<and>
    hvals_visit E k now b = Some (Begin (card (dom live)) # map (\<lambda>e. Item (Some (snd e))) es, Written) \<and>
    hgetall_visit E k now b = Some (Begin (saturating_mul (card (dom live)) 2) # emit_pairs es, Written)"
proof -
  obtain slot h where h: "sm_get E (hashes b) k = Some slot" "slab_get (hash_slab b) slot = Some h"
    "hash_ok h" "hash_get h = m"
    using E b m by (cases rule: hash_kind.lookup [where k = k]) auto
  have live: "live = hash_get h |` (- a_dead (bucket_abs E b) k now)"
    using m h(4) by (simp add: live_def a_live_hash)
  note defs = hkeys_visit_def hvals_visit_def hgetall_visit_def
  show ?thesis
  proof (cases "hash_field_now_ms_for b k now")
    case None
    then have "a_dead (bucket_abs E b) k now = {}" using now_ms_for_law [OF b, of k _ now] by auto
    then have "live = hash_get h" using live by simp
    with visit_entries_lists [OF E h(3)] have es: "lists_entries (hash_visit_entries E h) live" by simp
    have "hash_len h = card (dom live)" using h(3) \<open>live = hash_get h\<close> by (simp add: hash_len_card)
    with es None h visit_entries_lists(2,3) [OF E h(3)] show ?thesis
      by (intro exI [of _ "hash_visit_entries E h"]) (simp add: defs o_def)
  next
    case (Some t)
    have law: "\<not> hash_field_is_expired b k f t \<longleftrightarrow> f \<notin> a_dead (bucket_abs E b) k now" for f
      using now_ms_for_law [OF b, of k f now] Some by simp
    note flt = live_filter [OF E h(3) law, folded live]
    have "finite (dom live)" unfolding live using finite_hash [of h] by simp
    then have es: "lists_entries (live_entries live) live" by (rule live_entries_lists)
    with Some h flt lists_entries_length [OF es] show ?thesis
      by (intro exI [of _ "live_entries live"]) (simp add: defs Let_def o_def)
  qed
qed

section \<open>Writes: specifications\<close>

definition spec_hset :: "bytes \<Rightarrow> bytes \<Rightarrow> bytes \<Rightarrow> write_spec" where
  "spec_hset k f v A =
     read_obj as_hash k
       (Integer 1, True, a_put k (OHash [f \<mapsto> v]) A) (WrongType, False, A)
       (\<lambda>m. (Integer (bool_int (m f = None)), False, a_hash k (m(f \<mapsto> v)) ((a_fttl A k)(f := None)) A)) A"

definition spec_hset_many :: "bytes \<Rightarrow> (bytes \<times> bytes) list \<Rightarrow> write_spec" where
  "spec_hset_many k fvs A =
     read_obj as_hash k
       (Integer (int (card (fst ` set fvs))), True, a_put k (OHash (map_of (rev fvs))) A) (WrongType, False, A)
       (\<lambda>m. (Integer (int (card (fst ` set fvs - dom m))), False,
             a_hash k (m ++ map_of (rev fvs)) (a_fttl A k |` (- (fst ` set fvs))) A)) A"

text \<open>A hash that holds no field any more goes away with its TTLs.\<close>

definition hash_left :: "bytes \<Rightarrow> (bytes \<rightharpoonup> bytes) \<Rightarrow> (bytes \<rightharpoonup> u64) \<Rightarrow> astate \<Rightarrow> astate" where
  "hash_left k m ft A = (if m = Map.empty then a_del k A else a_hash k m ft A)"

definition spec_hdel_many :: "bytes \<Rightarrow> bytes set \<Rightarrow> write_spec" where
  "spec_hdel_many k F A =
     on_obj as_hash k (Integer 0)
       (\<lambda>m. (Integer (int (card (F \<inter> dom m))), m |` (- F) = Map.empty,
             hash_left k (m |` (- F)) (a_fttl A k |` (- F)) A)) A"

definition spec_hsetnx :: "bytes \<Rightarrow> bytes \<Rightarrow> bytes \<Rightarrow> write_spec" where
  "spec_hsetnx k f v A =
     read_obj as_hash k
       (Integer 1, True, a_put k (OHash [f \<mapsto> v]) A) (WrongType, False, A)
       (\<lambda>m. if m f \<noteq> None then (Integer 0, False, A)
            else (Integer 1, False, a_hash k (m(f \<mapsto> v)) (a_fttl A k) A)) A"

section \<open>Writes implement their specifications\<close>

text \<open>Removing the expired fields first is purging the abstract state first.\<close>

lemma refines_after_purge:
  assumes E: "env_ok E" and op: "refines E op spec"
  shows "refines E (\<lambda>b. Option.bind (remove_expired_hash_fields_for_write E b k now) op) (\<lambda>A. spec (a_purge k now A))"
proof (rule refinesI)
  fix b assume b: "bucket_inv E b"
  obtain b1 where b1: "remove_expired_hash_fields_for_write E b k now = Some b1" "bucket_inv E b1"
    "bucket_abs E b1 = a_purge k now (bucket_abs E b)"
    using for_write_law [OF E b] by blast
  from op b1(2) obtain r fl b' where "op b1 = Some (r, fl, b')" "bucket_inv E b'"
    "spec (bucket_abs E b1) = (r, fl, bucket_abs E b')" by (rule refinesD)
  with b1 show "\<exists>r fl b'. Option.bind (remove_expired_hash_fields_for_write E b k now) op = Some (r, fl, b') \<and>
      bucket_inv E b' \<and> spec (a_purge k now (bucket_abs E b)) = (r, fl, bucket_abs E b')" by simp
qed

lemma same_but_trans: "same_but k A B \<Longrightarrow> same_but k B C \<Longrightarrow> same_but k A C"
  by (simp add: same_but_def)

lemma flag_after_purge: "flag_exact k spec \<Longrightarrow> flag_exact k (\<lambda>A. spec (a_purge k now A))"
  unfolding flag_exact_def by (metis a_obj_purge_None same_but_purge same_but_refl same_but_trans)

lemma clear_overwritten_eq: "clear_overwritten b k fs = clear_hash_field_ttls b k fs"
proof (cases "hash_field_expire_at_ms b = []")
  case True
  then have "clear_hash_field_ttls b k fs = b"
    by (induction fs) (simp_all add: clear_hash_field_ttls_def clear_hash_field_ttl_def)
  with True show ?thesis by (simp add: clear_overwritten_def)
qed (simp add: clear_overwritten_def)

lemma clear_one: "clear_hash_field_ttl b k f = clear_hash_field_ttls b k [f]"
  by (simp add: clear_hash_field_ttls_def)

lemma clear_none: "b = clear_hash_field_ttls b k []"
  by (simp add: clear_hash_field_ttls_def)

text \<open>Storing a changed hash and clearing the TTLs of some of its fields.\<close>

lemma hash_store:
  assumes E: "env_ok E" and b: "bucket_inv E b" and i: "sm_map E (hashes b) k = Some slot"
    and h: "hash_ok h" "dom (fttl (hash_field_expire_at_ms b) k) - set fs \<subseteq> dom (hash_get h)"
  shows "bucket_inv E (clear_hash_field_ttls (put_hash b slot h) k fs) \<and>
    bucket_abs E (clear_hash_field_ttls (put_hash b slot h) k fs) =
      a_hash k (hash_get h) (a_fttl (bucket_abs E b) k |` (- set fs)) (bucket_abs E b)"
proof -
  from clear_ttls [of "put_hash b slot h" k fs] bucket_invD(5) [OF b] obtain fe where
    fe: "clear_hash_field_ttls (put_hash b slot h) k fs = (put_hash b slot h)\<lparr>hash_field_expire_at_ms := fe\<rparr>"
    "ttl_maps_ok (expire_at_ms b) fe"
    "fttl fe = (fttl (hash_field_expire_at_ms b))(k := (fttl (hash_field_expire_at_ms b) k) |` (- set fs))"
    by (auto simp: put_hash_def)
  have "dom ((fttl (hash_field_expire_at_ms b) k) |` (- set fs)) \<subseteq> dom (hash_get h)" using h(2) by auto
  from hash_put [OF E b i h(1) fe(2,3) this] fe(1) show ?thesis by simp
qed

lemma hash_fttl_dom:
  "env_ok E \<Longrightarrow> bucket_inv E b \<Longrightarrow> sm_map E (hashes b) k = Some slot \<Longrightarrow> slab_get (hash_slab b) slot = Some h \<Longrightarrow>
   dom (fttl (hash_field_expire_at_ms b) k) \<subseteq> dom (hash_get h)"
  by (metis hash_slot option.inject)

text \<open>A command that updates the hash at a key, or creates it.\<close>

lemma hash_refines_on:
  assumes E: "env_ok E"
    and hit: "\<And>b slot h. bucket_inv E b \<Longrightarrow> sm_map E (hashes b) k = Some slot \<Longrightarrow> slab_get (hash_slab b) slot = Some h \<Longrightarrow>
      hash_ok h \<Longrightarrow> \<exists>r fl b'. g b slot h = Some (r, fl, b') \<and> bucket_inv E b' \<and>
        f (bucket_abs E b) (hash_get h) = (r, fl, bucket_abs E b')"
    and miss: "\<And>b. bucket_inv E b \<Longrightarrow> a_obj (bucket_abs E b) k = None \<Longrightarrow>
      \<exists>r fl b'. c b = Some (r, fl, b') \<and> bucket_inv E b' \<and> d (bucket_abs E b) = (r, fl, bucket_abs E b')"
  shows "refines E (\<lambda>b. case sm_get E (hashes b) k of
       None \<Rightarrow> if has_non_hash E b k then Some (WrongType, False, b) else c b
     | Some slot \<Rightarrow> Option.bind (slab_get (hash_slab b) slot) (g b slot))
     (\<lambda>A. read_obj as_hash k (d A) (WrongType, False, A) (f A) A)"
proof (rule refinesI)
  fix b assume b: "bucket_inv E b"
  show "\<exists>r fl b'. (case sm_get E (hashes b) k of
       None \<Rightarrow> if has_non_hash E b k then Some (WrongType, False, b) else c b
     | Some slot \<Rightarrow> Option.bind (slab_get (hash_slab b) slot) (g b slot)) = Some (r, fl, b') \<and> bucket_inv E b' \<and>
      read_obj as_hash k (d (bucket_abs E b)) (WrongType, False, bucket_abs E b) (f (bucket_abs E b)) (bucket_abs E b) =
        (r, fl, bucket_abs E b')"
    using E b
  proof (cases rule: hash_kind.lookup [where k = k])
    case (hit slot h m ob)
    with assms(2) [OF b hit(1,3)] show ?thesis by (auto simp: read_obj_def)
  next
    case (wrong ob)
    with b show ?thesis by (auto simp: read_obj_def)
  next
    case miss
    with assms(3) [OF b miss(4)] show ?thesis by (simp add: read_obj_def)
  qed
qed

lemma hset_new:
  assumes "env_ok E" "bucket_inv E b" "a_obj (bucket_abs E b) k = None"
  shows "\<exists>b'. new_hash E b (hash_key E k) k (hash_single f v) = Some b' \<and> bucket_inv E b' \<and>
    bucket_abs E b' = a_put k (OHash [f \<mapsto> v]) (bucket_abs E b)"
  using hash_create [OF assms, of "hash_single f v"] by (simp add: hash_single_law)

lemma hset_stored_refines:
  assumes E: "env_ok E"
  shows "refines E (hset_stored E k f v) (spec_hset k f v)"
  unfolding hset_stored_def [abs_def] spec_hset_def [abs_def]
proof (rule hash_refines_on [OF E], goal_cases)
  case (1 b slot h)
  from hash_insert_law [OF 1(4), of f v] obtain h' where
    h': "hash_insert_slice h f v = (hash_get h f = None, h')" "hash_ok h'" "hash_get h' = (hash_get h)(f \<mapsto> v)" by blast
  have "dom (fttl (hash_field_expire_at_ms b) k) - set [f] \<subseteq> dom (hash_get h')"
    using hash_fttl_dom [OF E 1(1-3)] h'(3) by auto
  from hash_store [OF E 1(1,2) h'(2) this] h' show ?case
    by (simp add: clear_overwritten_eq restrict_complement_singleton_eq)
next
  case (2 b)
  with hset_new [OF E 2, of f v] show ?case by auto
qed

lemma hset_many_stored_refines:
  assumes E: "env_ok E" and ne: "fvs \<noteq> []"
  shows "refines E (hset_many_stored E k fvs) (spec_hset_many k fvs)"
  unfolding hset_many_stored_def [abs_def] spec_hset_many_def [abs_def]
proof (rule hash_refines_on [OF E], goal_cases)
  case (1 b slot h)
  from ho.insert_each_law [OF 1(4), of fvs] obtain h' where
    h': "insert_each (\<lambda>h f v. Some (hash_insert_slice h f v)) h fvs = Some (card (fst ` set fvs - dom (hash_get h)), h')"
      "hash_ok h'" "hash_get h' = hash_get h ++ map_of (rev fvs)" by blast
  have "dom (fttl (hash_field_expire_at_ms b) k) - set (map fst fvs) \<subseteq> dom (hash_get h')"
    using hash_fttl_dom [OF E 1(1-3)] h'(3) by auto
  from hash_store [OF E 1(1,2) h'(2) this] h' show ?case by (simp add: clear_overwritten_eq)
next
  case (2 b)
  from ho.insert_each_empty [of "hash_map_with_capacity (length fvs)" fvs] hash_capacity_law obtain h' where
    h': "insert_each (\<lambda>h f v. Some (hash_insert_slice h f v)) (hash_map_with_capacity (length fvs)) fvs =
        Some (card (fst ` set fvs), h')" "hash_ok h'" "hash_get h' = map_of (rev fvs)" by metis
  from hash_create [OF E 2 h'(2)] h' show ?case by auto
qed

lemma hsetnx_stored_refines:
  assumes E: "env_ok E"
  shows "refines E (hsetnx_stored E k f v) (spec_hsetnx k f v)"
  unfolding hsetnx_stored_def [abs_def] spec_hsetnx_def [abs_def]
proof (rule hash_refines_on [OF E], goal_cases)
  case (1 b slot h)
  from hash_insert_law [OF 1(4), of f v] obtain h' where
    h': "hash_insert_slice h f v = (hash_get h f = None, h')" "hash_ok h'" "hash_get h' = (hash_get h)(f \<mapsto> v)" by blast
  have "dom (fttl (hash_field_expire_at_ms b) k) - set [] \<subseteq> dom (hash_get h')"
    using hash_fttl_dom [OF E 1(1-3)] h'(3) by auto
  from hash_store [OF E 1(1,2) h'(2) this] h' 1(1) show ?case
    by (auto simp: hash_contains_key_def clear_none [symmetric])
next
  case (2 b)
  with hset_new [OF E 2, of f v] show ?case by auto
qed

lemma hdel_as_many: "hdel_stored E k f = hdel_many_stored E k [f]"
proof (rule ext)
  fix b
  have "(let (removed, h') = hash_remove_is_some h f; b2 = put_hash b1 slot h'; emptied = hash_is_empty h';
            b3 = (if emptied then remove_hash_slot E b2 k slot
                  else if removed then clear_hash_field_ttl b2 k f else b2)
         in Some (Integer (bool_int removed), emptied, b3)) =
      (let (gone, h') = remove_each hash_remove_is_some h [f]; b2 = put_hash b1 slot h'; emptied = hash_is_empty h';
           b3 = (if emptied then remove_hash_slot E b2 k slot else clear_hash_field_ttls b2 k gone)
       in Some (Integer (int (length gone)), emptied, b3))" for h b1 slot
    by (auto simp: Let_def bool_int_def clear_hash_field_ttls_def split: prod.split)
  then show "hdel_stored E k f b = hdel_many_stored E k [f] b"
    by (simp only: hdel_stored_def hdel_many_stored_def)
qed

lemma hdel_many_stored_refines:
  assumes E: "env_ok E"
  shows "refines E (hdel_many_stored E k fs) (spec_hdel_many k (set fs))"
proof (rule refinesI)
  fix b assume b: "bucket_inv E b"
  let ?A = "bucket_abs E b"
  show "\<exists>r fl b'. hdel_many_stored E k fs b = Some (r, fl, b') \<and> bucket_inv E b' \<and>
      spec_hdel_many k (set fs) ?A = (r, fl, bucket_abs E b')"
  proof (cases "a_obj ?A k = Some (OHash Map.empty)")
    case True
    with remove_if_empty_law [OF E b, of k] show ?thesis
      by (auto simp: hdel_many_stored_def spec_hdel_many_def on_obj_def read_obj_def hash_left_def)
  next
    case False
    then have keep: "remove_hash_if_empty E b k = Some (False, b)"
      using remove_if_empty_law [OF E b, of k] by auto
    show ?thesis
      using E b
    proof (cases rule: hash_kind.lookup [where k = k])
      case (hit slot h m ob)
      then have ok: "hash_ok h" and m: "m = hash_get h" and o: "a_obj ?A k = Some (OHash m)" by simp_all
      from ho.remove_each_law [OF ok, of fs] obtain h' gone where
        h': "remove_each hash_remove_is_some h fs = (gone, h')" "hash_ok h'" "hash_get h' = m |` (- set fs)"
          "set gone = set fs \<inter> dom m" "distinct gone" by (auto simp: m)
      have n: "length gone = card (set fs \<inter> dom m)" using h'(4,5) by (metis distinct_card)
      have e: "hash_is_empty h' \<longleftrightarrow> m |` (- set fs) = Map.empty" by (simp add: hash_is_empty_iff h'(3))
      have sub: "dom (fttl (hash_field_expire_at_ms b) k) \<subseteq> dom m" using hash_fttl_dom [OF E b hit(1,3)] by (simp add: m)
      have "dom (fttl (hash_field_expire_at_ms b) k) - set gone \<subseteq> dom (hash_get h')" using sub h'(3,4) by auto
      note store = hash_store [OF E b hit(1) h'(2) this]
      have "fttl (hash_field_expire_at_ms b) k |` (- set gone) = fttl (hash_field_expire_at_ms b) k |` (- set fs)"
        using sub h'(4) by (fastforce simp: restrict_map_def fun_eq_iff dom_def)
      with store hash_delete [OF E b hit(1)] hit(2,3) keep o n e h'(1,3) show ?thesis
        by (auto simp: hdel_many_stored_def spec_hdel_many_def on_obj_def read_obj_def hash_left_def Let_def
            delete_put_hash)
    qed (use b keep in \<open>auto simp: hdel_many_stored_def spec_hdel_many_def on_obj_def read_obj_def\<close>)
  qed
qed

section \<open>Increments\<close>

definition spec_current :: "(bytes \<Rightarrow> unit + 'n) \<Rightarrow> bytes \<Rightarrow> bytes \<Rightarrow> astate \<Rightarrow> (unit + 'n option) option" where
  "spec_current parse k f A =
     read_obj as_hash k (Some (Inr None)) None
       (\<lambda>m. Some (case m f of None \<Rightarrow> Inr None
                  | Some x \<Rightarrow> (case parse x of Inl e \<Rightarrow> Inl e | Inr n \<Rightarrow> Inr (Some n)))) A"

lemma current_value_reads: "env_ok E \<Longrightarrow> reads E (current_value E parse k f) (spec_current parse k f)"
  unfolding current_value_def [abs_def] spec_current_def [abs_def] by (rule hash_kind.reads_on) auto

definition spec_hincrby :: "bytes \<Rightarrow> bytes \<Rightarrow> int \<Rightarrow> u64 \<Rightarrow> write_spec" where
  "spec_hincrby k f delta now A =
     (case spec_current parse_i64_bytes k f A of
        None \<Rightarrow> (WrongType, False, A)
      | Some (Inl _) \<Rightarrow> (Simple ''ERR hash value is not an integer'', False, A)
      | Some (Inr n) \<Rightarrow>
          (case checked_add (case n of None \<Rightarrow> 0 | Some n \<Rightarrow> n) delta of
             None \<Rightarrow> (Simple ''ERR increment or decrement would overflow'', False, A)
           | Some value \<Rightarrow>
               (case spec_hset k f (i64_to_string value) (a_purge k now A) of
                  (r, created, A') \<Rightarrow> (keep_wrong_type r (Integer value), created, A'))))"

definition spec_hincrbyfloat :: "bytes \<Rightarrow> bytes \<Rightarrow> f64 \<Rightarrow> u64 \<Rightarrow> write_spec" where
  "spec_hincrbyfloat k f delta now A =
     (case spec_current parse_f64_bytes k f A of
        None \<Rightarrow> (WrongType, False, A)
      | Some (Inl _) \<Rightarrow> (Simple ''ERR hash value is not a float'', False, A)
      | Some (Inr n) \<Rightarrow>
          (let value = f64_add (case n of None \<Rightarrow> f64_zero | Some n \<Rightarrow> n) delta
           in if \<not> f64_is_finite value
              then (Simple ''ERR increment would produce NaN or Infinity'', False, A)
              else (case spec_hset k f (format_score value) (a_purge k now A) of
                      (r, created, A') \<Rightarrow> (keep_wrong_type r (Bulk (Some (format_score value))), created, A'))))"

lemma hset_refines: "env_ok E \<Longrightarrow> refines E (hset E k f v now) (\<lambda>A. spec_hset k f v (a_purge k now A))"
  unfolding hset_def [abs_def] by (rule refines_after_purge) (simp_all add: hset_stored_refines)

lemma hset_reply:
  assumes "env_ok E" "bucket_inv E b"
  shows "\<exists>r fl b'. (do { (result, created, b') \<leftarrow> hset E k f v now b; Some (g result, created, b') }) = Some (r, fl, b') \<and>
    bucket_inv E b' \<and>
    (case spec_hset k f v (a_purge k now (bucket_abs E b)) of (r, created, A') \<Rightarrow> (g r, created, A')) = (r, fl, bucket_abs E b')"
proof -
  obtain r fl b' where "hset E k f v now b = Some (r, fl, b')" "bucket_inv E b'"
    "spec_hset k f v (a_purge k now (bucket_abs E b)) = (r, fl, bucket_abs E b')"
    using hset_refines [OF assms(1)] assms(2) by (rule refinesD)
  then show ?thesis by simp
qed

lemma hincrby_stored_refines:
  assumes E: "env_ok E"
  shows "refines E (hincrby_stored E k f delta now) (spec_hincrby k f delta now)"
proof (rule refinesI)
  fix b assume b: "bucket_inv E b"
  note cur = readsD [OF current_value_reads [OF E] b, of parse_i64_bytes k f]
  show "\<exists>r fl b'. hincrby_stored E k f delta now b = Some (r, fl, b') \<and> bucket_inv E b' \<and>
      spec_hincrby k f delta now (bucket_abs E b) = (r, fl, bucket_abs E b')"
  proof (cases "spec_current parse_i64_bytes k f (bucket_abs E b)")
    case (Some c)
    show ?thesis
    proof (cases c)
      case (Inr n)
      with Some cur b hset_reply [OF E b, of k f] show ?thesis
        by (auto simp: hincrby_stored_def spec_hincrby_def split: option.split)
    qed (use Some cur b in \<open>simp add: hincrby_stored_def spec_hincrby_def\<close>)
  qed (use cur b in \<open>simp add: hincrby_stored_def spec_hincrby_def\<close>)
qed

lemma hincrbyfloat_stored_refines:
  assumes E: "env_ok E"
  shows "refines E (hincrbyfloat_stored E k f delta now) (spec_hincrbyfloat k f delta now)"
proof (rule refinesI)
  fix b assume b: "bucket_inv E b"
  note cur = readsD [OF current_value_reads [OF E] b, of parse_f64_bytes k f]
  show "\<exists>r fl b'. hincrbyfloat_stored E k f delta now b = Some (r, fl, b') \<and> bucket_inv E b' \<and>
      spec_hincrbyfloat k f delta now (bucket_abs E b) = (r, fl, bucket_abs E b')"
  proof (cases "spec_current parse_f64_bytes k f (bucket_abs E b)")
    case (Some c)
    show ?thesis
    proof (cases c)
      case (Inr n)
      with Some cur b hset_reply [OF E b, of k f] show ?thesis
        by (auto simp: hincrbyfloat_stored_def spec_hincrbyfloat_def Let_def)
    qed (use Some cur b in \<open>simp add: hincrbyfloat_stored_def spec_hincrbyfloat_def\<close>)
  qed (use cur b in \<open>simp add: hincrbyfloat_stored_def spec_hincrbyfloat_def\<close>)
qed

section \<open>Creation through the router\<close>

lemma for_write_missing:
  assumes b: "bucket_inv E b" and k: "a_obj (bucket_abs E b) k = None"
  shows "remove_expired_hash_fields_for_write E b k now = Some b"
proof -
  have "map_of (hash_field_expire_at_ms b) k = None"
  proof (rule ccontr)
    assume "map_of (hash_field_expire_at_ms b) k \<noteq> None"
    then obtain sub where "map_of (hash_field_expire_at_ms b) k = Some sub" by blast
    from ttl_sub [OF bucket_invD(5) [OF b] this] key_inv_none(6) [OF b k] show False by simp
  qed
  then show ?thesis by (simp add: remove_expired_hash_fields_for_write_def)
qed

lemma hset_attempt:
  fixes k :: bytes and now :: u64
  assumes E: "env_ok E" and b: "bucket_inv E b"
  defines "A \<equiv> a_purge k now (bucket_abs E b)"
  shows "(\<exists>r b'. hset_existing_or_wrongtype_hashed E (hash_key E k) k f v now b = Some (Complete r, b') \<and>
        bucket_inv E b' \<and> spec_hset k f v A = (r, False, bucket_abs E b')) \<or>
      (hset_existing_or_wrongtype_hashed E (hash_key E k) k f v now b = Some (MissingObject, b) \<and>
        a_obj (bucket_abs E b) k = None \<and>
        (\<exists>r b'. hset_new_unchecked_hashed E (hash_key E k) k f v b = Some (r, b') \<and> bucket_inv E b' \<and>
           spec_hset k f v A = (r, True, bucket_abs E b')))"
    (is ?goal)
proof -
  obtain b1 where b1: "remove_expired_hash_fields_for_write E b k now = Some b1" "bucket_inv E b1"
    "bucket_abs E b1 = A" using for_write_law [OF E b] by (auto simp: A_def)
  note sm = slotmaps_ok(1) [OF b1(2)] and defs = hset_existing_or_wrongtype_hashed_def hset_stored_def spec_hset_def
  show ?goal
    using E b1(2)
  proof (cases rule: hash_kind.lookup [where k = k])
    case (hit slot h m ob)
    from hset_stored_refines [OF E] b1(2) obtain r fl b' where r: "hset_stored E k f v b1 = Some (r, fl, b')"
      "bucket_inv E b'" "spec_hset k f v (bucket_abs E b1) = (r, fl, bucket_abs E b')" by (rule refinesD)
    then have "fl = False" using hit by (simp add: spec_hset_def read_obj_def)
    moreover have "hset_existing_or_wrongtype_hashed E (hash_key E k) k f v now b = Some (Complete r, b')"
      using r(1) hit E sm b1(1) by (auto simp: defs split: prod.splits)
    ultimately show ?goal using r b1(3) by auto
  next
    case (wrong ob)
    with E sm b1 show ?goal by (auto simp: hset_existing_or_wrongtype_hashed_def spec_hset_def read_obj_def)
  next
    case miss
    then have "a_obj (bucket_abs E b) k = None" using b1(3) by (simp add: A_def)
    with for_write_missing [OF b, of k now] b1 have "b1 = b" by simp
    with miss E sm b1 hset_new [OF E b1(2) miss(4), of f v] show ?goal
      by (auto simp: hset_existing_or_wrongtype_hashed_def hset_new_unchecked_hashed_def spec_hset_def read_obj_def)
  qed
qed

section \<open>Flags and interfaces\<close>

lemma hset_flag: "flag_exact k (spec_hset k f v)"
  by (auto simp: flag_exact_def spec_hset_def read_obj_def same_but_intros split: option.splits)

lemma hset_many_flag: "flag_exact k (spec_hset_many k fvs)"
  by (auto simp: flag_exact_def spec_hset_many_def read_obj_def same_but_intros split: option.splits)

lemma hsetnx_flag: "flag_exact k (spec_hsetnx k f v)"
  by (auto simp: flag_exact_def spec_hsetnx_def read_obj_def same_but_intros split: option.splits if_splits)

lemma hash_left_obj [simp]: "a_obj (hash_left k m ft A) k = None \<longleftrightarrow> m = Map.empty"
  by (simp add: hash_left_def)

lemma same_but_hash_left [same_but_intros]: "same_but k A A' \<Longrightarrow> same_but k A (hash_left k m ft A')"
  by (simp add: hash_left_def same_but_intros)

lemma hdel_many_flag: "flag_exact k (spec_hdel_many k F)"
  unfolding spec_hdel_many_def [abs_def] by (rule on_obj_flag) (simp add: same_but_intros)

lemma hset_then_flag:
  assumes "spec_hset k f v (a_purge k now A) = (r, fl, A')"
  shows "fl = ((a_obj A k = None) \<noteq> (a_obj A' k = None))" "same_but k A A'"
  using flag_exactD [OF flag_after_purge [OF hset_flag] assms] by simp_all

lemma hincrby_flag: "flag_exact k (spec_hincrby k f delta now)"
  unfolding flag_exact_def
proof (intro allI impI)
  fix A r fl A' assume w: "spec_hincrby k f delta now A = (r, fl, A')"
  show "fl = ((a_obj A k = None) \<noteq> (a_obj A' k = None)) \<and> same_but k A A'"
    using w by (auto simp: spec_hincrby_def same_but_refl dest: hset_then_flag
        split: option.splits sum.splits prod.splits)
qed

lemma hincrbyfloat_flag: "flag_exact k (spec_hincrbyfloat k f delta now)"
  unfolding flag_exact_def
proof (intro allI impI)
  fix A r fl A' assume w: "spec_hincrbyfloat k f delta now A = (r, fl, A')"
  show "fl = ((a_obj A k = None) \<noteq> (a_obj A' k = None)) \<and> same_but k A A'"
    using w by (auto simp: spec_hincrbyfloat_def Let_def same_but_refl dest: hset_then_flag
        split: option.splits sum.splits prod.splits if_splits)
qed

interpretation hset: bucket_write E k "hset E k f v now" "\<lambda>A. spec_hset k f v (a_purge k now A)" for E k f v now
  by unfold_locales (simp_all add: hset_refines flag_after_purge hset_flag)

interpretation hset_create: bucket_create E k "hset_existing_or_wrongtype_hashed E (hash_key E k) k f v now"
  "hset_new_unchecked_hashed E (hash_key E k) k f v" "\<lambda>A. spec_hset k f v (a_purge k now A)" for E k f v now
proof (unfold_locales, goal_cases)
  case 1
  show ?case by (rule refines_create(1)) (rule hset_attempt [OF 1])
next
  case 2
  show ?case by (rule flag_after_purge) (rule hset_flag)
next
  case (3 b b')
  show ?case by (rule refines_create(2) [OF hset_attempt [OF 3(1)] 3(2,3)])
qed

definition spec_hset_many_at :: "bytes \<Rightarrow> (bytes \<times> bytes) list \<Rightarrow> u64 \<Rightarrow> write_spec" where
  "spec_hset_many_at k fvs now A =
     (if fvs = [] then (Integer 0, False, A) else spec_hset_many k fvs (a_purge k now A))"

lemma hset_many_refines:
  assumes E: "env_ok E"
  shows "refines E (hset_many E k fvs now) (spec_hset_many_at k fvs now)"
proof (cases "fvs = []")
  case True
  then show ?thesis by (auto intro!: refinesI simp: hset_many_def spec_hset_many_at_def)
next
  case False
  then show ?thesis
    using refines_after_purge [OF E hset_many_stored_refines [OF E False], of k now k]
    by (simp add: hset_many_def [abs_def] spec_hset_many_at_def [abs_def])
qed

lemma hset_many_at_flag: "flag_exact k (spec_hset_many_at k fvs now)"
  by (cases "fvs = []")
    (simp_all add: spec_hset_many_at_def [abs_def] flag_after_purge hset_many_flag, simp add: flag_exact_def same_but_refl)

interpretation hset_many: bucket_write E k "hset_many E k fvs now" "spec_hset_many_at k fvs now" for E k fvs now
  by unfold_locales (simp_all add: hset_many_refines hset_many_at_flag)

interpretation hdel_many: bucket_write E k "hdel_many E k fs now" "\<lambda>A. spec_hdel_many k (set fs) (a_purge k now A)"
  for E k fs now
  by unfold_locales
    (simp_all add: hdel_many_def [abs_def] refines_after_purge hdel_many_stored_refines flag_after_purge hdel_many_flag)

lemma hdel_many_one: "hdel E k f now = hdel_many E k [f] now"
  by (simp add: hdel_def [abs_def] hdel_many_def [abs_def] hdel_as_many)

interpretation hdel: bucket_write E k "hdel E k f now" "\<lambda>A. spec_hdel_many k {f} (a_purge k now A)" for E k f now
  unfolding hdel_many_one using hdel_many.bucket_write_axioms [where fs = "[f]"] by simp

interpretation hsetnx: bucket_write E k "hsetnx E k f v now" "\<lambda>A. spec_hsetnx k f v (a_purge k now A)" for E k f v now
  by unfold_locales
    (simp_all add: hsetnx_def [abs_def] refines_after_purge hsetnx_stored_refines flag_after_purge hsetnx_flag)

interpretation hincrby: bucket_write E k "hincrby E k f delta c1 c2" "\<lambda>A. spec_hincrby k f delta c2 (a_purge k c1 A)"
  for E k f delta c1 c2
  by unfold_locales
    (simp_all add: hincrby_def [abs_def] refines_after_purge hincrby_stored_refines flag_after_purge hincrby_flag)

interpretation hincrbyfloat: bucket_write E k "hincrbyfloat E k f delta c1 c2"
  "\<lambda>A. spec_hincrbyfloat k f delta c2 (a_purge k c1 A)" for E k f delta c1 c2
  by unfold_locales
    (simp_all add: hincrbyfloat_def [abs_def] refines_after_purge hincrbyfloat_stored_refines flag_after_purge
      hincrbyfloat_flag)

end
