(* ===== verification/BucketCore.thy ===== *)
theory BucketCore
  imports BucketHash
begin

text \<open>
  The commands of a bucket on keys of any kind (\<^verbatim>\<open>bucket_core.rs\<close>): deletion, key TTLs, copying a value
  out of and into a bucket, type names, and the enumerations of the live keys: \<^verbatim>\<open>keys\<close>, \<^verbatim>\<open>visit_keys\<close>,
  \<^verbatim>\<open>live_object_count\<close> and the cursor scan. A key is live when neither the object nor, for a hash, all of
  its fields have expired. All enumerations are shown to agree with the list of live keys.

  A visitor (\<^verbatim>\<open>FnMut(&[u8]) -> bool\<close>) is a function from its captured state and a key to its answer and
  its new state.
\<close>

section \<open>Deletion and TTLs\<close>

definition entry_expire_at :: "('h, 't) env \<Rightarrow> bytes \<Rightarrow> ('h, 't) bucket \<Rightarrow> u64 option option" where
  "entry_expire_at E key b = (if contains_object E b key then Some (map_of (expire_at_ms b) key) else None)"

definition contains_live_object :: "('h, 't) env \<Rightarrow> bytes \<Rightarrow> u64 \<Rightarrow> ('h, 't) bucket \<Rightarrow> bool option" where
  "contains_live_object E key now_ms b =
     (if object_is_expired b key now_ms then Some False
      else do {
        live \<leftarrow> hash_has_live_fields E b key now_ms;
        Some (live \<or> sm_contains_key E (lists b) key \<or> sm_contains_key E (sets b) key \<or> sm_contains_key E (zsets b) key)
      })"

definition delete_any :: "('h, 't) env \<Rightarrow> bytes \<Rightarrow> ('h, 't) bucket \<Rightarrow> bool \<times> ('h, 't) bucket" where
  "delete_any E key b =
     (case sm_remove E (hashes b) key of
        (Some slot, t) \<Rightarrow>
          (True, b\<lparr>hashes := t, hash_slab := snd (slab_remove (hash_slab b) slot),
                   expire_at_ms := hm_del key (expire_at_ms b),
                   hash_field_expire_at_ms := hm_del key (hash_field_expire_at_ms b)\<rparr>)
      | (None, t) \<Rightarrow> let b = b\<lparr>hashes := t\<rparr> in
     (case sm_remove E (lists b) key of
        (Some slot, t) \<Rightarrow>
          (True, b\<lparr>lists := t, list_slab := snd (slab_remove (list_slab b) slot), expire_at_ms := hm_del key (expire_at_ms b)\<rparr>)
      | (None, t) \<Rightarrow> let b = b\<lparr>lists := t\<rparr> in
     (case sm_remove E (sets b) key of
        (Some slot, t) \<Rightarrow>
          (True, b\<lparr>sets := t, set_slab := snd (slab_remove (set_slab b) slot), expire_at_ms := hm_del key (expire_at_ms b)\<rparr>)
      | (None, t) \<Rightarrow> let b = b\<lparr>sets := t\<rparr> in
     (case sm_remove E (zsets b) key of
        (Some slot, t) \<Rightarrow>
          (True, b\<lparr>zsets := t, zset_slab := snd (slab_remove (zset_slab b) slot), expire_at_ms := hm_del key (expire_at_ms b)\<rparr>)
      | (None, t) \<Rightarrow> (False, b\<lparr>zsets := t\<rparr>)))))"

definition delete_expired :: "('h, 't) env \<Rightarrow> bytes \<Rightarrow> u64 \<Rightarrow> ('h, 't) bucket \<Rightarrow> bool \<times> ('h, 't) bucket" where
  "delete_expired E key now_ms b = (if object_is_expired b key now_ms then delete_any E key b else (False, b))"

definition expire :: "('h, 't) env \<Rightarrow> bytes \<Rightarrow> u64 \<Rightarrow> u64 \<Rightarrow> ('h, 't) bucket \<Rightarrow> bool \<times> ('h, 't) bucket" where
  "expire E key at_ms now_ms b =
     (let (gone, b1) = delete_expired E key now_ms b
      in if gone then (False, b1)
         else if contains_object E b1 key then (True, b1\<lparr>expire_at_ms := hm_put key at_ms (expire_at_ms b1)\<rparr>)
         else (False, b1))"

definition persist :: "('h, 't) env \<Rightarrow> bytes \<Rightarrow> u64 \<Rightarrow> ('h, 't) bucket \<Rightarrow> bool \<times> ('h, 't) bucket" where
  "persist E key now_ms b =
     (let (gone, b1) = delete_expired E key now_ms b
      in if gone then (False, b1)
         else let (old, ex) = hm_remove key (expire_at_ms b1) in (old \<noteq> None, b1\<lparr>expire_at_ms := ex\<rparr>))"

definition ttl_millis :: "('h, 't) env \<Rightarrow> bytes \<Rightarrow> u64 \<Rightarrow> ('h, 't) bucket \<Rightarrow> (int \<times> ('h, 't) bucket) option" where
  "ttl_millis E key now_ms b =
     (let (gone, b1) = delete_expired E key now_ms b
      in if gone then Some (- 2, b1)
         else do {
           (reaped, b2) \<leftarrow> remove_expired_hash_if_empty E b1 key now_ms;
           if reaped then Some (- 2, b2)
           else if \<not> contains_object E b2 key then Some (- 2, b2)
           else Some (case map_of (expire_at_ms b2) key of
                        None \<Rightarrow> - 1
                      | Some at_ms \<Rightarrow> u64_as_i64 (saturating_sub at_ms now_ms), b2)
         })"

section \<open>Values\<close>

definition clone_value ::
  "('h, 't) env \<Rightarrow> bytes \<Rightarrow> u64 \<Rightarrow> u64 \<Rightarrow> ('h, 't) bucket \<Rightarrow> redis_object_value option option" where
  "clone_value E key now_ms clock b =
     (case sm_get E (hashes b) key of
        Some slot \<Rightarrow> do {
          live \<leftarrow> hash_has_live_fields E b key now_ms;
          if \<not> live then Some None
          else do {
            h \<leftarrow> slab_get (hash_slab b) slot;
            Some (Some (HashValue (filter (\<lambda>entry.
              case hash_field_now_ms_for b key clock of
                Some now \<Rightarrow> \<not> hash_field_is_expired b key (fst entry) now
              | None \<Rightarrow> True) (hash_entries E h))))
          }
        }
      | None \<Rightarrow>
     (case sm_get E (lists b) key of
        Some slot \<Rightarrow> do { l \<leftarrow> slab_get (list_slab b) slot; Some (Some (ListValue (list_iter l))) }
      | None \<Rightarrow>
     (case sm_get E (sets b) key of
        Some slot \<Rightarrow> do { s \<leftarrow> slab_get (set_slab b) slot; Some (Some (SetValue (set_iter E s))) }
      | None \<Rightarrow>
     (case sm_get E (zsets b) key of
        Some slot \<Rightarrow> do { z \<leftarrow> slab_get (zset_slab b) slot; Some (Some (ZSetValue (zset_entries E z))) }
      | None \<Rightarrow> Some None))))"

definition insert_value ::
  "('h, 't) env \<Rightarrow> bytes \<Rightarrow> redis_object_value \<Rightarrow> ('h, 't) bucket \<Rightarrow> (bool \<times> ('h, 't) bucket) option" where
  "insert_value E key v b =
     (let (existed, b1) = delete_any E key b
      in do {
        b2 \<leftarrow> (case v of
            HashValue es \<Rightarrow> do {
              (_, h) \<leftarrow> insert_each (\<lambda>h f x. Some (hash_insert_slice h f x)) (hash_map_with_capacity (length es)) es;
              new_hash E b1 (hash_key E key) key h
            }
          | ListValue es \<Rightarrow> do { l \<leftarrow> list_from_vec es; new_list E b1 (hash_key E key) key l }
          | SetValue es \<Rightarrow> new_set E b1 (hash_key E key) key (snd (set_insert_many set_empty es))
          | ZSetValue es \<Rightarrow> do {
              (_, z) \<leftarrow> insert_each (zset_insert_slice E) (zset_map_with_capacity E (length es)) es;
              new_zset E b1 (hash_key E key) key z
            });
        Some (\<not> existed, b2)
      })"

definition type_name :: "('h, 't) env \<Rightarrow> bytes \<Rightarrow> u64 \<Rightarrow> ('h, 't) bucket \<Rightarrow> string option option" where
  "type_name E key now_ms b = do {
     live \<leftarrow> hash_has_live_fields E b key now_ms;
     Some (if live then Some ''hash''
           else if sm_contains_key E (lists b) key then Some ''list''
           else if sm_contains_key E (sets b) key then Some ''set''
           else if sm_contains_key E (zsets b) key then Some ''zset''
           else None)
   }"

definition encoding :: "('h, 't) env \<Rightarrow> bytes \<Rightarrow> u64 \<Rightarrow> ('h, 't) bucket \<Rightarrow> string option option" where
  "encoding E key now_ms b = do {
     live \<leftarrow> hash_has_live_fields E b key now_ms;
     Some (if live \<or> \<not> sm_contains_key E (lists b) key \<and> sm_contains_key E (sets b) key then Some ''hashtable''
           else if sm_contains_key E (lists b) key then Some ''quicklist''
           else if sm_contains_key E (zsets b) key then Some ''skiplist''
           else None)
   }"

section \<open>Enumerations of the live keys\<close>

text \<open>\<^verbatim>\<open>filter\<close> with a predicate that may panic.\<close>

fun filter_opt :: "('a \<Rightarrow> bool option) \<Rightarrow> 'a list \<Rightarrow> 'a list option" where
  "filter_opt p [] = Some []"
| "filter_opt p (x # xs) = do {
     keep \<leftarrow> p x;
     ys \<leftarrow> filter_opt p xs;
     Some (if keep then x # ys else ys)
   }"

definition unexpired :: "('h, 't) bucket \<Rightarrow> u64 \<Rightarrow> bytes list \<Rightarrow> bytes list" where
  "unexpired b now_ms = filter (\<lambda>key. \<not> object_is_expired b key now_ms)"

definition live_hash_keys :: "('h, 't) env \<Rightarrow> u64 \<Rightarrow> ('h, 't) bucket \<Rightarrow> bytes list option" where
  "live_hash_keys E now_ms b =
     filter_opt (\<lambda>key. hash_has_live_fields E b key now_ms) (unexpired b now_ms (sm_keys E (hashes b)))"

definition keys_with_type ::
  "('h, 't) env \<Rightarrow> (bytes \<times> string) list \<Rightarrow> u64 \<Rightarrow> ('h, 't) bucket \<Rightarrow> (bytes \<times> string) list option" where
  "keys_with_type E out now_ms b = do {
     hs \<leftarrow> live_hash_keys E now_ms b;
     Some (out @ map (\<lambda>key. (key, ''hash'')) hs
       @ map (\<lambda>key. (key, ''list'')) (unexpired b now_ms (sm_keys E (lists b)))
       @ map (\<lambda>key. (key, ''set'')) (unexpired b now_ms (sm_keys E (sets b)))
       @ map (\<lambda>key. (key, ''zset'')) (unexpired b now_ms (sm_keys E (zsets b))))
   }"

definition bucket_keys :: "('h, 't) env \<Rightarrow> bytes list \<Rightarrow> u64 \<Rightarrow> ('h, 't) bucket \<Rightarrow> bytes list option" where
  "bucket_keys E out now_ms b = do {
     hs \<leftarrow> live_hash_keys E now_ms b;
     Some (out @ hs @ unexpired b now_ms (sm_keys E (lists b)) @ unexpired b now_ms (sm_keys E (sets b))
       @ unexpired b now_ms (sm_keys E (zsets b)))
   }"

definition bucket_live_object_count :: "('h, 't) env \<Rightarrow> u64 \<Rightarrow> ('h, 't) bucket \<Rightarrow> nat option" where
  "bucket_live_object_count E now_ms b =
     (if expire_at_ms b = [] \<and> hash_field_expire_at_ms b = []
      then Some (sm_len E (hashes b) + sm_len E (lists b) + sm_len E (sets b) + sm_len E (zsets b))
      else do {
        hs \<leftarrow> live_hash_keys E now_ms b;
        if expire_at_ms b = []
        then Some (length hs + sm_len E (lists b) + sm_len E (sets b) + sm_len E (zsets b))
        else Some (length hs + length (unexpired b now_ms (sm_keys E (lists b)))
          + length (unexpired b now_ms (sm_keys E (sets b))) + length (unexpired b now_ms (sm_keys E (zsets b))))
      })"

type_synonym 's visitor = "'s \<Rightarrow> bytes \<Rightarrow> bool \<times> 's"

fun visit_key_iter :: "'s visitor \<Rightarrow> bytes list \<Rightarrow> 's \<Rightarrow> bool \<times> 's" where
  "visit_key_iter visitor [] s = (True, s)"
| "visit_key_iter visitor (key # keys) s =
     (let (go, s') = visitor s key in if go then visit_key_iter visitor keys s' else (False, s'))"

fun visit_live_hash_key_iter ::
  "('h, 't) env \<Rightarrow> u64 \<Rightarrow> ('h, 't) bucket \<Rightarrow> 's visitor \<Rightarrow> bytes list \<Rightarrow> 's \<Rightarrow> (bool \<times> 's) option" where
  "visit_live_hash_key_iter E now_ms b visitor [] s = Some (True, s)"
| "visit_live_hash_key_iter E now_ms b visitor (key # keys) s = do {
     live \<leftarrow> hash_has_live_fields E b key now_ms;
     if live
     then let (go, s') = visitor s key
          in if go then visit_live_hash_key_iter E now_ms b visitor keys s' else Some (False, s')
     else visit_live_hash_key_iter E now_ms b visitor keys s
   }"

fun visit_unexpired_key_iter :: "u64 \<Rightarrow> ('h, 't) bucket \<Rightarrow> 's visitor \<Rightarrow> bytes list \<Rightarrow> 's \<Rightarrow> bool \<times> 's" where
  "visit_unexpired_key_iter now_ms b visitor [] s = (True, s)"
| "visit_unexpired_key_iter now_ms b visitor (key # keys) s =
     (if \<not> object_is_expired b key now_ms
      then let (go, s') = visitor s key
           in if go then visit_unexpired_key_iter now_ms b visitor keys s' else (False, s')
      else visit_unexpired_key_iter now_ms b visitor keys s)"

fun visit_unexpired_live_hash_key_iter ::
  "('h, 't) env \<Rightarrow> u64 \<Rightarrow> ('h, 't) bucket \<Rightarrow> 's visitor \<Rightarrow> bytes list \<Rightarrow> 's \<Rightarrow> (bool \<times> 's) option" where
  "visit_unexpired_live_hash_key_iter E now_ms b visitor [] s = Some (True, s)"
| "visit_unexpired_live_hash_key_iter E now_ms b visitor (key # keys) s =
     (if \<not> object_is_expired b key now_ms
      then do {
        live \<leftarrow> hash_has_live_fields E b key now_ms;
        if live
        then let (go, s') = visitor s key
             in if go then visit_unexpired_live_hash_key_iter E now_ms b visitor keys s' else Some (False, s')
        else visit_unexpired_live_hash_key_iter E now_ms b visitor keys s
      }
      else visit_unexpired_live_hash_key_iter E now_ms b visitor keys s)"

text \<open>\<^verbatim>\<open>&&\<close> of two visits.\<close>

definition and_visit :: "bool \<times> 's \<Rightarrow> ('s \<Rightarrow> bool \<times> 's) \<Rightarrow> bool \<times> 's" where
  "and_visit r f = (if fst r then f (snd r) else r)"

definition bucket_visit_keys :: "('h, 't) env \<Rightarrow> u64 \<Rightarrow> 's visitor \<Rightarrow> 's \<Rightarrow> ('h, 't) bucket \<Rightarrow> (bool \<times> 's) option" where
  "bucket_visit_keys E now_ms visitor s b =
     (if \<not> has_expirations b
      then do {
        r \<leftarrow> visit_live_hash_key_iter E now_ms b visitor (sm_keys E (hashes b)) s;
        Some (and_visit (and_visit (and_visit r
          (visit_key_iter visitor (sm_keys E (lists b))))
          (visit_key_iter visitor (sm_keys E (sets b))))
          (visit_key_iter visitor (sm_keys E (zsets b))))
      }
      else do {
        r \<leftarrow> visit_unexpired_live_hash_key_iter E now_ms b visitor (sm_keys E (hashes b)) s;
        Some (and_visit (and_visit (and_visit r
          (visit_unexpired_key_iter now_ms b visitor (sm_keys E (lists b))))
          (visit_unexpired_key_iter now_ms b visitor (sm_keys E (sets b))))
          (visit_unexpired_key_iter now_ms b visitor (sm_keys E (zsets b))))
      })"

section \<open>The cursor scan\<close>

text \<open>The counters that the scan updates through references, and the visitor's state.\<close>

record 's scan =
  position_of :: nat
  visited :: nat
  emitted :: nat
  vstate :: 's

text \<open>The rest of the loop body once the key is known to be live: \<open>Some\<close> cursor stops the scan.\<close>

definition scan_step :: "'s visitor \<Rightarrow> nat \<Rightarrow> nat \<Rightarrow> bytes \<Rightarrow> 's scan \<Rightarrow> nat option \<times> 's scan" where
  "scan_step visitor cursor_offset limit key st =
     (if position_of st < cursor_offset then (None, st\<lparr>position_of := position_of st + 1\<rparr>)
      else let (hit, s') = visitor (vstate st) key;
               st' = \<lparr>position_of = position_of st + 1, visited = min (visited st + 1) USIZE_MAX,
                      emitted = (if hit then min (emitted st + 1) USIZE_MAX else emitted st), vstate = s'\<rparr>
           in (if limit \<le> visited st' then Some (position_of st') else None, st'))"

fun scan_key_iter_no_expiration ::
  "('h, 't) env \<Rightarrow> u64 \<Rightarrow> ('h, 't) bucket \<Rightarrow> 's visitor \<Rightarrow> nat \<Rightarrow> nat \<Rightarrow> bool \<Rightarrow> bytes list \<Rightarrow> 's scan \<Rightarrow>
   (nat option \<times> 's scan) option" where
  "scan_key_iter_no_expiration E now_ms b visitor cursor_offset limit hash_keys [] st = Some (None, st)"
| "scan_key_iter_no_expiration E now_ms b visitor cursor_offset limit hash_keys (key # keys) st = do {
     live \<leftarrow> (if hash_keys then hash_has_live_fields E b key now_ms else Some True);
     if \<not> live then scan_key_iter_no_expiration E now_ms b visitor cursor_offset limit hash_keys keys st
     else case scan_step visitor cursor_offset limit key st of
            (Some stop, st') \<Rightarrow> Some (Some stop, st')
          | (None, st') \<Rightarrow> scan_key_iter_no_expiration E now_ms b visitor cursor_offset limit hash_keys keys st'
   }"

fun scan_key_iter_expiring ::
  "('h, 't) env \<Rightarrow> u64 \<Rightarrow> ('h, 't) bucket \<Rightarrow> 's visitor \<Rightarrow> nat \<Rightarrow> nat \<Rightarrow> bool \<Rightarrow> bytes list \<Rightarrow> 's scan \<Rightarrow>
   (nat option \<times> 's scan) option" where
  "scan_key_iter_expiring E now_ms b visitor cursor_offset limit hash_keys [] st = Some (None, st)"
| "scan_key_iter_expiring E now_ms b visitor cursor_offset limit hash_keys (key # keys) st =
     (if object_is_expired b key now_ms
      then scan_key_iter_expiring E now_ms b visitor cursor_offset limit hash_keys keys st
      else do {
        live \<leftarrow> (if hash_keys then hash_has_live_fields E b key now_ms else Some True);
        if \<not> live then scan_key_iter_expiring E now_ms b visitor cursor_offset limit hash_keys keys st
        else case scan_step visitor cursor_offset limit key st of
               (Some stop, st') \<Rightarrow> Some (Some stop, st')
             | (None, st') \<Rightarrow> scan_key_iter_expiring E now_ms b visitor cursor_offset limit hash_keys keys st'
      })"

definition scan_key_iter ::
  "('h, 't) env \<Rightarrow> u64 \<Rightarrow> ('h, 't) bucket \<Rightarrow> 's visitor \<Rightarrow> nat \<Rightarrow> nat \<Rightarrow> bool \<Rightarrow> bytes list \<Rightarrow> 's scan \<Rightarrow>
   (nat option \<times> 's scan) option" where
  "scan_key_iter E now_ms b visitor cursor_offset limit hash_keys keys st =
     (if \<not> has_expirations b
      then scan_key_iter_no_expiration E now_ms b visitor cursor_offset limit hash_keys keys st
      else scan_key_iter_expiring E now_ms b visitor cursor_offset limit hash_keys keys st)"

definition eq_ignore_ascii_case :: "bytes \<Rightarrow> bytes \<Rightarrow> bool" where
  "eq_ignore_ascii_case xs ys \<longleftrightarrow> map lower_ascii xs = map lower_ascii ys"

text \<open>\<^verbatim>\<open>if let Some(offset) = scan { return Some(offset) }\<close>, then the next scan.\<close>

definition or_scan ::
  "(nat option \<times> 's scan) option \<Rightarrow> ('s scan \<Rightarrow> (nat option \<times> 's scan) option) \<Rightarrow> (nat option \<times> 's scan) option" where
  "or_scan r f = do { (stop, st) \<leftarrow> r; if stop \<noteq> None then Some (stop, st) else f st }"

definition scan_keys_visit ::
  "('h, 't) env \<Rightarrow> u64 \<Rightarrow> bytes option \<Rightarrow> 's visitor \<Rightarrow> nat \<Rightarrow> nat \<Rightarrow> 's scan \<Rightarrow> ('h, 't) bucket \<Rightarrow>
   (nat option \<times> 's scan) option" where
  "scan_keys_visit E now_ms type_filter visitor cursor_offset limit st b =
     (let hash_scan = scan_key_iter E now_ms b visitor cursor_offset limit True (sm_keys E (hashes b));
          scan_of = (\<lambda>t. scan_key_iter E now_ms b visitor cursor_offset limit False (sm_keys E t))
      in case type_filter of
           Some kind \<Rightarrow>
             if eq_ignore_ascii_case kind (ascii ''hash'') then hash_scan st
             else if eq_ignore_ascii_case kind (ascii ''list'') then scan_of (lists b) st
             else if eq_ignore_ascii_case kind (ascii ''set'') then scan_of (sets b) st
             else if eq_ignore_ascii_case kind (ascii ''zset'') then scan_of (zsets b) st
             else Some (None, st)
         | None \<Rightarrow> or_scan (or_scan (or_scan (hash_scan st) (scan_of (lists b))) (scan_of (sets b))) (scan_of (zsets b)))"

section \<open>Deletion and TTLs: laws\<close>

definition a_expired :: "astate \<Rightarrow> bytes \<Rightarrow> u64 \<Rightarrow> bool" where
  "a_expired A k now \<longleftrightarrow> (case a_ttl A k of None \<Rightarrow> False | Some t \<Rightarrow> t \<le> now)"

text \<open>The state once an expired object is gone.\<close>

definition a_drop :: "bytes \<Rightarrow> u64 \<Rightarrow> astate \<Rightarrow> astate" where
  "a_drop k now A = (if a_expired A k now then a_del k A else A)"

lemma object_is_expired_abs: "object_is_expired b k now \<longleftrightarrow> a_expired (bucket_abs E b) k now"
  by (simp add: object_is_expired_def a_expired_def)

lemma a_expired_obj: "bucket_inv E b \<Longrightarrow> a_expired (bucket_abs E b) k now \<Longrightarrow> a_obj (bucket_abs E b) k \<noteq> None"
  using key_inv_none(5) [of E b k] by (auto simp: a_expired_def split: option.splits)

lemma a_del_none:
  assumes "bucket_inv E b" "a_obj (bucket_abs E b) k = None"
  shows "a_del k (bucket_abs E b) = bucket_abs E b"
  using key_inv_none [OF assms] assms(2) by (simp add: a_del_def fun_upd_idem)

lemma sm_remove_eq:
  assumes E: "env_ok E" and t: "slotmap_ok E t"
  shows "sm_map E t k = None \<Longrightarrow> sm_remove E t k = (None, t)"
    "sm_map E t k = Some i \<Longrightarrow> \<exists>t'. sm_remove E t k = (Some i, t')"
proof -
  note fst_rem = sm_remove_map(1) [OF E t, of k]
  show "sm_remove E t k = (None, t)" if "sm_map E t k = None"
    using fst_rem that by (auto simp: sm_remove_def sm_remove_hashed_def split: option.splits)
  show "\<exists>t'. sm_remove E t k = (Some i, t')" if "sm_map E t k = Some i"
    using fst_rem that by (metis prod.collapse)
qed

lemma delete_any_law:
  assumes E: "env_ok E" and b: "bucket_inv E b"
  shows "\<exists>b'. delete_any E k b = (a_obj (bucket_abs E b) k \<noteq> None, b') \<and> bucket_inv E b' \<and>
    bucket_abs E b' = a_del k (bucket_abs E b)"
proof -
  note sm = slotmaps_ok [OF b] and tab = sm_tab [OF E b, of k]
  note rem = sm_remove_eq [OF E sm(1), of k] sm_remove_eq [OF E sm(2), of k] sm_remove_eq [OF E sm(3), of k]
    sm_remove_eq [OF E sm(4), of k]
  show ?thesis
    using b
  proof (cases rule: a_obj_cases [where k = k])
    case none
    with tab a_del_none [OF b none(1)] b show ?thesis by (simp add: delete_any_def rem(1,3,5,7))
  next
    case (hash h)
    then obtain i where "sm_map E (hashes b) k = Some i" using tab by auto
    with hash hash_delete [OF E b this] rem(2) show ?thesis by (auto simp: delete_any_def remove_hash_slot_def)
  next
    case (list l)
    then obtain i where "sm_map E (lists b) k = Some i" "sm_map E (hashes b) k = None" using tab by auto
    with list list_delete [OF E b this(1)] rem(4) show ?thesis by (auto simp: delete_any_def rem(1) drop_list_def)
  next
    case (set s)
    then obtain i where "sm_map E (sets b) k = Some i" "sm_map E (hashes b) k = None" "sm_map E (lists b) k = None"
      using tab by auto
    with set set_delete [OF E b this(1)] rem(6) show ?thesis by (auto simp: delete_any_def rem(1,3) drop_set_def)
  next
    case (zset z)
    then obtain i where "sm_map E (zsets b) k = Some i" "sm_map E (hashes b) k = None" "sm_map E (lists b) k = None"
      "sm_map E (sets b) k = None" using tab by auto
    with zset zset_delete [OF E b this(1)] rem(8) show ?thesis by (auto simp: delete_any_def rem(1,3,5) drop_zset_def)
  qed
qed

lemma delete_expired_law:
  assumes E: "env_ok E" and b: "bucket_inv E b"
  shows "\<exists>b'. delete_expired E k now b = (a_expired (bucket_abs E b) k now, b') \<and> bucket_inv E b' \<and>
    bucket_abs E b' = a_drop k now (bucket_abs E b)"
  using delete_any_law [OF E b, of k] a_expired_obj [OF b, of k now] b
  by (auto simp: delete_expired_def object_is_expired_abs [of b k now E] a_drop_def)

text \<open>Changing the TTL of an object.\<close>

lemma set_key_ttl:
  assumes E: "env_ok E" and b: "bucket_inv E b" and ex: "ttl_maps_ok ex (hash_field_expire_at_ms b)"
    "map_of ex = (map_of (expire_at_ms b))(k := ttl)" "ttl \<noteq> None \<Longrightarrow> a_obj (bucket_abs E b) k \<noteq> None"
  shows "bucket_inv E (b\<lparr>expire_at_ms := ex\<rparr>) \<and>
    bucket_abs E (b\<lparr>expire_at_ms := ex\<rparr>) = (bucket_abs E b)\<lparr>a_ttl := (a_ttl (bucket_abs E b))(k := ttl)\<rparr>"
proof
  have "key_inv E (hash_tab E b k') (list_tab E b k') (set_tab E b k') (zset_tab E b k') (map_of ex k')
      (fttl (hash_field_expire_at_ms b) k')" for k'
    using bucket_invD(6) [OF b, of k'] ex(2,3)
    by (auto simp: key_inv_def bucket_abs_def obj_of_def split: option.splits)
  with ex(1) bucket_invD(1-4) [OF b] show "bucket_inv E (b\<lparr>expire_at_ms := ex\<rparr>)"
    by (simp add: bucket_inv_def tab_defs)
  show "bucket_abs E (b\<lparr>expire_at_ms := ex\<rparr>) = (bucket_abs E b)\<lparr>a_ttl := (a_ttl (bucket_abs E b))(k := ttl)\<rparr>"
    by (simp add: bucket_abs_def tab_defs ex(2))
qed

definition spec_expire :: "bytes \<Rightarrow> u64 \<Rightarrow> u64 \<Rightarrow> astate \<Rightarrow> bool \<times> astate" where
  "spec_expire k t now A =
     (if a_expired A k now then (False, a_del k A)
      else if a_obj A k = None then (False, A)
      else (True, A\<lparr>a_ttl := (a_ttl A)(k \<mapsto> t)\<rparr>))"

lemma expire_law:
  assumes E: "env_ok E" and b: "bucket_inv E b"
  shows "\<exists>r b'. expire E k t now b = (r, b') \<and> bucket_inv E b' \<and> spec_expire k t now (bucket_abs E b) = (r, bucket_abs E b')"
proof -
  from delete_expired_law [OF E b] obtain b1 where b1: "delete_expired E k now b = (a_expired (bucket_abs E b) k now, b1)"
    "bucket_inv E b1" "bucket_abs E b1 = a_drop k now (bucket_abs E b)" by blast
  have "ttl_maps_ok (hm_put k t (expire_at_ms b1)) (hash_field_expire_at_ms b1)"
    using bucket_invD(5) [OF b1(2)] by (simp add: ttl_maps_ok_def hm_insert_def distinct_update)
  from set_key_ttl [OF E b1(2) this, of k "Some t"] b1 show ?thesis
    by (auto simp: expire_def spec_expire_def a_drop_def type_tests(1) [OF E b1(2)] hm_insert_def update_conv'
        simp del: a_ttl_abs split: if_splits)
qed

definition spec_persist :: "bytes \<Rightarrow> u64 \<Rightarrow> astate \<Rightarrow> bool \<times> astate" where
  "spec_persist k now A =
     (if a_expired A k now then (False, a_del k A) else (a_ttl A k \<noteq> None, A\<lparr>a_ttl := (a_ttl A)(k := None)\<rparr>))"

lemma persist_law:
  assumes E: "env_ok E" and b: "bucket_inv E b"
  shows "\<exists>r b'. persist E k now b = (r, b') \<and> bucket_inv E b' \<and> spec_persist k now (bucket_abs E b) = (r, bucket_abs E b')"
proof -
  from delete_expired_law [OF E b] obtain b1 where b1: "delete_expired E k now b = (a_expired (bucket_abs E b) k now, b1)"
    "bucket_inv E b1" "bucket_abs E b1 = a_drop k now (bucket_abs E b)" by blast
  from set_key_ttl [OF E b1(2) ttl_del(1,2) [OF bucket_invD(5) [OF b1(2)], of k]] b1 show ?thesis
    by (auto simp: persist_def spec_persist_def a_drop_def hm_remove_def a_ttl_abs [of E b1, symmetric]
        simp del: a_ttl_abs split: if_splits)
qed

definition spec_ttl_millis :: "bytes \<Rightarrow> u64 \<Rightarrow> astate \<Rightarrow> int \<times> astate" where
  "spec_ttl_millis k now A =
     (if a_expired A k now then (- 2, a_del k A)
      else let A1 = snd (a_reap k now A)
           in (if a_obj A1 k = None then - 2
               else case a_ttl A1 k of None \<Rightarrow> - 1 | Some t \<Rightarrow> u64_as_i64 (saturating_sub t now), A1))"

lemma a_reap_gone: "fst (a_reap k now A) \<Longrightarrow> a_obj (snd (a_reap k now A)) k = None"
  by (auto simp: a_reap_def Let_def split: if_splits)

lemma ttl_millis_law:
  assumes E: "env_ok E" and b: "bucket_inv E b"
  shows "\<exists>r b'. ttl_millis E k now b = Some (r, b') \<and> bucket_inv E b' \<and>
    spec_ttl_millis k now (bucket_abs E b) = (r, bucket_abs E b')"
proof -
  from delete_expired_law [OF E b] obtain b1 where b1: "delete_expired E k now b = (a_expired (bucket_abs E b) k now, b1)"
    "bucket_inv E b1" "bucket_abs E b1 = a_drop k now (bucket_abs E b)" by blast
  show ?thesis
  proof (cases "a_expired (bucket_abs E b) k now")
    case True
    with b1 show ?thesis by (simp add: ttl_millis_def spec_ttl_millis_def a_drop_def)
  next
    case False
    from remove_expired_if_empty_law [OF E b1(2), of k now] obtain b2 where
      b2: "remove_expired_hash_if_empty E b1 k now = Some (fst (a_reap k now (bucket_abs E b)), b2)" "bucket_inv E b2"
        "bucket_abs E b2 = snd (a_reap k now (bucket_abs E b))" using b1(3) False by (auto simp: a_drop_def)
    have ttl: "map_of (expire_at_ms b2) = a_ttl (snd (a_reap k now (bucket_abs E b)))" by (simp flip: b2(3))
    from b1 b2 False a_reap_gone [of k now "bucket_abs E b"] show ?thesis
      by (auto simp: ttl_millis_def spec_ttl_millis_def type_tests(1) [OF E b2(2)] ttl Let_def)
  qed
qed

section \<open>Values: laws\<close>

text \<open>The object that a value stands for; a later entry of a field or member wins.\<close>

fun value_obj :: "redis_object_value \<Rightarrow> robj" where
  "value_obj (HashValue es) = OHash (map_of (rev es))"
| "value_obj (ListValue xs) = OList xs"
| "value_obj (SetValue xs) = OSet (set xs)"
| "value_obj (ZSetValue es) = OZSet (map_of (rev es))"

text \<open>A stored list, set or sorted set is never empty.\<close>

fun value_nonempty :: "redis_object_value \<Rightarrow> bool" where
  "value_nonempty (HashValue es) = True"
| "value_nonempty (ListValue xs) \<longleftrightarrow> xs \<noteq> []"
| "value_nonempty (SetValue xs) \<longleftrightarrow> xs \<noteq> []"
| "value_nonempty (ZSetValue es) \<longleftrightarrow> es \<noteq> []"

lemma insert_value_law:
  assumes E: "env_ok E" and b: "bucket_inv E b" and v: "value_nonempty v"
  shows "\<exists>b'. insert_value E k v b = Some (a_obj (bucket_abs E b) k = None, b') \<and> bucket_inv E b' \<and>
    bucket_abs E b' = a_put k (value_obj v) (a_del k (bucket_abs E b))"
proof -
  from delete_any_law [OF E b] obtain b1 where b1: "delete_any E k b = (a_obj (bucket_abs E b) k \<noteq> None, b1)"
    "bucket_inv E b1" "bucket_abs E b1 = a_del k (bucket_abs E b)" by blast
  then have k: "a_obj (bucket_abs E b1) k = None" by simp
  show ?thesis
  proof (cases v)
    case (HashValue es)
    from ho.insert_each_empty [of "hash_map_with_capacity (length es)" es] hash_capacity_law obtain n h where
      h: "insert_each (\<lambda>h f v. Some (hash_insert_slice h f v)) (hash_map_with_capacity (length es)) es = Some (n, h)"
        "hash_ok h" "hash_get h = map_of (rev es)" by metis
    from hash_create [OF E b1(2) k h(2)] h b1(1,3) HashValue show ?thesis by (auto simp: insert_value_def)
  next
    case (ListValue xs)
    from list_from_vec_rep [of xs] obtain l where l: "list_from_vec xs = Some l" "list_rep l xs" by blast
    from list_create [OF E b1(2) k l(2)] l(1) v b1(1,3) ListValue show ?thesis by (auto simp: insert_value_def)
  next
    case (SetValue xs)
    obtain n s where s: "set_insert_many set_empty xs = (n, s)" by (metis prod.exhaust)
    with set_insert_many_law [of set_empty xs] set_empty_law have ok: "set_ok s" "dom (set_view s) = set xs" by auto
    with v SetValue have "set_view s \<noteq> Map.empty" by auto
    from set_create [OF E b1(2) k ok(1) this] s ok(2) b1(1,3) SetValue show ?thesis by (auto simp: insert_value_def)
  next
    case (ZSetValue es)
    from zo.insert_each_empty [of E "zset_map_with_capacity E (length es)" es] zset_capacity_law [OF E] E obtain n z where
      z: "insert_each (zset_insert_slice E) (zset_map_with_capacity E (length es)) es = Some (n, z)"
        "zset_ok E z" "zset_score z = map_of (rev es)" by metis
    have "map_of (rev es) \<noteq> Map.empty" using v ZSetValue by (simp add: map_of_eq_empty_iff)
    with zset_create [OF E b1(2) k z(2)] z b1(1,3) ZSetValue show ?thesis by (auto simp: insert_value_def)
  qed
qed

definition spec_clone :: "bytes \<Rightarrow> u64 \<Rightarrow> u64 \<Rightarrow> astate \<Rightarrow> robj option" where
  "spec_clone k now clock A =
     (case a_obj A k of
        Some (OHash m) \<Rightarrow> if a_live A k now = Map.empty then None else Some (OHash (a_live A k clock))
      | ob \<Rightarrow> ob)"

lemma clone_value_law:
  assumes E: "env_ok E" and b: "bucket_inv E b"
  shows "\<exists>ov. clone_value E k now clock b = Some ov \<and> map_option value_obj ov = spec_clone k now clock (bucket_abs E b) \<and>
    (\<forall>v. ov = Some v \<longrightarrow> value_nonempty v)"
proof -
  note sm = slotmaps_ok [OF b] and tab = sm_tab [OF E b, of k]
  note get = sm_get_map [OF E sm(1), of k] sm_get_map [OF E sm(2), of k] sm_get_map [OF E sm(3), of k]
    sm_get_map [OF E sm(4), of k]
  show ?thesis
    using b
  proof (cases rule: a_obj_cases [where k = k])
    case none
    with tab show ?thesis by (simp add: clone_value_def get spec_clone_def)
  next
    case (hash h)
    then obtain i where i: "sm_map E (hashes b) k = Some i" using tab by auto
    have h: "slab_get (hash_slab b) i = Some h" using hash_slot [OF E b i] hash(2) by (metis option.inject)
    let ?m = "hash_get h |` (- a_dead (bucket_abs E b) k clock)"
    have live: "a_live (bucket_abs E b) k clock = ?m" by (rule a_live_hash [OF hash(1)])
    have "filter (\<lambda>e. case hash_field_now_ms_for b k clock of
        Some now \<Rightarrow> \<not> hash_field_is_expired b k (fst e) now | None \<Rightarrow> True) (hash_entries E h) = live_entries ?m"
      by (rule live_filter(2) [OF E hash(6)]) (rule now_ms_for_law [OF b])
    moreover have "map_of (rev (live_entries ?m)) = ?m"
    proof -
      have "finite (dom ?m)" using finite_hash [of h] by simp
      with live_entries_lists show ?thesis by (auto simp: lists_entries_def map_of_rev_distinct)
    qed
    ultimately show ?thesis
      using i h by (auto simp: clone_value_def get spec_clone_def has_live_law [OF E b] hash(1) live)
  next
    case (list l)
    then obtain i where i: "sm_map E (lists b) k = Some i" "sm_map E (hashes b) k = None" using tab by auto
    have "slab_get (list_slab b) i = Some l" using list_slot [OF E b i(1)] list(2) by (metis option.inject)
    with i list show ?thesis by (simp add: clone_value_def get spec_clone_def)
  next
    case (set s)
    then obtain i where i: "sm_map E (sets b) k = Some i" "sm_map E (hashes b) k = None" "sm_map E (lists b) k = None"
      using tab by auto
    have "slab_get (set_slab b) i = Some s" using set_slot [OF E b i(1)] set(2) by (metis option.inject)
    moreover have "set_iter E s \<noteq> []" using set_iter_members(1) [OF E set(6)] set(7) by (metis dom_eq_empty_conv set_empty)
    ultimately show ?thesis using i set set_iter_members(1) [OF E set(6)] by (simp add: clone_value_def get spec_clone_def)
  next
    case (zset z)
    then obtain i where i: "sm_map E (zsets b) k = Some i" "sm_map E (hashes b) k = None" "sm_map E (lists b) k = None"
      "sm_map E (sets b) k = None" using tab by auto
    have "slab_get (zset_slab b) i = Some z" using zset_slot [OF E b i(1)] zset(2) by (metis option.inject)
    moreover have "map_of (rev (zset_entries E z)) = zset_score z" "zset_entries E z \<noteq> []"
      using zset_entries_cases [OF zset(6)] zset(7) by (auto simp: map_of_rev_distinct)
    ultimately show ?thesis using i zset by (simp add: clone_value_def get spec_clone_def)
  qed
qed

section \<open>Live keys: laws\<close>

text \<open>A key is live when its object has not expired and, for a hash, some field has not.\<close>

definition key_live :: "astate \<Rightarrow> u64 \<Rightarrow> bytes \<Rightarrow> bool" where
  "key_live A now k \<longleftrightarrow> \<not> a_expired A k now \<and>
     (case a_obj A k of None \<Rightarrow> False | Some (OHash m) \<Rightarrow> a_live A k now \<noteq> Map.empty | Some _ \<Rightarrow> True)"

definition type_of :: "robj \<Rightarrow> string" where
  "type_of ob = (case ob of OHash _ \<Rightarrow> ''hash'' | OList _ \<Rightarrow> ''list'' | OSet _ \<Rightarrow> ''set'' | OZSet _ \<Rightarrow> ''zset'')"

lemma contains_live_object_reads: "env_ok E \<Longrightarrow> reads E (contains_live_object E k now) (\<lambda>A. key_live A now k)"
proof (rule readsI)
  fix b assume E: "env_ok E" and b: "bucket_inv E b"
  note sm = slotmaps_ok [OF b] and tab = sm_tab [OF E b, of k]
  show "contains_live_object E k now b = Some (key_live (bucket_abs E b) now k)"
    using b
    by (cases rule: a_obj_cases [where k = k])
      (use tab in \<open>auto simp: contains_live_object_def object_is_expired_abs [of b k now E] has_live_law [OF E b]
        key_live_def sm_contains_key_map [OF E] sm a_live_def\<close>)
qed

lemma entry_expire_at_law:
  "env_ok E \<Longrightarrow> bucket_inv E b \<Longrightarrow> entry_expire_at E k b =
     (if a_obj (bucket_abs E b) k = None then None else Some (a_ttl (bucket_abs E b) k))"
  by (simp add: entry_expire_at_def type_tests(1))

lemma type_name_reads:
  "env_ok E \<Longrightarrow> reads E (type_name E k now) (\<lambda>A. case a_obj A k of
     Some (OHash m) \<Rightarrow> if a_live A k now = Map.empty then None else Some ''hash'' | ob \<Rightarrow> map_option type_of ob)"
proof (rule readsI)
  fix b assume E: "env_ok E" and b: "bucket_inv E b"
  note sm = slotmaps_ok [OF b] and tab = sm_tab [OF E b, of k]
  show "type_name E k now b = Some (case a_obj (bucket_abs E b) k of
     Some (OHash m) \<Rightarrow> if a_live (bucket_abs E b) k now = Map.empty then None else Some ''hash'' | ob \<Rightarrow> map_option type_of ob)"
    using b
    by (cases rule: a_obj_cases [where k = k])
      (use tab in \<open>auto simp: type_name_def has_live_law [OF E b] sm_contains_key_map [OF E] sm a_live_def type_of_def\<close>)
qed

definition encoding_of :: "robj \<Rightarrow> string" where
  "encoding_of ob = (case ob of OHash _ \<Rightarrow> ''hashtable'' | OList _ \<Rightarrow> ''quicklist'' | OSet _ \<Rightarrow> ''hashtable'' | OZSet _ \<Rightarrow> ''skiplist'')"

lemma encoding_reads:
  "env_ok E \<Longrightarrow> reads E (encoding E k now) (\<lambda>A. case a_obj A k of
     Some (OHash m) \<Rightarrow> if a_live A k now = Map.empty then None else Some ''hashtable'' | ob \<Rightarrow> map_option encoding_of ob)"
proof (rule readsI)
  fix b assume E: "env_ok E" and b: "bucket_inv E b"
  note sm = slotmaps_ok [OF b] and tab = sm_tab [OF E b, of k]
  show "encoding E k now b = Some (case a_obj (bucket_abs E b) k of
     Some (OHash m) \<Rightarrow> if a_live (bucket_abs E b) k now = Map.empty then None else Some ''hashtable''
     | ob \<Rightarrow> map_option encoding_of ob)"
    using b
    by (cases rule: a_obj_cases [where k = k])
      (use tab in \<open>auto simp: encoding_def has_live_law [OF E b] sm_contains_key_map [OF E] sm a_live_def encoding_of_def\<close>)
qed

lemma filter_opt_Some: "(\<And>x. x \<in> set xs \<Longrightarrow> p x = Some (q x)) \<Longrightarrow> filter_opt p xs = Some (filter q xs)"
  by (induction xs) auto

text \<open>The live keys of a bucket in the order in which every enumeration visits them.\<close>

definition live_keys_of :: "('h, 't) env \<Rightarrow> u64 \<Rightarrow> ('h, 't) bucket \<Rightarrow> 'h \<Rightarrow> bytes list" where
  "live_keys_of E now b t = filter (key_live (bucket_abs E b) now) (sm_keys E t)"

definition live_keys :: "('h, 't) env \<Rightarrow> u64 \<Rightarrow> ('h, 't) bucket \<Rightarrow> bytes list" where
  "live_keys E now b = live_keys_of E now b (hashes b) @ live_keys_of E now b (lists b)
     @ live_keys_of E now b (sets b) @ live_keys_of E now b (zsets b)"

lemma table_keys:
  assumes E: "env_ok E" and b: "bucket_inv E b"
  shows "set (sm_keys E (hashes b)) = {k. \<exists>m. a_obj (bucket_abs E b) k = Some (OHash m)}"
    "set (sm_keys E (lists b)) = {k. \<exists>xs. a_obj (bucket_abs E b) k = Some (OList xs)}"
    "set (sm_keys E (sets b)) = {k. \<exists>S. a_obj (bucket_abs E b) k = Some (OSet S)}"
    "set (sm_keys E (zsets b)) = {k. \<exists>v. a_obj (bucket_abs E b) k = Some (OZSet v)}"
    "distinct (sm_keys E (hashes b))" "distinct (sm_keys E (lists b))"
    "distinct (sm_keys E (sets b))" "distinct (sm_keys E (zsets b))"
proof -
  note t = bucket_invD(1-4) [OF b]
  note dom = sm_keys_dom(1) [OF E t(1)] sm_keys_dom(1) [OF E t(2)] sm_keys_dom(1) [OF E t(3)] sm_keys_dom(1) [OF E t(4)]
  have "k \<in> dom (hash_tab E b) \<longleftrightarrow> (\<exists>m. a_obj (bucket_abs E b) k = Some (OHash m))"
    "k \<in> dom (list_tab E b) \<longleftrightarrow> (\<exists>xs. a_obj (bucket_abs E b) k = Some (OList xs))"
    "k \<in> dom (set_tab E b) \<longleftrightarrow> (\<exists>S. a_obj (bucket_abs E b) k = Some (OSet S))"
    "k \<in> dom (zset_tab E b) \<longleftrightarrow> (\<exists>v. a_obj (bucket_abs E b) k = Some (OZSet v))" for k
    using b by (cases rule: a_obj_cases [where k = k]; simp add: dom_def)+
  with dom show "set (sm_keys E (hashes b)) = {k. \<exists>m. a_obj (bucket_abs E b) k = Some (OHash m)}"
    "set (sm_keys E (lists b)) = {k. \<exists>xs. a_obj (bucket_abs E b) k = Some (OList xs)}"
    "set (sm_keys E (sets b)) = {k. \<exists>S. a_obj (bucket_abs E b) k = Some (OSet S)}"
    "set (sm_keys E (zsets b)) = {k. \<exists>v. a_obj (bucket_abs E b) k = Some (OZSet v)}" by (simp_all add: tab_defs set_eq_iff)
  show "distinct (sm_keys E (hashes b))" "distinct (sm_keys E (lists b))"
    "distinct (sm_keys E (sets b))" "distinct (sm_keys E (zsets b))"
    using sm_keys_dom(2) [OF E t(1)] sm_keys_dom(2) [OF E t(2)] sm_keys_dom(2) [OF E t(3)] sm_keys_dom(2) [OF E t(4)] by auto
qed

lemma unexpired_live:
  assumes E: "env_ok E" and b: "bucket_inv E b"
  shows "unexpired b now (sm_keys E (lists b)) = live_keys_of E now b (lists b)"
    "unexpired b now (sm_keys E (sets b)) = live_keys_of E now b (sets b)"
    "unexpired b now (sm_keys E (zsets b)) = live_keys_of E now b (zsets b)"
  using table_keys(2-4) [OF E b]
  by (auto simp: unexpired_def live_keys_of_def object_is_expired_abs [of b _ now E] key_live_def intro!: filter_cong)

lemma hash_key_live:
  assumes "env_ok E" "bucket_inv E b" "k \<in> set (sm_keys E (hashes b))"
  shows "key_live (bucket_abs E b) now k \<longleftrightarrow> \<not> object_is_expired b k now \<and> a_live (bucket_abs E b) k now \<noteq> Map.empty"
  using table_keys(1) [OF assms(1,2)] assms(3) by (auto simp: key_live_def object_is_expired_abs [of b k now E])

lemma live_hash_keys_law:
  assumes E: "env_ok E" and b: "bucket_inv E b"
  shows "live_hash_keys E now b = Some (live_keys_of E now b (hashes b))"
proof -
  have "live_hash_keys E now b = Some (filter (\<lambda>k. a_live (bucket_abs E b) k now \<noteq> Map.empty)
      (unexpired b now (sm_keys E (hashes b))))"
    unfolding live_hash_keys_def by (rule filter_opt_Some) (simp add: has_live_law [OF E b])
  also have "filter (\<lambda>k. a_live (bucket_abs E b) k now \<noteq> Map.empty) (unexpired b now (sm_keys E (hashes b))) =
      live_keys_of E now b (hashes b)"
    unfolding unexpired_def live_keys_of_def filter_filter
    by (rule filter_cong) (use hash_key_live [OF E b] in auto)
  finally show ?thesis .
qed

lemma live_keys_set:
  assumes E: "env_ok E" and b: "bucket_inv E b"
  shows "set (live_keys E now b) = {k. key_live (bucket_abs E b) now k}" "distinct (live_keys E now b)"
proof -
  note t = table_keys [OF E b]
  have "key_live (bucket_abs E b) now k \<Longrightarrow>
      k \<in> set (sm_keys E (hashes b)) \<union> set (sm_keys E (lists b)) \<union> set (sm_keys E (sets b)) \<union> set (sm_keys E (zsets b))" for k
    unfolding t(1-4) by (auto simp: key_live_def split: option.splits robj.splits)
  then show "set (live_keys E now b) = {k. key_live (bucket_abs E b) now k}"
    by (auto simp: live_keys_def live_keys_of_def)
  show "distinct (live_keys E now b)" using t by (auto simp: live_keys_def live_keys_of_def)
qed

lemma bucket_keys_law: "env_ok E \<Longrightarrow> bucket_inv E b \<Longrightarrow> bucket_keys E out now b = Some (out @ live_keys E now b)"
  by (simp add: bucket_keys_def live_hash_keys_law unexpired_live live_keys_def)

lemma keys_with_type_law:
  assumes E: "env_ok E" and b: "bucket_inv E b"
  shows "keys_with_type E out now b =
    Some (out @ map (\<lambda>k. (k, type_of (the (a_obj (bucket_abs E b) k)))) (live_keys E now b))"
proof -
  let ?T = "\<lambda>k. (k, type_of (the (a_obj (bucket_abs E b) k)))"
  note t = table_keys(1-4) [OF E b]
  have "map ?T (live_keys_of E now b (hashes b)) = map (\<lambda>k. (k, ''hash'')) (live_keys_of E now b (hashes b))"
    using t(1) by (auto simp: live_keys_of_def type_of_def)
  moreover have "map ?T (live_keys_of E now b (lists b)) = map (\<lambda>k. (k, ''list'')) (live_keys_of E now b (lists b))"
    using t(2) by (auto simp: live_keys_of_def type_of_def)
  moreover have "map ?T (live_keys_of E now b (sets b)) = map (\<lambda>k. (k, ''set'')) (live_keys_of E now b (sets b))"
    using t(3) by (auto simp: live_keys_of_def type_of_def)
  moreover have "map ?T (live_keys_of E now b (zsets b)) = map (\<lambda>k. (k, ''zset'')) (live_keys_of E now b (zsets b))"
    using t(4) by (auto simp: live_keys_of_def type_of_def)
  ultimately show ?thesis
    by (simp add: keys_with_type_def live_hash_keys_law [OF E b] unexpired_live [OF E b] live_keys_def)
qed

lemma nothing_expired:
  assumes E: "env_ok E" and b: "bucket_inv E b" and ex: "expire_at_ms b = []"
  shows "live_keys_of E now b (lists b) = sm_keys E (lists b)" "live_keys_of E now b (sets b) = sm_keys E (sets b)"
    "live_keys_of E now b (zsets b) = sm_keys E (zsets b)"
  using unexpired_live [OF E b, of now] ex by (simp_all add: unexpired_def object_is_expired_def)

text \<open>Without any TTL a stored hash is counted even if it is empty, so the shortcut needs that none is.\<close>

lemma live_object_count_law:
  assumes E: "env_ok E" and b: "bucket_inv E b" and ne: "\<And>k. a_obj (bucket_abs E b) k \<noteq> Some (OHash Map.empty)"
  shows "bucket_live_object_count E now b = Some (length (live_keys E now b))"
proof -
  have "live_keys_of E now b (hashes b) = sm_keys E (hashes b)"
    if "expire_at_ms b = []" "hash_field_expire_at_ms b = []"
  proof -
    have "key_live (bucket_abs E b) now k" if "k \<in> set (sm_keys E (hashes b))" for k
      using that table_keys(1) [OF E b] ne [of k] \<open>expire_at_ms b = []\<close> \<open>hash_field_expire_at_ms b = []\<close>
      by (auto simp: key_live_def a_expired_def a_live_def a_dead_def fttl_def)
    then show ?thesis by (simp add: live_keys_of_def filter_id_conv)
  qed
  with nothing_expired [OF E b, of now] show ?thesis
    by (auto simp: bucket_live_object_count_def live_keys_def live_hash_keys_law [OF E b] unexpired_live [OF E b]
        sm_len_keys [OF E])
qed

section \<open>Visiting and scanning: laws\<close>

lemma visit_append: "visit_key_iter visitor (xs @ ys) s = and_visit (visit_key_iter visitor xs s) (visit_key_iter visitor ys)"
  by (induction xs arbitrary: s) (auto simp: and_visit_def split: prod.split)

lemma and_visit_assoc: "and_visit r (\<lambda>s. and_visit (f s) g) = and_visit (and_visit r f) g"
  by (simp add: and_visit_def)

lemma visit_unexpired: "visit_unexpired_key_iter now b visitor ks = visit_key_iter visitor (unexpired b now ks)"
proof
  show "visit_unexpired_key_iter now b visitor ks s = visit_key_iter visitor (unexpired b now ks) s" for s
    by (induction ks arbitrary: s) (auto simp: unexpired_def split: prod.split)
qed

lemma visit_live_hash:
  assumes "env_ok E" "bucket_inv E b"
  shows "visit_live_hash_key_iter E now b visitor ks s =
    Some (visit_key_iter visitor (filter (\<lambda>k. a_live (bucket_abs E b) k now \<noteq> Map.empty) ks) s)"
  by (induction ks arbitrary: s) (auto simp: has_live_law [OF assms] split: prod.split)

lemma visit_unexpired_live_hash:
  assumes "env_ok E" "bucket_inv E b"
  shows "visit_unexpired_live_hash_key_iter E now b visitor ks s =
    Some (visit_key_iter visitor (filter (\<lambda>k. a_live (bucket_abs E b) k now \<noteq> Map.empty) (unexpired b now ks)) s)"
  by (induction ks arbitrary: s) (auto simp: has_live_law [OF assms] unexpired_def split: prod.split)

lemma live_hash_filter:
  assumes E: "env_ok E" and b: "bucket_inv E b"
  shows "filter (\<lambda>k. a_live (bucket_abs E b) k now \<noteq> Map.empty) (unexpired b now (sm_keys E (hashes b))) =
    live_keys_of E now b (hashes b)"
  unfolding unexpired_def live_keys_of_def filter_filter
  by (rule filter_cong) (use hash_key_live [OF E b] in auto)

lemma unexpired_all: "\<not> has_expirations b \<Longrightarrow> unexpired b now ks = ks"
  by (simp add: unexpired_def has_expirations_def object_is_expired_def)

lemma bucket_visit_keys_law:
  assumes E: "env_ok E" and b: "bucket_inv E b"
  shows "bucket_visit_keys E now visitor s b = Some (visit_key_iter visitor (live_keys E now b) s)"
  using live_hash_filter [OF E b, of now] unexpired_live [OF E b, of now]
  by (cases "has_expirations b")
    (simp_all add: bucket_visit_keys_def visit_live_hash [OF E b] visit_unexpired_live_hash [OF E b] visit_unexpired
      live_keys_def visit_append [abs_def] and_visit_assoc unexpired_all)

text \<open>The scan of a list of keys.\<close>

fun scan_list :: "'s visitor \<Rightarrow> nat \<Rightarrow> nat \<Rightarrow> bytes list \<Rightarrow> 's scan \<Rightarrow> nat option \<times> 's scan" where
  "scan_list visitor off limit [] st = (None, st)"
| "scan_list visitor off limit (key # keys) st =
     (case scan_step visitor off limit key st of
        (Some stop, st') \<Rightarrow> (Some stop, st')
      | (None, st') \<Rightarrow> scan_list visitor off limit keys st')"

lemma scan_append:
  "or_scan (Some (scan_list visitor off limit xs st)) (\<lambda>st. Some (scan_list visitor off limit ys st)) =
     Some (scan_list visitor off limit (xs @ ys) st)"
proof (induction xs arbitrary: st)
  case (Cons k xs)
  obtain r st' where "scan_step visitor off limit k st = (r, st')" by (metis prod.exhaust)
  with Cons.IH [of st'] show ?case by (cases r) (simp_all add: or_scan_def)
qed (simp add: or_scan_def)

lemma scan_no_expiration:
  assumes "env_ok E" "bucket_inv E b"
  shows "scan_key_iter_no_expiration E now b visitor off limit hk ks st =
    Some (scan_list visitor off limit (if hk then filter (\<lambda>k. a_live (bucket_abs E b) k now \<noteq> Map.empty) ks else ks) st)"
  by (induction ks arbitrary: st) (auto simp: has_live_law [OF assms] split: prod.split option.split)

lemma scan_expiring:
  assumes "env_ok E" "bucket_inv E b"
  shows "scan_key_iter_expiring E now b visitor off limit hk ks st =
    Some (scan_list visitor off limit
      (if hk then filter (\<lambda>k. a_live (bucket_abs E b) k now \<noteq> Map.empty) (unexpired b now ks) else unexpired b now ks) st)"
  by (induction ks arbitrary: st) (auto simp: has_live_law [OF assms] unexpired_def split: prod.split option.split)

lemma scan_key_iter_law:
  assumes E: "env_ok E" and b: "bucket_inv E b"
  shows "scan_key_iter E now b visitor off limit hk ks st =
    Some (scan_list visitor off limit
      (if hk then filter (\<lambda>k. a_live (bucket_abs E b) k now \<noteq> Map.empty) (unexpired b now ks) else unexpired b now ks) st)"
  by (cases "has_expirations b")
    (simp_all add: scan_key_iter_def scan_expiring [OF E b] scan_no_expiration [OF E b] unexpired_all)

text \<open>The live keys that a type filter lets through.\<close>

definition filtered_keys :: "('h, 't) env \<Rightarrow> u64 \<Rightarrow> bytes option \<Rightarrow> ('h, 't) bucket \<Rightarrow> bytes list" where
  "filtered_keys E now type_filter b =
     (case type_filter of
        None \<Rightarrow> live_keys E now b
      | Some kind \<Rightarrow> filter (\<lambda>k. eq_ignore_ascii_case kind (ascii (type_of (the (a_obj (bucket_abs E b) k))))) (live_keys E now b))"

lemma kinds_differ:
  "map lower_ascii (ascii ''hash'') \<noteq> map lower_ascii (ascii ''list'')" "map lower_ascii (ascii ''hash'') \<noteq> map lower_ascii (ascii ''set'')"
  "map lower_ascii (ascii ''hash'') \<noteq> map lower_ascii (ascii ''zset'')" "map lower_ascii (ascii ''list'') \<noteq> map lower_ascii (ascii ''set'')"
  "map lower_ascii (ascii ''list'') \<noteq> map lower_ascii (ascii ''zset'')" "map lower_ascii (ascii ''set'') \<noteq> map lower_ascii (ascii ''zset'')"
  by code_simp+

lemma filter_kind:
  assumes E: "env_ok E" and b: "bucket_inv E b"
  shows "filter (\<lambda>k. P (type_of (the (a_obj (bucket_abs E b) k)))) (live_keys E now b) =
    (if P ''hash'' then live_keys_of E now b (hashes b) else []) @ (if P ''list'' then live_keys_of E now b (lists b) else []) @
    (if P ''set'' then live_keys_of E now b (sets b) else []) @ (if P ''zset'' then live_keys_of E now b (zsets b) else [])"
proof -
  note t = table_keys(1-4) [OF E b]
  have const: "filter Q xs = (if c then xs else [])" if "\<And>x. x \<in> set xs \<Longrightarrow> Q x = c" for Q c and xs :: "bytes list"
    using that by (cases c) (auto simp: filter_id_conv filter_empty_conv)
  show ?thesis unfolding live_keys_def filter_append
    by (intro arg_cong2 [where f = "(@)"] const) (use t in \<open>auto simp: live_keys_of_def type_of_def\<close>)
qed

lemma scan_keys_visit_law:
  assumes E: "env_ok E" and b: "bucket_inv E b"
  shows "scan_keys_visit E now type_filter visitor off limit st b =
    Some (scan_list visitor off limit (filtered_keys E now type_filter b) st)"
proof (cases type_filter)
  case None
  have "or_scan (or_scan (or_scan (Some (scan_list visitor off limit ws st)) (\<lambda>st. Some (scan_list visitor off limit xs st)))
      (\<lambda>st. Some (scan_list visitor off limit ys st))) (\<lambda>st. Some (scan_list visitor off limit zs st)) =
    Some (scan_list visitor off limit (ws @ xs @ ys @ zs) st)" for ws xs ys zs by (simp add: scan_append)
  with None show ?thesis
    by (simp add: scan_keys_visit_def filtered_keys_def scan_key_iter_law [OF E b, abs_def] live_hash_filter [OF E b]
        unexpired_live [OF E b] live_keys_def)
next
  case (Some kind)
  note keys = filter_kind [OF E b, of "\<lambda>t. eq_ignore_ascii_case kind (ascii t)" now]
  show ?thesis
    using kinds_differ kinds_differ [symmetric]
    by (simp add: Some scan_keys_visit_def filtered_keys_def keys scan_key_iter_law [OF E b]
        live_hash_filter [OF E b] unexpired_live [OF E b] Let_def)
      (auto simp: eq_ignore_ascii_case_def)
qed

text \<open>Which keys a scan visits: it skips to the cursor and visits until the limit is reached.\<close>

lemma scan_list_visits:
  fixes off :: nat
  assumes "visited st < limit" "limit \<le> USIZE_MAX"
  defines "rest \<equiv> \<lambda>ks. drop (off - position_of st) ks" and "n \<equiv> limit - visited st"
  shows "\<exists>st'. scan_list visitor off limit ks st =
      (if n \<le> length (rest ks) then Some (max (position_of st) off + n) else None, st') \<and>
    vstate st' = fold (\<lambda>k s. snd (visitor s k)) (take n (rest ks)) (vstate st) \<and>
    visited st' = visited st + length (take n (rest ks)) \<and>
    (length (rest ks) < n \<longrightarrow> position_of st' = position_of st + length ks)"
  using assms(1,2) unfolding rest_def n_def
proof (induction ks arbitrary: st)
  case Nil
  then show ?case by simp
next
  case (Cons k ks)
  show ?case
  proof (cases "position_of st < off")
    case True
    let ?st = "st\<lparr>position_of := position_of st + 1\<rparr>"
    have step: "scan_step visitor off limit k st = (None, ?st)" using True by (simp add: scan_step_def)
    have "off - position_of st = Suc (off - position_of ?st)" "max (position_of st) off = max (position_of ?st) off"
      using True by auto
    then have "drop (off - position_of st) (k # ks) = drop (off - position_of ?st) ks"
      "max (position_of st) off = max (position_of ?st) off" by simp_all
    with Cons.IH [of ?st] Cons.prems step show ?thesis by auto
  next
    case False
    obtain hit s' where v: "visitor (vstate st) k = (hit, s')" by (metis prod.exhaust)
    let ?st = "\<lparr>position_of = position_of st + 1, visited = visited st + 1,
      emitted = (if hit then min (emitted st + 1) USIZE_MAX else emitted st), vstate = s'\<rparr>"
    have step: "scan_step visitor off limit k st =
        (if limit \<le> visited st + 1 then Some (position_of st + 1) else None, ?st)"
      using False Cons.prems by (simp add: scan_step_def v)
    have off: "off - position_of st = 0" "off - position_of ?st = 0" "max (position_of st) off = position_of st"
      "max (position_of ?st) off = position_of st + 1" using False by auto
    show ?thesis
    proof (cases "limit \<le> visited st + 1")
      case True
      then have "limit - visited st = 1" using Cons.prems by simp
      with step True off v show ?thesis by simp
    next
      case False
      then have n: "limit - visited st = Suc (limit - visited ?st)" using Cons.prems by simp
      have "scan_list visitor off limit (k # ks) st = scan_list visitor off limit ks ?st" using step False by simp
      moreover have "visited ?st < limit" using False by simp
      note Cons.IH [OF this Cons.prems(2), unfolded off drop_0]
      ultimately show ?thesis unfolding off n by (auto simp: v)
    qed
  qed
qed

end
