(* ===== verification/BucketHashTtl.thy ===== *)
theory BucketHashTtl
  imports BucketHash "HOL-Library.Extended_Nat"
begin

text \<open>
  The commands on the TTLs of hash fields (\<^verbatim>\<open>bucket_hash_ttl.rs\<close>): \<^verbatim>\<open>HEXPIRE\<close> and its relatives,
  the TTL queries, \<^verbatim>\<open>HPERSIST\<close>, \<^verbatim>\<open>HGETDEL\<close>, \<^verbatim>\<open>HGETEX\<close> and \<^verbatim>\<open>HSETEX\<close>. Here the time is an argument of
  the code itself. The commands are shown to implement abstract ones; all but \<^verbatim>\<open>HSETEX\<close> report
  exactly whether the object appeared or disappeared.
\<close>

section \<open>Data\<close>

datatype hash_field_expire_cond = CondNone | CondNx | CondXx | CondGt | CondLt

datatype hash_field_get_expire_action = GetKeep | GetPersist | GetExpireAt u64

datatype hash_field_set_condition = SetAlways | SetFnX | SetFxX

datatype hash_field_set_expire_action = SetClear | SetKeepTtl | SetExpireAt u64

section \<open>Commands\<close>

text \<open>The opening of every command: give up without a hash, remove expired fields and an emptied hash.\<close>

definition with_live_hash ::
  "('h, 't) env \<Rightarrow> bytes \<Rightarrow> u64 \<Rightarrow> redis_object_result \<Rightarrow>
   (('h, 't) bucket \<Rightarrow> slot_id \<Rightarrow> (redis_object_result \<times> bool \<times> ('h, 't) bucket) option) \<Rightarrow>
   ('h, 't) bucket \<Rightarrow> (redis_object_result \<times> bool \<times> ('h, 't) bucket) option" where
  "with_live_hash E key now_ms missing body b =
     (case sm_get E (hashes b) key of
        None \<Rightarrow> if has_non_hash E b key then Some (WrongType, False, b) else Some (missing, False, b)
      | Some slot \<Rightarrow> do {
          b1 \<leftarrow> remove_expired_hash_fields E b key now_ms;
          (gone, b2) \<leftarrow> remove_hash_if_empty E b1 key;
          if gone then Some (missing, True, b2) else body b2 slot
        })"

text \<open>The closing of the deleting commands: remove the fields, their TTLs, and an emptied hash.\<close>

definition delete_hash_fields ::
  "('h, 't) env \<Rightarrow> bytes \<Rightarrow> slot_id \<Rightarrow> bytes list \<Rightarrow> ('h, 't) bucket \<Rightarrow> (bool \<times> ('h, 't) bucket) option" where
  "delete_hash_fields E key slot to_delete b =
     (if to_delete = [] then Some (False, b)
      else do {
        h \<leftarrow> slab_get (hash_slab b) slot;
        let h' = snd (remove_each hash_remove_is_some h to_delete);
            b1 = clear_hash_field_ttls (put_hash b slot h') key to_delete
        in if hash_is_empty h' then Some (True, remove_hash_slot E b1 key slot) else Some (False, b1)
      })"

definition expire_allowed :: "hash_field_expire_cond \<Rightarrow> u64 \<Rightarrow> u64 option \<Rightarrow> bool" where
  "expire_allowed cond at_ms current =
     (case cond of
        CondNone \<Rightarrow> True
      | CondNx \<Rightarrow> current = None
      | CondXx \<Rightarrow> current \<noteq> None
      | CondGt \<Rightarrow> (case current of None \<Rightarrow> False | Some c \<Rightarrow> c < at_ms)
      | CondLt \<Rightarrow> (case current of None \<Rightarrow> True | Some c \<Rightarrow> at_ms < c))"

fun hash_field_expire_loop ::
  "bytes \<Rightarrow> slot_id \<Rightarrow> u64 \<Rightarrow> hash_field_expire_cond \<Rightarrow> u64 \<Rightarrow> bytes list \<Rightarrow> ('h, 't) bucket \<Rightarrow>
   (int list \<times> bytes list \<times> ('h, 't) bucket) option" where
  "hash_field_expire_loop key slot at_ms cond now_ms [] b = Some ([], [], b)"
| "hash_field_expire_loop key slot at_ms cond now_ms (field # fs) b = do {
     h \<leftarrow> slab_get (hash_slab b) slot;
     let present = (hash_contains_key h field \<and> \<not> hash_field_is_expired b key field now_ms);
         allowed = expire_allowed cond at_ms (hash_field_expiry b key field);
         (code, gone, b1) =
           (if \<not> present then (- 2, [], b)
            else if \<not> allowed then (0, [], b)
            else if at_ms \<le> now_ms then (2, [field], b)
            else (1, [], set_hash_field_expiry b key field at_ms))
     in do {
       (codes, to_delete, b2) \<leftarrow> hash_field_expire_loop key slot at_ms cond now_ms fs b1;
       Some (code # codes, gone @ to_delete, b2)
     }
   }"

definition hash_field_expire ::
  "('h, 't) env \<Rightarrow> bytes \<Rightarrow> bytes list \<Rightarrow> u64 \<Rightarrow> hash_field_expire_cond \<Rightarrow> u64 \<Rightarrow> ('h, 't) bucket \<Rightarrow>
   (redis_object_result \<times> bool \<times> ('h, 't) bucket) option" where
  "hash_field_expire E key fs at_ms cond now_ms =
     with_live_hash E key now_ms (IntegerArray (replicate (length fs) (- 2))) (\<lambda>b slot. do {
       (codes, to_delete, b1) \<leftarrow> hash_field_expire_loop key slot at_ms cond now_ms fs b;
       (emptied, b2) \<leftarrow> delete_hash_fields E key slot to_delete b1;
       Some (IntegerArray codes, emptied, b2)
     })"

definition div_ceil :: "u64 \<Rightarrow> u64 \<Rightarrow> u64" where
  "div_ceil a b = (if a mod b = 0 then a div b else a div b + 1)"

definition ttl_value :: "bool \<Rightarrow> bool \<Rightarrow> u64 \<Rightarrow> u64 \<Rightarrow> int" where
  "ttl_value as_millis absolute at_ms now_ms =
     (if absolute then if as_millis then u64_as_i64 at_ms else u64_as_i64 (at_ms div 1000)
      else if as_millis then u64_as_i64 (saturating_sub at_ms now_ms)
      else u64_as_i64 (div_ceil (saturating_sub at_ms now_ms) 1000))"

definition hash_field_ttl_query ::
  "('h, 't) env \<Rightarrow> bytes \<Rightarrow> bytes list \<Rightarrow> bool \<Rightarrow> bool \<Rightarrow> u64 \<Rightarrow> ('h, 't) bucket \<Rightarrow> redis_object_result option" where
  "hash_field_ttl_query E key fs as_millis absolute now_ms b =
     (case sm_get E (hashes b) key of
        None \<Rightarrow> if has_non_hash E b key then Some WrongType else Some (IntegerArray (replicate (length fs) (- 2)))
      | Some slot \<Rightarrow> do {
          h \<leftarrow> slab_get (hash_slab b) slot;
          Some (IntegerArray (map (\<lambda>field.
            if \<not> hash_contains_key h field \<or> hash_field_is_expired b key field now_ms then - 2
            else case hash_field_expiry b key field of
                   None \<Rightarrow> - 1
                 | Some at_ms \<Rightarrow> ttl_value as_millis absolute at_ms now_ms) fs))
        })"

fun hash_field_persist_loop ::
  "bytes \<Rightarrow> slot_id \<Rightarrow> u64 \<Rightarrow> bytes list \<Rightarrow> ('h, 't) bucket \<Rightarrow> (int list \<times> ('h, 't) bucket) option" where
  "hash_field_persist_loop key slot now_ms [] b = Some ([], b)"
| "hash_field_persist_loop key slot now_ms (field # fs) b = do {
     h \<leftarrow> slab_get (hash_slab b) slot;
     let (code, b1) =
       (if \<not> hash_contains_key h field \<or> hash_field_is_expired b key field now_ms then (- 2, b)
        else case hash_field_expiry b key field of
               Some _ \<Rightarrow> (1, clear_hash_field_ttl b key field)
             | None \<Rightarrow> (- 1, b))
     in do {
       (codes, b2) \<leftarrow> hash_field_persist_loop key slot now_ms fs b1;
       Some (code # codes, b2)
     }
   }"

definition hash_field_persist ::
  "('h, 't) env \<Rightarrow> bytes \<Rightarrow> bytes list \<Rightarrow> u64 \<Rightarrow> ('h, 't) bucket \<Rightarrow> (redis_object_result \<times> bool \<times> ('h, 't) bucket) option" where
  "hash_field_persist E key fs now_ms =
     with_live_hash E key now_ms (IntegerArray (replicate (length fs) (- 2))) (\<lambda>b slot. do {
       (codes, b1) \<leftarrow> hash_field_persist_loop key slot now_ms fs b;
       Some (IntegerArray codes, False, b1)
     })"

text \<open>The fields that were found, in order: \<^verbatim>\<open>fields.iter().zip(values).filter(is_some)\<close>.\<close>

definition found_fields :: "bytes list \<Rightarrow> bytes option list \<Rightarrow> bytes list" where
  "found_fields fs values = map fst (filter (\<lambda>(_, value). value \<noteq> None) (zip fs values))"

definition hash_field_getdel ::
  "('h, 't) env \<Rightarrow> bytes \<Rightarrow> bytes list \<Rightarrow> u64 \<Rightarrow> ('h, 't) bucket \<Rightarrow> (redis_object_result \<times> bool \<times> ('h, 't) bucket) option" where
  "hash_field_getdel E key fs now_ms =
     with_live_hash E key now_ms (Array (replicate (length fs) None)) (\<lambda>b slot. do {
       h \<leftarrow> slab_get (hash_slab b) slot;
       let values = map (hash_get h) fs in do {
         (emptied, b1) \<leftarrow> delete_hash_fields E key slot (found_fields fs values) b;
         Some (Array values, emptied, b1)
       }
     })"

definition hash_field_getex ::
  "('h, 't) env \<Rightarrow> bytes \<Rightarrow> bytes list \<Rightarrow> hash_field_get_expire_action \<Rightarrow> u64 \<Rightarrow> ('h, 't) bucket \<Rightarrow>
   (redis_object_result \<times> bool \<times> ('h, 't) bucket) option" where
  "hash_field_getex E key fs action now_ms =
     with_live_hash E key now_ms (Array (replicate (length fs) None)) (\<lambda>b slot. do {
       h \<leftarrow> slab_get (hash_slab b) slot;
       let values = map (hash_get h) fs;
           existing_fields = found_fields fs values;
           (to_delete, b1) =
             (case action of
                GetKeep \<Rightarrow> ([], b)
              | GetPersist \<Rightarrow> ([], clear_hash_field_ttls b key existing_fields)
              | GetExpireAt at_ms \<Rightarrow>
                  if at_ms \<le> now_ms then (existing_fields, b)
                  else ([], fold (\<lambda>field b. set_hash_field_expiry b key field at_ms) existing_fields b))
       in do {
         (emptied, b2) \<leftarrow> delete_hash_fields E key slot to_delete b1;
         Some (Array values, emptied, b2)
       }
     })"

definition set_allowed :: "hash_field_set_condition \<Rightarrow> nat \<Rightarrow> nat \<Rightarrow> bool" where
  "set_allowed condition existing_count wanted =
     (case condition of SetAlways \<Rightarrow> True | SetFnX \<Rightarrow> existing_count = 0 | SetFxX \<Rightarrow> existing_count = wanted)"

text \<open>The second half of \<^verbatim>\<open>hash_field_setex\<close>: the condition holds and the hash is at \<open>slot\<close>.\<close>

definition hash_field_setex_apply ::
  "('h, 't) env \<Rightarrow> bytes \<Rightarrow> slot_id \<Rightarrow> bool \<Rightarrow> (bytes \<times> bytes) list \<Rightarrow> hash_field_set_expire_action \<Rightarrow> u64 \<Rightarrow>
   ('h, 't) bucket \<Rightarrow> (redis_object_result \<times> bool \<times> ('h, 't) bucket) option" where
  "hash_field_setex_apply E key slot created fvs action now_ms b = do {
     h \<leftarrow> slab_get (hash_slab b) slot;
     (_, h1) \<leftarrow> insert_each (\<lambda>h f v. Some (hash_insert_slice h f v)) h fvs;
     let b1 = put_hash b slot h1
     in case action of
          SetKeepTtl \<Rightarrow> Some (Integer 1, created, b1)
        | SetClear \<Rightarrow> Some (Integer 1, created, clear_hash_field_ttls b1 key (map fst fvs))
        | SetExpireAt at_ms \<Rightarrow>
            if at_ms \<le> now_ms
            then do {
              h2 \<leftarrow> slab_get (hash_slab b1) slot;
              let h3 = snd (remove_each hash_remove_is_some h2 (map fst fvs));
                  b2 = clear_hash_field_ttls (put_hash b1 slot h3) key (map fst fvs)
              in if hash_is_empty h3
                 then Some (Integer 1, True, remove_hash_slot E b2 key slot)
                 else Some (Integer 1, created, b2)
            }
            else Some (Integer 1, created, fold (\<lambda>field b. set_hash_field_expiry b key field at_ms) (map fst fvs) b1)
   }"

definition hash_field_setex ::
  "('h, 't) env \<Rightarrow> bytes \<Rightarrow> (bytes \<times> bytes) list \<Rightarrow> hash_field_set_condition \<Rightarrow> hash_field_set_expire_action \<Rightarrow> u64 \<Rightarrow>
   ('h, 't) bucket \<Rightarrow> (redis_object_result \<times> bool \<times> ('h, 't) bucket) option" where
  "hash_field_setex E key fvs condition action now_ms b =
     (if fvs = [] then Some (Integer 0, False, b)
      else do {
        b1 \<leftarrow> remove_expired_hash_fields E b key now_ms;
        (gone, b2) \<leftarrow> remove_hash_if_empty E b1 key;
        let b3 = (if gone then b2\<lparr>expire_at_ms := hm_del key (expire_at_ms b2)\<rparr> else b2);
            existing_slot = sm_get E (hashes b3) key;
            existing_count = (case Option.bind existing_slot (slab_get (hash_slab b3)) of
                None \<Rightarrow> 0
              | Some h \<Rightarrow> length (filter (\<lambda>fv. hash_contains_key h (fst fv)) fvs))
        in if existing_slot = None \<and> has_non_hash E b3 key then Some (WrongType, False, b3)
           else if \<not> set_allowed condition existing_count (length fvs) then Some (Integer 0, False, b3)
           else case existing_slot of
                  Some slot \<Rightarrow> hash_field_setex_apply E key slot False fvs action now_ms b3
                | None \<Rightarrow> do {
                    (slot, slab) \<leftarrow> slab_insert (hash_slab b3) (hash_map_with_capacity (length fvs));
                    hash_field_setex_apply E key slot True fvs action now_ms
                      (b3\<lparr>hash_slab := slab, hashes := snd (sm_insert_hashed E (hashes b3) (hash_key E key) key slot)\<rparr>)
                  }
      })"

section \<open>Specifications\<close>

text \<open>A command on the live fields of a hash: the expired ones are gone, a hash without fields too.\<close>

definition on_live ::
  "bytes \<Rightarrow> u64 \<Rightarrow> redis_object_result \<Rightarrow> (astate \<Rightarrow> (bytes \<rightharpoonup> bytes) \<Rightarrow> redis_object_result \<times> bool \<times> astate) \<Rightarrow> write_spec" where
  "on_live k now missing f A =
     on_obj as_hash k missing
       (\<lambda>_. let A1 = a_purge k now A; m = a_live A k now
            in if m = Map.empty then (missing, True, a_del k A1) else f A1 m) A"

text \<open>
  The conditions of \<^verbatim>\<open>HEXPIRE\<close> compare lifetimes: a field without a TTL lives forever. \<^verbatim>\<open>GT\<close> only prolongs a life and \<^verbatim>\<open>LT\<close> only
  shortens it, \<^verbatim>\<open>NX\<close> wants a field that lives forever and \<^verbatim>\<open>XX\<close> one that does not.
\<close>

definition lifetime :: "u64 option \<Rightarrow> enat" where
  "lifetime cur = (case cur of None \<Rightarrow> \<infinity> | Some t \<Rightarrow> enat (unat t))"

definition expire_permits :: "hash_field_expire_cond \<Rightarrow> u64 \<Rightarrow> u64 option \<Rightarrow> bool" where
  "expire_permits cond at_ms cur \<longleftrightarrow>
     (cond = CondNx \<longrightarrow> lifetime cur = \<infinity>) \<and> (cond = CondXx \<longrightarrow> lifetime cur < \<infinity>) \<and>
     (cond = CondGt \<longrightarrow> lifetime cur < lifetime (Some at_ms)) \<and> (cond = CondLt \<longrightarrow> lifetime (Some at_ms) < lifetime cur)"

lemma expire_allowed_permits: "expire_allowed cond at_ms cur \<longleftrightarrow> expire_permits cond at_ms cur"
  by (cases cond; cases cur) (simp_all add: expire_allowed_def expire_permits_def lifetime_def word_less_nat_alt)

text \<open>Codes, fields to delete, and TTLs after the loop of \<^verbatim>\<open>HEXPIRE\<close> over the fields of \<open>m\<close>.\<close>

fun expire_codes ::
  "u64 \<Rightarrow> hash_field_expire_cond \<Rightarrow> u64 \<Rightarrow> (bytes \<rightharpoonup> bytes) \<Rightarrow> (bytes \<rightharpoonup> u64) \<Rightarrow> bytes list \<Rightarrow>
   int list \<times> bytes list \<times> (bytes \<rightharpoonup> u64)" where
  "expire_codes at_ms cond now m ft [] = ([], [], ft)"
| "expire_codes at_ms cond now m ft (f # fs) =
     (let (code, gone, ft1) =
        (if m f = None then (- 2, [], ft)
         else if \<not> expire_permits cond at_ms (ft f) then (0, [], ft)
         else if at_ms \<le> now then (2, [f], ft)
         else (1, [], ft(f \<mapsto> at_ms)));
        (codes, dels, ft2) = expire_codes at_ms cond now m ft1 fs
      in (code # codes, gone @ dels, ft2))"

definition spec_hexpire :: "bytes \<Rightarrow> bytes list \<Rightarrow> u64 \<Rightarrow> hash_field_expire_cond \<Rightarrow> u64 \<Rightarrow> write_spec" where
  "spec_hexpire k fs at_ms cond now =
     on_live k now (IntegerArray (replicate (length fs) (- 2)))
       (\<lambda>A m. let (codes, dels, ft) = expire_codes at_ms cond now m (a_fttl A k) fs
              in (IntegerArray codes, m |` (- set dels) = Map.empty,
                  hash_left k (m |` (- set dels)) (ft |` (- set dels)) A))"

fun persist_codes :: "(bytes \<rightharpoonup> bytes) \<Rightarrow> (bytes \<rightharpoonup> u64) \<Rightarrow> bytes list \<Rightarrow> int list \<times> (bytes \<rightharpoonup> u64)" where
  "persist_codes m ft [] = ([], ft)"
| "persist_codes m ft (f # fs) =
     (let (codes, ft') = persist_codes m (if m f = None then ft else ft(f := None)) fs
      in ((if m f = None then - 2 else if ft f = None then - 1 else 1) # codes, ft'))"

definition spec_hpersist :: "bytes \<Rightarrow> bytes list \<Rightarrow> u64 \<Rightarrow> write_spec" where
  "spec_hpersist k fs now =
     on_live k now (IntegerArray (replicate (length fs) (- 2)))
       (\<lambda>A m. let (codes, ft) = persist_codes m (a_fttl A k) fs in (IntegerArray codes, False, a_hash k m ft A))"

definition spec_hgetdel :: "bytes \<Rightarrow> bytes list \<Rightarrow> u64 \<Rightarrow> write_spec" where
  "spec_hgetdel k fs now =
     on_live k now (Array (replicate (length fs) None))
       (\<lambda>A m. (Array (map m fs), m |` (- set fs) = Map.empty,
              hash_left k (m |` (- set fs)) (a_fttl A k |` (- set fs)) A))"

definition ttls_set :: "(bytes \<rightharpoonup> u64) \<Rightarrow> bytes set \<Rightarrow> u64 \<Rightarrow> (bytes \<rightharpoonup> u64)" where
  "ttls_set ft F at_ms = (\<lambda>f. if f \<in> F then Some at_ms else ft f)"

definition spec_hgetex :: "bytes \<Rightarrow> bytes list \<Rightarrow> hash_field_get_expire_action \<Rightarrow> u64 \<Rightarrow> write_spec" where
  "spec_hgetex k fs action now =
     on_live k now (Array (replicate (length fs) None))
       (\<lambda>A m. let F = set fs \<inter> dom m
              in case action of
                   GetKeep \<Rightarrow> (Array (map m fs), False, A)
                 | GetPersist \<Rightarrow> (Array (map m fs), False, a_hash k m (a_fttl A k |` (- F)) A)
                 | GetExpireAt at_ms \<Rightarrow>
                     if at_ms \<le> now
                     then (Array (map m fs), m |` (- F) = Map.empty, hash_left k (m |` (- F)) (a_fttl A k |` (- F)) A)
                     else (Array (map m fs), False, a_hash k m (ttls_set (a_fttl A k) F at_ms) A))"

definition spec_hsetex_apply ::
  "bytes \<Rightarrow> bool \<Rightarrow> (bytes \<times> bytes) list \<Rightarrow> hash_field_set_expire_action \<Rightarrow> u64 \<Rightarrow> (bytes \<rightharpoonup> bytes) \<Rightarrow> write_spec" where
  "spec_hsetex_apply k created fvs action now m A =
     (let F = fst ` set fvs; m' = m ++ map_of (rev fvs); ft = a_fttl A k
      in case action of
           SetKeepTtl \<Rightarrow> (Integer 1, created, a_hash k m' ft A)
         | SetClear \<Rightarrow> (Integer 1, created, a_hash k m' (ft |` (- F)) A)
         | SetExpireAt at_ms \<Rightarrow>
             if at_ms \<le> now
             then (Integer 1, created \<or> m |` (- F) = Map.empty, hash_left k (m |` (- F)) (ft |` (- F)) A)
             else (Integer 1, created, a_hash k m' (ttls_set ft F at_ms) A))"

definition spec_hsetex ::
  "bytes \<Rightarrow> (bytes \<times> bytes) list \<Rightarrow> hash_field_set_condition \<Rightarrow> hash_field_set_expire_action \<Rightarrow> u64 \<Rightarrow> write_spec" where
  "spec_hsetex k fvs condition action now A =
     (if fvs = [] then (Integer 0, False, A)
      else let A1 = snd (a_reap k now A)
           in read_obj as_hash k
                (if set_allowed condition 0 (length fvs)
                 then spec_hsetex_apply k True fvs action now Map.empty (a_put k (OHash Map.empty) A1)
                 else (Integer 0, False, A1))
                (WrongType, False, A1)
                (\<lambda>m. if set_allowed condition (length (filter (\<lambda>fv. m (fst fv) \<noteq> None) fvs)) (length fvs)
                      then spec_hsetex_apply k False fvs action now m A1
                      else (Integer 0, False, A1)) A1)"

section \<open>The opening and the closing\<close>

lemma a_dead_purge:
  assumes "a_obj A k = Some (OHash m)"
  shows "a_dead (a_purge k now A) k now = {}" "a_obj (a_purge k now A) k = Some (OHash (a_live A k now))"
  using assms by (auto simp: a_purge_def a_dead_def a_live_def restrict_map_def split: if_splits)

lemma live_hash_refines:
  assumes E: "env_ok E"
    and hit: "\<And>b slot h. bucket_inv E b \<Longrightarrow> sm_map E (hashes b) k = Some slot \<Longrightarrow> slab_get (hash_slab b) slot = Some h \<Longrightarrow>
      hash_ok h \<Longrightarrow> hash_get h \<noteq> Map.empty \<Longrightarrow> a_dead (bucket_abs E b) k now = {} \<Longrightarrow>
      \<exists>r fl b'. body b slot = Some (r, fl, b') \<and> bucket_inv E b' \<and>
        f (bucket_abs E b) (hash_get h) = (r, fl, bucket_abs E b')"
  shows "refines E (with_live_hash E k now missing body) (on_live k now missing f)"
proof (rule refinesI)
  fix b assume b: "bucket_inv E b"
  let ?A = "bucket_abs E b"
  show "\<exists>r fl b'. with_live_hash E k now missing body b = Some (r, fl, b') \<and> bucket_inv E b' \<and>
      on_live k now missing f ?A = (r, fl, bucket_abs E b')"
    using E b
  proof (cases rule: hash_kind.lookup [where k = k])
    case (hit slot h m ob)
    then have o: "a_obj ?A k = Some (OHash m)" by simp
    from remove_expired_law [OF E b] obtain b1 where b1: "remove_expired_hash_fields E b k now = Some b1"
      "bucket_inv E b1" "bucket_abs E b1 = a_purge k now ?A" "hashes b1 = hashes b" by blast
    have s1: "sm_map E (hashes b1) k = Some slot" using hit(1) b1(4) by simp
    obtain h1 where h1: "slab_get (hash_slab b1) slot = Some h1" "hash_ok h1" "hash_get h1 = a_live ?A k now"
      using hash_slot [OF E b1(2) s1] a_dead_purge(2) [OF o, of now] b1(3) by (metis option.inject robj.inject(1))
    show ?thesis
    proof (cases "a_live ?A k now = Map.empty")
      case True
      with remove_if_empty_law [OF E b1(2), of k] b1 hit(2) o a_dead_purge(2) [OF o, of now] show ?thesis
        by (auto simp: with_live_hash_def on_live_def on_obj_def read_obj_def Let_def)
    next
      case False
      with remove_if_empty_law [OF E b1(2), of k] b1(3) a_dead_purge(2) [OF o, of now]
      have keep: "remove_hash_if_empty E b1 k = Some (False, b1)" by auto
      have "a_dead (bucket_abs E b1) k now = {}" using a_dead_purge(1) [OF o] b1(3) by simp
      with assms(2) [OF b1(2) s1 h1(1,2)] False h1(3) obtain r fl b' where
        "body b1 slot = Some (r, fl, b')" "bucket_inv E b'" "f (bucket_abs E b1) (hash_get h1) = (r, fl, bucket_abs E b')"
        by metis
      with b1 keep hit(2) o False h1(3) show ?thesis
        by (simp add: with_live_hash_def on_live_def on_obj_def read_obj_def Let_def)
    qed
  qed (use b in \<open>auto simp: with_live_hash_def on_live_def on_obj_def read_obj_def\<close>)
qed

lemma a_del_hash [simp]: "a_del k (a_hash k m ft A) = a_del k A"
  by (simp add: a_del_def a_hash_def a_at_def)

lemma a_hash_hash [simp]: "a_hash k m ft (a_hash k m' ft' A) = a_hash k m ft A"
  by (simp add: a_hash_def a_at_def)

lemma a_hash_id: "a_obj A k = Some (OHash m) \<Longrightarrow> a_hash k m (a_fttl A k) A = A"
  by (simp add: a_hash_def a_at_def fun_upd_idem)

lemma clear_ttls_hashes [simp]: "hashes (clear_hash_field_ttls b k fs) = hashes b"
  by (induction fs arbitrary: b)
    (simp_all add: clear_hash_field_ttls_def clear_hash_field_ttl_def Let_def split: option.split)

lemma delete_hash_fields_law:
  assumes E: "env_ok E" and b: "bucket_inv E b" and i: "sm_map E (hashes b) k = Some slot"
    and h: "slab_get (hash_slab b) slot = Some h" "hash_ok h" "hash_get h \<noteq> Map.empty"
  shows "\<exists>b'. delete_hash_fields E k slot ds b = Some (hash_get h |` (- set ds) = Map.empty, b') \<and> bucket_inv E b' \<and>
    bucket_abs E b' =
      hash_left k (hash_get h |` (- set ds)) (a_fttl (bucket_abs E b) k |` (- set ds)) (bucket_abs E b)"
proof (cases "ds = []")
  case True
  have "a_obj (bucket_abs E b) k = Some (OHash (hash_get h))" using hash_slot [OF E b i] h(1) by (metis option.inject)
  with True b h(3) a_hash_id [OF this] show ?thesis by (auto simp: delete_hash_fields_def hash_left_def)
next
  case False
  from ho.remove_each_law [OF h(2), of ds] obtain h' gone where
    h': "remove_each hash_remove_is_some h ds = (gone, h')" "hash_ok h'" "hash_get h' = hash_get h |` (- set ds)" by blast
  have "dom (fttl (hash_field_expire_at_ms b) k) - set ds \<subseteq> dom (hash_get h')"
    using hash_fttl_dom [OF E b i h(1)] h'(3) by auto
  note store = hash_store [OF E b i h'(2) this]
  have "sm_map E (hashes (clear_hash_field_ttls (put_hash b slot h') k ds)) k = Some slot"
    using i by (simp add: put_hash_def)
  from hash_delete [OF E _ this] store h' h(1) False show ?thesis
    by (auto simp: delete_hash_fields_def hash_left_def hash_is_empty_iff)
qed

section \<open>Changing the TTLs of a hash\<close>

lemma put_hash_same: "slab_get (hash_slab b) slot = Some h \<Longrightarrow> put_hash b slot h = b"
  by (auto simp: put_hash_def slab_put_def slab_get_def list_update_same_conv split: if_splits)

lemma set_field_ttl:
  assumes E: "env_ok E" and b: "bucket_inv E b" and i: "sm_map E (hashes b) k = Some slot"
    and h: "slab_get (hash_slab b) slot = Some h" "hash_ok h" and f: "hash_get h f \<noteq> None"
  shows "bucket_inv E (set_hash_field_expiry b k f t) \<and>
    bucket_abs E (set_hash_field_expiry b k f t) =
      a_hash k (hash_get h) ((a_fttl (bucket_abs E b) k)(f \<mapsto> t)) (bucket_abs E b) \<and>
    hashes (set_hash_field_expiry b k f t) = hashes b \<and> hash_slab (set_hash_field_expiry b k f t) = hash_slab b"
proof -
  from set_ttl [OF bucket_invD(5) [OF b], of k f t] obtain fe where
    fe: "set_hash_field_expiry b k f t = b\<lparr>hash_field_expire_at_ms := fe\<rparr>" "ttl_maps_ok (expire_at_ms b) fe"
      "fttl fe = (fttl (hash_field_expire_at_ms b))(k := (fttl (hash_field_expire_at_ms b) k)(f \<mapsto> t))" by blast
  have "dom ((fttl (hash_field_expire_at_ms b) k)(f \<mapsto> t)) \<subseteq> dom (hash_get h)"
    using hash_fttl_dom [OF E b i h(1)] f by auto
  from hash_put [OF E b i h(2) fe(2,3) this] fe(1) show ?thesis by (simp add: put_hash_same [OF h(1)])
qed

lemma clear_field_ttls:
  assumes E: "env_ok E" and b: "bucket_inv E b" and i: "sm_map E (hashes b) k = Some slot"
    and h: "slab_get (hash_slab b) slot = Some h" "hash_ok h"
  shows "bucket_inv E (clear_hash_field_ttls b k fs) \<and>
    bucket_abs E (clear_hash_field_ttls b k fs) =
      a_hash k (hash_get h) (a_fttl (bucket_abs E b) k |` (- set fs)) (bucket_abs E b) \<and>
    hash_slab (clear_hash_field_ttls b k fs) = hash_slab b"
proof -
  have "dom (fttl (hash_field_expire_at_ms b) k) - set fs \<subseteq> dom (hash_get h)"
    using hash_fttl_dom [OF E b i h(1)] by auto
  moreover have "hash_slab (clear_hash_field_ttls b k fs) = hash_slab b"
    using clear_ttls [OF bucket_invD(5) [OF b], of k fs] by auto
  ultimately show ?thesis using hash_store [OF E b i h(2)] by (simp add: put_hash_same [OF h(1)])
qed

lemma set_field_ttls:
  assumes E: "env_ok E" and b: "bucket_inv E b" and i: "sm_map E (hashes b) k = Some slot"
    and h: "slab_get (hash_slab b) slot = Some h" "hash_ok h" and fs: "set fs \<subseteq> dom (hash_get h)"
  shows "bucket_inv E (fold (\<lambda>f b. set_hash_field_expiry b k f t) fs b) \<and>
    bucket_abs E (fold (\<lambda>f b. set_hash_field_expiry b k f t) fs b) =
      a_hash k (hash_get h) (ttls_set (a_fttl (bucket_abs E b) k) (set fs) t) (bucket_abs E b) \<and>
    hash_slab (fold (\<lambda>f b. set_hash_field_expiry b k f t) fs b) = hash_slab b"
  using b i h(1) fs
proof (induction fs arbitrary: b)
  case Nil
  have "a_obj (bucket_abs E b) k = Some (OHash (hash_get h))"
    using hash_slot [OF E Nil(1,2)] Nil(3) by (metis option.inject)
  with Nil a_hash_id [OF this] show ?case by (simp add: ttls_set_def)
next
  case (Cons f fs)
  then have "hash_get h f \<noteq> None" by auto
  note s = set_field_ttl [OF E Cons.prems(1-3) h(2) this, of t]
  let ?b = "set_hash_field_expiry b k f t"
  have "ttls_set (\<lambda>a. if a = f then Some t else ft a) (set fs) t = ttls_set ft (insert f (set fs)) t" for ft
    by (auto simp: ttls_set_def)
  with Cons.IH [of ?b] Cons.prems s show ?case by simp
qed

section \<open>The commands implement their specifications\<close>

lemma expire_loop_law:
  assumes E: "env_ok E" and h: "hash_ok h"
  shows "bucket_inv E b \<Longrightarrow> sm_map E (hashes b) k = Some slot \<Longrightarrow> slab_get (hash_slab b) slot = Some h \<Longrightarrow>
    a_dead (bucket_abs E b) k now = {} \<Longrightarrow>
    expire_codes at_ms cond now (hash_get h) (a_fttl (bucket_abs E b) k) fs = (codes, dels, ft) \<Longrightarrow>
    \<exists>b'. hash_field_expire_loop k slot at_ms cond now fs b = Some (codes, dels, b') \<and> bucket_inv E b' \<and>
      hashes b' = hashes b \<and> hash_slab b' = hash_slab b \<and> bucket_abs E b' = a_hash k (hash_get h) ft (bucket_abs E b)"
proof (induction fs arbitrary: b codes dels)
  case Nil
  have "a_obj (bucket_abs E b) k = Some (OHash (hash_get h))"
    using hash_slot [OF E Nil(1,2)] Nil(3) by (metis option.inject)
  with Nil a_hash_id [OF this] show ?case by simp
next
  case (Cons f fs)
  note live = is_expired_dead [of b k f now E, unfolded Cons.prems(4), simplified]
  have cur: "hash_field_expiry b k f = a_fttl (bucket_abs E b) k f" by (rule hash_field_expiry_abs)
  define ft0 where "ft0 = a_fttl (bucket_abs E b) k"
  show ?case
  proof (cases "hash_get h f \<noteq> None \<and> expire_permits cond at_ms (ft0 f) \<and> \<not> at_ms \<le> now")
    case False
    obtain codes' dels' where r: "expire_codes at_ms cond now (hash_get h) ft0 fs = (codes', dels', ft)"
      using Cons.prems(5) False by (auto simp: ft0_def Let_def split: prod.splits if_splits)
    from Cons.IH [OF Cons.prems(1-4), of codes' dels'] r obtain b' where
      "hash_field_expire_loop k slot at_ms cond now fs b = Some (codes', dels', b')" "bucket_inv E b'"
      "hashes b' = hashes b" "hash_slab b' = hash_slab b" "bucket_abs E b' = a_hash k (hash_get h) ft (bucket_abs E b)"
      by (auto simp: ft0_def)
    with Cons.prems(3,5) False r live cur show ?thesis
      by (auto simp: ft0_def hash_contains_key_def expire_allowed_permits split: if_splits)
  next
    case True
    let ?b = "set_hash_field_expiry b k f at_ms"
    from True set_field_ttl [OF E Cons.prems(1-3) h, of f at_ms] have
      s: "bucket_inv E ?b" "bucket_abs E ?b = a_hash k (hash_get h) (ft0(f \<mapsto> at_ms)) (bucket_abs E b)"
        "hashes ?b = hashes b" "hash_slab ?b = hash_slab b" by (auto simp: ft0_def)
    have ft1: "a_fttl (bucket_abs E ?b) k = ft0(f \<mapsto> at_ms)" by (simp only: s(2) a_fttl_hash fun_upd_same)
    have dead: "a_dead (bucket_abs E ?b) k now = {}"
      using Cons.prems(4) True by (auto simp: a_dead_def ft1 ft0_def simp del: a_fttl_abs)
    obtain codes' dels' where r: "expire_codes at_ms cond now (hash_get h) (ft0(f \<mapsto> at_ms)) fs = (codes', dels', ft)"
      using Cons.prems(5) True by (auto simp: ft0_def Let_def split: prod.splits if_splits)
    have "sm_map E (hashes ?b) k = Some slot" "slab_get (hash_slab ?b) slot = Some h" using Cons.prems(2,3) s by simp_all
    from Cons.IH [OF s(1) this dead, unfolded ft1, OF r] s obtain b' where
      "hash_field_expire_loop k slot at_ms cond now fs ?b = Some (codes', dels', b')" "bucket_inv E b'"
      "hashes b' = hashes b" "hash_slab b' = hash_slab b" "bucket_abs E b' = a_hash k (hash_get h) ft (bucket_abs E b)"
      by auto
    with Cons.prems(3,5) True r live cur show ?thesis by (auto simp: ft0_def hash_contains_key_def expire_allowed_permits)
  qed
qed

lemma hash_field_expire_refines:
  assumes E: "env_ok E"
  shows "refines E (hash_field_expire E k fs at_ms cond now) (spec_hexpire k fs at_ms cond now)"
  unfolding hash_field_expire_def spec_hexpire_def
proof (rule live_hash_refines [OF E], goal_cases)
  case (1 b slot h)
  obtain codes dels ft where r: "expire_codes at_ms cond now (hash_get h) (a_fttl (bucket_abs E b) k) fs = (codes, dels, ft)"
    by (metis prod_cases3)
  from expire_loop_law [OF E 1(4) 1(1-3,6) r] obtain b1 where
    b1: "hash_field_expire_loop k slot at_ms cond now fs b = Some (codes, dels, b1)" "bucket_inv E b1"
      "hashes b1 = hashes b" "hash_slab b1 = hash_slab b" "bucket_abs E b1 = a_hash k (hash_get h) ft (bucket_abs E b)"
    by blast
  have "sm_map E (hashes b1) k = Some slot" "slab_get (hash_slab b1) slot = Some h" using 1(2,3) b1(3,4) by simp_all
  from delete_hash_fields_law [OF E b1(2) this 1(4,5), of dels] obtain b2 where
    b2: "delete_hash_fields E k slot dels b1 = Some (hash_get h |` (- set dels) = Map.empty, b2)" "bucket_inv E b2"
      "bucket_abs E b2 = hash_left k (hash_get h |` (- set dels)) (a_fttl (bucket_abs E b1) k |` (- set dels)) (bucket_abs E b1)"
    by blast
  have "a_fttl (bucket_abs E b1) k = ft" by (simp only: b1(5) a_fttl_hash fun_upd_same)
  with b2(3) have "bucket_abs E b2 = hash_left k (hash_get h |` (- set dels)) (ft |` (- set dels)) (bucket_abs E b)"
    by (simp add: hash_left_def b1(5) del: a_fttl_abs)
  with b1(1) b2(1,2) r show ?case by (simp del: a_fttl_abs)
qed

lemma persist_loop_law:
  assumes E: "env_ok E" and h: "hash_ok h"
  shows "bucket_inv E b \<Longrightarrow> sm_map E (hashes b) k = Some slot \<Longrightarrow> slab_get (hash_slab b) slot = Some h \<Longrightarrow>
    a_dead (bucket_abs E b) k now = {} \<Longrightarrow> persist_codes (hash_get h) (a_fttl (bucket_abs E b) k) fs = (codes, ft) \<Longrightarrow>
    \<exists>b'. hash_field_persist_loop k slot now fs b = Some (codes, b') \<and> bucket_inv E b' \<and>
      bucket_abs E b' = a_hash k (hash_get h) ft (bucket_abs E b)"
proof (induction fs arbitrary: b codes)
  case Nil
  have "a_obj (bucket_abs E b) k = Some (OHash (hash_get h))"
    using hash_slot [OF E Nil(1,2)] Nil(3) by (metis option.inject)
  with Nil a_hash_id [OF this] show ?case by simp
next
  case (Cons f fs)
  note live = is_expired_dead [of b k f now E, unfolded Cons.prems(4), simplified]
  have cur: "hash_field_expiry b k f = a_fttl (bucket_abs E b) k f" by (rule hash_field_expiry_abs)
  define ft0 where "ft0 = a_fttl (bucket_abs E b) k"
  obtain codes' where r: "persist_codes (hash_get h) (if hash_get h f = None then ft0 else ft0(f := None)) fs = (codes', ft)"
    "codes = (if hash_get h f = None then - 2 else if ft0 f = None then - 1 else 1) # codes'"
    using Cons.prems(5) by (auto simp: ft0_def [symmetric] Let_def simp del: a_fttl_abs split: prod.splits)
  show ?case
  proof (cases "hash_get h f = None \<or> ft0 f = None")
    case True
    then have "persist_codes (hash_get h) ft0 fs = (codes', ft)" using r(1) by (auto simp: fun_upd_idem split: if_splits)
    with Cons.IH [OF Cons.prems(1-4)] obtain b' where "hash_field_persist_loop k slot now fs b = Some (codes', b')"
      "bucket_inv E b'" "bucket_abs E b' = a_hash k (hash_get h) ft (bucket_abs E b)" by (auto simp: ft0_def)
    with Cons.prems(3) True r(2) live cur show ?thesis
      by (auto simp: ft0_def hash_contains_key_def split: option.splits)
  next
    case False
    let ?b = "clear_hash_field_ttls b k [f]"
    have s: "bucket_inv E ?b" "bucket_abs E ?b = a_hash k (hash_get h) (ft0(f := None)) (bucket_abs E b)"
        "hash_slab ?b = hash_slab b"
      using clear_field_ttls [OF E Cons.prems(1-3) h, of "[f]"]
      by (auto simp: ft0_def restrict_complement_singleton_eq)
    have ft1: "a_fttl (bucket_abs E ?b) k = ft0(f := None)" by (simp only: s(2) a_fttl_hash fun_upd_same)
    have dead: "a_dead (bucket_abs E ?b) k now = {}"
      using Cons.prems(4) by (auto simp: a_dead_def ft1 ft0_def simp del: a_fttl_abs)
    have "sm_map E (hashes ?b) k = Some slot" "slab_get (hash_slab ?b) slot = Some h" using Cons.prems(2,3) s by simp_all
    note in_slab = this
    have "persist_codes (hash_get h) (ft0(f := None)) fs = (codes', ft)" using r(1) False by (auto split: if_splits)
    from Cons.IH [OF s(1) in_slab dead, unfolded ft1, OF this] obtain b' where
      "hash_field_persist_loop k slot now fs ?b = Some (codes', b')" "bucket_inv E b'"
      "bucket_abs E b' = a_hash k (hash_get h) ft (bucket_abs E b)"
      using s(2) by auto
    with Cons.prems(3) False r(2) live cur show ?thesis
      by (auto simp: ft0_def hash_contains_key_def clear_one)
  qed
qed

lemma hash_field_persist_refines:
  assumes E: "env_ok E"
  shows "refines E (hash_field_persist E k fs now) (spec_hpersist k fs now)"
  unfolding hash_field_persist_def spec_hpersist_def
proof (rule live_hash_refines [OF E], goal_cases)
  case (1 b slot h)
  obtain codes ft where r: "persist_codes (hash_get h) (a_fttl (bucket_abs E b) k) fs = (codes, ft)"
    by (metis prod.exhaust)
  from persist_loop_law [OF E 1(4) 1(1-3,6) r] r show ?case by (auto simp del: a_fttl_abs)
qed

lemma found_fields_set: "set (found_fields fs (map m fs)) = set fs \<inter> dom m"
  by (induction fs) (auto simp: found_fields_def)

lemma restrict_found: "dom ft \<subseteq> dom m \<Longrightarrow> ft |` (- (F \<inter> dom m)) = ft |` (- F)"
  by (fastforce simp: restrict_map_def fun_eq_iff dom_def)

lemma hash_field_getdel_refines:
  assumes E: "env_ok E"
  shows "refines E (hash_field_getdel E k fs now) (spec_hgetdel k fs now)"
  unfolding hash_field_getdel_def spec_hgetdel_def
proof (rule live_hash_refines [OF E], goal_cases)
  case (1 b slot h)
  have "hash_get h |` (- (set fs \<inter> dom (hash_get h))) = hash_get h |` (- set fs)"
    "a_fttl (bucket_abs E b) k |` (- (set fs \<inter> dom (hash_get h))) = a_fttl (bucket_abs E b) k |` (- set fs)"
    using restrict_found [of "hash_get h" "hash_get h"] restrict_found [OF hash_fttl_dom [OF E 1(1-3)]] by simp_all
  with delete_hash_fields_law [OF E 1(1-5), of "found_fields fs (map (hash_get h) fs)"] 1(3) show ?case
    by (auto simp: found_fields_set simp del: a_fttl_abs)
qed

lemma hash_field_getex_refines:
  assumes E: "env_ok E"
  shows "refines E (hash_field_getex E k fs action now) (spec_hgetex k fs action now)"
  unfolding hash_field_getex_def spec_hgetex_def
proof (rule live_hash_refines [OF E], goal_cases)
  case (1 b slot h)
  let ?ff = "found_fields fs (map (hash_get h) fs)"
  have none: "delete_hash_fields E k slot [] b1 = Some (False, b1)" for b1 :: "('a, 'b) bucket"
    by (simp add: delete_hash_fields_def)
  show ?case
  proof (cases action)
    case GetKeep
    with 1 none show ?thesis by simp
  next
    case GetPersist
    with 1 none clear_field_ttls [OF E 1(1-4), of ?ff] show ?thesis
      by (auto simp: found_fields_set Let_def simp del: a_fttl_abs)
  next
    case (GetExpireAt at_ms)
    show ?thesis
    proof (cases "at_ms \<le> now")
      case True
      with GetExpireAt 1(3) delete_hash_fields_law [OF E 1(1-5), of ?ff] show ?thesis
        by (auto simp: found_fields_set Let_def simp del: a_fttl_abs)
    next
      case False
      with GetExpireAt 1 none set_field_ttls [OF E 1(1-4), of ?ff at_ms] show ?thesis
        by (simp add: found_fields_set Let_def del: a_fttl_abs)
    qed
  qed
qed

definition spec_httl :: "bytes \<Rightarrow> bytes list \<Rightarrow> bool \<Rightarrow> bool \<Rightarrow> u64 \<Rightarrow> astate \<Rightarrow> redis_object_result" where
  "spec_httl k fs as_millis absolute now A =
     read_obj as_hash k (IntegerArray (replicate (length fs) (- 2))) WrongType
       (\<lambda>_. IntegerArray (map (\<lambda>f.
          if a_live A k now f = None then - 2
          else case a_fttl A k f of None \<Rightarrow> - 1 | Some t \<Rightarrow> ttl_value as_millis absolute t now) fs)) A"

lemma hash_field_ttl_query_reads:
  assumes E: "env_ok E"
  shows "reads E (hash_field_ttl_query E k fs as_millis absolute now) (spec_httl k fs as_millis absolute now)"
proof (rule readsI)
  fix b assume b: "bucket_inv E b"
  show "hash_field_ttl_query E k fs as_millis absolute now b = Some (spec_httl k fs as_millis absolute now (bucket_abs E b))"
    using E b
  proof (cases rule: hash_kind.lookup [where k = k])
    case (hit slot h m ob)
    then have o: "a_obj (bucket_abs E b) k = Some (OHash (hash_get h))" by simp
    have "\<not> hash_contains_key h f \<or> hash_field_is_expired b k f now \<longleftrightarrow> a_live (bucket_abs E b) k now f = None" for f
      by (simp add: a_live_hash [OF o] restrict_map_def hash_contains_key_def is_expired_dead [of b k f now E])
    with hit(2,3) o show ?thesis
      by (simp add: hash_field_ttl_query_def spec_httl_def read_obj_def hash_field_expiry_abs [of b k _ E] del: a_fttl_abs)
  qed (auto simp: hash_field_ttl_query_def spec_httl_def read_obj_def)
qed

lemma put_hash_get:
  "slab_get (hash_slab b) slot = Some h \<Longrightarrow> slab_get (hash_slab (put_hash b slot h')) slot = Some h'"
  by (auto simp: put_hash_def slab_put_def slab_get_def split: if_splits)

lemma restrict_map_add_image: "(m ++ map_of (rev kvs)) |` (- (fst ` set kvs)) = m |` (- (fst ` set kvs))"
proof
  fix x
  have "x \<notin> fst ` set kvs \<Longrightarrow> map_of (rev kvs) x = None" by (simp add: map_of_eq_None_iff)
  then show "((m ++ map_of (rev kvs)) |` (- (fst ` set kvs))) x = (m |` (- (fst ` set kvs))) x"
    by (cases "x \<in> fst ` set kvs") (simp_all add: map_add_def)
qed

lemma hash_field_setex_apply_law:
  assumes E: "env_ok E" and b: "bucket_inv E b" and i: "sm_map E (hashes b) k = Some slot"
    and h: "slab_get (hash_slab b) slot = Some h" "hash_ok h" and ne: "fvs \<noteq> []"
  shows "\<exists>r fl b'. hash_field_setex_apply E k slot created fvs action now b = Some (r, fl, b') \<and> bucket_inv E b' \<and>
    spec_hsetex_apply k created fvs action now (hash_get h) (bucket_abs E b) = (r, fl, bucket_abs E b')"
proof -
  from ho.insert_each_law [OF h(2), of fvs] obtain n h1 where
    h1: "insert_each (\<lambda>h f v. Some (hash_insert_slice h f v)) h fvs = Some (n, h1)"
      "hash_ok h1" "hash_get h1 = hash_get h ++ map_of (rev fvs)" by blast
  have "dom (hash_get h1) = dom (hash_get h) \<union> fst ` set fvs" by (auto simp: h1(3) dom_map_of_conv_image_fst)
  moreover have "fst ` set fvs \<noteq> {}" using ne by simp
  ultimately have F: "set (map fst fvs) \<subseteq> dom (hash_get h1)" "hash_get h1 \<noteq> Map.empty" by auto
  have out: "hash_get h1 |` (- (fst ` set fvs)) = hash_get h |` (- (fst ` set fvs))"
    by (simp add: h1(3) restrict_map_add_image)
  let ?b = "put_hash b slot h1"
  have "dom (fttl (hash_field_expire_at_ms b) k) - set [] \<subseteq> dom (hash_get h1)"
    using hash_fttl_dom [OF E b i h(1)] h1(3) by auto
  from hash_store [OF E b i h1(2) this] have
    b1: "bucket_inv E ?b" "bucket_abs E ?b = a_hash k (hash_get h1) (a_fttl (bucket_abs E b) k) (bucket_abs E b)"
    by (simp_all flip: clear_none)
  have i1: "sm_map E (hashes ?b) k = Some slot" "slab_get (hash_slab ?b) slot = Some h1"
    using i put_hash_get [OF h(1)] by (simp_all add: put_hash_def)
  have ft: "a_fttl (bucket_abs E ?b) k = a_fttl (bucket_abs E b) k" by (simp only: b1(2) a_fttl_hash fun_upd_same)
  note changed = delete_hash_fields_law [OF E b1(1) i1 h1(2) F(2), of "map fst fvs"]
    clear_field_ttls [OF E b1(1) i1 h1(2), of "map fst fvs"]
    set_field_ttls [OF E b1(1) i1 h1(2) F(1)]
  show ?thesis
  proof (cases action)
    case SetClear
    with changed(2) h(1) h1 b1(2) ft show ?thesis
      by (simp add: hash_field_setex_apply_def spec_hsetex_apply_def Let_def del: a_fttl_abs)
  next
    case SetKeepTtl
    with b1 h(1) h1 show ?thesis by (simp add: hash_field_setex_apply_def spec_hsetex_apply_def)
  next
    case (SetExpireAt at_ms)
    show ?thesis
    proof (cases "at_ms \<le> now")
      case True
      from changed(1) obtain b' where b': "delete_hash_fields E k slot (map fst fvs) ?b =
          Some (hash_get h |` (- (fst ` set fvs)) = Map.empty, b')" "bucket_inv E b'"
        "bucket_abs E b' = hash_left k (hash_get h |` (- (fst ` set fvs))) (a_fttl (bucket_abs E b) k |` (- (fst ` set fvs)))
          (bucket_abs E ?b)" by (auto simp: ft out simp del: a_fttl_abs)
      from b'(1) ne i1(2) h(1) h1(1) SetExpireAt True have
        "hash_field_setex_apply E k slot created fvs action now b =
          Some (Integer 1, created \<or> hash_get h |` (- (fst ` set fvs)) = Map.empty, b')"
        by (auto simp: hash_field_setex_apply_def delete_hash_fields_def Let_def split: if_splits)
      with b'(2,3) SetExpireAt True show ?thesis
        by (auto simp: spec_hsetex_apply_def Let_def b1(2) hash_left_def simp del: a_fttl_abs)
    next
      case False
      with SetExpireAt changed(3) [of at_ms] h(1) h1 b1(2) ft show ?thesis
        by (simp add: hash_field_setex_apply_def spec_hsetex_apply_def Let_def del: a_fttl_abs)
    qed
  qed
qed

text \<open>A new empty hash, as the creating branch has it before the fields are stored.\<close>

lemma hash_create_empty:
  assumes E: "env_ok E" and b: "bucket_inv E b" and k: "a_obj (bucket_abs E b) k = None"
  shows "\<exists>slot slab b' h. slab_insert (hash_slab b) (hash_map_with_capacity n) = Some (slot, slab) \<and>
    b' = b\<lparr>hash_slab := slab, hashes := snd (sm_insert_hashed E (hashes b) (hash_key E k) k slot)\<rparr> \<and> bucket_inv E b' \<and>
    bucket_abs E b' = a_put k (OHash Map.empty) (bucket_abs E b) \<and>
    sm_map E (hashes b') k = Some slot \<and> slab_get (hash_slab b') slot = Some h \<and> hash_ok h \<and> hash_get h = Map.empty"
proof -
  have c: "hash_ok (hash_map_with_capacity n)" "hash_get (hash_map_with_capacity n) = Map.empty"
    using hash_capacity_law by auto
  from hash_create [OF E b k c(1)] obtain b' where
    b': "new_hash E b (hash_key E k) k (hash_map_with_capacity n) = Some b'" "bucket_inv E b'"
      "bucket_abs E b' = a_put k (OHash Map.empty) (bucket_abs E b)" by (auto simp: c(2))
  from b'(1) obtain slot slab where s: "slab_insert (hash_slab b) (hash_map_with_capacity n) = Some (slot, slab)"
    "b' = b\<lparr>hash_slab := slab, hashes := snd (sm_insert_hashed E (hashes b) (hash_key E k) k slot)\<rparr>"
    by (auto simp: new_hash_def split: bind_splits)
  have "sm_map E (hashes b) k = None" using hash_slot [OF E b] k by (metis not_None_eq)
  with s(2) have m: "sm_map E (hashes b') k = Some slot"
    using sm_insert_hashed_new(3) [OF E table_okD(1) [OF bucket_invD(1) [OF b]]] by simp
  obtain h where "slab_get (hash_slab b') slot = Some h" "hash_ok h" "hash_get h = Map.empty"
    by (rule hash_slot [OF E b'(2) m]) (use b'(3) in auto)
  with b' s m show ?thesis by blast
qed

lemma delete_absent: "map_of kvs k = None \<Longrightarrow> AList.delete k kvs = kvs"
  by (induction kvs) (auto split: if_splits)

lemma hash_field_setex_refines:
  assumes E: "env_ok E"
  shows "refines E (hash_field_setex E k fvs condition action now) (spec_hsetex k fvs condition action now)"
proof (rule refinesI)
  fix b assume b: "bucket_inv E b"
  let ?A = "bucket_abs E b"
  let ?goal = "\<exists>r fl b'. hash_field_setex E k fvs condition action now b = Some (r, fl, b') \<and> bucket_inv E b' \<and>
      spec_hsetex k fvs condition action now ?A = (r, fl, bucket_abs E b')"
  show ?goal
  proof (cases "fvs = []")
    case True
    with b show ?thesis by (simp add: hash_field_setex_def spec_hsetex_def)
  next
    case ne: False
    from remove_expired_law [OF E b] obtain b1 where b1: "remove_expired_hash_fields E b k now = Some b1"
      "bucket_inv E b1" "bucket_abs E b1 = a_purge k now ?A" by blast
    define gone where "gone \<longleftrightarrow> a_obj (a_purge k now ?A) k = Some (OHash Map.empty)"
    from remove_if_empty_law [OF E b1(2), of k, unfolded b1(3), folded gone_def] obtain b2 where
      b2: "remove_hash_if_empty E b1 k = Some (gone, b2)" "bucket_inv E b2"
        "bucket_abs E b2 = (if gone then a_del k (a_purge k now ?A) else a_purge k now ?A)" by blast
    then have reap: "bucket_abs E b2 = snd (a_reap k now ?A)" by (simp add: a_reap_def gone_def Let_def)
    have same: "(if gone then b2\<lparr>expire_at_ms := hm_del k (expire_at_ms b2)\<rparr> else b2) = b2"
      using key_inv_none(5) [OF b2(2), of k] b2(3) by (simp add: hm_remove_def delete_absent)
    show ?thesis
      using E b2(2)
    proof (cases rule: hash_kind.lookup [where k = k])
      case (hit slot h m ob)
      then have m: "m = hash_get h" "a_obj (bucket_abs E b2) k = Some (OHash m)" by simp_all
      define n where "n = length (filter (\<lambda>fv. m (fst fv) \<noteq> None) fvs)"
      have "hash_field_setex E k fvs condition action now b = (if set_allowed condition n (length fvs)
          then hash_field_setex_apply E k slot False fvs action now b2 else Some (Integer 0, False, b2))"
        using hit(2,3) m(1) b1(1) b2(1) ne same by (simp add: hash_field_setex_def Let_def hash_contains_key_def n_def)
      moreover have "spec_hsetex k fvs condition action now ?A = (if set_allowed condition n (length fvs)
          then spec_hsetex_apply k False fvs action now m (bucket_abs E b2) else (Integer 0, False, bucket_abs E b2))"
        using m(2) reap ne by (simp add: spec_hsetex_def Let_def read_obj_def n_def)
      moreover have "hash_ok h" using hit(4) by simp
      note hash_field_setex_apply_law [OF E b2(2) hit(1,3) this ne, of False action now, folded m(1)]
      ultimately show ?thesis using b2(2) by (cases "set_allowed condition n (length fvs)") auto
    next
      case (wrong ob)
      with b1(1) b2(1,2) ne same reap show ?thesis by (auto simp: hash_field_setex_def spec_hsetex_def read_obj_def Let_def)
    next
      case miss
      from hash_create_empty [OF E b2(2) miss(4), of "length fvs"] obtain slot slab b' h where
        c: "slab_insert (hash_slab b2) (hash_map_with_capacity (length fvs)) = Some (slot, slab)"
          "b' = b2\<lparr>hash_slab := slab, hashes := snd (sm_insert_hashed E (hashes b2) (hash_key E k) k slot)\<rparr>" "bucket_inv E b'"
          "bucket_abs E b' = a_put k (OHash Map.empty) (bucket_abs E b2)"
          "sm_map E (hashes b') k = Some slot" "slab_get (hash_slab b') slot = Some h" "hash_ok h" "hash_get h = Map.empty"
        by blast
      from hash_field_setex_apply_law [OF E c(3,5-7) ne, of True action now] c b1(1) b2(1,2) ne same reap miss show ?thesis
        by (auto simp: hash_field_setex_def spec_hsetex_def read_obj_def Let_def)
    qed
  qed
qed

lemma on_live_flag:
  assumes "\<And>A m. a_obj A k = Some (OHash m) \<Longrightarrow>
    fst (snd (f A m)) = (a_obj (snd (snd (f A m))) k = None) \<and> same_but k A (snd (snd (f A m)))"
  shows "flag_exact k (on_live k now missing f)"
  unfolding on_live_def [abs_def]
proof (rule on_obj_flag, goal_cases)
  case (1 A m)
  let ?A = "a_purge k now A"
  have same: "same_but k A ?A" by (simp add: same_but_intros)
  show ?case
  proof (cases "a_live A k now = Map.empty")
    case True
    with same show ?thesis by (simp add: Let_def same_but_del)
  next
    case False
    have "a_obj ?A k = Some (OHash (a_live A k now))" using 1 a_dead_purge(2) by auto
    from assms [OF this] same False show ?thesis by (auto simp: Let_def intro: same_but_trans)
  qed
qed

lemma hexpire_flag: "flag_exact k (spec_hexpire k fs at_ms cond now)"
  unfolding spec_hexpire_def by (rule on_live_flag) (simp add: same_but_intros split: prod.split)

lemma hpersist_flag: "flag_exact k (spec_hpersist k fs now)"
  unfolding spec_hpersist_def by (rule on_live_flag) (simp add: same_but_intros split: prod.split)

lemma hgetdel_flag: "flag_exact k (spec_hgetdel k fs now)"
  unfolding spec_hgetdel_def by (rule on_live_flag) (simp add: same_but_intros)

lemma hgetex_flag: "flag_exact k (spec_hgetex k fs action now)"
  unfolding spec_hgetex_def
  by (rule on_live_flag) (simp add: same_but_intros Let_def split: hash_field_get_expire_action.split)

text \<open>
  The flag of \<^verbatim>\<open>HSETEX\<close> is exact unless the stored hash had no live field left, or the fields of a
  missing key are stored with a deadline in the past: there the flag is set and no object appears.
\<close>

lemma a_reap_obj: "a_obj (snd (a_reap k now A)) k = None \<longleftrightarrow> a_obj A k = None \<or> fst (a_reap k now A)"
  by (simp add: a_reap_def Let_def)

lemma same_but_reap: "same_but k A (snd (a_reap k now A))"
  by (simp add: a_reap_def Let_def same_but_intros)

lemma hsetex_apply_obj:
  "spec_hsetex_apply k created fvs action now m A = (r, fl, A') \<Longrightarrow>
   same_but k A A' \<and> (a_obj A' k = None \<longrightarrow> fl) \<and> (fl \<longrightarrow> created \<or> a_obj A' k = None) \<and> (created \<longrightarrow> fl) \<and>
   (a_obj A' k = None \<longrightarrow> (\<exists>t. action = SetExpireAt t \<and> t \<le> now))"
  by (auto simp: spec_hsetex_apply_def Let_def same_but_intros hash_left_def split: hash_field_set_expire_action.splits if_splits)

lemma hsetex_same_but:
  assumes "spec_hsetex k fvs condition action now A = (r, fl, A')"
  shows "same_but k A A'"
proof -
  have put: "same_but k A (a_put k (OHash Map.empty) (snd (a_reap k now A)))" by (intro same_but_put same_but_reap)
  from assms show ?thesis
    by (auto simp: spec_hsetex_def read_obj_def Let_def same_but_refl same_but_reap split: if_splits option.splits
        dest!: hsetex_apply_obj intro: same_but_trans [OF same_but_reap] same_but_trans [OF put])
qed

lemma hsetex_flag:
  assumes "spec_hsetex k fvs condition action now A = (r, fl, A')" "\<not> fst (a_reap k now A)"
    "a_obj A k = None \<Longrightarrow> \<forall>t. action = SetExpireAt t \<longrightarrow> now < t"
  shows "fl \<longleftrightarrow> (a_obj A k = None) \<noteq> (a_obj A' k = None)"
proof -
  have "a_obj (snd (a_reap k now A)) k = None \<longleftrightarrow> a_obj A k = None" using a_reap_obj assms(2) by auto
  with assms(1,3) show ?thesis
    by (cases "a_obj A k = None")
      (auto simp: spec_hsetex_def read_obj_def Let_def split: if_splits option.splits dest!: hsetex_apply_obj)
qed

lemma hsetex_phantom:
  assumes "a_obj A k = None" "fvs \<noteq> []" "set_allowed condition 0 (length fvs)" "t \<le> now"
  shows "spec_hsetex k fvs condition (SetExpireAt t) now A = (Integer 1, True, a_del k A)"
proof -
  have "a_reap k now A = (False, A)" using assms(1) by (simp add: a_reap_def a_purge_def)
  with assms show ?thesis
    by (simp add: spec_hsetex_def read_obj_def spec_hsetex_apply_def Let_def hash_left_def a_del_def a_put_def)
qed

interpretation hexpire: bucket_write E k "hash_field_expire E k fs at_ms cond now" "spec_hexpire k fs at_ms cond now"
  for E k fs at_ms cond now
  by unfold_locales (simp_all add: hash_field_expire_refines hexpire_flag)

interpretation hpersist: bucket_write E k "hash_field_persist E k fs now" "spec_hpersist k fs now" for E k fs now
  by unfold_locales (simp_all add: hash_field_persist_refines hpersist_flag)

interpretation hgetdel: bucket_write E k "hash_field_getdel E k fs now" "spec_hgetdel k fs now" for E k fs now
  by unfold_locales (simp_all add: hash_field_getdel_refines hgetdel_flag)

interpretation hgetex: bucket_write E k "hash_field_getex E k fs action now" "spec_hgetex k fs action now"
  for E k fs action now
  by unfold_locales (simp_all add: hash_field_getex_refines hgetex_flag)

end
