(* ===== verification/BucketList.thy ===== *)
theory BucketList
  imports Kinds
begin

text \<open>
  The list commands of a bucket (\<^verbatim>\<open>bucket_list.rs\<close>), each shown to implement its abstract
  specification on the value at the key. A write command returns its result, the flag
  \<^verbatim>\<open>object_changed\<close> and the bucket; a \<^verbatim>\<open>visit\<close> method returns the values it passed to its
  callback and its outcome.
\<close>

section \<open>Write commands\<close>

definition push_list_existing_or_wrongtype_hashed ::
  "('h, 't) env \<Rightarrow> u64 \<Rightarrow> bytes \<Rightarrow> bytes list \<Rightarrow> bool \<Rightarrow> ('h, 't) bucket \<Rightarrow> (write_attempt \<times> ('h, 't) bucket) option" where
  "push_list_existing_or_wrongtype_hashed E key_hash key values front b =
     (if values = [] then Some (Complete (Integer 0), b)
      else case sm_get_hashed E (lists b) key_hash key of
        Some slot \<Rightarrow> do {
          l \<leftarrow> slab_get (list_slab b) slot;
          l' \<leftarrow> list_push_values l values front;
          Some (Complete (Integer (int (list_len l'))), put_list b slot l')
        }
      | None \<Rightarrow>
          if has_non_list E b key then Some (Complete WrongType, b)
          else Some (MissingObject, b))"

definition push_list_new_unchecked_hashed ::
  "('h, 't) env \<Rightarrow> u64 \<Rightarrow> bytes \<Rightarrow> bytes list \<Rightarrow> bool \<Rightarrow> ('h, 't) bucket \<Rightarrow> (redis_object_result \<times> ('h, 't) bucket) option" where
  "push_list_new_unchecked_hashed E key_hash key values front b = do {
     l \<leftarrow> list_from_values values front;
     b' \<leftarrow> new_list E b key_hash key l;
     Some (Integer (int (length values)), b')
   }"

definition push_list_existing_hashed ::
  "('h, 't) env \<Rightarrow> u64 \<Rightarrow> bytes \<Rightarrow> bytes list \<Rightarrow> bool \<Rightarrow> ('h, 't) bucket \<Rightarrow> (redis_object_result \<times> bool \<times> ('h, 't) bucket) option" where
  "push_list_existing_hashed E key_hash key values front b =
     (if values = [] then Some (Integer 0, False, b)
      else case sm_get_hashed E (lists b) key_hash key of
        Some slot \<Rightarrow> do {
          l \<leftarrow> slab_get (list_slab b) slot;
          l' \<leftarrow> list_push_values l values front;
          Some (Integer (int (list_len l')), False, put_list b slot l')
        }
      | None \<Rightarrow>
          if has_non_list_hashed E b key_hash key then Some (WrongType, False, b)
          else Some (Integer 0, False, b))"

definition pop_list ::
  "('h, 't) env \<Rightarrow> bytes \<Rightarrow> bool \<Rightarrow> ('h, 't) bucket \<Rightarrow> (redis_object_result \<times> bool \<times> ('h, 't) bucket) option" where
  "pop_list E key front b =
     (case sm_get E (lists b) key of
        Some slot \<Rightarrow> do {
          l \<leftarrow> slab_get (list_slab b) slot;
          (value, l') \<leftarrow> (if front then list_pop_front l else list_pop_back l);
          let b1 = put_list b slot l' in
          Some (Bulk value, list_is_empty l', if list_is_empty l' then drop_list E b1 key slot else b1)
        }
      | None \<Rightarrow>
          if has_non_list E b key then Some (WrongType, False, b) else Some (Bulk None, False, b))"

definition pop_list_count ::
  "('h, 't) env \<Rightarrow> bytes \<Rightarrow> nat \<Rightarrow> bool \<Rightarrow> ('h, 't) bucket \<Rightarrow> (redis_object_result \<times> bool \<times> ('h, 't) bucket) option" where
  "pop_list_count E key n front b =
     (if n = 0 then Some (Array [], False, b)
      else case sm_get E (lists b) key of
        Some slot \<Rightarrow> do {
          l \<leftarrow> slab_get (list_slab b) slot;
          (values, l') \<leftarrow> pop_count_loop (if front then list_pop_front else list_pop_back) n l;
          let b1 = put_list b slot l' in
          Some (Array (map Some values), list_is_empty l',
                if list_is_empty l' then drop_list E b1 key slot else b1)
        }
      | None \<Rightarrow>
          if has_non_list E b key then Some (WrongType, False, b) else Some (Bulk None, False, b))"

definition lset ::
  "('h, 't) env \<Rightarrow> bytes \<Rightarrow> int \<Rightarrow> bytes \<Rightarrow> ('h, 't) bucket \<Rightarrow> (redis_object_result \<times> bool \<times> ('h, 't) bucket) option" where
  "lset E key index value b =
     (case sm_get E (lists b) key of
        Some slot \<Rightarrow> do {
          l \<leftarrow> slab_get (list_slab b) slot;
          (case normalize_index index (list_len l) of
             None \<Rightarrow> Some (Simple ''ERR index out of range'', False, b)
           | Some i \<Rightarrow> do {
               l' \<leftarrow> list_set l i value;
               Some (Simple ''OK'', False, put_list b slot l')
             })
        }
      | None \<Rightarrow>
          if has_non_list E b key then Some (WrongType, False, b)
          else Some (Simple ''ERR no such key'', False, b))"

definition lrem ::
  "('h, 't) env \<Rightarrow> bytes \<Rightarrow> int \<Rightarrow> bytes \<Rightarrow> ('h, 't) bucket \<Rightarrow> (redis_object_result \<times> bool \<times> ('h, 't) bucket) option" where
  "lrem E key n value b =
     (case sm_get E (lists b) key of
        Some slot \<Rightarrow> do {
          l \<leftarrow> slab_get (list_slab b) slot;
          (removed, l') \<leftarrow>
            (if 0 \<le> n
             then lrem_forward list_get list_remove list_len value
                    (if n = 0 then USIZE_MAX else nat n) 0 0 l
             else lrem_backward list_get list_remove value (nat \<bar>n\<bar>) (list_len l) 0 l);
          let b1 = put_list b slot l' in
          Some (Integer (int removed), list_is_empty l',
                if list_is_empty l' then drop_list E b1 key slot else b1)
        }
      | None \<Rightarrow>
          if has_non_list E b key then Some (WrongType, False, b) else Some (Integer 0, False, b))"

definition ltrim ::
  "('h, 't) env \<Rightarrow> bytes \<Rightarrow> int \<Rightarrow> int \<Rightarrow> ('h, 't) bucket \<Rightarrow> (redis_object_result \<times> bool \<times> ('h, 't) bucket) option" where
  "ltrim E key start stop b =
     (case sm_get E (lists b) key of
        Some slot \<Rightarrow> do {
          l \<leftarrow> slab_get (list_slab b) slot;
          (case normalize_range start stop (list_len l) of
             None \<Rightarrow> Some (Simple ''OK'', True, drop_list E (put_list b slot (list_clear l)) key slot)
           | Some (first, final) \<Rightarrow> do {
               l1 \<leftarrow> pop_times list_pop_front first l;
               l2 \<leftarrow> pop_while_longer list_pop_back list_len (final - first + 1) l1;
               let b1 = put_list b slot l2 in
               Some (Simple ''OK'', list_is_empty l2,
                     if list_is_empty l2 then drop_list E b1 key slot else b1)
             })
        }
      | None \<Rightarrow>
          if has_non_list E b key then Some (WrongType, False, b) else Some (Simple ''OK'', False, b))"

definition linsert ::
  "('h, 't) env \<Rightarrow> bytes \<Rightarrow> bool \<Rightarrow> bytes \<Rightarrow> bytes \<Rightarrow> ('h, 't) bucket \<Rightarrow> (redis_object_result \<times> bool \<times> ('h, 't) bucket) option" where
  "linsert E key before pivot value b =
     (case sm_get E (lists b) key of
        Some slot \<Rightarrow> do {
          l \<leftarrow> slab_get (list_slab b) slot;
          (case position (\<lambda>item. item = pivot) (list_iter l) of
             None \<Rightarrow> Some (Integer (- 1), False, b)
           | Some index \<Rightarrow> do {
               l' \<leftarrow> list_insert l (if before then index else index + 1) value;
               Some (Integer (int (list_len l')), False, put_list b slot l')
             })
        }
      | None \<Rightarrow>
          if has_non_list E b key then Some (WrongType, False, b) else Some (Integer 0, False, b))"

section \<open>Read commands\<close>

definition list_presence_hashed :: "('h, 't) env \<Rightarrow> ('h, 't) bucket \<Rightarrow> u64 \<Rightarrow> bytes \<Rightarrow> read_outcome" where
  "list_presence_hashed E b key_hash key =
     (if sm_get_hashed E (lists b) key_hash key \<noteq> None then Written
      else if has_non_list_hashed E b key_hash key then WrongTypeOutcome
      else Missing)"

definition llen :: "('h, 't) env \<Rightarrow> bytes \<Rightarrow> ('h, 't) bucket \<Rightarrow> redis_object_result option" where
  "llen E key b =
     (case sm_get E (lists b) key of
        Some slot \<Rightarrow> do { l \<leftarrow> slab_get (list_slab b) slot; Some (Integer (int (list_len l))) }
      | None \<Rightarrow> if has_non_list E b key then Some WrongType else Some (Integer 0))"

definition llen_visit :: "('h, 't) env \<Rightarrow> bytes \<Rightarrow> ('h, 't) bucket \<Rightarrow> (int list \<times> read_outcome) option" where
  "llen_visit E key b =
     (case sm_get E (lists b) key of
        Some slot \<Rightarrow> do { l \<leftarrow> slab_get (list_slab b) slot; Some ([int (list_len l)], Written) }
      | None \<Rightarrow> if has_non_list E b key then Some ([], WrongTypeOutcome) else Some ([], Missing))"

definition lindex :: "('h, 't) env \<Rightarrow> bytes \<Rightarrow> int \<Rightarrow> ('h, 't) bucket \<Rightarrow> redis_object_result option" where
  "lindex E key index b =
     (case sm_get E (lists b) key of
        Some slot \<Rightarrow> do {
          l \<leftarrow> slab_get (list_slab b) slot;
          (case normalize_index index (list_len l) of
             None \<Rightarrow> Some (Bulk None)
           | Some i \<Rightarrow> Some (Bulk (list_get l i)))
        }
      | None \<Rightarrow> if has_non_list E b key then Some WrongType else Some (Bulk None))"

definition lindex_visit :: "('h, 't) env \<Rightarrow> bytes \<Rightarrow> int \<Rightarrow> ('h, 't) bucket \<Rightarrow> (bytes option list \<times> read_outcome) option" where
  "lindex_visit E key index b =
     (case sm_get E (lists b) key of
        Some slot \<Rightarrow> do {
          l \<leftarrow> slab_get (list_slab b) slot;
          Some ([Option.bind (normalize_index index (list_len l)) (list_get l)], Written)
        }
      | None \<Rightarrow> if has_non_list E b key then Some ([], WrongTypeOutcome) else Some ([], Missing))"

definition lrange :: "('h, 't) env \<Rightarrow> bytes \<Rightarrow> int \<Rightarrow> int \<Rightarrow> ('h, 't) bucket \<Rightarrow> redis_object_result option" where
  "lrange E key start stop b =
     (case sm_get E (lists b) key of
        Some slot \<Rightarrow> do {
          l \<leftarrow> slab_get (list_slab b) slot;
          (case normalize_range start stop (list_len l) of
             None \<Rightarrow> Some (Array [])
           | Some (first, final) \<Rightarrow>
               Some (Array (map Some (take (final - first + 1) (drop first (list_iter l))))))
        }
      | None \<Rightarrow> if has_non_list E b key then Some WrongType else Some (Array []))"

definition lrange_visit :: "('h, 't) env \<Rightarrow> bytes \<Rightarrow> int \<Rightarrow> int \<Rightarrow> ('h, 't) bucket \<Rightarrow> (array_item list \<times> read_outcome) option" where
  "lrange_visit E key start stop b =
     (case sm_get E (lists b) key of
        Some slot \<Rightarrow> do {
          l \<leftarrow> slab_get (list_slab b) slot;
          (case normalize_range start stop (list_len l) of
             None \<Rightarrow> Some ([Begin 0], Written)
           | Some (first, final) \<Rightarrow>
               let n = final - first + 1
               in Some (Begin n # map (\<lambda>v. Item (Some v)) (take n (drop first (list_iter l))), Written))
        }
      | None \<Rightarrow> if has_non_list E b key then Some ([], WrongTypeOutcome) else Some ([], Missing))"

text \<open>\<^verbatim>\<open>i64 as usize\<close> reduces modulo \<open>2 ^ 64\<close>.\<close>

definition i64_as_usize :: "int \<Rightarrow> nat" where
  "i64_as_usize v = nat (v mod 2 ^ 64)"

text \<open>The closure \<open>collect\<close>: it returns whether the scan stops, and the new skip and results.\<close>

definition lpos_collect :: "nat option \<Rightarrow> int \<Rightarrow> nat \<Rightarrow> int list \<Rightarrow> bool \<times> nat \<times> int list" where
  "lpos_collect wanted pos skip results =
     (if 0 < skip then (False, skip - 1, results)
      else let results' = results @ [pos]
           in (case wanted of None \<Rightarrow> True | Some 0 \<Rightarrow> False | Some limit \<Rightarrow> limit \<le> length results',
               skip, results'))"

fun lpos_forward :: "bytes \<Rightarrow> nat \<Rightarrow> nat option \<Rightarrow> nat \<Rightarrow> nat \<Rightarrow> int list \<Rightarrow> bytes list \<Rightarrow> int list" where
  "lpos_forward element limit wanted index skip results [] = results"
| "lpos_forward element limit wanted index skip results (x # xs) =
     (if limit \<noteq> 0 \<and> limit \<le> index then results
      else if x = element
      then (case lpos_collect wanted (int index) skip results of
              (stop, skip', results') \<Rightarrow>
                if stop then results'
                else lpos_forward element limit wanted (index + 1) skip' results' xs)
      else lpos_forward element limit wanted (index + 1) skip results xs)"

fun lpos_walk :: "nat option \<Rightarrow> nat \<Rightarrow> int list \<Rightarrow> int list \<Rightarrow> int list" where
  "lpos_walk wanted skip results [] = results"
| "lpos_walk wanted skip results (p # ps) =
     (case lpos_collect wanted p skip results of
        (stop, skip', results') \<Rightarrow> if stop then results' else lpos_walk wanted skip' results' ps)"

definition lpos_scan :: "bytes list_object \<Rightarrow> bytes \<Rightarrow> int \<Rightarrow> int option \<Rightarrow> int \<Rightarrow> int list option" where
  "lpos_scan l element rank wanted_count maxlen =
     (let n = list_len l
      in if n = 0 then Some []
         else do {
           skip \<leftarrow> usize_sub (nat \<bar>rank\<bar>) 1;
           let wanted = map_option i64_as_usize wanted_count;
               compare_limit = i64_as_usize maxlen
           in if 0 < rank
              then Some (lpos_forward element compare_limit wanted 0 skip [] (list_iter l))
              else let window_start = (if compare_limit = 0 then 0 else n - compare_limit);
                       matched = map (\<lambda>(i, _). int i)
                         (filter (\<lambda>(i, item). window_start \<le> i \<and> item = element)
                           (enumerate 0 (list_iter l)))
                   in Some (lpos_walk wanted skip [] (rev matched))
         })"

definition lpos_visit ::
  "('h, 't) env \<Rightarrow> bytes \<Rightarrow> bytes \<Rightarrow> int \<Rightarrow> int option \<Rightarrow> int \<Rightarrow> ('h, 't) bucket \<Rightarrow> (int list list \<times> read_outcome) option" where
  "lpos_visit E key element rank wanted_count maxlen b =
     (case sm_get E (lists b) key of
        Some slot \<Rightarrow> do {
          l \<leftarrow> slab_get (list_slab b) slot;
          r \<leftarrow> lpos_scan l element rank wanted_count maxlen;
          Some ([r], Written)
        }
      | None \<Rightarrow> if has_non_list E b key then Some ([], WrongTypeOutcome) else Some ([], Missing))"

section \<open>Specifications\<close>

abbreviation list_left :: "bytes \<Rightarrow> bytes list \<Rightarrow> astate \<Rightarrow> astate" where
  "list_left k ys A \<equiv> obj_left k (ys = []) (OList ys) A"

definition spec_push_existing :: "bytes \<Rightarrow> bytes list \<Rightarrow> bool \<Rightarrow> write_spec" where
  "spec_push_existing k vs front A =
     (if vs = [] then (Integer 0, False, A)
      else on_obj as_list k (Integer 0)
        (\<lambda>xs. (Integer (int (length xs + length vs)), False, a_put k (OList (push_list_spec xs vs front)) A)) A)"

definition spec_pop_list :: "bytes \<Rightarrow> bool \<Rightarrow> write_spec" where
  "spec_pop_list k front A =
     on_obj as_list k (Bulk None)
       (\<lambda>xs. let ys = (if front then tl xs else butlast xs)
             in (Bulk (Some (if front then hd xs else last xs)), ys = [], list_left k ys A)) A"

definition spec_pop_list_count :: "bytes \<Rightarrow> nat \<Rightarrow> bool \<Rightarrow> write_spec" where
  "spec_pop_list_count k n front A =
     (if n = 0 then (Array [], False, A)
      else on_obj as_list k (Bulk None)
        (\<lambda>xs. let ys = (if front then drop n xs else take (length xs - n) xs)
              in (Array (map Some (take n (if front then xs else rev xs))), ys = [], list_left k ys A)) A)"

definition spec_lset :: "bytes \<Rightarrow> int \<Rightarrow> bytes \<Rightarrow> write_spec" where
  "spec_lset k index v A =
     on_obj as_list k (Simple ''ERR no such key'')
       (\<lambda>xs. case normalize_index index (length xs) of
               None \<Rightarrow> (Simple ''ERR index out of range'', False, A)
             | Some i \<Rightarrow> (Simple ''OK'', False, a_put k (OList (xs[i := v])) A)) A"

definition lrem_limit :: "int \<Rightarrow> nat" where
  "lrem_limit n = (if n = 0 then USIZE_MAX else nat \<bar>n\<bar>)"

definition spec_lrem :: "bytes \<Rightarrow> int \<Rightarrow> bytes \<Rightarrow> write_spec" where
  "spec_lrem k n v A =
     on_obj as_list k (Integer 0)
       (\<lambda>xs. let ys = (if 0 \<le> n then remove_first (lrem_limit n) v xs else remove_last (lrem_limit n) v xs)
             in (Integer (int (min (lrem_limit n) (count_list xs v))), ys = [], list_left k ys A)) A"

definition spec_ltrim :: "bytes \<Rightarrow> int \<Rightarrow> int \<Rightarrow> write_spec" where
  "spec_ltrim k start stop A =
     on_obj as_list k (Simple ''OK'')
       (\<lambda>xs. let ys = zrange_spec xs start stop in (Simple ''OK'', ys = [], list_left k ys A)) A"

definition spec_linsert :: "bytes \<Rightarrow> bool \<Rightarrow> bytes \<Rightarrow> bytes \<Rightarrow> write_spec" where
  "spec_linsert k before pivot v A =
     on_obj as_list k (Integer 0)
       (\<lambda>xs. case position (\<lambda>x. x = pivot) xs of
               None \<Rightarrow> (Integer (- 1), False, A)
             | Some i \<Rightarrow>
                 let j = (if before then i else i + 1)
                 in (Integer (int (length xs + 1)), False,
                     a_put k (OList (take j xs @ v # drop j xs)) A)) A"

section \<open>Write commands implement their specifications\<close>

text \<open>The last step of a removing command: write back, or drop the emptied list.\<close>

lemma list_finish:
  assumes E: "env_ok E" and b: "bucket_inv E b" and s: "sm_map E (lists b) k = Some slot" and l: "list_rep l ys"
  defines "b' \<equiv> (if list_is_empty l then drop_list E (put_list b slot l) k slot else put_list b slot l)"
  shows "list_is_empty l \<longleftrightarrow> ys = []" "bucket_inv E b'" "bucket_abs E b' = list_left k ys (bucket_abs E b)"
proof -
  show e: "list_is_empty l \<longleftrightarrow> ys = []" using list_rep_len [OF l] by (simp add: list_is_empty_def)
  obtain l0 where "slab_get (list_slab b) slot = Some l0" using list_slot [OF E b s] by metis
  with e have "b' = (if ys = [] then drop_list E b k slot else put_list b slot l)"
    by (simp add: b'_def drop_put_list)
  with list_delete [OF E b s] list_put [OF E b s l] show "bucket_inv E b'" "bucket_abs E b' = list_left k ys (bucket_abs E b)"
    by (simp_all add: obj_left_def)
qed

lemma has_non_list_hashed_eq [simp]:
  "env_ok E \<Longrightarrow> bucket_inv E b \<Longrightarrow> has_non_list_hashed E b (hash_key E k) k = has_non_list E b k"
  by (simp add: type_tests)

text \<open>The hashed variant of the lookup, for the push on an existing list.\<close>

lemma push_list_existing_refines:
  assumes E: "env_ok E"
  shows "refines E (push_list_existing_hashed E (hash_key E k) k vs front) (spec_push_existing k vs front)"
proof (rule refinesI)
  fix b assume b: "bucket_inv E b"
  note sm = slotmaps_ok(2) [OF b]
  show "\<exists>r fl b'. push_list_existing_hashed E (hash_key E k) k vs front b = Some (r, fl, b') \<and> bucket_inv E b' \<and>
      spec_push_existing k vs front (bucket_abs E b) = (r, fl, bucket_abs E b')"
    using E b
  proof (cases rule: list_kind.lookup [where k = k])
    case (hit slot l xs r)
    then have rep: "list_rep l xs" and ne: "xs \<noteq> []" by simp_all
    from lo.rep_push [OF rep, of vs front] obtain l' where
      l': "list_push_values l vs front = Some l'" "list_rep l' (push_list_spec xs vs front)" by blast
    have "push_list_spec xs vs front \<noteq> []" using ne by (simp add: push_list_spec_def)
    from list_put [OF E b hit(1) l'(2) this] l' hit E sm b show ?thesis
      by (auto simp: push_list_existing_hashed_def spec_push_existing_def on_obj_def read_obj_def lo.rep_size
          push_list_spec_def)
  next
    case (wrong v)
    with E sm b show ?thesis
      by (cases v) (auto simp: push_list_existing_hashed_def spec_push_existing_def on_obj_def read_obj_def)
  next
    case miss
    with E sm b show ?thesis
      by (auto simp: push_list_existing_hashed_def spec_push_existing_def on_obj_def read_obj_def)
  qed
qed

lemma pop_list_refines:
  assumes E: "env_ok E"
  shows "refines E (pop_list E k front) (spec_pop_list k front)"
  unfolding pop_list_def [abs_def] spec_pop_list_def [abs_def]
proof (rule list_kind.refines_on [OF E], goal_cases)
  case (1 b slot l xs)
  then have rep: "list_rep l xs" and ne: "xs \<noteq> []" by simp_all
  obtain l' where l': "(if front then list_pop_front l else list_pop_back l) =
      Some (Some (if front then hd xs else last xs), l')" "list_rep l' (if front then tl xs else butlast xs)"
    using lo.rep_pop_front [OF rep] lo.rep_pop_back [OF rep] ne by (cases front) auto
  from list_finish [OF E 1(1,2) l'(2)] l'(1) show ?case by (simp add: Let_def)
qed

lemma pop_list_count_refines:
  assumes E: "env_ok E"
  shows "refines E (pop_list_count E k n front) (spec_pop_list_count k n front)"
proof (cases "n = 0")
  case True
  then show ?thesis
    by (auto intro!: refinesI simp: pop_list_count_def spec_pop_list_count_def)
next
  case False
  then have "pop_list_count E k n front = (\<lambda>b. case sm_get E (lists b) k of
       None \<Rightarrow> if has_non_list E b k then Some (WrongType, False, b) else Some (Bulk None, False, b)
     | Some slot \<Rightarrow> Option.bind (slab_get (list_slab b) slot) (\<lambda>l. do {
          (values, l') \<leftarrow> pop_count_loop (if front then list_pop_front else list_pop_back) n l;
          let b1 = put_list b slot l' in
          Some (Array (map Some values), list_is_empty l',
                if list_is_empty l' then drop_list E b1 k slot else b1) }))"
    by (simp add: pop_list_count_def fun_eq_iff)
  moreover have "refines E \<dots> (\<lambda>A. on_obj as_list k (Bulk None)
        (\<lambda>xs. let ys = (if front then drop n xs else take (length xs - n) xs)
              in (Array (map Some (take n (if front then xs else rev xs))), ys = [], list_left k ys A)) A)"
  proof (rule list_kind.refines_on [OF E], goal_cases)
    case (1 b slot l xs)
    then have rep: "list_rep l xs" and ne: "xs \<noteq> []" by simp_all
    obtain l' where l': "pop_count_loop (if front then list_pop_front else list_pop_back) n l =
        Some (take n (if front then xs else rev xs), l')"
      "list_rep l' (if front then drop n xs else take (length xs - n) xs)"
      using lo.pop_count_front [OF rep, of n] lo.pop_count_back [OF rep, of n] by (cases front) auto
    from list_finish [OF E 1(1,2) l'(2)] l'(1) show ?case by (simp add: Let_def)
  qed
  ultimately show ?thesis using False by (simp add: spec_pop_list_count_def [abs_def])
qed

lemma lset_refines:
  assumes E: "env_ok E"
  shows "refines E (lset E k index v) (spec_lset k index v)"
  unfolding lset_def [abs_def] spec_lset_def [abs_def]
proof (rule list_kind.refines_on [OF E], goal_cases)
  case (1 b slot l xs)
  then have rep: "list_rep l xs" and ne: "xs \<noteq> []" by simp_all
  show ?case
  proof (cases "normalize_index index (length xs)")
    case None
    with 1 show ?thesis by (auto simp: lo.rep_size)
  next
    case (Some i)
    from lo.rep_set [OF rep normalize_index_less [OF Some], of v] obtain l' where
      "list_set l i v = Some l'" "list_rep l' (xs[i := v])" by blast
    with list_put [OF E 1(1,2), of l' "xs[i := v]"] Some 1 show ?thesis by (auto simp: lo.rep_size)
  qed
qed

lemma lrem_refines:
  assumes E: "env_ok E"
  shows "refines E (lrem E k n v) (spec_lrem k n v)"
  unfolding lrem_def [abs_def] spec_lrem_def [abs_def]
proof (rule list_kind.refines_on [OF E], goal_cases)
  case (1 b slot l xs)
  then have rep: "list_rep l xs" and ne: "xs \<noteq> []" by simp_all
  let ?ys = "if 0 \<le> n then remove_first (lrem_limit n) v xs else remove_last (lrem_limit n) v xs"
  obtain l' where l': "(if 0 \<le> n then lrem_forward list_get list_remove list_len v
        (if n = 0 then USIZE_MAX else nat n) 0 0 l
      else lrem_backward list_get list_remove v (nat \<bar>n\<bar>) (list_len l) 0 l) =
        Some (min (lrem_limit n) (count_list xs v), l')" "list_rep l' ?ys"
    using lo.lrem_forward_all [OF rep, of 0 "lrem_limit n" v] lo.lrem_backward_all [OF rep, of 0 "lrem_limit n" v]
    by (cases "0 \<le> n") (auto simp: lrem_limit_def lo.rep_size [OF rep] split: if_splits)
  from list_finish [OF E 1(1,2) l'(2)] l'(1) show ?case by (simp add: Let_def)
qed

lemma ltrim_refines:
  assumes E: "env_ok E"
  shows "refines E (ltrim E k start stop) (spec_ltrim k start stop)"
  unfolding ltrim_def [abs_def] spec_ltrim_def [abs_def]
proof (rule list_kind.refines_on [OF E], goal_cases)
  case (1 b slot l xs)
  then have rep: "list_rep l xs" and ne: "xs \<noteq> []" by simp_all
  show ?case
  proof (cases "normalize_range start stop (length xs)")
    case None
    with list_delete [OF E 1(1,2)] 1 show ?thesis
      by (auto simp: lo.rep_size drop_put_list zrange_spec_def obj_left_def)
  next
    case (Some r)
    obtain i j where r: "r = (i, j)" by (cases r)
    from lo.ltrim_loop [OF rep, of i "j - i + 1"] obtain l1 l2 where
      l: "pop_times list_pop_front i l = Some l1"
      "pop_while_longer list_pop_back list_len (j - i + 1) l1 = Some l2"
      "list_rep l2 (slice xs i j)"
      by (auto simp: slice_def bind_eq_Some_conv)
    from list_finish [OF E 1(1,2) l(3)] l(1,2) Some r rep show ?thesis
      by (simp add: Let_def lo.rep_size zrange_spec_def)
  qed
qed

lemma linsert_refines:
  assumes E: "env_ok E"
  shows "refines E (linsert E k before pivot v) (spec_linsert k before pivot v)"
  unfolding linsert_def [abs_def] spec_linsert_def [abs_def]
proof (rule list_kind.refines_on [OF E], goal_cases)
  case (1 b slot l xs)
  then have rep: "list_rep l xs" and ne: "xs \<noteq> []" by simp_all
  note it = lo.rep_iter [OF rep]
  show ?case
  proof (cases "position (\<lambda>x. x = pivot) xs")
    case None
    with 1 it show ?thesis by auto
  next
    case (Some i)
    let ?j = "if before then i else i + 1"
    have "?j \<le> length xs" using position_Some [OF Some] by auto
    from lo.rep_insert [OF rep this, of v] obtain l' where
      l': "list_insert l ?j v = Some l'" "list_rep l' (take ?j xs @ v # drop ?j xs)" by blast
    have "length (take ?j xs @ v # drop ?j xs) = length xs + 1" using \<open>?j \<le> length xs\<close> by simp
    with list_put [OF E 1(1,2) l'(2)] l' Some it show ?thesis
      by (simp add: lo.rep_size Let_def del: length_append length_take length_drop)
  qed
qed

section \<open>The flag of a write command\<close>

lemma push_list_existing_flag: "flag_exact k (spec_push_existing k vs front)"
proof (cases "vs = []")
  case True
  then show ?thesis by (simp add: flag_exact_def spec_push_existing_def same_but_intros)
next
  case False
  then have "spec_push_existing k vs front = (\<lambda>A. on_obj as_list k (Integer 0)
      (\<lambda>xs. (Integer (int (length xs + length vs)), False, a_put k (OList (push_list_spec xs vs front)) A)) A)"
    by (simp add: spec_push_existing_def fun_eq_iff)
  then show ?thesis by (simp only:) (rule on_obj_flag, simp add: same_but_intros)
qed

lemma pop_list_flag: "flag_exact k (spec_pop_list k front)"
  unfolding spec_pop_list_def [abs_def]
  by (rule on_obj_flag) (simp add: Let_def same_but_intros)

lemma pop_list_count_flag: "flag_exact k (spec_pop_list_count k n front)"
proof (cases "n = 0")
  case True
  then show ?thesis by (simp add: flag_exact_def spec_pop_list_count_def same_but_intros)
next
  case False
  then show ?thesis
    unfolding spec_pop_list_count_def [abs_def]
    by (simp only: if_False) (rule on_obj_flag, simp add: Let_def same_but_intros)
qed

lemma lset_flag: "flag_exact k (spec_lset k index v)"
  unfolding spec_lset_def [abs_def]
  by (rule on_obj_flag) (auto simp: same_but_intros split: option.split)

lemma lrem_flag: "flag_exact k (spec_lrem k n v)"
  unfolding spec_lrem_def [abs_def]
  by (rule on_obj_flag) (simp add: Let_def same_but_intros)

lemma ltrim_flag: "flag_exact k (spec_ltrim k start stop)"
  unfolding spec_ltrim_def [abs_def]
  by (rule on_obj_flag) (simp add: Let_def same_but_intros)

lemma linsert_flag: "flag_exact k (spec_linsert k before pivot v)"
  unfolding spec_linsert_def [abs_def]
  by (rule on_obj_flag) (auto simp: Let_def same_but_intros split: option.split)

section \<open>The write interface\<close>

interpretation push_existing: bucket_write E k "push_list_existing_hashed E (hash_key E k) k vs front"
  "spec_push_existing k vs front" for E k vs front
  by unfold_locales (fact push_list_existing_refines push_list_existing_flag)+

interpretation pop_list: bucket_write E k "pop_list E k front" "spec_pop_list k front" for E k front
  by unfold_locales (fact pop_list_refines pop_list_flag)+

interpretation pop_list_count: bucket_write E k "pop_list_count E k n front" "spec_pop_list_count k n front"
  for E k n front
  by unfold_locales (fact pop_list_count_refines pop_list_count_flag)+

interpretation lset: bucket_write E k "lset E k index v" "spec_lset k index v" for E k index v
  by unfold_locales (fact lset_refines lset_flag)+

interpretation lrem: bucket_write E k "lrem E k n v" "spec_lrem k n v" for E k n v
  by unfold_locales (fact lrem_refines lrem_flag)+

interpretation ltrim: bucket_write E k "ltrim E k start stop" "spec_ltrim k start stop" for E k start stop
  by unfold_locales (fact ltrim_refines ltrim_flag)+

interpretation linsert: bucket_write E k "linsert E k before pivot v" "spec_linsert k before pivot v"
  for E k before pivot v
  by unfold_locales (fact linsert_refines linsert_flag)+

section \<open>Read commands\<close>

lemma llen_reads: "env_ok E \<Longrightarrow> reads E (llen E k) (read_obj as_list k (Integer 0) WrongType (\<lambda>xs. Integer (int (length xs))))"
  unfolding llen_def [abs_def] by (rule list_kind.reads_on) (simp_all add: lo.rep_size)

lemma llen_visit_reads:
  "env_ok E \<Longrightarrow> reads E (llen_visit E k) (read_obj as_list k ([], Missing) ([], WrongTypeOutcome) (\<lambda>xs. ([int (length xs)], Written)))"
  unfolding llen_visit_def [abs_def] by (rule list_kind.reads_on) (simp_all add: lo.rep_size)

definition nth_normalized :: "'a list \<Rightarrow> int \<Rightarrow> 'a option" where
  "nth_normalized xs index = map_option ((!) xs) (normalize_index index (length xs))"

lemma lindex_reads:
  "env_ok E \<Longrightarrow> reads E (lindex E k index) (read_obj as_list k (Bulk None) WrongType (\<lambda>xs. Bulk (nth_normalized xs index)))"
  unfolding lindex_def [abs_def]
  by (rule list_kind.reads_on)
    (auto simp: lo.rep_size lo.rep_get nth_normalized_def dest: normalize_index_less split: option.split)

lemma lindex_visit_reads:
  "env_ok E \<Longrightarrow> reads E (lindex_visit E k index)
     (read_obj as_list k ([], Missing) ([], WrongTypeOutcome) (\<lambda>xs. ([nth_normalized xs index], Written)))"
  unfolding lindex_visit_def [abs_def]
  by (rule list_kind.reads_on)
    (auto simp: lo.rep_size lo.rep_get nth_normalized_def dest: normalize_index_less split: option.split
      bind_split)

lemma lrange_reads:
  "env_ok E \<Longrightarrow> reads E (lrange E k start stop)
     (read_obj as_list k (Array []) WrongType (\<lambda>xs. Array (map Some (zrange_spec xs start stop))))"
  unfolding lrange_def [abs_def]
  by (rule list_kind.reads_on) (auto simp: lo.rep_size lo.rep_iter zrange_spec_def slice_def split: option.split)

lemma lrange_visit_reads:
  assumes E: "env_ok E"
  shows "reads E (lrange_visit E k start stop)
     (read_obj as_list k ([], Missing) ([], WrongTypeOutcome)
       (\<lambda>xs. let r = zrange_spec xs start stop
             in (Begin (length r) # map (\<lambda>v. Item (Some v)) r, Written)))"
  unfolding lrange_visit_def [abs_def]
proof (rule list_kind.reads_on [OF E], goal_cases)
  case (1 l xs)
  then have rep: "list_len l = length xs" "list_iter l = xs" by (simp_all add: lo.rep_size lo.rep_iter)
  show ?case
  proof (cases "normalize_range start stop (length xs)")
    case None
    then show ?thesis by (simp add: rep zrange_spec_def)
  next
    case (Some r)
    then obtain a b where "r = (a, b)" "a \<le> b" "b < length xs"
      using normalize_range_bounds by (cases r) blast
    with Some show ?thesis by (simp add: rep zrange_spec_def Let_def length_slice) (simp add: slice_def)
  qed
qed

section \<open>LPOS\<close>

definition lpos_select :: "nat option \<Rightarrow> 'a list \<Rightarrow> 'a list" where
  "lpos_select wanted ps =
     (case wanted of None \<Rightarrow> take 1 ps | Some n \<Rightarrow> if n = 0 then ps else take n ps)"

text \<open>The positions of an element in the compared window, in the order of the scan.\<close>

definition lpos_matches :: "bytes list \<Rightarrow> bytes \<Rightarrow> int \<Rightarrow> int \<Rightarrow> int list" where
  "lpos_matches xs element rank maxlen =
     (let limit = i64_as_usize maxlen;
          in_window = (\<lambda>i. limit = 0 \<or> (if 0 < rank then i < limit else length xs - limit \<le> i));
          ps = map int (filter (\<lambda>i. xs ! i = element \<and> in_window i) [0..<length xs])
      in if 0 < rank then ps else rev ps)"

lemma lpos_walk_select:
  assumes "case wanted of None \<Rightarrow> rs = [] | Some n \<Rightarrow> n = 0 \<or> length rs < n"
  shows "lpos_walk wanted skip rs ps =
    rs @ (case wanted of None \<Rightarrow> take 1 (drop skip ps)
          | Some n \<Rightarrow> if n = 0 then drop skip ps else take (n - length rs) (drop skip ps))"
  using assms
proof (induction ps arbitrary: skip rs)
  case Nil
  then show ?case by (simp split: option.split)
next
  case (Cons p ps)
  show ?case
  proof (cases skip)
    case (Suc m)
    with Cons show ?thesis by (simp add: lpos_collect_def split: option.split)
  next
    case 0
    show ?thesis
    proof (cases wanted)
      case None
      with 0 show ?thesis by (simp add: lpos_collect_def)
    next
      case (Some n)
      show ?thesis
      proof (cases "n = 0 \<or> Suc (length rs) < n")
        case True
        then have "\<not> n \<le> Suc (length rs) \<or> n = 0" by auto
        with 0 Some True Cons.IH [of "rs @ [p]" 0] show ?thesis
          by (cases n) (simp_all add: lpos_collect_def Suc_diff_le)
      next
        case False
        with Cons.prems Some have "n = Suc (length rs)" by auto
        with 0 Some show ?thesis by (simp add: lpos_collect_def)
      qed
    qed
  qed
qed

lemma lpos_forward_walk:
  "lpos_forward element limit wanted index skip rs xs =
     lpos_walk wanted skip rs (map (\<lambda>(i, _). int i)
       (filter (\<lambda>(i, x). x = element \<and> (limit = 0 \<or> i < limit)) (enumerate index xs)))"
proof (induction xs arbitrary: index skip rs)
  case Nil
  then show ?case by simp
next
  case (Cons x xs)
  show ?case
  proof (cases "limit \<noteq> 0 \<and> limit \<le> index")
    case True
    have "filter (\<lambda>(i, y). y = element \<and> (limit = 0 \<or> i < limit)) (enumerate index (x # xs)) = []"
      using True by (auto simp: filter_empty_conv in_set_enumerate_eq simp del: enumerate_simps)
    with True show ?thesis by (simp del: enumerate_simps)
  next
    case False
    with Cons.IH show ?thesis by (auto split: prod.split)
  qed
qed

lemma enumerate_positions:
  "map (\<lambda>(i, _). int i) (filter (\<lambda>(i, x). P i x) (enumerate 0 xs)) =
     map int (filter (\<lambda>i. P i (xs ! i)) [0..<length xs])"
proof -
  have "enumerate 0 xs = map (\<lambda>i. (i, xs ! i)) [0..<length xs]"
    by (rule nth_equalityI) (simp_all add: enumerate_eq_zip)
  then show ?thesis by (simp add: filter_map o_def)
qed

lemma lpos_scan_spec:
  assumes l: "list_rep l xs" and ne: "xs \<noteq> []" and rank: "rank \<noteq> 0"
  shows "lpos_scan l element rank wanted maxlen =
    Some (lpos_select (map_option i64_as_usize wanted)
      (drop (nat \<bar>rank\<bar> - 1) (lpos_matches xs element rank maxlen)))"
proof -
  have sel: "lpos_walk w skip [] ps = lpos_select w (drop skip ps)" for w skip ps
    using lpos_walk_select [where wanted = w and rs = "[]" and skip = skip and ps = ps]
    by (cases w) (auto simp: lpos_select_def)
  have len: "list_len l = length xs" "list_iter l = xs" using l by (rule lo.rep_size, rule lo.rep_iter)
  from rank ne show ?thesis
    by (auto simp: lpos_scan_def len usize_sub_def Let_def lpos_forward_walk enumerate_positions sel
        lpos_matches_def conj_commute)
qed

lemma lpos_visit_reads:
  assumes "env_ok E" "rank \<noteq> 0"
  shows "reads E (lpos_visit E k element rank wanted maxlen)
    (read_obj as_list k ([], Missing) ([], WrongTypeOutcome)
      (\<lambda>xs. ([lpos_select (map_option i64_as_usize wanted)
          (drop (nat \<bar>rank\<bar> - 1) (lpos_matches xs element rank maxlen))], Written)))"
  unfolding lpos_visit_def [abs_def]
  by (rule list_kind.reads_on [OF assms(1)]) (auto simp: lpos_scan_spec assms(2))

section \<open>Push\<close>

definition spec_push :: "bytes \<Rightarrow> bytes list \<Rightarrow> bool \<Rightarrow> write_spec" where
  "spec_push k vs front A =
     (if vs = [] then (Integer 0, False, A)
      else case a_obj A k of
        None \<Rightarrow> (Integer (int (length vs)), True, a_put k (OList (push_list_spec [] vs front)) A)
      | Some (OList xs) \<Rightarrow>
          (Integer (int (length xs + length vs)), False, a_put k (OList (push_list_spec xs vs front)) A)
      | Some _ \<Rightarrow> (WrongType, False, A))"

lemma push_list_attempt:
  assumes E: "env_ok E" and b: "bucket_inv E b"
  shows "(\<exists>r b'. push_list_existing_or_wrongtype_hashed E (hash_key E k) k vs front b = Some (Complete r, b') \<and>
        bucket_inv E b' \<and> spec_push k vs front (bucket_abs E b) = (r, False, bucket_abs E b')) \<or>
      (push_list_existing_or_wrongtype_hashed E (hash_key E k) k vs front b = Some (MissingObject, b) \<and>
        a_obj (bucket_abs E b) k = None \<and>
        (\<exists>r b'. push_list_new_unchecked_hashed E (hash_key E k) k vs front b = Some (r, b') \<and> bucket_inv E b' \<and>
           spec_push k vs front (bucket_abs E b) = (r, True, bucket_abs E b')))"
    (is ?goal)
proof (cases "vs = []")
  case True
  with b show ?goal by (simp add: push_list_existing_or_wrongtype_hashed_def spec_push_def)
next
  case False
  note sm = slotmaps_ok(2) [OF b]
  show ?goal
    using E b
  proof (cases rule: list_kind.lookup [where k = k])
    case (hit slot l xs r)
    then have rep: "list_rep l xs" and ne: "xs \<noteq> []" by simp_all
    from lo.rep_push [OF rep, of vs front] obtain l' where
      l': "list_push_values l vs front = Some l'" "list_rep l' (push_list_spec xs vs front)" by blast
    have "push_list_spec xs vs front \<noteq> []" using ne by (simp add: push_list_spec_def)
    from list_put [OF E b hit(1) l'(2) this] l' hit E sm b False show ?goal
      by (simp add: push_list_existing_or_wrongtype_hashed_def spec_push_def lo.rep_size [OF l'(2)] push_list_spec_def)
  next
    case (wrong v)
    with E sm b False show ?goal
      by (cases v) (auto simp: push_list_existing_or_wrongtype_hashed_def spec_push_def)
  next
    case miss
    obtain l where l: "list_from_values vs front = Some l" "list_rep l (push_list_spec [] vs front)"
      using list_from_values_rep [of vs front] False by blast
    have "push_list_spec [] vs front \<noteq> []" using False by (simp add: push_list_spec_def)
    from list_create [OF E b miss(4) l(2) this] l miss E sm b False show ?goal
      by (auto simp: push_list_existing_or_wrongtype_hashed_def push_list_new_unchecked_hashed_def spec_push_def)
  qed
qed

lemma push_flag: "flag_exact k (spec_push k vs front)"
  unfolding flag_exact_def
  by (auto simp: spec_push_def same_but_intros split: if_splits option.splits robj.splits)

interpretation push: bucket_create E k "push_list_existing_or_wrongtype_hashed E (hash_key E k) k vs front"
  "push_list_new_unchecked_hashed E (hash_key E k) k vs front" "spec_push k vs front" for E k vs front
proof (unfold_locales, goal_cases)
  case 1
  show ?case by (rule refines_create(1)) (rule push_list_attempt [OF 1])
next
  case 2
  show ?case by (rule push_flag)
next
  case (3 b b')
  show ?case by (rule refines_create(2) [OF push_list_attempt [OF 3(1)] 3(2,3)])
qed

lemma list_presence_spec:
  assumes E: "env_ok E" and b: "bucket_inv E b"
  shows "list_presence_hashed E b (hash_key E k) k =
    read_obj as_list k Missing WrongTypeOutcome (\<lambda>_. Written) (bucket_abs E b)"
proof -
  note sm = slotmaps_ok(2) [OF b]
  show ?thesis
    using E b
  proof (cases rule: list_kind.lookup [where k = k])
    case (wrong v)
    with E sm b show ?thesis by (cases v) (auto simp: list_presence_hashed_def read_obj_def)
  qed (use E sm b in \<open>simp_all add: list_presence_hashed_def read_obj_def\<close>)
qed

end
