(* ===== verification/BucketSet.thy ===== *)
theory BucketSet
  imports Kinds "HOL-Library.Option_ord"
begin

text \<open>
  The set commands of a bucket (\<^verbatim>\<open>bucket_set.rs\<close>): the code, the abstract commands on finite
  sets, and the proof that the code implements them. The order in which a hash set yields its
  members is a parameter of the environment; \<^verbatim>\<open>SPOP\<close> and \<^verbatim>\<open>SRANDMEMBER\<close> depend on it, so their
  laws hold for some enumeration of the set.
\<close>

section \<open>Commands\<close>

definition insert_members :: "set_object \<Rightarrow> bytes list \<Rightarrow> nat \<times> set_object" where
  "insert_members s members =
     (case members of
        [member] \<Rightarrow> (let (fresh, s') = set_insert_slice s member in (if fresh then 1 else 0, s'))
      | _ \<Rightarrow> set_insert_many s members)"

definition sadd_existing_or_wrongtype_hashed ::
  "('h, 't) env \<Rightarrow> u64 \<Rightarrow> bytes \<Rightarrow> bytes list \<Rightarrow> ('h, 't) bucket \<Rightarrow> (write_attempt \<times> ('h, 't) bucket) option" where
  "sadd_existing_or_wrongtype_hashed E key_hash key members b =
     (if members = [] then Some (Complete (Integer 0), b)
      else case sm_get_hashed E (sets b) key_hash key of
        Some slot \<Rightarrow> do {
          s \<leftarrow> slab_get (set_slab b) slot;
          let (inserted, s') = insert_members s members
          in Some (Complete (Integer (int inserted)), put_set b slot s')
        }
      | None \<Rightarrow>
          if has_non_set E b key then Some (Complete WrongType, b)
          else Some (MissingObject, b))"

definition sadd_new_unchecked_hashed ::
  "('h, 't) env \<Rightarrow> u64 \<Rightarrow> bytes \<Rightarrow> bytes list \<Rightarrow> ('h, 't) bucket \<Rightarrow> (redis_object_result \<times> ('h, 't) bucket) option" where
  "sadd_new_unchecked_hashed E key_hash key members b =
     (let (inserted, s) = insert_members set_empty members
      in do {
        b' \<leftarrow> new_set E b key_hash key s;
        Some (Integer (int inserted), b')
      })"

definition srem ::
  "('h, 't) env \<Rightarrow> bytes \<Rightarrow> bytes list \<Rightarrow> ('h, 't) bucket \<Rightarrow> (redis_object_result \<times> bool \<times> ('h, 't) bucket) option" where
  "srem E key members b =
     (case sm_get E (sets b) key of
        Some slot \<Rightarrow> do {
          s \<leftarrow> slab_get (set_slab b) slot;
          let (removed, s') = remove_each set_remove s members;
              b1 = put_set b slot s';
              emptied = set_is_empty s';
              b2 = (if emptied then drop_set E b1 key slot else b1)
          in Some (Integer (int (length removed)), emptied, b2)
        }
      | None \<Rightarrow> if has_non_set E b key then Some (WrongType, False, b) else Some (Integer 0, False, b))"

definition sismember :: "('h, 't) env \<Rightarrow> bytes \<Rightarrow> bytes \<Rightarrow> ('h, 't) bucket \<Rightarrow> redis_object_result option" where
  "sismember E key member b =
     (case sm_get E (sets b) key of
        Some slot \<Rightarrow> do { s \<leftarrow> slab_get (set_slab b) slot; Some (Integer (bool_int (set_contains s member))) }
      | None \<Rightarrow> if has_non_set E b key then Some WrongType else Some (Integer 0))"

definition smismember :: "('h, 't) env \<Rightarrow> bytes \<Rightarrow> bytes list \<Rightarrow> ('h, 't) bucket \<Rightarrow> redis_object_result option" where
  "smismember E key members b =
     (case sm_get E (sets b) key of
        Some slot \<Rightarrow> do {
          s \<leftarrow> slab_get (set_slab b) slot;
          Some (IntegerArray (map (\<lambda>member. bool_int (set_contains s member)) members))
        }
      | None \<Rightarrow>
          if has_non_set E b key then Some WrongType
          else Some (IntegerArray (replicate (length members) 0)))"

definition sismember_visit ::
  "('h, 't) env \<Rightarrow> bytes \<Rightarrow> bytes \<Rightarrow> ('h, 't) bucket \<Rightarrow> (int list \<times> read_outcome) option" where
  "sismember_visit E key member b =
     (case sm_get E (sets b) key of
        Some slot \<Rightarrow> do { s \<leftarrow> slab_get (set_slab b) slot; Some ([bool_int (set_contains s member)], Written) }
      | None \<Rightarrow> if has_non_set E b key then Some ([], WrongTypeOutcome) else Some ([], Missing))"

definition scard :: "('h, 't) env \<Rightarrow> bytes \<Rightarrow> ('h, 't) bucket \<Rightarrow> redis_object_result option" where
  "scard E key b =
     (case sm_get E (sets b) key of
        Some slot \<Rightarrow> do { s \<leftarrow> slab_get (set_slab b) slot; Some (Integer (int (set_len s))) }
      | None \<Rightarrow> if has_non_set E b key then Some WrongType else Some (Integer 0))"

definition scard_visit :: "('h, 't) env \<Rightarrow> bytes \<Rightarrow> ('h, 't) bucket \<Rightarrow> (int list \<times> read_outcome) option" where
  "scard_visit E key b =
     (case sm_get E (sets b) key of
        Some slot \<Rightarrow> do { s \<leftarrow> slab_get (set_slab b) slot; Some ([int (set_len s)], Written) }
      | None \<Rightarrow> if has_non_set E b key then Some ([], WrongTypeOutcome) else Some ([], Missing))"

definition smembers :: "('h, 't) env \<Rightarrow> bytes \<Rightarrow> ('h, 't) bucket \<Rightarrow> redis_object_result option" where
  "smembers E key b =
     (case sm_get E (sets b) key of
        Some slot \<Rightarrow> do { s \<leftarrow> slab_get (set_slab b) slot; Some (Array (sort (map Some (set_iter E s)))) }
      | None \<Rightarrow> if has_non_set E b key then Some WrongType else Some (Array []))"

definition smembers_visit :: "('h, 't) env \<Rightarrow> bytes \<Rightarrow> ('h, 't) bucket \<Rightarrow> (array_item list \<times> read_outcome) option" where
  "smembers_visit E key b =
     (case sm_get E (sets b) key of
        Some slot \<Rightarrow> do {
          s \<leftarrow> slab_get (set_slab b) slot;
          Some (Begin (set_len s) # map (\<lambda>member. Item (Some member)) (set_visit_members E s), Written)
        }
      | None \<Rightarrow> if has_non_set E b key then Some ([], WrongTypeOutcome) else Some ([], Missing))"

definition set_members :: "('h, 't) env \<Rightarrow> bytes \<Rightarrow> ('h, 't) bucket \<Rightarrow> (unit + bytes list) option" where
  "set_members E key b =
     (case sm_get E (sets b) key of
        Some slot \<Rightarrow> do { s \<leftarrow> slab_get (set_slab b) slot; Some (Inr (sort (set_iter E s))) }
      | None \<Rightarrow> if has_non_set E b key then Some (Inl ()) else Some (Inr []))"

definition spop ::
  "('h, 't) env \<Rightarrow> bytes \<Rightarrow> nat option \<Rightarrow> ('h, 't) bucket \<Rightarrow> (redis_object_result \<times> bool \<times> ('h, 't) bucket) option" where
  "spop E key wanted b =
     (case sm_get E (sets b) key of
        Some slot \<Rightarrow> do {
          s \<leftarrow> slab_get (set_slab b) slot;
          let requested = (case wanted of None \<Rightarrow> 1 | Some n \<Rightarrow> n);
              members = take requested (set_iter E s);
              s' = fold (\<lambda>member s. snd (set_remove s member)) members s;
              b1 = put_set b slot s';
              emptied = set_is_empty s';
              b2 = (if emptied then drop_set E b1 key slot else b1);
              result = (case wanted of
                  None \<Rightarrow> Bulk (case members of [] \<Rightarrow> None | m # _ \<Rightarrow> Some m)
                | Some _ \<Rightarrow> Array (map Some members))
          in Some (result, emptied, b2)
        }
      | None \<Rightarrow>
          if has_non_set E b key then Some (WrongType, False, b)
          else Some (case wanted of Some _ \<Rightarrow> Array [] | None \<Rightarrow> Bulk None, False, b))"

definition srandmember :: "('h, 't) env \<Rightarrow> bytes \<Rightarrow> int option \<Rightarrow> ('h, 't) bucket \<Rightarrow> redis_object_result option" where
  "srandmember E key wanted b =
     (case sm_get E (sets b) key of
        Some slot \<Rightarrow> do {
          s \<leftarrow> slab_get (set_slab b) slot;
          Some (case wanted of
              Some n \<Rightarrow>
                let members = set_iter E s; requested = nat \<bar>n\<bar>
                in if members = [] then Array []
                   else if 0 \<le> n then Array (map Some (take requested members))
                   else Array (map (\<lambda>index. Some (members ! (index mod length members))) [0..<requested])
            | None \<Rightarrow> Bulk (case set_iter E s of [] \<Rightarrow> None | m # _ \<Rightarrow> Some m))
        }
      | None \<Rightarrow>
          if has_non_set E b key then Some WrongType
          else Some (if wanted \<noteq> None then Array [] else Bulk None))"

definition srandmember_positive_visit ::
  "('h, 't) env \<Rightarrow> bytes \<Rightarrow> nat \<Rightarrow> ('h, 't) bucket \<Rightarrow> (array_item list \<times> read_outcome) option" where
  "srandmember_positive_visit E key requested b =
     (case sm_get E (sets b) key of
        Some slot \<Rightarrow> do {
          s \<leftarrow> slab_get (set_slab b) slot;
          let n = min requested (set_len s)
          in Some (Begin n # map (\<lambda>member. Item (Some member)) (set_visit_members_limited E s n), Written)
        }
      | None \<Rightarrow> if has_non_set E b key then Some ([], WrongTypeOutcome) else Some ([], Missing))"

section \<open>Specifications\<close>

abbreviation set_left :: "bytes \<Rightarrow> bytes set \<Rightarrow> astate \<Rightarrow> astate" where
  "set_left k S A \<equiv> obj_left k (S = {}) (OSet S) A"

definition spec_sadd :: "bytes \<Rightarrow> bytes list \<Rightarrow> write_spec" where
  "spec_sadd k ms A =
     (if ms = [] then (Integer 0, False, A)
      else case a_obj A k of
        None \<Rightarrow> (Integer (int (card (set ms))), True, a_put k (OSet (set ms)) A)
      | Some (OSet S) \<Rightarrow> (Integer (int (card (set ms - S))), False, a_put k (OSet (S \<union> set ms)) A)
      | Some _ \<Rightarrow> (WrongType, False, A))"

definition spec_srem :: "bytes \<Rightarrow> bytes list \<Rightarrow> write_spec" where
  "spec_srem k ms A =
     on_obj as_set k (Integer 0)
       (\<lambda>S. (Integer (int (card (set ms \<inter> S))), S \<subseteq> set ms, set_left k (S - set ms) A)) A"

section \<open>Removal\<close>

lemma set_finish:
  fixes k :: bytes
  assumes E: "env_ok E" and b: "bucket_inv E b" and i: "sm_map E (sets b) k = Some slot" and s: "set_ok s"
  defines "b' \<equiv> (if set_is_empty s then drop_set E (put_set b slot s) k slot else put_set b slot s)"
  shows "bucket_inv E b'" "bucket_abs E b' = set_left k (dom (set_view s)) (bucket_abs E b)"
proof -
  obtain s0 where "slab_get (set_slab b) slot = Some s0" using set_slot [OF E b i] by metis
  then have b': "b' = (if set_view s = Map.empty then drop_set E b k slot else put_set b slot s)"
    by (simp add: b'_def drop_put_set set_is_empty_iff)
  with set_delete [OF E b i] set_put [OF E b i s] show "bucket_inv E b'" "bucket_abs E b' = set_left k (dom (set_view s)) (bucket_abs E b)"
    by (auto simp: obj_left_def)
qed

section \<open>Reads\<close>

lemma set_view_finite: "finite (dom (set_view s))"
  by (simp add: dom_set_view)

lemma set_iter_sorted:
  assumes "env_ok E" "set_ok s"
  shows "sort (set_iter E s) = sorted_list_of_set (dom (set_view s))"
  using set_iter_members(1,2) [OF assms]
  by (metis sorted_list_of_set_sort_remdups distinct_remdups_id)

lemma sort_map_Some: "sort (map Some xs) = map Some (sort (xs :: 'a :: linorder list))"
  by (rule properties_for_sort) (simp_all add: sorted_map)

lemma sismember_reads:
  "env_ok E \<Longrightarrow> reads E (sismember E k m) (read_obj as_set k (Integer 0) WrongType (\<lambda>S. Integer (bool_int (m \<in> S))))"
  unfolding sismember_def [abs_def] by (rule set_kind.reads_on) (auto simp: set_contains_view domIff)

lemma sismember_visit_reads:
  "env_ok E \<Longrightarrow> reads E (sismember_visit E k m)
     (read_obj as_set k ([], Missing) ([], WrongTypeOutcome) (\<lambda>S. ([bool_int (m \<in> S)], Written)))"
  unfolding sismember_visit_def [abs_def] by (rule set_kind.reads_on) (auto simp: set_contains_view domIff)

lemma smismember_reads:
  "env_ok E \<Longrightarrow> reads E (smismember E k ms)
     (read_obj as_set k (IntegerArray (replicate (length ms) 0)) WrongType
       (\<lambda>S. IntegerArray (map (\<lambda>m. bool_int (m \<in> S)) ms)))"
  unfolding smismember_def [abs_def] by (rule set_kind.reads_on) (auto simp: set_contains_view domIff)

lemma scard_reads:
  "env_ok E \<Longrightarrow> reads E (scard E k) (read_obj as_set k (Integer 0) WrongType (\<lambda>S. Integer (int (card S))))"
  unfolding scard_def [abs_def] by (rule set_kind.reads_on) (simp_all add: set_len_card)

lemma scard_visit_reads:
  "env_ok E \<Longrightarrow> reads E (scard_visit E k)
     (read_obj as_set k ([], Missing) ([], WrongTypeOutcome) (\<lambda>S. ([int (card S)], Written)))"
  unfolding scard_visit_def [abs_def] by (rule set_kind.reads_on) (simp_all add: set_len_card)

lemma smembers_reads:
  "env_ok E \<Longrightarrow> reads E (smembers E k)
     (read_obj as_set k (Array []) WrongType (\<lambda>S. Array (map Some (sorted_list_of_set S))))"
  unfolding smembers_def [abs_def] by (rule set_kind.reads_on) (simp_all add: sort_map_Some set_iter_sorted)

lemma set_members_reads:
  "env_ok E \<Longrightarrow> reads E (set_members E k) (read_obj as_set k (Inr []) (Inl ()) (\<lambda>S. Inr (sorted_list_of_set S)))"
  unfolding set_members_def [abs_def] by (rule set_kind.reads_on) (simp_all add: set_iter_sorted)

section \<open>SADD and SREM\<close>

lemma insert_members_law:
  assumes "set_ok s"
  shows "\<exists>s'. insert_members s ms = (card (set ms - dom (set_view s)), s') \<and> set_ok s' \<and>
           dom (set_view s') = dom (set_view s) \<union> set ms"
proof -
  have "insert_members s ms = set_insert_many s ms"
    by (simp add: insert_members_def Let_def split: list.split prod.split)
  with set_insert_many_law [OF assms, of ms] show ?thesis by simp
qed

lemma sadd_attempt:
  assumes E: "env_ok E" and b: "bucket_inv E b"
  shows "(\<exists>r b'. sadd_existing_or_wrongtype_hashed E (hash_key E k) k ms b = Some (Complete r, b') \<and>
        bucket_inv E b' \<and> spec_sadd k ms (bucket_abs E b) = (r, False, bucket_abs E b')) \<or>
      (sadd_existing_or_wrongtype_hashed E (hash_key E k) k ms b = Some (MissingObject, b) \<and>
        a_obj (bucket_abs E b) k = None \<and>
        (\<exists>r b'. sadd_new_unchecked_hashed E (hash_key E k) k ms b = Some (r, b') \<and> bucket_inv E b' \<and>
           spec_sadd k ms (bucket_abs E b) = (r, True, bucket_abs E b')))"
    (is ?goal)
proof (cases "ms = []")
  case True
  with b show ?goal by (simp add: sadd_existing_or_wrongtype_hashed_def spec_sadd_def)
next
  case False
  note sm = slotmaps_ok(3) [OF b]
  show ?goal
    using E b
  proof (cases rule: set_kind.lookup [where k = k])
    case (hit slot s S r)
    then have ok: "set_ok s" by simp
    from insert_members_law [OF ok, of ms] obtain s' where
      s': "insert_members s ms = (card (set ms - dom (set_view s)), s')" "set_ok s'"
        "dom (set_view s') = dom (set_view s) \<union> set ms" by blast
    have "set_view s' \<noteq> Map.empty" using s'(3) False by auto
    from set_put [OF E b hit(1) s'(2) this] s' hit E sm b False show ?goal
      by (simp add: sadd_existing_or_wrongtype_hashed_def spec_sadd_def)
  next
    case (wrong v)
    with E sm b False show ?goal
      by (cases v) (auto simp: sadd_existing_or_wrongtype_hashed_def spec_sadd_def)
  next
    case miss
    from insert_members_law [of set_empty ms] set_empty_law obtain s' where
      s': "insert_members set_empty ms = (card (set ms), s')" "set_ok s'" "dom (set_view s') = set ms" by auto
    have "set_view s' \<noteq> Map.empty" using s'(3) False by auto
    from set_create [OF E b miss(4) s'(2) this] s' miss E sm b False show ?goal
      by (auto simp: sadd_existing_or_wrongtype_hashed_def sadd_new_unchecked_hashed_def spec_sadd_def)
  qed
qed

lemma sadd_flag: "flag_exact k (spec_sadd k ms)"
  unfolding flag_exact_def
  by (auto simp: spec_sadd_def same_but_intros split: if_splits option.splits robj.splits)

interpretation sadd: bucket_create E k "sadd_existing_or_wrongtype_hashed E (hash_key E k) k ms"
  "sadd_new_unchecked_hashed E (hash_key E k) k ms" "spec_sadd k ms" for E k ms
proof (unfold_locales, goal_cases)
  case 1
  show ?case by (rule refines_create(1)) (rule sadd_attempt [OF 1])
next
  case 2
  show ?case by (rule sadd_flag)
next
  case (3 b b')
  show ?case by (rule refines_create(2) [OF sadd_attempt [OF 3(1)] 3(2,3)])
qed

lemma srem_refines:
  assumes E: "env_ok E"
  shows "refines E (srem E k ms) (spec_srem k ms)"
  unfolding srem_def [abs_def] spec_srem_def [abs_def]
proof (rule set_kind.refines_on [OF E], goal_cases)
  case (1 b slot s S)
  then have ok: "set_ok s" and S: "S = dom (set_view s)" by simp_all
  from so.remove_each_law [OF ok, of ms] obtain s' gone where
    s': "remove_each set_remove s ms = (gone, s')" "set_ok s'" "set_view s' = set_view s |` (- set ms)" by blast
  have n: "length gone = card (set ms \<inter> dom (set_view s))"
    using so.remove_each_count [OF ok, of ms] by (simp add: s'(1))
  have d: "dom (set_view s') = dom (set_view s) - set ms" by (auto simp: s'(3))
  have e: "set_is_empty s' \<longleftrightarrow> dom (set_view s) \<subseteq> set ms"
    using d by (simp add: set_is_empty_iff dom_eq_empty_conv [symmetric] del: dom_eq_empty_conv)
  from set_finish [OF E 1(1,2) s'(2)] show ?case by (simp add: s'(1) n e d Let_def S)
qed

lemma srem_flag: "flag_exact k (spec_srem k ms)"
  unfolding spec_srem_def [abs_def]
  by (rule on_obj_flag) (simp add: same_but_intros)

interpretation srem: bucket_write E k "srem E k ms" "spec_srem k ms" for E k ms
  by unfold_locales (fact srem_refines srem_flag)+

section \<open>Commands that depend on the order of iteration\<close>

definition enumerates :: "bytes list \<Rightarrow> bytes set \<Rightarrow> bool" where
  "enumerates xs S \<longleftrightarrow> distinct xs \<and> set xs = S"

lemma set_iter_enumerates: "env_ok E \<Longrightarrow> set_ok s \<Longrightarrow> enumerates (set_iter E s) (dom (set_view s))"
  by (simp add: enumerates_def set_iter_members)

lemma fold_set_remove:
  "set_ok s \<Longrightarrow> set_ok (fold (\<lambda>m s. snd (set_remove s m)) ms s) \<and>
     dom (set_view (fold (\<lambda>m s. snd (set_remove s m)) ms s)) = dom (set_view s) - set ms"
proof (induction ms arbitrary: s)
  case (Cons m ms)
  from set_remove_law [OF Cons.prems, of m] obtain s' where
    s': "set_remove s m = (set_view s m \<noteq> None, s')" "set_ok s'" "set_view s' = (set_view s)(m := None)" by blast
  with Cons.IH [OF s'(2)] show ?case by (auto split: if_splits)
qed simp

definition spop_result :: "nat option \<Rightarrow> bytes list \<Rightarrow> redis_object_result" where
  "spop_result wanted xs =
     (case wanted of None \<Rightarrow> Bulk (Some (hd xs)) | Some n \<Rightarrow> Array (map Some (take n xs)))"

lemma spop_law:
  assumes E: "env_ok E" and b: "bucket_inv E b" and S: "a_obj (bucket_abs E b) k = Some (OSet S)"
  shows "\<exists>xs b'. enumerates xs S \<and>
    spop E k wanted b = Some (spop_result wanted xs, length xs \<le> (case wanted of None \<Rightarrow> 1 | Some n \<Rightarrow> n), b') \<and>
    bucket_inv E b' \<and>
    bucket_abs E b' = set_left k (set (drop (case wanted of None \<Rightarrow> 1 | Some n \<Rightarrow> n) xs)) (bucket_abs E b)"
  using E b
proof (cases rule: set_kind.lookup [where k = k])
  case (hit slot s S' r)
  then have ok: "set_ok s" and view: "dom (set_view s) = S" "S \<noteq> {}" using S by auto
  define n where "n = (case wanted of None \<Rightarrow> 1 | Some n \<Rightarrow> n)"
  define xs where "xs = set_iter E s"
  define s' where "s' = fold (\<lambda>m s. snd (set_remove s m)) (take n xs) s"
  have xs: "enumerates xs S" using set_iter_enumerates [OF E ok] view by (simp add: xs_def)
  have ne: "xs \<noteq> []" using xs view(2) by (auto simp: enumerates_def)
  have "set_ok s'" "dom (set_view s') = S - set (take n xs)"
    using fold_set_remove [OF ok, of "take n xs"] view by (auto simp: s'_def)
  moreover have "S - set (take n xs) = set (drop n xs)"
    using xs set_take_disj_set_drop_if_distinct [of xs n n] append_take_drop_id [of n xs]
    by (auto simp: enumerates_def dest: in_set_takeD in_set_dropD) (metis Un_iff append_take_drop_id set_append)
  ultimately have s': "set_ok s'" "dom (set_view s') = set (drop n xs)" by simp_all
  have e: "set_is_empty s' \<longleftrightarrow> length xs \<le> n"
    using s'(2) by (auto simp: set_is_empty_iff dom_eq_empty_conv [symmetric] simp del: dom_eq_empty_conv)
  have r: "spop_result wanted xs = (case wanted of None \<Rightarrow> Bulk (case take n xs of [] \<Rightarrow> None | m # _ \<Rightarrow> Some m)
      | Some _ \<Rightarrow> Array (map Some (take n xs)))"
    using ne by (cases xs) (simp_all add: spop_result_def n_def split: option.split)
  have "spop E k wanted b = Some (spop_result wanted xs, set_is_empty s',
      if set_is_empty s' then drop_set E (put_set b slot s') k slot else put_set b slot s')"
    unfolding r using hit E slotmaps_ok(3) [OF b] by (cases wanted) (simp_all add: spop_def Let_def n_def xs_def s'_def)
  with set_finish [OF E b hit(1) s'(1)] xs e s'(2) show ?thesis unfolding n_def by auto
qed (use S in auto)

interpretation spop: bucket_op E k "spop E k wanted" for E k wanted
proof
  fix b assume E: "env_ok E" and b: "bucket_inv E b"
  show "\<exists>r fl b'. spop E k wanted b = Some (r, fl, b') \<and> bucket_inv E b' \<and>
      fl = ((a_obj (bucket_abs E b) k = None) \<noteq> (a_obj (bucket_abs E b') k = None)) \<and>
      same_but k (bucket_abs E b) (bucket_abs E b')"
  proof (cases "\<exists>S. a_obj (bucket_abs E b) k = Some (OSet S)")
    case True
    then obtain S where S: "a_obj (bucket_abs E b) k = Some (OSet S)" ..
    from spop_law [OF E b S, of wanted] S show ?thesis
      by (auto simp: obj_left_def same_but_intros split: if_splits)
  next
    case False
    show ?thesis
      using E b
    proof (cases rule: set_kind.lookup [where k = k])
      case hit
      with False show ?thesis by auto
    qed (use E b slotmaps_ok(3) [OF b] in \<open>auto simp: spop_def same_but_refl split: option.split\<close>)
  qed
qed

definition srandmember_result :: "int option \<Rightarrow> bytes list \<Rightarrow> redis_object_result" where
  "srandmember_result wanted xs =
     (case wanted of
        None \<Rightarrow> Bulk (Some (hd xs))
      | Some n \<Rightarrow>
          if 0 \<le> n then Array (map Some (take (nat n) xs))
          else Array (map (\<lambda>i. Some (xs ! (i mod length xs))) [0..<nat (- n)]))"

lemma srandmember_law:
  assumes E: "env_ok E" and b: "bucket_inv E b" and S: "a_obj (bucket_abs E b) k = Some (OSet S)"
  shows "\<exists>xs. enumerates xs S \<and> srandmember E k wanted b = Some (srandmember_result wanted xs) \<and>
    smembers_visit E k b = Some (Begin (card S) # map (\<lambda>m. Item (Some m)) xs, Written) \<and>
    srandmember_positive_visit E k n b =
      Some (Begin (min n (card S)) # map (\<lambda>m. Item (Some m)) (take n xs), Written)"
  using E b
proof (cases rule: set_kind.lookup [where k = k])
  case (hit slot s S' r)
  then have ok: "set_ok s" and view: "dom (set_view s) = S" "S \<noteq> {}" using S by auto
  let ?xs = "set_iter E s"
  have xs: "enumerates ?xs S" using set_iter_enumerates [OF E ok] view by simp
  have ne: "?xs \<noteq> []"
    using xs view(2) by (auto simp: enumerates_def)
  have len: "set_len s = card S" "length ?xs = card S"
    using set_len_card [OF ok] view xs by (auto simp: enumerates_def dest: distinct_card)
  note sm = slotmaps_ok(3) [OF b] and mem = set_iter_members [OF E ok]
  have "srandmember E k wanted b = Some (srandmember_result wanted ?xs)"
    using hit E sm ne
    by (cases wanted; cases ?xs) (auto simp: srandmember_def srandmember_result_def Let_def)
  moreover have "smembers_visit E k b = Some (Begin (card S) # map (\<lambda>m. Item (Some m)) ?xs, Written)"
    using hit E sm by (simp add: smembers_visit_def mem len)
  moreover have "srandmember_positive_visit E k n b =
      Some (Begin (min n (card S)) # map (\<lambda>m. Item (Some m)) (take n ?xs), Written)"
    using hit E sm len by (simp add: srandmember_positive_visit_def mem min_def)
  ultimately show ?thesis using xs by blast
qed (use S in auto)

end
