(* ===== verification/BucketZset.thy ===== *)
theory BucketZset
  imports Kinds
begin

text \<open>
  The sorted-set commands of a bucket (\<^verbatim>\<open>bucket_zset.rs\<close>): the code, the abstract commands on
  score maps, and the proof that the code implements them. The order of the members is the
  canonical one, by score and then by member.
\<close>

section \<open>Commands\<close>

definition zadd_existing_or_wrongtype_hashed ::
  "('h, 't) env \<Rightarrow> u64 \<Rightarrow> bytes \<Rightarrow> f64 \<Rightarrow> bytes \<Rightarrow> ('h, 't) bucket \<Rightarrow> (write_attempt \<times> ('h, 't) bucket) option" where
  "zadd_existing_or_wrongtype_hashed E key_hash key score member b =
     (case sm_get_hashed E (zsets b) key_hash key of
        Some slot \<Rightarrow> do {
          z \<leftarrow> slab_get (zset_slab b) slot;
          (fresh, z') \<leftarrow> zset_insert_slice E z member score;
          Some (Complete (Integer (bool_int fresh)), put_zset b slot z')
        }
      | None \<Rightarrow>
          if has_non_zset E b key then Some (Complete WrongType, b)
          else Some (MissingObject, b))"

definition zadd_new_unchecked_hashed ::
  "('h, 't) env \<Rightarrow> u64 \<Rightarrow> bytes \<Rightarrow> f64 \<Rightarrow> bytes \<Rightarrow> ('h, 't) bucket \<Rightarrow> (redis_object_result \<times> ('h, 't) bucket) option" where
  "zadd_new_unchecked_hashed E key_hash key score member b = do {
     b' \<leftarrow> new_zset E b key_hash key (zset_single member score);
     Some (Integer 1, b')
   }"

text \<open>The guard of a conditional \<^verbatim>\<open>ZADD\<close>: the command does nothing.\<close>

definition zadd_skips :: "bool \<Rightarrow> bool \<Rightarrow> bool \<Rightarrow> bool \<Rightarrow> f64 \<Rightarrow> f64 option \<Rightarrow> bool" where
  "zadd_skips nx xx gt lt score existing_score \<longleftrightarrow>
     nx \<and> existing_score \<noteq> None \<or>
     xx \<and> existing_score = None \<or>
     gt \<and> (case existing_score of None \<Rightarrow> False | Some old \<Rightarrow> f64_le score old) \<or>
     lt \<and> (case existing_score of None \<Rightarrow> False | Some old \<Rightarrow> f64_le old score)"

definition zadd_response :: "bool \<Rightarrow> bool \<Rightarrow> f64 option \<Rightarrow> f64 \<Rightarrow> redis_object_result" where
  "zadd_response ch incr existing_score next_score =
     (if incr then Bulk (Some (format_score next_score))
      else let changed = (case existing_score of None \<Rightarrow> True | Some old \<Rightarrow> old \<noteq> next_score)
           in Integer (bool_int (if ch then changed else existing_score = None)))"

definition zadd_cond ::
  "('h, 't) env \<Rightarrow> bytes \<Rightarrow> f64 \<Rightarrow> bytes \<Rightarrow> bool \<Rightarrow> bool \<Rightarrow> bool \<Rightarrow> bool \<Rightarrow> bool \<Rightarrow> bool \<Rightarrow> ('h, 't) bucket \<Rightarrow>
   (redis_object_result \<times> bool \<times> ('h, 't) bucket) option" where
  "zadd_cond E key score member nx xx gt lt ch incr b =
     (if has_non_zset E b key then Some (WrongType, False, b)
      else do {
        let existing_slot = sm_get E (zsets b) key;
        existing_score \<leftarrow> (case existing_slot of
            None \<Rightarrow> Some None
          | Some slot \<Rightarrow> do { z \<leftarrow> slab_get (zset_slab b) slot; Some (zset_score z member) });
        if zadd_skips nx xx gt lt score existing_score
        then Some (if incr then Bulk None else Integer 0, False, b)
        else
          let value = f64_add (case existing_score of None \<Rightarrow> f64_zero | Some old \<Rightarrow> old) score;
              next_score = (if incr then value else score)
          in if incr \<and> \<not> f64_is_finite value
             then Some (Simple ''ERR resulting score is not finite'', False, b)
             else case existing_slot of
                 Some slot \<Rightarrow> do {
                   z \<leftarrow> slab_get (zset_slab b) slot;
                   (_, z') \<leftarrow> zset_insert_slice E z member next_score;
                   Some (zadd_response ch incr existing_score next_score, False, put_zset b slot z')
                 }
               | None \<Rightarrow> do {
                   b' \<leftarrow> new_zset E b (hash_key E key) key (zset_single member next_score);
                   Some (zadd_response ch incr existing_score next_score, True, b')
                 }
      })"

definition zincrby ::
  "('h, 't) env \<Rightarrow> bytes \<Rightarrow> f64 \<Rightarrow> bytes \<Rightarrow> ('h, 't) bucket \<Rightarrow> (redis_object_result \<times> bool \<times> ('h, 't) bucket) option" where
  "zincrby E key delta member b = zadd_cond E key delta member False False False False True True b"

definition zrem ::
  "('h, 't) env \<Rightarrow> bytes \<Rightarrow> bytes \<Rightarrow> ('h, 't) bucket \<Rightarrow> (redis_object_result \<times> bool \<times> ('h, 't) bucket) option" where
  "zrem E key member b =
     (case sm_get E (zsets b) key of
        Some slot \<Rightarrow> do {
          z \<leftarrow> slab_get (zset_slab b) slot;
          let (removed, z') = zset_remove E z member;
              b1 = put_zset b slot z';
              emptied = zset_is_empty z';
              b2 = (if emptied then drop_zset E b1 key slot else b1)
          in Some (Integer (bool_int removed), emptied, b2)
        }
      | None \<Rightarrow> if has_non_zset E b key then Some (WrongType, False, b) else Some (Integer 0, False, b))"

definition zrem_many ::
  "('h, 't) env \<Rightarrow> bytes \<Rightarrow> bytes list \<Rightarrow> ('h, 't) bucket \<Rightarrow> (redis_object_result \<times> bool \<times> ('h, 't) bucket) option" where
  "zrem_many E key members b =
     (case sm_get E (zsets b) key of
        Some slot \<Rightarrow> do {
          z \<leftarrow> slab_get (zset_slab b) slot;
          let (removed, z') = remove_each (zset_remove E) z members;
              b1 = put_zset b slot z';
              emptied = zset_is_empty z';
              b2 = (if emptied then drop_zset E b1 key slot else b1)
          in Some (Integer (int (length removed)), emptied, b2)
        }
      | None \<Rightarrow> if has_non_zset E b key then Some (WrongType, False, b) else Some (Integer 0, False, b))"

definition zpop ::
  "('h, 't) env \<Rightarrow> bytes \<Rightarrow> nat \<Rightarrow> bool \<Rightarrow> ('h, 't) bucket \<Rightarrow> (redis_object_result \<times> bool \<times> ('h, 't) bucket) option" where
  "zpop E key n hi_end b =
     (case sm_get E (zsets b) key of
        Some slot \<Rightarrow> do {
          z \<leftarrow> slab_get (zset_slab b) slot;
          (popped, z') \<leftarrow> zset_pop_extreme E z n hi_end;
          let b1 = put_zset b slot z';
              emptied = zset_is_empty z';
              b2 = (if emptied then drop_zset E b1 key slot else b1)
          in Some (Array (concat (map (\<lambda>(member, score). [Some member, Some (format_score score)]) popped)), emptied, b2)
        }
      | None \<Rightarrow> if has_non_zset E b key then Some (WrongType, False, b) else Some (Array [], False, b))"

definition zscore :: "('h, 't) env \<Rightarrow> bytes \<Rightarrow> bytes \<Rightarrow> ('h, 't) bucket \<Rightarrow> redis_object_result option" where
  "zscore E key member b =
     (case sm_get E (zsets b) key of
        Some slot \<Rightarrow> do { z \<leftarrow> slab_get (zset_slab b) slot; Some (Bulk (map_option format_score (zset_score z member))) }
      | None \<Rightarrow> if has_non_zset E b key then Some WrongType else Some (Bulk None))"

definition zscore_value :: "('h, 't) env \<Rightarrow> bytes \<Rightarrow> bytes \<Rightarrow> ('h, 't) bucket \<Rightarrow> (unit + f64 option) option" where
  "zscore_value E key member b =
     (case sm_get E (zsets b) key of
        Some slot \<Rightarrow> do { z \<leftarrow> slab_get (zset_slab b) slot; Some (Inr (zset_score z member)) }
      | None \<Rightarrow> if has_non_zset E b key then Some (Inl ()) else Some (Inr None))"

definition zmscore :: "('h, 't) env \<Rightarrow> bytes \<Rightarrow> bytes list \<Rightarrow> ('h, 't) bucket \<Rightarrow> redis_object_result option" where
  "zmscore E key members b =
     (case sm_get E (zsets b) key of
        Some slot \<Rightarrow> do { z \<leftarrow> slab_get (zset_slab b) slot; Some (Array (map (\<lambda>member. map_option format_score (zset_score z member)) members)) }
      | None \<Rightarrow> if has_non_zset E b key then Some WrongType else Some (Array (replicate (length members) None)))"

definition zscore_visit :: "('h, 't) env \<Rightarrow> bytes \<Rightarrow> bytes \<Rightarrow> ('h, 't) bucket \<Rightarrow> (f64 option list \<times> read_outcome) option" where
  "zscore_visit E key member b =
     (case sm_get E (zsets b) key of
        Some slot \<Rightarrow> do { z \<leftarrow> slab_get (zset_slab b) slot; Some ([zset_score z member], Written) }
      | None \<Rightarrow> if has_non_zset E b key then Some ([], WrongTypeOutcome) else Some ([], Missing))"

definition zcard :: "('h, 't) env \<Rightarrow> bytes \<Rightarrow> ('h, 't) bucket \<Rightarrow> redis_object_result option" where
  "zcard E key b =
     (case sm_get E (zsets b) key of
        Some slot \<Rightarrow> do { z \<leftarrow> slab_get (zset_slab b) slot; Some (Integer (int (zset_len z))) }
      | None \<Rightarrow> if has_non_zset E b key then Some WrongType else Some (Integer 0))"

definition zcard_visit :: "('h, 't) env \<Rightarrow> bytes \<Rightarrow> ('h, 't) bucket \<Rightarrow> (int list \<times> read_outcome) option" where
  "zcard_visit E key b =
     (case sm_get E (zsets b) key of
        Some slot \<Rightarrow> do { z \<leftarrow> slab_get (zset_slab b) slot; Some ([int (zset_len z)], Written) }
      | None \<Rightarrow> if has_non_zset E b key then Some ([], WrongTypeOutcome) else Some ([], Missing))"

definition zrange :: "('h, 't) env \<Rightarrow> bytes \<Rightarrow> int \<Rightarrow> int \<Rightarrow> ('h, 't) bucket \<Rightarrow> redis_object_result option" where
  "zrange E key start stop b =
     (case sm_get E (zsets b) key of
        Some slot \<Rightarrow> do { z \<leftarrow> slab_get (zset_slab b) slot; Some (Array (zset_range E z start stop)) }
      | None \<Rightarrow> if has_non_zset E b key then Some WrongType else Some (Array []))"

definition zentries :: "('h, 't) env \<Rightarrow> bytes \<Rightarrow> ('h, 't) bucket \<Rightarrow> (unit + (bytes \<times> f64) list) option" where
  "zentries E key b =
     (case sm_get E (zsets b) key of
        Some slot \<Rightarrow> do { z \<leftarrow> slab_get (zset_slab b) slot; Some (Inr (zset_entries E z)) }
      | None \<Rightarrow> if has_non_zset E b key then Some (Inl ()) else Some (Inr []))"

definition zrank :: "('h, 't) env \<Rightarrow> bytes \<Rightarrow> bytes \<Rightarrow> bool \<Rightarrow> ('h, 't) bucket \<Rightarrow> redis_object_result option" where
  "zrank E key member rv b =
     (case sm_get E (zsets b) key of
        Some slot \<Rightarrow> do { z \<leftarrow> slab_get (zset_slab b) slot; rank \<leftarrow> zset_rank E z member rv; Some (Integer (case rank of None \<Rightarrow> - 1 | Some r \<Rightarrow> int r)) }
      | None \<Rightarrow> if has_non_zset E b key then Some WrongType else Some (Integer (- 1)))"

definition zrank_value :: "('h, 't) env \<Rightarrow> bytes \<Rightarrow> bytes \<Rightarrow> bool \<Rightarrow> ('h, 't) bucket \<Rightarrow> (unit + nat option) option" where
  "zrank_value E key member rv b =
     (case sm_get E (zsets b) key of
        Some slot \<Rightarrow> do { z \<leftarrow> slab_get (zset_slab b) slot; rank \<leftarrow> zset_rank E z member rv; Some (Inr rank) }
      | None \<Rightarrow> if has_non_zset E b key then Some (Inl ()) else Some (Inr None))"

definition zrank_visit :: "('h, 't) env \<Rightarrow> bytes \<Rightarrow> bytes \<Rightarrow> bool \<Rightarrow> ('h, 't) bucket \<Rightarrow> (nat option list \<times> read_outcome) option" where
  "zrank_visit E key member rv b =
     (case sm_get E (zsets b) key of
        Some slot \<Rightarrow> do { z \<leftarrow> slab_get (zset_slab b) slot; rank \<leftarrow> zset_rank E z member rv; Some ([rank], Written) }
      | None \<Rightarrow> if has_non_zset E b key then Some ([], WrongTypeOutcome) else Some ([], Missing))"

definition zcount :: "('h, 't) env \<Rightarrow> bytes \<Rightarrow> f64 \<Rightarrow> f64 \<Rightarrow> ('h, 't) bucket \<Rightarrow> redis_object_result option" where
  "zcount E key lo hi b =
     (case sm_get E (zsets b) key of
        Some slot \<Rightarrow> do { z \<leftarrow> slab_get (zset_slab b) slot; n \<leftarrow> zset_count_by_score E z lo True hi True; Some (Integer (int n)) }
      | None \<Rightarrow> if has_non_zset E b key then Some WrongType else Some (Integer 0))"

definition zcount_range_visit :: "('h, 't) env \<Rightarrow> bytes \<Rightarrow> f64 \<Rightarrow> bool \<Rightarrow> f64 \<Rightarrow> bool \<Rightarrow> ('h, 't) bucket \<Rightarrow> (int list \<times> read_outcome) option" where
  "zcount_range_visit E key lo lo_incl hi hi_incl b =
     (case sm_get E (zsets b) key of
        Some slot \<Rightarrow> do { z \<leftarrow> slab_get (zset_slab b) slot; n \<leftarrow> zset_count_by_score E z lo lo_incl hi hi_incl; Some ([int n], Written) }
      | None \<Rightarrow> if has_non_zset E b key then Some ([], WrongTypeOutcome) else Some ([], Missing))"

definition zrange_visit :: "('h, 't) env \<Rightarrow> bytes \<Rightarrow> int \<Rightarrow> int \<Rightarrow> ('h, 't) bucket \<Rightarrow> (array_item list \<times> read_outcome) option" where
  "zrange_visit E key start stop b =
     (case sm_get E (zsets b) key of
        Some slot \<Rightarrow> do { z \<leftarrow> slab_get (zset_slab b) slot; Some (zset_range_visit E z start stop, Written) }
      | None \<Rightarrow> if has_non_zset E b key then Some ([], WrongTypeOutcome) else Some ([], Missing))"

definition zrange_entries_visit :: "('h, 't) env \<Rightarrow> bytes \<Rightarrow> int \<Rightarrow> int \<Rightarrow> bool \<Rightarrow> ('h, 't) bucket \<Rightarrow> (zset_range_item list \<times> read_outcome) option" where
  "zrange_entries_visit E key start stop rv b =
     (case sm_get E (zsets b) key of
        Some slot \<Rightarrow> do { z \<leftarrow> slab_get (zset_slab b) slot; items \<leftarrow> zset_range_entries_visit E z start stop rv; Some (items, Written) }
      | None \<Rightarrow> if has_non_zset E b key then Some ([], WrongTypeOutcome) else Some ([], Missing))"

section \<open>Reads\<close>

lemma zset_reads_on:
  assumes "env_ok E" "\<And>z. zset_ok E z \<Longrightarrow> zset_score z \<noteq> Map.empty \<Longrightarrow> g z = Some (f (zset_score z))"
  shows "reads E (\<lambda>b. case sm_get E (zsets b) k of
       None \<Rightarrow> if has_non_zset E b k then Some wrong else Some dflt
     | Some slot \<Rightarrow> Option.bind (slab_get (zset_slab b) slot) g) (read_obj as_zset k dflt wrong f)"
  by (rule zset_kind.reads_on) (use assms in auto)

lemma zset_card: "env_ok E \<Longrightarrow> zset_ok E z \<Longrightarrow> zset_len z = card (dom (zset_score z))"
  by (rule zset_len_length)

lemma zscore_reads:
  "env_ok E \<Longrightarrow> reads E (zscore E k m) (read_obj as_zset k (Bulk None) WrongType (\<lambda>v. Bulk (map_option format_score (v m))))"
  unfolding zscore_def [abs_def] by (rule zset_reads_on) simp_all

lemma zscore_value_reads:
  "env_ok E \<Longrightarrow> reads E (zscore_value E k m) (read_obj as_zset k (Inr None) (Inl ()) (\<lambda>v. Inr (v m)))"
  unfolding zscore_value_def [abs_def] by (rule zset_reads_on) simp_all

lemma zmscore_reads:
  "env_ok E \<Longrightarrow> reads E (zmscore E k ms)
     (read_obj as_zset k (Array (replicate (length ms) None)) WrongType
       (\<lambda>v. Array (map (\<lambda>m. map_option format_score (v m)) ms)))"
  unfolding zmscore_def [abs_def] by (rule zset_reads_on) simp_all

lemma zscore_visit_reads:
  "env_ok E \<Longrightarrow> reads E (zscore_visit E k m) (read_obj as_zset k ([], Missing) ([], WrongTypeOutcome) (\<lambda>v. ([v m], Written)))"
  unfolding zscore_visit_def [abs_def] by (rule zset_reads_on) simp_all

lemma zcard_reads:
  "env_ok E \<Longrightarrow> reads E (zcard E k) (read_obj as_zset k (Integer 0) WrongType (\<lambda>v. Integer (int (card (dom v)))))"
  unfolding zcard_def [abs_def] by (rule zset_reads_on) (simp_all add: zset_card)

lemma zcard_visit_reads:
  "env_ok E \<Longrightarrow> reads E (zcard_visit E k)
     (read_obj as_zset k ([], Missing) ([], WrongTypeOutcome) (\<lambda>v. ([int (card (dom v))], Written)))"
  unfolding zcard_visit_def [abs_def] by (rule zset_reads_on) (simp_all add: zset_card)

lemma zrange_reads:
  "env_ok E \<Longrightarrow> reads E (zrange E k start stop)
     (read_obj as_zset k (Array []) WrongType
       (\<lambda>v. Array (map (\<lambda>e. Some (fst e)) (zrange_spec (zcanon v) start stop))))"
  unfolding zrange_def [abs_def]
  by (rule zset_reads_on) (simp_all add: zset_range_law zset_entries_canon)

lemma zentries_reads:
  "env_ok E \<Longrightarrow> reads E (zentries E k) (read_obj as_zset k (Inr []) (Inl ()) (\<lambda>v. Inr (zcanon v)))"
  unfolding zentries_def [abs_def] by (rule zset_reads_on) (simp_all add: zset_entries_canon)

definition zrank_spec :: "(bytes \<rightharpoonup> f64) \<Rightarrow> bytes \<Rightarrow> bool \<Rightarrow> nat option" where
  "zrank_spec v m rv = position (\<lambda>e. fst e = m) (if rv then rev (zcanon v) else zcanon v)"

lemma zset_rank_spec: "env_ok E \<Longrightarrow> zset_ok E z \<Longrightarrow> zset_rank E z m rv = Some (zrank_spec (zset_score z) m rv)"
  by (simp add: zset_rank_law zrank_spec_def zset_entries_canon)

lemma zrank_reads:
  "env_ok E \<Longrightarrow> reads E (zrank E k m rv)
     (read_obj as_zset k (Integer (- 1)) WrongType
       (\<lambda>v. Integer (case zrank_spec v m rv of None \<Rightarrow> - 1 | Some r \<Rightarrow> int r)))"
  unfolding zrank_def [abs_def] by (rule zset_reads_on) (simp_all add: zset_rank_spec)

lemma zrank_value_reads:
  "env_ok E \<Longrightarrow> reads E (zrank_value E k m rv) (read_obj as_zset k (Inr None) (Inl ()) (\<lambda>v. Inr (zrank_spec v m rv)))"
  unfolding zrank_value_def [abs_def] by (rule zset_reads_on) (simp_all add: zset_rank_spec)

lemma zrank_visit_reads:
  "env_ok E \<Longrightarrow> reads E (zrank_visit E k m rv)
     (read_obj as_zset k ([], Missing) ([], WrongTypeOutcome) (\<lambda>v. ([zrank_spec v m rv], Written)))"
  unfolding zrank_visit_def [abs_def] by (rule zset_reads_on) (simp_all add: zset_rank_spec)

lemma zrange_visit_reads:
  "env_ok E \<Longrightarrow> reads E (zrange_visit E k start stop)
     (read_obj as_zset k ([], Missing) ([], WrongTypeOutcome)
       (\<lambda>v. let r = zrange_spec (zcanon v) start stop
            in (Begin (length r) # map (\<lambda>e. Item (Some (fst e))) r, Written)))"
  unfolding zrange_visit_def [abs_def]
  by (rule zset_reads_on) (simp_all add: zset_range_visit_law zset_entries_canon Let_def)

lemma zrange_entries_visit_reads:
  "env_ok E \<Longrightarrow> reads E (zrange_entries_visit E k start stop rv)
     (read_obj as_zset k ([], Missing) ([], WrongTypeOutcome)
       (\<lambda>v. let r = zrange_spec (if rv then rev (zcanon v) else zcanon v) start stop
            in (ZBegin (length r) # map (\<lambda>e. ZEntry (fst e) (snd e)) r, Written)))"
  unfolding zrange_entries_visit_def [abs_def]
  by (rule zset_reads_on) (simp_all add: zset_range_entries_visit_law zset_entries_canon Let_def)

section \<open>Counting\<close>

definition zcount_spec :: "(bytes \<rightharpoonup> f64) \<Rightarrow> f64 \<Rightarrow> bool \<Rightarrow> f64 \<Rightarrow> bool \<Rightarrow> nat" where
  "zcount_spec v lo lo_incl hi hi_incl =
     length (filter (\<lambda>e. in_score_range lo lo_incl hi hi_incl (snd e)) (zcanon v))"

text \<open>Counting compares scores by value, so it needs scores and bounds that are not NaN.\<close>

lemma zcount_range_visit_law:
  assumes E: "env_ok E" and b: "bucket_inv E b" and v: "a_obj (bucket_abs E b) k = Some (OZSet v)"
    and nn: "no_nan (zcanon v)" "\<not> f64_is_nan lo" "\<not> f64_is_nan hi"
  shows "zcount_range_visit E k lo lo_incl hi hi_incl b = Some ([int (zcount_spec v lo lo_incl hi hi_incl)], Written)"
    "zcount E k lo hi b = Some (Integer (int (zcount_spec v lo True hi True)))"
proof -
  obtain slot z where z: "sm_get E (zsets b) k = Some slot" "slab_get (zset_slab b) slot = Some z"
    "zset_ok E z" "zset_score z = v"
    using E b v by (cases rule: zset_kind.lookup [where k = k]) auto
  have "zset_count_by_score E z lo li hi hi' = Some (zcount_spec v lo li hi hi')" for li hi'
    using zset_count_by_score_law [OF E z(3) _ nn(2,3)] nn(1) z(4)
    by (simp add: zcount_spec_def zset_entries_canon [OF z(3)])
  with z show "zcount_range_visit E k lo lo_incl hi hi_incl b = Some ([int (zcount_spec v lo lo_incl hi hi_incl)], Written)"
    "zcount E k lo hi b = Some (Integer (int (zcount_spec v lo True hi True)))"
    by (simp_all add: zcount_range_visit_def zcount_def)
qed

section \<open>Specifications of the writes\<close>

abbreviation zset_left :: "bytes \<Rightarrow> (bytes \<rightharpoonup> f64) \<Rightarrow> astate \<Rightarrow> astate" where
  "zset_left k v A \<equiv> obj_left k (v = Map.empty) (OZSet v) A"

definition spec_zadd :: "bytes \<Rightarrow> f64 \<Rightarrow> bytes \<Rightarrow> write_spec" where
  "spec_zadd k s m A =
     (case a_obj A k of
        None \<Rightarrow> (Integer 1, True, a_put k (OZSet [m \<mapsto> s]) A)
      | Some (OZSet v) \<Rightarrow> (Integer (bool_int (v m = None)), False, a_put k (OZSet (v(m \<mapsto> s))) A)
      | Some _ \<Rightarrow> (WrongType, False, A))"

text \<open>
  When a conditional \<^verbatim>\<open>ZADD\<close> may set the score \<open>s\<close> of a member whose score is \<open>cur\<close>, in the terms of the command's manual: \<^verbatim>\<open>XX\<close>
  never adds a member, \<^verbatim>\<open>NX\<close> never updates one, \<^verbatim>\<open>GT\<close> and \<^verbatim>\<open>LT\<close> update only upwards and only downwards. Two scores of which
  one is NaN are not ordered, and the conditions do not stop them.
\<close>

definition f64_unordered :: "f64 \<Rightarrow> f64 \<Rightarrow> bool" where
  "f64_unordered x y \<longleftrightarrow> f64_is_nan x \<or> f64_is_nan y"

definition zadd_permits :: "bool \<Rightarrow> bool \<Rightarrow> bool \<Rightarrow> bool \<Rightarrow> f64 \<Rightarrow> f64 option \<Rightarrow> bool" where
  "zadd_permits nx xx gt lt s cur =
     (case cur of
        None \<Rightarrow> \<not> xx
      | Some old \<Rightarrow> \<not> nx \<and> (gt \<longrightarrow> f64_lt old s \<or> f64_unordered old s) \<and> (lt \<longrightarrow> f64_lt s old \<or> f64_unordered old s))"

text \<open>The answer to a step from the scores \<open>v\<close> to \<open>v'\<close>: how many members are new or, with \<^verbatim>\<open>CH\<close>, new or changed.\<close>

definition zadd_count :: "bool \<Rightarrow> (bytes \<rightharpoonup> f64) \<Rightarrow> (bytes \<rightharpoonup> f64) \<Rightarrow> nat" where
  "zadd_count ch v v' = card (if ch then {x. v' x \<noteq> v x} else dom v' - dom v)"

text \<open>A conditional \<^verbatim>\<open>ZADD\<close> on the scores \<open>v\<close>, empty when the key has no object.\<close>

definition zadd_at :: "bytes \<Rightarrow> f64 \<Rightarrow> bytes \<Rightarrow> bool \<Rightarrow> bool \<Rightarrow> bool \<Rightarrow> bool \<Rightarrow> bool \<Rightarrow> bool \<Rightarrow> (bytes \<rightharpoonup> f64) \<Rightarrow> write_spec" where
  "zadd_at k s m nx xx gt lt ch incr v A =
     (let score = (if incr then f64_add (case v m of None \<Rightarrow> f64_zero | Some old \<Rightarrow> old) s else s); v' = v(m \<mapsto> score)
      in if \<not> zadd_permits nx xx gt lt s (v m) then (if incr then Bulk None else Integer 0, False, A)
         else if incr \<and> \<not> f64_is_finite score then (Simple ''ERR resulting score is not finite'', False, A)
         else (if incr then Bulk (Some (format_score score)) else Integer (int (zadd_count ch v v')), a_obj A k = None,
               a_put k (OZSet v') A))"

definition spec_zadd_cond :: "bytes \<Rightarrow> f64 \<Rightarrow> bytes \<Rightarrow> bool \<Rightarrow> bool \<Rightarrow> bool \<Rightarrow> bool \<Rightarrow> bool \<Rightarrow> bool \<Rightarrow> write_spec" where
  "spec_zadd_cond k s m nx xx gt lt ch incr A =
     read_obj as_zset k (zadd_at k s m nx xx gt lt ch incr Map.empty A) (WrongType, False, A)
       (\<lambda>v. zadd_at k s m nx xx gt lt ch incr v A) A"

definition spec_zrem :: "bytes \<Rightarrow> bytes \<Rightarrow> write_spec" where
  "spec_zrem k m A =
     on_obj as_zset k (Integer 0)
       (\<lambda>v. (Integer (bool_int (v m \<noteq> None)), v(m := None) = Map.empty, zset_left k (v(m := None)) A)) A"

definition spec_zrem_many :: "bytes \<Rightarrow> bytes list \<Rightarrow> write_spec" where
  "spec_zrem_many k ms A =
     on_obj as_zset k (Integer 0)
       (\<lambda>v. (Integer (int (card (set ms \<inter> dom v))), v |` (- set ms) = Map.empty, zset_left k (v |` (- set ms)) A)) A"

definition zpop_reply :: "(bytes \<times> f64) list \<Rightarrow> redis_object_result" where
  "zpop_reply es = Array (concat (map (\<lambda>(member, score). [Some member, Some (format_score score)]) es))"

definition spec_zpop :: "bytes \<Rightarrow> nat \<Rightarrow> bool \<Rightarrow> write_spec" where
  "spec_zpop k n hi_end A =
     on_obj as_zset k (Array [])
       (\<lambda>v. let rest = map_of (left_seq n hi_end (zcanon v))
            in (zpop_reply (popped_seq n hi_end (zcanon v)), rest = Map.empty, zset_left k rest A)) A"

section \<open>The writes implement their specifications\<close>

lemma zset_finish:
  fixes k :: bytes
  assumes E: "env_ok E" and b: "bucket_inv E b" and i: "sm_map E (zsets b) k = Some slot" and z: "zset_ok E z"
  defines "b' \<equiv> (if zset_is_empty z then drop_zset E (put_zset b slot z) k slot else put_zset b slot z)"
  shows "bucket_inv E b'" "bucket_abs E b' = zset_left k (zset_score z) (bucket_abs E b)"
proof -
  obtain z0 where "slab_get (zset_slab b) slot = Some z0" using zset_slot [OF E b i] by metis
  then have b': "b' = (if zset_score z = Map.empty then drop_zset E b k slot else put_zset b slot z)"
    by (simp add: b'_def drop_put_zset zset_is_empty_iff)
  with zset_delete [OF E b i] zset_put [OF E b i z]
  show "bucket_inv E b'" "bucket_abs E b' = zset_left k (zset_score z) (bucket_abs E b)"
    by (auto simp: obj_left_def)
qed

lemma zrem_refines:
  assumes E: "env_ok E"
  shows "refines E (zrem E k m) (spec_zrem k m)"
  unfolding zrem_def [abs_def] spec_zrem_def [abs_def]
proof (rule zset_kind.refines_on [OF E], goal_cases)
  case (1 b slot z v)
  then have ok: "zset_ok E z" and v: "v = zset_score z" by simp_all
  from zset_remove_law [OF E ok, of m] obtain z' where
    z': "zset_remove E z m = (zset_score z m \<noteq> None, z')" "zset_ok E z'" "zset_score z' = (zset_score z)(m := None)" by blast
  from zset_finish [OF E 1(1,2) z'(2)] show ?case by (simp add: z'(1,3) v zset_is_empty_iff Let_def)
qed

lemma zrem_many_refines:
  assumes E: "env_ok E"
  shows "refines E (zrem_many E k ms) (spec_zrem_many k ms)"
  unfolding zrem_many_def [abs_def] spec_zrem_many_def [abs_def]
proof (rule zset_kind.refines_on [OF E], goal_cases)
  case (1 b slot z v)
  then have ok: "env_ok E \<and> zset_ok E z" and v: "v = zset_score z" using E by simp_all
  from zo.remove_each_law [OF ok, of ms] obtain z' gone where
    z': "remove_each (zset_remove E) z ms = (gone, z')" "zset_ok E z'" "zset_score z' = zset_score z |` (- set ms)" by blast
  have n: "length gone = card (set ms \<inter> dom (zset_score z))"
    using zo.remove_each_count [OF ok, of ms] by (simp add: z'(1))
  from zset_finish [OF E 1(1,2) z'(2)] show ?case by (simp add: z'(1,3) n v zset_is_empty_iff Let_def)
qed

lemma zpop_refines:
  assumes E: "env_ok E"
  shows "refines E (zpop E k n hi_end) (spec_zpop k n hi_end)"
  unfolding zpop_def [abs_def] spec_zpop_def [abs_def]
proof (rule zset_kind.refines_on [OF E], goal_cases)
  case (1 b slot z v)
  then have ok: "zset_ok E z" and v: "v = zset_score z" by simp_all
  from zset_pop_extreme_law [OF E ok, of n hi_end] obtain z' where
    z': "zset_pop_extreme E z n hi_end = Some (popped_seq n hi_end (zcanon v), z')" "zset_ok E z'"
      "zset_entries E z' = left_seq n hi_end (zcanon v)" by (auto simp: v zset_entries_canon [OF ok])
  have "zset_score z' = map_of (left_seq n hi_end (zcanon v))"
    using zset_entries_cases(2) [OF z'(2)] by (simp add: z'(3))
  with zset_finish [OF E 1(1,2) z'(2)] show ?case by (simp add: z'(1) zpop_reply_def zset_is_empty_iff Let_def)
qed

lemma zadd_skips_permits: "zadd_skips nx xx gt lt s cur \<longleftrightarrow> \<not> zadd_permits nx xx gt lt s cur"
  by (auto simp: zadd_skips_def zadd_permits_def f64_unordered_def f64_le_def f64_lt_def split: option.split)

lemma zadd_response_counts:
  "zadd_response ch incr (v m) s =
     (if incr then Bulk (Some (format_score s)) else Integer (int (zadd_count ch v (v(m \<mapsto> s)))))"
proof -
  have "{x. (v(m \<mapsto> s)) x \<noteq> v x} = (if v m = Some s then {} else {m})" by auto
  moreover have "dom (v(m \<mapsto> s)) - dom v = (if v m = None then {m} else {})" by auto
  ultimately show ?thesis
    by (auto simp: zadd_response_def zadd_count_def bool_int_def Let_def split: option.split)
qed

text \<open>What the code computes is the documented step.\<close>

lemma zadd_at_code:
  "zadd_at k s m nx xx gt lt ch incr v A =
     (let score = (if incr then f64_add (case v m of None \<Rightarrow> f64_zero | Some old \<Rightarrow> old) s else s)
      in if zadd_skips nx xx gt lt s (v m) then (if incr then Bulk None else Integer 0, False, A)
         else if incr \<and> \<not> f64_is_finite score then (Simple ''ERR resulting score is not finite'', False, A)
         else (zadd_response ch incr (v m) score, a_obj A k = None, a_put k (OZSet (v(m \<mapsto> score))) A))"
  by (simp only: zadd_at_def zadd_skips_permits zadd_response_counts Let_def not_not)

lemma zadd_cond_refines:
  assumes E: "env_ok E"
  shows "refines E (zadd_cond E k s m nx xx gt lt ch incr) (spec_zadd_cond k s m nx xx gt lt ch incr)"
proof (rule refinesI)
  fix b assume b: "bucket_inv E b"
  show "\<exists>r fl b'. zadd_cond E k s m nx xx gt lt ch incr b = Some (r, fl, b') \<and> bucket_inv E b' \<and>
      spec_zadd_cond k s m nx xx gt lt ch incr (bucket_abs E b) = (r, fl, bucket_abs E b')"
    using E b
  proof (cases rule: zset_kind.lookup [where k = k])
    case (hit slot z v ob)
    then have ok: "zset_ok E z" and v: "zset_score z = v" and o: "a_obj (bucket_abs E b) k = Some (OZSet v)"
      by simp_all
    define sc where "sc = (if incr then f64_add (case v m of None \<Rightarrow> f64_zero | Some old \<Rightarrow> old) s else s)"
    from zset_insert_law [OF E ok, of m sc] obtain z' where
      z': "zset_insert_slice E z m sc = Some (v m = None, z')" "zset_ok E z'" "zset_score z' = v(m \<mapsto> sc)"
      by (auto simp: v)
    have "zset_score z' \<noteq> Map.empty" using z'(3) by simp
    note put = zset_put [OF E b hit(1) z'(2) this, unfolded z'(3)]
    show ?thesis
    proof (cases "zadd_skips nx xx gt lt s (v m) \<or> incr \<and> \<not> f64_is_finite sc")
      case True
      let ?r = "if zadd_skips nx xx gt lt s (v m) then if incr then Bulk None else Integer 0
        else Simple ''ERR resulting score is not finite''"
      have "zadd_cond E k s m nx xx gt lt ch incr b = Some (?r, False, b)"
        using True hit(2,3,7) v by (cases incr) (auto simp: zadd_cond_def sc_def Let_def)
      moreover have "spec_zadd_cond k s m nx xx gt lt ch incr (bucket_abs E b) = (?r, False, bucket_abs E b)"
        using True o by (cases incr) (auto simp: spec_zadd_cond_def read_obj_def zadd_at_code sc_def Let_def)
      ultimately show ?thesis using b by metis
    next
      case False
      have "zadd_cond E k s m nx xx gt lt ch incr b =
          Some (zadd_response ch incr (v m) sc, False, put_zset b slot z')"
        using False hit z'(1) v by (cases incr) (simp_all add: zadd_cond_def sc_def Let_def)
      moreover have "spec_zadd_cond k s m nx xx gt lt ch incr (bucket_abs E b) =
          (zadd_response ch incr (v m) sc, False, a_put k (OZSet (v(m \<mapsto> sc))) (bucket_abs E b))"
        using False o by (cases incr) (simp_all add: spec_zadd_cond_def read_obj_def zadd_at_code sc_def Let_def)
      ultimately show ?thesis using put by metis
    qed
  next
    case (wrong ob)
    with b show ?thesis by (simp add: zadd_cond_def spec_zadd_cond_def read_obj_def)
  next
    case miss
    define sc where "sc = (if incr then f64_add f64_zero s else s)"
    from zset_create [OF E b miss(4), of "zset_single m sc"] obtain b' where
      b': "new_zset E b (hash_key E k) k (zset_single m sc) = Some b'" "bucket_inv E b'"
      "bucket_abs E b' = a_put k (OZSet [m \<mapsto> sc]) (bucket_abs E b)" by (auto simp: zset_single_law)
    show ?thesis
    proof (cases "zadd_skips nx xx gt lt s None \<or> incr \<and> \<not> f64_is_finite sc")
      case True
      with miss b show ?thesis
        by (auto simp: zadd_cond_def spec_zadd_cond_def read_obj_def zadd_at_code Let_def sc_def)
    next
      case False
      have "zadd_cond E k s m nx xx gt lt ch incr b = Some (zadd_response ch incr None sc, True, b')"
        using False miss b'(1) by (cases incr) (simp_all add: zadd_cond_def sc_def Let_def)
      moreover have "spec_zadd_cond k s m nx xx gt lt ch incr (bucket_abs E b) =
          (zadd_response ch incr None sc, True, a_put k (OZSet [m \<mapsto> sc]) (bucket_abs E b))"
        using False miss by (cases incr) (simp_all add: spec_zadd_cond_def read_obj_def zadd_at_code sc_def Let_def)
      ultimately show ?thesis using b'(2,3) by metis
    qed
  qed
qed

lemma zadd_attempt:
  assumes E: "env_ok E" and b: "bucket_inv E b"
  shows "(\<exists>r b'. zadd_existing_or_wrongtype_hashed E (hash_key E k) k s m b = Some (Complete r, b') \<and>
        bucket_inv E b' \<and> spec_zadd k s m (bucket_abs E b) = (r, False, bucket_abs E b')) \<or>
      (zadd_existing_or_wrongtype_hashed E (hash_key E k) k s m b = Some (MissingObject, b) \<and>
        a_obj (bucket_abs E b) k = None \<and>
        (\<exists>r b'. zadd_new_unchecked_hashed E (hash_key E k) k s m b = Some (r, b') \<and> bucket_inv E b' \<and>
           spec_zadd k s m (bucket_abs E b) = (r, True, bucket_abs E b')))"
    (is ?goal)
proof -
  note sm = slotmaps_ok(4) [OF b]
  show ?goal
    using E b
  proof (cases rule: zset_kind.lookup [where k = k])
    case (hit slot z v ob)
    then have ok: "zset_ok E z" and v: "zset_score z = v" by simp_all
    from zset_insert_law [OF E ok, of m s] obtain z' where
      z': "zset_insert_slice E z m s = Some (v m = None, z')" "zset_ok E z'" "zset_score z' = v(m \<mapsto> s)"
      by (auto simp: v)
    have "zset_score z' \<noteq> Map.empty" using z'(3) by simp
    from zset_put [OF E b hit(1) z'(2) this] z' hit E sm b show ?goal
      by (simp add: zadd_existing_or_wrongtype_hashed_def spec_zadd_def)
  next
    case (wrong ob)
    with E sm b show ?goal
      by (cases ob) (auto simp: zadd_existing_or_wrongtype_hashed_def spec_zadd_def)
  next
    case miss
    from zset_create [OF E b miss(4), of "zset_single m s"] miss E sm b show ?goal
      by (auto simp: zset_single_law zadd_existing_or_wrongtype_hashed_def zadd_new_unchecked_hashed_def spec_zadd_def)
  qed
qed

section \<open>Flags and interfaces\<close>

lemma zadd_flag: "flag_exact k (spec_zadd k s m)"
  unfolding flag_exact_def
  by (auto simp: spec_zadd_def same_but_intros split: if_splits option.splits robj.splits)

lemma zadd_cond_flag: "flag_exact k (spec_zadd_cond k s m nx xx gt lt ch incr)"
  unfolding flag_exact_def
  by (auto simp: spec_zadd_cond_def read_obj_def zadd_at_def same_but_intros Let_def
      split: if_splits option.splits)

lemma zrem_flag: "flag_exact k (spec_zrem k m)"
  unfolding spec_zrem_def [abs_def] by (rule on_obj_flag) (simp add: same_but_intros)

lemma zrem_many_flag: "flag_exact k (spec_zrem_many k ms)"
  unfolding spec_zrem_many_def [abs_def] by (rule on_obj_flag) (simp add: same_but_intros)

lemma zpop_flag: "flag_exact k (spec_zpop k n hi_end)"
  unfolding spec_zpop_def [abs_def] by (rule on_obj_flag) (simp add: Let_def same_but_intros)

interpretation zadd: bucket_create E k "zadd_existing_or_wrongtype_hashed E (hash_key E k) k s m"
  "zadd_new_unchecked_hashed E (hash_key E k) k s m" "spec_zadd k s m" for E k s m
proof (unfold_locales, goal_cases)
  case 1
  show ?case by (rule refines_create(1)) (rule zadd_attempt [OF 1])
next
  case 2
  show ?case by (rule zadd_flag)
next
  case (3 b b')
  show ?case by (rule refines_create(2) [OF zadd_attempt [OF 3(1)] 3(2,3)])
qed

interpretation zadd_cond: bucket_write E k "zadd_cond E k s m nx xx gt lt ch incr"
  "spec_zadd_cond k s m nx xx gt lt ch incr" for E k s m nx xx gt lt ch incr
  by unfold_locales (fact zadd_cond_refines zadd_cond_flag)+

interpretation zrem: bucket_write E k "zrem E k m" "spec_zrem k m" for E k m
  by unfold_locales (fact zrem_refines zrem_flag)+

interpretation zrem_many: bucket_write E k "zrem_many E k ms" "spec_zrem_many k ms" for E k ms
  by unfold_locales (fact zrem_many_refines zrem_many_flag)+

interpretation zpop: bucket_write E k "zpop E k n hi_end" "spec_zpop k n hi_end" for E k n hi_end
  by unfold_locales (fact zpop_refines zpop_flag)+

interpretation zincrby: bucket_write E k "zincrby E k d m"
  "spec_zadd_cond k d m False False False False True True" for E k d m
  unfolding zincrby_def [abs_def] by unfold_locales (fact zadd_cond_refines zadd_cond_flag)+

text \<open>
  The guard compares the argument with the old score also when the argument is an increment: incrementing 10 by 5 with \<^verbatim>\<open>GT\<close> is
  skipped, although it would raise the score.
\<close>

lemma gt_compares_increment: "zadd_skips False False True False (F64 0x4014000000000000) (Some (F64 0x4024000000000000))"
  by code_simp

end
