(* ===== verification/Store.thy ===== *)
theory Store
  imports BucketCore BucketHashTtl BucketList BucketSet BucketZset "HOL-Library.Sublist"
begin

text \<open>
  \<^verbatim>\<open>RedisObjectStore\<close> (\<^verbatim>\<open>redis_objects/store.rs\<close>): shards of 256 buckets each, the object counter of every
  shard, the hint that objects exist, the enumerations over all buckets, and the generation
  counter on which blocking commands wait. The operations are modelled as one thread executes
  them between the lock operations; \<^verbatim>\<open>read_bucket\<close> and \<^verbatim>\<open>write_bucket\<close> are reading and replacing a bucket.

  The invariant of a store: every bucket is well formed and holds only keys that belong there, the
  counter of a shard is the number of its objects, and the hint is set when objects exist.
\<close>

section \<open>State\<close>

definition OBJECT_BUCKETS :: nat where
  "OBJECT_BUCKETS = 256"

text \<open>The counter is an \<^verbatim>\<open>isize\<close>; an overflow would take more objects than memory can hold.\<close>

record ('h, 't) shard =
  buckets :: "('h, 't) bucket list"
  object_count :: int
  wait_generation :: u64
  waiter_count :: nat

record ('h, 't) store =
  shards :: "('h, 't) shard list"
  has_objects_hint :: bool

definition shard_new :: "('h, 't) env \<Rightarrow> ('h, 't) shard" where
  "shard_new E = \<lparr>buckets = replicate OBJECT_BUCKETS (bucket_default E), object_count = 0, wait_generation = 0,
                  waiter_count = 0\<rparr>"

definition store_new :: "('h, 't) env \<Rightarrow> nat \<Rightarrow> ('h, 't) store" where
  "store_new E shard_count =
     \<lparr>shards = replicate (max shard_count 1) (shard_new E), has_objects_hint = False\<rparr>"

text \<open>\<^verbatim>\<open>self.shards[shard_id]\<close>: an index out of range panics.\<close>

definition shard_at :: "nat \<Rightarrow> ('h, 't) store \<Rightarrow> ('h, 't) shard option" where
  "shard_at sid S = (if sid < length (shards S) then Some (shards S ! sid) else None)"

definition put_shard :: "nat \<Rightarrow> ('h, 't) shard \<Rightarrow> ('h, 't) store \<Rightarrow> ('h, 't) store" where
  "put_shard sid sh S = S\<lparr>shards := (shards S)[sid := sh]\<rparr>"

unbundle bit_operations_syntax

definition bucket_index :: "u64 \<Rightarrow> nat" where
  "bucket_index hash = unat (hash AND 255)"

definition read_bucket :: "nat \<Rightarrow> u64 \<Rightarrow> ('h, 't) store \<Rightarrow> ('h, 't) bucket option" where
  "read_bucket sid hash S = do {
     sh \<leftarrow> shard_at sid S;
     if bucket_index hash < length (buckets sh) then Some (buckets sh ! bucket_index hash) else None
   }"

text \<open>Storing through the guard that \<^verbatim>\<open>write_bucket\<close> returns.\<close>

definition write_bucket :: "nat \<Rightarrow> u64 \<Rightarrow> ('h, 't) bucket \<Rightarrow> ('h, 't) store \<Rightarrow> ('h, 't) store" where
  "write_bucket sid hash b S =
     (let sh = shards S ! sid in put_shard sid (sh\<lparr>buckets := (buckets sh)[bucket_index hash := b]\<rparr>) S)"

section \<open>Counters\<close>

definition has_objects :: "('h, 't) store \<Rightarrow> bool" where
  "has_objects S = has_objects_hint S"

definition shard_object_count_hint :: "nat \<Rightarrow> ('h, 't) store \<Rightarrow> nat option" where
  "shard_object_count_hint sid S = map_option (\<lambda>sh. nat (max (object_count sh) 0)) (shard_at sid S)"

definition shard_has_objects :: "nat \<Rightarrow> ('h, 't) store \<Rightarrow> bool option" where
  "shard_has_objects sid S = map_option (\<lambda>n. n \<noteq> 0) (shard_object_count_hint sid S)"

definition store_object_count :: "('h, 't) store \<Rightarrow> nat \<times> ('h, 't) store" where
  "store_object_count S =
     (let n = nat (max (sum_list (map object_count (shards S))) 0)
      in (n, S\<lparr>has_objects_hint := n \<noteq> 0\<rparr>))"

definition note_created :: "nat \<Rightarrow> ('h, 't) store \<Rightarrow> ('h, 't) store option" where
  "note_created sid S = do {
     sh \<leftarrow> shard_at sid S;
     let S1 = put_shard sid (sh\<lparr>object_count := object_count sh + 1\<rparr>) S
     in Some (if object_count sh \<le> 0 then S1\<lparr>has_objects_hint := True\<rparr> else S1)
   }"

definition note_deleted :: "nat \<Rightarrow> ('h, 't) store \<Rightarrow> ('h, 't) store option" where
  "note_deleted sid S = do {
     sh \<leftarrow> shard_at sid S;
     Some (put_shard sid (sh\<lparr>object_count := object_count sh - 1\<rparr>) S)
   }"

section \<open>Enumerations\<close>

fun live_count_buckets :: "('h, 't) env \<Rightarrow> u64 \<Rightarrow> ('h, 't) bucket list \<Rightarrow> nat option" where
  "live_count_buckets E now_ms [] = Some 0"
| "live_count_buckets E now_ms (b # bs) = do {
     n \<leftarrow> bucket_live_object_count E now_ms b;
     m \<leftarrow> live_count_buckets E now_ms bs;
     Some (n + m)
   }"

fun live_count_shards :: "('h, 't) env \<Rightarrow> u64 \<Rightarrow> ('h, 't) shard list \<Rightarrow> nat option" where
  "live_count_shards E now_ms [] = Some 0"
| "live_count_shards E now_ms (sh # shs) = do {
     n \<leftarrow> (if object_count sh \<le> 0 then Some 0 else live_count_buckets E now_ms (buckets sh));
     m \<leftarrow> live_count_shards E now_ms shs;
     Some (n + m)
   }"

definition live_object_count :: "('h, 't) env \<Rightarrow> u64 \<Rightarrow> ('h, 't) store \<Rightarrow> nat option" where
  "live_object_count E now_ms S = (if \<not> has_objects S then Some 0 else live_count_shards E now_ms (shards S))"

text \<open>\<^verbatim>\<open>for bucket in &buckets { bucket.read().keys(&mut keys, now_ms) }\<close>, for both enumerations.\<close>

fun collect_buckets :: "('a list \<Rightarrow> ('h, 't) bucket \<Rightarrow> 'a list option) \<Rightarrow> ('h, 't) bucket list \<Rightarrow> 'a list \<Rightarrow> 'a list option" where
  "collect_buckets f [] out = Some out"
| "collect_buckets f (b # bs) out = do { out' \<leftarrow> f out b; collect_buckets f bs out' }"

definition keys_with_type_in_shard :: "('h, 't) env \<Rightarrow> nat \<Rightarrow> u64 \<Rightarrow> ('h, 't) store \<Rightarrow> (bytes \<times> string) list option" where
  "keys_with_type_in_shard E sid now_ms S = do {
     n \<leftarrow> shard_object_count_hint sid S;
     if n = 0 then Some []
     else do {
       sh \<leftarrow> shard_at sid S;
       collect_buckets (\<lambda>out. keys_with_type E out now_ms) (buckets sh) []
     }
   }"

definition keys_in_shard :: "('h, 't) env \<Rightarrow> nat \<Rightarrow> u64 \<Rightarrow> ('h, 't) store \<Rightarrow> bytes list option" where
  "keys_in_shard E sid now_ms S = do {
     n \<leftarrow> shard_object_count_hint sid S;
     if n = 0 then Some []
     else do {
       sh \<leftarrow> shard_at sid S;
       collect_buckets (\<lambda>out. bucket_keys E out now_ms) (buckets sh) []
     }
   }"

text \<open>\<^verbatim>\<open>for shard_id in 0..shards.len() { keys.extend(...) }\<close>\<close>

fun collect_shards :: "(nat \<Rightarrow> 'a list option) \<Rightarrow> nat list \<Rightarrow> 'a list option" where
  "collect_shards f [] = Some []"
| "collect_shards f (sid # sids) = do { xs \<leftarrow> f sid; ys \<leftarrow> collect_shards f sids; Some (xs @ ys) }"

text \<open>Both enumerations call \<^verbatim>\<open>object_count\<close> for the capacity, which refreshes the hint.\<close>

definition store_keys_with_type ::
  "('h, 't) env \<Rightarrow> u64 \<Rightarrow> ('h, 't) store \<Rightarrow> ((bytes \<times> string) list \<times> ('h, 't) store) option" where
  "store_keys_with_type E now_ms S =
     (let S1 = snd (store_object_count S)
      in do {
        ks \<leftarrow> collect_shards (\<lambda>sid. keys_with_type_in_shard E sid now_ms S1) [0..<length (shards S1)];
        Some (ks, S1)
      })"

definition store_keys :: "('h, 't) env \<Rightarrow> u64 \<Rightarrow> ('h, 't) store \<Rightarrow> (bytes list \<times> ('h, 't) store) option" where
  "store_keys E now_ms S =
     (let S1 = snd (store_object_count S)
      in do {
        ks \<leftarrow> collect_shards (\<lambda>sid. keys_in_shard E sid now_ms S1) [0..<length (shards S1)];
        Some (ks, S1)
      })"

fun visit_buckets :: "('h, 't) env \<Rightarrow> u64 \<Rightarrow> 's visitor \<Rightarrow> ('h, 't) bucket list \<Rightarrow> 's \<Rightarrow> (bool \<times> 's) option" where
  "visit_buckets E now_ms visitor [] s = Some (True, s)"
| "visit_buckets E now_ms visitor (b # bs) s = do {
     (go, s') \<leftarrow> bucket_visit_keys E now_ms visitor s b;
     if \<not> go then Some (False, s') else visit_buckets E now_ms visitor bs s'
   }"

fun visit_shards :: "('h, 't) env \<Rightarrow> u64 \<Rightarrow> 's visitor \<Rightarrow> ('h, 't) shard list \<Rightarrow> 's \<Rightarrow> (bool \<times> 's) option" where
  "visit_shards E now_ms visitor [] s = Some (True, s)"
| "visit_shards E now_ms visitor (sh # shs) s =
     (if object_count sh \<le> 0 then visit_shards E now_ms visitor shs s
      else do {
        (go, s') \<leftarrow> visit_buckets E now_ms visitor (buckets sh) s;
        if \<not> go then Some (False, s') else visit_shards E now_ms visitor shs s'
      })"

definition store_visit_keys :: "('h, 't) env \<Rightarrow> u64 \<Rightarrow> 's visitor \<Rightarrow> 's \<Rightarrow> ('h, 't) store \<Rightarrow> (bool \<times> 's) option" where
  "store_visit_keys E now_ms visitor s S =
     (if \<not> has_objects S then Some (True, s) else visit_shards E now_ms visitor (shards S) s)"

fun scan_buckets ::
  "('h, 't) env \<Rightarrow> u64 \<Rightarrow> bytes option \<Rightarrow> 's visitor \<Rightarrow> nat \<Rightarrow> nat \<Rightarrow> ('h, 't) bucket list \<Rightarrow> 's scan \<Rightarrow>
   (nat option \<times> 's scan) option" where
  "scan_buckets E now_ms type_filter visitor off limit [] st = Some (None, st)"
| "scan_buckets E now_ms type_filter visitor off limit (b # bs) st = do {
     (stop, st') \<leftarrow> scan_keys_visit E now_ms type_filter visitor off limit st b;
     if stop \<noteq> None then Some (stop, st') else scan_buckets E now_ms type_filter visitor off limit bs st'
   }"

definition scan_keys_in_shard_visit ::
  "('h, 't) env \<Rightarrow> nat \<Rightarrow> u64 \<Rightarrow> bytes option \<Rightarrow> nat \<Rightarrow> nat \<Rightarrow> nat \<Rightarrow> nat \<Rightarrow> 's visitor \<Rightarrow> 's \<Rightarrow> ('h, 't) store \<Rightarrow>
   (nat option \<times> 's scan) option" where
  "scan_keys_in_shard_visit E sid now_ms type_filter off limit n_visited n_emitted visitor s S = do {
     n \<leftarrow> shard_object_count_hint sid S;
     let st = \<lparr>position_of = 0, visited = n_visited, emitted = n_emitted, vstate = s\<rparr>
     in if n = 0 then Some (None, st)
        else do {
          sh \<leftarrow> shard_at sid S;
          scan_buckets E now_ms type_filter visitor off limit (buckets sh) st
        }
   }"

section \<open>Waiting for a change\<close>

definition shard_wait_generation :: "nat \<Rightarrow> ('h, 't) store \<Rightarrow> u64 option" where
  "shard_wait_generation sid S = map_option wait_generation (shard_at sid S)"

text \<open>The flag tells whether the condition variable is notified.\<close>

definition notify_shard_waiters :: "nat \<Rightarrow> ('h, 't) store \<Rightarrow> (bool \<times> ('h, 't) store) option" where
  "notify_shard_waiters sid S = do {
     sh \<leftarrow> shard_at sid S;
     Some (waiter_count sh \<noteq> 0, put_shard sid (sh\<lparr>wait_generation := wait_generation sh + 1\<rparr>) S)
   }"

text \<open>
  A wait on the condition variable: \<open>wakes\<close> are the generations that the thread sees when it holds the lock
  again after each wake-up; when they run out it is still waiting, and the result is \<^const>\<open>None\<close>.
\<close>

fun wait_forever :: "u64 \<Rightarrow> u64 \<Rightarrow> u64 list \<Rightarrow> bool option" where
  "wait_forever observed generation wakes =
     (if generation \<noteq> observed then Some True
      else case wakes of [] \<Rightarrow> None | g # gs \<Rightarrow> wait_forever observed g gs)"

text \<open>
  One turn of the loop with a deadline: the time that is left (\<^const>\<open>None\<close> after the deadline), the generation
  seen at the wake-up and whether the wait timed out.
\<close>

fun wait_for_generation_change_until :: "u64 \<Rightarrow> u64 \<Rightarrow> (nat option \<times> u64 \<times> bool) list \<Rightarrow> bool option" where
  "wait_for_generation_change_until observed generation [] = None"
| "wait_for_generation_change_until observed generation ((remaining, g, timed_out) # turns) =
     (if remaining = None \<or> remaining = Some 0 then Some (generation \<noteq> observed)
      else if g \<noteq> observed then Some True
      else if timed_out then Some False
      else wait_for_generation_change_until observed g turns)"

text \<open>
  The timeout: \<^const>\<open>None\<close> waits forever; \<open>Some ok\<close> is a timeout whose deadline is representable (\<open>ok\<close>) or not.
\<close>

definition wait_for_generation_change ::
  "u64 \<Rightarrow> u64 \<Rightarrow> bool option \<Rightarrow> u64 list \<Rightarrow> (nat option \<times> u64 \<times> bool) list \<Rightarrow> bool option" where
  "wait_for_generation_change observed generation timeout wakes turns =
     (if generation \<noteq> observed then Some True
      else case timeout of
             Some True \<Rightarrow> wait_for_generation_change_until observed generation turns
           | Some False \<Rightarrow> Some False
           | None \<Rightarrow> wait_forever observed generation wakes)"

text \<open>The result and the state after the wait, or while the thread still waits (\<^const>\<open>None\<close>).\<close>

definition wait_for_shard_change ::
  "nat \<Rightarrow> u64 \<Rightarrow> bool option \<Rightarrow> u64 list \<Rightarrow> (nat option \<times> u64 \<times> bool) list \<Rightarrow> ('h, 't) store \<Rightarrow>
   (bool option \<times> ('h, 't) store) option" where
  "wait_for_shard_change sid observed timeout wakes turns S = do {
     sh \<leftarrow> shard_at sid S;
     let waiting = sh\<lparr>waiter_count := waiter_count sh + 1\<rparr>;
         changed = wait_for_generation_change observed (wait_generation waiting) timeout wakes turns
     in Some (changed,
          put_shard sid (case changed of None \<Rightarrow> waiting
                         | Some _ \<Rightarrow> waiting\<lparr>waiter_count := waiter_count waiting - 1\<rparr>) S)
   }"

section \<open>The invariant\<close>

text \<open>
  \<open>place\<close> assigns every key its shard. \<open>owed\<close> is what the counter of a shard is ahead of the number of its
  objects: between the change of a bucket and the call of \<^verbatim>\<open>note_created\<close> or \<^verbatim>\<open>note_deleted\<close> it is not 0.
\<close>

definition bucket_size :: "('h, 't) env \<Rightarrow> ('h, 't) bucket \<Rightarrow> nat" where
  "bucket_size E b = card (dom (a_obj (bucket_abs E b)))"

definition bucket_at :: "('h, 't) env \<Rightarrow> (bytes \<Rightarrow> nat) \<Rightarrow> nat \<Rightarrow> nat \<Rightarrow> ('h, 't) bucket \<Rightarrow> bool" where
  "bucket_at E place sid i b \<longleftrightarrow>
     bucket_inv E b \<and> (\<forall>k. a_obj (bucket_abs E b) k \<noteq> None \<longrightarrow> bucket_index (hash_key E k) = i \<and> place k = sid)"

definition shard_ok :: "('h, 't) env \<Rightarrow> (bytes \<Rightarrow> nat) \<Rightarrow> int \<Rightarrow> nat \<Rightarrow> ('h, 't) shard \<Rightarrow> bool" where
  "shard_ok E place owed sid sh \<longleftrightarrow>
     length (buckets sh) = OBJECT_BUCKETS \<and>
     (\<forall>i < OBJECT_BUCKETS. bucket_at E place sid i (buckets sh ! i)) \<and>
     object_count sh = int (sum_list (map (bucket_size E) (buckets sh))) + owed"

definition store_ok :: "('h, 't) env \<Rightarrow> (bytes \<Rightarrow> nat) \<Rightarrow> (nat \<Rightarrow> int) \<Rightarrow> ('h, 't) store \<Rightarrow> bool" where
  "store_ok E place owed S \<longleftrightarrow>
     (\<forall>sid < length (shards S). shard_ok E place (owed sid) sid (shards S ! sid)) \<and>
     ((\<exists>sh\<in>set (shards S). 0 < object_count sh) \<longrightarrow> has_objects_hint S)"

abbreviation store_inv :: "('h, 't) env \<Rightarrow> (bytes \<Rightarrow> nat) \<Rightarrow> ('h, 't) store \<Rightarrow> bool" where
  "store_inv E place \<equiv> store_ok E place (\<lambda>_. 0)"

lemma bucket_index_less: "bucket_index h < OBJECT_BUCKETS"
proof -
  have "h AND 255 \<le> 255" by (rule word_and_le1)
  then show ?thesis unfolding bucket_index_def OBJECT_BUCKETS_def by unat_arith
qed

lemma objects_finite:
  assumes "env_ok E" "bucket_inv E b"
  shows "finite (dom (a_obj (bucket_abs E b)))"
proof (rule finite_subset)
  show "dom (a_obj (bucket_abs E b)) \<subseteq> set (sm_keys E (hashes b)) \<union> set (sm_keys E (lists b)) \<union>
      set (sm_keys E (sets b)) \<union> set (sm_keys E (zsets b))"
  proof
    fix k assume "k \<in> dom (a_obj (bucket_abs E b))"
    then obtain ob where "a_obj (bucket_abs E b) k = Some ob" by blast
    then show "k \<in> set (sm_keys E (hashes b)) \<union> set (sm_keys E (lists b)) \<union>
        set (sm_keys E (sets b)) \<union> set (sm_keys E (zsets b))"
      unfolding table_keys [OF assms] by (cases ob) auto
  qed
qed simp

lemma store_new_inv:
  assumes E: "env_ok E"
  shows "store_inv E place (store_new E n)"
proof -
  have "bucket_at E place sid i (bucket_default E)" for sid i
    by (simp add: bucket_at_def bucket_inv_default [OF E] bucket_abs_default [OF E])
  moreover have "bucket_size E (bucket_default E) = 0" by (simp add: bucket_size_def bucket_abs_default [OF E])
  ultimately have "shard_ok E place 0 sid (shard_new E)" for sid
    by (simp add: shard_ok_def shard_new_def)
  then show ?thesis by (auto simp: store_ok_def store_new_def shard_new_def)
qed

lemma shard_atI: "sid < length (shards S) \<Longrightarrow> shard_at sid S = Some (shards S ! sid)"
  by (simp add: shard_at_def)

lemma read_bucket_ok:
  assumes S: "store_ok E place owed S" and sid: "sid < length (shards S)"
  obtains b where "read_bucket sid h S = Some b" "bucket_inv E b" "bucket_at E place sid (bucket_index h) b"
    "b = buckets (shards S ! sid) ! bucket_index h"
proof -
  have "shard_ok E place (owed sid) sid (shards S ! sid)" using S sid by (simp add: store_ok_def)
  then show thesis
    using that bucket_index_less [of h] by (simp add: shard_ok_def read_bucket_def shard_atI [OF sid] bucket_at_def)
qed

lemma put_shard_ok:
  assumes S: "store_ok E place owed S" and sid: "sid < length (shards S)"
    and sh: "shard_ok E place d sid sh" and hint: "0 < object_count sh \<Longrightarrow> hint" and keep: "has_objects_hint S \<Longrightarrow> hint"
  shows "store_ok E place (owed(sid := d)) ((put_shard sid sh S)\<lparr>has_objects_hint := hint\<rparr>)"
proof -
  have "\<exists>x\<in>set (shards S). 0 < object_count x" if "x \<in> set ((shards S)[sid := sh])" "0 < object_count x" "\<not> 0 < object_count sh" for x
    using that set_update_subset_insert by fastforce
  with S hint keep show ?thesis
    using sh by (auto simp: store_ok_def put_shard_def nth_list_update)
qed

lemma store_hint: "store_ok E place owed S \<Longrightarrow> sid < length (shards S) \<Longrightarrow> 0 < object_count (shards S ! sid) \<Longrightarrow> has_objects_hint S"
  by (auto simp: store_ok_def)

lemma note_created_ok:
  assumes S: "store_ok E place owed S" and sid: "sid < length (shards S)"
  shows "\<exists>S'. note_created sid S = Some S' \<and> store_ok E place (owed(sid := owed sid + 1)) S' \<and>
    length (shards S') = length (shards S) \<and> (\<forall>i h. read_bucket i h S' = read_bucket i h S)"
proof -
  let ?sh = "shards S ! sid" and ?sh' = "(shards S ! sid)\<lparr>object_count := object_count (shards S ! sid) + 1\<rparr>"
  let ?hint = "has_objects_hint S \<or> object_count ?sh \<le> 0"
  have "shard_ok E place (owed sid + 1) sid ?sh'" using S sid by (simp add: store_ok_def shard_ok_def)
  moreover have "?hint" if "0 < object_count ?sh'"
    using store_hint [OF S sid] by (cases "0 < object_count ?sh") auto
  ultimately have "store_ok E place (owed(sid := owed sid + 1)) ((put_shard sid ?sh' S)\<lparr>has_objects_hint := ?hint\<rparr>)"
    using S sid by (intro put_shard_ok) auto
  moreover have "note_created sid S = Some ((put_shard sid ?sh' S)\<lparr>has_objects_hint := ?hint\<rparr>)"
    using sid by (cases S) (auto simp: note_created_def shard_at_def put_shard_def Let_def)
  ultimately show ?thesis using sid by (auto simp: put_shard_def read_bucket_def shard_at_def nth_list_update)
qed

lemma note_deleted_ok:
  assumes S: "store_ok E place owed S" and sid: "sid < length (shards S)"
  shows "\<exists>S'. note_deleted sid S = Some S' \<and> store_ok E place (owed(sid := owed sid - 1)) S' \<and>
    length (shards S') = length (shards S) \<and> (\<forall>i h. read_bucket i h S' = read_bucket i h S)"
proof -
  let ?sh' = "(shards S ! sid)\<lparr>object_count := object_count (shards S ! sid) - 1\<rparr>"
  have sh: "shard_ok E place (owed sid - 1) sid ?sh'" using S sid by (simp add: store_ok_def shard_ok_def)
  have "store_ok E place (owed(sid := owed sid - 1)) ((put_shard sid ?sh' S)\<lparr>has_objects_hint := has_objects_hint S\<rparr>)"
    by (rule put_shard_ok [OF S sid sh]) (use store_hint [OF S sid] in auto)
  then show ?thesis
    using sid by (auto simp: note_deleted_def shard_atI put_shard_def read_bucket_def shard_at_def nth_list_update)
qed

text \<open>A changed bucket changes the size by the object that appeared or disappeared.\<close>

lemma size_change:
  assumes E: "env_ok E" and b: "bucket_inv E b" "bucket_inv E b'" and same: "same_but k (bucket_abs E b) (bucket_abs E b')"
  shows "int (bucket_size E b') = int (bucket_size E b)
    + (if a_obj (bucket_abs E b') k \<noteq> None then 1 else 0) - (if a_obj (bucket_abs E b) k \<noteq> None then 1 else 0)"
proof -
  let ?D = "dom (a_obj (bucket_abs E b)) - {k}"
  have D: "dom (a_obj (bucket_abs E b')) - {k} = ?D" using same by (auto simp: same_but_def dom_def)
  have card: "int (card X) = int (card (X - {k})) + (if k \<in> X then 1 else 0)" if "finite X" for X :: "bytes set"
    using card_Suc_Diff1 [OF that, of k] by (cases "k \<in> X") auto
  show ?thesis
    using card [OF objects_finite [OF E b(1)]] card [OF objects_finite [OF E b(2)]]
    by (simp add: bucket_size_def D domIff)
qed

lemma sum_list_set:
  fixes xs :: "nat list"
  assumes "i < length xs"
  shows "int (sum_list (xs[i := x])) = int (sum_list xs) + int x - int (xs ! i)"
  using assms elem_le_sum_list [OF assms] by (simp add: sum_list_update)

lemma write_bucket_ok:
  assumes E: "env_ok E" and S: "store_ok E place owed S" and sid: "sid < length (shards S)" "place k = sid"
    and r: "read_bucket sid (hash_key E k) S = Some b"
    and b': "bucket_inv E b'" "same_but k (bucket_abs E b) (bucket_abs E b')"
  defines "d \<equiv> (if a_obj (bucket_abs E b') k \<noteq> None then 1 else 0) - (if a_obj (bucket_abs E b) k \<noteq> None then 1 else 0)"
  shows "store_ok E place (owed(sid := owed sid - d)) (write_bucket sid (hash_key E k) b' S)"
proof -
  let ?i = "bucket_index (hash_key E k)" and ?sh = "shards S ! sid"
  let ?sh' = "?sh\<lparr>buckets := (buckets ?sh)[?i := b']\<rparr>"
  have sh: "shard_ok E place (owed sid) sid ?sh" using S sid by (simp add: store_ok_def)
  then have i: "?i < length (buckets ?sh)" and b: "b = buckets ?sh ! ?i" "bucket_at E place sid ?i b"
    using r bucket_index_less [of "hash_key E k"] by (auto simp: shard_ok_def read_bucket_def shard_atI [OF sid(1)])
  have at: "bucket_at E place sid ?i b'"
    using b(2) b' sid(2) by (auto simp: bucket_at_def same_but_def)
  have "int (sum_list (map (bucket_size E) ((buckets ?sh)[?i := b']))) =
      int (sum_list (map (bucket_size E) (buckets ?sh))) + d"
    using size_change [OF E _ b'] b i by (simp add: map_update sum_list_set bucket_at_def d_def)
  with sh at have "shard_ok E place (owed sid - d) sid ?sh'"
    using i by (auto simp: shard_ok_def) (metis nth_list_update_eq nth_list_update_neq)
  from put_shard_ok [OF S sid(1) this, of "has_objects_hint S"] store_hint [OF S sid(1)] show ?thesis
    by (simp add: write_bucket_def Let_def put_shard_def)
qed

section \<open>What the counters and the enumerations say\<close>

text \<open>The keys that hold an object.\<close>

definition stored_keys :: "('h, 't) env \<Rightarrow> ('h, 't) store \<Rightarrow> bytes set" where
  "stored_keys E S = (\<Union>sh\<in>set (shards S). \<Union>b\<in>set (buckets sh). dom (a_obj (bucket_abs E b)))"

lemma shard_size:
  assumes E: "env_ok E" and sh: "shard_ok E place d sid sh"
  shows "sum_list (map (bucket_size E) (buckets sh)) = card (\<Union>b\<in>set (buckets sh). dom (a_obj (bucket_abs E b)))"
    "finite (\<Union>b\<in>set (buckets sh). dom (a_obj (bucket_abs E b)))"
proof -
  let ?n = "length (buckets sh)" and ?dom = "\<lambda>i. dom (a_obj (bucket_abs E (buckets sh ! i)))"
  have at: "bucket_at E place sid i (buckets sh ! i)" if "i < ?n" for i using sh that by (simp add: shard_ok_def)
  then have fin: "finite (?dom i)" if "i < ?n" for i using that objects_finite [OF E] by (auto simp: bucket_at_def)
  have "bucket_index (hash_key E k) = i" if "i < ?n" "k \<in> ?dom i" for i k
    using at [OF that(1)] that(2) by (auto simp: bucket_at_def)
  then have disj: "?dom i \<inter> ?dom j = {}" if "i < ?n" "j < ?n" "i \<noteq> j" for i j using that by blast
  have un: "(\<Union>b\<in>set (buckets sh). dom (a_obj (bucket_abs E b))) = (\<Union>i\<in>{..<?n}. ?dom i)"
    by (auto simp: set_conv_nth)
  have "sum_list (map (bucket_size E) (buckets sh)) = (\<Sum>i<?n. card (?dom i))"
    by (simp add: sum_list_sum_nth bucket_size_def atLeast0LessThan)
  also have "\<dots> = card (\<Union>i\<in>{..<?n}. ?dom i)" using fin disj by (subst card_UN_disjoint) auto
  finally show "sum_list (map (bucket_size E) (buckets sh)) = card (\<Union>b\<in>set (buckets sh). dom (a_obj (bucket_abs E b)))"
    by (simp add: un)
  show "finite (\<Union>b\<in>set (buckets sh). dom (a_obj (bucket_abs E b)))" using fin un by simp
qed

lemma object_count_law:
  assumes E: "env_ok E" and S: "store_inv E place S"
  shows "sum_list (map object_count (shards S)) = int (card (stored_keys E S))" "finite (stored_keys E S)"
proof -
  let ?n = "length (shards S)"
  let ?K = "\<lambda>i. \<Union>b\<in>set (buckets (shards S ! i)). dom (a_obj (bucket_abs E b))"
  have sh: "shard_ok E place 0 i (shards S ! i)" if "i < ?n" for i using S that by (simp add: store_ok_def)
  have place: "place k = i" if "i < ?n" "k \<in> ?K i" for i k
    using sh [OF that(1)] that(2) by (auto simp: shard_ok_def bucket_at_def set_conv_nth dom_def)
  then have disj: "?K i \<inter> ?K j = {}" if "i < ?n" "j < ?n" "i \<noteq> j" for i j using that by blast
  have un: "stored_keys E S = (\<Union>i\<in>{..<?n}. ?K i)" by (auto simp: stored_keys_def set_conv_nth)
  have "sum_list (map object_count (shards S)) = (\<Sum>i<?n. object_count (shards S ! i))"
    by (simp add: sum_list_sum_nth atLeast0LessThan)
  also have "\<dots> = (\<Sum>i<?n. int (card (?K i)))"
  proof (rule sum.cong)
    show "object_count (shards S ! i) = int (card (?K i))" if "i \<in> {..<?n}" for i
      using sh [of i] shard_size(1) [OF E sh, of i] that by (simp add: shard_ok_def)
  qed simp
  also have "\<dots> = int (card (\<Union>i\<in>{..<?n}. ?K i))"
    using shard_size(2) [OF E sh] disj by (subst card_UN_disjoint) auto
  finally show "sum_list (map object_count (shards S)) = int (card (stored_keys E S))" by (simp add: un)
  show "finite (stored_keys E S)" using shard_size(2) [OF E sh] un by simp
qed

lemma no_objects:
  assumes E: "env_ok E" and sh: "shard_ok E place 0 sid sh" "object_count sh \<le> 0" and b: "b \<in> set (buckets sh)"
  shows "a_obj (bucket_abs E b) = Map.empty" "live_keys E now b = []"
proof -
  have inv: "bucket_inv E b" using sh(1) b by (auto simp: shard_ok_def bucket_at_def in_set_conv_nth)
  have "sum_list (map (bucket_size E) (buckets sh)) = 0" using sh by (simp add: shard_ok_def)
  then have "bucket_size E b = 0" using b by simp
  then show none: "a_obj (bucket_abs E b) = Map.empty" using objects_finite [OF E inv] by (simp add: bucket_size_def)
  have "set (live_keys E now b) = {}" using live_keys_set(1) [OF E inv] by (simp add: key_live_def none)
  then show "live_keys E now b = []" by simp
qed

text \<open>The live keys of a store in the order of every enumeration.\<close>

definition shard_live_keys :: "('h, 't) env \<Rightarrow> u64 \<Rightarrow> ('h, 't) shard \<Rightarrow> bytes list" where
  "shard_live_keys E now sh = concat (map (live_keys E now) (buckets sh))"

definition store_live_keys :: "('h, 't) env \<Rightarrow> u64 \<Rightarrow> ('h, 't) store \<Rightarrow> bytes list" where
  "store_live_keys E now S = concat (map (shard_live_keys E now) (shards S))"

lemma no_objects_no_keys:
  "env_ok E \<Longrightarrow> shard_ok E place 0 sid sh \<Longrightarrow> object_count sh \<le> 0 \<Longrightarrow> shard_live_keys E now sh = []"
  using no_objects(2) by (force simp: shard_live_keys_def)

lemma shard_buckets_inv: "shard_ok E place d sid sh \<Longrightarrow> b \<in> set (buckets sh) \<Longrightarrow> bucket_inv E b"
  by (auto simp: shard_ok_def bucket_at_def in_set_conv_nth)

lemma shards_ok:
  assumes "store_inv E place S" "sh \<in> set (shards S)"
  obtains sid where "shard_ok E place 0 sid sh"
  using assms by (auto simp: store_ok_def in_set_conv_nth)

lemma shards_ex: "store_inv E place S \<Longrightarrow> sh \<in> set (shards S) \<Longrightarrow> \<exists>sid. shard_ok E place 0 sid sh"
  by (auto simp: store_ok_def in_set_conv_nth)

lemma no_hint_no_keys:
  assumes E: "env_ok E" and S: "store_inv E place S" and hint: "\<not> has_objects_hint S"
  shows "store_live_keys E now S = []"
proof -
  have "shard_live_keys E now sh = []" if sh: "sh \<in> set (shards S)" for sh
  proof -
    obtain sid where ok: "shard_ok E place 0 sid sh" using shards_ok [OF S sh] .
    have "object_count sh \<le> 0" using S hint sh by (auto simp: store_ok_def not_less)
    with no_objects_no_keys [OF E ok] show ?thesis .
  qed
  then show ?thesis by (simp add: store_live_keys_def)
qed

text \<open>Collecting, counting and visiting over the buckets of a shard.\<close>

lemma collect_buckets_law:
  assumes "\<And>b out. b \<in> set bs \<Longrightarrow> f out b = Some (out @ g b)"
  shows "collect_buckets f bs out = Some (out @ concat (map g bs))"
  using assms by (induction bs arbitrary: out) simp_all

lemma keys_in_shard_law:
  assumes E: "env_ok E" and S: "store_inv E place S" and sid: "sid < length (shards S)"
  shows "keys_in_shard E sid now S = Some (shard_live_keys E now (shards S ! sid))"
proof -
  have ok: "shard_ok E place 0 sid (shards S ! sid)" using S sid by (simp add: store_ok_def)
  show ?thesis
  proof (cases "object_count (shards S ! sid) \<le> 0")
    case True
    with no_objects_no_keys [OF E ok True] sid show ?thesis
      by (simp add: keys_in_shard_def shard_object_count_hint_def shard_atI)
  next
    case False
    have "collect_buckets (\<lambda>out. bucket_keys E out now) (buckets (shards S ! sid)) [] =
        Some ([] @ shard_live_keys E now (shards S ! sid))"
      unfolding shard_live_keys_def
      by (rule collect_buckets_law) (use shard_buckets_inv [OF ok] bucket_keys_law [OF E] in auto)
    with False sid show ?thesis by (simp add: keys_in_shard_def shard_object_count_hint_def shard_atI)
  qed
qed

lemma collect_shards_law:
  assumes "\<And>i. i \<in> set is \<Longrightarrow> f i = Some (g i)"
  shows "collect_shards f is = Some (concat (map g is))"
  using assms by (induction "is") simp_all

text \<open>Recounting sets the hint to whether objects exist.\<close>

lemma recount_law:
  assumes E: "env_ok E" and S: "store_inv E place S"
  shows "fst (store_object_count S) = card (stored_keys E S)" "store_inv E place (snd (store_object_count S))"
    "has_objects_hint (snd (store_object_count S)) \<longleftrightarrow> stored_keys E S \<noteq> {}"
    "shards (snd (store_object_count S)) = shards S"
proof -
  let ?S = "snd (store_object_count S)"
  note count = object_count_law [OF E S]
  show "fst (store_object_count S) = card (stored_keys E S)" "shards ?S = shards S"
    by (simp_all add: store_object_count_def Let_def count(1))
  show hint: "has_objects_hint ?S \<longleftrightarrow> stored_keys E S \<noteq> {}"
    using count by (simp add: store_object_count_def Let_def card_gt_0_iff)
  have "stored_keys E S \<noteq> {}" if m: "sh \<in> set (shards S)" "0 < object_count sh" for sh
  proof -
    obtain sid where ok: "shard_ok E place 0 sid sh" using shards_ok [OF S m(1)] .
    have "0 < card (\<Union>b\<in>set (buckets sh). dom (a_obj (bucket_abs E b)))"
      using ok m(2) by (simp add: shard_ok_def shard_size(1) [OF E ok])
    then have "(\<Union>b\<in>set (buckets sh). dom (a_obj (bucket_abs E b))) \<noteq> {}" by (metis card.empty less_irrefl)
    with m(1) show ?thesis by (auto simp: stored_keys_def)
  qed
  with hint S show "store_inv E place ?S" by (auto simp: store_ok_def store_object_count_def Let_def)
qed

lemma store_keys_law:
  assumes E: "env_ok E" and S: "store_inv E place S"
  shows "store_keys E now S = Some (store_live_keys E now S, snd (store_object_count S))"
proof -
  let ?S = "snd (store_object_count S)"
  note ok = recount_law(2) [OF E S] and sh = recount_law(4) [OF E S]
  have "collect_shards (\<lambda>sid. keys_in_shard E sid now ?S) [0..<length (shards ?S)] =
      Some (concat (map (\<lambda>i. shard_live_keys E now (shards ?S ! i)) [0..<length (shards ?S)]))"
    by (rule collect_shards_law) (simp add: keys_in_shard_law [OF E ok])
  also have "map (\<lambda>i. shard_live_keys E now (shards ?S ! i)) [0..<length (shards ?S)] = map (shard_live_keys E now) (shards S)"
    by (rule nth_equalityI) (simp_all add: sh)
  finally show ?thesis by (simp add: store_keys_def Let_def store_live_keys_def)
qed

lemma distinct_concat_tag:
  assumes "\<And>i. i < length xss \<Longrightarrow> distinct (xss ! i)" "\<And>i k. i < length xss \<Longrightarrow> k \<in> set (xss ! i) \<Longrightarrow> tag k = i"
  shows "distinct (concat xss)"
  using assms
proof (induction xss rule: rev_induct)
  case (snoc xs xss)
  have "distinct (concat xss)"
    using snoc.prems by (intro snoc.IH) (metis append_Nil2 length_append_singleton less_SucI nth_append)+
  moreover have "distinct xs" using snoc.prems(1) [of "length xss"] by simp
  moreover have "tag k < length xss" if k: "k \<in> set (concat xss)" for k
  proof -
    from k obtain i where i: "i < length xss" "k \<in> set (xss ! i)" by (auto simp: in_set_conv_nth [of _ xss])
    with snoc.prems(2) [of i k] show ?thesis by (simp add: nth_append)
  qed
  moreover have "tag k = length xss" if "k \<in> set xs" for k using that snoc.prems(2) [of "length xss" k] by simp
  ultimately show ?case by fastforce
qed simp

lemma store_live_keys_set:
  assumes E: "env_ok E" and S: "store_inv E place S"
  shows "distinct (store_live_keys E now S)"
    "set (store_live_keys E now S) = {k \<in> stored_keys E S. \<exists>sh\<in>set (shards S). \<exists>b\<in>set (buckets sh). key_live (bucket_abs E b) now k}"
proof -
  have sh: "shard_ok E place 0 i (shards S ! i)" if "i < length (shards S)" for i using S that by (simp add: store_ok_def)
  have stored: "a_obj (bucket_abs E b) k \<noteq> None" if "key_live (bucket_abs E b) now k" for b :: "('a, 'b) bucket" and k
    using that by (auto simp: key_live_def split: option.splits)
  have in_shard: "distinct (shard_live_keys E now (shards S ! i))"
    "k \<in> set (shard_live_keys E now (shards S ! i)) \<Longrightarrow> place k = i" if i: "i < length (shards S)" for i k
  proof -
    let ?bs = "buckets (shards S ! i)"
    have at: "bucket_at E place i j (?bs ! j)" if "j < length ?bs" for j using sh [OF i] that by (simp add: shard_ok_def)
    have inv: "bucket_inv E (?bs ! j)" if "j < length ?bs" for j using at [OF that] by (simp add: bucket_at_def)
    have tag: "bucket_index (hash_key E k) = j \<and> place k = i" if "j < length ?bs" "k \<in> set (live_keys E now (?bs ! j))" for j k
      using live_keys_set(1) [OF E inv [OF that(1)]] that stored at [OF that(1)] by (auto simp: bucket_at_def)
    show "distinct (shard_live_keys E now (shards S ! i))"
      unfolding shard_live_keys_def
      by (rule distinct_concat_tag [where tag = "\<lambda>k. bucket_index (hash_key E k)"])
        (use live_keys_set(2) [OF E inv] tag in auto)
    show "place k = i" if "k \<in> set (shard_live_keys E now (shards S ! i))"
      using that tag by (auto simp: shard_live_keys_def in_set_conv_nth [of _ ?bs])
  qed
  show "distinct (store_live_keys E now S)"
    unfolding store_live_keys_def by (rule distinct_concat_tag [where tag = place]) (use in_shard in auto)
  have live: "set (live_keys E now b) = {k. key_live (bucket_abs E b) now k}" if "x \<in> set (shards S)" "b \<in> set (buckets x)" for x b
    using shards_ok [OF S that(1)] shard_buckets_inv that(2) live_keys_set(1) [OF E] by metis
  then show "set (store_live_keys E now S) = {k \<in> stored_keys E S. \<exists>sh\<in>set (shards S). \<exists>b\<in>set (buckets sh). key_live (bucket_abs E b) now k}"
    using stored by (fastforce simp: store_live_keys_def shard_live_keys_def stored_keys_def)
qed

lemma live_count_buckets_law:
  assumes "env_ok E" "\<And>b. b \<in> set bs \<Longrightarrow> bucket_inv E b" "\<And>b k. b \<in> set bs \<Longrightarrow> a_obj (bucket_abs E b) k \<noteq> Some (OHash Map.empty)"
  shows "live_count_buckets E now bs = Some (length (concat (map (live_keys E now) bs)))"
  using assms(2,3) by (induction bs) (simp_all add: live_object_count_law [OF assms(1)])

lemma live_count_shards_law:
  assumes E: "env_ok E" and sh: "\<And>sh. sh \<in> set shs \<Longrightarrow> \<exists>sid. shard_ok E place 0 sid sh"
    and ne: "\<And>sh b k. sh \<in> set shs \<Longrightarrow> b \<in> set (buckets sh) \<Longrightarrow> a_obj (bucket_abs E b) k \<noteq> Some (OHash Map.empty)"
  shows "live_count_shards E now shs = Some (length (concat (map (shard_live_keys E now) shs)))"
  using sh ne
proof (induction shs)
  case (Cons sh shs)
  obtain sid where ok: "shard_ok E place 0 sid sh" using Cons.prems(1) by auto
  have "(if object_count sh \<le> 0 then Some 0 else live_count_buckets E now (buckets sh)) = Some (length (shard_live_keys E now sh))"
    using no_objects_no_keys [OF E ok, of now] live_count_buckets_law [OF E shard_buckets_inv [OF ok], of "buckets sh" now] Cons.prems(2)
    by (auto simp: shard_live_keys_def)
  moreover have "live_count_shards E now shs = Some (length (concat (map (shard_live_keys E now) shs)))"
    by (rule Cons.IH) (use Cons.prems in \<open>auto simp del: not_Some_eq\<close>)
  ultimately show ?case by simp
qed simp

lemma store_live_object_count_law:
  assumes E: "env_ok E" and S: "store_inv E place S"
    and ne: "\<And>sh b k. sh \<in> set (shards S) \<Longrightarrow> b \<in> set (buckets sh) \<Longrightarrow> a_obj (bucket_abs E b) k \<noteq> Some (OHash Map.empty)"
  shows "live_object_count E now S = Some (length (store_live_keys E now S))"
proof (cases "has_objects_hint S")
  case True
  have "live_count_shards E now (shards S) = Some (length (store_live_keys E now S))"
    unfolding store_live_keys_def
    by (rule live_count_shards_law [OF E shards_ex [OF S] ne])
  with True show ?thesis by (simp add: live_object_count_def has_objects_def)
qed (simp add: live_object_count_def has_objects_def no_hint_no_keys [OF E S])

lemma visit_buckets_law:
  assumes "env_ok E" "\<And>b. b \<in> set bs \<Longrightarrow> bucket_inv E b"
  shows "visit_buckets E now visitor bs s = Some (visit_key_iter visitor (concat (map (live_keys E now) bs)) s)"
  using assms(2)
  by (induction bs arbitrary: s)
    (auto simp: bucket_visit_keys_law [OF assms(1)] visit_append and_visit_def split: prod.split)

lemma visit_shards_law:
  assumes E: "env_ok E" and sh: "\<And>sh. sh \<in> set shs \<Longrightarrow> \<exists>sid. shard_ok E place 0 sid sh"
  shows "visit_shards E now visitor shs s = Some (visit_key_iter visitor (concat (map (shard_live_keys E now) shs)) s)"
  using sh
proof (induction shs arbitrary: s)
  case (Cons sh shs)
  obtain sid where ok: "shard_ok E place 0 sid sh" using Cons.prems(1) by auto
  have "visit_buckets E now visitor (buckets sh) s = Some (visit_key_iter visitor (shard_live_keys E now sh) s)"
    unfolding shard_live_keys_def by (rule visit_buckets_law [OF E shard_buckets_inv [OF ok]])
  with Cons no_objects_no_keys [OF E ok, of now] show ?case
    by (auto simp: visit_append and_visit_def split: prod.split)
qed simp

lemma store_visit_keys_law:
  assumes E: "env_ok E" and S: "store_inv E place S"
  shows "store_visit_keys E now visitor s S = Some (visit_key_iter visitor (store_live_keys E now S) s)"
proof (cases "has_objects_hint S")
  case True
  have "visit_shards E now visitor (shards S) s = Some (visit_key_iter visitor (store_live_keys E now S) s)"
    unfolding store_live_keys_def by (rule visit_shards_law [OF E shards_ex [OF S]])
  with True show ?thesis by (simp add: store_visit_keys_def has_objects_def)
qed (simp add: store_visit_keys_def has_objects_def no_hint_no_keys [OF E S])

lemma scan_buckets_law:
  assumes "env_ok E" "\<And>b. b \<in> set bs \<Longrightarrow> bucket_inv E b"
  shows "scan_buckets E now tf visitor off limit bs st =
    Some (scan_list visitor off limit (concat (map (filtered_keys E now tf) bs)) st)"
  using assms(2)
proof (induction bs arbitrary: st)
  case (Cons b bs)
  obtain stop st' where r: "scan_list visitor off limit (filtered_keys E now tf b) st = (stop, st')" by (metis prod.exhaust)
  with Cons.IH [of st'] Cons.prems scan_append [of visitor off limit "filtered_keys E now tf b" st] show ?case
    by (auto simp: scan_keys_visit_law [OF assms(1)] or_scan_def)
qed simp

section \<open>A complete scan\<close>

definition shard_filtered_keys :: "('h, 't) env \<Rightarrow> u64 \<Rightarrow> bytes option \<Rightarrow> ('h, 't) shard \<Rightarrow> bytes list" where
  "shard_filtered_keys E now tf sh = concat (map (filtered_keys E now tf) (buckets sh))"

text \<open>
  A client that scans a shard from a cursor to the end, keeping the keys of every page. Every page is a call of its own and reads
  the clock: \<open>now j\<close> is the reading of page \<open>j\<close>. Nobody writes to the store during the scan.
\<close>

definition scan_page ::
  "('h, 't) env \<Rightarrow> nat \<Rightarrow> u64 \<Rightarrow> bytes option \<Rightarrow> nat \<Rightarrow> ('h, 't) store \<Rightarrow> nat \<Rightarrow> (nat option \<times> bytes list) option" where
  "scan_page E sid now tf limit S off =
     map_option (\<lambda>(stop, st). (stop, vstate st))
       (scan_keys_in_shard_visit E sid now tf off limit 0 0 (\<lambda>s k. (True, s @ [k])) [] S)"

partial_function (option) scan_loop ::
  "('h, 't) env \<Rightarrow> nat \<Rightarrow> (nat \<Rightarrow> u64) \<Rightarrow> bytes option \<Rightarrow> nat \<Rightarrow> ('h, 't) store \<Rightarrow> nat \<Rightarrow> nat \<Rightarrow> bytes list option" where
  "scan_loop E sid now tf limit S j off =
     Option.bind (scan_page E sid (now j) tf limit S off) (\<lambda>r.
       case fst r of
         None \<Rightarrow> Some (snd r)
       | Some off' \<Rightarrow> Option.bind (scan_loop E sid now tf limit S (Suc j) off') (\<lambda>rest. Some (snd r @ rest)))"

lemma fold_snoc: "fold (\<lambda>k s. s @ [k]) xs ys = ys @ xs"
  by (induction xs arbitrary: ys) auto

lemma no_objects_no_filtered:
  "env_ok E \<Longrightarrow> shard_ok E place 0 sid sh \<Longrightarrow> object_count sh \<le> 0 \<Longrightarrow> shard_filtered_keys E now tf sh = []"
  using no_objects(2) by (force simp: shard_filtered_keys_def filtered_keys_def split: option.splits)

lemma scan_page_law:
  fixes now tf
  assumes E: "env_ok E" and S: "store_inv E place S" and sid: "sid < length (shards S)" and limit: "0 < limit" "limit \<le> USIZE_MAX"
  defines "ks \<equiv> shard_filtered_keys E now tf (shards S ! sid)"
  shows "scan_page E sid now tf limit S off =
    Some (if limit \<le> length (drop off ks) then Some (off + limit) else None, take limit (drop off ks))"
proof -
  let ?sh = "shards S ! sid" and ?v = "\<lambda>s k. (True, s @ [k])" and ?st = "\<lparr>position_of = 0, visited = 0, emitted = 0, vstate = []\<rparr>"
  have ok: "shard_ok E place 0 sid ?sh" using S sid by (simp add: store_ok_def)
  have "scan_keys_in_shard_visit E sid now tf off limit 0 0 ?v [] S = Some (scan_list ?v off limit ks ?st)"
  proof (cases "object_count ?sh \<le> 0")
    case True
    with no_objects_no_filtered [OF E ok True] sid show ?thesis
      by (simp add: scan_keys_in_shard_visit_def shard_object_count_hint_def shard_atI ks_def)
  next
    case False
    with scan_buckets_law [OF E shard_buckets_inv [OF ok]] sid show ?thesis
      by (simp add: scan_keys_in_shard_visit_def shard_object_count_hint_def shard_atI ks_def shard_filtered_keys_def)
  qed
  moreover from scan_list_visits [where st = ?st and limit = limit and off = off and visitor = ?v and ks = ks] limit obtain st' where
    "scan_list ?v off limit ks ?st = (if limit \<le> length (drop off ks) then Some (off + limit) else None, st')"
    "vstate st' = take limit (drop off ks)" by (auto simp: fold_snoc)
  ultimately show ?thesis by (simp add: scan_page_def)
qed

text \<open>As time goes by, keys only disappear from what a page counts, and the others keep their order.\<close>

lemma key_live_earlier: "key_live A later k \<Longrightarrow> t \<le> later \<Longrightarrow> key_live A t k"
  by (auto simp: key_live_def a_expired_def a_live_def a_dead_def restrict_map_def fun_eq_iff split: option.splits robj.splits if_splits)
    (meson order_trans)+

lemma subseq_filter_implies: "(\<And>x. P x \<Longrightarrow> Q x) \<Longrightarrow> subseq (filter P xs) (filter Q xs)"
  by (induction xs) auto

lemma filtered_keys_earlier:
  assumes "t \<le> later"
  shows "subseq (filtered_keys E later tf b) (filtered_keys E t tf b)"
proof -
  have "subseq (live_keys_of E later b h) (live_keys_of E t b h)" for h
    unfolding live_keys_of_def by (rule subseq_filter_implies) (rule key_live_earlier [OF _ assms])
  then have "subseq (live_keys E later b) (live_keys E t b)" unfolding live_keys_def by (intro list_emb_append_mono)
  then show ?thesis by (auto simp: filtered_keys_def split: option.split intro: subseq_filter)
qed

lemma shard_filtered_earlier:
  assumes "t \<le> later"
  shows "subseq (shard_filtered_keys E later tf sh) (shard_filtered_keys E t tf sh)"
proof -
  have "subseq (concat (map (filtered_keys E later tf) bs)) (concat (map (filtered_keys E t tf) bs))" for bs
    by (induction bs) (simp_all add: filtered_keys_earlier [OF assms] list_emb_append_mono)
  then show ?thesis by (simp add: shard_filtered_keys_def)
qed

lemma subseq_drop_set: "subseq ys xs \<Longrightarrow> set (drop n ys) \<subseteq> set (drop n xs)"
proof (induction arbitrary: n rule: list_emb.induct)
  case (list_emb_Cons ys xs x)
  have "set (drop n xs) \<subseteq> set (drop n (x # xs))" using set_drop_subset_set_drop [of "n - 1" n xs] by (cases n) auto
  with list_emb_Cons.IH [of n] show ?case by blast
next
  case (list_emb_Cons2 x y ys xs)
  with list_emb_Cons2.IH [of "n - 1"] show ?case by (cases n) auto
qed simp

text \<open>
  The scan ends for all readings of the clock. If the clock does not go back no key comes twice, and every key was live when the scan
  began. If no key expires between the pages, the scan is complete.
\<close>

lemma scan_loop_law:
  fixes tf
  assumes E: "env_ok E" and S: "store_inv E place S" and sid: "sid < length (shards S)" and limit: "0 < limit" "limit \<le> USIZE_MAX"
  defines "F \<equiv> \<lambda>t. shard_filtered_keys E t tf (shards S ! sid)"
  assumes dist: "\<And>t. distinct (F t)"
  shows "\<exists>ks. scan_loop E sid now tf limit S j off = Some ks \<and>
    (mono now \<longrightarrow> distinct ks \<and> set ks \<subseteq> set (drop off (F (now j)))) \<and>
    ((\<forall>i. F (now i) = F (now 0)) \<longrightarrow> ks = drop off (F (now 0)))"
proof (induction "length (F 0) - off" arbitrary: j off rule: less_induct)
  case less
  let ?ks = "F (now j)"
  have page: "scan_page E sid (now j) tf limit S off =
      Some (if limit \<le> length (drop off ?ks) then Some (off + limit) else None, take limit (drop off ?ks))"
    unfolding F_def by (rule scan_page_law [OF E S sid limit])
  show ?case
  proof (cases "limit \<le> length (drop off ?ks)")
    case True
    have "length ?ks \<le> length (F 0)" unfolding F_def by (rule list_emb_length [OF shard_filtered_earlier]) simp
    with True limit(1) have "length (F 0) - (off + limit) < length (F 0) - off" by simp
    from less [OF this, of "Suc j"] obtain rest where rest:
      "scan_loop E sid now tf limit S (Suc j) (off + limit) = Some rest"
      "mono now \<Longrightarrow> distinct rest \<and> set rest \<subseteq> set (drop (off + limit) (F (now (Suc j))))"
      "\<forall>i. F (now i) = F (now 0) \<Longrightarrow> rest = drop (off + limit) (F (now 0))" by auto
    have split: "drop off ?ks = take limit (drop off ?ks) @ drop (off + limit) ?ks" by (simp add: add.commute flip: drop_drop)
    have "set (drop (off + limit) (F (now (Suc j)))) \<subseteq> set (drop (off + limit) ?ks)" if "mono now"
      using monoD [OF that, of j "Suc j"] unfolding F_def by (intro subseq_drop_set shard_filtered_earlier) simp
    moreover have "distinct (take limit (drop off ?ks) @ drop (off + limit) ?ks)"
      using dist [of "now j"] split by (metis distinct_drop)
    ultimately have "distinct (take limit (drop off ?ks) @ rest) \<and> set (take limit (drop off ?ks) @ rest) \<subseteq> set (drop off ?ks)"
      if "mono now" using rest(2) [OF that] that by (subst (3) split) auto
    moreover have "take limit (drop off ?ks) @ rest = drop off (F (now 0))" if "\<forall>i. F (now i) = F (now 0)"
      using rest(3) [OF that] split that by metis
    ultimately show ?thesis using True page rest(1) by (subst scan_loop.simps) simp
  next
    case False
    with page dist [of "now j"] show ?thesis by (subst scan_loop.simps) (auto dest: in_set_takeD, metis)
  qed
qed

text \<open>
  The cursor counts live keys, so a key that expires between two pages moves the others back, and the next page leaves one of them
  out: here \<open>b\<close> is live at both pages and is on none.
\<close>

lemma scan_skips_live_key:
  assumes "env_ok E" "store_inv E place S" "sid < length (shards S)" "t < later"
    "shard_filtered_keys E t tf (shards S ! sid) = a # b # rest" "shard_filtered_keys E later tf (shards S ! sid) = b # rest"
  shows "scan_page E sid t tf 1 S 0 = Some (Some 1, [a])"
    "map_option snd (scan_page E sid later tf 1 S 1) = Some (take 1 rest)"
  using scan_page_law [OF assms(1-3), of 1] assms(5,6) by (simp_all add: USIZE_MAX_def)

section \<open>No lost wake-up\<close>

text \<open>The generation after \<open>n\<close> notifications.\<close>

fun notify_times :: "nat \<Rightarrow> nat \<Rightarrow> ('h, 't) store \<Rightarrow> ('h, 't) store option" where
  "notify_times 0 sid S = Some S"
| "notify_times (Suc n) sid S = Option.bind (notify_shard_waiters sid S) (\<lambda>(_, S'). notify_times n sid S')"

lemma notify_generation:
  "sid < length (shards S) \<Longrightarrow> \<exists>S'. notify_times n sid S = Some S' \<and> length (shards S') = length (shards S) \<and>
     wait_generation (shards S' ! sid) = wait_generation (shards S ! sid) + of_nat n"
proof (induction n arbitrary: S)
  case (Suc n)
  let ?sh = "shards S ! sid"
  let ?S = "put_shard sid (?sh\<lparr>wait_generation := wait_generation ?sh + 1\<rparr>) S"
  have "length (shards ?S) = length (shards S)" "wait_generation (shards ?S ! sid) = wait_generation ?sh + 1"
    using Suc.prems by (simp_all add: put_shard_def)
  with Suc.IH [of ?S] Suc.prems show ?case by (auto simp: notify_shard_waiters_def shard_atI ac_simps)
qed simp

lemma of_nat_u64_nonzero: "0 < n \<Longrightarrow> n < 2 ^ 64 \<Longrightarrow> of_nat n \<noteq> (0 :: u64)"
proof
  assume n: "0 < n" "n < 2 ^ 64" and "of_nat n = (0 :: u64)"
  then have "unat (of_nat n :: u64) = 0" by simp
  with n show False by (simp add: unat_of_nat)
qed

text \<open>A wait for a change that has already happened returns at once.\<close>

lemma wait_after_notify:
  assumes "sid < length (shards S)" "shard_wait_generation sid S = Some observed" "0 < n" "n < 2 ^ 64"
    "notify_times n sid S = Some S'"
  shows "\<exists>S2. wait_for_shard_change sid observed timeout wakes turns S' = Some (Some True, S2)"
proof -
  from notify_generation [OF assms(1), of n] assms(5) have
    S': "length (shards S') = length (shards S)" "wait_generation (shards S' ! sid) = wait_generation (shards S ! sid) + of_nat n"
    by auto
  have "observed = wait_generation (shards S ! sid)" using assms(1,2) by (simp add: shard_wait_generation_def shard_atI)
  with S' of_nat_u64_nonzero [OF assms(3,4)] have "wait_generation (shards S' ! sid) \<noteq> observed" by simp
  with S'(1) assms(1) show ?thesis by (simp add: wait_for_shard_change_def shard_atI wait_for_generation_change_def)
qed

end
