(* ===== verification/Access.thy ===== *)
theory Access
  imports Store Routing
begin

text \<open>
  How the embedded store reaches the object buckets (\<^verbatim>\<open>embedded_store/objects/access.rs\<close>): a key is routed
  to its shard and bucket, an expired object or a hash without live fields is removed first, a command
  on a key that holds a string is refused, and the object counters follow the change of the bucket.

  Only the parts of \<^verbatim>\<open>EmbeddedStore\<close> that these operations use are in the state. The strings live in other maps;
  \<open>str\<close> is what \<^verbatim>\<open>string_exists_routed\<close> answers for the key at the time of the call, and the clock readings are arguments.

  The theorems show that a store behaves like one abstract state over all keys: every access runs the abstract command
  of its bucket operation there, and keeps the invariant of the store with its counters.
\<close>

section \<open>State and routes\<close>

record ('h, 't) embedded =
  route_mode :: embedded_route_mode
  shift :: nat
  objects :: "('h, 't) store"

definition embedded_new :: "('h, 't) env \<Rightarrow> nat \<Rightarrow> embedded_route_mode \<Rightarrow> ('h, 't) embedded option" where
  "embedded_new E shard_count mode = do {
     _ \<leftarrow> assert_valid_shard_count shard_count;
     Some \<lparr>route_mode = mode, shift = shift_for shard_count, objects = store_new E shard_count\<rparr>
   }"

definition route_key :: "('h, 't) env \<Rightarrow> ('h, 't) embedded \<Rightarrow> bytes \<Rightarrow> embedded_key_route" where
  "route_key E D key = compute_key_route (hash_key E) (route_mode D) (shift D) key"

definition route_prehashed :: "('h, 't) env \<Rightarrow> ('h, 't) embedded \<Rightarrow> u64 \<Rightarrow> bytes \<Rightarrow> embedded_key_route" where
  "route_prehashed E D hash key =
     route_key_prehashed (hash_key E) (route_mode D) (length (shards (objects D))) (shift D) hash key"

definition with_objects :: "('h, 't) embedded \<Rightarrow> 'r \<times> ('h, 't) store \<Rightarrow> 'r \<times> ('h, 't) embedded" where
  "with_objects D rS = (fst rS, D\<lparr>objects := snd rS\<rparr>)"

definition has_redis_objects :: "('h, 't) embedded \<Rightarrow> bool" where
  "has_redis_objects D = has_objects (objects D)"

definition notify_redis_object_key :: "('h, 't) env \<Rightarrow> bytes \<Rightarrow> ('h, 't) embedded \<Rightarrow> ('h, 't) embedded option" where
  "notify_redis_object_key E key D =
     map_option (\<lambda>r. D\<lparr>objects := snd r\<rparr>) (notify_shard_waiters (shard_id (route_key E D key)) (objects D))"

section \<open>Writes\<close>

text \<open>The removal of what has expired, before a write.\<close>

definition reap_expired :: "('h, 't) env \<Rightarrow> bytes \<Rightarrow> u64 \<Rightarrow> ('h, 't) bucket \<Rightarrow> (bool \<times> ('h, 't) bucket) option" where
  "reap_expired E key now_ms b =
     (let (gone, b1) = (if has_expirations b then delete_expired E key now_ms b else (False, b))
      in if gone then Some (True, b1) else remove_expired_hash_if_empty E b1 key now_ms)"

definition reap_at ::
  "('h, 't) env \<Rightarrow> embedded_key_route \<Rightarrow> bytes \<Rightarrow> u64 \<Rightarrow> ('h, 't) store \<Rightarrow> (('h, 't) bucket \<times> ('h, 't) store) option" where
  "reap_at E route key now_ms S = do {
     b \<leftarrow> read_bucket (shard_id route) (key_hash route) S;
     (gone, b1) \<leftarrow> reap_expired E key now_ms b;
     let S1 = write_bucket (shard_id route) (key_hash route) b1 S
     in if gone then do { S2 \<leftarrow> note_deleted (shard_id route) S1; Some (b1, S2) } else Some (b1, S1)
   }"

definition object_write_routed ::
  "('h, 't) env \<Rightarrow> embedded_key_route \<Rightarrow> bytes \<Rightarrow> u64 \<Rightarrow> bool \<Rightarrow> ('h, 't) write_op \<Rightarrow> ('h, 't) store \<Rightarrow>
   (redis_object_result \<times> ('h, 't) store) option" where
  "object_write_routed E route key now_ms str op S = do {
     (b, S1) \<leftarrow> reap_at E route key now_ms S;
     let had_object = contains_object E b key
     in if \<not> had_object \<and> str then Some (WrongType, S1)
        else do {
          (result, object_changed, b') \<leftarrow> op b;
          let S2 = write_bucket (shard_id route) (key_hash route) b' S1
          in do {
            S3 \<leftarrow> (if object_changed
                   then if had_object then note_deleted (shard_id route) S2 else note_created (shard_id route) S2
                   else Some S2);
            Some (result, S3)
          }
        }
   }"

definition object_write ::
  "('h, 't) env \<Rightarrow> bytes \<Rightarrow> u64 \<Rightarrow> bool \<Rightarrow> ('h, 't) write_op \<Rightarrow> ('h, 't) embedded \<Rightarrow>
   (redis_object_result \<times> ('h, 't) embedded) option" where
  "object_write E key now_ms str op D =
     map_option (with_objects D) (object_write_routed E (route_key E D key) key now_ms str op (objects D))"

definition object_write_hashed ::
  "('h, 't) env \<Rightarrow> u64 \<Rightarrow> bytes \<Rightarrow> u64 \<Rightarrow> bool \<Rightarrow> ('h, 't) write_op \<Rightarrow> ('h, 't) embedded \<Rightarrow>
   (redis_object_result \<times> ('h, 't) embedded) option" where
  "object_write_hashed E hash key now_ms str op D =
     map_option (with_objects D) (object_write_routed E (route_prehashed E D hash key) key now_ms str op (objects D))"

definition object_create_routed ::
  "('h, 't) env \<Rightarrow> embedded_key_route \<Rightarrow> bytes \<Rightarrow> u64 \<Rightarrow> bool \<Rightarrow> (u64 \<Rightarrow> ('h, 't) attempt_op) \<Rightarrow> (u64 \<Rightarrow> ('h, 't) create_op) \<Rightarrow>
   ('h, 't) store \<Rightarrow> (redis_object_result \<times> ('h, 't) store) option" where
  "object_create_routed E route key now_ms str existing create S = do {
     (b, S1) \<leftarrow> reap_at E route key now_ms S;
     (attempt, b1) \<leftarrow> existing (key_hash route) b;
     let S2 = write_bucket (shard_id route) (key_hash route) b1 S1
     in case attempt of
          Complete result \<Rightarrow> Some (result, S2)
        | MissingObject \<Rightarrow>
            if str then Some (WrongType, S2)
            else do {
              (result, b2) \<leftarrow> create (key_hash route) b1;
              S3 \<leftarrow> note_created (shard_id route) (write_bucket (shard_id route) (key_hash route) b2 S2);
              Some (result, S3)
            }
   }"

definition object_create_hashed ::
  "('h, 't) env \<Rightarrow> u64 \<Rightarrow> bytes \<Rightarrow> u64 \<Rightarrow> bool \<Rightarrow> (u64 \<Rightarrow> ('h, 't) attempt_op) \<Rightarrow> (u64 \<Rightarrow> ('h, 't) create_op) \<Rightarrow>
   ('h, 't) embedded \<Rightarrow> (redis_object_result \<times> ('h, 't) embedded) option" where
  "object_create_hashed E hash key now_ms str existing create D =
     map_option (with_objects D)
       (object_create_routed E (route_prehashed E D hash key) key now_ms str existing create (objects D))"

section \<open>Reads\<close>

text \<open>The cleaning up before a read: whether the object is gone, and the store.\<close>

definition tidy_before_read ::
  "('h, 't) env \<Rightarrow> embedded_key_route \<Rightarrow> bytes \<Rightarrow> u64 \<Rightarrow> ('h, 't) bucket \<Rightarrow> ('h, 't) store \<Rightarrow> (bool \<times> ('h, 't) store) option" where
  "tidy_before_read E route key now_ms b S =
     (if has_expirations b \<and> object_is_expired b key now_ms
      then let (gone, b1) = delete_expired E key now_ms b;
               S1 = write_bucket (shard_id route) (key_hash route) b1 S
           in if gone then map_option (Pair True) (note_deleted (shard_id route) S1) else Some (True, S1)
      else do {
        cleanup \<leftarrow> hash_needs_empty_expiry_cleanup E b key now_ms;
        if cleanup
        then do {
          (gone, b1) \<leftarrow> remove_expired_hash_if_empty E b key now_ms;
          let S1 = write_bucket (shard_id route) (key_hash route) b1 S
          in if gone then map_option (Pair True) (note_deleted (shard_id route) S1) else Some (True, S1)
        }
        else Some (False, S)
      })"

definition object_read_routed ::
  "('h, 't) env \<Rightarrow> embedded_key_route \<Rightarrow> bytes \<Rightarrow> u64 \<Rightarrow> bool \<Rightarrow> (('h, 't) bucket \<Rightarrow> redis_object_result option) \<Rightarrow>
   ('h, 't) store \<Rightarrow> (redis_object_result \<times> ('h, 't) store) option" where
  "object_read_routed E route key now_ms str op S = do {
     b \<leftarrow> read_bucket (shard_id route) (key_hash route) S;
     (gone, S1) \<leftarrow> tidy_before_read E route key now_ms b S;
     if gone
     then if str then Some (WrongType, S1)
          else do {
            b1 \<leftarrow> read_bucket (shard_id route) (key_hash route) S1;
            result \<leftarrow> op b1;
            Some (result, S1)
          }
     else do {
       result \<leftarrow> op b;
       Some (if result = WrongType \<or> contains_object E b key then result
             else if str then WrongType else result, S1)
     }
   }"

definition object_read ::
  "('h, 't) env \<Rightarrow> bytes \<Rightarrow> u64 \<Rightarrow> bool \<Rightarrow> (('h, 't) bucket \<Rightarrow> redis_object_result option) \<Rightarrow> ('h, 't) embedded \<Rightarrow>
   (redis_object_result \<times> ('h, 't) embedded) option" where
  "object_read E key now_ms str op D =
     map_option (with_objects D) (object_read_routed E (route_key E D key) key now_ms str op (objects D))"

definition object_read_hashed ::
  "('h, 't) env \<Rightarrow> u64 \<Rightarrow> bytes \<Rightarrow> u64 \<Rightarrow> bool \<Rightarrow> (('h, 't) bucket \<Rightarrow> redis_object_result option) \<Rightarrow> ('h, 't) embedded \<Rightarrow>
   (redis_object_result \<times> ('h, 't) embedded) option" where
  "object_read_hashed E hash key now_ms str op D =
     map_option (with_objects D) (object_read_routed E (route_prehashed E D hash key) key now_ms str op (objects D))"

definition no_object :: "bool \<Rightarrow> read_outcome" where
  "no_object str = (if str then WrongTypeOutcome else Missing)"

definition object_read_routed_visit ::
  "('h, 't) env \<Rightarrow> embedded_key_route \<Rightarrow> bytes \<Rightarrow> u64 \<Rightarrow> bool \<Rightarrow> (('h, 't) bucket \<Rightarrow> ('e list \<times> read_outcome) option) \<Rightarrow>
   ('h, 't) store \<Rightarrow> (('e list \<times> read_outcome) \<times> ('h, 't) store) option" where
  "object_read_routed_visit E route key now_ms str op S = do {
     objects_there \<leftarrow> shard_has_objects (shard_id route) S;
     if \<not> objects_there then Some (([], no_object str), S)
     else do {
       b \<leftarrow> read_bucket (shard_id route) (key_hash route) S;
       (gone, S1) \<leftarrow> tidy_before_read E route key now_ms b S;
       if gone then Some (([], no_object str), S1)
       else do {
         (items, outcome) \<leftarrow> op b;
         Some ((items, if outcome = Missing then no_object str else outcome), S1)
       }
     }
   }"

definition object_read_hashed_visit ::
  "('h, 't) env \<Rightarrow> u64 \<Rightarrow> bytes \<Rightarrow> u64 \<Rightarrow> bool \<Rightarrow> (('h, 't) bucket \<Rightarrow> ('e list \<times> read_outcome) option) \<Rightarrow> ('h, 't) embedded \<Rightarrow>
   (('e list \<times> read_outcome) \<times> ('h, 't) embedded) option" where
  "object_read_hashed_visit E hash key now_ms str op D =
     map_option (with_objects D)
       (object_read_routed_visit E (route_prehashed E D hash key) key now_ms str op (objects D))"

section \<open>One abstract state for all keys\<close>

definition bucket_of :: "('h, 't) env \<Rightarrow> (bytes \<Rightarrow> nat) \<Rightarrow> ('h, 't) store \<Rightarrow> bytes \<Rightarrow> ('h, 't) bucket" where
  "bucket_of E place S k = buckets (shards S ! place k) ! bucket_index (hash_key E k)"

definition store_abs :: "('h, 't) env \<Rightarrow> (bytes \<Rightarrow> nat) \<Rightarrow> ('h, 't) store \<Rightarrow> astate" where
  "store_abs E place S =
     \<lparr>a_obj = (\<lambda>k. a_obj (bucket_abs E (bucket_of E place S k)) k),
      a_ttl = (\<lambda>k. a_ttl (bucket_abs E (bucket_of E place S k)) k),
      a_fttl = (\<lambda>k. a_fttl (bucket_abs E (bucket_of E place S k)) k)\<rparr>"

text \<open>Two states that agree at a key.\<close>

definition eq_at :: "bytes \<Rightarrow> astate \<Rightarrow> astate \<Rightarrow> bool" where
  "eq_at k A B \<longleftrightarrow> a_obj A k = a_obj B k \<and> a_ttl A k = a_ttl B k \<and> a_fttl A k = a_fttl B k"

definition local_write :: "bytes \<Rightarrow> write_spec \<Rightarrow> bool" where
  "local_write k spec \<longleftrightarrow>
     (\<forall>A B. eq_at k A B \<longrightarrow>
        fst (spec A) = fst (spec B) \<and> fst (snd (spec A)) = fst (snd (spec B)) \<and> eq_at k (snd (snd (spec A))) (snd (snd (spec B))))"

definition local_read :: "bytes \<Rightarrow> (astate \<Rightarrow> 'r) \<Rightarrow> bool" where
  "local_read k rd \<longleftrightarrow> (\<forall>A B. eq_at k A B \<longrightarrow> rd A = rd B)"

lemma local_writeD:
  assumes "local_write k spec" "eq_at k A B" "spec A = (r, fl, A')"
  shows "\<exists>B'. spec B = (r, fl, B') \<and> eq_at k A' B'"
proof -
  have "fst (spec A) = fst (spec B) \<and> fst (snd (spec A)) = fst (snd (spec B)) \<and> eq_at k (snd (snd (spec A))) (snd (snd (spec B)))"
    using assms(1,2) by (simp add: local_write_def)
  with assms(3) show ?thesis by (cases "spec B") auto
qed

lemma eq_at_refl [simp]: "eq_at k A A"
  by (simp add: eq_at_def)

lemma eq_at_sym: "eq_at k A B \<Longrightarrow> eq_at k B A"
  by (simp add: eq_at_def)

text \<open>A state is determined by what it is at a key and by what it keeps elsewhere.\<close>

lemma astate_eqI:
  assumes "same_but k A B" "same_but k A C" "eq_at k B C"
  shows "B = C"
proof (rule astate.equality)
  have "a_obj B x = a_obj C x \<and> a_ttl B x = a_ttl C x \<and> a_fttl B x = a_fttl C x" for x
    using assms by (cases "x = k") (simp_all add: same_but_def eq_at_def)
  then show "a_obj B = a_obj C" "a_ttl B = a_ttl C" "a_fttl B = a_fttl C" by (simp_all add: fun_eq_iff)
qed simp

text \<open>The place of a key under a store: the shard that the routing gives it.\<close>

definition placed :: "('h, 't) env \<Rightarrow> (bytes \<Rightarrow> nat) \<Rightarrow> ('h, 't) store \<Rightarrow> bytes \<Rightarrow> embedded_key_route \<Rightarrow> bool" where
  "placed E place S k route \<longleftrightarrow>
     place k < length (shards S) \<and> shard_id route = place k \<and> key_hash route = hash_key E k"

lemma bucket_of_read:
  assumes "store_ok E place owed S" "place k < length (shards S)"
  shows "read_bucket (place k) (hash_key E k) S = Some (bucket_of E place S k)" "bucket_inv E (bucket_of E place S k)"
proof -
  obtain b where "read_bucket (place k) (hash_key E k) S = Some b" "bucket_inv E b"
    "b = buckets (shards S ! place k) ! bucket_index (hash_key E k)"
    using read_bucket_ok [OF assms] .
  then show "read_bucket (place k) (hash_key E k) S = Some (bucket_of E place S k)" "bucket_inv E (bucket_of E place S k)"
    by (simp_all add: bucket_of_def)
qed

lemma eq_at_store: "eq_at k (bucket_abs E (bucket_of E place S k)) (store_abs E place S)"
  by (simp add: eq_at_def store_abs_def)

text \<open>Writing a bucket that changed at a key only.\<close>

lemma write_bucket_abs:
  assumes E: "env_ok E" and S: "store_ok E place owed S" and k: "place k < length (shards S)"
    and same: "same_but k (bucket_abs E (bucket_of E place S k)) (bucket_abs E b')"
  defines "S' \<equiv> write_bucket (place k) (hash_key E k) b' S"
  shows "bucket_of E place S' k = b'" "same_but k (store_abs E place S) (store_abs E place S')"
    "length (shards S') = length (shards S)" "write_bucket (place k) (hash_key E k) b2 S' = write_bucket (place k) (hash_key E k) b2 S"
proof -
  let ?i = "bucket_index (hash_key E k)"
  have len: "?i < length (buckets (shards S ! place k))"
    using S k bucket_index_less by (simp add: store_ok_def shard_ok_def)
  have of': "bucket_of E place S' x = (if place x = place k \<and> bucket_index (hash_key E x) = ?i then b' else bucket_of E place S x)" for x
    using k len by (auto simp: S'_def bucket_of_def write_bucket_def Let_def put_shard_def nth_list_update)
  then show "bucket_of E place S' k = b'" by simp
  show "same_but k (store_abs E place S) (store_abs E place S')"
    unfolding same_but_def
  proof (intro allI impI)
    fix x assume x: "x \<noteq> k"
    show "a_obj (store_abs E place S') x = a_obj (store_abs E place S) x \<and> a_ttl (store_abs E place S') x = a_ttl (store_abs E place S) x \<and>
        a_fttl (store_abs E place S') x = a_fttl (store_abs E place S) x"
    proof (cases "place x = place k \<and> bucket_index (hash_key E x) = ?i")
      case True
      then have "bucket_of E place S x = bucket_of E place S k" by (simp add: bucket_of_def)
      with True same x of' [of x] show ?thesis by (simp add: same_but_def store_abs_def)
    next
      case False
      with of' [of x] show ?thesis by (simp add: store_abs_def if_not_P)
    qed
  qed
  show "length (shards S') = length (shards S)" by (simp add: S'_def write_bucket_def Let_def put_shard_def)
  show "write_bucket (place k) (hash_key E k) b2 S' = write_bucket (place k) (hash_key E k) b2 S"
    using k by (simp add: S'_def write_bucket_def Let_def put_shard_def)
qed

lemma store_abs_cong:
  assumes "store_ok E place owed S" "\<And>x. place x < length (shards S)" "length (shards S') = length (shards S)"
    "store_ok E place owed' S'" "\<forall>i h. read_bucket i h S' = read_bucket i h S"
  shows "bucket_of E place S' = bucket_of E place S" "store_abs E place S' = store_abs E place S"
proof -
  have "bucket_of E place S' x = bucket_of E place S x" for x
    using bucket_of_read(1) [OF assms(1,2), of x] bucket_of_read(1) [OF assms(4), of x] assms(2,3,5) by simp
  then show "bucket_of E place S' = bucket_of E place S" "store_abs E place S' = store_abs E place S"
    by (auto simp: store_abs_def)
qed

text \<open>A bucket is replaced and the counter follows.\<close>

definition settle :: "nat \<Rightarrow> bool \<Rightarrow> bool \<Rightarrow> ('h, 't) store \<Rightarrow> ('h, 't) store option" where
  "settle sid before after S =
     (if before = after then Some S else if after then note_created sid S else note_deleted sid S)"

definition has_obj :: "('h, 't) env \<Rightarrow> bytes \<Rightarrow> ('h, 't) bucket \<Rightarrow> bool" where
  "has_obj E k b \<longleftrightarrow> a_obj (bucket_abs E b) k \<noteq> None"

lemma settle_write:
  assumes E: "env_ok E" and S: "store_inv E place S" and pl: "\<And>x. place x < length (shards S)"
    and b': "bucket_inv E b'" "same_but k (bucket_abs E (bucket_of E place S k)) (bucket_abs E b')"
  shows "\<exists>S'. settle (place k) (has_obj E k (bucket_of E place S k)) (has_obj E k b') (write_bucket (place k) (hash_key E k) b' S) = Some S' \<and>
    store_inv E place S' \<and> length (shards S') = length (shards S) \<and> bucket_of E place S' k = b' \<and>
    same_but k (store_abs E place S) (store_abs E place S')"
proof -
  let ?b = "bucket_of E place S k" and ?S1 = "write_bucket (place k) (hash_key E k) b' S"
  let ?d = "(if has_obj E k b' then 1 else 0) - (if has_obj E k ?b then 1 else 0) :: int"
  note ab = write_bucket_abs [OF E S pl b'(2)]
  have ok: "store_ok E place ((\<lambda>_. 0)(place k := - ?d)) ?S1"
    using write_bucket_ok [OF E S pl refl bucket_of_read(1) [OF S pl] b'] by (simp add: has_obj_def)
  have len: "place k < length (shards ?S1)" "\<And>x. place x < length (shards ?S1)" using pl ab(3) by simp_all
  have zero: "(\<lambda>_ :: nat. 0 :: int)(i := 0) = (\<lambda>_. 0)" for i by (simp add: fun_eq_iff)
  obtain S' where S': "settle (place k) (has_obj E k ?b) (has_obj E k b') ?S1 = Some S'" "store_inv E place S'"
    "length (shards S') = length (shards ?S1)" "\<forall>i h. read_bucket i h S' = read_bucket i h ?S1"
    using note_created_ok [OF ok len(1)] note_deleted_ok [OF ok len(1)] ok
    by (cases "has_obj E k ?b"; cases "has_obj E k b'") (auto simp: settle_def zero)
  from store_abs_cong [OF ok len(2) S'(3,2,4)] S' ab show ?thesis by auto
qed

section \<open>What has expired is removed\<close>

definition a_clean :: "bytes \<Rightarrow> u64 \<Rightarrow> astate \<Rightarrow> bool \<times> astate" where
  "a_clean k now A = (if a_expired A k now then (True, a_del k A) else a_reap k now A)"

lemma reap_expired_law:
  assumes E: "env_ok E" and b: "bucket_inv E b"
  shows "\<exists>b'. reap_expired E k now b = Some (fst (a_clean k now (bucket_abs E b)), b') \<and> bucket_inv E b' \<and>
    bucket_abs E b' = snd (a_clean k now (bucket_abs E b))"
proof (cases "a_expired (bucket_abs E b) k now")
  case True
  then have "has_expirations b" by (auto simp: a_expired_def has_expirations_def split: option.splits)
  with True delete_expired_law [OF E b, of k now] show ?thesis
    by (auto simp: reap_expired_def a_clean_def a_drop_def)
next
  case False
  then have "delete_expired E k now b = (False, b)" by (simp add: delete_expired_def object_is_expired_abs [of b k now E])
  with False remove_expired_if_empty_law [OF E b, of k now] show ?thesis by (auto simp: reap_expired_def a_clean_def)
qed

lemma same_but_clean: "same_but k A (snd (a_clean k now A))"
  by (simp add: a_clean_def same_but_reap same_but_intros)

lemma a_clean_obj: "bucket_inv E b \<Longrightarrow>
  fst (a_clean k now (bucket_abs E b)) \<longleftrightarrow>
    a_obj (bucket_abs E b) k \<noteq> None \<and> a_obj (snd (a_clean k now (bucket_abs E b))) k = None"
  using a_reap_obj [of k now "bucket_abs E b"] a_reap_gone [of k now "bucket_abs E b"] a_expired_obj [of E b k now]
  by (auto simp: a_clean_def a_del_def a_reap_def Let_def a_purge_def split: option.splits robj.splits if_splits)

lemma reap_at_law:
  assumes E: "env_ok E" and S: "store_inv E place S" and pl: "\<And>x. place x < length (shards S)" and r: "placed E place S k route"
  shows "\<exists>b S'. reap_at E route k now S = Some (b, S') \<and> store_inv E place S' \<and> length (shards S') = length (shards S) \<and>
    bucket_of E place S' k = b \<and> bucket_inv E b \<and> bucket_abs E b = snd (a_clean k now (bucket_abs E (bucket_of E place S k))) \<and>
    same_but k (store_abs E place S) (store_abs E place S')"
proof -
  let ?b = "bucket_of E place S k" and ?A = "bucket_abs E (bucket_of E place S k)"
  note rd = bucket_of_read [OF S pl, of k]
  obtain b where b: "reap_expired E k now ?b = Some (fst (a_clean k now ?A), b)" "bucket_inv E b"
    "bucket_abs E b = snd (a_clean k now ?A)"
    using reap_expired_law [OF E rd(2)] by blast
  have "same_but k ?A (bucket_abs E b)" by (simp add: b(3) same_but_clean)
  from settle_write [OF E S pl b(2) this] obtain S' where
    "settle (place k) (has_obj E k ?b) (has_obj E k b) (write_bucket (place k) (hash_key E k) b S) = Some S'"
    "store_inv E place S'" "length (shards S') = length (shards S)" "bucket_of E place S' k = b"
    "same_but k (store_abs E place S) (store_abs E place S')" by blast
  moreover have "has_obj E k b \<Longrightarrow> has_obj E k ?b" "fst (a_clean k now ?A) \<longleftrightarrow> has_obj E k ?b \<and> \<not> has_obj E k b"
    using a_clean_obj [OF rd(2), of k now] by (auto simp: has_obj_def b(3) a_clean_def a_reap_def Let_def a_del_def a_purge_def
      split: option.splits robj.splits if_splits)
  ultimately show ?thesis using r rd(1) b by (auto simp: reap_at_def placed_def settle_def split: if_splits)
qed

section \<open>Writes\<close>

lemma contains_has_obj: "env_ok E \<Longrightarrow> bucket_inv E b \<Longrightarrow> contains_object E b k \<longleftrightarrow> has_obj E k b"
  by (simp add: type_tests(1) has_obj_def)

text \<open>Every bucket command can be run through the router.\<close>

context bucket_op
begin

lemma routed_op:
  fixes now :: u64
  assumes E: "env_ok E" and S: "store_inv E place S" and pl: "\<And>x. place x < length (shards S)" and r: "placed E place S key route"
  defines "A1 \<equiv> snd (a_clean key now (bucket_abs E (bucket_of E place S key)))"
  shows "\<exists>res S'. object_write_routed E route key now str op S = Some (res, S') \<and> store_inv E place S' \<and>
    length (shards S') = length (shards S) \<and> same_but key (store_abs E place S) (store_abs E place S') \<and>
    (if a_obj A1 key = None \<and> str then res = WrongType \<and> bucket_abs E (bucket_of E place S' key) = A1
     else \<exists>b fl b'. bucket_inv E b \<and> bucket_abs E b = A1 \<and> op b = Some (res, fl, b') \<and> bucket_of E place S' key = b')"
proof -
  obtain b S1 where b: "reap_at E route key now S = Some (b, S1)" "store_inv E place S1" "length (shards S1) = length (shards S)"
    "bucket_of E place S1 key = b" "bucket_inv E b" "bucket_abs E b = A1" "same_but key (store_abs E place S) (store_abs E place S1)"
    using reap_at_law [OF E S pl r, of now] unfolding A1_def by blast
  have pl1: "\<And>x. place x < length (shards S1)" using pl b(3) by simp
  have had: "contains_object E b key \<longleftrightarrow> a_obj A1 key \<noteq> None" using contains_has_obj [OF E b(5)] b(6) by (simp add: has_obj_def)
  show ?thesis
  proof (cases "a_obj A1 key = None \<and> str")
    case True
    with b had show ?thesis by (auto simp: object_write_routed_def)
  next
    case False
    obtain res fl b' where op: "op b = Some (res, fl, b')" "bucket_inv E b'"
      "fl \<longleftrightarrow> has_obj E key b \<noteq> has_obj E key b'" "same_but key (bucket_abs E b) (bucket_abs E b')"
      using total [OF E b(5)] unfolding has_obj_def by blast
    have b1: "bucket_abs E (bucket_of E place S1 key) = bucket_abs E b" by (simp add: b(4))
    from settle_write [OF E b(2) pl1 op(2), of key] op(4) b(4) obtain S' where S':
      "settle (place key) (has_obj E key b) (has_obj E key b') (write_bucket (place key) (hash_key E key) b' S1) = Some S'"
      "store_inv E place S'" "length (shards S') = length (shards S1)" "bucket_of E place S' key = b'"
      "same_but key (store_abs E place S1) (store_abs E place S')" by auto
    have "contains_object E b key = has_obj E key b" by (rule contains_has_obj [OF E b(5)])
    with False had r b(1) op(1,3) S'(1) have "object_write_routed E route key now str op S = Some (res, S')"
      by (cases "has_obj E key b") (auto simp: object_write_routed_def placed_def settle_def)
    with False S' b op(1) same_but_trans [OF b(7) S'(5)] show ?thesis by auto
  qed
qed

end

text \<open>The abstract command: what has expired goes first, and a string at the key refuses it.\<close>

definition spec_access :: "bytes \<Rightarrow> u64 \<Rightarrow> bool \<Rightarrow> write_spec \<Rightarrow> astate \<Rightarrow> redis_object_result \<times> astate" where
  "spec_access k now str spec A =
     (let A1 = snd (a_clean k now A)
      in if a_obj A1 k = None \<and> str then (WrongType, A1) else (fst (spec A1), snd (snd (spec A1))))"

lemma eq_at_clean: "eq_at k A B \<Longrightarrow> eq_at k (snd (a_clean k now A)) (snd (a_clean k now B))"
  by (auto simp: eq_at_def a_clean_def a_expired_def a_reap_def a_purge_def a_dead_def a_del_def a_hash_def a_at_def Let_def
      split: option.splits robj.splits)

locale routed_write = bucket_write +
  assumes local: "local_write key spec"
begin

lemma routed:
  assumes E: "env_ok E" and S: "store_inv E place S" and pl: "\<And>x. place x < length (shards S)" and r: "placed E place S key route"
  shows "\<exists>res S'. object_write_routed E route key now str op S = Some (res, S') \<and> store_inv E place S' \<and>
    length (shards S') = length (shards S) \<and> spec_access key now str spec (store_abs E place S) = (res, store_abs E place S')"
proof -
  let ?A1 = "snd (a_clean key now (bucket_abs E (bucket_of E place S key)))" and ?B1 = "snd (a_clean key now (store_abs E place S))"
  obtain res S' where S': "object_write_routed E route key now str op S = Some (res, S')" "store_inv E place S'"
    "length (shards S') = length (shards S)" "same_but key (store_abs E place S) (store_abs E place S')" and
    alt: "if a_obj ?A1 key = None \<and> str then res = WrongType \<and> bucket_abs E (bucket_of E place S' key) = ?A1
     else \<exists>b fl b'. bucket_inv E b \<and> bucket_abs E b = ?A1 \<and> op b = Some (res, fl, b') \<and> bucket_of E place S' key = b'"
    using op.routed_op [OF E S pl r, of now str] by blast
  have at1: "eq_at key ?A1 ?B1" by (rule eq_at_clean [OF eq_at_store])
  then have none: "a_obj ?A1 key = None \<longleftrightarrow> a_obj ?B1 key = None" by (simp add: eq_at_def)
  have at': "eq_at key (bucket_abs E (bucket_of E place S' key)) (store_abs E place S')" by (rule eq_at_store)
  have "spec_access key now str spec (store_abs E place S) = (res, store_abs E place S')"
  proof (cases "a_obj ?A1 key = None \<and> str")
    case True
    with alt at1 at' have "eq_at key ?B1 (store_abs E place S')" by (simp add: eq_at_def)
    from astate_eqI [OF same_but_clean S'(4) this] True alt none show ?thesis by (simp add: spec_access_def)
  next
    case False
    with alt obtain b fl where b: "bucket_inv E b" "bucket_abs E b = ?A1" "op b = Some (res, fl, bucket_of E place S' key)"
      by auto
    from refine [OF E] b have sp: "spec ?A1 = (res, fl, bucket_abs E (bucket_of E place S' key))"
      unfolding refines_def by fastforce
    obtain B2 where B2: "spec ?B1 = (res, fl, B2)" "eq_at key (bucket_abs E (bucket_of E place S' key)) B2"
      using local_writeD [OF local at1 sp] by blast
    have "same_but key ?B1 B2" using flag_exactD(2) [OF flag B2(1)] .
    then have "same_but key (store_abs E place S) B2" by (rule same_but_trans [OF same_but_clean])
    moreover have "eq_at key B2 (store_abs E place S')" using B2(2) at' by (simp add: eq_at_def)
    ultimately have "B2 = store_abs E place S'" using S'(4) astate_eqI by blast
    with False none B2(1) show ?thesis by (auto simp: spec_access_def)
  qed
  with S' show ?thesis by blast
qed

end

section \<open>Creations\<close>

lemma write_same:
  assumes "store_ok E place owed S" "place k < length (shards S)"
  shows "write_bucket (place k) (hash_key E k) (bucket_of E place S k) S = S"
  using assms by (simp add: write_bucket_def bucket_of_def Let_def put_shard_def)

text \<open>A string at the key refuses the creation of an object, and nothing else.\<close>

definition spec_create :: "bytes \<Rightarrow> u64 \<Rightarrow> bool \<Rightarrow> write_spec \<Rightarrow> astate \<Rightarrow> redis_object_result \<times> astate" where
  "spec_create k now str spec A =
     (let A1 = snd (a_clean k now A); (r, created, A2) = spec A1 in if created \<and> str then (WrongType, A1) else (r, A2))"

locale routed_create = bucket_create +
  assumes local: "local_write key spec"
begin

lemma attempt_cases:
  assumes E: "env_ok E" and b: "bucket_inv E b"
  obtains (complete) r b' where "attempt b = Some (Complete r, b')" "spec (bucket_abs E b) = (r, False, bucket_abs E b')"
      "bucket_inv E b'" "has_obj E key b' = has_obj E key b" "same_but key (bucket_abs E b) (bucket_abs E b')"
  | (create) r b' where "attempt b = Some (MissingObject, b)" "create b = Some (r, b')"
      "spec (bucket_abs E b) = (r, True, bucket_abs E b')" "bucket_inv E b'" "\<not> has_obj E key b" "has_obj E key b'"
      "same_but key (bucket_abs E b) (bucket_abs E b')"
proof -
  obtain r fl b' where op: "attempt_then_create attempt create b = Some (r, fl, b')" "bucket_inv E b'"
    "spec (bucket_abs E b) = (r, fl, bucket_abs E b')" "fl \<longleftrightarrow> has_obj E key b \<noteq> has_obj E key b'"
    "same_but key (bucket_abs E b) (bucket_abs E b')"
    using both.write_ok [OF E b] unfolding has_obj_def by metis
  from op(1) obtain a b1 where a: "attempt b = Some (a, b1)" by (auto simp: attempt_then_create_def bind_eq_Some_conv)
  show thesis
  proof (cases a)
    case (Complete r')
    with op a show thesis by (intro complete) (auto simp: attempt_then_create_def)
  next
    case MissingObject
    with missing [OF E b, of b1] a have "b1 = b" "\<not> has_obj E key b" by (auto simp: has_obj_def)
    with op a MissingObject show thesis by (intro create) (auto simp: attempt_then_create_def)
  qed
qed

lemma routed:
  assumes E: "env_ok E" and S: "store_inv E place S" and pl: "\<And>x. place x < length (shards S)" and r: "placed E place S key route"
    and ops: "existing (hash_key E key) = attempt" "creating (hash_key E key) = create"
  shows "\<exists>res S'. object_create_routed E route key now str existing creating S = Some (res, S') \<and> store_inv E place S' \<and>
    length (shards S') = length (shards S) \<and> spec_create key now str spec (store_abs E place S) = (res, store_abs E place S')"
proof -
  let ?A1 = "snd (a_clean key now (bucket_abs E (bucket_of E place S key)))" and ?B1 = "snd (a_clean key now (store_abs E place S))"
  obtain b S1 where b: "reap_at E route key now S = Some (b, S1)" "store_inv E place S1" "length (shards S1) = length (shards S)"
    "bucket_of E place S1 key = b" "bucket_inv E b" "bucket_abs E b = ?A1" "same_but key (store_abs E place S) (store_abs E place S1)"
    using reap_at_law [OF E S pl r, of now] by blast
  have pl1: "\<And>x. place x < length (shards S1)" using pl b(3) by simp
  have at1: "eq_at key ?A1 ?B1" by (rule eq_at_clean [OF eq_at_store])
  have B1: "?B1 = store_abs E place S1"
    using astate_eqI [OF same_but_clean b(7)] at1 b(4,6) eq_at_store [of key E place S1] by (simp add: eq_at_def)
  note restore = write_same [OF b(2) pl1, of key, unfolded b(4)]
  have finish: "spec ?B1 = (res, fl, store_abs E place S')"
    if ends: "spec (bucket_abs E b) = (res, fl, bucket_abs E b')" "bucket_of E place S' key = b'"
      "same_but key (store_abs E place S1) (store_abs E place S')" for res fl b' S'
  proof -
    obtain B2 where B2: "spec ?B1 = (res, fl, B2)" "eq_at key (bucket_abs E b') B2"
      using local_writeD [OF local at1] ends(1) b(6) by metis
    have "same_but key (store_abs E place S1) B2" using flag_exactD(2) [OF flag B2(1)] B1 by simp
    moreover have "eq_at key B2 (store_abs E place S')" using B2(2) eq_at_store [of key E place S'] ends(2) by (simp add: eq_at_def)
    ultimately show ?thesis using ends(3) B2(1) astate_eqI by blast
  qed
  from E b(5) show ?thesis
  proof (cases rule: attempt_cases)
    case (complete res b')
    from settle_write [OF E b(2) pl1 complete(3), of key] complete(4,5) b(4) obtain S' where S':
      "write_bucket (place key) (hash_key E key) b' S1 = S'"
      "store_inv E place S'" "length (shards S') = length (shards S1)" "bucket_of E place S' key = b'"
      "same_but key (store_abs E place S1) (store_abs E place S')" by (auto simp: settle_def)
    from finish [OF complete(2) S'(4,5)] complete(1) S' b(1,3) r ops show ?thesis
      by (auto simp: object_create_routed_def placed_def spec_create_def)
  next
    case (create res b')
    from settle_write [OF E b(2) pl1 create(4), of key] create(5-7) b(4) obtain S' where S':
      "note_created (place key) (write_bucket (place key) (hash_key E key) b' S1) = Some S'"
      "store_inv E place S'" "length (shards S') = length (shards S1)" "bucket_of E place S' key = b'"
      "same_but key (store_abs E place S1) (store_abs E place S')" by (auto simp: settle_def)
    from finish [OF create(3) S'(4,5)] create(1,2) S' b(1-3) r ops restore B1 show ?thesis
      by (cases str) (auto simp: object_create_routed_def placed_def spec_create_def)
  qed
qed

end

section \<open>Reads\<close>

text \<open>A read removes the object when it has expired, or when it is a hash all of whose fields have expired.\<close>

definition a_over :: "astate \<Rightarrow> bytes \<Rightarrow> u64 \<Rightarrow> bool" where
  "a_over A k now \<longleftrightarrow> a_expired A k now \<or> (\<exists>m. a_obj A k = Some (OHash m)) \<and> a_live A k now = Map.empty"

definition a_tidy :: "bytes \<Rightarrow> u64 \<Rightarrow> astate \<Rightarrow> astate" where
  "a_tidy k now A = (if a_over A k now then a_del k A else A)"

lemma eq_at_live: "eq_at k A B \<Longrightarrow> a_live A k now = a_live B k now"
  by (auto simp: eq_at_def a_live_def a_dead_def split: option.split robj.split)

lemma a_over_cong: "eq_at k A B \<Longrightarrow> a_over A k now \<longleftrightarrow> a_over B k now"
  using eq_at_live [of k A B now] by (simp add: a_over_def eq_at_def a_expired_def)

lemma a_clean_over:
  assumes "a_over A k now"
  shows "snd (a_clean k now A) = a_del k A" "\<not> a_expired A k now \<Longrightarrow> fst (a_reap k now A)"
  using assms by (auto simp: a_over_def a_clean_def a_reap_def a_purge_def a_live_def a_hash_def a_at_def a_del_def Let_def
      split: option.splits robj.splits if_splits)

lemma delete_law:
  assumes E: "env_ok E" and S: "store_inv E place S" and pl: "\<And>x. place x < length (shards S)"
    and b': "bucket_inv E b'" "bucket_abs E b' = a_del k (bucket_abs E (bucket_of E place S k))"
    and has: "has_obj E k (bucket_of E place S k)"
  shows "\<exists>S'. note_deleted (place k) (write_bucket (place k) (hash_key E k) b' S) = Some S' \<and> store_inv E place S' \<and>
    length (shards S') = length (shards S) \<and> store_abs E place S' = a_del k (store_abs E place S)"
proof -
  have same: "same_but k A (a_del k A)" for A by (simp add: same_but_intros)
  have "\<not> has_obj E k b'" by (simp add: has_obj_def b'(2) a_del_def)
  with settle_write [OF E S pl b'(1), of k] has obtain S' where S':
    "note_deleted (place k) (write_bucket (place k) (hash_key E k) b' S) = Some S'" "store_inv E place S'"
    "length (shards S') = length (shards S)" "bucket_of E place S' k = b'" "same_but k (store_abs E place S) (store_abs E place S')"
    by (auto simp: settle_def b'(2) same)
  have "eq_at k (store_abs E place S') (a_del k (store_abs E place S))"
    using eq_at_store [of k E place S'] S'(4) b'(2) by (simp add: eq_at_def a_del_def)
  from astate_eqI [OF S'(5) same this] S' show ?thesis by blast
qed

lemma tidy_law:
  assumes E: "env_ok E" and S: "store_inv E place S" and pl: "\<And>x. place x < length (shards S)" and r: "placed E place S k route"
  shows "\<exists>S'. tidy_before_read E route k now (bucket_of E place S k) S = Some (a_over (store_abs E place S) k now, S') \<and>
    store_inv E place S' \<and> length (shards S') = length (shards S) \<and> store_abs E place S' = a_tidy k now (store_abs E place S) \<and>
    (\<not> a_over (store_abs E place S) k now \<longrightarrow> S' = S)"
proof -
  let ?b = "bucket_of E place S k" and ?A = "bucket_abs E (bucket_of E place S k)"
  note inv = bucket_of_read(2) [OF S pl, of k] and over = a_over_cong [OF eq_at_store, of E place S k now]
  note cleanup = needs_cleanup_law [OF E inv, of k now]
  consider (expired) "a_expired ?A k now" | (dead) "\<not> a_expired ?A k now" "a_over ?A k now" | (alive) "\<not> a_over ?A k now"
    by blast
  then show ?thesis
  proof cases
    case expired
    then have has: "has_obj E k ?b" "has_expirations ?b" "object_is_expired ?b k now"
      using a_expired_obj [OF inv] by (auto simp: has_obj_def a_expired_def has_expirations_def object_is_expired_def split: option.splits)
    from delete_expired_law [OF E inv, of k now] expired obtain b' where b': "delete_expired E k now ?b = (True, b')"
      "bucket_inv E b'" "bucket_abs E b' = a_del k ?A" by (auto simp: a_drop_def)
    from delete_law [OF E S pl b'(2,3) has(1)] b'(1) has expired over r show ?thesis
      by (auto simp: tidy_before_read_def placed_def a_tidy_def a_over_def)
  next
    case dead
    then have has: "has_obj E k ?b" by (auto simp: a_over_def has_obj_def split: option.splits)
    have need: "hash_needs_empty_expiry_cleanup E ?b k now = Some True" using dead cleanup by (auto simp: a_over_def)
    from remove_expired_if_empty_law [OF E inv, of k now] a_clean_over [OF dead(2)] dead(1) obtain b' where
      b': "remove_expired_hash_if_empty E ?b k now = Some (True, b')" "bucket_inv E b'" "bucket_abs E b' = a_del k ?A"
      by (auto simp: a_clean_def)
    have "\<not> object_is_expired ?b k now" using dead(1) by (simp add: object_is_expired_abs [of _ _ _ E])
    with delete_law [OF E S pl b'(2,3) has] b'(1) need dead over r show ?thesis
      by (auto simp: tidy_before_read_def placed_def a_tidy_def)
  next
    case alive
    then have "\<not> object_is_expired ?b k now" "hash_needs_empty_expiry_cleanup E ?b k now = Some False"
      using cleanup by (auto simp: a_over_def object_is_expired_abs [of _ _ _ E])
    with alive over S show ?thesis by (auto simp: tidy_before_read_def a_tidy_def)
  qed
qed

definition spec_read ::
  "bytes \<Rightarrow> u64 \<Rightarrow> bool \<Rightarrow> (astate \<Rightarrow> redis_object_result) \<Rightarrow> astate \<Rightarrow> redis_object_result \<times> astate" where
  "spec_read k now str rd A =
     (let A1 = a_tidy k now A in (if a_obj A1 k = None \<and> str then WrongType else rd A1, A1))"

definition spec_visit ::
  "bytes \<Rightarrow> u64 \<Rightarrow> bool \<Rightarrow> (astate \<Rightarrow> 'e list \<times> read_outcome) \<Rightarrow> astate \<Rightarrow> ('e list \<times> read_outcome) \<times> astate" where
  "spec_visit k now str rd A =
     (let A1 = a_tidy k now A; (items, outcome) = rd A1
      in ((items, if outcome = Missing then no_object str else outcome), A1))"

locale bucket_read =
  fixes E :: "('h, 't) env" and key :: bytes and op :: "('h, 't) bucket \<Rightarrow> 'r option" and rd :: "astate \<Rightarrow> 'r"
  assumes reading: "env_ok E \<Longrightarrow> reads E op rd"
    and local: "local_read key rd"
begin

lemma read_at:
  assumes "env_ok E" "store_inv E place S" "\<And>x. place x < length (shards S)"
  shows "op (bucket_of E place S key) = Some (rd (store_abs E place S))"
proof -
  have "rd (bucket_abs E (bucket_of E place S key)) = rd (store_abs E place S)"
    using local eq_at_store [of key E place S] unfolding local_read_def by blast
  with reading [OF assms(1)] bucket_of_read(2) [OF assms(2,3), of key] show ?thesis by (simp add: reads_def)
qed

end

locale routed_read = bucket_read E key op rd
  for E :: "('h, 't) env" and key :: bytes and op :: "('h, 't) bucket \<Rightarrow> redis_object_result option" and rd
begin

lemma routed:
  assumes E: "env_ok E" and S: "store_inv E place S" and pl: "\<And>x. place x < length (shards S)" and r: "placed E place S key route"
  shows "\<exists>res S'. object_read_routed E route key now str op S = Some (res, S') \<and> store_inv E place S' \<and>
    length (shards S') = length (shards S) \<and> spec_read key now str rd (store_abs E place S) = (res, store_abs E place S')"
proof -
  let ?over = "a_over (store_abs E place S) key now"
  obtain S' where S': "tidy_before_read E route key now (bucket_of E place S key) S = Some (?over, S')" "store_inv E place S'"
    "length (shards S') = length (shards S)" "store_abs E place S' = a_tidy key now (store_abs E place S)" "\<not> ?over \<Longrightarrow> S' = S"
    using tidy_law [OF E S pl r, of now] by blast
  have pl': "\<And>x. place x < length (shards S')" using pl S'(3) by simp
  have rd: "read_bucket (shard_id route) (key_hash route) S = Some (bucket_of E place S key)"
    "read_bucket (shard_id route) (key_hash route) S' = Some (bucket_of E place S' key)"
    using r bucket_of_read(1) [OF S pl, of key] bucket_of_read(1) [OF S'(2) pl', of key] by (simp_all add: placed_def)
  note ops = read_at [OF E S pl] read_at [OF E S'(2) pl']
  show ?thesis
  proof (cases ?over)
    case True
    then have "a_obj (store_abs E place S') key = None" by (simp add: S'(4) a_tidy_def a_del_def)
    with True S'(1-4) rd ops show ?thesis by (auto simp: object_read_routed_def spec_read_def Let_def)
  next
    case False
    have "contains_object E (bucket_of E place S key) key \<longleftrightarrow> a_obj (store_abs E place S) key \<noteq> None"
      using contains_has_obj [OF E bucket_of_read(2) [OF S pl]] by (simp add: has_obj_def store_abs_def)
    with False S' rd ops show ?thesis by (auto simp: object_read_routed_def spec_read_def Let_def)
  qed
qed

end

locale routed_visit = bucket_read E key op rd
  for E :: "('h, 't) env" and key :: bytes and op :: "('h, 't) bucket \<Rightarrow> ('e list \<times> read_outcome) option" and rd +
  assumes missing: "a_obj A key = None \<Longrightarrow> rd A = ([], Missing)"
begin

lemma routed:
  assumes E: "env_ok E" and S: "store_inv E place S" and pl: "\<And>x. place x < length (shards S)" and r: "placed E place S key route"
  shows "\<exists>res S'. object_read_routed_visit E route key now str op S = Some (res, S') \<and> store_inv E place S' \<and>
    length (shards S') = length (shards S) \<and> spec_visit key now str rd (store_abs E place S) = (res, store_abs E place S')"
proof (cases "object_count (shards S ! place key) \<le> 0")
  case True
  let ?b = "bucket_of E place S key"
  have sh: "shard_ok E place 0 (place key) (shards S ! place key)" using S pl by (simp add: store_ok_def)
  then have "?b \<in> set (buckets (shards S ! place key))"
    using bucket_index_less [of "hash_key E key"] by (auto simp: bucket_of_def shard_ok_def)
  from no_objects(1) [OF E sh True this] have none: "a_obj (store_abs E place S) key = None" by (simp add: store_abs_def)
  then have "\<not> a_over (store_abs E place S) key now"
    using a_expired_obj [OF bucket_of_read(2) [OF S pl, of key], where k = key and now = now] eq_at_store [of key E place S]
    by (auto simp: a_over_def eq_at_def a_expired_def)
  with none True S pl r show ?thesis
    by (auto simp: object_read_routed_visit_def spec_visit_def missing a_tidy_def shard_has_objects_def
        shard_object_count_hint_def placed_def shard_atI)
next
  case False
  let ?over = "a_over (store_abs E place S) key now"
  obtain S' where S': "tidy_before_read E route key now (bucket_of E place S key) S = Some (?over, S')" "store_inv E place S'"
    "length (shards S') = length (shards S)" "store_abs E place S' = a_tidy key now (store_abs E place S)" "\<not> ?over \<Longrightarrow> S' = S"
    using tidy_law [OF E S pl r, of now] by blast
  have there: "shard_has_objects (shard_id route) S = Some True"
    using False r by (simp add: shard_has_objects_def shard_object_count_hint_def placed_def shard_atI)
  have rd: "read_bucket (shard_id route) (key_hash route) S = Some (bucket_of E place S key)"
    using r bucket_of_read(1) [OF S pl, of key] by (simp add: placed_def)
  have gone: "a_obj (a_tidy key now (store_abs E place S)) key = None" if ?over using that by (simp add: a_tidy_def a_del_def)
  show ?thesis
    using S' there rd gone read_at [OF E S pl]
    by (cases ?over) (auto simp: object_read_routed_visit_def spec_visit_def missing Let_def a_tidy_def split: prod.split)
qed

end

section \<open>The whole store\<close>

text \<open>The shard of a key, and the invariant: the routing sends every key to a shard of the store.\<close>

definition home :: "('h, 't) env \<Rightarrow> embedded_route_mode \<Rightarrow> nat \<Rightarrow> bytes \<Rightarrow> nat" where
  "home E mode n key = shard_id (compute_key_route (hash_key E) mode (64 - n) key)"

definition embedded_ok :: "('h, 't) env \<Rightarrow> embedded_route_mode \<Rightarrow> nat \<Rightarrow> ('h, 't) embedded \<Rightarrow> bool" where
  "embedded_ok E mode n D \<longleftrightarrow>
     n < 64 \<and> route_mode D = mode \<and> shift D = 64 - n \<and> length (shards (objects D)) = 2 ^ n \<and>
     store_inv E (home E mode n) (objects D)"

definition embedded_abs :: "('h, 't) env \<Rightarrow> ('h, 't) embedded \<Rightarrow> astate" where
  "embedded_abs E D = store_abs E (\<lambda>k. shard_id (route_key E D k)) (objects D)"

lemma embedded_route:
  assumes "embedded_ok E mode n D"
  shows "\<And>x. home E mode n x < length (shards (objects D))" "placed E (home E mode n) (objects D) k (route_key E D k)"
    "route_prehashed E D (hash_key E k) k = route_key E D k" "embedded_abs E D = store_abs E (home E mode n) (objects D)"
  using assms route_bound [of n "hash_key E" mode] prehashed_route [of n "hash_key E" mode k]
  by (auto simp: embedded_ok_def home_def [abs_def] placed_def route_key_def route_prehashed_def embedded_abs_def)

text \<open>A step of the objects is a step of the embedded store.\<close>

lemma with_objects_ok:
  assumes D: "embedded_ok E mode n D" and step: "f (objects D) = Some (res, S')" and S': "store_inv E (home E mode n) S'"
    "length (shards S') = length (shards (objects D))" "sp (store_abs E (home E mode n) (objects D)) = (res, store_abs E (home E mode n) S')"
  shows "\<exists>D'. map_option (with_objects D) (f (objects D)) = Some (res, D') \<and> embedded_ok E mode n D' \<and>
    sp (embedded_abs E D) = (res, embedded_abs E D')"
proof -
  let ?D = "D\<lparr>objects := S'\<rparr>"
  have "embedded_ok E mode n ?D" using D S' by (simp add: embedded_ok_def)
  with step S'(3) embedded_route(4) [OF D] embedded_route(4) [of E mode n ?D] show ?thesis by (simp add: with_objects_def)
qed

lemma embedded_new_ok:
  assumes "env_ok E" "n < 64"
  shows "\<exists>D. embedded_new E (2 ^ n) mode = Some D \<and> embedded_ok E mode n D \<and>
    embedded_abs E D = \<lparr>a_obj = Map.empty, a_ttl = Map.empty, a_fttl = (\<lambda>_. Map.empty)\<rparr>"
proof -
  let ?D = "\<lparr>route_mode = mode, shift = 64 - n, objects = store_new E (2 ^ n)\<rparr>"
  have len: "length (shards (store_new E (2 ^ n))) = 2 ^ n" by (simp add: store_new_def)
  have ok: "embedded_ok E mode n ?D" using assms len by (simp add: embedded_ok_def store_new_inv)
  have "bucket_of E (home E mode n) (store_new E (2 ^ n)) k = bucket_default E" for k
    using route_bound [OF assms(2), of "hash_key E" mode k] bucket_index_less [of "hash_key E k"]
    by (simp add: bucket_of_def store_new_def shard_new_def home_def)
  then have "embedded_abs E ?D = \<lparr>a_obj = Map.empty, a_ttl = Map.empty, a_fttl = (\<lambda>_. Map.empty)\<rparr>"
    unfolding embedded_route(4) [OF ok] by (simp add: store_abs_def bucket_abs_default [OF assms(1)] del: a_ttl_abs a_fttl_abs)
  moreover have "embedded_new E (2 ^ n) mode = Some ?D"
    using assms(2) by (simp add: embedded_new_def assert_valid_shard_count_def power_of_two shift_for_power)
  ultimately show ?thesis using ok by blast
qed

text \<open>A notification changes the generation of one shard, and nothing that commands see.\<close>

lemma put_generation:
  fixes g :: u64
  assumes "store_ok E place owed S" "sid < length (shards S)"
  defines "S' \<equiv> put_shard sid ((shards S ! sid)\<lparr>wait_generation := g\<rparr>) S"
  shows "store_ok E place owed S'" "length (shards S') = length (shards S)" "store_abs E place S' = store_abs E place S"
proof -
  have at: "object_count (shards S' ! i) = object_count (shards S ! i)" "buckets (shards S' ! i) = buckets (shards S ! i)" for i
    using assms(2) by (simp_all add: S'_def put_shard_def nth_list_update)
  show len: "length (shards S') = length (shards S)" by (simp add: S'_def put_shard_def)
  have hint: "has_objects_hint S' = has_objects_hint S" by (simp add: S'_def put_shard_def)
  show "store_ok E place owed S'"
    using assms(1) unfolding store_ok_def shard_ok_def at len hint by (metis at(1) in_set_conv_nth len)
  show "store_abs E place S' = store_abs E place S" by (simp add: store_abs_def bucket_of_def at)
qed

lemma notify_key_ok:
  assumes D: "embedded_ok E mode n D"
  shows "\<exists>D'. notify_redis_object_key E key D = Some D' \<and> embedded_ok E mode n D' \<and> embedded_abs E D' = embedded_abs E D \<and>
    (\<forall>i < length (shards (objects D)). wait_generation (shards (objects D') ! i) =
       wait_generation (shards (objects D) ! i) + of_bool (i = shard_id (route_key E D key)))"
proof -
  let ?sid = "shard_id (route_key E D key)" and ?S = "objects D"
  have sid: "?sid < length (shards ?S)" using embedded_route(2) [OF D, of key] by (simp add: placed_def)
  have S: "store_inv E (home E mode n) ?S" using D by (simp add: embedded_ok_def)
  let ?S' = "put_shard ?sid ((shards ?S ! ?sid)\<lparr>wait_generation := wait_generation (shards ?S ! ?sid) + 1\<rparr>) ?S"
  note put = put_generation [OF S sid]
  have ok: "embedded_ok E mode n (D\<lparr>objects := ?S'\<rparr>)" using D put by (simp add: embedded_ok_def)
  have "notify_redis_object_key E key D = Some (D\<lparr>objects := ?S'\<rparr>)"
    using sid by (simp add: notify_redis_object_key_def notify_shard_waiters_def shard_atI)
  moreover have "embedded_abs E (D\<lparr>objects := ?S'\<rparr>) = embedded_abs E D"
    unfolding embedded_route(4) [OF ok] embedded_route(4) [OF D] using put(3) by simp
  ultimately show ?thesis using ok sid by (simp add: put_shard_def nth_list_update)
qed

end
