(* ===== verification/Commands.thy ===== *)
theory Commands
  imports Access
begin

text \<open>
  The object commands of \<^verbatim>\<open>EmbeddedStore\<close> (\<^verbatim>\<open>embedded_store/objects/\<close>: \<^verbatim>\<open>lists.rs\<close>, \<^verbatim>\<open>hashes.rs\<close>, \<^verbatim>\<open>sets.rs\<close> and
  \<^verbatim>\<open>zsets.rs\<close>), each of which runs a bucket command through the router of \<^verbatim>\<open>access.rs\<close>, and the theorem about
  all of them: any sequence of commands on the sharded store gives the replies, and ends in the state, of the same sequence
  on one abstract state.

  The names carry the prefix \<open>es_\<close>, because the bucket commands have the names of the source already. \<open>now\<close> is the clock
  reading of the router, \<open>c\<close>, \<open>c1\<close> and \<open>c2\<close> are other clock readings of the command.
\<close>

section \<open>Lists\<close>

definition values_available_after_push :: "redis_object_result \<Rightarrow> bool" where
  "values_available_after_push result = (case result of Integer n \<Rightarrow> 0 < n | _ \<Rightarrow> False)"

definition notify_when ::
  "('h, 't) env \<Rightarrow> bytes \<Rightarrow> (redis_object_result \<Rightarrow> bool) \<Rightarrow> redis_object_result \<times> ('h, 't) embedded \<Rightarrow>
   (redis_object_result \<times> ('h, 't) embedded) option" where
  "notify_when E key available = (\<lambda>(result, D).
     if available result then map_option (Pair result) (notify_redis_object_key E key D) else Some (result, D))"

definition es_push_list_hashed ::
  "('h, 't) env \<Rightarrow> u64 \<Rightarrow> bytes \<Rightarrow> bytes list \<Rightarrow> bool \<Rightarrow> u64 \<Rightarrow> bool \<Rightarrow> ('h, 't) embedded \<Rightarrow>
   (redis_object_result \<times> ('h, 't) embedded) option" where
  "es_push_list_hashed E hash key values front now str D = do {
     r \<leftarrow> object_create_hashed E hash key now str
       (\<lambda>h. push_list_existing_or_wrongtype_hashed E h key values front)
       (\<lambda>h. push_list_new_unchecked_hashed E h key values front) D;
     notify_when E key values_available_after_push r
   }"

definition es_lpush where
  "es_lpush E key values now str D = es_push_list_hashed E (hash_key E key) key values True now str D"

definition es_rpush where
  "es_rpush E key values now str D = es_push_list_hashed E (hash_key E key) key values False now str D"

text \<open>\<open>c\<close> is the clock reading before the presence of the list is tested, \<open>now\<close> that of the write.\<close>

definition es_push_list_existing_hashed ::
  "('h, 't) env \<Rightarrow> u64 \<Rightarrow> bytes \<Rightarrow> bytes list \<Rightarrow> bool \<Rightarrow> u64 \<Rightarrow> u64 \<Rightarrow> bool \<Rightarrow> ('h, 't) embedded \<Rightarrow>
   (redis_object_result \<times> ('h, 't) embedded) option" where
  "es_push_list_existing_hashed E hash key values front c now str D =
     (if values = [] then Some (Integer 0, D)
      else let route = route_prehashed E D hash key; absent = (if str then WrongType else Integer 0)
           in do {
             objects_there \<leftarrow> shard_has_objects (shard_id route) (objects D);
             if \<not> objects_there then Some (absent, D)
             else do {
               b \<leftarrow> read_bucket (shard_id route) (key_hash route) (objects D);
               if has_expirations b \<and> object_is_expired b key c
               then let (gone, b1) = delete_expired E key c b;
                        S1 = write_bucket (shard_id route) (key_hash route) b1 (objects D)
                    in do {
                      S2 \<leftarrow> (if gone then note_deleted (shard_id route) S1 else Some S1);
                      Some (absent, D\<lparr>objects := S2\<rparr>)
                    }
               else case list_presence_hashed E b (key_hash route) key of
                      Missing \<Rightarrow> Some (absent, D)
                    | WrongTypeOutcome \<Rightarrow> Some (WrongType, D)
                    | Written \<Rightarrow> do {
                        r \<leftarrow> object_write_hashed E hash key now str (push_list_existing_hashed E hash key values front) D;
                        notify_when E key values_available_after_push r
                      }
             }
           })"

definition es_lpushx where
  "es_lpushx E key values c now str D = es_push_list_existing_hashed E (hash_key E key) key values True c now str D"

definition es_rpushx where
  "es_rpushx E key values c now str D = es_push_list_existing_hashed E (hash_key E key) key values False c now str D"

definition es_lpop where
  "es_lpop E key now str D = object_write E key now str (pop_list E key True) D"

definition es_rpop where
  "es_rpop E key now str D = object_write E key now str (pop_list E key False) D"

definition es_lpop_count where
  "es_lpop_count E key n now str D = object_write E key now str (pop_list_count E key n True) D"

definition es_rpop_count where
  "es_rpop_count E key n now str D = object_write E key now str (pop_list_count E key n False) D"

definition es_lset where
  "es_lset E key index value now str D = object_write E key now str (lset E key index value) D"

definition es_lrem where
  "es_lrem E key n value now str D = object_write E key now str (lrem E key n value) D"

definition es_ltrim where
  "es_ltrim E key start stop now str D = object_write E key now str (ltrim E key start stop) D"

definition es_linsert where
  "es_linsert E key before pivot value now str D = object_write E key now str (linsert E key before pivot value) D"

definition es_llen where
  "es_llen E key now str D = object_read E key now str (llen E key) D"

definition es_llen_visit where
  "es_llen_visit E key now str D = object_read_hashed_visit E (hash_key E key) key now str (llen_visit E key) D"

definition es_lindex where
  "es_lindex E key index now str D = object_read E key now str (lindex E key index) D"

definition es_lindex_visit where
  "es_lindex_visit E key index now str D = object_read_hashed_visit E (hash_key E key) key now str (lindex_visit E key index) D"

definition es_lpos_visit where
  "es_lpos_visit E key element rank wanted maxlen now str D =
     object_read_hashed_visit E (hash_key E key) key now str (lpos_visit E key element rank wanted maxlen) D"

definition es_lrange where
  "es_lrange E key start stop now str D = object_read E key now str (lrange E key start stop) D"

definition es_lrange_visit where
  "es_lrange_visit E key start stop now str D =
     object_read_hashed_visit E (hash_key E key) key now str (lrange_visit E key start stop) D"

section \<open>Hashes\<close>

definition es_hset_hashed ::
  "('h, 't) env \<Rightarrow> u64 \<Rightarrow> bytes \<Rightarrow> bytes \<Rightarrow> bytes \<Rightarrow> u64 \<Rightarrow> u64 \<Rightarrow> bool \<Rightarrow> ('h, 't) embedded \<Rightarrow>
   (redis_object_result \<times> ('h, 't) embedded) option" where
  "es_hset_hashed E hash key field value c now str D =
     object_create_hashed E hash key now str
       (\<lambda>h. hset_existing_or_wrongtype_hashed E h key field value c)
       (\<lambda>h. hset_new_unchecked_hashed E h key field value) D"

definition es_hset where
  "es_hset E key field value c now str D = es_hset_hashed E (hash_key E key) key field value c now str D"

definition es_hset_many where
  "es_hset_many E key fvs c now str D = object_write E key now str (hset_many E key fvs c) D"

definition es_hget where
  "es_hget E key field c now str D = object_read E key now str (hget E key field c) D"

definition es_hexists where
  "es_hexists E key field c now str D = object_read E key now str (hexists E key field c) D"

definition es_hdel where
  "es_hdel E key field c now str D = object_write E key now str (hdel E key field c) D"

definition es_hdel_many where
  "es_hdel_many E key fs c now str D = object_write E key now str (hdel_many E key fs c) D"

definition es_hgetdel where
  "es_hgetdel E key fs c now str D = object_write E key now str (hash_field_getdel E key fs c) D"

definition es_hgetex where
  "es_hgetex E key fs action c now str D = object_write E key now str (hash_field_getex E key fs action c) D"

definition es_hsetex where
  "es_hsetex E key fvs condition action c now str D = object_write E key now str (hash_field_setex E key fvs condition action c) D"

definition es_hlen where
  "es_hlen E key c now str D = object_read E key now str (hlen E key c) D"

definition es_hmget where
  "es_hmget E key fs c now str D = object_read E key now str (hmget E key fs c) D"

definition es_hmget_visit where
  "es_hmget_visit E key fs c now str D = object_read_hashed_visit E (hash_key E key) key now str (hmget_visit E key fs c) D"

definition es_hkeys where
  "es_hkeys E key c now str D = object_read E key now str (hkeys E key c) D"

definition es_hvals where
  "es_hvals E key c now str D = object_read E key now str (hvals E key c) D"

definition es_hkeys_visit where
  "es_hkeys_visit E key c now str D = object_read_hashed_visit E (hash_key E key) key now str (hkeys_visit E key c) D"

definition es_hvals_visit where
  "es_hvals_visit E key c now str D = object_read_hashed_visit E (hash_key E key) key now str (hvals_visit E key c) D"

definition es_hgetall where
  "es_hgetall E key c now str D = object_read E key now str (hgetall E key c) D"

definition es_hgetall_visit where
  "es_hgetall_visit E key c now str D = object_read_hashed_visit E (hash_key E key) key now str (hgetall_visit E key c) D"

definition es_hsetnx where
  "es_hsetnx E key field value c now str D = object_write E key now str (hsetnx E key field value c) D"

definition es_hincrby where
  "es_hincrby E key field delta c1 c2 now str D = object_write E key now str (hincrby E key field delta c1 c2) D"

definition es_hincrbyfloat where
  "es_hincrbyfloat E key field delta c1 c2 now str D = object_write E key now str (hincrbyfloat E key field delta c1 c2) D"

definition es_hrandfield where
  "es_hrandfield E key wanted with_values c now str D = object_read E key now str (hrandfield E key wanted with_values c) D"

definition es_hash_field_expire where
  "es_hash_field_expire E key fs at_ms cond c now str D = object_write E key now str (hash_field_expire E key fs at_ms cond c) D"

definition es_hash_field_ttl_query where
  "es_hash_field_ttl_query E key fs as_millis absolute c now str D = object_read E key now str (hash_field_ttl_query E key fs as_millis absolute c) D"

definition es_hash_field_persist where
  "es_hash_field_persist E key fs c now str D = object_write E key now str (hash_field_persist E key fs c) D"

section \<open>Sets\<close>

definition es_sadd_hashed ::
  "('h, 't) env \<Rightarrow> u64 \<Rightarrow> bytes \<Rightarrow> bytes list \<Rightarrow> u64 \<Rightarrow> bool \<Rightarrow> ('h, 't) embedded \<Rightarrow>
   (redis_object_result \<times> ('h, 't) embedded) option" where
  "es_sadd_hashed E hash key members now str D =
     object_create_hashed E hash key now str
       (\<lambda>h. sadd_existing_or_wrongtype_hashed E h key members)
       (\<lambda>h. sadd_new_unchecked_hashed E h key members) D"

definition es_sadd where
  "es_sadd E key members now str D = es_sadd_hashed E (hash_key E key) key members now str D"

definition es_srem where
  "es_srem E key members now str D = object_write E key now str (srem E key members) D"

definition es_sismember where
  "es_sismember E key member now str D = object_read E key now str (sismember E key member) D"

definition es_smismember where
  "es_smismember E key members now str D = object_read E key now str (smismember E key members) D"

definition es_scard where
  "es_scard E key now str D = object_read E key now str (scard E key) D"

definition es_smembers where
  "es_smembers E key now str D = object_read E key now str (smembers E key) D"

definition es_smembers_visit where
  "es_smembers_visit E key now str D = object_read_hashed_visit E (hash_key E key) key now str (smembers_visit E key) D"

text \<open>
  \<^verbatim>\<open>set_members\<close> and \<^verbatim>\<open>zentries\<close> read the bucket without the router: no clock is read, and an error is \<^term>\<open>Inl ()\<close>.
\<close>

definition es_unrouted_read ::
  "('h, 't) env \<Rightarrow> bytes \<Rightarrow> bool \<Rightarrow> (('h, 't) bucket \<Rightarrow> (unit + 'v) option) \<Rightarrow> ('h, 't) embedded \<Rightarrow> (unit + 'v) option" where
  "es_unrouted_read E key str op D = do {
     b \<leftarrow> read_bucket (shard_id (route_key E D key)) (key_hash (route_key E D key)) (objects D);
     result \<leftarrow> op b;
     Some (if isl result \<or> contains_object E b key then result else if str then Inl () else result)
   }"

definition es_set_members :: "('h, 't) env \<Rightarrow> bytes \<Rightarrow> bool \<Rightarrow> ('h, 't) embedded \<Rightarrow> (unit + bytes list) option" where
  "es_set_members E key str D = es_unrouted_read E key str (set_members E key) D"

definition es_spop where
  "es_spop E key wanted now str D = object_write E key now str (spop E key wanted) D"

definition es_srandmember where
  "es_srandmember E key wanted now str D = object_read E key now str (srandmember E key wanted) D"

definition es_srandmember_positive_visit where
  "es_srandmember_positive_visit E key requested now str D = object_read_hashed_visit E (hash_key E key) key now str (srandmember_positive_visit E key requested) D"

section \<open>Sorted sets\<close>

definition values_available_after_zadd :: "redis_object_result \<Rightarrow> bool" where
  "values_available_after_zadd result =
     (case result of Integer n \<Rightarrow> 0 < n | Bulk (Some _) \<Rightarrow> True | _ \<Rightarrow> False)"

definition es_zadd_hashed ::
  "('h, 't) env \<Rightarrow> u64 \<Rightarrow> bytes \<Rightarrow> f64 \<Rightarrow> bytes \<Rightarrow> u64 \<Rightarrow> bool \<Rightarrow> ('h, 't) embedded \<Rightarrow>
   (redis_object_result \<times> ('h, 't) embedded) option" where
  "es_zadd_hashed E hash key score member now str D = do {
     r \<leftarrow> object_create_hashed E hash key now str
       (\<lambda>h. zadd_existing_or_wrongtype_hashed E h key score member)
       (\<lambda>h. zadd_new_unchecked_hashed E h key score member) D;
     notify_when E key values_available_after_zadd r
   }"

definition es_zadd where
  "es_zadd E key score member now str D = es_zadd_hashed E (hash_key E key) key score member now str D"

definition es_zadd_cond where
  "es_zadd_cond E key score member nx xx gt lt ch incr now str D = do {
     r \<leftarrow> object_write E key now str (zadd_cond E key score member nx xx gt lt ch incr) D;
     notify_when E key values_available_after_zadd r
   }"

definition es_zincrby where
  "es_zincrby E key delta member now str D = do {
     r \<leftarrow> object_write E key now str (zincrby E key delta member) D;
     notify_when E key values_available_after_zadd r
   }"

definition es_zrem where
  "es_zrem E key member now str D = object_write E key now str (zrem E key member) D"

definition es_zrem_many where
  "es_zrem_many E key members now str D = object_write E key now str (zrem_many E key members) D"

definition es_zscore where
  "es_zscore E key member now str D = object_read E key now str (zscore E key member) D"

text \<open>A read that keeps the value a visit hands over.\<close>

definition value_of_visit :: "'v \<Rightarrow> ('v list \<times> read_outcome) \<times> 'd \<Rightarrow> (unit + 'v) \<times> 'd" where
  "value_of_visit dflt = (\<lambda>((items, outcome), D).
     (case outcome of
        Written \<Rightarrow> Inr (case items of [] \<Rightarrow> dflt | _ \<Rightarrow> last items)
      | Missing \<Rightarrow> Inr dflt
      | WrongTypeOutcome \<Rightarrow> Inl (), D))"

definition es_zscore_value where
  "es_zscore_value E key member now str D =
     map_option (value_of_visit None) (object_read_hashed_visit E (hash_key E key) key now str (zscore_visit E key member) D)"

definition es_zmscore where
  "es_zmscore E key members now str D = object_read E key now str (zmscore E key members) D"

definition es_zcard where
  "es_zcard E key now str D = object_read E key now str (zcard E key) D"

definition es_zrange where
  "es_zrange E key start stop now str D = object_read E key now str (zrange E key start stop) D"

definition es_zrange_entries_visit where
  "es_zrange_entries_visit E key start stop rv now str D = object_read_hashed_visit E (hash_key E key) key now str (zrange_entries_visit E key start stop rv) D"

definition es_zentries :: "('h, 't) env \<Rightarrow> bytes \<Rightarrow> bool \<Rightarrow> ('h, 't) embedded \<Rightarrow> (unit + (bytes \<times> f64) list) option" where
  "es_zentries E key str D = es_unrouted_read E key str (zentries E key) D"

definition es_zrank where
  "es_zrank E key member rv now str D = object_read E key now str (zrank E key member rv) D"

definition es_zrank_value where
  "es_zrank_value E key member rv now str D =
     map_option (value_of_visit None) (object_read_hashed_visit E (hash_key E key) key now str (zrank_visit E key member rv) D)"

definition es_zcount where
  "es_zcount E key lo hi now str D = object_read E key now str (zcount E key lo hi) D"

definition es_zcount_range where
  "es_zcount_range E key lo lo_incl hi hi_incl now str D =
     map_option (value_of_visit 0)
       (object_read_hashed_visit E (hash_key E key) key now str (zcount_range_visit E key lo lo_incl hi hi_incl) D)"

definition es_zpop where
  "es_zpop E key n hi_end now str D = object_write E key now str (zpop E key n hi_end) D"

section \<open>Specifications that look at one key only\<close>

definition out_at :: "bytes \<Rightarrow> redis_object_result \<times> bool \<times> astate \<Rightarrow> redis_object_result \<times> bool \<times> astate \<Rightarrow> bool" where
  "out_at k x y \<longleftrightarrow> fst x = fst y \<and> fst (snd x) = fst (snd y) \<and> eq_at k (snd (snd x)) (snd (snd y))"

lemma local_writeI:
  assumes "\<And>A B. eq_at k A B \<Longrightarrow> a_obj A k = a_obj B k \<Longrightarrow> a_fttl A k = a_fttl B k \<Longrightarrow> out_at k (spec A) (spec B)"
  shows "local_write k spec"
  unfolding local_write_def
proof (intro allI impI)
  fix A B assume AB: "eq_at k A B"
  then have "a_obj A k = a_obj B k" "a_fttl A k = a_fttl B k" unfolding eq_at_def by blast+
  from assms [OF AB this] show "fst (spec A) = fst (spec B) \<and> fst (snd (spec A)) = fst (snd (spec B)) \<and>
      eq_at k (snd (snd (spec A))) (snd (snd (spec B)))" unfolding out_at_def .
qed

lemma local_writeE: "local_write k spec \<Longrightarrow> eq_at k A B \<Longrightarrow> out_at k (spec A) (spec B)"
  by (simp add: local_write_def out_at_def)

lemma eq_at_changes:
  assumes "eq_at k A B"
  shows "eq_at k (a_put k v A) (a_put k v B)" "eq_at k (a_del k A) (a_del k B)" "eq_at k (a_at k ob t ft A) (a_at k ob t ft B)"
    "eq_at k (a_hash k m ft A) (a_hash k m ft B)" "eq_at k (obj_left k emptied v A) (obj_left k emptied v B)"
    "eq_at k (hash_left k m ft A) (hash_left k m ft B)"
  using assms by (auto simp: eq_at_def a_put_def a_del_def a_at_def a_hash_def obj_left_def hash_left_def)

lemma eq_at_purge: "eq_at k A B \<Longrightarrow> eq_at k (a_purge k now A) (a_purge k now B)"
  by (auto simp: eq_at_def a_purge_def a_dead_def a_hash_def a_at_def split: option.split robj.split)

lemma eq_at_reap: "eq_at k A B \<Longrightarrow> eq_at k (snd (a_reap k now A)) (snd (a_reap k now B))"
  using eq_at_purge [of k A B now] by (auto simp: eq_at_def a_reap_def a_del_def Let_def)

lemma out_at_pair [simp]: "out_at k (r, fl, A) (r', fl', B) \<longleftrightarrow> r = r' \<and> fl = fl' \<and> eq_at k A B"
  by (simp add: out_at_def)

lemma out_read:
  assumes "a_obj A k = a_obj B k" "out_at k (d A) (d B)" "out_at k (w A) (w B)" "\<And>v. out_at k (f A v) (f B v)"
  shows "out_at k (read_obj proj k (d A) (w A) (f A) A) (read_obj proj k (d B) (w B) (f B) B)"
  using assms by (auto simp: read_obj_def split: option.split)

lemma out_on:
  assumes "eq_at k A B" "\<And>v. out_at k (f A v) (f B v)"
  shows "out_at k (on_obj proj k dflt (f A) A) (on_obj proj k dflt (f B) B)"
  unfolding on_obj_def by (rule out_read) (use assms in \<open>auto simp: eq_at_def\<close>)

lemma local_on:
  assumes "\<And>A B v. eq_at k A B \<Longrightarrow> a_fttl A k = a_fttl B k \<Longrightarrow> out_at k (f A v) (f B v)"
  shows "local_write k (\<lambda>A. on_obj proj k dflt (f A) A)"
  by (rule local_writeI, rule out_on) (simp_all add: assms)

lemma local_same: "local_write k (\<lambda>A. (r, fl, A))"
  by (rule local_writeI) simp

lemma local_if: "local_write k f \<Longrightarrow> local_write k g \<Longrightarrow> local_write k (\<lambda>A. if c then f A else g A)"
  by (cases c) simp_all

lemma local_after_purge: "local_write k spec \<Longrightarrow> local_write k (\<lambda>A. spec (a_purge k now A))"
  by (rule local_writeI) (auto dest: local_writeE eq_at_purge)

lemma local_read_obj: "local_read k (read_obj proj k d w f)"
  by (simp add: local_read_def read_obj_def eq_at_def)

lemma local_read_live: "local_read k (read_live k now d w f)"
proof -
  have "read_live k now d w f A = read_live k now d w f B" if "eq_at k A B" for A B
    using eq_at_live [OF that, of now] that by (simp add: read_live_def read_obj_def eq_at_def)
  then show ?thesis by (simp add: local_read_def)
qed

named_theorems local_specs

lemmas spec_local_simps = eq_at_changes Let_def

lemma list_specs_local [local_specs]:
  "local_write k (spec_push_existing k vs front)" "local_write k (spec_pop_list k front)"
  "local_write k (spec_pop_list_count k n front)" "local_write k (spec_lset k index v)"
  "local_write k (spec_lrem k m v)" "local_write k (spec_ltrim k start stop)"
  "local_write k (spec_linsert k before pivot v)" "local_write k (spec_push k vs front)"
proof -
  show "local_write k (spec_push_existing k vs front)"
    unfolding spec_push_existing_def [abs_def] by (rule local_if [OF local_same local_on]) (simp add: spec_local_simps)
  show "local_write k (spec_pop_list k front)"
    unfolding spec_pop_list_def [abs_def] by (rule local_on) (simp add: spec_local_simps)
  show "local_write k (spec_pop_list_count k n front)"
    unfolding spec_pop_list_count_def [abs_def] by (rule local_if [OF local_same local_on]) (simp add: spec_local_simps)
  show "local_write k (spec_lset k index v)"
    unfolding spec_lset_def [abs_def] by (rule local_on) (simp add: spec_local_simps split: option.split)
  show "local_write k (spec_lrem k m v)"
    unfolding spec_lrem_def [abs_def] by (rule local_on) (simp add: spec_local_simps)
  show "local_write k (spec_ltrim k start stop)"
    unfolding spec_ltrim_def [abs_def] by (rule local_on) (simp add: spec_local_simps)
  show "local_write k (spec_linsert k before pivot v)"
    unfolding spec_linsert_def [abs_def] by (rule local_on) (simp add: spec_local_simps split: option.split)
  show "local_write k (spec_push k vs front)"
    unfolding spec_push_def [abs_def]
    by (rule local_writeI) (auto simp: spec_local_simps split: option.split robj.split)
qed

lemma set_specs_local [local_specs]:
  "local_write k (spec_sadd k ms)" "local_write k (spec_srem k ms)"
proof -
  show "local_write k (spec_sadd k ms)"
    unfolding spec_sadd_def [abs_def]
    by (rule local_writeI) (auto simp: spec_local_simps split: option.split robj.split)
  show "local_write k (spec_srem k ms)"
    unfolding spec_srem_def [abs_def] by (rule local_on) (simp add: spec_local_simps)
qed

lemma zadd_at_local: "eq_at k A B \<Longrightarrow> a_obj A k = a_obj B k \<Longrightarrow> out_at k (zadd_at k s m nx xx gt lt ch incr v A) (zadd_at k s m nx xx gt lt ch incr v B)"
  by (simp add: zadd_at_def spec_local_simps split: option.split)

lemma zset_specs_local [local_specs]:
  "local_write k (spec_zadd k s m)" "local_write k (spec_zadd_cond k s m nx xx gt lt ch incr)"
  "local_write k (spec_zrem k m)" "local_write k (spec_zrem_many k ms)" "local_write k (spec_zpop k n hi_end)"
proof -
  show "local_write k (spec_zadd k s m)"
    unfolding spec_zadd_def [abs_def]
    by (rule local_writeI) (auto simp: spec_local_simps split: option.split robj.split)
  show "local_write k (spec_zadd_cond k s m nx xx gt lt ch incr)"
    unfolding spec_zadd_cond_def [abs_def]
    by (rule local_writeI, rule out_read) (simp_all add: zadd_at_local)
  show "local_write k (spec_zrem k m)"
    unfolding spec_zrem_def [abs_def] by (rule local_on) (simp add: spec_local_simps)
  show "local_write k (spec_zrem_many k ms)"
    unfolding spec_zrem_many_def [abs_def] by (rule local_on) (simp add: spec_local_simps)
  show "local_write k (spec_zpop k n hi_end)"
    unfolding spec_zpop_def [abs_def] by (rule local_on) (simp add: spec_local_simps)
qed

lemma hset_local: "local_write k (spec_hset k f v)"
  unfolding spec_hset_def [abs_def] by (rule local_writeI, rule out_read) (simp_all add: spec_local_simps)

lemma hash_specs_local:
  "local_write k (spec_hset_many k fvs)" "local_write k (spec_hdel_many k F)" "local_write k (spec_hsetnx k f v)"
proof -
  show "local_write k (spec_hset_many k fvs)"
    unfolding spec_hset_many_def [abs_def] by (rule local_writeI, rule out_read) (simp_all add: spec_local_simps)
  show "local_write k (spec_hdel_many k F)"
    unfolding spec_hdel_many_def [abs_def] by (rule local_on) (simp add: spec_local_simps)
  show "local_write k (spec_hsetnx k f v)"
    unfolding spec_hsetnx_def [abs_def] by (rule local_writeI, rule out_read) (simp_all add: spec_local_simps fun_upd_def)
qed

lemma current_local: "a_obj A k = a_obj B k \<Longrightarrow> spec_current parse k f A = spec_current parse k f B"
  by (simp add: spec_current_def read_obj_def)

lemma out_reply: "out_at k z y \<Longrightarrow> out_at k (case z of (r, x) \<Rightarrow> (g r, x)) (case y of (r, x) \<Rightarrow> (g r, x))"
  by (auto simp: out_at_def split: prod.split)

lemma hset_reply_local:
  "eq_at k A B \<Longrightarrow> out_at k (case spec_hset k f v (a_purge k now A) of (r, x) \<Rightarrow> (g r, x))
     (case spec_hset k f v (a_purge k now B) of (r, x) \<Rightarrow> (g r, x))"
  by (rule out_reply, rule local_writeE [OF hset_local], rule eq_at_purge)

lemma hincr_specs_local:
  "local_write k (spec_hincrby k f delta now)" "local_write k (spec_hincrbyfloat k f d now)"
proof -
  show "local_write k (spec_hincrby k f delta now)"
  proof (rule local_writeI)
    fix A B assume AB: "eq_at k A B" "a_obj A k = a_obj B k"
    show "out_at k (spec_hincrby k f delta now A) (spec_hincrby k f delta now B)"
      unfolding spec_hincrby_def current_local [OF AB(2)]
      by (auto simp: AB(1) hset_reply_local [OF AB(1)] split: option.split sum.split)
  qed
  show "local_write k (spec_hincrbyfloat k f d now)"
  proof (rule local_writeI)
    fix A B assume AB: "eq_at k A B" "a_obj A k = a_obj B k"
    show "out_at k (spec_hincrbyfloat k f d now A) (spec_hincrbyfloat k f d now B)"
      unfolding spec_hincrbyfloat_def current_local [OF AB(2)] Let_def
      by (auto simp: AB(1) hset_reply_local [OF AB(1)] split: option.split sum.split)
  qed
qed

lemma hset_many_at_local: "local_write k (spec_hset_many_at k fvs now)"
  unfolding spec_hset_many_at_def [abs_def]
  by (rule local_if [OF local_same]) (rule local_after_purge [OF hash_specs_local(1)])

lemmas purged_specs_local [local_specs] =
  local_after_purge [OF hset_local] hset_many_at_local local_after_purge [OF hash_specs_local(2)]
  local_after_purge [OF hash_specs_local(3)] local_after_purge [OF hincr_specs_local(1)]
  local_after_purge [OF hincr_specs_local(2)]

lemma local_on_live:
  assumes "\<And>A B m. eq_at k A B \<Longrightarrow> a_fttl A k = a_fttl B k \<Longrightarrow> out_at k (f A m) (f B m)"
  shows "local_write k (on_live k now missing f)"
  unfolding on_live_def [abs_def]
proof (rule local_on)
  fix A B :: astate assume AB: "eq_at k A B"
  then have "eq_at k (a_purge k now A) (a_purge k now B)" "a_live A k now = a_live B k now"
    by (rule eq_at_purge eq_at_live)+
  moreover from this have "a_fttl (a_purge k now A) k = a_fttl (a_purge k now B) k" by (simp add: eq_at_def)
  ultimately show "out_at k (let A1 = a_purge k now A; m = a_live A k now in if m = Map.empty then (missing, True, a_del k A1) else f A1 m)
      (let A1 = a_purge k now B; m = a_live B k now in if m = Map.empty then (missing, True, a_del k A1) else f A1 m)"
    by (simp add: Let_def eq_at_changes assms)
qed

lemma ttl_specs_local [local_specs]:
  "local_write k (spec_hexpire k fs at_ms cond now)" "local_write k (spec_hpersist k fs now)"
  "local_write k (spec_hgetdel k fs now)" "local_write k (spec_hgetex k fs action now)"
proof -
  show "local_write k (spec_hexpire k fs at_ms cond now)"
    unfolding spec_hexpire_def by (rule local_on_live) (simp add: spec_local_simps split: prod.split)
  show "local_write k (spec_hpersist k fs now)"
    unfolding spec_hpersist_def by (rule local_on_live) (simp add: spec_local_simps split: prod.split)
  show "local_write k (spec_hgetdel k fs now)"
    unfolding spec_hgetdel_def by (rule local_on_live) (simp add: spec_local_simps)
  show "local_write k (spec_hgetex k fs action now)"
    unfolding spec_hgetex_def
    by (rule local_on_live) (simp add: spec_local_simps split: hash_field_get_expire_action.split)
qed

section \<open>Commands implement abstract commands\<close>

definition implements ::
  "('h, 't) env \<Rightarrow> (('h, 't) embedded \<Rightarrow> ('r \<times> ('h, 't) embedded) option) \<Rightarrow> (astate \<Rightarrow> 'r \<times> astate) \<Rightarrow> bool" where
  "implements E f sp \<longleftrightarrow>
     (\<forall>mode n D. embedded_ok E mode n D \<longrightarrow>
        (\<exists>r D'. f D = Some (r, D') \<and> embedded_ok E mode n D' \<and> sp (embedded_abs E D) = (r, embedded_abs E D')))"

lemma implementsI:
  assumes "\<And>mode n D. embedded_ok E mode n D \<Longrightarrow>
    \<exists>r D'. f D = Some (r, D') \<and> embedded_ok E mode n D' \<and> sp (embedded_abs E D) = (r, embedded_abs E D')"
  shows "implements E f sp"
  using assms by (simp add: implements_def)

lemma implementsD:
  assumes "implements E f sp" "embedded_ok E mode n D"
  shows "\<exists>r D'. f D = Some (r, D') \<and> embedded_ok E mode n D' \<and> sp (embedded_abs E D) = (r, embedded_abs E D')"
  using assms by (simp add: implements_def)

lemma embedded_step:
  assumes D: "embedded_ok E mode n D"
    and ex: "\<And>place S. store_inv E place S \<Longrightarrow> (\<And>x. place x < length (shards S)) \<Longrightarrow> placed E place S key (route_key E D key) \<Longrightarrow>
      \<exists>res S'. f S = Some (res, S') \<and> store_inv E place S' \<and> length (shards S') = length (shards S) \<and>
        sp (store_abs E place S) = (res, store_abs E place S')"
  shows "\<exists>r D'. map_option (with_objects D) (f (objects D)) = Some (r, D') \<and> embedded_ok E mode n D' \<and>
    sp (embedded_abs E D) = (r, embedded_abs E D')"
proof -
  have "store_inv E (home E mode n) (objects D)" using D by (simp add: embedded_ok_def)
  from ex [OF this embedded_route(1,2) [OF D]] obtain res S' where "f (objects D) = Some (res, S')"
    "store_inv E (home E mode n) S'" "length (shards S') = length (shards (objects D))"
    "sp (store_abs E (home E mode n) (objects D)) = (res, store_abs E (home E mode n) S')" by blast
  from with_objects_ok [of E mode n D f _ _ sp, OF D this] show ?thesis by blast
qed

context routed_write
begin

lemma object_write_implements:
  assumes E: "env_ok E"
  shows "implements E (object_write E key now str op) (spec_access key now str spec)"
    "implements E (object_write_hashed E (hash_key E key) key now str op) (spec_access key now str spec)"
proof -
  have step: "\<exists>r D'. map_option (with_objects D) (object_write_routed E (route_key E D key) key now str op (objects D)) = Some (r, D') \<and>
      embedded_ok E mode n D' \<and> spec_access key now str spec (embedded_abs E D) = (r, embedded_abs E D')"
    if D: "embedded_ok E mode n D" for mode n D
    by (rule embedded_step [OF D, where key = key]) (rule routed [OF E])
  show "implements E (object_write E key now str op) (spec_access key now str spec)"
    by (rule implementsI) (simp only: object_write_def step)
  show "implements E (object_write_hashed E (hash_key E key) key now str op) (spec_access key now str spec)"
    by (rule implementsI) (simp only: object_write_hashed_def embedded_route(3) step)
qed

end

context routed_create
begin

lemma object_create_implements:
  assumes E: "env_ok E" and ops: "existing (hash_key E key) = attempt" "creating (hash_key E key) = create"
  shows "implements E (object_create_hashed E (hash_key E key) key now str existing creating) (spec_create key now str spec)"
proof (rule implementsI)
  fix mode n D assume D: "embedded_ok E mode n D"
  show "\<exists>r D'. object_create_hashed E (hash_key E key) key now str existing creating D = Some (r, D') \<and>
      embedded_ok E mode n D' \<and> spec_create key now str spec (embedded_abs E D) = (r, embedded_abs E D')"
    unfolding object_create_hashed_def embedded_route(3) [OF D]
    by (rule embedded_step [OF D, where key = key]) (rule routed [where existing = existing and creating = creating, OF E _ _ _ ops])
qed

end

context routed_read
begin

lemma object_read_implements:
  assumes E: "env_ok E"
  shows "implements E (object_read E key now str op) (spec_read key now str rd)"
proof (rule implementsI)
  fix mode n D assume D: "embedded_ok E mode n D"
  show "\<exists>r D'. object_read E key now str op D = Some (r, D') \<and>
      embedded_ok E mode n D' \<and> spec_read key now str rd (embedded_abs E D) = (r, embedded_abs E D')"
    unfolding object_read_def
    by (rule embedded_step [OF D, where key = key]) (rule routed [OF E])
qed

end

context routed_visit
begin

lemma object_visit_implements:
  assumes E: "env_ok E"
  shows "implements E (object_read_hashed_visit E (hash_key E key) key now str op) (spec_visit key now str rd)"
proof (rule implementsI)
  fix mode n D assume D: "embedded_ok E mode n D"
  show "\<exists>r D'. object_read_hashed_visit E (hash_key E key) key now str op D = Some (r, D') \<and>
      embedded_ok E mode n D' \<and> spec_visit key now str rd (embedded_abs E D) = (r, embedded_abs E D')"
    unfolding object_read_hashed_visit_def embedded_route(3) [OF D]
    by (rule embedded_step [OF D, where key = key]) (rule routed [OF E])
qed

end

text \<open>Notifying the waiters of the key afterwards changes nothing a command sees.\<close>

lemma notify_implements:
  assumes "implements E f sp"
  shows "implements E (\<lambda>D. Option.bind (f D) (notify_when E key available)) sp"
proof (rule implementsI)
  fix mode n D assume "embedded_ok E mode n D"
  from implementsD [OF assms this] obtain r D1 where D1: "f D = Some (r, D1)" "embedded_ok E mode n D1"
    "sp (embedded_abs E D) = (r, embedded_abs E D1)" by blast
  from notify_key_ok [OF D1(2), of key] obtain D2 where "notify_redis_object_key E key D1 = Some D2"
    "embedded_ok E mode n D2" "embedded_abs E D2 = embedded_abs E D1" by blast
  with D1 show "\<exists>r D'. Option.bind (f D) (notify_when E key available) = Some (r, D') \<and> embedded_ok E mode n D' \<and>
      sp (embedded_abs E D) = (r, embedded_abs E D')"
    by (cases "available r") (auto simp: notify_when_def)
qed

lemma httl_local: "local_read k (spec_httl k fs as_millis absolute now)"
proof -
  have "spec_httl k fs as_millis absolute now A = spec_httl k fs as_millis absolute now B" if "eq_at k A B" for A B
  proof -
    have "a_obj A k = a_obj B k" "a_fttl A k = a_fttl B k" using that by (simp_all add: eq_at_def)
    then show ?thesis by (simp add: spec_httl_def read_obj_def eq_at_live [OF that] split: option.split)
  qed
  then show ?thesis by (simp add: local_read_def)
qed

section \<open>The commands behind the router\<close>

interpretation pop_list_at: routed_write E k "pop_list E k front" "spec_pop_list k front"
  for E k front
  by unfold_locales (rule local_specs)

interpretation pop_list_count_at: routed_write E k "pop_list_count E k n front" "spec_pop_list_count k n front"
  for E k n front
  by unfold_locales (rule local_specs)

interpretation lset_at: routed_write E k "lset E k index v" "spec_lset k index v"
  for E k index v
  by unfold_locales (rule local_specs)

interpretation lrem_at: routed_write E k "lrem E k m v" "spec_lrem k m v"
  for E k m v
  by unfold_locales (rule local_specs)

interpretation ltrim_at: routed_write E k "ltrim E k start stop" "spec_ltrim k start stop"
  for E k start stop
  by unfold_locales (rule local_specs)

interpretation linsert_at: routed_write E k "linsert E k before pivot v" "spec_linsert k before pivot v"
  for E k before pivot v
  by unfold_locales (rule local_specs)

interpretation llen_at: routed_read E k "llen E k"
  "read_obj as_list k (Integer 0) WrongType (\<lambda>xs. Integer (int (length xs)))"
  for E k
  by unfold_locales (rule llen_reads, assumption, rule local_read_obj local_read_live)

interpretation lindex_at: routed_read E k "lindex E k index"
  "read_obj as_list k (Bulk None) WrongType (\<lambda>xs. Bulk (nth_normalized xs index))"
  for E k index
  by unfold_locales (rule lindex_reads, assumption, rule local_read_obj local_read_live)

interpretation lrange_at: routed_read E k "lrange E k start stop"
  "read_obj as_list k (Array []) WrongType (\<lambda>xs. Array (map Some (zrange_spec xs start stop)))"
  for E k start stop
  by unfold_locales (rule lrange_reads, assumption, rule local_read_obj local_read_live)

interpretation hset_many_at: routed_write E k "hset_many E k fvs c1" "spec_hset_many_at k fvs c1"
  for E k fvs c1
  by unfold_locales (rule local_specs)

interpretation hget_at: routed_read E k "hget E k f c1"
  "read_live k c1 (Bulk None) WrongType (\<lambda>m. Bulk (m f))"
  for E k f c1
  by unfold_locales (rule hget_reads, assumption, rule local_read_obj local_read_live)

interpretation hexists_at: routed_read E k "hexists E k f c1"
  "read_live k c1 (Integer 0) WrongType (\<lambda>m. Integer (bool_int (m f \<noteq> None)))"
  for E k f c1
  by unfold_locales (rule hexists_reads, assumption, rule local_read_obj local_read_live)

interpretation hdel_at: routed_write E k "hdel E k f c1" "\<lambda>A. spec_hdel_many k {f} (a_purge k c1 A)"
  for E k f c1
  by unfold_locales (rule local_specs)

interpretation hdel_many_at: routed_write E k "hdel_many E k fs c1" "\<lambda>A. spec_hdel_many k (set fs) (a_purge k c1 A)"
  for E k fs c1
  by unfold_locales (rule local_specs)

interpretation hgetdel_at: routed_write E k "hash_field_getdel E k fs c1" "spec_hgetdel k fs c1"
  for E k fs c1
  by unfold_locales (rule local_specs)

interpretation hgetex_at: routed_write E k "hash_field_getex E k fs action c1" "spec_hgetex k fs action c1"
  for E k fs action c1
  by unfold_locales (rule local_specs)

interpretation hlen_at: routed_read E k "hlen E k c1"
  "read_live k c1 (Integer 0) WrongType (\<lambda>m. Integer (int (card (dom m))))"
  for E k c1
  by unfold_locales (rule hlen_reads, assumption, rule local_read_obj local_read_live)

interpretation hmget_at: routed_read E k "hmget E k fs c1"
  "read_live k c1 (Array (replicate (length fs) None)) WrongType (\<lambda>m. Array (map m fs))"
  for E k fs c1
  by unfold_locales (rule hmget_reads, assumption, rule local_read_obj local_read_live)

interpretation hkeys_at: routed_read E k "hkeys E k c1"
  "read_live k c1 (Array []) WrongType (\<lambda>m. Array (map Some (map fst (live_entries m))))"
  for E k c1
  by unfold_locales (rule hkeys_reads, assumption, rule local_read_obj local_read_live)

interpretation hvals_at: routed_read E k "hvals E k c1"
  "read_live k c1 (Array []) WrongType (\<lambda>m. Array (map (\<lambda>e. Some (snd e)) (live_entries m)))"
  for E k c1
  by unfold_locales (rule hvals_reads, assumption, rule local_read_obj local_read_live)

interpretation hgetall_at: routed_read E k "hgetall E k c1"
  "read_live k c1 (Array []) WrongType (\<lambda>m. Array (concat (map (\<lambda>e. [Some (fst e), Some (snd e)]) (live_entries m))))"
  for E k c1
  by unfold_locales (rule hgetall_reads, assumption, rule local_read_obj local_read_live)

interpretation hsetnx_at: routed_write E k "hsetnx E k f v c1" "\<lambda>A. spec_hsetnx k f v (a_purge k c1 A)"
  for E k f v c1
  by unfold_locales (rule local_specs)

interpretation hincrby_at: routed_write E k "hincrby E k f delta c1 c2" "\<lambda>A. spec_hincrby k f delta c2 (a_purge k c1 A)"
  for E k f delta c1 c2
  by unfold_locales (rule local_specs)

interpretation hincrbyfloat_at: routed_write E k "hincrbyfloat E k f delta c1 c2" "\<lambda>A. spec_hincrbyfloat k f delta c2 (a_purge k c1 A)"
  for E k f delta c1 c2
  by unfold_locales (rule local_specs)

interpretation hrandfield_at: routed_read E k "hrandfield E k wanted with_values c1"
  "read_live k c1 (if wanted \<noteq> None then Array [] else Bulk None) WrongType (\<lambda>m. hrandfield_result wanted with_values (live_entries m))"
  for E k wanted with_values c1
  by unfold_locales (rule hrandfield_reads, assumption, rule local_read_obj local_read_live)

interpretation hexpire_at: routed_write E k "hash_field_expire E k fs at_ms cond c1" "spec_hexpire k fs at_ms cond c1"
  for E k fs at_ms cond c1
  by unfold_locales (rule local_specs)

interpretation httl_at: routed_read E k "hash_field_ttl_query E k fs as_millis absolute c1"
  "spec_httl k fs as_millis absolute c1"
  for E k fs as_millis absolute c1
  by unfold_locales (rule hash_field_ttl_query_reads, assumption, rule httl_local)

interpretation hpersist_at: routed_write E k "hash_field_persist E k fs c1" "spec_hpersist k fs c1"
  for E k fs c1
  by unfold_locales (rule local_specs)

interpretation srem_at: routed_write E k "srem E k ms" "spec_srem k ms"
  for E k ms
  by unfold_locales (rule local_specs)

interpretation sismember_at: routed_read E k "sismember E k m"
  "read_obj as_set k (Integer 0) WrongType (\<lambda>S. Integer (bool_int (m \<in> S)))"
  for E k m
  by unfold_locales (rule sismember_reads, assumption, rule local_read_obj local_read_live)

interpretation smismember_at: routed_read E k "smismember E k ms"
  "read_obj as_set k (IntegerArray (replicate (length ms) 0)) WrongType (\<lambda>S. IntegerArray (map (\<lambda>m. bool_int (m \<in> S)) ms))"
  for E k ms
  by unfold_locales (rule smismember_reads, assumption, rule local_read_obj local_read_live)

interpretation scard_at: routed_read E k "scard E k"
  "read_obj as_set k (Integer 0) WrongType (\<lambda>S. Integer (int (card S)))"
  for E k
  by unfold_locales (rule scard_reads, assumption, rule local_read_obj local_read_live)

interpretation smembers_at: routed_read E k "smembers E k"
  "read_obj as_set k (Array []) WrongType (\<lambda>S. Array (map Some (sorted_list_of_set S)))"
  for E k
  by unfold_locales (rule smembers_reads, assumption, rule local_read_obj local_read_live)

interpretation zadd_cond_at: routed_write E k "zadd_cond E k s m nx xx gt lt ch incr" "spec_zadd_cond k s m nx xx gt lt ch incr"
  for E k s m nx xx gt lt ch incr
  by unfold_locales (rule local_specs)

interpretation zincrby_at: routed_write E k "zincrby E k d m" "spec_zadd_cond k d m False False False False True True"
  for E k d m
  by unfold_locales (rule local_specs)

interpretation zrem_at: routed_write E k "zrem E k m" "spec_zrem k m"
  for E k m
  by unfold_locales (rule local_specs)

interpretation zrem_many_at: routed_write E k "zrem_many E k ms" "spec_zrem_many k ms"
  for E k ms
  by unfold_locales (rule local_specs)

interpretation zscore_at: routed_read E k "zscore E k m"
  "read_obj as_zset k (Bulk None) WrongType (\<lambda>v. Bulk (map_option format_score (v m)))"
  for E k m
  by unfold_locales (rule zscore_reads, assumption, rule local_read_obj local_read_live)

interpretation zmscore_at: routed_read E k "zmscore E k ms"
  "read_obj as_zset k (Array (replicate (length ms) None)) WrongType (\<lambda>v. Array (map (\<lambda>m. map_option format_score (v m)) ms))"
  for E k ms
  by unfold_locales (rule zmscore_reads, assumption, rule local_read_obj local_read_live)

interpretation zcard_at: routed_read E k "zcard E k"
  "read_obj as_zset k (Integer 0) WrongType (\<lambda>v. Integer (int (card (dom v))))"
  for E k
  by unfold_locales (rule zcard_reads, assumption, rule local_read_obj local_read_live)

interpretation zrange_at: routed_read E k "zrange E k start stop"
  "read_obj as_zset k (Array []) WrongType (\<lambda>v. Array (map (\<lambda>e. Some (fst e)) (zrange_spec (zcanon v) start stop)))"
  for E k start stop
  by unfold_locales (rule zrange_reads, assumption, rule local_read_obj local_read_live)

interpretation zrank_at: routed_read E k "zrank E k m rv"
  "read_obj as_zset k (Integer (- 1)) WrongType (\<lambda>v. Integer (case zrank_spec v m rv of None \<Rightarrow> - 1 | Some r \<Rightarrow> int r))"
  for E k m rv
  by unfold_locales (rule zrank_reads, assumption, rule local_read_obj local_read_live)

interpretation zpop_at: routed_write E k "zpop E k n hi_end" "spec_zpop k n hi_end"
  for E k n hi_end
  by unfold_locales (rule local_specs)

interpretation push_at: routed_create E k "push_list_existing_or_wrongtype_hashed E (hash_key E k) k vs front"
  "push_list_new_unchecked_hashed E (hash_key E k) k vs front" "spec_push k vs front"
  for E k vs front
  by unfold_locales (rule local_specs)

interpretation hset_at: routed_create E k "hset_existing_or_wrongtype_hashed E (hash_key E k) k f v c1"
  "hset_new_unchecked_hashed E (hash_key E k) k f v" "\<lambda>A. spec_hset k f v (a_purge k c1 A)"
  for E k f v c1
  by unfold_locales (rule local_specs)

interpretation sadd_at: routed_create E k "sadd_existing_or_wrongtype_hashed E (hash_key E k) k ms"
  "sadd_new_unchecked_hashed E (hash_key E k) k ms" "spec_sadd k ms"
  for E k ms
  by unfold_locales (rule local_specs)

interpretation zadd_at: routed_create E k "zadd_existing_or_wrongtype_hashed E (hash_key E k) k s m"
  "zadd_new_unchecked_hashed E (hash_key E k) k s m" "spec_zadd k s m"
  for E k s m
  by unfold_locales (rule local_specs)

section \<open>Pushing onto an existing list\<close>

interpretation push_existing_at: routed_write E k "push_list_existing_hashed E (hash_key E k) k vs front"
  "spec_push_existing k vs front" for E k vs front
  by unfold_locales (rule local_specs)

definition spec_pushx :: "bytes \<Rightarrow> bytes list \<Rightarrow> bool \<Rightarrow> u64 \<Rightarrow> u64 \<Rightarrow> bool \<Rightarrow> astate \<Rightarrow> redis_object_result \<times> astate" where
  "spec_pushx k vs front c now str A =
     (if vs = [] then (Integer 0, A)
      else let A1 = a_drop k c A
           in case a_obj A1 k of
                None \<Rightarrow> (if str then WrongType else Integer 0, A1)
              | Some (OList _) \<Rightarrow> spec_access k now str (spec_push_existing k vs front) A1
              | Some _ \<Rightarrow> (WrongType, A1))"

lemma no_objects_at:
  assumes E: "env_ok E" and D: "embedded_ok E mode n D" and none: "shard_has_objects (shard_id (route_key E D k)) (objects D) = Some False"
  shows "a_obj (embedded_abs E D) k = None" "\<not> a_expired (embedded_abs E D) k now"
proof -
  let ?place = "home E mode n" and ?S = "objects D"
  have S: "store_inv E ?place ?S" using D by (simp add: embedded_ok_def)
  note pl = embedded_route(1,2) [OF D]
  have sid: "shard_id (route_key E D k) = ?place k" using pl(2) [of k] by (simp add: placed_def)
  have sh: "shard_ok E ?place 0 (?place k) (shards ?S ! ?place k)" using S pl(1) by (simp add: store_ok_def)
  have few: "object_count (shards ?S ! ?place k) \<le> 0"
    using none pl(1) [of k] by (auto simp: sid shard_has_objects_def shard_object_count_hint_def shard_atI)
  have "bucket_of E ?place ?S k \<in> set (buckets (shards ?S ! ?place k))"
    using sh bucket_index_less [of "hash_key E k"] by (auto simp: bucket_of_def shard_ok_def)
  from no_objects(1) [OF E sh few this] show "a_obj (embedded_abs E D) k = None"
    by (simp add: embedded_route(4) [OF D] store_abs_def)
  then show "\<not> a_expired (embedded_abs E D) k now"
    using a_expired_obj [OF bucket_of_read(2) [OF S pl(1), of k], where k = k and now = now]
    by (auto simp: embedded_route(4) [OF D] store_abs_def a_expired_def)
qed

lemma bucket_at_key:
  assumes D: "embedded_ok E mode n D"
  obtains b where "read_bucket (shard_id (route_key E D k)) (key_hash (route_key E D k)) (objects D) = Some b" "bucket_inv E b"
    "eq_at k (bucket_abs E b) (embedded_abs E D)" "b = bucket_of E (home E mode n) (objects D) k"
    "shard_id (route_key E D k) = home E mode n k" "key_hash (route_key E D k) = hash_key E k"
    "store_inv E (home E mode n) (objects D)" "shard_id (route_key E D k) < length (shards (objects D))"
proof -
  have S: "store_inv E (home E mode n) (objects D)" using D by (simp add: embedded_ok_def)
  have r: "placed E (home E mode n) (objects D) k (route_key E D k)" by (rule embedded_route(2) [OF D])
  show thesis
    by (rule that [of "bucket_of E (home E mode n) (objects D) k"])
      (use bucket_of_read [OF S embedded_route(1) [OF D], of k] r eq_at_store [of k E "home E mode n" "objects D"] S in
        \<open>simp_all add: placed_def embedded_route(4) [OF D]\<close>)
qed

lemma delete_expired_implements:
  assumes E: "env_ok E" and D: "embedded_ok E mode n D" and over: "a_expired (embedded_abs E D) k c"
  shows "\<exists>S'. (let (gone, b1) = delete_expired E k c (bucket_of E (home E mode n) (objects D) k);
        S1 = write_bucket (home E mode n k) (hash_key E k) b1 (objects D)
      in if gone then note_deleted (home E mode n k) S1 else Some S1) = Some S' \<and>
    embedded_ok E mode n (D\<lparr>objects := S'\<rparr>) \<and> embedded_abs E (D\<lparr>objects := S'\<rparr>) = a_del k (embedded_abs E D)"
proof -
  obtain b where b: "bucket_inv E b" "eq_at k (bucket_abs E b) (embedded_abs E D)" "b = bucket_of E (home E mode n) (objects D) k"
    "store_inv E (home E mode n) (objects D)" using bucket_at_key [OF D] by metis
  have over': "a_expired (bucket_abs E b) k c" using over b(2) by (simp add: a_expired_def eq_at_def)
  then have has: "has_obj E k b" using a_expired_obj [OF b(1)] by (auto simp: has_obj_def)
  from delete_expired_law [OF E b(1), of k c] over' obtain b' where b': "delete_expired E k c b = (True, b')"
    "bucket_inv E b'" "bucket_abs E b' = a_del k (bucket_abs E b)" by (auto simp: a_drop_def)
  from delete_law [OF E b(4) embedded_route(1) [OF D] b'(2), of k] b'(3) has obtain S' where S':
    "note_deleted (home E mode n k) (write_bucket (home E mode n k) (hash_key E k) b' (objects D)) = Some S'"
    "store_inv E (home E mode n) S'" "length (shards S') = length (shards (objects D))"
    "store_abs E (home E mode n) S' = a_del k (store_abs E (home E mode n) (objects D))" by (auto simp: b(3))
  have "embedded_ok E mode n (D\<lparr>objects := S'\<rparr>)" using D S' by (simp add: embedded_ok_def)
  with S' b'(1) embedded_route(4) [OF D] embedded_route(4) [OF this] show ?thesis by (simp add: b(3))
qed

lemma pushx_implements:
  assumes E: "env_ok E"
  shows "implements E (es_push_list_existing_hashed E (hash_key E k) k vs front c now str) (spec_pushx k vs front c now str)"
proof (cases "vs = []")
  case True
  then show ?thesis by (auto simp: implements_def es_push_list_existing_hashed_def spec_pushx_def)
next
  case vs: False
  show ?thesis
  proof (rule implementsI)
    fix mode n D assume D: "embedded_ok E mode n D"
    let ?A = "embedded_abs E D" and ?f = "es_push_list_existing_hashed E (hash_key E k) k vs front c now str"
    obtain b where b: "read_bucket (shard_id (route_key E D k)) (key_hash (route_key E D k)) (objects D) = Some b" "bucket_inv E b"
      "eq_at k (bucket_abs E b) ?A" "b = bucket_of E (home E mode n) (objects D) k"
      "shard_id (route_key E D k) = home E mode n k" "key_hash (route_key E D k) = hash_key E k"
      "shard_id (route_key E D k) < length (shards (objects D))" using bucket_at_key [OF D] .
    obtain there where there: "shard_has_objects (shard_id (route_key E D k)) (objects D) = Some there"
      using b(7) by (auto simp: shard_has_objects_def shard_object_count_hint_def shard_atI)
    have exp: "has_expirations b \<and> object_is_expired b k c \<longleftrightarrow> a_expired ?A k c"
      using b(3) by (auto simp: eq_at_def a_expired_def has_expirations_def object_is_expired_def split: option.splits)
    note unf = es_push_list_existing_hashed_def embedded_route(3) [OF D] Let_def
    consider (empty) "\<not> there" | (expired) there "a_expired ?A k c" | (live) there "\<not> a_expired ?A k c" by blast
    then show "\<exists>r D'. ?f D = Some (r, D') \<and> embedded_ok E mode n D' \<and> spec_pushx k vs front c now str ?A = (r, embedded_abs E D')"
    proof cases
      case empty
      with no_objects_at(1) [OF E D, of k] no_objects_at(2) [OF E D, of k c] there vs D show ?thesis
        by (simp add: unf spec_pushx_def a_drop_def)
    next
      case expired
      from delete_expired_implements [OF E D expired(2)] expired there b exp vs show ?thesis
        by (auto simp: unf spec_pushx_def a_drop_def a_del_def split: prod.splits)
    next
      case live
      have pres: "list_presence_hashed E b (hash_key E k) k = read_obj as_list k Missing WrongTypeOutcome (\<lambda>_. Written) ?A"
        using list_presence_spec [OF E b(2), of k] b(3) by (simp add: read_obj_def eq_at_def)
      have w: "implements E (\<lambda>D. Option.bind (object_write_hashed E (hash_key E k) k now str (push_list_existing_hashed E (hash_key E k) k vs front) D)
          (notify_when E k values_available_after_push)) (spec_access k now str (spec_push_existing k vs front))"
        by (rule notify_implements [OF push_existing_at.object_write_implements(2) [OF E]])
      from live there b exp vs D implementsD [OF w D] pres show ?thesis
        by (auto simp: unf spec_pushx_def a_drop_def read_obj_def split: option.split robj.split)
    qed
  qed
qed

section \<open>Sequences of commands\<close>

datatype list_command =
    Lpush bytes "bytes list"
  | Rpush bytes "bytes list"
  | Lpushx bytes "bytes list"
  | Rpushx bytes "bytes list"
  | Lpop bytes
  | Rpop bytes
  | LpopCount bytes nat
  | RpopCount bytes nat
  | Lset bytes int bytes
  | Lrem bytes int bytes
  | Ltrim bytes int int
  | Linsert bytes bool bytes bytes
  | Llen bytes
  | Lindex bytes int
  | Lrange bytes int int

datatype hash_command =
    Hset bytes bytes bytes
  | HsetMany bytes "(bytes \<times> bytes) list"
  | Hget bytes bytes
  | Hexists bytes bytes
  | Hdel bytes bytes
  | HdelMany bytes "bytes list"
  | Hgetdel bytes "bytes list"
  | Hgetex bytes "bytes list" hash_field_get_expire_action
  | Hlen bytes
  | Hmget bytes "bytes list"
  | Hkeys bytes
  | Hvals bytes
  | Hgetall bytes
  | Hsetnx bytes bytes bytes
  | Hincrby bytes bytes int
  | Hincrbyfloat bytes bytes f64
  | Hrandfield bytes "int option" bool
  | HashFieldExpire bytes "bytes list" u64 hash_field_expire_cond
  | HashFieldTtlQuery bytes "bytes list" bool bool
  | HashFieldPersist bytes "bytes list"

datatype set_command =
    Sadd bytes "bytes list"
  | Srem bytes "bytes list"
  | Sismember bytes bytes
  | Smismember bytes "bytes list"
  | Scard bytes
  | Smembers bytes

datatype zset_command =
    Zadd bytes f64 bytes
  | ZaddCond bytes f64 bytes bool bool bool bool bool bool
  | Zincrby bytes f64 bytes
  | Zrem bytes bytes
  | ZremMany bytes "bytes list"
  | Zscore bytes bytes
  | Zmscore bytes "bytes list"
  | Zcard bytes
  | Zrange bytes int int
  | Zrank bytes bytes bool
  | Zpop bytes nat bool

datatype command = ListCommand list_command | HashCommand hash_command | SetCommand set_command | ZsetCommand zset_command

text \<open>What a call reads besides the store: the clock of the router, whether a string exists at the key, other clock readings.\<close>

record call =
  now_of :: u64
  string_of :: bool
  clock1 :: u64
  clock2 :: u64

primrec exec_list ::
  "('h, 't) env \<Rightarrow> call \<Rightarrow> list_command \<Rightarrow> ('h, 't) embedded \<Rightarrow> (redis_object_result \<times> ('h, 't) embedded) option" where
  "exec_list E i (Lpush k vs) = es_lpush E k vs (now_of i) (string_of i)"
| "exec_list E i (Rpush k vs) = es_rpush E k vs (now_of i) (string_of i)"
| "exec_list E i (Lpushx k vs) = es_lpushx E k vs (clock1 i) (now_of i) (string_of i)"
| "exec_list E i (Rpushx k vs) = es_rpushx E k vs (clock1 i) (now_of i) (string_of i)"
| "exec_list E i (Lpop k) = es_lpop E k (now_of i) (string_of i)"
| "exec_list E i (Rpop k) = es_rpop E k (now_of i) (string_of i)"
| "exec_list E i (LpopCount k n) = es_lpop_count E k n (now_of i) (string_of i)"
| "exec_list E i (RpopCount k n) = es_rpop_count E k n (now_of i) (string_of i)"
| "exec_list E i (Lset k index v) = es_lset E k index v (now_of i) (string_of i)"
| "exec_list E i (Lrem k m v) = es_lrem E k m v (now_of i) (string_of i)"
| "exec_list E i (Ltrim k start stop) = es_ltrim E k start stop (now_of i) (string_of i)"
| "exec_list E i (Linsert k before pivot v) = es_linsert E k before pivot v (now_of i) (string_of i)"
| "exec_list E i (Llen k) = es_llen E k (now_of i) (string_of i)"
| "exec_list E i (Lindex k index) = es_lindex E k index (now_of i) (string_of i)"
| "exec_list E i (Lrange k start stop) = es_lrange E k start stop (now_of i) (string_of i)"

primrec exec_hash ::
  "('h, 't) env \<Rightarrow> call \<Rightarrow> hash_command \<Rightarrow> ('h, 't) embedded \<Rightarrow> (redis_object_result \<times> ('h, 't) embedded) option" where
  "exec_hash E i (Hset k f v) = es_hset E k f v (clock1 i) (now_of i) (string_of i)"
| "exec_hash E i (HsetMany k fvs) = es_hset_many E k fvs (clock1 i) (now_of i) (string_of i)"
| "exec_hash E i (Hget k f) = es_hget E k f (clock1 i) (now_of i) (string_of i)"
| "exec_hash E i (Hexists k f) = es_hexists E k f (clock1 i) (now_of i) (string_of i)"
| "exec_hash E i (Hdel k f) = es_hdel E k f (clock1 i) (now_of i) (string_of i)"
| "exec_hash E i (HdelMany k fs) = es_hdel_many E k fs (clock1 i) (now_of i) (string_of i)"
| "exec_hash E i (Hgetdel k fs) = es_hgetdel E k fs (clock1 i) (now_of i) (string_of i)"
| "exec_hash E i (Hgetex k fs action) = es_hgetex E k fs action (clock1 i) (now_of i) (string_of i)"
| "exec_hash E i (Hlen k) = es_hlen E k (clock1 i) (now_of i) (string_of i)"
| "exec_hash E i (Hmget k fs) = es_hmget E k fs (clock1 i) (now_of i) (string_of i)"
| "exec_hash E i (Hkeys k) = es_hkeys E k (clock1 i) (now_of i) (string_of i)"
| "exec_hash E i (Hvals k) = es_hvals E k (clock1 i) (now_of i) (string_of i)"
| "exec_hash E i (Hgetall k) = es_hgetall E k (clock1 i) (now_of i) (string_of i)"
| "exec_hash E i (Hsetnx k f v) = es_hsetnx E k f v (clock1 i) (now_of i) (string_of i)"
| "exec_hash E i (Hincrby k f delta) = es_hincrby E k f delta (clock1 i) (clock2 i) (now_of i) (string_of i)"
| "exec_hash E i (Hincrbyfloat k f delta) = es_hincrbyfloat E k f delta (clock1 i) (clock2 i) (now_of i) (string_of i)"
| "exec_hash E i (Hrandfield k wanted with_values) = es_hrandfield E k wanted with_values (clock1 i) (now_of i) (string_of i)"
| "exec_hash E i (HashFieldExpire k fs at_ms cond) = es_hash_field_expire E k fs at_ms cond (clock1 i) (now_of i) (string_of i)"
| "exec_hash E i (HashFieldTtlQuery k fs as_millis absolute) = es_hash_field_ttl_query E k fs as_millis absolute (clock1 i) (now_of i) (string_of i)"
| "exec_hash E i (HashFieldPersist k fs) = es_hash_field_persist E k fs (clock1 i) (now_of i) (string_of i)"

primrec exec_set ::
  "('h, 't) env \<Rightarrow> call \<Rightarrow> set_command \<Rightarrow> ('h, 't) embedded \<Rightarrow> (redis_object_result \<times> ('h, 't) embedded) option" where
  "exec_set E i (Sadd k ms) = es_sadd E k ms (now_of i) (string_of i)"
| "exec_set E i (Srem k ms) = es_srem E k ms (now_of i) (string_of i)"
| "exec_set E i (Sismember k m) = es_sismember E k m (now_of i) (string_of i)"
| "exec_set E i (Smismember k ms) = es_smismember E k ms (now_of i) (string_of i)"
| "exec_set E i (Scard k) = es_scard E k (now_of i) (string_of i)"
| "exec_set E i (Smembers k) = es_smembers E k (now_of i) (string_of i)"

primrec exec_zset ::
  "('h, 't) env \<Rightarrow> call \<Rightarrow> zset_command \<Rightarrow> ('h, 't) embedded \<Rightarrow> (redis_object_result \<times> ('h, 't) embedded) option" where
  "exec_zset E i (Zadd k s m) = es_zadd E k s m (now_of i) (string_of i)"
| "exec_zset E i (ZaddCond k s m nx xx gt lt ch incr) = es_zadd_cond E k s m nx xx gt lt ch incr (now_of i) (string_of i)"
| "exec_zset E i (Zincrby k d m) = es_zincrby E k d m (now_of i) (string_of i)"
| "exec_zset E i (Zrem k m) = es_zrem E k m (now_of i) (string_of i)"
| "exec_zset E i (ZremMany k ms) = es_zrem_many E k ms (now_of i) (string_of i)"
| "exec_zset E i (Zscore k m) = es_zscore E k m (now_of i) (string_of i)"
| "exec_zset E i (Zmscore k ms) = es_zmscore E k ms (now_of i) (string_of i)"
| "exec_zset E i (Zcard k) = es_zcard E k (now_of i) (string_of i)"
| "exec_zset E i (Zrange k start stop) = es_zrange E k start stop (now_of i) (string_of i)"
| "exec_zset E i (Zrank k m rv) = es_zrank E k m rv (now_of i) (string_of i)"
| "exec_zset E i (Zpop k n hi_end) = es_zpop E k n hi_end (now_of i) (string_of i)"

primrec exec :: "('h, 't) env \<Rightarrow> call \<Rightarrow> command \<Rightarrow> ('h, 't) embedded \<Rightarrow> (redis_object_result \<times> ('h, 't) embedded) option" where
  "exec E i (ListCommand c) = exec_list E i c"
| "exec E i (HashCommand c) = exec_hash E i c"
| "exec E i (SetCommand c) = exec_set E i c"
| "exec E i (ZsetCommand c) = exec_zset E i c"

primrec spec_list :: "call \<Rightarrow> list_command \<Rightarrow> astate \<Rightarrow> redis_object_result \<times> astate" where
  "spec_list i (Lpush k vs) =
     spec_create k (now_of i) (string_of i) (spec_push k vs True)"
| "spec_list i (Rpush k vs) =
     spec_create k (now_of i) (string_of i) (spec_push k vs False)"
| "spec_list i (Lpushx k vs) =
     spec_pushx k vs True (clock1 i) (now_of i) (string_of i)"
| "spec_list i (Rpushx k vs) =
     spec_pushx k vs False (clock1 i) (now_of i) (string_of i)"
| "spec_list i (Lpop k) =
     spec_access k (now_of i) (string_of i) (spec_pop_list k True)"
| "spec_list i (Rpop k) =
     spec_access k (now_of i) (string_of i) (spec_pop_list k False)"
| "spec_list i (LpopCount k n) =
     spec_access k (now_of i) (string_of i) (spec_pop_list_count k n True)"
| "spec_list i (RpopCount k n) =
     spec_access k (now_of i) (string_of i) (spec_pop_list_count k n False)"
| "spec_list i (Lset k index v) =
     spec_access k (now_of i) (string_of i) (spec_lset k index v)"
| "spec_list i (Lrem k m v) =
     spec_access k (now_of i) (string_of i) (spec_lrem k m v)"
| "spec_list i (Ltrim k start stop) =
     spec_access k (now_of i) (string_of i) (spec_ltrim k start stop)"
| "spec_list i (Linsert k before pivot v) =
     spec_access k (now_of i) (string_of i) (spec_linsert k before pivot v)"
| "spec_list i (Llen k) =
     spec_read k (now_of i) (string_of i)
       (read_obj as_list k (Integer 0) WrongType (\<lambda>xs. Integer (int (length xs))))"
| "spec_list i (Lindex k index) =
     spec_read k (now_of i) (string_of i)
       (read_obj as_list k (Bulk None) WrongType (\<lambda>xs. Bulk (nth_normalized xs index)))"
| "spec_list i (Lrange k start stop) =
     spec_read k (now_of i) (string_of i)
       (read_obj as_list k (Array []) WrongType (\<lambda>xs. Array (map Some (zrange_spec xs start stop))))"

primrec spec_hash :: "call \<Rightarrow> hash_command \<Rightarrow> astate \<Rightarrow> redis_object_result \<times> astate" where
  "spec_hash i (Hset k f v) =
     spec_create k (now_of i) (string_of i) (\<lambda>A. spec_hset k f v (a_purge k (clock1 i) A))"
| "spec_hash i (HsetMany k fvs) =
     spec_access k (now_of i) (string_of i) (spec_hset_many_at k fvs (clock1 i))"
| "spec_hash i (Hget k f) =
     spec_read k (now_of i) (string_of i)
       (read_live k (clock1 i) (Bulk None) WrongType (\<lambda>m. Bulk (m f)))"
| "spec_hash i (Hexists k f) =
     spec_read k (now_of i) (string_of i)
       (read_live k (clock1 i) (Integer 0) WrongType (\<lambda>m. Integer (bool_int (m f \<noteq> None))))"
| "spec_hash i (Hdel k f) =
     spec_access k (now_of i) (string_of i) (\<lambda>A. spec_hdel_many k {f} (a_purge k (clock1 i) A))"
| "spec_hash i (HdelMany k fs) =
     spec_access k (now_of i) (string_of i) (\<lambda>A. spec_hdel_many k (set fs) (a_purge k (clock1 i) A))"
| "spec_hash i (Hgetdel k fs) =
     spec_access k (now_of i) (string_of i) (spec_hgetdel k fs (clock1 i))"
| "spec_hash i (Hgetex k fs action) =
     spec_access k (now_of i) (string_of i) (spec_hgetex k fs action (clock1 i))"
| "spec_hash i (Hlen k) =
     spec_read k (now_of i) (string_of i)
       (read_live k (clock1 i) (Integer 0) WrongType (\<lambda>m. Integer (int (card (dom m)))))"
| "spec_hash i (Hmget k fs) =
     spec_read k (now_of i) (string_of i)
       (read_live k (clock1 i) (Array (replicate (length fs) None)) WrongType (\<lambda>m. Array (map m fs)))"
| "spec_hash i (Hkeys k) =
     spec_read k (now_of i) (string_of i)
       (read_live k (clock1 i) (Array []) WrongType (\<lambda>m. Array (map Some (map fst (live_entries m)))))"
| "spec_hash i (Hvals k) =
     spec_read k (now_of i) (string_of i)
       (read_live k (clock1 i) (Array []) WrongType (\<lambda>m. Array (map (\<lambda>e. Some (snd e)) (live_entries m))))"
| "spec_hash i (Hgetall k) =
     spec_read k (now_of i) (string_of i)
       (read_live k (clock1 i) (Array []) WrongType (\<lambda>m. Array (concat (map (\<lambda>e. [Some (fst e), Some (snd e)]) (live_entries m)))))"
| "spec_hash i (Hsetnx k f v) =
     spec_access k (now_of i) (string_of i) (\<lambda>A. spec_hsetnx k f v (a_purge k (clock1 i) A))"
| "spec_hash i (Hincrby k f delta) =
     spec_access k (now_of i) (string_of i) (\<lambda>A. spec_hincrby k f delta (clock2 i) (a_purge k (clock1 i) A))"
| "spec_hash i (Hincrbyfloat k f delta) =
     spec_access k (now_of i) (string_of i) (\<lambda>A. spec_hincrbyfloat k f delta (clock2 i) (a_purge k (clock1 i) A))"
| "spec_hash i (Hrandfield k wanted with_values) =
     spec_read k (now_of i) (string_of i)
       (read_live k (clock1 i) (if wanted \<noteq> None then Array [] else Bulk None) WrongType (\<lambda>m. hrandfield_result wanted with_values (live_entries m)))"
| "spec_hash i (HashFieldExpire k fs at_ms cond) =
     spec_access k (now_of i) (string_of i) (spec_hexpire k fs at_ms cond (clock1 i))"
| "spec_hash i (HashFieldTtlQuery k fs as_millis absolute) =
     spec_read k (now_of i) (string_of i)
       (spec_httl k fs as_millis absolute (clock1 i))"
| "spec_hash i (HashFieldPersist k fs) =
     spec_access k (now_of i) (string_of i) (spec_hpersist k fs (clock1 i))"

primrec spec_set :: "call \<Rightarrow> set_command \<Rightarrow> astate \<Rightarrow> redis_object_result \<times> astate" where
  "spec_set i (Sadd k ms) =
     spec_create k (now_of i) (string_of i) (spec_sadd k ms)"
| "spec_set i (Srem k ms) =
     spec_access k (now_of i) (string_of i) (spec_srem k ms)"
| "spec_set i (Sismember k m) =
     spec_read k (now_of i) (string_of i)
       (read_obj as_set k (Integer 0) WrongType (\<lambda>S. Integer (bool_int (m \<in> S))))"
| "spec_set i (Smismember k ms) =
     spec_read k (now_of i) (string_of i)
       (read_obj as_set k (IntegerArray (replicate (length ms) 0)) WrongType (\<lambda>S. IntegerArray (map (\<lambda>m. bool_int (m \<in> S)) ms)))"
| "spec_set i (Scard k) =
     spec_read k (now_of i) (string_of i)
       (read_obj as_set k (Integer 0) WrongType (\<lambda>S. Integer (int (card S))))"
| "spec_set i (Smembers k) =
     spec_read k (now_of i) (string_of i)
       (read_obj as_set k (Array []) WrongType (\<lambda>S. Array (map Some (sorted_list_of_set S))))"

primrec spec_zset :: "call \<Rightarrow> zset_command \<Rightarrow> astate \<Rightarrow> redis_object_result \<times> astate" where
  "spec_zset i (Zadd k s m) =
     spec_create k (now_of i) (string_of i) (spec_zadd k s m)"
| "spec_zset i (ZaddCond k s m nx xx gt lt ch incr) =
     spec_access k (now_of i) (string_of i) (spec_zadd_cond k s m nx xx gt lt ch incr)"
| "spec_zset i (Zincrby k d m) =
     spec_access k (now_of i) (string_of i) (spec_zadd_cond k d m False False False False True True)"
| "spec_zset i (Zrem k m) =
     spec_access k (now_of i) (string_of i) (spec_zrem k m)"
| "spec_zset i (ZremMany k ms) =
     spec_access k (now_of i) (string_of i) (spec_zrem_many k ms)"
| "spec_zset i (Zscore k m) =
     spec_read k (now_of i) (string_of i)
       (read_obj as_zset k (Bulk None) WrongType (\<lambda>v. Bulk (map_option format_score (v m))))"
| "spec_zset i (Zmscore k ms) =
     spec_read k (now_of i) (string_of i)
       (read_obj as_zset k (Array (replicate (length ms) None)) WrongType (\<lambda>v. Array (map (\<lambda>m. map_option format_score (v m)) ms)))"
| "spec_zset i (Zcard k) =
     spec_read k (now_of i) (string_of i)
       (read_obj as_zset k (Integer 0) WrongType (\<lambda>v. Integer (int (card (dom v)))))"
| "spec_zset i (Zrange k start stop) =
     spec_read k (now_of i) (string_of i)
       (read_obj as_zset k (Array []) WrongType (\<lambda>v. Array (map (\<lambda>e. Some (fst e)) (zrange_spec (zcanon v) start stop))))"
| "spec_zset i (Zrank k m rv) =
     spec_read k (now_of i) (string_of i)
       (read_obj as_zset k (Integer (- 1)) WrongType (\<lambda>v. Integer (case zrank_spec v m rv of None \<Rightarrow> - 1 | Some r \<Rightarrow> int r)))"
| "spec_zset i (Zpop k n hi_end) =
     spec_access k (now_of i) (string_of i) (spec_zpop k n hi_end)"

primrec spec_command :: "call \<Rightarrow> command \<Rightarrow> astate \<Rightarrow> redis_object_result \<times> astate" where
  "spec_command i (ListCommand c) = spec_list i c"
| "spec_command i (HashCommand c) = spec_hash i c"
| "spec_command i (SetCommand c) = spec_set i c"
| "spec_command i (ZsetCommand c) = spec_zset i c"

fun run :: "('h, 't) env \<Rightarrow> (call \<times> command) list \<Rightarrow> ('h, 't) embedded \<Rightarrow> (redis_object_result list \<times> ('h, 't) embedded) option" where
  "run E [] D = Some ([], D)"
| "run E ((i, c) # cs) D = do {
     (r, D1) \<leftarrow> exec E i c D;
     (rs, D2) \<leftarrow> run E cs D1;
     Some (r # rs, D2)
   }"

fun spec_run :: "(call \<times> command) list \<Rightarrow> astate \<Rightarrow> redis_object_result list \<times> astate" where
  "spec_run [] A = ([], A)"
| "spec_run ((i, c) # cs) A =
     (let (r, A1) = spec_command i c A; (rs, A2) = spec_run cs A1 in (r # rs, A2))"

lemmas write_commands =
    pop_list_at.object_write_implements(1) pop_list_count_at.object_write_implements(1)
    lset_at.object_write_implements(1) lrem_at.object_write_implements(1) ltrim_at.object_write_implements(1)
    linsert_at.object_write_implements(1) hset_many_at.object_write_implements(1)
    hdel_at.object_write_implements(1) hdel_many_at.object_write_implements(1)
    hgetdel_at.object_write_implements(1) hgetex_at.object_write_implements(1)
    hsetnx_at.object_write_implements(1) hincrby_at.object_write_implements(1)
    hincrbyfloat_at.object_write_implements(1) hexpire_at.object_write_implements(1)
    hpersist_at.object_write_implements(1) srem_at.object_write_implements(1) zrem_at.object_write_implements(1)
    zrem_many_at.object_write_implements(1) zpop_at.object_write_implements(1)

lemmas read_commands =
    llen_at.object_read_implements lindex_at.object_read_implements lrange_at.object_read_implements
    hget_at.object_read_implements hexists_at.object_read_implements hlen_at.object_read_implements
    hmget_at.object_read_implements hkeys_at.object_read_implements hvals_at.object_read_implements
    hgetall_at.object_read_implements hrandfield_at.object_read_implements httl_at.object_read_implements
    sismember_at.object_read_implements smismember_at.object_read_implements scard_at.object_read_implements
    smembers_at.object_read_implements zscore_at.object_read_implements zmscore_at.object_read_implements
    zcard_at.object_read_implements zrange_at.object_read_implements zrank_at.object_read_implements

lemmas es_write_defs =
    es_lpop_def [abs_def] es_rpop_def [abs_def] es_lpop_count_def [abs_def] es_rpop_count_def [abs_def]
    es_lset_def [abs_def] es_lrem_def [abs_def] es_ltrim_def [abs_def] es_linsert_def [abs_def] es_hset_many_def
    [abs_def] es_hdel_def [abs_def] es_hdel_many_def [abs_def] es_hgetdel_def [abs_def] es_hgetex_def [abs_def]
    es_hsetnx_def [abs_def] es_hincrby_def [abs_def] es_hincrbyfloat_def [abs_def] es_hash_field_expire_def
    [abs_def] es_hash_field_persist_def [abs_def] es_srem_def [abs_def] es_zrem_def [abs_def] es_zrem_many_def
    [abs_def] es_zpop_def [abs_def]

lemmas es_read_defs =
    es_llen_def [abs_def] es_lindex_def [abs_def] es_lrange_def [abs_def] es_hget_def [abs_def] es_hexists_def
    [abs_def] es_hlen_def [abs_def] es_hmget_def [abs_def] es_hkeys_def [abs_def] es_hvals_def [abs_def]
    es_hgetall_def [abs_def] es_hrandfield_def [abs_def] es_hash_field_ttl_query_def [abs_def] es_sismember_def
    [abs_def] es_smismember_def [abs_def] es_scard_def [abs_def] es_smembers_def [abs_def] es_zscore_def [abs_def]
    es_zmscore_def [abs_def] es_zcard_def [abs_def] es_zrange_def [abs_def] es_zrank_def [abs_def]

lemma push_implements:
  "env_ok E \<Longrightarrow> implements E (es_push_list_hashed E (hash_key E k) k vs front now str) (spec_create k now str (spec_push k vs front))"
  unfolding es_push_list_hashed_def [abs_def]
  by (rule notify_implements, rule push_at.object_create_implements) simp_all

lemma hset_implements:
  "env_ok E \<Longrightarrow> implements E (es_hset E k f v c now str) (spec_create k now str (\<lambda>A. spec_hset k f v (a_purge k c A)))"
  unfolding es_hset_def [abs_def] es_hset_hashed_def [abs_def]
  by (rule hset_at.object_create_implements) simp_all

lemma sadd_implements: "env_ok E \<Longrightarrow> implements E (es_sadd E k ms now str) (spec_create k now str (spec_sadd k ms))"
  unfolding es_sadd_def [abs_def] es_sadd_hashed_def [abs_def]
  by (rule sadd_at.object_create_implements) simp_all

lemma zadd_implements: "env_ok E \<Longrightarrow> implements E (es_zadd E k s m now str) (spec_create k now str (spec_zadd k s m))"
  unfolding es_zadd_def [abs_def] es_zadd_hashed_def [abs_def]
  by (rule notify_implements, rule zadd_at.object_create_implements) simp_all

lemma zadd_cond_implements:
  "env_ok E \<Longrightarrow> implements E (es_zadd_cond E k s m nx xx gt lt ch incr now str)
     (spec_access k now str (spec_zadd_cond k s m nx xx gt lt ch incr))"
  "env_ok E \<Longrightarrow> implements E (es_zincrby E k d m now str)
     (spec_access k now str (spec_zadd_cond k d m False False False False True True))"
  unfolding es_zadd_cond_def [abs_def] es_zincrby_def [abs_def]
  by (rule notify_implements, rule zadd_cond_at.object_write_implements(1) zincrby_at.object_write_implements(1), assumption)+

lemma exec_list_implements: "env_ok E \<Longrightarrow> implements E (exec_list E i c) (spec_list i c)"
  by (cases c)
    (simp_all only: exec_list.simps spec_list.simps es_write_defs es_read_defs write_commands read_commands
      es_lpush_def [abs_def] es_rpush_def [abs_def] push_implements
      es_lpushx_def [abs_def] es_rpushx_def [abs_def] pushx_implements)

lemma exec_hash_implements: "env_ok E \<Longrightarrow> implements E (exec_hash E i c) (spec_hash i c)"
  by (cases c)
    (simp_all only: exec_hash.simps spec_hash.simps es_write_defs es_read_defs write_commands read_commands hset_implements)

lemma exec_set_implements: "env_ok E \<Longrightarrow> implements E (exec_set E i c) (spec_set i c)"
  by (cases c)
    (simp_all only: exec_set.simps spec_set.simps es_write_defs es_read_defs write_commands read_commands sadd_implements)

lemma exec_zset_implements: "env_ok E \<Longrightarrow> implements E (exec_zset E i c) (spec_zset i c)"
  by (cases c)
    (simp_all only: exec_zset.simps spec_zset.simps es_write_defs es_read_defs write_commands read_commands
      zadd_implements zadd_cond_implements)

lemma exec_implements: "env_ok E \<Longrightarrow> implements E (exec E i c) (spec_command i c)"
  by (cases c) (simp_all add: exec_list_implements exec_hash_implements exec_set_implements exec_zset_implements)

lemma run_implements:
  assumes E: "env_ok E"
  shows "implements E (run E cs) (spec_run cs)"
proof (induction cs)
  case Nil
  show ?case by (simp add: implements_def)
next
  case (Cons ic cs)
  obtain i c where ic: "ic = (i, c)" by (cases ic)
  show ?case
  proof (rule implementsI)
    fix mode n D assume D: "embedded_ok E mode n D"
    from implementsD [OF exec_implements [OF E] D, of i c] obtain r D1 where 1: "exec E i c D = Some (r, D1)"
      "embedded_ok E mode n D1" "spec_command i c (embedded_abs E D) = (r, embedded_abs E D1)" by blast
    from implementsD [OF Cons 1(2)] obtain rs D2 where "run E cs D1 = Some (rs, D2)"
      "embedded_ok E mode n D2" "spec_run cs (embedded_abs E D1) = (rs, embedded_abs E D2)" by blast
    with 1 show "\<exists>r D'. run E (ic # cs) D = Some (r, D') \<and> embedded_ok E mode n D' \<and>
        spec_run (ic # cs) (embedded_abs E D) = (r, embedded_abs E D')" by (simp add: ic)
  qed
qed

end
