(* ===== verification/Lifecycle.thy ===== *)
theory Lifecycle
  imports Commands
begin

text \<open>
  The key commands of \<^verbatim>\<open>EmbeddedStore\<close> as far as they concern objects (\<^verbatim>\<open>storage/embedded_store/lifecycle.rs\<close> and
  \<^verbatim>\<open>embedded_store/objects/keys.rs\<close>): deletion, existence, TTLs, type and encoding, and storing and copying whole values.

  The string maps and the pinned vector values are a state \<open>'m\<close> of their own with the operations that the code calls on them
  as arguments (\<open>del_session\<close>, \<open>del_map\<close> and so on); observers of mutations are not modelled.
\<close>

section \<open>Deletion and existence\<close>

definition checked_route :: "('h, 't) env \<Rightarrow> embedded_key_route \<Rightarrow> bytes \<Rightarrow> ('h, 't) embedded \<Rightarrow> embedded_key_route" where
  "checked_route E route key D = (if shard_id route < length (shards (objects D)) then route else route_key E D key)"

definition delete_routed_then ::
  "('h, 't) env \<Rightarrow> embedded_key_route \<Rightarrow> bytes \<Rightarrow> ('m \<Rightarrow> bool \<times> 'm) \<Rightarrow> ('m \<Rightarrow> bool \<times> 'm) \<Rightarrow> ('h, 't) embedded \<Rightarrow> 'm \<Rightarrow>
   (bool \<times> ('h, 't) embedded \<times> 'm) option" where
  "delete_routed_then E route0 key del_session del_map D M = do {
     let route = checked_route E route0 key D;
     objects_there \<leftarrow> shard_has_objects (shard_id route) (objects D);
     if objects_there
     then do {
       b \<leftarrow> read_bucket (shard_id route) (key_hash route) (objects D);
       let (deleted_object, b1) = delete_any E key b;
       let S1 = write_bucket (shard_id route) (key_hash route) b1 (objects D);
       S2 \<leftarrow> (if deleted_object then note_deleted (shard_id route) S1 else Some S1);
       let (deleted_session, M1) = (if derived_session_storage_prefix key \<noteq> None then del_session M else (False, M));
       let (deleted_map, M2) = del_map M1;
       Some (deleted_object \<or> deleted_session \<or> deleted_map, D\<lparr>objects := S2\<rparr>, M2)
     }
     else do {
       let (deleted_session, M1) = (if derived_session_storage_prefix key \<noteq> None then del_session M else (False, M));
       if deleted_session then Some (True, D, M1)
       else do {
         let (deleted_map, M2) = del_map M1;
         Some (deleted_map, D, M2)
       }
     }
   }"

text \<open>\<open>accepted\<close> is the verdict of the mutation validator, \<open>del_vector\<close> the deletion of a pinned vector value.\<close>

definition es_delete ::
  "('h, 't) env \<Rightarrow> bytes \<Rightarrow> bool \<Rightarrow> ('m \<Rightarrow> bool \<times> 'm) \<Rightarrow> ('m \<Rightarrow> bool \<times> 'm) \<Rightarrow> ('m \<Rightarrow> bool \<times> 'm) \<Rightarrow> ('h, 't) embedded \<Rightarrow> 'm \<Rightarrow>
   (bool \<times> ('h, 't) embedded \<times> 'm) option" where
  "es_delete E key accepted del_session del_map del_vector D M =
     (if \<not> accepted then Some (False, D, M)
      else do {
        (deleted, D1, M1) \<leftarrow> delete_routed_then E (route_key E D key) key del_session del_map D M;
        if deleted then Some (True, D1, M1)
        else do {
          let (deleted_vector, M2) = del_vector M1;
          Some (deleted_vector, D1, M2)
        }
      })"

text \<open>\<open>str\<close> and \<open>pinned\<close> tell whether a string or a pinned vector value exists at the key.\<close>

definition es_exists :: "('h, 't) env \<Rightarrow> bytes \<Rightarrow> u64 \<Rightarrow> u64 \<Rightarrow> bool \<Rightarrow> bool \<Rightarrow> ('h, 't) embedded \<Rightarrow> (bool \<times> ('h, 't) embedded) option" where
  "es_exists E key c1 c2 str pinned D = do {
     let route = route_key E D key;
     objects_there \<leftarrow> shard_has_objects (shard_id route) (objects D);
     if \<not> objects_there then Some (str \<or> pinned, D)
     else do {
       b \<leftarrow> read_bucket (shard_id route) (key_hash route) (objects D);
       if has_expirations b \<and> object_is_expired b key c1
       then do {
         let (gone, b1) = delete_expired E key c1 b;
         let S1 = write_bucket (shard_id route) (key_hash route) b1 (objects D);
         S2 \<leftarrow> (if gone then note_deleted (shard_id route) S1 else Some S1);
         Some (str, D\<lparr>objects := S2\<rparr>)
       }
       else do {
         live \<leftarrow> contains_live_object E key c2 b;
         Some (live \<or> str \<or> pinned, D)
       }
     }
   }"

section \<open>TTLs\<close>

text \<open>The common beginning: an expired object or an expired hash goes away; otherwise the bucket that is left.\<close>

definition ttl_reap ::
  "('h, 't) env \<Rightarrow> embedded_key_route \<Rightarrow> bytes \<Rightarrow> u64 \<Rightarrow> ('h, 't) store \<Rightarrow> (('h, 't) bucket option \<times> ('h, 't) store) option" where
  "ttl_reap E route key now_ms S = do {
     b \<leftarrow> read_bucket (shard_id route) (key_hash route) S;
     let (gone, b1) = delete_expired E key now_ms b;
     let S1 = write_bucket (shard_id route) (key_hash route) b1 S;
     if gone then map_option (Pair None) (note_deleted (shard_id route) S1)
     else do {
       b2 \<leftarrow> remove_expired_hash_fields E b1 key now_ms;
       (reaped, b3) \<leftarrow> remove_hash_if_empty E b2 key;
       let S3 = write_bucket (shard_id route) (key_hash route) b3 S;
       if reaped then map_option (Pair None) (note_deleted (shard_id route) S3) else Some (Some b3, S3)
     }
   }"

text \<open>The answer for objects, or \<^const>\<open>None\<close> when the strings are asked.\<close>

definition object_ttl ::
  "('h, 't) env \<Rightarrow> bytes \<Rightarrow> u64 \<Rightarrow> ('h, 't) embedded \<Rightarrow> (int option \<times> ('h, 't) embedded) option" where
  "object_ttl E key now_ms D = do {
     let route = route_key E D key;
     objects_there \<leftarrow> shard_has_objects (shard_id route) (objects D);
     if \<not> objects_there then Some (None, D)
     else do {
       (left, S1) \<leftarrow> ttl_reap E route key now_ms (objects D);
       case left of
         None \<Rightarrow> Some (Some (- 2), D\<lparr>objects := S1\<rparr>)
       | Some b \<Rightarrow> do {
           (ttl, b1) \<leftarrow> ttl_millis E key now_ms b;
           Some (if ttl \<noteq> - 2 then Some ttl else None,
                 D\<lparr>objects := write_bucket (shard_id route) (key_hash route) b1 S1\<rparr>)
         }
     }
   }"

text \<open>\<open>string_ttl\<close> is the answer of the strings and of the pinned vector values.\<close>

definition ttl_seconds ::
  "('h, 't) env \<Rightarrow> bytes \<Rightarrow> u64 \<Rightarrow> int \<Rightarrow> ('h, 't) embedded \<Rightarrow> (int \<times> ('h, 't) embedded) option" where
  "ttl_seconds E key now_ms string_ttl D =
     map_option (\<lambda>(answer, D1). (case answer of
         None \<Rightarrow> string_ttl
       | Some ttl \<Rightarrow> if ttl < 0 then ttl else (ttl + 999) div 1000, D1)) (object_ttl E key now_ms D)"

definition pttl_millis ::
  "('h, 't) env \<Rightarrow> bytes \<Rightarrow> u64 \<Rightarrow> int \<Rightarrow> ('h, 't) embedded \<Rightarrow> (int \<times> ('h, 't) embedded) option" where
  "pttl_millis E key now_ms string_ttl D =
     map_option (\<lambda>(answer, D1). (case answer of None \<Rightarrow> string_ttl | Some ttl \<Rightarrow> ttl, D1)) (object_ttl E key now_ms D)"

text \<open>\<open>strings\<close> does the same to the strings, and is asked when no object is at the key.\<close>

definition es_persist ::
  "('h, 't) env \<Rightarrow> bytes \<Rightarrow> bool \<Rightarrow> u64 \<Rightarrow> ('m \<Rightarrow> bool \<times> 'm) \<Rightarrow> ('h, 't) embedded \<Rightarrow> 'm \<Rightarrow> (bool \<times> ('h, 't) embedded \<times> 'm) option" where
  "es_persist E key accepted now_ms strings D M =
     (if \<not> accepted then Some (False, D, M)
      else do {
        let route = route_key E D key;
        objects_there \<leftarrow> shard_has_objects (shard_id route) (objects D);
        if \<not> objects_there then let (r, M1) = strings M in Some (r, D, M1)
        else do {
          (left, S1) \<leftarrow> ttl_reap E route key now_ms (objects D);
          case left of
            None \<Rightarrow> Some (False, D\<lparr>objects := S1\<rparr>, M)
          | Some b \<Rightarrow>
              let (persisted, b1) = persist E key now_ms b;
                  D1 = D\<lparr>objects := write_bucket (shard_id route) (key_hash route) b1 S1\<rparr>
              in if persisted then Some (True, D1, M)
                 else if contains_object E b1 key then Some (False, D1, M)
                 else let (r, M1) = strings M in Some (r, D1, M1)
        }
      })"

definition expire_routed_then ::
  "('h, 't) env \<Rightarrow> embedded_key_route \<Rightarrow> bytes \<Rightarrow> u64 \<Rightarrow> u64 \<Rightarrow> ('m \<Rightarrow> bool \<times> 'm) \<Rightarrow> ('h, 't) embedded \<Rightarrow> 'm \<Rightarrow>
   (bool \<times> ('h, 't) embedded \<times> 'm) option" where
  "expire_routed_then E route0 key at_ms now_ms strings D M = do {
     let route = checked_route E route0 key D;
     objects_there \<leftarrow> shard_has_objects (shard_id route) (objects D);
     if \<not> objects_there then let (r, M1) = strings M in Some (r, D, M1)
     else do {
       (left, S1) \<leftarrow> ttl_reap E route key now_ms (objects D);
       case left of
         None \<Rightarrow> Some (False, D\<lparr>objects := S1\<rparr>, M)
       | Some b \<Rightarrow>
           let (changed, b1) = expire E key at_ms now_ms b;
               D1 = D\<lparr>objects := write_bucket (shard_id route) (key_hash route) b1 S1\<rparr>
           in if changed then Some (True, D1, M)
              else if contains_object E b1 key then Some (False, D1, M)
              else let (r, M1) = strings M in Some (r, D1, M1)
     }
   }"

definition es_expire ::
  "('h, 't) env \<Rightarrow> bytes \<Rightarrow> u64 \<Rightarrow> bool \<Rightarrow> u64 \<Rightarrow> ('m \<Rightarrow> bool \<times> 'm) \<Rightarrow> ('m \<Rightarrow> bool \<times> 'm) \<Rightarrow> ('h, 't) embedded \<Rightarrow> 'm \<Rightarrow>
   (bool \<times> ('h, 't) embedded \<times> 'm) option" where
  "es_expire E key at_ms accepted now_ms strings vectors D M =
     (if \<not> accepted then Some (False, D, M)
      else do {
        (changed, D1, M1) \<leftarrow> expire_routed_then E (route_key E D key) key at_ms now_ms strings D M;
        if changed then Some (True, D1, M1)
        else let (r, M2) = vectors M1 in Some (r, D1, M2)
      })"

section \<open>Type and encoding\<close>

definition redis_object_metadata ::
  "('h, 't) env \<Rightarrow> bytes \<Rightarrow> u64 \<Rightarrow> u64 \<Rightarrow> (u64 \<Rightarrow> ('h, 't) bucket \<Rightarrow> string option option) \<Rightarrow> ('h, 't) embedded \<Rightarrow>
   (string option \<times> ('h, 't) embedded) option" where
  "redis_object_metadata E key c1 c2 lookup D = do {
     let route = route_key E D key;
     objects_there \<leftarrow> shard_has_objects (shard_id route) (objects D);
     if \<not> objects_there then Some (None, D)
     else do {
       b \<leftarrow> read_bucket (shard_id route) (key_hash route) (objects D);
       if has_expirations b \<and> object_is_expired b key c1
       then do {
         let (gone, b1) = delete_expired E key c2 b;
         let S1 = write_bucket (shard_id route) (key_hash route) b1 (objects D);
         S2 \<leftarrow> (if gone then note_deleted (shard_id route) S1 else Some S1);
         Some (None, D\<lparr>objects := S2\<rparr>)
       }
       else do {
         kind \<leftarrow> lookup c1 b;
         Some (kind, D)
       }
     }
   }"

text \<open>\<open>string_value\<close> is the string at the key, \<open>vector\<close> tells whether it starts with the prefix of vector sets.\<close>

definition redis_type ::
  "('h, 't) env \<Rightarrow> bytes \<Rightarrow> u64 \<Rightarrow> u64 \<Rightarrow> bytes option \<Rightarrow> (bytes \<Rightarrow> bool) \<Rightarrow> bool \<Rightarrow> ('h, 't) embedded \<Rightarrow> (string \<times> ('h, 't) embedded) option" where
  "redis_type E key c1 c2 string_value vector pinned D =
     map_option (\<lambda>(kind, D1). (case kind of
         Some kind \<Rightarrow> kind
       | None \<Rightarrow> (case string_value of
             Some v \<Rightarrow> if vector v then ''vectorset'' else ''string''
           | None \<Rightarrow> if pinned then ''vectorset'' else ''none''), D1))
       (redis_object_metadata E key c1 c2 (\<lambda>now_ms b. type_name E key now_ms b) D)"

definition object_encoding ::
  "('h, 't) env \<Rightarrow> bytes \<Rightarrow> u64 \<Rightarrow> u64 \<Rightarrow> bool \<Rightarrow> bool \<Rightarrow> ('h, 't) embedded \<Rightarrow> (string option \<times> ('h, 't) embedded) option" where
  "object_encoding E key c1 c2 str pinned D =
     map_option (\<lambda>(kind, D1). (case kind of
         Some kind \<Rightarrow> Some kind
       | None \<Rightarrow> if str \<or> pinned then Some ''raw'' else None, D1))
       (redis_object_metadata E key c1 c2 (\<lambda>now_ms b. encoding E key now_ms b) D)"

section \<open>Whole values\<close>

definition clone_object_value ::
  "('h, 't) env \<Rightarrow> bytes \<Rightarrow> u64 \<Rightarrow> u64 \<Rightarrow> u64 \<Rightarrow> ('h, 't) embedded \<Rightarrow> (redis_object_value option \<times> ('h, 't) embedded) option" where
  "clone_object_value E key c1 c2 c3 D = do {
     let route = route_key E D key;
     b \<leftarrow> read_bucket (shard_id route) (key_hash route) (objects D);
     if has_expirations b \<and> object_is_expired b key c1
     then do {
       let (gone, b1) = delete_expired E key c1 b;
       let S1 = write_bucket (shard_id route) (key_hash route) b1 (objects D);
       S2 \<leftarrow> (if gone then note_deleted (shard_id route) S1 else Some S1);
       Some (None, D\<lparr>objects := S2\<rparr>)
     }
     else do {
       v \<leftarrow> clone_value E key c2 c3 b;
       Some (v, D)
     }
   }"

text \<open>\<open>drop_strings\<close> is the deletion of the string, the session value and the pinned vector value at the key.\<close>

definition set_object_value_expire_at ::
  "('h, 't) env \<Rightarrow> bytes \<Rightarrow> redis_object_value \<Rightarrow> u64 option \<Rightarrow> u64 \<Rightarrow> ('m \<Rightarrow> 'm) \<Rightarrow> ('h, 't) embedded \<Rightarrow> 'm \<Rightarrow>
   (('h, 't) embedded \<times> 'm) option" where
  "set_object_value_expire_at E key v at_ms now_ms drop_strings D M = do {
     let should_notify = (case v of ListValue es \<Rightarrow> es \<noteq> [] | ZSetValue es \<Rightarrow> es \<noteq> [] | _ \<Rightarrow> False);
     let route = route_key E D key;
     b \<leftarrow> read_bucket (shard_id route) (key_hash route) (objects D);
     let had_object = contains_object E b key;
     let M1 = drop_strings M;
     (created, b1) \<leftarrow> insert_value E key v b;
     S1 \<leftarrow> (let S1 = write_bucket (shard_id route) (key_hash route) b1 (objects D)
            in if created \<and> \<not> had_object then note_created (shard_id route) S1 else Some S1);
     let b2 = (case at_ms of None \<Rightarrow> b1 | Some t \<Rightarrow> snd (expire E key t now_ms b1));
     let S2 = write_bucket (shard_id route) (key_hash route) b2 S1;
     S3 \<leftarrow> (if should_notify then map_option snd (notify_shard_waiters (shard_id route) S2) else Some S2);
     Some (D\<lparr>objects := S3\<rparr>, M1)
   }"

definition set_object_value ::
  "('h, 't) env \<Rightarrow> bytes \<Rightarrow> redis_object_value \<Rightarrow> u64 option \<Rightarrow> u64 \<Rightarrow> ('m \<Rightarrow> 'm) \<Rightarrow> ('h, 't) embedded \<Rightarrow> 'm \<Rightarrow>
   (('h, 't) embedded \<times> 'm) option" where
  "set_object_value E key v ttl_ms now_ms drop_strings D M =
     (case ttl_ms of
        None \<Rightarrow> set_object_value_expire_at E key v None 0 drop_strings D M
      | Some ttl \<Rightarrow> set_object_value_expire_at E key v (Some (saturating_add now_ms ttl)) now_ms drop_strings D M)"

section \<open>Deletion and existence: laws\<close>

text \<open>A change of the bucket of a key that leaves its object there or absent needs no counter.\<close>

lemma embedded_write:
  assumes E: "env_ok E" and D: "embedded_ok E mode n D" and b: "b = bucket_of E (home E mode n) (objects D) k"
    and b': "bucket_inv E b'" "same_but k (bucket_abs E b) (bucket_abs E b')"
  shows "\<exists>S'. settle (home E mode n k) (has_obj E k b) (has_obj E k b') (write_bucket (home E mode n k) (hash_key E k) b' (objects D)) = Some S' \<and>
    embedded_ok E mode n (D\<lparr>objects := S'\<rparr>) \<and> bucket_of E (home E mode n) S' k = b' \<and>
    same_but k (embedded_abs E D) (embedded_abs E (D\<lparr>objects := S'\<rparr>)) \<and>
    eq_at k (bucket_abs E b') (embedded_abs E (D\<lparr>objects := S'\<rparr>))"
proof -
  have S: "store_inv E (home E mode n) (objects D)" using D by (simp add: embedded_ok_def)
  from settle_write [OF E S embedded_route(1) [OF D] b'(1), of k] b'(2) b obtain S' where S':
    "settle (home E mode n k) (has_obj E k b) (has_obj E k b') (write_bucket (home E mode n k) (hash_key E k) b' (objects D)) = Some S'"
    "store_inv E (home E mode n) S'" "length (shards S') = length (shards (objects D))" "bucket_of E (home E mode n) S' k = b'"
    "same_but k (store_abs E (home E mode n) (objects D)) (store_abs E (home E mode n) S')" by blast
  have ok: "embedded_ok E mode n (D\<lparr>objects := S'\<rparr>)" using D S' by (simp add: embedded_ok_def)
  from S' ok embedded_route(4) [OF D] embedded_route(4) [OF ok] eq_at_store [of k E "home E mode n" S'] show ?thesis by simp
qed

lemma checked_route_key: "embedded_ok E mode n D \<Longrightarrow> checked_route E (route_key E D k) k D = route_key E D k"
  by (simp add: checked_route_def)

lemma absent_at:
  assumes D: "embedded_ok E mode n D" and none: "a_obj (embedded_abs E D) k = None"
  shows "a_ttl (embedded_abs E D) k = None" "a_fttl (embedded_abs E D) k = Map.empty"
    "a_del k (embedded_abs E D) = embedded_abs E D"
proof -
  obtain b where b: "bucket_inv E b" "eq_at k (bucket_abs E b) (embedded_abs E D)" using bucket_at_key [OF D] by metis
  then have "a_obj (bucket_abs E b) k = None" using none by (simp add: eq_at_def)
  from key_inv_none(5,6) [OF b(1) this] b(2)
  show "a_ttl (embedded_abs E D) k = None" "a_fttl (embedded_abs E D) k = Map.empty" by (simp_all add: eq_at_def)
  with none show "a_del k (embedded_abs E D) = embedded_abs E D" by (simp add: a_del_def fun_upd_idem)
qed

lemma delete_routed_law:
  assumes E: "env_ok E" and D: "embedded_ok E mode n D"
  shows "\<exists>deleted D' M'. delete_routed_then E (route_key E D k) k del_session del_map D M = Some (deleted, D', M') \<and>
    embedded_ok E mode n D' \<and> embedded_abs E D' = a_del k (embedded_abs E D) \<and>
    (a_obj (embedded_abs E D) k \<noteq> None \<longrightarrow> deleted) \<and>
    (deleted \<longrightarrow> a_obj (embedded_abs E D) k \<noteq> None \<or> fst (del_session M) \<or> fst (del_map M) \<or> fst (del_map (snd (del_session M))))"
proof -
  obtain b where b: "read_bucket (shard_id (route_key E D k)) (key_hash (route_key E D k)) (objects D) = Some b" "bucket_inv E b"
    "eq_at k (bucket_abs E b) (embedded_abs E D)" "b = bucket_of E (home E mode n) (objects D) k"
    "shard_id (route_key E D k) = home E mode n k" "key_hash (route_key E D k) = hash_key E k"
    "shard_id (route_key E D k) < length (shards (objects D))" using bucket_at_key [OF D] .
  obtain there where there: "shard_has_objects (shard_id (route_key E D k)) (objects D) = Some there"
    using b(7) by (auto simp: shard_has_objects_def shard_object_count_hint_def shard_atI)
  have has: "has_obj E k b \<longleftrightarrow> a_obj (embedded_abs E D) k \<noteq> None" using b(3) by (simp add: has_obj_def eq_at_def)
  show ?thesis
  proof (cases there)
    case False
    with no_objects_at(1) [OF E D] there have none: "a_obj (embedded_abs E D) k = None" by simp
    with absent_at(3) [OF D] D there False show ?thesis
      by (auto simp: delete_routed_then_def checked_route_key [OF D] split: prod.split)
  next
    case True
    from delete_any_law [OF E b(2), of k] obtain b' where b': "delete_any E k b = (has_obj E k b, b')" "bucket_inv E b'"
      "bucket_abs E b' = a_del k (bucket_abs E b)" by (auto simp: has_obj_def)
    have same: "same_but k A (a_del k A)" for A by (simp add: same_but_intros)
    have gone: "\<not> has_obj E k b'" by (simp add: has_obj_def b'(3) a_del_def)
    from embedded_write [OF E D b(4) b'(2)] same b'(3) obtain S' where S':
      "settle (home E mode n k) (has_obj E k b) (has_obj E k b') (write_bucket (home E mode n k) (hash_key E k) b' (objects D)) = Some S'"
      "embedded_ok E mode n (D\<lparr>objects := S'\<rparr>)" "same_but k (embedded_abs E D) (embedded_abs E (D\<lparr>objects := S'\<rparr>))"
      "eq_at k (bucket_abs E b') (embedded_abs E (D\<lparr>objects := S'\<rparr>))" by metis
    have "embedded_abs E (D\<lparr>objects := S'\<rparr>) = a_del k (embedded_abs E D)"
      by (rule astate_eqI [OF S'(3) same]) (use S'(4) b'(3) in \<open>simp add: eq_at_def a_del_def\<close>)
    with S' gone b b' there True has show ?thesis
      by (auto simp: delete_routed_then_def checked_route_key [OF D] settle_def split: prod.split if_splits)
  qed
qed

lemma key_live_cong: "eq_at k A B \<Longrightarrow> key_live A now k \<longleftrightarrow> key_live B now k"
  unfolding key_live_def using eq_at_live [of k A B now] by (auto simp: eq_at_def a_expired_def split: option.splits robj.splits)

lemma exists_law:
  assumes E: "env_ok E" and D: "embedded_ok E mode n D"
  shows "\<exists>D'. es_exists E k c1 c2 str pinned D =
      Some (if a_expired (embedded_abs E D) k c1 then str else key_live (embedded_abs E D) c2 k \<or> str \<or> pinned, D') \<and>
    embedded_ok E mode n D' \<and> embedded_abs E D' = a_drop k c1 (embedded_abs E D)"
proof -
  obtain b where b: "read_bucket (shard_id (route_key E D k)) (key_hash (route_key E D k)) (objects D) = Some b" "bucket_inv E b"
    "eq_at k (bucket_abs E b) (embedded_abs E D)" "b = bucket_of E (home E mode n) (objects D) k"
    "shard_id (route_key E D k) = home E mode n k" "key_hash (route_key E D k) = hash_key E k"
    "shard_id (route_key E D k) < length (shards (objects D))" using bucket_at_key [OF D] .
  obtain there where there: "shard_has_objects (shard_id (route_key E D k)) (objects D) = Some there"
    using b(7) by (auto simp: shard_has_objects_def shard_object_count_hint_def shard_atI)
  have exp: "has_expirations b \<and> object_is_expired b k c1 \<longleftrightarrow> a_expired (embedded_abs E D) k c1"
    using b(3) by (auto simp: eq_at_def a_expired_def has_expirations_def object_is_expired_def split: option.splits)
  have live: "contains_live_object E k c2 b = Some (key_live (embedded_abs E D) c2 k)"
    using contains_live_object_reads [OF E, of k c2] b(2) key_live_cong [OF b(3), of c2] by (simp add: reads_def)
  consider (empty) "\<not> there" | (expired) there "a_expired (embedded_abs E D) k c1" | (live) there "\<not> a_expired (embedded_abs E D) k c1"
    by blast
  then show ?thesis
  proof cases
    case empty
    with no_objects_at(1) [OF E D, of k] no_objects_at(2) [OF E D, of k c1] there D show ?thesis
      by (auto simp: es_exists_def a_drop_def key_live_def)
  next
    case expired
    from delete_expired_implements [OF E D expired(2)] expired there b exp show ?thesis
      by (auto simp: es_exists_def a_drop_def Let_def split: prod.splits)
  next
    case live
    with there b exp live D \<open>contains_live_object E k c2 b = _\<close> show ?thesis by (auto simp: es_exists_def a_drop_def)
  qed
qed

section \<open>TTLs: laws\<close>

lemma ttl_reap_eq:
  "ttl_reap E route k now S = do {
     b \<leftarrow> read_bucket (shard_id route) (key_hash route) S;
     (gone, b1) \<leftarrow> reap_expired E k now b;
     let S1 = write_bucket (shard_id route) (key_hash route) b1 S
     in if gone then map_option (Pair None) (note_deleted (shard_id route) S1) else Some (Some b1, S1)
   }"
proof -
  have "delete_expired E k now b = (False, b)" if "\<not> has_expirations b" for b
    using that by (simp add: delete_expired_def object_is_expired_def has_expirations_def)
  then show ?thesis
    unfolding ttl_reap_def reap_expired_def remove_expired_hash_if_empty_def Let_def
    by (intro arg_cong [where f = "Option.bind _"] ext) (auto split: prod.split)
qed

lemma clean_cong:
  assumes "eq_at k A B"
  shows "fst (a_clean k now A) = fst (a_clean k now B)"
  using assms eq_at_purge [of k A B now] by (auto simp: a_clean_def a_expired_def a_reap_def eq_at_def Let_def)

lemma ttl_reap_law:
  assumes E: "env_ok E" and D: "embedded_ok E mode n D"
  shows "\<exists>left S'. ttl_reap E (route_key E D k) k now (objects D) = Some (left, S') \<and> embedded_ok E mode n (D\<lparr>objects := S'\<rparr>) \<and>
    embedded_abs E (D\<lparr>objects := S'\<rparr>) = snd (a_clean k now (embedded_abs E D)) \<and>
    left = (if fst (a_clean k now (embedded_abs E D)) then None else Some (bucket_of E (home E mode n) S' k))"
proof -
  obtain b where b: "read_bucket (shard_id (route_key E D k)) (key_hash (route_key E D k)) (objects D) = Some b" "bucket_inv E b"
    "eq_at k (bucket_abs E b) (embedded_abs E D)" "b = bucket_of E (home E mode n) (objects D) k"
    "shard_id (route_key E D k) = home E mode n k" "key_hash (route_key E D k) = hash_key E k" using bucket_at_key [OF D] .
  let ?A = "bucket_abs E b"
  obtain b' where b': "reap_expired E k now b = Some (fst (a_clean k now ?A), b')" "bucket_inv E b'"
    "bucket_abs E b' = snd (a_clean k now ?A)" using reap_expired_law [OF E b(2)] by blast
  from embedded_write [OF E D b(4) b'(2)] same_but_clean b'(3) obtain S' where S':
    "settle (home E mode n k) (has_obj E k b) (has_obj E k b') (write_bucket (home E mode n k) (hash_key E k) b' (objects D)) = Some S'"
    "embedded_ok E mode n (D\<lparr>objects := S'\<rparr>)" "bucket_of E (home E mode n) S' k = b'"
    "same_but k (embedded_abs E D) (embedded_abs E (D\<lparr>objects := S'\<rparr>))"
    "eq_at k (bucket_abs E b') (embedded_abs E (D\<lparr>objects := S'\<rparr>))" by metis
  have "eq_at k (embedded_abs E (D\<lparr>objects := S'\<rparr>)) (snd (a_clean k now (embedded_abs E D)))"
    using S'(5) b'(3) eq_at_clean [OF b(3), of now] by (simp add: eq_at_def)
  with astate_eqI [OF S'(4) same_but_clean] have abs: "embedded_abs E (D\<lparr>objects := S'\<rparr>) = snd (a_clean k now (embedded_abs E D))"
    by blast
  have "has_obj E k b' \<Longrightarrow> has_obj E k b" "fst (a_clean k now ?A) \<longleftrightarrow> has_obj E k b \<and> \<not> has_obj E k b'"
    using a_clean_obj [OF b(2), of k now] by (auto simp: has_obj_def b'(3) a_clean_def a_reap_def Let_def a_del_def a_purge_def
      split: option.splits robj.splits if_splits)
  with S' abs b b' clean_cong [OF b(3), of now] show ?thesis
    by (auto simp: ttl_reap_eq settle_def split: if_splits)
qed

text \<open>What has been cleaned stays as it is.\<close>

lemma a_clean_clean:
  assumes "\<not> fst (a_clean k now A)"
  shows "\<not> a_expired (snd (a_clean k now A)) k now" "a_reap k now (snd (a_clean k now A)) = (False, snd (a_clean k now A))"
proof -
  from assms have A1: "snd (a_clean k now A) = a_purge k now A" "\<not> a_expired A k now" "a_obj (a_purge k now A) k \<noteq> Some (OHash Map.empty)"
    by (auto simp: a_clean_def a_reap_def Let_def split: if_splits)
  moreover have "a_ttl (a_purge k now A) = a_ttl A"
    by (simp add: a_purge_def split: option.split robj.split)
  ultimately show "\<not> a_expired (snd (a_clean k now A)) k now" by (simp add: a_expired_def)
  have "a_purge k now (a_purge k now A) = a_purge k now A"
  proof (cases "\<exists>m. a_obj A k = Some (OHash m)")
    case True
    then obtain m where m: "a_obj A k = Some (OHash m)" ..
    from a_dead_purge [OF m, of now] show ?thesis by (subst a_purge_def) (simp add: a_hash_id)
  qed (auto simp: a_purge_def split: option.split robj.split)
  with A1 show "a_reap k now (snd (a_clean k now A)) = (False, snd (a_clean k now A))"
    by (simp add: a_reap_def Let_def)
qed

definition spec_object_ttl :: "bytes \<Rightarrow> u64 \<Rightarrow> astate \<Rightarrow> int option \<times> astate" where
  "spec_object_ttl k now A =
     (let (gone, A1) = a_clean k now A;
          ttl = (case a_ttl A1 k of None \<Rightarrow> - 1 | Some t \<Rightarrow> u64_as_i64 (saturating_sub t now))
      in (if gone then Some (- 2) else if a_obj A1 k = None \<or> ttl = - 2 then None else Some ttl, A1))"

lemma no_write:
  assumes D: "embedded_ok E mode n D"
  shows "D\<lparr>objects := write_bucket (home E mode n k) (hash_key E k) (bucket_of E (home E mode n) (objects D) k) (objects D)\<rparr> = D"
proof -
  have "store_inv E (home E mode n) (objects D)" using D by (simp add: embedded_ok_def)
  from write_same [OF this embedded_route(1) [OF D]] show ?thesis by simp
qed

lemma cleaned_at:
  assumes "\<not> fst (a_clean k now A)" "eq_at k (snd (a_clean k now A)) B"
  shows "\<not> a_expired B k now" "a_reap k now B = (False, B)"
proof -
  note clean = a_clean_clean [OF assms(1)]
  show "\<not> a_expired B k now" using clean(1) assms(2) by (simp add: a_expired_def eq_at_def)
  have "fst (a_reap k now B) = False"
    using clean clean_cong [OF assms(2), of now] \<open>\<not> a_expired B k now\<close> by (simp add: a_clean_def)
  moreover have "eq_at k (snd (a_reap k now B)) B"
    using eq_at_reap [OF assms(2), of now] clean(2) assms(2) by (simp add: eq_at_def)
  then have "snd (a_reap k now B) = B" by (rule astate_eqI [OF same_but_reap same_but_refl])
  ultimately show "a_reap k now B = (False, B)" by (metis prod.collapse)
qed

lemma embedded_rewrite:
  assumes E: "env_ok E" and D: "embedded_ok E mode n D" and b: "b = bucket_of E (home E mode n) (objects D) k"
    and b': "bucket_inv E b'" "bucket_abs E b' = bucket_abs E b"
  shows "\<exists>S'. write_bucket (home E mode n k) (hash_key E k) b' (objects D) = S' \<and> embedded_ok E mode n (D\<lparr>objects := S'\<rparr>) \<and>
    embedded_abs E (D\<lparr>objects := S'\<rparr>) = embedded_abs E D"
proof -
  have "same_but k (bucket_abs E b) (bucket_abs E b')" by (simp add: b'(2) same_but_refl)
  from embedded_write [OF E D b b'(1) this] b'(2) obtain S' where S': "write_bucket (home E mode n k) (hash_key E k) b' (objects D) = S'"
    "embedded_ok E mode n (D\<lparr>objects := S'\<rparr>)" "same_but k (embedded_abs E D) (embedded_abs E (D\<lparr>objects := S'\<rparr>))"
    "eq_at k (bucket_abs E b') (embedded_abs E (D\<lparr>objects := S'\<rparr>))" by (auto simp: settle_def has_obj_def)
  have "eq_at k (bucket_abs E b) (embedded_abs E D)"
    using eq_at_store [of k E "home E mode n" "objects D"] by (simp add: b embedded_route(4) [OF D])
  then have "eq_at k (embedded_abs E (D\<lparr>objects := S'\<rparr>)) (embedded_abs E D)" using S'(4) b'(2) by (simp add: eq_at_def)
  from astate_eqI [OF S'(3) same_but_refl this] S' show ?thesis by blast
qed

text \<open>The store after the common beginning, when the object is still there or never was.\<close>

lemma objects_there_or_not:
  assumes E: "env_ok E" and D: "embedded_ok E mode n D"
  obtains (none) "shard_has_objects (shard_id (route_key E D k)) (objects D) = Some False"
      "a_clean k now (embedded_abs E D) = (False, embedded_abs E D)" "a_obj (embedded_abs E D) k = None"
  | (gone) S' where "shard_has_objects (shard_id (route_key E D k)) (objects D) = Some True"
      "ttl_reap E (route_key E D k) k now (objects D) = Some (None, S')" "fst (a_clean k now (embedded_abs E D))"
      "embedded_ok E mode n (D\<lparr>objects := S'\<rparr>)" "embedded_abs E (D\<lparr>objects := S'\<rparr>) = snd (a_clean k now (embedded_abs E D))"
      "a_obj (snd (a_clean k now (embedded_abs E D))) k = None"
  | (left) S' b where "shard_has_objects (shard_id (route_key E D k)) (objects D) = Some True"
      "ttl_reap E (route_key E D k) k now (objects D) = Some (Some b, S')" "\<not> fst (a_clean k now (embedded_abs E D))"
      "embedded_ok E mode n (D\<lparr>objects := S'\<rparr>)" "embedded_abs E (D\<lparr>objects := S'\<rparr>) = snd (a_clean k now (embedded_abs E D))"
      "bucket_inv E b" "b = bucket_of E (home E mode n) S' k" "eq_at k (bucket_abs E b) (snd (a_clean k now (embedded_abs E D)))"
      "\<not> a_expired (bucket_abs E b) k now"
proof -
  let ?A = "embedded_abs E D"
  have r: "shard_id (route_key E D k) < length (shards (objects D))" using bucket_at_key [OF D, of k] by metis
  then obtain there where there: "shard_has_objects (shard_id (route_key E D k)) (objects D) = Some there"
    by (auto simp: shard_has_objects_def shard_object_count_hint_def shard_atI)
  show thesis
  proof (cases there)
    case False
    with no_objects_at [OF E D] there have "a_obj ?A k = None" "\<not> a_expired ?A k now" by auto
    moreover from this have "a_clean k now ?A = (False, ?A)" by (simp add: a_clean_def a_reap_def a_purge_def)
    ultimately show thesis using none False there by simp
  next
    case True
    obtain lft S' where S': "ttl_reap E (route_key E D k) k now (objects D) = Some (lft, S')" "embedded_ok E mode n (D\<lparr>objects := S'\<rparr>)"
      "embedded_abs E (D\<lparr>objects := S'\<rparr>) = snd (a_clean k now ?A)"
      "lft = (if fst (a_clean k now ?A) then None else Some (bucket_of E (home E mode n) S' k))"
      using ttl_reap_law [OF E D] by blast
    show thesis
    proof (cases "fst (a_clean k now ?A)")
      case gn: True
      then have "a_obj (snd (a_clean k now ?A)) k = None" by (auto simp: a_clean_def a_del_def a_reap_gone split: if_splits)
      with gone [of S'] gn S' there True show thesis by simp
    next
      case False
      obtain b where b: "bucket_inv E b" "eq_at k (bucket_abs E b) (embedded_abs E (D\<lparr>objects := S'\<rparr>))"
        "b = bucket_of E (home E mode n) (objects (D\<lparr>objects := S'\<rparr>)) k" using bucket_at_key [OF S'(2), of k] by metis
      have "\<not> a_expired (bucket_abs E b) k now" using cleaned_at(1) [OF False] b(2) S'(3) by (metis eq_at_sym)
      with left [of b S'] False S' b there True show thesis by simp
    qed
  qed
qed

lemma object_ttl_implements:
  assumes E: "env_ok E"
  shows "implements E (object_ttl E k now) (spec_object_ttl k now)"
proof (rule implementsI)
  fix mode n D assume D: "embedded_ok E mode n D"
  let ?A = "embedded_abs E D"
  have r: "shard_id (route_key E D k) = home E mode n k" "key_hash (route_key E D k) = hash_key E k"
    using bucket_at_key [OF D, of k] by metis+
  from E D show "\<exists>r D'. object_ttl E k now D = Some (r, D') \<and> embedded_ok E mode n D' \<and> spec_object_ttl k now ?A = (r, embedded_abs E D')"
  proof (cases rule: objects_there_or_not [where k = k and now = now])
    case none
    with D show ?thesis by (auto simp: object_ttl_def spec_object_ttl_def)
  next
    case (gone S')
    then show ?thesis by (auto simp: object_ttl_def spec_object_ttl_def split: prod.split)
  next
    case (left S' b)
    have clean: "a_reap k now (bucket_abs E b) = (False, bucket_abs E b)" using cleaned_at(2) [OF left(3)] left(8) by (metis eq_at_sym)
    obtain ttl b1 where t: "ttl_millis E k now b = Some (ttl, b1)" "bucket_inv E b1" "spec_ttl_millis k now (bucket_abs E b) = (ttl, bucket_abs E b1)"
      using ttl_millis_law [OF E left(6)] by blast
    have same: "bucket_abs E b1 = bucket_abs E b" and ttl: "ttl = (if a_obj (bucket_abs E b) k = None then - 2
        else case a_ttl (bucket_abs E b) k of None \<Rightarrow> - 1 | Some t \<Rightarrow> u64_as_i64 (saturating_sub t now))"
      using t(3) clean left(9) by (auto simp: spec_ttl_millis_def Let_def)
    from embedded_rewrite [OF E left(4) _ t(2), of b k] left(7) same obtain S2 where S2:
      "write_bucket (home E mode n k) (hash_key E k) b1 S' = S2" "embedded_ok E mode n (D\<lparr>objects := S2\<rparr>)"
      "embedded_abs E (D\<lparr>objects := S2\<rparr>) = embedded_abs E (D\<lparr>objects := S'\<rparr>)" by auto
    have "spec_object_ttl k now ?A = (if ttl \<noteq> - 2 then Some ttl else None, snd (a_clean k now ?A))"
      using left(3,8) ttl by (auto simp: spec_object_ttl_def eq_at_def split: prod.split)
    with left S2 t(1) r show ?thesis by (auto simp: object_ttl_def)
  qed
qed

lemma expire_routed_law:
  fixes k :: bytes and now :: u64
  assumes E: "env_ok E" and D: "embedded_ok E mode n D"
  defines "A1 \<equiv> snd (a_clean k now (embedded_abs E D))"
  shows "\<exists>D'. embedded_ok E mode n D' \<and>
    embedded_abs E D' = (if a_obj A1 k = None then A1 else A1\<lparr>a_ttl := (a_ttl A1)(k \<mapsto> t)\<rparr>) \<and>
    expire_routed_then E (route_key E D k) k t now strings D M =
      Some (if a_obj A1 k \<noteq> None then (True, D', M)
            else if fst (a_clean k now (embedded_abs E D)) then (False, D', M)
            else (fst (strings M), D', snd (strings M)))"
  using E D
proof (cases rule: objects_there_or_not [where k = k and now = now])
  case none
  with D show ?thesis by (auto simp: A1_def expire_routed_then_def checked_route_key [OF D] split: prod.split)
next
  case (gone S')
  with D show ?thesis by (auto simp: A1_def expire_routed_then_def checked_route_key [OF D])
next
  case (left S' b)
  let ?D = "D\<lparr>objects := S'\<rparr>"
  have r: "shard_id (route_key E D k) = home E mode n k" "key_hash (route_key E D k) = hash_key E k"
    using bucket_at_key [OF D, of k] by metis+
  obtain fl b' where b': "expire E k t now b = (fl, b')" "bucket_inv E b'" "spec_expire k t now (bucket_abs E b) = (fl, bucket_abs E b')"
    using expire_law [OF E left(6)] by blast
  have obj: "a_obj (bucket_abs E b) k = a_obj A1 k" using left(8) by (simp add: A1_def eq_at_def)
  have sp: "fl \<longleftrightarrow> a_obj A1 k \<noteq> None" "bucket_abs E b' = (if fl then bucket_abs E b\<lparr>a_ttl := (a_ttl (bucket_abs E b))(k \<mapsto> t)\<rparr> else bucket_abs E b)"
    using b'(3) left(9) obj by (auto simp: spec_expire_def split: if_splits)
  have "same_but k (bucket_abs E b) (bucket_abs E b')" by (simp add: sp(2) same_but_def)
  from embedded_write [OF E left(4) _ b'(2) this] left(7) sp(2) obtain S2 where S2:
    "write_bucket (home E mode n k) (hash_key E k) b' S' = S2" "embedded_ok E mode n (D\<lparr>objects := S2\<rparr>)"
    "same_but k (embedded_abs E ?D) (embedded_abs E (D\<lparr>objects := S2\<rparr>))" "eq_at k (bucket_abs E b') (embedded_abs E (D\<lparr>objects := S2\<rparr>))"
    by (auto simp: settle_def has_obj_def split: if_splits)
  let ?A2 = "if a_obj A1 k = None then A1 else A1\<lparr>a_ttl := (a_ttl A1)(k \<mapsto> t)\<rparr>"
  have "embedded_abs E (D\<lparr>objects := S2\<rparr>) = ?A2"
  proof (rule astate_eqI [OF S2(3)])
    show "same_but k (embedded_abs E ?D) ?A2" by (simp add: left(5) A1_def same_but_def)
    show "eq_at k (embedded_abs E (D\<lparr>objects := S2\<rparr>)) ?A2"
      using S2(4) sp left(8) by (auto simp: eq_at_def A1_def split: if_splits)
  qed
  moreover have "contains_object E b' k \<longleftrightarrow> a_obj A1 k \<noteq> None"
    using type_tests(1) [OF E b'(2), of k] sp obj by (auto split: if_splits)
  ultimately show ?thesis
    using left b' sp S2 r by (auto simp: A1_def expire_routed_then_def checked_route_key [OF D] split: prod.split)
qed

lemma persist_routed_law:
  fixes k :: bytes and now :: u64
  assumes E: "env_ok E" and D: "embedded_ok E mode n D"
  defines "A1 \<equiv> snd (a_clean k now (embedded_abs E D))"
  shows "\<exists>D'. embedded_ok E mode n D' \<and> embedded_abs E D' = A1\<lparr>a_ttl := (a_ttl A1)(k := None)\<rparr> \<and>
    es_persist E k True now strings D M =
      Some (if a_obj A1 k \<noteq> None \<or> fst (a_clean k now (embedded_abs E D)) then (a_ttl A1 k \<noteq> None, D', M)
            else (fst (strings M), D', snd (strings M)))"
proof -
  have ttl: "a_ttl A1 k = None" if "a_obj A1 k = None" "embedded_ok E mode n D'" "embedded_abs E D' = A1" for D'
    using absent_at(1) [OF that(2), of k] that(1,3) by simp
  have id: "A1\<lparr>a_ttl := (a_ttl A1)(k := None)\<rparr> = A1" if "a_ttl A1 k = None" using that by (simp add: fun_upd_idem)
  from E D show ?thesis
  proof (cases rule: objects_there_or_not [where k = k and now = now])
    case none
    then have A1: "A1 = embedded_abs E D" by (simp add: A1_def)
    then have "a_obj A1 k = None" "a_ttl A1 k = None" using none(3) absent_at(1) [OF D none(3)] by simp_all
    with A1 show ?thesis using none(1,2) D id by (intro exI [of _ D]) (simp add: es_persist_def split: prod.split)
  next
    case (gone S')
    then have "a_ttl A1 k = None" using ttl [OF _ gone(4)] by (simp add: A1_def)
    with gone id show ?thesis by (intro exI [of _ "D\<lparr>objects := S'\<rparr>"]) (simp add: es_persist_def A1_def)
  next
    case (left S' b)
    let ?D = "D\<lparr>objects := S'\<rparr>"
    have r: "shard_id (route_key E D k) = home E mode n k" "key_hash (route_key E D k) = hash_key E k"
      using bucket_at_key [OF D, of k] by metis+
    obtain fl b' where b': "persist E k now b = (fl, b')" "bucket_inv E b'" "spec_persist k now (bucket_abs E b) = (fl, bucket_abs E b')"
      using persist_law [OF E left(6)] by blast
    have at: "a_obj (bucket_abs E b) k = a_obj A1 k" "a_ttl (bucket_abs E b) k = a_ttl A1 k" using left(8) by (auto simp: A1_def eq_at_def)
    have sp: "fl \<longleftrightarrow> a_ttl A1 k \<noteq> None" "bucket_abs E b' = bucket_abs E b\<lparr>a_ttl := (a_ttl (bucket_abs E b))(k := None)\<rparr>"
      using b'(3) left(9) at by (auto simp: spec_persist_def)
    have "same_but k (bucket_abs E b) (bucket_abs E b')" by (simp add: sp(2) same_but_def)
    from embedded_write [OF E left(4) _ b'(2) this] left(7) sp(2) obtain S2 where S2:
      "write_bucket (home E mode n k) (hash_key E k) b' S' = S2" "embedded_ok E mode n (D\<lparr>objects := S2\<rparr>)"
      "same_but k (embedded_abs E ?D) (embedded_abs E (D\<lparr>objects := S2\<rparr>))" "eq_at k (bucket_abs E b') (embedded_abs E (D\<lparr>objects := S2\<rparr>))"
      by (auto simp: settle_def has_obj_def)
    have "embedded_abs E (D\<lparr>objects := S2\<rparr>) = A1\<lparr>a_ttl := (a_ttl A1)(k := None)\<rparr>"
      by (rule astate_eqI [OF S2(3)]) (use S2(4) sp(2) left(5,8) in \<open>auto simp: same_but_def eq_at_def A1_def\<close>)
    moreover have "contains_object E b' k \<longleftrightarrow> a_obj A1 k \<noteq> None" using type_tests(1) [OF E b'(2), of k] sp(2) at(1) by simp
    moreover have "a_obj A1 k = None \<Longrightarrow> a_ttl A1 k = None" using ttl [OF _ left(4)] left(5) by (simp add: A1_def)
    ultimately show ?thesis using left b' sp S2 r by (auto simp: es_persist_def A1_def split: prod.split)
  qed
qed

section \<open>Values: laws\<close>

definition spec_set_value :: "bytes \<Rightarrow> robj \<Rightarrow> u64 option \<Rightarrow> astate \<Rightarrow> astate" where
  "spec_set_value k ob at_ms A = a_at k (Some ob) at_ms Map.empty A"

lemma put_del_at: "a_put k ob (a_del k A) = a_at k (Some ob) None Map.empty A"
  by (simp add: a_put_def a_del_def a_at_def)

lemma notify_shard_ok:
  assumes D: "embedded_ok E mode n (D\<lparr>objects := S\<rparr>)"
  shows "\<exists>S'. (if fl then map_option snd (notify_shard_waiters (home E mode n k) S) else Some S) = Some S' \<and>
    embedded_ok E mode n (D\<lparr>objects := S'\<rparr>) \<and> embedded_abs E (D\<lparr>objects := S'\<rparr>) = embedded_abs E (D\<lparr>objects := S\<rparr>)"
proof (cases fl)
  case True
  have r: "shard_id (route_key E (D\<lparr>objects := S\<rparr>) k) = home E mode n k" using bucket_at_key [OF D, of k] by metis
  from notify_key_ok [OF D, of k] obtain D' where D': "notify_redis_object_key E k (D\<lparr>objects := S\<rparr>) = Some D'"
    "embedded_ok E mode n D'" "embedded_abs E D' = embedded_abs E (D\<lparr>objects := S\<rparr>)" by blast
  from D'(1) obtain f S' where "notify_shard_waiters (home E mode n k) S = Some (f, S')" "D' = D\<lparr>objects := S'\<rparr>"
    by (auto simp: notify_redis_object_key_def r)
  with D' True show ?thesis by simp
qed (use D in simp)

lemma insert_expire_law:
  assumes E: "env_ok E" and b: "bucket_inv E b" and v: "value_nonempty v"
  obtains b1 b2 where "insert_value E k v b = Some (\<not> has_obj E k b, b1)" "bucket_inv E b1"
    "bucket_abs E b1 = a_at k (Some (value_obj v)) None Map.empty (bucket_abs E b)"
    "(case at_ms of None \<Rightarrow> b1 | Some t \<Rightarrow> snd (expire E k t now b1)) = b2" "bucket_inv E b2"
    "bucket_abs E b2 = a_at k (Some (value_obj v)) at_ms Map.empty (bucket_abs E b)"
proof -
  obtain b1 where b1: "insert_value E k v b = Some (\<not> has_obj E k b, b1)" "bucket_inv E b1"
    "bucket_abs E b1 = a_at k (Some (value_obj v)) None Map.empty (bucket_abs E b)"
    using insert_value_law [OF E b v, of k] by (auto simp: has_obj_def put_del_at)
  have "bucket_inv E (snd (expire E k t now b1)) \<and>
      bucket_abs E (snd (expire E k t now b1)) = a_at k (Some (value_obj v)) (Some t) Map.empty (bucket_abs E b)" for t
    using expire_law [OF E b1(2), of k t now] b1(3) by (auto simp: spec_expire_def a_expired_def a_at_def)
  with b1 show thesis by (intro that [OF b1 refl]) (auto split: option.split)
qed

lemma set_value_law:
  assumes E: "env_ok E" and D: "embedded_ok E mode n D" and v: "value_nonempty v"
  shows "\<exists>D'. set_object_value_expire_at E k v at_ms now drop_strings D M = Some (D', drop_strings M) \<and> embedded_ok E mode n D' \<and>
    embedded_abs E D' = spec_set_value k (value_obj v) at_ms (embedded_abs E D)"
proof -
  let ?new = "\<lambda>t. a_at k (Some (value_obj v)) t Map.empty"
  obtain b where b: "read_bucket (shard_id (route_key E D k)) (key_hash (route_key E D k)) (objects D) = Some b" "bucket_inv E b"
    "b = bucket_of E (home E mode n) (objects D) k" "shard_id (route_key E D k) = home E mode n k"
    "key_hash (route_key E D k) = hash_key E k" using bucket_at_key [OF D] .
  obtain b1 b2 where b1: "insert_value E k v b = Some (\<not> has_obj E k b, b1)" "bucket_inv E b1" "bucket_abs E b1 = ?new None (bucket_abs E b)"
    and b2: "(case at_ms of None \<Rightarrow> b1 | Some t \<Rightarrow> snd (expire E k t now b1)) = b2" "bucket_inv E b2"
      "bucket_abs E b2 = ?new at_ms (bucket_abs E b)" using insert_expire_law [OF E b(2) v] by metis
  have has: "has_obj E k b1" "has_obj E k b2" by (simp_all add: has_obj_def b1(3) b2(3) a_at_def)
  have same: "same_but k A (?new t A)" for A t by (simp add: same_but_intros)
  from embedded_write [OF E D b(3) b1(2)] b1(3) same has obtain S1 where S1:
    "(if \<not> has_obj E k b then note_created (home E mode n k) (write_bucket (home E mode n k) (hash_key E k) b1 (objects D))
      else Some (write_bucket (home E mode n k) (hash_key E k) b1 (objects D))) = Some S1"
    "embedded_ok E mode n (D\<lparr>objects := S1\<rparr>)" "bucket_of E (home E mode n) S1 k = b1"
    "same_but k (embedded_abs E D) (embedded_abs E (D\<lparr>objects := S1\<rparr>))" by (auto simp: settle_def split: if_splits)
  have "same_but k (bucket_abs E b1) (bucket_abs E b2)" by (simp add: b1(3) b2(3) same_but_def a_at_def)
  from embedded_write [OF E S1(2) _ b2(2) this] S1(3) has obtain S2 where S2:
    "write_bucket (home E mode n k) (hash_key E k) b2 S1 = S2" "embedded_ok E mode n (D\<lparr>objects := S2\<rparr>)"
    "same_but k (embedded_abs E (D\<lparr>objects := S1\<rparr>)) (embedded_abs E (D\<lparr>objects := S2\<rparr>))"
    "eq_at k (bucket_abs E b2) (embedded_abs E (D\<lparr>objects := S2\<rparr>))" by (auto simp: settle_def)
  have abs: "embedded_abs E (D\<lparr>objects := S2\<rparr>) = ?new at_ms (embedded_abs E D)"
    by (rule astate_eqI [OF same_but_trans [OF S1(4) S2(3)] same]) (use S2(4) b2(3) in \<open>simp add: eq_at_def a_at_def\<close>)
  have had: "contains_object E b k = has_obj E k b" by (rule contains_has_obj [OF E b(2)])
  define fl where "fl = (case v of ListValue es \<Rightarrow> es \<noteq> [] | ZSetValue es \<Rightarrow> es \<noteq> [] | _ \<Rightarrow> False)"
  from notify_shard_ok [OF S2(2), of fl k] obtain S3 where S3:
    "(if fl then map_option snd (notify_shard_waiters (home E mode n k) S2) else Some S2) = Some S3"
    "embedded_ok E mode n (D\<lparr>objects := S3\<rparr>)" "embedded_abs E (D\<lparr>objects := S3\<rparr>) = embedded_abs E (D\<lparr>objects := S2\<rparr>)" by blast
  have "set_object_value_expire_at E k v at_ms now drop_strings D M = Some (D\<lparr>objects := S3\<rparr>, drop_strings M)"
    unfolding set_object_value_expire_at_def fl_def [symmetric] using b b1(1) b2(1) S1(1) S2(1) S3(1) had
    by (cases "has_obj E k b"; cases fl) (simp_all add: Let_def del: map_option_eq_Some)
  with S3 abs show ?thesis by (auto simp: spec_set_value_def)
qed

lemma clone_object_law:
  assumes E: "env_ok E" and D: "embedded_ok E mode n D"
  shows "\<exists>v D'. clone_object_value E k c1 c2 c3 D = Some (v, D') \<and> embedded_ok E mode n D' \<and>
    embedded_abs E D' = a_drop k c1 (embedded_abs E D) \<and>
    map_option value_obj v = (if a_expired (embedded_abs E D) k c1 then None else spec_clone k c2 c3 (embedded_abs E D)) \<and>
    (\<forall>x. v = Some x \<longrightarrow> value_nonempty x)"
proof -
  obtain b where b: "read_bucket (shard_id (route_key E D k)) (key_hash (route_key E D k)) (objects D) = Some b" "bucket_inv E b"
    "eq_at k (bucket_abs E b) (embedded_abs E D)" "b = bucket_of E (home E mode n) (objects D) k"
    "shard_id (route_key E D k) = home E mode n k" "key_hash (route_key E D k) = hash_key E k" using bucket_at_key [OF D] .
  have exp: "has_expirations b \<and> object_is_expired b k c1 \<longleftrightarrow> a_expired (embedded_abs E D) k c1"
    using b(3) by (auto simp: eq_at_def a_expired_def has_expirations_def object_is_expired_def split: option.splits)
  show ?thesis
  proof (cases "a_expired (embedded_abs E D) k c1")
    case True
    from delete_expired_implements [OF E D True] True b exp show ?thesis
      by (auto simp: clone_object_value_def a_drop_def Let_def split: prod.splits)
  next
    case False
    have "spec_clone k c2 c3 (bucket_abs E b) = spec_clone k c2 c3 (embedded_abs E D)"
      using eq_at_live [OF b(3), of c2] eq_at_live [OF b(3), of c3] b(3)
      by (auto simp: spec_clone_def eq_at_def split: option.splits robj.splits)
    with clone_value_law [OF E b(2), of k c2 c3] False b exp D show ?thesis
      by (auto simp: clone_object_value_def a_drop_def)
  qed
qed

section \<open>Type: law\<close>

lemma metadata_law:
  assumes E: "env_ok E" and D: "embedded_ok E mode n D" and look: "reads E (lookup c1) rd" "local_read k rd" "c1 \<le> c2"
    and none: "\<And>A. a_obj A k = None \<Longrightarrow> rd A = None"
  shows "\<exists>D'. redis_object_metadata E k c1 c2 lookup D = Some (if a_expired (embedded_abs E D) k c1 then None else rd (embedded_abs E D), D') \<and>
    embedded_ok E mode n D' \<and> embedded_abs E D' = a_drop k c1 (embedded_abs E D)"
proof -
  obtain b where b: "read_bucket (shard_id (route_key E D k)) (key_hash (route_key E D k)) (objects D) = Some b" "bucket_inv E b"
    "eq_at k (bucket_abs E b) (embedded_abs E D)" "b = bucket_of E (home E mode n) (objects D) k"
    "shard_id (route_key E D k) = home E mode n k" "key_hash (route_key E D k) = hash_key E k"
    "shard_id (route_key E D k) < length (shards (objects D))" using bucket_at_key [OF D] .
  obtain there where there: "shard_has_objects (shard_id (route_key E D k)) (objects D) = Some there"
    using b(7) by (auto simp: shard_has_objects_def shard_object_count_hint_def shard_atI)
  have exp: "has_expirations b \<and> object_is_expired b k c1 \<longleftrightarrow> a_expired (embedded_abs E D) k c1"
    using b(3) by (auto simp: eq_at_def a_expired_def has_expirations_def object_is_expired_def split: option.splits)
  have rd: "lookup c1 b = Some (rd (embedded_abs E D))"
    using look(1,2) b(2,3) by (auto simp: reads_def local_read_def)
  consider (empty) "\<not> there" | (expired) there "a_expired (embedded_abs E D) k c1" | (live) there "\<not> a_expired (embedded_abs E D) k c1"
    by blast
  then show ?thesis
  proof cases
    case empty
    with no_objects_at(1) [OF E D, of k] no_objects_at(2) [OF E D, of k c1] there D none show ?thesis
      by (auto simp: redis_object_metadata_def a_drop_def)
  next
    case expired
    with look(3) have "a_expired (embedded_abs E D) k c2" by (auto simp: a_expired_def split: option.splits)
    from delete_expired_implements [OF E D this] expired there b exp show ?thesis
      by (auto simp: redis_object_metadata_def a_drop_def Let_def split: prod.splits)
  next
    case live
    with there b exp rd D show ?thesis by (auto simp: redis_object_metadata_def a_drop_def)
  qed
qed

lemma type_local:
  "local_read k (\<lambda>A. case a_obj A k of Some (OHash m) \<Rightarrow> if a_live A k now = Map.empty then None else Some ''hash'' | ob \<Rightarrow> map_option type_of ob)"
proof -
  have eq: "a_obj A k = a_obj B k" "a_live A k now = a_live B k now" if "eq_at k A B" for A B
    using that eq_at_live [OF that, of now] unfolding eq_at_def by blast+
  show ?thesis
    unfolding local_read_def by (intro allI impI) (simp only: eq)
qed

lemma type_law:
  assumes E: "env_ok E" and D: "embedded_ok E mode n D" and c: "c1 \<le> c2"
  shows "\<exists>D'. redis_type E k c1 c2 string_value vector pinned D =
      Some (if key_live (embedded_abs E D) c1 k then type_of (the (a_obj (embedded_abs E D) k))
            else case string_value of Some v \<Rightarrow> if vector v then ''vectorset'' else ''string''
                 | None \<Rightarrow> if pinned then ''vectorset'' else ''none'', D') \<and>
    embedded_ok E mode n D' \<and> embedded_abs E D' = a_drop k c1 (embedded_abs E D)"
proof -
  let ?rd = "\<lambda>A. case a_obj A k of Some (OHash m) \<Rightarrow> if a_live A k c1 = Map.empty then None else Some ''hash'' | ob \<Rightarrow> map_option type_of ob"
  have kind: "(if a_expired A k c1 then None else ?rd A) = (if key_live A c1 k then Some (type_of (the (a_obj A k))) else None)" for A
    by (auto simp: key_live_def type_of_def split: option.split robj.split)
  from metadata_law [OF E D, where rd = ?rd and lookup = "\<lambda>now_ms b. type_name E k now_ms b", OF _ type_local c] type_name_reads [OF E, of k c1]
  obtain D' where "redis_object_metadata E k c1 c2 (\<lambda>now_ms b. type_name E k now_ms b) D = Some (if key_live (embedded_abs E D) c1 k
      then Some (type_of (the (a_obj (embedded_abs E D) k))) else None, D')"
    "embedded_ok E mode n D'" "embedded_abs E D' = a_drop k c1 (embedded_abs E D)"
    unfolding kind by (auto simp: reads_def)
  then show ?thesis by (auto simp: redis_type_def)
qed

section \<open>What the commands do not guarantee\<close>

text \<open>\<^verbatim>\<open>set_members\<close> answers with the members of a set whose TTL is over, where \<^verbatim>\<open>smembers\<close> answers with none.\<close>

lemma stale_members:
  assumes E: "env_ok E" and D: "embedded_ok E mode n D" and ob: "a_obj (embedded_abs E D) k = Some (OSet S)"
    and over: "a_expired (embedded_abs E D) k now"
  shows "es_set_members E k False D = Some (Inr (sorted_list_of_set S))"
    "\<exists>D'. es_smembers E k now False D = Some (Array [], D')"
proof -
  obtain b where b: "read_bucket (shard_id (route_key E D k)) (key_hash (route_key E D k)) (objects D) = Some b" "bucket_inv E b"
    "eq_at k (bucket_abs E b) (embedded_abs E D)" using bucket_at_key [OF D] .
  have "set_members E k b = Some (Inr (sorted_list_of_set S))"
    using set_members_reads [OF E, of k] b(2,3) ob by (simp add: reads_def read_obj_def eq_at_def)
  with b(1) show "es_set_members E k False D = Some (Inr (sorted_list_of_set S))"
    by (simp add: es_set_members_def es_unrouted_read_def)
  have "spec_read k now False (read_obj as_set k (Array []) WrongType (\<lambda>S. Array (map Some (sorted_list_of_set S)))) (embedded_abs E D) =
      (Array [], a_del k (embedded_abs E D))"
    using over by (simp add: spec_read_def a_tidy_def a_over_def read_obj_def)
  with implementsD [OF smembers_at.object_read_implements [OF E, of k now False] D]
  show "\<exists>D'. es_smembers E k now False D = Some (Array [], D')" by (auto simp: es_smembers_def)
qed

text \<open>The counters of a store are the number of its objects.\<close>

lemma stored_keys_abs:
  assumes S: "store_inv E place S" and pl: "\<And>x. place x < length (shards S)"
  shows "stored_keys E S = dom (a_obj (store_abs E place S))"
proof (intro set_eqI iffI)
  fix k assume "k \<in> stored_keys E S"
  then obtain sh b where sb: "sh \<in> set (shards S)" "b \<in> set (buckets sh)" "a_obj (bucket_abs E b) k \<noteq> None"
    by (auto simp: stored_keys_def)
  then obtain i j where ij: "i < length (shards S)" "sh = shards S ! i" "j < length (buckets sh)" "b = buckets sh ! j"
    by (metis in_set_conv_nth)
  have "shard_ok E place 0 i sh" using S ij by (simp add: store_ok_def)
  with ij sb(3) have "bucket_index (hash_key E k) = j" "place k = i" by (auto simp: shard_ok_def bucket_at_def)
  with ij sb(3) show "k \<in> dom (a_obj (store_abs E place S))" by (auto simp: store_abs_def bucket_of_def)
next
  fix k assume "k \<in> dom (a_obj (store_abs E place S))"
  moreover have "bucket_of E place S k \<in> set (buckets (shards S ! place k))"
    using S pl [of k] bucket_index_less [of "hash_key E k"] by (auto simp: store_ok_def shard_ok_def bucket_of_def)
  moreover have "shards S ! place k \<in> set (shards S)" using pl [of k] by simp
  ultimately show "k \<in> stored_keys E S" by (auto simp: stored_keys_def store_abs_def)
qed

lemma embedded_count:
  assumes E: "env_ok E" and D: "embedded_ok E mode n D"
  shows "sum_list (map object_count (shards (objects D))) = int (card (dom (a_obj (embedded_abs E D))))"
    "finite (dom (a_obj (embedded_abs E D)))"
proof -
  have S: "store_inv E (home E mode n) (objects D)" using D by (simp add: embedded_ok_def)
  show "sum_list (map object_count (shards (objects D))) = int (card (dom (a_obj (embedded_abs E D))))"
    "finite (dom (a_obj (embedded_abs E D)))"
    using object_count_law [OF E S] stored_keys_abs [OF S embedded_route(1) [OF D]] by (simp_all add: embedded_route(4) [OF D])
qed

lemma sum_list_bump: "i < length xs \<Longrightarrow> sum_list (xs[i := xs ! i + 1]) = sum_list xs + (1 :: int)"
  by (induction xs arbitrary: i) (auto split: nat.split)

lemma note_created_sum:
  fixes S :: "('h, 't) store"
  assumes "sid < length (shards S)"
  shows "\<exists>S'. note_created sid S = Some S' \<and> sum_list (map object_count (shards S')) = sum_list (map object_count (shards S)) + 1 \<and>
    (\<forall>E place. store_abs E place S' = store_abs E place S)"
proof -
  let ?sh = "(shards S ! sid)\<lparr>object_count := object_count (shards S ! sid) + 1\<rparr>"
  obtain S' where S': "note_created sid S = Some S'" "shards S' = (shards S)[sid := ?sh]"
    using assms by (auto simp: note_created_def shard_atI put_shard_def Let_def)
  have "sum_list (map object_count (shards S')) = sum_list (map object_count (shards S)) + 1"
    using assms sum_list_bump [of sid "map object_count (shards S)"] by (simp add: S'(2) map_update)
  moreover have "buckets (shards S' ! i) = buckets (shards S ! i)" for i
    using assms by (cases "i = sid") (simp_all add: S'(2))
  then have "store_abs E place S' = store_abs E place S" for E :: "('h, 't) env" and place by (simp add: store_abs_def bucket_of_def)
  ultimately show ?thesis using S'(1) by blast
qed

text \<open>\<^verbatim>\<open>HSETEX\<close> with a deadline that is over, on a key without an object: no object appears, and one more is counted.\<close>

lemma hsetex_drift:
  assumes E: "env_ok E" and D: "embedded_ok E mode n D" and none: "a_obj (embedded_abs E D) k = None"
    and args: "fvs \<noteq> []" "set_allowed condition 0 (length fvs)" "t \<le> c"
  shows "\<exists>D'. es_hsetex E k fvs condition (SetExpireAt t) c now False D = Some (Integer 1, D') \<and>
    embedded_abs E D' = embedded_abs E D \<and>
    sum_list (map object_count (shards (objects D'))) = int (card (dom (a_obj (embedded_abs E D')))) + 1"
proof -
  have S: "store_inv E (home E mode n) (objects D)" using D by (simp add: embedded_ok_def)
  note pl = embedded_route(1) [OF D] and rt = embedded_route(2) [OF D, of k]
  obtain b S1 where b: "reap_at E (route_key E D k) k now (objects D) = Some (b, S1)" "store_inv E (home E mode n) S1"
    "length (shards S1) = length (shards (objects D))" "bucket_of E (home E mode n) S1 k = b" "bucket_inv E b"
    "bucket_abs E b = snd (a_clean k now (bucket_abs E (bucket_of E (home E mode n) (objects D) k)))"
    "same_but k (store_abs E (home E mode n) (objects D)) (store_abs E (home E mode n) S1)"
    using reap_at_law [OF E S pl rt, of now] by blast
  have D1: "embedded_ok E mode n (D\<lparr>objects := S1\<rparr>)" using D b by (simp add: embedded_ok_def)
  have at: "eq_at k (bucket_abs E (bucket_of E (home E mode n) (objects D) k)) (embedded_abs E D)"
    using eq_at_store [of k E "home E mode n"] by (simp add: embedded_route(4) [OF D])
  moreover have "a_clean k now (bucket_abs E (bucket_of E (home E mode n) (objects D) k)) =
      (False, bucket_abs E (bucket_of E (home E mode n) (objects D) k))"
    using at none absent_at(1) [OF D none] by (simp add: eq_at_def a_clean_def a_expired_def a_reap_def a_purge_def)
  ultimately have b_at: "eq_at k (bucket_abs E b) (embedded_abs E D)" by (simp add: b(6))
  then have ob: "a_obj (bucket_abs E b) k = None" using none by (simp add: eq_at_def)
  have abs1: "embedded_abs E (D\<lparr>objects := S1\<rparr>) = embedded_abs E D"
  proof (rule astate_eqI [OF _ same_but_refl])
    show "same_but k (embedded_abs E D) (embedded_abs E (D\<lparr>objects := S1\<rparr>))"
      using b(7) by (simp add: embedded_route(4) [OF D] embedded_route(4) [OF D1])
    show "eq_at k (embedded_abs E (D\<lparr>objects := S1\<rparr>)) (embedded_abs E D)"
      using b_at eq_at_store [of k E "home E mode n" S1] by (simp add: embedded_route(4) [OF D1] b(4) eq_at_def)
  qed
  have "refines E (hash_field_setex E k fvs condition (SetExpireAt t) c) (spec_hsetex k fvs condition (SetExpireAt t) c)"
    by (rule hash_field_setex_refines [OF E])
  from refinesD [OF this b(5)] hsetex_phantom [OF ob args] a_del_none [OF b(5) ob] obtain b' where
    b': "hash_field_setex E k fvs condition (SetExpireAt t) c b = Some (Integer 1, True, b')" "bucket_inv E b'"
      "bucket_abs E b' = bucket_abs E b" by (metis prod.inject)
  from embedded_rewrite [OF E D1 _ b'(2), of b k] b'(3) b(4) obtain S2 where S2:
    "write_bucket (home E mode n k) (hash_key E k) b' S1 = S2" "embedded_ok E mode n (D\<lparr>objects := S2\<rparr>)"
    "embedded_abs E (D\<lparr>objects := S2\<rparr>) = embedded_abs E (D\<lparr>objects := S1\<rparr>)" by auto
  have sid: "home E mode n k < length (shards S2)" using embedded_route(1) [OF S2(2)] by simp
  from note_created_sum [OF sid] obtain S3 where S3: "note_created (home E mode n k) S2 = Some S3"
    "sum_list (map object_count (shards S3)) = sum_list (map object_count (shards S2)) + 1"
    "store_abs E place S3 = store_abs E place S2" for place by metis
  have abs3: "embedded_abs E (D\<lparr>objects := S3\<rparr>) = embedded_abs E D"
    using S2(3) abs1 by (simp add: embedded_abs_def route_key_def S3(3))
  have "\<not> contains_object E b k" using type_tests(1) [OF E b(5)] ob by simp
  with rt b(1) b'(1) S2(1) S3(1) have "es_hsetex E k fvs condition (SetExpireAt t) c now False D = Some (Integer 1, D\<lparr>objects := S3\<rparr>)"
    by (simp add: es_hsetex_def object_write_def object_write_routed_def placed_def with_objects_def)
  with embedded_count(1) [OF E S2(2)] S2(3) S3(2) abs1 abs3 show ?thesis by simp
qed

text \<open>
  Storing an empty set, as \<^verbatim>\<open>SINTERSTORE\<close> does with an empty intersection, leaves an object without members at the key.
\<close>

lemma empty_set_stored:
  "map_option (\<lambda>(created, b). (created, contains_live_object list_env [1] 0 b, smembers list_env [1] b))
     (insert_value list_env [1] (SetValue []) (bucket_default list_env)) = Some (True, Some True, Some (Array []))"
  by code_simp

end
