(* ===== verification/Enumerate.thy ===== *)
theory Enumerate
  imports Lifecycle
begin

text \<open>
  What the enumerations of \<^verbatim>\<open>redis_objects/store.rs\<close> say of the whole store: \<^verbatim>\<open>keys\<close> and \<^verbatim>\<open>visit_keys\<close> go through the live keys of the
  abstract state, each once, and a client that follows the cursors of a shard to the end sees the live keys
  of that shard and of the wanted type, each once.
\<close>

lemma live_stored: "key_live A now k \<Longrightarrow> a_obj A k \<noteq> None"
  by (auto simp: key_live_def split: option.splits)

text \<open>A key is stored in one bucket only, the one it is looked up in.\<close>

lemma stored_in_bucket:
  assumes S: "store_inv E place S" and i: "i < length (shards S)" "b \<in> set (buckets (shards S ! i))"
    and k: "a_obj (bucket_abs E b) k \<noteq> None"
  shows "place k = i" "bucket_of E place S k = b"
proof -
  have sh: "shard_ok E place 0 i (shards S ! i)" using S i(1) by (simp add: store_ok_def)
  obtain j where j: "j < length (buckets (shards S ! i))" "b = buckets (shards S ! i) ! j" using i(2) by (metis in_set_conv_nth)
  with sh k show "place k = i" "bucket_of E place S k = b" by (auto simp: shard_ok_def bucket_at_def bucket_of_def)
qed

lemma bucket_of_in:
  assumes "store_inv E place S" "place k < length (shards S)"
  shows "bucket_of E place S k \<in> set (buckets (shards S ! place k))"
  using assms bucket_index_less [of "hash_key E k"] by (auto simp: store_ok_def shard_ok_def bucket_of_def)

lemma live_at_home: "key_live (bucket_abs E (bucket_of E place S k)) now k \<longleftrightarrow> key_live (store_abs E place S) now k"
  by (rule key_live_cong) (rule eq_at_store)

definition wanted_type :: "bytes option \<Rightarrow> astate \<Rightarrow> bytes \<Rightarrow> bool" where
  "wanted_type type_filter A k \<longleftrightarrow>
     (case type_filter of None \<Rightarrow> True | Some kind \<Rightarrow> eq_ignore_ascii_case kind (ascii (type_of (the (a_obj A k)))))"

lemma filtered_keys_set:
  assumes "env_ok E" "bucket_inv E b"
  shows "distinct (filtered_keys E now tf b)"
    "set (filtered_keys E now tf b) = {k. key_live (bucket_abs E b) now k \<and> wanted_type tf (bucket_abs E b) k}"
  using live_keys_set [OF assms, of now] by (auto simp: filtered_keys_def wanted_type_def split: option.split)

text \<open>The filtered keys of a shard.\<close>

lemma shard_filtered_set:
  assumes E: "env_ok E" and S: "store_inv E place S" and pl: "\<And>x. place x < length (shards S)" and i: "i < length (shards S)"
  shows "distinct (shard_filtered_keys E now tf (shards S ! i))"
    "set (shard_filtered_keys E now tf (shards S ! i)) =
      {k. place k = i \<and> key_live (store_abs E place S) now k \<and> wanted_type tf (store_abs E place S) k}"
proof -
  let ?bs = "buckets (shards S ! i)"
  have sh: "shard_ok E place 0 i (shards S ! i)" using S i by (simp add: store_ok_def)
  note inv = shard_buckets_inv [OF sh]
  note keys = filtered_keys_set [OF E inv]
  have type: "wanted_type tf (bucket_abs E (bucket_of E place S k)) k \<longleftrightarrow> wanted_type tf (store_abs E place S) k" for k
    using eq_at_store [of k E place S] by (auto simp: wanted_type_def eq_at_def split: option.split)
  have tag: "bucket_index (hash_key E k) = j" if "j < length ?bs" "k \<in> set (filtered_keys E now tf (?bs ! j))" for j k
    using sh that keys(2) [of "?bs ! j" now tf] live_stored by (auto simp: shard_ok_def bucket_at_def)
  show "distinct (shard_filtered_keys E now tf (shards S ! i))"
    unfolding shard_filtered_keys_def
    by (rule distinct_concat_tag [where tag = "\<lambda>k. bucket_index (hash_key E k)"]) (use keys(1) tag in auto)
  show "set (shard_filtered_keys E now tf (shards S ! i)) =
      {k. place k = i \<and> key_live (store_abs E place S) now k \<and> wanted_type tf (store_abs E place S) k}" (is "?L = ?R")
  proof (intro set_eqI iffI)
    fix k assume "k \<in> ?L"
    then obtain b where b: "b \<in> set ?bs" "key_live (bucket_abs E b) now k" "wanted_type tf (bucket_abs E b) k"
      using keys(2) by (auto simp: shard_filtered_keys_def)
    from stored_in_bucket [OF S i b(1) live_stored [OF b(2)]] b(2,3) show "k \<in> ?R"
      using live_at_home [of E place S k now] type [of k] by simp
  next
    fix k assume k: "k \<in> ?R"
    then have "bucket_of E place S k \<in> set ?bs" using bucket_of_in [OF S pl, of k] by simp
    with k keys(2) [OF this, of now tf] show "k \<in> ?L"
      using live_at_home [of E place S k now] type [of k] by (auto simp: shard_filtered_keys_def)
  qed
qed

lemma embedded_scan:
  fixes tf
  assumes E: "env_ok E" and D: "embedded_ok E mode n D" and sid: "sid < 2 ^ n" and limit: "0 < limit" "limit \<le> USIZE_MAX"
  defines "wanted \<equiv> \<lambda>t. {k. shard_id (route_key E D k) = sid \<and> key_live (embedded_abs E D) t k \<and> wanted_type tf (embedded_abs E D) k}"
  shows "\<exists>ks. scan_loop E sid now tf limit (objects D) 0 0 = Some ks \<and>
    (mono now \<longrightarrow> distinct ks \<and> set ks \<subseteq> wanted (now 0)) \<and>
    ((\<forall>i. wanted (now i) = wanted (now 0)) \<longrightarrow> distinct ks \<and> set ks = wanted (now 0))"
proof -
  let ?F = "\<lambda>t. shard_filtered_keys E t tf (shards (objects D) ! sid)"
  have S: "store_inv E (home E mode n) (objects D)" and sid': "sid < length (shards (objects D))"
    using D sid by (simp_all add: embedded_ok_def)
  have home: "shard_id (route_key E D k) = home E mode n k" for k using embedded_route(2) [OF D, of k] by (simp add: placed_def)
  note F = shard_filtered_set [OF E S embedded_route(1) [OF D] sid']
  have set_F: "set (?F t) = wanted t" for t unfolding wanted_def F(2) home embedded_route(4) [OF D] ..
  have same: "?F t = ?F u" if "wanted t = wanted u" for t u
  proof -
    have card: "card (set (?F x)) = length (?F x)" for x by (rule distinct_card) (rule F(1))
    have len: "length (?F t) = length (?F u)" unfolding card [symmetric] set_F that ..
    show ?thesis
    proof (cases "t \<le> u")
      case True
      then show ?thesis using subseq_same_length [OF shard_filtered_earlier len [symmetric]] by simp
    next
      case False
      then show ?thesis using subseq_same_length [OF shard_filtered_earlier len] by simp
    qed
  qed
  obtain ks where ks: "scan_loop E sid now tf limit (objects D) 0 0 = Some ks"
    "mono now \<Longrightarrow> distinct ks \<and> set ks \<subseteq> set (?F (now 0))" "(\<forall>i. ?F (now i) = ?F (now 0)) \<Longrightarrow> ks = ?F (now 0)"
    using scan_loop_law [where tf = tf and now = now and j = 0 and off = 0, OF E S sid' limit F(1)] by auto
  have "distinct ks \<and> set ks = wanted (now 0)" if "\<forall>i. wanted (now i) = wanted (now 0)"
  proof -
    have "ks = ?F (now 0)" by (rule ks(3)) (rule allI, rule same, rule that [rule_format])
    then show ?thesis by (simp only: F(1) set_F simp_thms)
  qed
  with ks(1,2) show ?thesis unfolding set_F by blast
qed

text \<open>The live keys of the store.\<close>

lemma embedded_live_keys:
  assumes E: "env_ok E" and D: "embedded_ok E mode n D"
  shows "distinct (store_live_keys E now (objects D))"
    "set (store_live_keys E now (objects D)) = {k. key_live (embedded_abs E D) now k}"
proof -
  have S: "store_inv E (home E mode n) (objects D)" using D by (simp add: embedded_ok_def)
  note pl = embedded_route(1) [OF D] and abs = embedded_route(4) [OF D]
  let ?S = "objects D" and ?h = "home E mode n"
  show "distinct (store_live_keys E now ?S)" by (rule store_live_keys_set(1) [OF E S])
  have "key_live (store_abs E ?h ?S) now k \<longleftrightarrow> (\<exists>sh\<in>set (shards ?S). \<exists>b\<in>set (buckets sh). key_live (bucket_abs E b) now k)" for k
  proof
    assume "key_live (store_abs E ?h ?S) now k"
    then have "key_live (bucket_abs E (bucket_of E ?h ?S k)) now k" by (simp add: live_at_home)
    then show "\<exists>sh\<in>set (shards ?S). \<exists>b\<in>set (buckets sh). key_live (bucket_abs E b) now k"
      using bucket_of_in [OF S pl, of k] pl [of k] by (meson nth_mem)
  next
    assume "\<exists>sh\<in>set (shards ?S). \<exists>b\<in>set (buckets sh). key_live (bucket_abs E b) now k"
    then obtain i b where "i < length (shards ?S)" "b \<in> set (buckets (shards ?S ! i))" "key_live (bucket_abs E b) now k"
      by (metis in_set_conv_nth)
    with stored_in_bucket(2) [OF S this(1,2) live_stored [OF this(3)]] show "key_live (store_abs E ?h ?S) now k"
      using live_at_home [of E ?h ?S k now] by simp
  qed
  then have "set (store_live_keys E now ?S) = {k \<in> dom (a_obj (store_abs E ?h ?S)). key_live (store_abs E ?h ?S) now k}"
    using store_live_keys_set(2) [OF E S, of now] stored_keys_abs [OF S pl] by simp
  then show "set (store_live_keys E now ?S) = {k. key_live (embedded_abs E D) now k}"
    using live_stored by (auto simp: abs)
qed

end
