(* ===== verification/Rename.thy ===== *)
theory Rename
  imports Lifecycle
begin

text \<open>
  \<^verbatim>\<open>RENAME\<close> and \<^verbatim>\<open>RENAMENX\<close> (\<^verbatim>\<open>rename_key\<close> in \<^verbatim>\<open>embedded_store/objects/keys.rs\<close>): the source is copied with its remaining TTL,
  the destination is deleted and written, the source is deleted. The operations of the string and vector
  maps are the fields of \<open>kv\<close>; the renaming of a string or of a vector value is an argument. \<open>clock i\<close> is the \<open>i\<close>-th
  reading of the clock.
\<close>

section \<open>The command\<close>

record 'm kv =
  kv_exists :: "bytes \<Rightarrow> 'm \<Rightarrow> bool"
  kv_pinned :: "bytes \<Rightarrow> 'm \<Rightarrow> bool"
  kv_ttl :: "bytes \<Rightarrow> 'm \<Rightarrow> int"
  kv_vector :: "bytes \<Rightarrow> 'm \<Rightarrow> bytes option"
  kv_get :: "bytes \<Rightarrow> 'm \<Rightarrow> bytes option"
  kv_accepts :: "bytes \<Rightarrow> bool"
  kv_del_session :: "bytes \<Rightarrow> 'm \<Rightarrow> bool \<times> 'm"
  kv_del_map :: "bytes \<Rightarrow> 'm \<Rightarrow> bool \<times> 'm"
  kv_del_vector :: "bytes \<Rightarrow> 'm \<Rightarrow> bool \<times> 'm"
  kv_drop :: "bytes \<Rightarrow> 'm \<Rightarrow> 'm"

datatype redis_key_error = WrongKeyType | MissingKey | ReplicationLimit

definition kv_delete ::
  "('h, 't) env \<Rightarrow> 'm kv \<Rightarrow> bytes \<Rightarrow> ('h, 't) embedded \<Rightarrow> 'm \<Rightarrow> (bool \<times> ('h, 't) embedded \<times> 'm) option" where
  "kv_delete E K key D M =
     es_delete E key (kv_accepts K key) (kv_del_session K key) (kv_del_map K key) (kv_del_vector K key) D M"

definition kv_es_exists ::
  "('h, 't) env \<Rightarrow> 'm kv \<Rightarrow> bytes \<Rightarrow> (nat \<Rightarrow> u64) \<Rightarrow> ('h, 't) embedded \<Rightarrow> 'm \<Rightarrow> (bool \<times> ('h, 't) embedded) option" where
  "kv_es_exists E K key clock D M = es_exists E key (clock 0) (clock 1) (kv_exists K key M) (kv_pinned K key M) D"

type_synonym ('h, 't, 'm) renamed = "((redis_key_error + bool) \<times> ('h, 't) embedded \<times> 'm) option"

text \<open>The part after the TTL of the source is known.\<close>

definition rename_object ::
  "('h, 't) env \<Rightarrow> 'm kv \<Rightarrow> (nat \<Rightarrow> u64) \<Rightarrow> bytes \<Rightarrow> bytes \<Rightarrow> u64 option \<Rightarrow> ('h, 't) embedded \<Rightarrow> 'm \<Rightarrow> ('h, 't, 'm) renamed" where
  "rename_object E K clock source dest ttl_ms D M = do {
     (found, D1) \<leftarrow> clone_object_value E source (clock 3) (clock 4) (clock 5) D;
     case found of
       None \<Rightarrow> Some (Inl MissingKey, D1, M)
     | Some v \<Rightarrow> do {
         (_, D2, M2) \<leftarrow> kv_delete E K dest D1 M;
         (D3, M3) \<leftarrow> set_object_value E dest v ttl_ms (clock 6) (kv_drop K dest) D2 M2;
         (_, D4, M4) \<leftarrow> kv_delete E K source D3 M3;
         Some (Inr True, D4, M4)
       }
   }"

definition rename_key ::
  "('h, 't) env \<Rightarrow> 'm kv \<Rightarrow> (nat \<Rightarrow> u64) \<Rightarrow> (bytes \<Rightarrow> u64 option \<Rightarrow> ('h, 't) embedded \<Rightarrow> 'm \<Rightarrow> ('h, 't, 'm) renamed) \<Rightarrow>
   (bytes \<Rightarrow> u64 option \<Rightarrow> ('h, 't) embedded \<Rightarrow> 'm \<Rightarrow> ('h, 't, 'm) renamed) \<Rightarrow> bytes \<Rightarrow> bytes \<Rightarrow> bool \<Rightarrow>
   ('h, 't) embedded \<Rightarrow> 'm \<Rightarrow> ('h, 't, 'm) renamed" where
  "rename_key E K clock rename_vector rename_string source dest nx D M =
     (if source = dest
      then do {
        (there, D1) \<leftarrow> kv_es_exists E K source clock D M;
        Some (if there then Inr (\<not> nx) else Inl MissingKey, D1, M)
      }
      else do {
        (taken, D1) \<leftarrow> (if nx then kv_es_exists E K dest clock D M else Some (False, D));
        if taken then Some (Inr False, D1, M)
        else do {
          (ttl, D2) \<leftarrow> pttl_millis E source (clock 2) (kv_ttl K source M) D1;
          let ttl_ms = (if 0 \<le> ttl then Some (word_of_int ttl) else None);
          case kv_vector K source M of
            Some v \<Rightarrow> rename_vector v ttl_ms D2 M
          | None \<Rightarrow> (case kv_get K source M of
                Some v \<Rightarrow> rename_string v ttl_ms D2 M
              | None \<Rightarrow> rename_object E K clock source dest ttl_ms D2 M)
        }
      })"

section \<open>What is renamed\<close>

lemma kv_delete_law:
  assumes "env_ok E" "embedded_ok E mode n D" "kv_accepts K k"
  shows "\<exists>deleted D' M'. kv_delete E K k D M = Some (deleted, D', M') \<and> embedded_ok E mode n D' \<and>
    embedded_abs E D' = a_del k (embedded_abs E D)"
  using delete_routed_law [OF assms(1,2), of k "kv_del_session K k" "kv_del_map K k" M] assms(3)
  by (auto simp: kv_delete_def es_delete_def split: prod.split)

lemma set_object_value_law:
  assumes E: "env_ok E" and D: "embedded_ok E mode n D" and v: "value_nonempty v"
  shows "\<exists>D'. set_object_value E k v ttl now drop_strings D M = Some (D', drop_strings M) \<and> embedded_ok E mode n D' \<and>
    embedded_abs E D' = spec_set_value k (value_obj v) (map_option (saturating_add now) ttl) (embedded_abs E D)"
  using set_value_law [OF E D v, of k] by (cases ttl) (simp_all add: set_object_value_def)

lemma rename_object_law:
  assumes E: "env_ok E" and D: "embedded_ok E mode n D" and K: "kv_accepts K source" "kv_accepts K dest"
    and ob: "spec_clone source (clock 4) (clock 5) (embedded_abs E D) = Some ob" "\<not> a_expired (embedded_abs E D) source (clock 3)"
  shows "\<exists>D' M'. rename_object E K clock source dest ttl D M = Some (Inr True, D', M') \<and> embedded_ok E mode n D' \<and>
    embedded_abs E D' = a_del source (spec_set_value dest ob (map_option (saturating_add (clock 6)) ttl) (embedded_abs E D))"
proof -
  from clone_object_law [OF E D, of source "clock 3" "clock 4" "clock 5"] ob obtain v D1 where
    D1: "clone_object_value E source (clock 3) (clock 4) (clock 5) D = Some (Some v, D1)" "embedded_ok E mode n D1"
      "embedded_abs E D1 = embedded_abs E D" and v: "value_obj v = ob" "value_nonempty v" by (auto simp: a_drop_def)
  from kv_delete_law [where M = M, OF E D1(2) K(2)] obtain x2 D2 M2 where
    D2: "kv_delete E K dest D1 M = Some (x2, D2, M2)" "embedded_ok E mode n D2" "embedded_abs E D2 = a_del dest (embedded_abs E D)"
    using D1(3) by auto
  from set_object_value_law [OF E D2(2) v(2), of dest ttl "clock 6" "kv_drop K dest" M2] obtain D3 M3 where
    D3: "set_object_value E dest v ttl (clock 6) (kv_drop K dest) D2 M2 = Some (D3, M3)" "embedded_ok E mode n D3"
      "embedded_abs E D3 = spec_set_value dest ob (map_option (saturating_add (clock 6)) ttl) (a_del dest (embedded_abs E D))"
    using D2(3) v(1) by auto
  from kv_delete_law [where M = M3, OF E D3(2) K(1)] obtain x4 D4 M4 where
    D4: "kv_delete E K source D3 M3 = Some (x4, D4, M4)" "embedded_ok E mode n D4"
      "embedded_abs E D4 = a_del source (embedded_abs E D3)" by auto
  have "spec_set_value dest ob t (a_del dest A) = spec_set_value dest ob t A" for t A
    by (simp add: spec_set_value_def a_at_def a_del_def)
  with D1(1) D2(1) D3(1,3) D4 show ?thesis by (simp add: rename_object_def)
qed

lemma rename_missing:
  assumes E: "env_ok E" and D: "embedded_ok E mode n D" and none: "a_obj (embedded_abs E D) source = None"
  shows "\<exists>D'. rename_object E K clock source dest ttl D M = Some (Inl MissingKey, D', M) \<and> embedded_ok E mode n D' \<and>
    embedded_abs E D' = embedded_abs E D"
proof -
  have "\<not> a_expired (embedded_abs E D) source (clock 3)" using absent_at(1) [OF D none] by (simp add: a_expired_def)
  with clone_object_law [OF E D, of source "clock 3" "clock 4" "clock 5"] none show ?thesis
    by (auto simp: rename_object_def spec_clone_def a_drop_def)
qed

lemma clean_gone: "fst (a_clean k now A) \<Longrightarrow> a_obj (snd (a_clean k now A)) k = None"
  using a_reap_gone [of k now A] by (auto simp: a_clean_def split: if_splits)

lemma i64_ttl:
  assumes "now < t" "unat (t - now) < 2 ^ 63"
  shows "u64_as_i64 (saturating_sub t now) = int (unat (t - now))"
proof -
  have "int (unat (t - now)) < int (2 ^ 63)" using assms(2) by (simp only: of_nat_less_iff)
  then have "uint (t - now) < 2 ^ 63" by simp
  moreover have "- (2 ^ 63) \<le> uint (t - now)" by (rule order_trans [OF _ uint_ge_0]) simp
  ultimately have "sint (t - now) = uint (t - now)" using signed_take_bit_int_eq_self [of 63 "uint (t - now)"] by (simp add: sint_uint)
  moreover have "\<not> t \<le> now" using assms(1) by (simp only: not_le)
  ultimately show ?thesis by (simp add: u64_as_i64_def saturating_sub_def)
qed

text \<open>The TTL that is handed over: what is left at the reading of the clock, or none.\<close>

lemma rename_ttl:
  assumes E: "env_ok E" and D: "embedded_ok E mode n D" and ob: "a_obj (snd (a_clean k now (embedded_abs E D))) k \<noteq> None"
    and range: "\<And>t. a_ttl (snd (a_clean k now (embedded_abs E D))) k = Some t \<Longrightarrow> unat (t - now) < 2 ^ 63"
  shows "\<exists>ttl D'. pttl_millis E k now string_ttl D = Some (ttl, D') \<and> embedded_ok E mode n D' \<and>
    embedded_abs E D' = snd (a_clean k now (embedded_abs E D)) \<and>
    (if 0 \<le> ttl then Some (word_of_int ttl) else None) = map_option (\<lambda>t. t - now) (a_ttl (embedded_abs E D') k)"
proof -
  let ?A = "snd (a_clean k now (embedded_abs E D))"
  from implementsD [OF object_ttl_implements [OF E] D] obtain r D' where
    D': "object_ttl E k now D = Some (r, D')" "embedded_ok E mode n D'" "spec_object_ttl k now (embedded_abs E D) = (r, embedded_abs E D')"
    by blast
  have stays: "\<not> fst (a_clean k now (embedded_abs E D))" using clean_gone [of k now "embedded_abs E D"] ob by auto
  then have abs: "embedded_abs E D' = ?A" and
    r: "r = (let ttl = (case a_ttl ?A k of None \<Rightarrow> - 1 | Some t \<Rightarrow> u64_as_i64 (saturating_sub t now)) in if ttl = - 2 then None else Some ttl)"
    using D'(3) ob by (auto simp: spec_object_ttl_def Let_def split_def)
  have "\<exists>ttl. r = Some ttl \<and> (if 0 \<le> ttl then Some (word_of_int ttl) else None) = map_option (\<lambda>t. t - now) (a_ttl ?A k)"
  proof (cases "a_ttl ?A k")
    case (Some t)
    then have "now < t" using a_clean_clean(1) [OF stays] by (simp add: a_expired_def)
    from i64_ttl [OF this range [OF Some]] have "u64_as_i64 (saturating_sub t now) = uint (t - now)" by simp
    moreover have "uint (t - now) \<noteq> - 2" using uint_ge_0 [of "t - now"] by linarith
    ultimately have "r = Some (uint (t - now))" by (simp only: r Some option.case Let_def if_False)
    with Some show ?thesis by simp
  qed (simp add: r)
  with D'(1,2) abs show ?thesis by (auto simp: pttl_millis_def)
qed

text \<open>The whole command on an object; \<open>A1\<close> is the source without its expired fields.\<close>

lemma rename_law:
  fixes source dest :: bytes
  assumes E: "env_ok E" and D: "embedded_ok E mode n D" and ne: "source \<noteq> dest" and K: "kv_accepts K source" "kv_accepts K dest"
    and free: "nx \<longrightarrow> \<not> key_live (embedded_abs E D) (clock 1) dest \<and> \<not> kv_exists K dest M \<and> \<not> kv_pinned K dest M"
    and plain: "kv_vector K source M = None" "kv_get K source M = None"
  defines "A1 \<equiv> snd (a_clean source (clock 2) (embedded_abs E D))"
  assumes ob: "spec_clone source (clock 4) (clock 5) A1 = Some ob" "\<not> a_expired A1 source (clock 3)"
    and range: "\<And>t. a_ttl A1 source = Some t \<Longrightarrow> unat (t - clock 2) < 2 ^ 63"
  shows "\<exists>D' M'. rename_key E K clock rename_vector rename_string source dest nx D M = Some (Inr True, D', M') \<and>
    embedded_ok E mode n D' \<and> embedded_abs E D' =
      a_del source (spec_set_value dest ob (map_option (\<lambda>t. saturating_add (clock 6) (t - clock 2)) (a_ttl A1 source)) (embedded_abs E D))"
proof -
  obtain D1 where D1: "(if nx then kv_es_exists E K dest clock D M else Some (False, D)) = Some (False, D1)" "embedded_ok E mode n D1"
    "same_but dest (embedded_abs E D) (embedded_abs E D1)"
  proof (cases nx)
    case True
    with exists_law [OF E D, of dest "clock 0" "clock 1" "kv_exists K dest M" "kv_pinned K dest M"] free obtain D1 where
      "kv_es_exists E K dest clock D M = Some (False, D1)" "embedded_ok E mode n D1" "embedded_abs E D1 = a_drop dest (clock 0) (embedded_abs E D)"
      by (auto simp: kv_es_exists_def)
    with True show thesis by (intro that [of D1]) (auto simp: a_drop_def same_but_intros)
  qed (use D that [of D] same_but_refl in simp)
  have at: "eq_at source (embedded_abs E D1) (embedded_abs E D)" using D1(3) ne by (simp add: same_but_def eq_at_def)
  let ?B = "snd (a_clean source (clock 2) (embedded_abs E D1))"
  have B: "eq_at source ?B A1" unfolding A1_def by (rule eq_at_clean [OF at])
  have "spec_clone source (clock 4) (clock 5) ?B = Some ob" "\<not> a_expired ?B source (clock 3)"
    using ob B eq_at_live [OF B] by (auto simp: spec_clone_def eq_at_def a_expired_def split: option.splits robj.splits if_splits)
  moreover from this(1) have "a_obj ?B source \<noteq> None" by (auto simp: spec_clone_def split: option.splits)
  with rename_ttl [OF E D1(2) this, of "kv_ttl K source M"] range B obtain ttl D2 where
    D2: "pttl_millis E source (clock 2) (kv_ttl K source M) D1 = Some (ttl, D2)" "embedded_ok E mode n D2" "embedded_abs E D2 = ?B"
      "(if 0 \<le> ttl then Some (word_of_int ttl) else None) = map_option (\<lambda>t. t - clock 2) (a_ttl A1 source)"
    by (auto simp: eq_at_def)
  ultimately obtain D' M' where D': "rename_object E K clock source dest (map_option (\<lambda>t. t - clock 2) (a_ttl A1 source)) D2 M =
      Some (Inr True, D', M')" "embedded_ok E mode n D'" "embedded_abs E D' =
        a_del source (spec_set_value dest ob (map_option (saturating_add (clock 6)) (map_option (\<lambda>t. t - clock 2) (a_ttl A1 source))) ?B)"
    using rename_object_law [OF E D2(2) K, of clock ob] by metis
  have "same_but source (embedded_abs E D1) ?B"
    by (auto simp: a_clean_def a_reap_def Let_def intro: same_but_intros)
  then have "a_del source (spec_set_value dest ob t ?B) = a_del source (spec_set_value dest ob t (embedded_abs E D))" for t
    using D1(3) by (intro astate.equality) (auto simp: same_but_def a_del_def spec_set_value_def a_at_def fun_eq_iff)
  with D' D1(1) D2(1,4) plain ne show ?thesis
    by (auto simp: rename_key_def option.map_comp comp_def)
qed

end
