(* ===== verification/Waiting.thy ===== *)
theory Waiting
  imports Prelude
begin

text \<open>
  The threads that wait on one shard and those that notify them, interleaved (\<^verbatim>\<open>redis_objects/store.rs\<close>:
  \<^verbatim>\<open>notify_shard_waiters\<close>, \<^verbatim>\<open>wait_for_shard_change\<close> and \<^verbatim>\<open>wait_for_generation_change\<close>). \<^verbatim>\<open>Store\<close> holds the same operations as one
  thread executes them; here a step is one access to shared memory, so that the order of the steps of
  different threads is arbitrary. The notifier looks at the number of waiters and skips the notification when there is none,
  and the waiter counts itself without the lock: the theorem is that no waiter is left asleep all the same.
\<close>

section \<open>States and steps\<close>

text \<open>
  A waiter has counted itself (\<open>Registered\<close>), sleeps on the condition variable, which has released the lock, has been
  woken and wants the lock again, or has its result and will take itself off the count.
\<close>

datatype waiter = Outside | Registered u64 | Sleeping u64 | Woken u64 | Leaving bool

text \<open>A notifier that holds the lock: it has incremented the generation, or has read whether anyone waits.\<close>

datatype holder = Incremented | Loaded bool

record 'tid wait_state =
  generation :: u64
  waiters :: nat
  holding :: "holder option"
  pc :: "'tid \<Rightarrow> waiter"

definition wait_start :: "'tid wait_state" where
  "wait_start = \<lparr>generation = 0, waiters = 0, holding = None, pc = (\<lambda>_. Outside)\<rparr>"

definition wake_all :: "('tid \<Rightarrow> waiter) \<Rightarrow> 'tid \<Rightarrow> waiter" where
  "wake_all p t = (case p t of Sleeping seen \<Rightarrow> Woken seen | w \<Rightarrow> w)"

inductive wait_step :: "'tid wait_state \<Rightarrow> 'tid wait_state \<Rightarrow> bool" where
  register: "pc s t = Outside \<Longrightarrow> wait_step s (s\<lparr>waiters := waiters s + 1, pc := (pc s)(t := Registered seen)\<rparr>)"
| changed: "holding s = None \<Longrightarrow> pc s t = Registered seen \<or> pc s t = Woken seen \<Longrightarrow> generation s \<noteq> seen \<Longrightarrow>
    wait_step s (s\<lparr>pc := (pc s)(t := Leaving True)\<rparr>)"
| sleep: "holding s = None \<Longrightarrow> pc s t = Registered seen \<or> pc s t = Woken seen \<Longrightarrow> generation s = seen \<Longrightarrow>
    wait_step s (s\<lparr>pc := (pc s)(t := Sleeping seen)\<rparr>)"
| give_up: "holding s = None \<Longrightarrow> pc s t = Registered seen \<or> pc s t = Woken seen \<or> pc s t = Sleeping seen \<Longrightarrow>
    wait_step s (s\<lparr>pc := (pc s)(t := Leaving (generation s \<noteq> seen))\<rparr>)"
| spurious: "pc s t = Sleeping seen \<Longrightarrow> wait_step s (s\<lparr>pc := (pc s)(t := Woken seen)\<rparr>)"
| leave: "pc s t = Leaving r \<Longrightarrow> wait_step s (s\<lparr>waiters := waiters s - 1, pc := (pc s)(t := Outside)\<rparr>)"
| increment: "holding s = None \<Longrightarrow> wait_step s (s\<lparr>generation := generation s + 1, holding := Some Incremented\<rparr>)"
| load: "holding s = Some Incremented \<Longrightarrow> wait_step s (s\<lparr>holding := Some (Loaded (waiters s \<noteq> 0))\<rparr>)"
| notify: "holding s = Some (Loaded b) \<Longrightarrow> wait_step s (s\<lparr>holding := None, pc := (if b then wake_all (pc s) else pc s)\<rparr>)"

inductive wait_reachable :: "'tid wait_state \<Rightarrow> bool" where
  start: "wait_reachable wait_start"
| step: "wait_reachable s \<Longrightarrow> wait_step s s' \<Longrightarrow> wait_reachable s'"

section \<open>Nobody is left asleep\<close>

definition inside :: "'tid wait_state \<Rightarrow> 'tid set" where
  "inside s = {t. pc s t \<noteq> Outside}"

text \<open>What a sleeper has seen, while the lock is free and during a notification.\<close>

fun may_sleep :: "holder option \<Rightarrow> u64 \<Rightarrow> u64 \<Rightarrow> bool" where
  "may_sleep None g seen \<longleftrightarrow> g = seen"
| "may_sleep (Some Incremented) g seen \<longleftrightarrow> g = seen + 1"
| "may_sleep (Some (Loaded b)) g seen \<longleftrightarrow> b \<and> g = seen + 1"

definition wait_inv :: "'tid wait_state \<Rightarrow> bool" where
  "wait_inv s \<longleftrightarrow>
     finite (inside s) \<and> waiters s = card (inside s) \<and>
     (\<forall>t seen. pc s t = Sleeping seen \<longrightarrow> may_sleep (holding s) (generation s) seen)"

lemma inside_upd:
  "inside (s\<lparr>pc := (pc s)(t := w)\<rparr>) = (if w = Outside then inside s - {t} else insert t (inside s))"
  "inside (s\<lparr>waiters := n, pc := (pc s)(t := w)\<rparr>) = (if w = Outside then inside s - {t} else insert t (inside s))"
  "inside (s\<lparr>generation := g\<rparr>) = inside s" "inside (s\<lparr>holding := h\<rparr>) = inside s"
  "inside (s\<lparr>holding := h, pc := wake_all (pc s)\<rparr>) = inside s" "inside (s\<lparr>holding := h, pc := pc s\<rparr>) = inside s"
  by (auto simp: inside_def wake_all_def split: waiter.split)

lemma wake_all_sleeps: "wake_all p t \<noteq> Sleeping seen"
  by (simp add: wake_all_def split: waiter.split)

lemma wait_inv_step:
  assumes "wait_step s s'" "wait_inv s"
  shows "wait_inv s'"
  using assms
proof cases
  case (register t seen)
  then have "t \<notin> inside s" by (simp add: inside_def)
  with register assms(2) show ?thesis by (auto simp: wait_inv_def inside_upd)
next
  case (changed t seen)
  then have "t \<in> inside s" by (auto simp: inside_def)
  with changed assms(2) show ?thesis by (auto simp: wait_inv_def inside_upd insert_absorb)
next
  case (sleep t seen)
  then have "t \<in> inside s" by (auto simp: inside_def)
  with sleep assms(2) show ?thesis by (auto simp: wait_inv_def inside_upd insert_absorb)
next
  case (give_up t seen)
  then have "t \<in> inside s" by (auto simp: inside_def)
  with give_up assms(2) show ?thesis by (auto simp: wait_inv_def inside_upd insert_absorb)
next
  case (spurious t seen)
  then have "t \<in> inside s" by (auto simp: inside_def)
  with spurious assms(2) show ?thesis by (auto simp: wait_inv_def inside_upd insert_absorb)
next
  case (leave t r)
  then have "t \<in> inside s" by (auto simp: inside_def)
  with leave assms(2) show ?thesis
    by (auto simp: wait_inv_def inside_upd card_Diff_singleton)
next
  case increment
  with assms(2) show ?thesis by (auto simp: wait_inv_def inside_upd)
next
  case load
  have "t \<in> inside s" if "pc s t = Sleeping seen" for t seen using that by (simp add: inside_def)
  with load assms(2) show ?thesis by (auto simp: wait_inv_def inside_upd card_gt_0_iff)
next
  case (notify b)
  with assms(2) show ?thesis by (cases b) (auto simp: wait_inv_def inside_upd wake_all_sleeps)
qed

lemma wait_reachable_inv: "wait_reachable s \<Longrightarrow> wait_inv s"
proof (induction rule: wait_reachable.induct)
  case start
  then show ?case by (simp add: wait_inv_def wait_start_def inside_def)
qed (rule wait_inv_step)

text \<open>A thread that sleeps while the lock is free has seen the current generation.\<close>

lemma sleepers_current:
  assumes "wait_reachable s" "holding s = None" "pc s t = Sleeping seen"
  shows "generation s = seen"
  using wait_reachable_inv [OF assms(1)] assms(2,3) by (auto simp: wait_inv_def)

lemma wait_steps_reachable: "wait_step\<^sup>*\<^sup>* s s' \<Longrightarrow> wait_reachable s \<Longrightarrow> wait_reachable s'"
  by (induction rule: rtranclp_induct) (auto intro: wait_reachable.step)

text \<open>Once a notification is over, no thread sleeps that slept before it, whatever the others have done meanwhile.\<close>

lemma notified_awake:
  assumes "wait_reachable s" "holding s = None" "pc s t = Sleeping seen"
    and "wait_step\<^sup>*\<^sup>* s s'" "holding s' = None" "generation s' \<noteq> generation s"
  shows "pc s' t \<noteq> Sleeping seen"
  using sleepers_current [OF assms(1-3)] sleepers_current [OF wait_steps_reachable [OF assms(4,1)] assms(5)] assms(6) by auto

section \<open>The hint that objects exist, with threads\<close>

text \<open>
  \<^verbatim>\<open>note_created\<close> and \<^verbatim>\<open>object_count\<close> as single accesses: the counter is incremented before the hint is set, and the recount
  adds up the counters before it stores the hint.
\<close>

datatype counting = Idle | Added bool | Summing nat int

record 'tid hint_state =
  counts :: "nat \<Rightarrow> int"
  hint :: bool
  at :: "'tid \<Rightarrow> counting"

inductive hint_step :: "nat \<Rightarrow> 'tid hint_state \<Rightarrow> 'tid hint_state \<Rightarrow> bool" for n where
  add: "at s t = Idle \<Longrightarrow> sid < n \<Longrightarrow>
    hint_step n s (s\<lparr>counts := (counts s)(sid := counts s sid + 1), at := (at s)(t := Added (counts s sid \<le> 0))\<rparr>)"
| set_hint: "at s t = Added first \<Longrightarrow> hint_step n s (s\<lparr>hint := hint s \<or> first, at := (at s)(t := Idle)\<rparr>)"
| subtract: "at s t = Idle \<Longrightarrow> sid < n \<Longrightarrow> hint_step n s (s\<lparr>counts := (counts s)(sid := counts s sid - 1)\<rparr>)"
| recount: "at s t = Idle \<Longrightarrow> hint_step n s (s\<lparr>at := (at s)(t := Summing 0 0)\<rparr>)"
| read_count: "at s t = Summing i acc \<Longrightarrow> i < n \<Longrightarrow> hint_step n s (s\<lparr>at := (at s)(t := Summing (i + 1) (acc + counts s i))\<rparr>)"
| store_hint: "at s t = Summing n acc \<Longrightarrow> hint_step n s (s\<lparr>hint := max acc 0 \<noteq> 0, at := (at s)(t := Idle)\<rparr>)"

text \<open>A recount that overlaps with the creation of the first object can leave the hint off while the object exists.\<close>

lemma hint_lost:
  "\<exists>s. (hint_step 1)\<^sup>*\<^sup>* \<lparr>counts = \<lambda>_. 0, hint = False, at = \<lambda>_ :: bool. Idle\<rparr> s \<and> counts s 0 = 1 \<and> at s = (\<lambda>_. Idle) \<and> \<not> hint s"
proof -
  let ?c0 = "\<lambda>_ :: nat. 0 :: int" and ?c1 = "(\<lambda>_ :: nat. 0 :: int)(0 := 1)"
  let ?s = "\<lambda>c h a b. \<lparr>counts = c, hint = h, at = \<lambda>t. if t then a else b\<rparr>"
  have "hint_step 1 (?s ?c0 False Idle Idle) (?s ?c0 False (Summing 0 0) Idle)"
    using hint_step.recount [of "?s ?c0 False Idle Idle" True 1] by (simp add: fun_upd_def if_distrib cong: if_cong)
  moreover have "hint_step 1 (?s ?c0 False (Summing 0 0) Idle) (?s ?c0 False (Summing 1 0) Idle)"
    using hint_step.read_count [of "?s ?c0 False (Summing 0 0) Idle" True 0 0 1] by (simp add: fun_upd_def if_distrib cong: if_cong)
  moreover have "hint_step 1 (?s ?c0 False (Summing 1 0) Idle) (?s ?c1 False (Summing 1 0) (Added True))"
    using hint_step.add [of "?s ?c0 False (Summing 1 0) Idle" False 0 1] by (simp add: fun_upd_def if_distrib cong: if_cong)
  moreover have "hint_step 1 (?s ?c1 False (Summing 1 0) (Added True)) (?s ?c1 True (Summing 1 0) Idle)"
    using hint_step.set_hint [of "?s ?c1 False (Summing 1 0) (Added True)" False True 1] by (simp add: fun_upd_def if_distrib cong: if_cong)
  moreover have "hint_step 1 (?s ?c1 True (Summing 1 0) Idle) (?s ?c1 False Idle Idle)"
    using hint_step.store_hint [of "?s ?c1 True (Summing 1 0) Idle" True 1 0] by (simp add: fun_upd_def if_distrib cong: if_cong)
  ultimately have "(hint_step 1)\<^sup>*\<^sup>* (?s ?c0 False Idle Idle) (?s ?c1 False Idle Idle)"
    by (meson converse_rtranclp_into_rtranclp rtranclp.rtrancl_refl)
  then show ?thesis by (intro exI [of _ "?s ?c1 False Idle Idle"]) simp
qed

end
