(* ===== verification/Sequences.thy ===== *)
theory Sequences
  imports Commands
begin

text \<open>
  The whole interface of the object commands, and sequences over it. \<open>Commands\<close> treats the commands whose reply is a function of
  the contents. This theory adds the others: the visiting reads, the reads that depend on the order in which a container
  enumerates its elements (\<^verbatim>\<open>SRANDMEMBER\<close>, \<^verbatim>\<open>smembers_visit\<close>, \<^verbatim>\<open>hkeys_visit\<close> and their like), \<^verbatim>\<open>ZCOUNT\<close>, \<^verbatim>\<open>LPOS\<close>, the reads that
  bypass the router, \<^verbatim>\<open>SPOP\<close>, and \<^verbatim>\<open>HSETEX\<close>. The abstract side is a relation here, because a set does not tell which of its
  members is popped. Sequences of all commands are at the end.
\<close>

section \<open>Visiting reads behind the router\<close>

abbreviation visits :: "(robj \<Rightarrow> 'v option) \<Rightarrow> bytes \<Rightarrow> ('v \<Rightarrow> 'e list) \<Rightarrow> astate \<Rightarrow> 'e list \<times> read_outcome" where
  "visits proj k f \<equiv> read_obj proj k ([], Missing) ([], WrongTypeOutcome) (\<lambda>v. (f v, Written))"

interpretation llen_visit_at: routed_visit E k "llen_visit E k" "visits as_list k (\<lambda>xs. [int (length xs)])"
  for E k
  by unfold_locales (rule llen_visit_reads, assumption, rule local_read_obj, simp add: read_obj_def)

interpretation lindex_visit_at: routed_visit E k "lindex_visit E k index" "visits as_list k (\<lambda>xs. [nth_normalized xs index])"
  for E k index
  by unfold_locales (rule lindex_visit_reads, assumption, rule local_read_obj, simp add: read_obj_def)

text \<open>The visit of a sequence of items: how many there are, then the items.\<close>

definition item_visit :: "bytes list \<Rightarrow> array_item list" where
  "item_visit xs = Begin (length xs) # map (\<lambda>x. Item (Some x)) xs"

interpretation lrange_visit_at: routed_visit E k "lrange_visit E k start stop" "visits as_list k (\<lambda>xs. item_visit (zrange_spec xs start stop))"
  for E k start stop
  by unfold_locales (simp add: item_visit_def lrange_visit_reads [unfolded Let_def], rule local_read_obj, simp add: read_obj_def)

abbreviation lpos_positions :: "bytes \<Rightarrow> int \<Rightarrow> int option \<Rightarrow> int \<Rightarrow> bytes list \<Rightarrow> int list" where
  "lpos_positions element rank wanted maxlen xs \<equiv>
     lpos_select (map_option i64_as_usize wanted) (drop (nat \<bar>rank\<bar> - 1) (lpos_matches xs element rank maxlen))"

text \<open>\<^verbatim>\<open>LPOS\<close> takes a rank that is not 0.\<close>

lemma lpos_visit_at:
  "rank \<noteq> 0 \<Longrightarrow> routed_visit E k (lpos_visit E k element rank wanted maxlen) (visits as_list k (\<lambda>xs. [lpos_positions element rank wanted maxlen xs]))"
  by unfold_locales (rule lpos_visit_reads, assumption+, rule local_read_obj, simp add: read_obj_def)

interpretation hmget_visit_at: routed_visit E k "hmget_visit E k fs c1"
  "read_live k c1 ([], Missing) ([], WrongTypeOutcome) (\<lambda>m. (Begin (length fs) # map (\<lambda>f. Item (m f)) fs, Written))"
  for E k fs c1
  by unfold_locales (rule hmget_visit_reads, assumption, rule local_read_live, simp add: read_live_def read_obj_def)

interpretation zscore_visit_at: routed_visit E k "zscore_visit E k m" "visits as_zset k (\<lambda>v. [v m])"
  for E k m
  by unfold_locales (rule zscore_visit_reads, assumption, rule local_read_obj, simp add: read_obj_def)

interpretation zrank_visit_at: routed_visit E k "zrank_visit E k m rv" "visits as_zset k (\<lambda>v. [zrank_spec v m rv])"
  for E k m rv
  by unfold_locales (rule zrank_visit_reads, assumption, rule local_read_obj, simp add: read_obj_def)

abbreviation entry_visit :: "int \<Rightarrow> int \<Rightarrow> bool \<Rightarrow> (bytes \<rightharpoonup> f64) \<Rightarrow> zset_range_item list" where
  "entry_visit start stop rv v \<equiv>
     (let r = zrange_spec (if rv then rev (zcanon v) else zcanon v) start stop in ZBegin (length r) # map (\<lambda>e. ZEntry (fst e) (snd e)) r)"

interpretation zrange_entries_visit_at: routed_visit E k "zrange_entries_visit E k start stop rv" "visits as_zset k (entry_visit start stop rv)"
  for E k start stop rv
  by unfold_locales (simp add: zrange_entries_visit_reads [unfolded Let_def] Let_def, rule local_read_obj, simp add: read_obj_def)

text \<open>The reads that keep the one value of a visit.\<close>

definition spec_value ::
  "(robj \<Rightarrow> 'v option) \<Rightarrow> bytes \<Rightarrow> u64 \<Rightarrow> bool \<Rightarrow> 'w \<Rightarrow> ('v \<Rightarrow> 'w) \<Rightarrow> astate \<Rightarrow> (unit + 'w) \<times> astate" where
  "spec_value proj k now str absent f A =
     (let A1 = a_tidy k now A in (read_obj proj k (if str then Inl () else Inr absent) (Inl ()) (\<lambda>v. Inr (f v)) A1, A1))"

lemma value_implements:
  assumes "implements E g (spec_visit k now str (visits proj k (\<lambda>v. [f v])))"
  shows "implements E (\<lambda>D. map_option (value_of_visit absent) (g D)) (spec_value proj k now str absent f)"
proof (rule implementsI)
  fix mode n D assume "embedded_ok E mode n D"
  from implementsD [OF assms this] obtain out D' where D': "g D = Some (out, D')" "embedded_ok E mode n D'"
    "spec_visit k now str (visits proj k (\<lambda>v. [f v])) (embedded_abs E D) = (out, embedded_abs E D')" by blast
  then have "spec_value proj k now str absent f (embedded_abs E D) = (fst (value_of_visit absent (out, D')), embedded_abs E D')"
    by (auto simp: spec_value_def spec_visit_def read_obj_def value_of_visit_def no_object_def Let_def split: option.splits)
  with D'(1,2) show "\<exists>r D'. map_option (value_of_visit absent) (g D) = Some (r, D') \<and> embedded_ok E mode n D' \<and>
      spec_value proj k now str absent f (embedded_abs E D) = (r, embedded_abs E D')"
    by (auto simp: value_of_visit_def split: prod.split)
qed

section \<open>Commands that comply with a relation\<close>

definition complies ::
  "('h, 't) env \<Rightarrow> (('h, 't) embedded \<Rightarrow> ('r \<times> ('h, 't) embedded) option) \<Rightarrow> (astate \<Rightarrow> 'r \<Rightarrow> astate \<Rightarrow> bool) \<Rightarrow> bool" where
  "complies E f R \<longleftrightarrow>
     (\<forall>mode n D. embedded_ok E mode n D \<longrightarrow>
        (\<exists>r D'. f D = Some (r, D') \<and> embedded_ok E mode n D' \<and> R (embedded_abs E D) r (embedded_abs E D')))"

lemma compliesI:
  assumes "\<And>mode n D. embedded_ok E mode n D \<Longrightarrow>
    \<exists>r D'. f D = Some (r, D') \<and> embedded_ok E mode n D' \<and> R (embedded_abs E D) r (embedded_abs E D')"
  shows "complies E f R"
  using assms by (simp add: complies_def)

lemma compliesD:
  assumes "complies E f R" "embedded_ok E mode n D"
  shows "\<exists>r D'. f D = Some (r, D') \<and> embedded_ok E mode n D' \<and> R (embedded_abs E D) r (embedded_abs E D')"
  using assms by (simp add: complies_def)

lemma implements_complies: "implements E f sp \<Longrightarrow> complies E f (\<lambda>A r A'. sp A = (r, A'))"
  by (simp add: implements_def complies_def)

text \<open>A reply wrapped for the sequence.\<close>

definition wrap :: "('r \<Rightarrow> 's) \<Rightarrow> ('r \<times> 'd) option \<Rightarrow> ('s \<times> 'd) option" where
  "wrap g = map_option (apfst g)"

lemma wrap_complies:
  assumes "complies E f R"
  shows "complies E (\<lambda>D. wrap g (f D)) (\<lambda>A r A'. \<exists>x. r = g x \<and> R A x A')"
proof (rule compliesI)
  fix mode n D assume "embedded_ok E mode n D"
  from compliesD [OF assms this] show "\<exists>r D'. wrap g (f D) = Some (r, D') \<and> embedded_ok E mode n D' \<and>
      (\<exists>x. r = g x \<and> R (embedded_abs E D) x (embedded_abs E D'))" by (auto simp: wrap_def)
qed

lemma embedded_complies:
  assumes D: "embedded_ok E mode n D"
    and ex: "\<And>place S. store_inv E place S \<Longrightarrow> (\<And>x. place x < length (shards S)) \<Longrightarrow> placed E place S key (route_key E D key) \<Longrightarrow>
      \<exists>res S'. f S = Some (res, S') \<and> store_inv E place S' \<and> length (shards S') = length (shards S) \<and>
        R (store_abs E place S) res (store_abs E place S')"
  shows "\<exists>r D'. map_option (with_objects D) (f (objects D)) = Some (r, D') \<and> embedded_ok E mode n D' \<and>
    R (embedded_abs E D) r (embedded_abs E D')"
proof -
  have "store_inv E (home E mode n) (objects D)" using D by (simp add: embedded_ok_def)
  from ex [OF this embedded_route(1,2) [OF D]] obtain res S' where S': "f (objects D) = Some (res, S')"
    "store_inv E (home E mode n) S'" "length (shards S') = length (shards (objects D))"
    "R (store_abs E (home E mode n) (objects D)) res (store_abs E (home E mode n) S')" by blast
  from with_objects_ok [of E mode n D f res S' "\<lambda>_. (res, store_abs E (home E mode n) S')", OF D S'(1-3)] S'(4) show ?thesis
    by (auto simp: embedded_route(4) [OF D])
qed

section \<open>Reads with a choice\<close>

text \<open>A read whose reply is one of those that the contents allow.\<close>

locale choosing_read =
  fixes E :: "('h, 't) env" and key :: bytes and op :: "('h, 't) bucket \<Rightarrow> 'r option" and allowed :: "astate \<Rightarrow> 'r \<Rightarrow> bool"
  assumes chooses: "env_ok E \<Longrightarrow> bucket_inv E b \<Longrightarrow> \<exists>r. op b = Some r \<and> allowed (bucket_abs E b) r"
    and local: "eq_at key A B \<Longrightarrow> allowed A r \<Longrightarrow> allowed B r"
begin

lemma chosen_at:
  assumes "env_ok E" "store_inv E place S" "\<And>x. place x < length (shards S)"
  shows "\<exists>r. op (bucket_of E place S key) = Some r \<and> allowed (store_abs E place S) r"
  using chooses [OF assms(1) bucket_of_read(2) [OF assms(2,3)]] local [OF eq_at_store] by blast

end

definition choice_read ::
  "bytes \<Rightarrow> u64 \<Rightarrow> bool \<Rightarrow> (astate \<Rightarrow> redis_object_result \<Rightarrow> bool) \<Rightarrow> astate \<Rightarrow> redis_object_result \<Rightarrow> astate \<Rightarrow> bool" where
  "choice_read k now str allowed A r A' \<longleftrightarrow>
     A' = a_tidy k now A \<and> (if a_obj A' k = None \<and> str then r = WrongType else allowed A' r)"

definition choice_visit ::
  "bytes \<Rightarrow> u64 \<Rightarrow> bool \<Rightarrow> (astate \<Rightarrow> 'e list \<times> read_outcome \<Rightarrow> bool) \<Rightarrow> astate \<Rightarrow> 'e list \<times> read_outcome \<Rightarrow> astate \<Rightarrow> bool" where
  "choice_visit k now str allowed A out A' \<longleftrightarrow>
     A' = a_tidy k now A \<and> (if a_obj A' k = None then out = ([], no_object str) else allowed A' out)"

locale routed_choice = choosing_read E key op allowed
  for E :: "('h, 't) env" and key :: bytes and op :: "('h, 't) bucket \<Rightarrow> redis_object_result option" and allowed
begin

lemma routed:
  assumes E: "env_ok E" and S: "store_inv E place S" and pl: "\<And>x. place x < length (shards S)" and r: "placed E place S key route"
  shows "\<exists>res S'. object_read_routed E route key now str op S = Some (res, S') \<and> store_inv E place S' \<and>
    length (shards S') = length (shards S) \<and> choice_read key now str allowed (store_abs E place S) res (store_abs E place S')"
proof -
  let ?over = "a_over (store_abs E place S) key now"
  obtain S' where S': "tidy_before_read E route key now (bucket_of E place S key) S = Some (?over, S')" "store_inv E place S'"
    "length (shards S') = length (shards S)" "store_abs E place S' = a_tidy key now (store_abs E place S)" "\<not> ?over \<Longrightarrow> S' = S"
    using tidy_law [OF E S pl r, of now] by blast
  have pl': "\<And>x. place x < length (shards S')" using pl S'(3) by simp
  have rd: "read_bucket (shard_id route) (key_hash route) S = Some (bucket_of E place S key)"
    "read_bucket (shard_id route) (key_hash route) S' = Some (bucket_of E place S' key)"
    using r bucket_of_read(1) [OF S pl, of key] bucket_of_read(1) [OF S'(2) pl', of key] by (simp_all add: placed_def)
  obtain x where x: "op (bucket_of E place S' key) = Some x" "allowed (store_abs E place S') x" using chosen_at [OF E S'(2) pl'] by blast
  show ?thesis
  proof (cases ?over)
    case True
    then have "a_obj (store_abs E place S') key = None" by (simp add: S'(4) a_tidy_def a_del_def)
    with True S'(1-4) rd x show ?thesis by (cases str) (auto simp: object_read_routed_def choice_read_def)
  next
    case False
    have "contains_object E (bucket_of E place S key) key \<longleftrightarrow> a_obj (store_abs E place S) key \<noteq> None"
      using contains_has_obj [OF E bucket_of_read(2) [OF S pl]] by (simp add: has_obj_def store_abs_def)
    with False S' rd x show ?thesis by (auto simp: object_read_routed_def choice_read_def)
  qed
qed

lemma object_read_complies:
  assumes E: "env_ok E"
  shows "complies E (object_read E key now str op) (choice_read key now str allowed)"
proof (rule compliesI)
  fix mode n D assume D: "embedded_ok E mode n D"
  show "\<exists>r D'. object_read E key now str op D = Some (r, D') \<and> embedded_ok E mode n D' \<and>
      choice_read key now str allowed (embedded_abs E D) r (embedded_abs E D')"
    unfolding object_read_def by (rule embedded_complies [OF D, where key = key]) (rule routed [OF E])
qed

end

lemma shard_empty_key:
  assumes E: "env_ok E" and S: "store_inv E place S" and pl: "\<And>x. place x < length (shards S)"
    and empty: "object_count (shards S ! place k) \<le> 0"
  shows "a_obj (store_abs E place S) k = None" "\<not> a_over (store_abs E place S) k now"
proof -
  have sh: "shard_ok E place 0 (place k) (shards S ! place k)" using S pl by (simp add: store_ok_def)
  then have "bucket_of E place S k \<in> set (buckets (shards S ! place k))"
    using bucket_index_less [of "hash_key E k"] by (auto simp: bucket_of_def shard_ok_def)
  from no_objects(1) [OF E sh empty this] show none: "a_obj (store_abs E place S) k = None" by (simp add: store_abs_def)
  with a_expired_obj [OF bucket_of_read(2) [OF S pl, of k], where k = k and now = now] eq_at_store [of k E place S]
  show "\<not> a_over (store_abs E place S) k now" by (auto simp: a_over_def eq_at_def a_expired_def)
qed

locale routed_choice_visit = choosing_read E key op allowed
  for E :: "('h, 't) env" and key :: bytes and op :: "('h, 't) bucket \<Rightarrow> ('e list \<times> read_outcome) option" and allowed +
  assumes missing: "allowed A out \<Longrightarrow> snd out = Missing \<longleftrightarrow> a_obj A key = None" "allowed A out \<Longrightarrow> a_obj A key = None \<Longrightarrow> fst out = []"
begin

lemma routed:
  assumes E: "env_ok E" and S: "store_inv E place S" and pl: "\<And>x. place x < length (shards S)" and r: "placed E place S key route"
  shows "\<exists>res S'. object_read_routed_visit E route key now str op S = Some (res, S') \<and> store_inv E place S' \<and>
    length (shards S') = length (shards S) \<and> choice_visit key now str allowed (store_abs E place S) res (store_abs E place S')"
proof -
  let ?over = "a_over (store_abs E place S) key now"
  obtain S' where S': "tidy_before_read E route key now (bucket_of E place S key) S = Some (?over, S')" "store_inv E place S'"
    "length (shards S') = length (shards S)" "store_abs E place S' = a_tidy key now (store_abs E place S)" "\<not> ?over \<Longrightarrow> S' = S"
    using tidy_law [OF E S pl r, of now] by blast
  have rd: "read_bucket (shard_id route) (key_hash route) S = Some (bucket_of E place S key)"
    using r bucket_of_read(1) [OF S pl, of key] by (simp add: placed_def)
  obtain items outcome where x: "op (bucket_of E place S key) = Some (items, outcome)" "allowed (store_abs E place S) (items, outcome)"
    using chosen_at [OF E S pl] by (metis prod.exhaust)
  have at_home: "shard_id route < length (shards S)" using r pl by (simp add: placed_def)
  consider (empty) "object_count (shards S ! shard_id route) \<le> 0" | (over) "0 < object_count (shards S ! shard_id route)" ?over
    | (live) "0 < object_count (shards S ! shard_id route)" "\<not> ?over" by linarith
  then show ?thesis
  proof cases
    case empty
    have "a_obj (store_abs E place S) key = None" "\<not> ?over" using shard_empty_key [OF E S pl] r empty by (simp_all add: placed_def)
    with empty S at_home show ?thesis
      by (auto simp: object_read_routed_visit_def shard_has_objects_def shard_object_count_hint_def shard_atI choice_visit_def
          a_tidy_def)
  next
    case over
    then have "a_obj (store_abs E place S') key = None" by (simp add: S'(4) a_tidy_def a_del_def)
    with over S' rd at_home show ?thesis
      by (auto simp: object_read_routed_visit_def shard_has_objects_def shard_object_count_hint_def shard_atI choice_visit_def)
  next
    case live
    with S' rd x missing [OF x(2)] at_home show ?thesis
      by (auto simp: object_read_routed_visit_def shard_has_objects_def shard_object_count_hint_def shard_atI choice_visit_def)
  qed
qed

lemma object_visit_complies:
  assumes E: "env_ok E"
  shows "complies E (object_read_hashed_visit E (hash_key E key) key now str op) (choice_visit key now str allowed)"
proof (rule compliesI)
  fix mode n D assume D: "embedded_ok E mode n D"
  show "\<exists>r D'. object_read_hashed_visit E (hash_key E key) key now str op D = Some (r, D') \<and> embedded_ok E mode n D' \<and>
      choice_visit key now str allowed (embedded_abs E D) r (embedded_abs E D')"
    unfolding object_read_hashed_visit_def embedded_route(3) [OF D]
    by (rule embedded_complies [OF D, where key = key]) (rule routed [OF E])
qed

end

context object_kind
begin

lemma chooses_at:
  assumes E: "env_ok E" and b: "bucket_inv E b"
    and some: "\<And>r v. a_obj (bucket_abs E b) k = Some r \<Longrightarrow> proj r = Some v \<Longrightarrow> \<exists>x. op b = Some x \<and> Q v x"
    and none: "slot_of b k = None \<Longrightarrow> op b = (if has_non b k then Some wrong else Some dflt)"
  shows "\<exists>x. op b = Some x \<and> read_obj proj k (x = dflt) (x = wrong) (\<lambda>v. Q v x) (bucket_abs E b)"
  using E b
proof (cases rule: lookup [where k = k])
  case (hit slot ob v r)
  with some [OF hit(5,6)] show ?thesis by (auto simp: read_obj_def)
qed (simp_all add: read_obj_def none)

end

lemma local_choice: "eq_at k A B \<Longrightarrow> read_obj proj k d w f A \<Longrightarrow> read_obj proj k d w f B"
  by (simp add: read_obj_def eq_at_def)

lemma missing_choice:
  assumes "read_obj proj k (out = ([], Missing)) (out = ([], WrongTypeOutcome)) (\<lambda>v. \<exists>x. Q v x \<and> out = (items v x, Written)) A"
  shows "snd out = Missing \<longleftrightarrow> a_obj A k = None" "a_obj A k = None \<Longrightarrow> fst out = []"
  using assms by (auto simp: read_obj_def split: option.splits)

text \<open>Replies made from the members of a set, in some order.\<close>

abbreviation some_members :: "bytes \<Rightarrow> (bytes list \<Rightarrow> 'r) \<Rightarrow> 'r \<Rightarrow> 'r \<Rightarrow> astate \<Rightarrow> 'r \<Rightarrow> bool" where
  "some_members k f dflt wrong A r \<equiv> read_obj as_set k (r = dflt) (r = wrong) (\<lambda>S. \<exists>xs. enumerates xs S \<and> r = f xs) A"

lemma set_chooses:
  assumes "env_ok E" "bucket_inv E b"
    and "\<And>S. a_obj (bucket_abs E b) k = Some (OSet S) \<Longrightarrow> \<exists>xs. enumerates xs S \<and> op b = Some (f xs)"
    and "sm_get E (sets b) k = None \<Longrightarrow> op b = (if has_non_set E b k then Some wrong else Some dflt)"
  shows "\<exists>r. op b = Some r \<and> some_members k f dflt wrong (bucket_abs E b) r"
  by (rule set_kind.chooses_at [OF assms(1,2)]) (use assms(3,4) in \<open>auto split: robj.splits\<close>)

lemma enumerates_card: "enumerates xs S \<Longrightarrow> card S = length xs"
  using distinct_card by (auto simp: enumerates_def)

lemma set_choice_laws:
  assumes "env_ok E" "bucket_inv E b" "a_obj (bucket_abs E b) k = Some (OSet S)"
  shows "\<exists>xs. enumerates xs S \<and> srandmember E k wanted b = Some (srandmember_result wanted xs)"
    "\<exists>xs. enumerates xs S \<and> smembers_visit E k b = Some (item_visit xs, Written)"
    "\<exists>xs. enumerates xs S \<and> srandmember_positive_visit E k m b = Some (item_visit (take m xs), Written)"
proof -
  from srandmember_law [OF assms, of wanted m] obtain xs where xs: "enumerates xs S"
    "srandmember E k wanted b = Some (srandmember_result wanted xs)"
    "smembers_visit E k b = Some (Begin (card S) # map (\<lambda>m. Item (Some m)) xs, Written)"
    "srandmember_positive_visit E k m b = Some (Begin (min m (card S)) # map (\<lambda>m. Item (Some m)) (take m xs), Written)" by blast
  have "card S = length xs" using xs(1) by (rule enumerates_card)
  with xs show "\<exists>xs. enumerates xs S \<and> srandmember E k wanted b = Some (srandmember_result wanted xs)"
    "\<exists>xs. enumerates xs S \<and> smembers_visit E k b = Some (item_visit xs, Written)"
    "\<exists>xs. enumerates xs S \<and> srandmember_positive_visit E k m b = Some (item_visit (take m xs), Written)"
    by (auto simp: item_visit_def min.commute)
qed

interpretation srandmember_at: routed_choice E k "srandmember E k wanted"
  "some_members k (srandmember_result wanted) (if wanted \<noteq> None then Array [] else Bulk None) WrongType"
  for E k wanted
proof
  fix b assume ok: "env_ok E" "bucket_inv E b"
  then show "\<exists>r. srandmember E k wanted b = Some r \<and>
      some_members k (srandmember_result wanted) (if wanted \<noteq> None then Array [] else Bulk None) WrongType (bucket_abs E b) r"
    by (rule set_chooses) (rule set_choice_laws [OF ok], assumption, simp add: srandmember_def)
qed (rule local_choice)

interpretation smembers_visit_at: routed_choice_visit E k "smembers_visit E k"
  "some_members k (\<lambda>xs. (item_visit xs, Written)) ([], Missing) ([], WrongTypeOutcome)"
  for E k
proof
  fix b assume ok: "env_ok E" "bucket_inv E b"
  then show "\<exists>r. smembers_visit E k b = Some r \<and>
      some_members k (\<lambda>xs. (item_visit xs, Written)) ([], Missing) ([], WrongTypeOutcome) (bucket_abs E b) r"
    by (rule set_chooses) (rule set_choice_laws [OF ok], assumption, simp add: smembers_visit_def)
qed (rule local_choice missing_choice; assumption)+

interpretation srandmember_visit_at: routed_choice_visit E k "srandmember_positive_visit E k m"
  "some_members k (\<lambda>xs. (item_visit (take m xs), Written)) ([], Missing) ([], WrongTypeOutcome)"
  for E k m
proof
  fix b assume ok: "env_ok E" "bucket_inv E b"
  then show "\<exists>r. srandmember_positive_visit E k m b = Some r \<and>
      some_members k (\<lambda>xs. (item_visit (take m xs), Written)) ([], Missing) ([], WrongTypeOutcome) (bucket_abs E b) r"
    by (rule set_chooses) (rule set_choice_laws [OF ok], assumption, simp add: srandmember_positive_visit_def)
qed (rule local_choice missing_choice; assumption)+

text \<open>Visits of the live entries of a hash, in some order.\<close>

abbreviation some_entries ::
  "bytes \<Rightarrow> u64 \<Rightarrow> ((bytes \<times> bytes) list \<Rightarrow> array_item list) \<Rightarrow> astate \<Rightarrow> array_item list \<times> read_outcome \<Rightarrow> bool" where
  "some_entries k c f A out \<equiv> read_obj as_hash k (out = ([], Missing)) (out = ([], WrongTypeOutcome))
     (\<lambda>_. \<exists>es. lists_entries es (a_live A k c) \<and> out = (f es, Written)) A"

lemma local_entries: "eq_at k A B \<Longrightarrow> some_entries k c f A out \<Longrightarrow> some_entries k c f B out"
  using eq_at_live [of k A B c] by (simp add: read_obj_def eq_at_def)

lemma hash_chooses:
  assumes "env_ok E" "bucket_inv E b"
    and "\<And>m. a_obj (bucket_abs E b) k = Some (OHash m) \<Longrightarrow>
      \<exists>es. lists_entries es (a_live (bucket_abs E b) k c) \<and> op b = Some (f es, Written)"
    and "sm_get E (hashes b) k = None \<Longrightarrow> op b = (if has_non_hash E b k then Some ([], WrongTypeOutcome) else Some ([], Missing))"
  shows "\<exists>out. op b = Some out \<and> some_entries k c f (bucket_abs E b) out"
  by (rule hash_kind.chooses_at [OF assms(1,2)]) (use assms(3,4) in \<open>auto split: robj.splits\<close>)

abbreviation pair_visit :: "(bytes \<times> bytes) list \<Rightarrow> array_item list" where
  "pair_visit es \<equiv> Begin (saturating_mul (length es) 2) # emit_pairs es"

lemma hash_visit_laws:
  fixes c :: u64
  assumes "env_ok E" "bucket_inv E b" "a_obj (bucket_abs E b) k = Some (OHash m)"
  defines "live \<equiv> a_live (bucket_abs E b) k c"
  shows "\<exists>es. lists_entries es live \<and> hkeys_visit E k c b = Some (item_visit (map fst es), Written)"
    "\<exists>es. lists_entries es live \<and> hvals_visit E k c b = Some (item_visit (map snd es), Written)"
    "\<exists>es. lists_entries es live \<and> hgetall_visit E k c b = Some (pair_visit es, Written)"
proof -
  from visit_law [OF assms(1-3), of c] obtain es where es: "lists_entries es live"
    "hkeys_visit E k c b = Some (Begin (card (dom live)) # map (\<lambda>e. Item (Some (fst e))) es, Written)"
    "hvals_visit E k c b = Some (Begin (card (dom live)) # map (\<lambda>e. Item (Some (snd e))) es, Written)"
    "hgetall_visit E k c b = Some (Begin (saturating_mul (card (dom live)) 2) # emit_pairs es, Written)"
    unfolding live_def by blast
  have "card (dom live) = length es" using lists_entries_length [OF es(1)] by simp
  with es show "\<exists>es. lists_entries es live \<and> hkeys_visit E k c b = Some (item_visit (map fst es), Written)"
    "\<exists>es. lists_entries es live \<and> hvals_visit E k c b = Some (item_visit (map snd es), Written)"
    "\<exists>es. lists_entries es live \<and> hgetall_visit E k c b = Some (pair_visit es, Written)"
    by (auto simp: item_visit_def o_def)
qed

interpretation hkeys_visit_at: routed_choice_visit E k "hkeys_visit E k c" "some_entries k c (\<lambda>es. item_visit (map fst es))"
  for E k c
proof
  fix b assume ok: "env_ok E" "bucket_inv E b"
  then show "\<exists>out. hkeys_visit E k c b = Some out \<and> some_entries k c (\<lambda>es. item_visit (map fst es)) (bucket_abs E b) out"
    by (rule hash_chooses) (rule hash_visit_laws [OF ok], assumption, simp add: hkeys_visit_def)
qed (rule local_entries missing_choice; assumption)+

interpretation hvals_visit_at: routed_choice_visit E k "hvals_visit E k c" "some_entries k c (\<lambda>es. item_visit (map snd es))"
  for E k c
proof
  fix b assume ok: "env_ok E" "bucket_inv E b"
  then show "\<exists>out. hvals_visit E k c b = Some out \<and> some_entries k c (\<lambda>es. item_visit (map snd es)) (bucket_abs E b) out"
    by (rule hash_chooses) (rule hash_visit_laws [OF ok], assumption, simp add: hvals_visit_def)
qed (rule local_entries missing_choice; assumption)+

interpretation hgetall_visit_at: routed_choice_visit E k "hgetall_visit E k c" "some_entries k c pair_visit"
  for E k c
proof
  fix b assume ok: "env_ok E" "bucket_inv E b"
  then show "\<exists>out. hgetall_visit E k c b = Some out \<and> some_entries k c pair_visit (bucket_abs E b) out"
    by (rule hash_chooses) (rule hash_visit_laws [OF ok], assumption, simp add: hgetall_visit_def)
qed (rule local_entries missing_choice; assumption)+

section \<open>Counting with scores that may be NaN\<close>

text \<open>The binary search ends for every predicate, also for one that does not split the entries.\<close>

lemma partition_loop_total:
  assumes "env_ok E"
  shows "high \<le> length (its_iter E t) \<Longrightarrow> \<exists>p. zset_partition_loop E t pred low high = Some p"
proof (induction "high - low" arbitrary: low high rule: less_induct)
  case less
  let ?mid = "low + (high - low) div 2"
  show ?case
  proof (cases "low < high")
    case True
    then have mid: "?mid < high" by linarith
    then have "high - (?mid + 1) < high - low" "?mid - low < high - low" using True by linarith+
    from less(1) [OF this(1) less(2)] less(1) [OF this(2)] less(2) mid obtain p q where
      "zset_partition_loop E t pred (?mid + 1) high = Some p" "zset_partition_loop E t pred low ?mid = Some q" by fastforce
    moreover have "its_key_at E t ?mid = Some (its_iter E t ! ?mid)"
      using index_tree_okD [OF assms] mid less(2) by simp
    ultimately show ?thesis using True by (subst zset_partition_loop.simps) (simp add: Let_def)
  qed (simp add: zset_partition_loop.simps)
qed

lemma count_by_score_total:
  assumes "env_ok E"
  shows "\<exists>n. zset_count_by_score E z lo lo_incl hi hi_incl = Some n"
proof (cases z)
  case (ZMap scores t)
  have "\<exists>p. zset_partition_point E t pred = Some p" for pred
    unfolding zset_partition_point_def index_tree_okD(5) [OF assms] by (rule partition_loop_total [OF assms]) simp
  then show ?thesis by (auto simp: ZMap Option.bind_eq_Some_conv) blast
qed simp

text \<open>When scores and bounds are numbers the count is right.\<close>

definition all_numbers :: "(bytes \<rightharpoonup> f64) \<Rightarrow> f64 \<Rightarrow> f64 \<Rightarrow> bool" where
  "all_numbers v lo hi \<longleftrightarrow> no_nan (zcanon v) \<and> \<not> f64_is_nan lo \<and> \<not> f64_is_nan hi"

definition some_count :: "(bytes \<rightharpoonup> f64) \<Rightarrow> f64 \<Rightarrow> bool \<Rightarrow> f64 \<Rightarrow> bool \<Rightarrow> nat \<Rightarrow> bool" where
  "some_count v lo lo_incl hi hi_incl n \<longleftrightarrow> (all_numbers v lo hi \<longrightarrow> n = zcount_spec v lo lo_incl hi hi_incl)"

lemma zcount_laws:
  assumes E: "env_ok E" and b: "bucket_inv E b" and v: "a_obj (bucket_abs E b) k = Some (OZSet v)"
  shows "\<exists>n. some_count v lo True hi True n \<and> zcount E k lo hi b = Some (Integer (int n))"
    "\<exists>n. some_count v lo lo_incl hi hi_incl n \<and> zcount_range_visit E k lo lo_incl hi hi_incl b = Some ([int n], Written)"
proof -
  obtain slot z where z: "sm_get E (zsets b) k = Some slot" "slab_get (zset_slab b) slot = Some z"
    using E b v by (cases rule: zset_kind.lookup [where k = k]) auto
  obtain n where n: "zset_count_by_score E z lo True hi True = Some n" using count_by_score_total [OF E] by blast
  obtain m where m: "zset_count_by_score E z lo lo_incl hi hi_incl = Some m" using count_by_score_total [OF E] by blast
  note law = zcount_range_visit_law [OF E b v, of lo hi]
  from z n law(2) show "\<exists>n. some_count v lo True hi True n \<and> zcount E k lo hi b = Some (Integer (int n))"
    by (intro exI [of _ n]) (auto simp: some_count_def all_numbers_def zcount_def)
  from z m law(1) [of lo_incl hi_incl] show
    "\<exists>n. some_count v lo lo_incl hi hi_incl n \<and> zcount_range_visit E k lo lo_incl hi hi_incl b = Some ([int n], Written)"
    by (intro exI [of _ m]) (auto simp: some_count_def all_numbers_def zcount_range_visit_def)
qed

interpretation zcount_at: routed_choice E k "zcount E k lo hi"
  "\<lambda>A r. read_obj as_zset k (r = Integer 0) (r = WrongType) (\<lambda>v. \<exists>n. some_count v lo True hi True n \<and> r = Integer (int n)) A"
  for E k lo hi
proof
  fix b assume ok: "env_ok E" "bucket_inv E b"
  then show "\<exists>r. zcount E k lo hi b = Some r \<and> read_obj as_zset k (r = Integer 0) (r = WrongType)
      (\<lambda>v. \<exists>n. some_count v lo True hi True n \<and> r = Integer (int n)) (bucket_abs E b)"
    by (rule zset_kind.chooses_at)
      (use zcount_laws(1) [OF ok] in \<open>fastforce split: robj.splits\<close>, simp add: zcount_def)
qed (rule local_choice)

interpretation zcount_range_at: routed_choice_visit E k "zcount_range_visit E k lo lo_incl hi hi_incl"
  "\<lambda>A out. read_obj as_zset k (out = ([], Missing)) (out = ([], WrongTypeOutcome))
     (\<lambda>v. \<exists>n. some_count v lo lo_incl hi hi_incl n \<and> out = ([int n], Written)) A"
  for E k lo lo_incl hi hi_incl
proof
  fix b assume ok: "env_ok E" "bucket_inv E b"
  then show "\<exists>out. zcount_range_visit E k lo lo_incl hi hi_incl b = Some out \<and>
      read_obj as_zset k (out = ([], Missing)) (out = ([], WrongTypeOutcome))
        (\<lambda>v. \<exists>n. some_count v lo lo_incl hi hi_incl n \<and> out = ([int n], Written)) (bucket_abs E b)"
    by (rule zset_kind.chooses_at)
      (use zcount_laws(2) [OF ok] in \<open>fastforce split: robj.splits\<close>, simp add: zcount_range_visit_def)
qed (rule local_choice missing_choice; assumption)+

section \<open>Reads that bypass the router\<close>

definition spec_unrouted :: "bytes \<Rightarrow> bool \<Rightarrow> (astate \<Rightarrow> unit + 'v) \<Rightarrow> astate \<Rightarrow> (unit + 'v) \<times> astate" where
  "spec_unrouted k str rd A = (if a_obj A k = None \<and> str then Inl () else rd A, A)"

lemma unrouted_implements:
  assumes E: "env_ok E" and op: "reads E op rd" "local_read k rd"
  shows "implements E (\<lambda>D. map_option (\<lambda>r. (r, D)) (es_unrouted_read E k str op D)) (spec_unrouted k str rd)"
proof (rule implementsI)
  fix mode n D assume D: "embedded_ok E mode n D"
  obtain b where b: "read_bucket (shard_id (route_key E D k)) (key_hash (route_key E D k)) (objects D) = Some b" "bucket_inv E b"
    "eq_at k (bucket_abs E b) (embedded_abs E D)" using bucket_at_key [OF D] .
  have "rd (bucket_abs E b) = rd (embedded_abs E D)" using op(2) b(3) by (simp add: local_read_def)
  then have "op b = Some (rd (embedded_abs E D))" using readsD [OF op(1) b(2)] by simp
  moreover have "contains_object E b k \<longleftrightarrow> a_obj (embedded_abs E D) k \<noteq> None"
    using contains_has_obj [OF E b(2)] b(3) by (simp add: has_obj_def eq_at_def)
  ultimately show "\<exists>r D'. map_option (\<lambda>r. (r, D)) (es_unrouted_read E k str op D) = Some (r, D') \<and> embedded_ok E mode n D' \<and>
      spec_unrouted k str rd (embedded_abs E D) = (r, embedded_abs E D')"
    using D b(1) by (cases "rd (embedded_abs E D)") (auto simp: es_unrouted_read_def spec_unrouted_def)
qed

section \<open>Writes with a choice\<close>

text \<open>A write whose effect is one of those that the contents allow, and whose flag is exact.\<close>

definition choice_access ::
  "bytes \<Rightarrow> u64 \<Rightarrow> bool \<Rightarrow> (astate \<Rightarrow> redis_object_result \<Rightarrow> astate \<Rightarrow> bool) \<Rightarrow> astate \<Rightarrow> redis_object_result \<Rightarrow> astate \<Rightarrow> bool" where
  "choice_access k now str effect A r A' \<longleftrightarrow>
     (let A1 = snd (a_clean k now A) in if a_obj A1 k = None \<and> str then r = WrongType \<and> A' = A1 else effect A1 r A')"

locale routed_effect = bucket_op +
  fixes effect :: "astate \<Rightarrow> redis_object_result \<Rightarrow> astate \<Rightarrow> bool"
  assumes effect: "env_ok E \<Longrightarrow> bucket_inv E b \<Longrightarrow> op b = Some (r, fl, b') \<Longrightarrow> effect (bucket_abs E b) r (bucket_abs E b')"
    and local: "eq_at key A B \<Longrightarrow> effect A r A' \<Longrightarrow> \<exists>B'. effect B r B' \<and> eq_at key A' B' \<and> same_but key B B'"
begin

lemma routed:
  assumes E: "env_ok E" and S: "store_inv E place S" and pl: "\<And>x. place x < length (shards S)" and r: "placed E place S key route"
  shows "\<exists>res S'. object_write_routed E route key now str op S = Some (res, S') \<and> store_inv E place S' \<and>
    length (shards S') = length (shards S) \<and> choice_access key now str effect (store_abs E place S) res (store_abs E place S')"
proof -
  let ?A1 = "snd (a_clean key now (bucket_abs E (bucket_of E place S key)))" and ?B1 = "snd (a_clean key now (store_abs E place S))"
  obtain res S' where S': "object_write_routed E route key now str op S = Some (res, S')" "store_inv E place S'"
    "length (shards S') = length (shards S)" "same_but key (store_abs E place S) (store_abs E place S')" and
    alt: "if a_obj ?A1 key = None \<and> str then res = WrongType \<and> bucket_abs E (bucket_of E place S' key) = ?A1
     else \<exists>b fl b'. bucket_inv E b \<and> bucket_abs E b = ?A1 \<and> op b = Some (res, fl, b') \<and> bucket_of E place S' key = b'"
    using routed_op [OF E S pl r, of now str] by blast
  have at1: "eq_at key ?A1 ?B1" by (rule eq_at_clean [OF eq_at_store])
  then have none: "a_obj ?A1 key = None \<longleftrightarrow> a_obj ?B1 key = None" by (simp add: eq_at_def)
  have at': "eq_at key (bucket_abs E (bucket_of E place S' key)) (store_abs E place S')" by (rule eq_at_store)
  have "choice_access key now str effect (store_abs E place S) res (store_abs E place S')"
  proof (cases "a_obj ?A1 key = None \<and> str")
    case True
    with alt at1 at' have "eq_at key ?B1 (store_abs E place S')" by (simp add: eq_at_def)
    from astate_eqI [OF same_but_clean S'(4) this] True alt none show ?thesis by (simp add: choice_access_def)
  next
    case False
    with alt obtain b fl where b: "bucket_inv E b" "bucket_abs E b = ?A1" "op b = Some (res, fl, bucket_of E place S' key)" by auto
    obtain B2 where B2: "effect ?B1 res B2" "eq_at key (bucket_abs E (bucket_of E place S' key)) B2" "same_but key ?B1 B2"
      using local [OF at1] effect [OF E b(1,3)] b(2) by metis
    have "same_but key (store_abs E place S) B2" using B2(3) by (rule same_but_trans [OF same_but_clean])
    moreover have "eq_at key B2 (store_abs E place S')" using B2(2) at' by (simp add: eq_at_def)
    ultimately have "B2 = store_abs E place S'" using S'(4) astate_eqI by blast
    with False none B2(1) show ?thesis by (auto simp: choice_access_def)
  qed
  with S' show ?thesis by blast
qed

lemma object_write_complies:
  assumes E: "env_ok E"
  shows "complies E (object_write E key now str op) (choice_access key now str effect)"
proof (rule compliesI)
  fix mode n D assume D: "embedded_ok E mode n D"
  show "\<exists>r D'. object_write E key now str op D = Some (r, D') \<and> embedded_ok E mode n D' \<and>
      choice_access key now str effect (embedded_abs E D) r (embedded_abs E D')"
    unfolding object_write_def by (rule embedded_complies [OF D, where key = key]) (rule routed [OF E])
qed

end

text \<open>\<^verbatim>\<open>SPOP\<close> removes the first members of some enumeration.\<close>

definition spop_effect :: "bytes \<Rightarrow> nat option \<Rightarrow> astate \<Rightarrow> redis_object_result \<Rightarrow> astate \<Rightarrow> bool" where
  "spop_effect k wanted A r A' =
     read_obj as_set k (r = (if wanted \<noteq> None then Array [] else Bulk None) \<and> A' = A) (r = WrongType \<and> A' = A)
       (\<lambda>S. \<exists>xs. enumerates xs S \<and> r = spop_result wanted xs \<and>
              A' = set_left k (set (drop (case wanted of None \<Rightarrow> 1 | Some n \<Rightarrow> n) xs)) A) A"

interpretation spop_at: routed_effect E k "spop E k wanted" "spop_effect k wanted" for E k wanted
proof
  fix b r fl b' assume E: "env_ok E" and b: "bucket_inv E b" and op: "spop E k wanted b = Some (r, fl, b')"
  show "spop_effect k wanted (bucket_abs E b) r (bucket_abs E b')"
    using E b
  proof (cases rule: set_kind.lookup [where k = k])
    case (hit slot s S ob)
    then have S: "a_obj (bucket_abs E b) k = Some (OSet S)" by (simp split: robj.splits)
    from spop_law [OF E b S, of wanted] op hit(5,6) show ?thesis by (auto simp: spop_effect_def read_obj_def)
  qed (use op in \<open>auto simp: spop_effect_def read_obj_def spop_def split: option.splits\<close>)
next
  fix A B r A' assume AB: "eq_at k A B" and A': "spop_effect k wanted A r A'"
  let ?n = "case wanted of None \<Rightarrow> 1 | Some n \<Rightarrow> n"
  have obj: "a_obj B k = a_obj A k" using AB by (simp add: eq_at_def)
  show "\<exists>B'. spop_effect k wanted B r B' \<and> eq_at k A' B' \<and> same_but k B B'"
  proof (cases "\<exists>S. a_obj A k = Some (OSet S)")
    case True
    with A' obtain S xs where xs: "a_obj A k = Some (OSet S)" "enumerates xs S" "r = spop_result wanted xs" "A' = set_left k (set (drop ?n xs)) A"
      by (auto simp: spop_effect_def read_obj_def)
    have "spop_effect k wanted B r (set_left k (set (drop ?n xs)) B)" using xs obj by (auto simp: spop_effect_def read_obj_def)
    moreover have "eq_at k A' (set_left k (set (drop ?n xs)) B)" using AB xs(4) by (simp add: spec_local_simps)
    moreover have "same_but k B (set_left k (set (drop ?n xs)) B)" by (simp add: obj_left_def same_but_intros)
    ultimately show ?thesis by blast
  next
    case False
    with A' obj AB have "spop_effect k wanted B r B" "A' = A"
      by (auto simp: spop_effect_def read_obj_def split: option.splits robj.splits)
    with AB same_but_refl show ?thesis by blast
  qed
qed

section \<open>\<^verbatim>\<open>HSETEX\<close>\<close>

text \<open>
  The flag of \<^verbatim>\<open>HSETEX\<close> is wrong when it writes fields whose deadline is over to a key without an object: it reports a creation,
  and the router counts an object that is not there. With a deadline that is not over, and a clock that does not go back between
  the reading of the command and that of the router, the flag is the exact one.
\<close>

definition exact_op :: "('h, 't) env \<Rightarrow> bytes \<Rightarrow> ('h, 't) write_op \<Rightarrow> ('h, 't) write_op" where
  "exact_op E k op b = map_option (\<lambda>(r, _, b'). (r, has_obj E k b \<noteq> has_obj E k b', b')) (op b)"

definition exact_spec :: "bytes \<Rightarrow> write_spec \<Rightarrow> write_spec" where
  "exact_spec k spec A = (let (r, _, A') = spec A in (r, (a_obj A k = None) \<noteq> (a_obj A' k = None), A'))"

lemma exact_refines:
  assumes "refines E op spec"
  shows "refines E (exact_op E k op) (exact_spec k spec)"
proof (rule refinesI)
  fix b assume "bucket_inv E b"
  with assms obtain r fl b' where "op b = Some (r, fl, b')" "bucket_inv E b'" "spec (bucket_abs E b) = (r, fl, bucket_abs E b')"
    by (rule refinesD)
  then show "\<exists>r fl b'. exact_op E k op b = Some (r, fl, b') \<and> bucket_inv E b' \<and> exact_spec k spec (bucket_abs E b) = (r, fl, bucket_abs E b')"
    by (auto simp: exact_op_def exact_spec_def has_obj_def simp del: not_None_eq)
qed

lemma exact_local:
  assumes "local_write k spec"
  shows "local_write k (exact_spec k spec)"
proof (rule local_writeI)
  fix A B assume "eq_at k A B" "a_obj A k = a_obj B k"
  with local_writeE [OF assms this(1)] show "out_at k (exact_spec k spec A) (exact_spec k spec B)"
    by (cases "spec A"; cases "spec B") (simp add: exact_spec_def out_at_def eq_at_def)
qed

lemma hsetex_apply_local:
  assumes "eq_at k A B"
  shows "out_at k (spec_hsetex_apply k created fvs action c m A) (spec_hsetex_apply k created fvs action c m B)"
proof -
  have "a_fttl A k = a_fttl B k" using assms by (simp add: eq_at_def)
  with assms show ?thesis by (simp add: spec_hsetex_apply_def spec_local_simps split: hash_field_set_expire_action.split)
qed

lemma hsetex_local: "local_write k (spec_hsetex k fvs condition action c)"
proof (rule local_writeI)
  fix A B assume AB: "eq_at k A B" and obj: "a_obj A k = a_obj B k"
  let ?A = "snd (a_reap k c A)" and ?B = "snd (a_reap k c B)"
  have at: "eq_at k ?A ?B" by (rule eq_at_reap [OF AB])
  then have "a_obj ?A k = a_obj ?B k" by (simp add: eq_at_def)
  with AB at show "out_at k (spec_hsetex k fvs condition action c A) (spec_hsetex k fvs condition action c B)"
    by (simp add: spec_hsetex_def Let_def read_obj_def hsetex_apply_local eq_at_changes split: option.split)
qed

interpretation hsetex_at: routed_write E k "exact_op E k (hash_field_setex E k fvs condition action c)"
  "exact_spec k (spec_hsetex k fvs condition action c)"
  for E k fvs condition action c
proof
  show "env_ok E \<Longrightarrow> refines E (exact_op E k (hash_field_setex E k fvs condition action c)) (exact_spec k (spec_hsetex k fvs condition action c))"
    by (rule exact_refines) (rule hash_field_setex_refines)
  show "flag_exact k (exact_spec k (spec_hsetex k fvs condition action c))"
    unfolding flag_exact_def by (auto simp: exact_spec_def split: prod.splits dest: hsetex_same_but)
  show "local_write k (exact_spec k (spec_hsetex k fvs condition action c))" by (rule exact_local) (rule hsetex_local)
qed

text \<open>What the router leaves of a hash has no fields that were over earlier.\<close>

lemma clean_then_reap:
  assumes "c \<le> now"
  shows "\<not> fst (a_reap k c (snd (a_clean k now A)))"
proof -
  have "a_dead (a_purge k now A) k c = {}" if "a_obj A k = Some (OHash m)" for m
    using assms that by (auto simp: a_dead_def a_purge_def restrict_map_def)
  then have "a_purge k c (a_purge k now A) = a_purge k now A"
    by (cases "a_obj A k") (auto simp: a_purge_def a_hash_def a_at_def fun_upd_idem split: robj.splits)
  moreover have "\<not> fst (a_reap k c (a_del k B))" for B by (simp add: a_reap_def a_purge_def)
  ultimately show ?thesis by (simp add: a_clean_def a_reap_def [of k now] Let_def) (simp add: a_reap_def)
qed

definition deadline_ahead :: "u64 \<Rightarrow> hash_field_set_expire_action \<Rightarrow> bool" where
  "deadline_ahead c action = (case action of SetExpireAt t \<Rightarrow> c < t | _ \<Rightarrow> True)"

lemma hsetex_write_exact:
  assumes E: "env_ok E" and S: "store_inv E place S" and pl: "\<And>x. place x < length (shards S)" and r: "placed E place S k route"
    and c: "c \<le> now" "deadline_ahead c action"
  shows "object_write_routed E route k now str (hash_field_setex E k fvs condition action c) S =
    object_write_routed E route k now str (exact_op E k (hash_field_setex E k fvs condition action c)) S"
proof -
  let ?op = "hash_field_setex E k fvs condition action c"
  obtain b S1 where b: "reap_at E route k now S = Some (b, S1)" "bucket_inv E b"
    "bucket_abs E b = snd (a_clean k now (bucket_abs E (bucket_of E place S k)))" using reap_at_law [OF E S pl r, of now] by blast
  obtain x fl b' where op: "?op b = Some (x, fl, b')" "bucket_inv E b'" "spec_hsetex k fvs condition action c (bucket_abs E b) = (x, fl, bucket_abs E b')"
    by (rule refinesD [OF hash_field_setex_refines [OF E] b(2)])
  have clean: "\<not> fst (a_reap k c (bucket_abs E b))" unfolding b(3) by (rule clean_then_reap [OF c(1)])
  have ahead: "\<forall>t. action = SetExpireAt t \<longrightarrow> c < t" using c(2) by (auto simp: deadline_ahead_def)
  have "fl \<longleftrightarrow> (a_obj (bucket_abs E b) k = None) \<noteq> (a_obj (bucket_abs E b') k = None)"
    by (rule hsetex_flag [OF op(3) clean]) (rule ahead)
  then have "fl \<longleftrightarrow> has_obj E k b \<noteq> has_obj E k b'" by (simp add: has_obj_def del: not_None_eq)
  with op(1) have "exact_op E k ?op b = ?op b" by (simp add: exact_op_def)
  with b(1) show ?thesis by (simp add: object_write_routed_def Let_def)
qed

lemma hsetex_implements:
  assumes E: "env_ok E" and c: "c \<le> now" "deadline_ahead c action"
  shows "implements E (es_hsetex E k fvs condition action c now str) (spec_access k now str (spec_hsetex k fvs condition action c))"
proof (rule implementsI)
  fix mode n D assume D: "embedded_ok E mode n D"
  let ?op = "hash_field_setex E k fvs condition action c"
  have "store_inv E (home E mode n) (objects D)" using D by (simp add: embedded_ok_def)
  from hsetex_write_exact [OF E this embedded_route(1,2) [OF D] c] have
    "es_hsetex E k fvs condition action c now str D = object_write E k now str (exact_op E k ?op) D"
    by (simp add: es_hsetex_def object_write_def)
  moreover have "spec_access k now str (exact_spec k (spec_hsetex k fvs condition action c)) =
      spec_access k now str (spec_hsetex k fvs condition action c)"
    by (simp add: spec_access_def exact_spec_def fun_eq_iff split_def Let_def)
  ultimately show "\<exists>r D'. es_hsetex E k fvs condition action c now str D = Some (r, D') \<and> embedded_ok E mode n D' \<and>
      spec_access k now str (spec_hsetex k fvs condition action c) (embedded_abs E D) = (r, embedded_abs E D')"
    using implementsD [OF hsetex_at.object_write_implements(1) [OF E] D] by metis
qed

section \<open>The whole interface\<close>

text \<open>A count that is kept from a visit.\<close>

definition choice_value ::
  "(robj \<Rightarrow> 'v option) \<Rightarrow> bytes \<Rightarrow> u64 \<Rightarrow> bool \<Rightarrow> 'w \<Rightarrow> ('v \<Rightarrow> 'w \<Rightarrow> bool) \<Rightarrow> astate \<Rightarrow> unit + 'w \<Rightarrow> astate \<Rightarrow> bool" where
  "choice_value proj k now str absent allowed A x A' \<longleftrightarrow>
     A' = a_tidy k now A \<and>
     read_obj proj k (x = (if str then Inl () else Inr absent)) (x = Inl ()) (\<lambda>v. \<exists>w. allowed v w \<and> x = Inr w) A'"

lemma value_complies:
  assumes "complies E g (choice_visit k now str (\<lambda>A out. read_obj proj k (out = ([], Missing)) (out = ([], WrongTypeOutcome))
      (\<lambda>v. \<exists>n. Q v n \<and> out = ([f n], Written)) A))"
  shows "complies E (\<lambda>D. map_option (value_of_visit absent) (g D)) (choice_value proj k now str absent (\<lambda>v w. \<exists>n. Q v n \<and> w = f n))"
proof (rule compliesI)
  fix mode n D assume "embedded_ok E mode n D"
  from compliesD [OF assms this] obtain out D' where D': "g D = Some (out, D')" "embedded_ok E mode n D'"
    "choice_visit k now str (\<lambda>A out. read_obj proj k (out = ([], Missing)) (out = ([], WrongTypeOutcome))
      (\<lambda>v. \<exists>n. Q v n \<and> out = ([f n], Written)) A) (embedded_abs E D) out (embedded_abs E D')" by blast
  then have "choice_value proj k now str absent (\<lambda>v w. \<exists>n. Q v n \<and> w = f n) (embedded_abs E D) (fst (value_of_visit absent (out, D'))) (embedded_abs E D')"
    by (auto simp: choice_value_def choice_visit_def read_obj_def value_of_visit_def no_object_def split: option.splits if_splits)
  with D'(1,2) show "\<exists>r D'. map_option (value_of_visit absent) (g D) = Some (r, D') \<and> embedded_ok E mode n D' \<and>
      choice_value proj k now str absent (\<lambda>v w. \<exists>n. Q v n \<and> w = f n) (embedded_abs E D) r (embedded_abs E D')"
    by (auto simp: value_of_visit_def split: prod.split)
qed

datatype store_command =
    Plain command
  | Hsetex bytes "(bytes \<times> bytes) list" hash_field_set_condition hash_field_set_expire_action
  | Spop bytes "nat option"
  | Srandmember bytes "int option"
  | Zcount bytes f64 f64
  | ZcountRange bytes f64 bool f64 bool
  | LlenVisit bytes
  | LindexVisit bytes int
  | LrangeVisit bytes int int
  | LposVisit bytes bytes int "int option" int
  | HmgetVisit bytes "bytes list"
  | HkeysVisit bytes
  | HvalsVisit bytes
  | HgetallVisit bytes
  | SmembersVisit bytes
  | SrandmemberVisit bytes nat
  | ZscoreValue bytes bytes
  | ZrankValue bytes bytes bool
  | ZrangeEntriesVisit bytes int int bool
  | SetMembers bytes
  | Zentries bytes

text \<open>The replies, with what the visits hand over; \<^term>\<open>Inl ()\<close> is the error of a wrong type.\<close>

datatype store_reply =
    ReplyResult redis_object_result
  | ReplyItems "array_item list \<times> read_outcome"
  | ReplyNumbers "int list \<times> read_outcome"
  | ReplyValues "bytes option list \<times> read_outcome"
  | ReplyPositions "int list list \<times> read_outcome"
  | ReplyEntries "zset_range_item list \<times> read_outcome"
  | ReplyScore "unit + f64 option"
  | ReplyRank "unit + nat option"
  | ReplyCount "unit + int"
  | ReplyMembers "unit + bytes list"
  | ReplyScored "unit + (bytes \<times> f64) list"

primrec exec_store ::
  "('h, 't) env \<Rightarrow> call \<Rightarrow> store_command \<Rightarrow> ('h, 't) embedded \<Rightarrow> (store_reply \<times> ('h, 't) embedded) option" where
  "exec_store E i (Plain c) D = wrap ReplyResult (exec E i c D)"
| "exec_store E i (Hsetex k fvs condition action) D =
     wrap ReplyResult (es_hsetex E k fvs condition action (clock1 i) (now_of i) (string_of i) D)"
| "exec_store E i (Spop k wanted) D = wrap ReplyResult (es_spop E k wanted (now_of i) (string_of i) D)"
| "exec_store E i (Srandmember k wanted) D = wrap ReplyResult (es_srandmember E k wanted (now_of i) (string_of i) D)"
| "exec_store E i (Zcount k lo hi) D = wrap ReplyResult (es_zcount E k lo hi (now_of i) (string_of i) D)"
| "exec_store E i (ZcountRange k lo lo_incl hi hi_incl) D =
     wrap ReplyCount (es_zcount_range E k lo lo_incl hi hi_incl (now_of i) (string_of i) D)"
| "exec_store E i (LlenVisit k) D = wrap ReplyNumbers (es_llen_visit E k (now_of i) (string_of i) D)"
| "exec_store E i (LindexVisit k index) D = wrap ReplyValues (es_lindex_visit E k index (now_of i) (string_of i) D)"
| "exec_store E i (LrangeVisit k start stop) D = wrap ReplyItems (es_lrange_visit E k start stop (now_of i) (string_of i) D)"
| "exec_store E i (LposVisit k element rank wanted maxlen) D =
     wrap ReplyPositions (es_lpos_visit E k element rank wanted maxlen (now_of i) (string_of i) D)"
| "exec_store E i (HmgetVisit k fs) D = wrap ReplyItems (es_hmget_visit E k fs (clock1 i) (now_of i) (string_of i) D)"
| "exec_store E i (HkeysVisit k) D = wrap ReplyItems (es_hkeys_visit E k (clock1 i) (now_of i) (string_of i) D)"
| "exec_store E i (HvalsVisit k) D = wrap ReplyItems (es_hvals_visit E k (clock1 i) (now_of i) (string_of i) D)"
| "exec_store E i (HgetallVisit k) D = wrap ReplyItems (es_hgetall_visit E k (clock1 i) (now_of i) (string_of i) D)"
| "exec_store E i (SmembersVisit k) D = wrap ReplyItems (es_smembers_visit E k (now_of i) (string_of i) D)"
| "exec_store E i (SrandmemberVisit k m) D = wrap ReplyItems (es_srandmember_positive_visit E k m (now_of i) (string_of i) D)"
| "exec_store E i (ZscoreValue k m) D = wrap ReplyScore (es_zscore_value E k m (now_of i) (string_of i) D)"
| "exec_store E i (ZrankValue k m rv) D = wrap ReplyRank (es_zrank_value E k m rv (now_of i) (string_of i) D)"
| "exec_store E i (ZrangeEntriesVisit k start stop rv) D =
     wrap ReplyEntries (es_zrange_entries_visit E k start stop rv (now_of i) (string_of i) D)"
| "exec_store E i (SetMembers k) D = map_option (\<lambda>r. (ReplyMembers r, D)) (es_set_members E k (string_of i) D)"
| "exec_store E i (Zentries k) D = map_option (\<lambda>r. (ReplyScored r, D)) (es_zentries E k (string_of i) D)"

text \<open>What each command may reply and leave behind.\<close>

primrec spec_step :: "call \<Rightarrow> store_command \<Rightarrow> astate \<Rightarrow> store_reply \<Rightarrow> astate \<Rightarrow> bool" where
  "spec_step i (Plain c) A r A' \<longleftrightarrow> (\<exists>x. r = ReplyResult x \<and> spec_command i c A = (x, A'))"
| "spec_step i (Hsetex k fvs condition action) A r A' \<longleftrightarrow>
     (\<exists>x. r = ReplyResult x \<and> spec_access k (now_of i) (string_of i) (spec_hsetex k fvs condition action (clock1 i)) A = (x, A'))"
| "spec_step i (Spop k wanted) A r A' \<longleftrightarrow>
     (\<exists>x. r = ReplyResult x \<and> choice_access k (now_of i) (string_of i) (spop_effect k wanted) A x A')"
| "spec_step i (Srandmember k wanted) A r A' \<longleftrightarrow>
     (\<exists>x. r = ReplyResult x \<and> choice_read k (now_of i) (string_of i)
        (some_members k (srandmember_result wanted) (if wanted \<noteq> None then Array [] else Bulk None) WrongType) A x A')"
| "spec_step i (Zcount k lo hi) A r A' \<longleftrightarrow>
     (\<exists>x. r = ReplyResult x \<and> choice_read k (now_of i) (string_of i) (\<lambda>A x. read_obj as_zset k (x = Integer 0) (x = WrongType)
        (\<lambda>v. \<exists>n. some_count v lo True hi True n \<and> x = Integer (int n)) A) A x A')"
| "spec_step i (ZcountRange k lo lo_incl hi hi_incl) A r A' \<longleftrightarrow>
     (\<exists>x. r = ReplyCount x \<and> choice_value as_zset k (now_of i) (string_of i) 0
        (\<lambda>v w. \<exists>n. some_count v lo lo_incl hi hi_incl n \<and> w = int n) A x A')"
| "spec_step i (LlenVisit k) A r A' \<longleftrightarrow>
     (\<exists>x. r = ReplyNumbers x \<and> spec_visit k (now_of i) (string_of i) (visits as_list k (\<lambda>xs. [int (length xs)])) A = (x, A'))"
| "spec_step i (LindexVisit k index) A r A' \<longleftrightarrow>
     (\<exists>x. r = ReplyValues x \<and> spec_visit k (now_of i) (string_of i) (visits as_list k (\<lambda>xs. [nth_normalized xs index])) A = (x, A'))"
| "spec_step i (LrangeVisit k start stop) A r A' \<longleftrightarrow>
     (\<exists>x. r = ReplyItems x \<and> spec_visit k (now_of i) (string_of i) (visits as_list k (\<lambda>xs. item_visit (zrange_spec xs start stop))) A = (x, A'))"
| "spec_step i (LposVisit k element rank wanted maxlen) A r A' \<longleftrightarrow>
     (\<exists>x. r = ReplyPositions x \<and>
        spec_visit k (now_of i) (string_of i) (visits as_list k (\<lambda>xs. [lpos_positions element rank wanted maxlen xs])) A = (x, A'))"
| "spec_step i (HmgetVisit k fs) A r A' \<longleftrightarrow>
     (\<exists>x. r = ReplyItems x \<and> spec_visit k (now_of i) (string_of i) (read_live k (clock1 i) ([], Missing) ([], WrongTypeOutcome)
        (\<lambda>m. (Begin (length fs) # map (\<lambda>f. Item (m f)) fs, Written))) A = (x, A'))"
| "spec_step i (HkeysVisit k) A r A' \<longleftrightarrow>
     (\<exists>x. r = ReplyItems x \<and> choice_visit k (now_of i) (string_of i) (some_entries k (clock1 i) (\<lambda>es. item_visit (map fst es))) A x A')"
| "spec_step i (HvalsVisit k) A r A' \<longleftrightarrow>
     (\<exists>x. r = ReplyItems x \<and> choice_visit k (now_of i) (string_of i) (some_entries k (clock1 i) (\<lambda>es. item_visit (map snd es))) A x A')"
| "spec_step i (HgetallVisit k) A r A' \<longleftrightarrow>
     (\<exists>x. r = ReplyItems x \<and> choice_visit k (now_of i) (string_of i) (some_entries k (clock1 i) pair_visit) A x A')"
| "spec_step i (SmembersVisit k) A r A' \<longleftrightarrow>
     (\<exists>x. r = ReplyItems x \<and> choice_visit k (now_of i) (string_of i)
        (some_members k (\<lambda>xs. (item_visit xs, Written)) ([], Missing) ([], WrongTypeOutcome)) A x A')"
| "spec_step i (SrandmemberVisit k m) A r A' \<longleftrightarrow>
     (\<exists>x. r = ReplyItems x \<and> choice_visit k (now_of i) (string_of i)
        (some_members k (\<lambda>xs. (item_visit (take m xs), Written)) ([], Missing) ([], WrongTypeOutcome)) A x A')"
| "spec_step i (ZscoreValue k m) A r A' \<longleftrightarrow>
     (\<exists>x. r = ReplyScore x \<and> spec_value as_zset k (now_of i) (string_of i) None (\<lambda>v. v m) A = (x, A'))"
| "spec_step i (ZrankValue k m rv) A r A' \<longleftrightarrow>
     (\<exists>x. r = ReplyRank x \<and> spec_value as_zset k (now_of i) (string_of i) None (\<lambda>v. zrank_spec v m rv) A = (x, A'))"
| "spec_step i (ZrangeEntriesVisit k start stop rv) A r A' \<longleftrightarrow>
     (\<exists>x. r = ReplyEntries x \<and> spec_visit k (now_of i) (string_of i) (visits as_zset k (entry_visit start stop rv)) A = (x, A'))"
| "spec_step i (SetMembers k) A r A' \<longleftrightarrow>
     (\<exists>x. r = ReplyMembers x \<and>
        spec_unrouted k (string_of i) (read_obj as_set k (Inr []) (Inl ()) (\<lambda>S. Inr (sorted_list_of_set S))) A = (x, A'))"
| "spec_step i (Zentries k) A r A' \<longleftrightarrow>
     (\<exists>x. r = ReplyScored x \<and> spec_unrouted k (string_of i) (read_obj as_zset k (Inr []) (Inl ()) (\<lambda>v. Inr (zcanon v))) A = (x, A'))"

text \<open>
  The calls for which the code keeps its promises: \<^verbatim>\<open>HSETEX\<close> with a deadline that is not over and a clock that does not go back
  within the call, \<^verbatim>\<open>LPOS\<close> with a rank that is not 0, and all other commands.
\<close>

definition kept_promise :: "call \<Rightarrow> store_command \<Rightarrow> bool" where
  "kept_promise i c =
     (case c of
        Hsetex k fvs condition action \<Rightarrow> clock1 i \<le> now_of i \<and> deadline_ahead (clock1 i) action
      | LposVisit k element rank wanted maxlen \<Rightarrow> rank \<noteq> 0
      | _ \<Rightarrow> True)"

lemmas es_choice_defs =
    es_spop_def es_srandmember_def es_zcount_def es_zcount_range_def es_llen_visit_def es_lindex_visit_def
    es_lrange_visit_def es_lpos_visit_def es_hmget_visit_def es_hkeys_visit_def es_hvals_visit_def es_hgetall_visit_def
    es_smembers_visit_def es_srandmember_positive_visit_def es_zscore_value_def es_zrank_value_def es_zrange_entries_visit_def
    es_set_members_def es_zentries_def

lemma unrouted_complies:
  assumes "implements E (\<lambda>D. map_option (\<lambda>r. (r, D)) (f D)) sp"
  shows "complies E (\<lambda>D. map_option (\<lambda>r. (g r, D)) (f D)) (\<lambda>A r A'. \<exists>x. r = g x \<and> sp A = (x, A'))"
proof (rule compliesI)
  fix mode n D assume "embedded_ok E mode n D"
  from implementsD [OF assms this] show "\<exists>r D'. map_option (\<lambda>r. (g r, D)) (f D) = Some (r, D') \<and> embedded_ok E mode n D' \<and>
      (\<exists>x. r = g x \<and> sp (embedded_abs E D) = (x, embedded_abs E D'))" by (cases "f D") auto
qed

lemmas store_complies =
    wrap_complies [OF implements_complies [OF exec_implements]]
    wrap_complies [OF implements_complies [OF hsetex_implements]]
    wrap_complies [OF spop_at.object_write_complies]
    wrap_complies [OF srandmember_at.object_read_complies]
    wrap_complies [OF zcount_at.object_read_complies]
    wrap_complies [OF value_complies [OF zcount_range_at.object_visit_complies]]
    wrap_complies [OF implements_complies [OF llen_visit_at.object_visit_implements]]
    wrap_complies [OF implements_complies [OF lindex_visit_at.object_visit_implements]]
    wrap_complies [OF implements_complies [OF lrange_visit_at.object_visit_implements]]
    wrap_complies [OF implements_complies [OF routed_visit.object_visit_implements [OF lpos_visit_at]]]
    wrap_complies [OF implements_complies [OF hmget_visit_at.object_visit_implements]]
    wrap_complies [OF hkeys_visit_at.object_visit_complies]
    wrap_complies [OF hvals_visit_at.object_visit_complies]
    wrap_complies [OF hgetall_visit_at.object_visit_complies]
    wrap_complies [OF smembers_visit_at.object_visit_complies]
    wrap_complies [OF srandmember_visit_at.object_visit_complies]
    wrap_complies [OF implements_complies [OF value_implements [OF zscore_visit_at.object_visit_implements]]]
    wrap_complies [OF implements_complies [OF value_implements [OF zrank_visit_at.object_visit_implements]]]
    wrap_complies [OF implements_complies [OF zrange_entries_visit_at.object_visit_implements]]
    unrouted_complies [OF unrouted_implements [OF _ set_members_reads local_read_obj]]
    unrouted_complies [OF unrouted_implements [OF _ zentries_reads local_read_obj]]

lemma exec_store_complies:
  assumes "env_ok E" "kept_promise i c"
  shows "complies E (exec_store E i c) (spec_step i c)"
  by (insert assms; cases c; hypsubst_thin; simp only: exec_store.simps [abs_def] spec_step.simps [abs_def] es_choice_defs;
      rule store_complies; (assumption | simp add: kept_promise_def; fail))

section \<open>Sequences\<close>

fun run_store ::
  "('h, 't) env \<Rightarrow> (call \<times> store_command) list \<Rightarrow> ('h, 't) embedded \<Rightarrow> (store_reply list \<times> ('h, 't) embedded) option" where
  "run_store E [] D = Some ([], D)"
| "run_store E ((i, c) # cs) D = do {
     (r, D1) \<leftarrow> exec_store E i c D;
     (rs, D2) \<leftarrow> run_store E cs D1;
     Some (r # rs, D2)
   }"

inductive spec_steps :: "(call \<times> store_command) list \<Rightarrow> astate \<Rightarrow> store_reply list \<Rightarrow> astate \<Rightarrow> bool" where
  no_command: "spec_steps [] A [] A"
| one_command: "spec_step i c A r A1 \<Longrightarrow> spec_steps cs A1 rs A2 \<Longrightarrow> spec_steps ((i, c) # cs) A (r # rs) A2"

inductive_simps spec_steps_simps [simp]: "spec_steps [] A rs A'" "spec_steps ((i, c) # cs) A rs A'"

lemma run_store_complies:
  assumes E: "env_ok E"
  shows "list_all (\<lambda>(i, c). kept_promise i c) cs \<Longrightarrow> complies E (run_store E cs) (spec_steps cs)"
proof (induction cs)
  case Nil
  show ?case by (simp add: complies_def)
next
  case (Cons ic cs)
  obtain i c where ic: "ic = (i, c)" by (cases ic)
  with Cons.prems have ok: "kept_promise i c" and oks: "list_all (\<lambda>(i, c). kept_promise i c) cs" by simp_all
  show ?case
  proof (rule compliesI)
    fix mode n D assume D: "embedded_ok E mode n D"
    from compliesD [OF exec_store_complies [OF E ok] D] obtain r D1 where 1: "exec_store E i c D = Some (r, D1)"
      "embedded_ok E mode n D1" "spec_step i c (embedded_abs E D) r (embedded_abs E D1)" by blast
    from compliesD [OF Cons.IH [OF oks] 1(2)] obtain rs D2 where "run_store E cs D1 = Some (rs, D2)"
      "embedded_ok E mode n D2" "spec_steps cs (embedded_abs E D1) rs (embedded_abs E D2)" by blast
    with 1 show "\<exists>r D'. run_store E (ic # cs) D = Some (r, D') \<and> embedded_ok E mode n D' \<and>
        spec_steps (ic # cs) (embedded_abs E D) r (embedded_abs E D')" by (auto simp: ic)
  qed
qed

end
