(* ===== verification/Spec2Isabelle.thy ===== *)
theory Spec2Isabelle
  imports FastDecoded RespFrames Enumerate Rename Waiting Sequences
begin

text \<open>
  A verification of the Redis object store of shard-kv and of its two wire protocols: the lists, hashes, sets and sorted sets of
  \<^verbatim>\<open>crates/shardmap/src\<close>, from the ring buffers up to the sharded store that runs the commands, with the expiry of keys
  and hash fields, the object counters, enumeration and scanning, routing, and the blocking waits; and the codecs
  of RESP and of the native binary protocol.

  \<^bold>\<open>The program.\<close> An \<^verbatim>\<open>EmbeddedStore\<close> has a power of two of shards. A key is routed to a shard by the upper bits of its
  hash (\<^verbatim>\<open>storage/embedded_store/routing.rs\<close>), and there to one of 256 buckets by the lower bits. A bucket
  (\<^verbatim>\<open>redis_compat/storage/redis_objects/bucket_*.rs\<close>) maps keys to slots of four slabs, one for each type of object, and
  keeps the deadlines of keys and hash fields. Objects change their representation as they grow: lists are empty, single,
  an inline ring, or a sequence of chunks (\<^verbatim>\<open>list_*.rs\<close>, \<^verbatim>\<open>segmented_list.rs\<close>), hashes, sets and sorted sets are inline arrays or
  maps (\<^verbatim>\<open>hash_object.rs\<close>, \<^verbatim>\<open>set_object.rs\<close>, \<^verbatim>\<open>zset_object.rs\<close>). A command goes through \<^verbatim>\<open>embedded_store/objects/access.rs\<close>: it removes what has
  expired, refuses keys that hold a string, runs the operation of the bucket, and updates the object counter of the
  shard from the flag that the operation returns. The enumerations of \<^verbatim>\<open>store.rs\<close> rely on these counters, and blocking commands wait
  on the generation of a shard. Commands reach the server as RESP frames (\<^verbatim>\<open>protocol/resp.rs\<close>) or as frames of the native protocol
  (\<^verbatim>\<open>protocol/fast.rs\<close>); both decoders are called on the bytes that have arrived so far and ask for more when a frame is incomplete.

  \<^bold>\<open>The theories.\<close>
  \<^item> \<^verbatim>\<open>Prelude\<close>: machine integers, bytes, panicking and saturating arithmetic, vectors, and the lemmas that all theories share.
  \<^item> \<^verbatim>\<open>F64\<close>: scores as IEEE binary64 bit patterns, with comparison, addition, rounding, parsing and printing (\<^verbatim>\<open>helpers.rs\<close>).
  \<^item> \<^verbatim>\<open>Env\<close>: what is not in the repository, as the fields of a record: the hash XXH3, \<^verbatim>\<open>hashbrown::HashTable\<close>, the tree
    \<^verbatim>\<open>IndexTreeSet\<close>, and the iteration order of the standard library's hash maps. \<open>env_ok\<close> is their documented behaviour;
    \<open>list_env\<close> implements it with lists, and \<open>list_env_ok\<close> shows that the hypotheses can hold.
  \<^item> \<^verbatim>\<open>Ring\<close>, \<^verbatim>\<open>Segmented\<close>, \<^verbatim>\<open>ListObject\<close>: the list representations. The locale \<open>sequence\<close> of \<^verbatim>\<open>Sequence\<close> is the interface that the list
    commands use; it is interpreted on the segmented list and on the list object.
  \<^item> \<^verbatim>\<open>Containers\<close>, \<^verbatim>\<open>HashObject\<close>, \<^verbatim>\<open>SetObject\<close>, \<^verbatim>\<open>ZSetObject\<close>: the keyed objects, with the locale \<open>keyed\<close> interpreted on all three.
  \<^item> \<^verbatim>\<open>Slots\<close>: the slab and the slot map, together a finite map.
  \<^item> \<^verbatim>\<open>Results\<close>, \<^verbatim>\<open>Bucket\<close>, \<^verbatim>\<open>BucketInv\<close>: replies, the bucket, its invariant \<open>bucket_inv\<close>, and the abstract state \<open>astate\<close> (objects,
    deadlines, field deadlines) with the abstraction \<open>bucket_abs\<close>.
  \<^item> \<^verbatim>\<open>Refine\<close>, \<^verbatim>\<open>Kinds\<close>: \<open>refines\<close> and \<open>reads\<close> relate an operation to an abstract command; the locales \<open>bucket_write\<close>, \<open>bucket_create\<close>
    and \<open>bucket_op\<close> are what the router relies on, \<open>object_kind\<close> what the four types share.
  \<^item> \<^verbatim>\<open>BucketList\<close>, \<^verbatim>\<open>BucketSet\<close>, \<^verbatim>\<open>BucketZset\<close>, \<^verbatim>\<open>BucketHash\<close>, \<^verbatim>\<open>BucketHashTtl\<close>, \<^verbatim>\<open>BucketCore\<close>: the operations of a bucket, each with its abstract
    command and the interpretation of the locale for it.
  \<^item> \<^verbatim>\<open>Routing\<close>: the three route modes.
  \<^item> \<^verbatim>\<open>Store\<close>: the sharded store with its counters, enumerations, cursor scan and waits (\<^verbatim>\<open>store.rs\<close>).
  \<^item> \<^verbatim>\<open>Access\<close>, \<^verbatim>\<open>Commands\<close>: the access layer and the commands of the embedded store, with the locales \<open>routed_write\<close>, \<open>routed_create\<close>,
    \<open>routed_read\<close> and \<open>routed_visit\<close> interpreted for every command.
  \<^item> \<^verbatim>\<open>Lifecycle\<close>, \<^verbatim>\<open>Rename\<close>, \<^verbatim>\<open>Enumerate\<close>: deletion, existence, TTLs, types, whole values, renaming and enumeration.
  \<^item> \<^verbatim>\<open>Waiting\<close>: the threads that wait and notify, and the object hint, as interleavings of single memory accesses.
  \<^item> \<^verbatim>\<open>Resp\<close>: the RESP codec: frames, the encoder, the frame decoder and the two command decoders. \<^verbatim>\<open>memchr\<close>, \<^verbatim>\<open>itoa\<close> and the success of
    an allocation are the fields of the record \<open>libs\<close>, their documented behaviour is \<open>libs_ok\<close>, and \<open>plain_libs\<close> has it. \<^verbatim>\<open>RespStream\<close>: an
    answer does not change when more bytes arrive, the decoders stay inside the buffer and agree, with the locales \<open>item_parser\<close> and
    \<open>frame_parser\<close>. \<^verbatim>\<open>RespFrames\<close>: decoding inverts encoding, and the properties of the codec.
  \<^item> \<^verbatim>\<open>FastOpcodes\<close>, \<^verbatim>\<open>Fast\<close>: the native protocol: opcodes and Redis names, routing keys, requests and responses, encoders and decoders; the
    argument \<open>reserve\<close> tells which allocations succeed. \<^verbatim>\<open>FastRoundTrip\<close>: each reader is matched with its encoder, and the locale \<open>frame_decoder\<close>,
    interpreted on requests and on responses, frames them. \<^verbatim>\<open>FastDecoded\<close>: what the decoders return, and the properties of the codec.

  \<^bold>\<open>Conventions.\<close> A function that may panic has an \<open>option\<close> as its result, and \<^const>\<open>None\<close> is the panic; a Rust \<^verbatim>\<open>Result\<close> is a sum. State
  that the code changes in place is passed and returned. Every reading of the clock is an argument of its own, so that the theorems
  hold for any readings. The closures of the \<^verbatim>\<open>visit\<close> methods are replaced by the list of what they are called with. \<^verbatim>\<open>usize\<close> values
  that count elements in memory are natural numbers; hashes, deadlines and generations are 64-bit words; \<^verbatim>\<open>i64\<close> arguments
  are integers, with overflow written out where the code checks it. Loops are recursive functions with
  a termination proof; a loop whose end depends on the data (the removal of elements by \<^verbatim>\<open>LREM\<close>, the trimming of a list, the client's scan) is a
  partial function that is shown to return. No fuel is used.

  \<^bold>\<open>The properties\<close> of this theory are about whole commands and sequences of commands: the store behaves like one map (\<open>store_refines_map\<close>),
  its counters and enumerations are exact, keys and fields live until their deadlines, waits are not lost, every route is valid, and
  each representation does what its abstract counterpart does. The properties of the codecs stand in \<^verbatim>\<open>RespFrames\<close> and
  \<^verbatim>\<open>FastDecoded\<close>: round trips, well-formedness of what is decoded, answers that do not depend on how the bytes arrive, and the agreement of
  decoders and tables. Each property with hypotheses is followed by an application to a concrete input.

  \<^bold>\<open>Not modelled.\<close> The string maps (\<^verbatim>\<open>flat_map\<close>, sessions, overflow) are unsafe memory management and I/O; the commands that touch both
  take what the strings answer as arguments. Locks are taken to make each access to a bucket atomic, except in \<^verbatim>\<open>Waiting\<close>. Observers,
  metrics, eviction, persistence, the parsing of command arguments, the binary replies of \<^verbatim>\<open>native_redis.rs\<close>, the server and the client crates are left out. The order in
  which the hash tables enumerate is not specified by the libraries and is a parameter.
\<close>

section \<open>Buckets for the witnesses\<close>

abbreviation a_empty :: astate where
  "a_empty \<equiv> \<lparr>a_obj = Map.empty, a_ttl = Map.empty, a_fttl = (\<lambda>_. Map.empty)\<rparr>"

lemma empty_bucket: "bucket_inv list_env (bucket_default list_env)" "bucket_abs list_env (bucket_default list_env) = a_empty"
  by (simp_all add: bucket_inv_default bucket_abs_default list_env_ok)

text \<open>What a command does on a bucket whose abstract state is known.\<close>

lemma refines_at:
  assumes "refines E op spec" "bucket_inv E b" "spec (bucket_abs E b) = (r, fl, A')"
  shows "\<exists>b'. op b = Some (r, fl, b') \<and> bucket_inv E b' \<and> bucket_abs E b' = A'"
  using refinesD [OF assms(1,2)] assms(3) by (metis prod.inject)

lemma stored_by:
  assumes "refines list_env op spec" "spec a_empty = (r, fl, A')"
  shows "\<exists>b. bucket_inv list_env b \<and> bucket_abs list_env b = A'"
  using refines_at [OF assms(1) empty_bucket(1)] assms(2) by (metis empty_bucket(2))

lemma stored_list: "vs \<noteq> [] \<Longrightarrow> \<exists>b. bucket_inv list_env b \<and> bucket_abs list_env b = a_put k (OList vs) a_empty"
  by (rule stored_by [OF push.refine [OF list_env_ok, of k vs False]]) (simp add: spec_push_def push_list_spec_def)

lemma stored_set: "ms \<noteq> [] \<Longrightarrow> \<exists>b. bucket_inv list_env b \<and> bucket_abs list_env b = a_put k (OSet (set ms)) a_empty"
  by (rule stored_by [OF sadd.refine [OF list_env_ok, of k ms]]) (simp add: spec_sadd_def)

lemma stored_zset: "\<exists>b. bucket_inv list_env b \<and> bucket_abs list_env b = a_put k (OZSet [m \<mapsto> s]) a_empty"
  by (rule stored_by [OF zadd.refine [OF list_env_ok, of k s m]]) (simp add: spec_zadd_def)

lemma stored_hash:
  "fvs \<noteq> [] \<Longrightarrow> \<exists>b. bucket_inv list_env b \<and> bucket_abs list_env b = a_put k (OHash (map_of (rev fvs))) a_empty"
  by (rule stored_by [OF hset_many.refine [OF list_env_ok, of k fvs 0]])
    (simp add: spec_hset_many_at_def spec_hset_many_def read_obj_def a_purge_def)

section \<open>Stores for the witnesses\<close>

text \<open>A store is created, and a sequence of commands is run on it.\<close>

lemma fresh_run:
  assumes "env_ok E" "n < 64"
  shows "\<exists>D0 rs D. embedded_new E (2 ^ n) mode = Some D0 \<and> run E cs D0 = Some (rs, D) \<and> embedded_ok E mode n D \<and>
    spec_run cs a_empty = (rs, embedded_abs E D)"
proof -
  from embedded_new_ok [OF assms] obtain D0 where "embedded_new E (2 ^ n) mode = Some D0" "embedded_ok E mode n D0"
    "embedded_abs E D0 = a_empty" by blast
  with implementsD [OF run_implements [OF assms(1)] this(2), of cs] show ?thesis by metis
qed

abbreviation quiet :: call where
  "quiet \<equiv> \<lparr>now_of = 0, string_of = False, clock1 = 0, clock2 = 0\<rparr>"

lemma store_with:
  assumes "spec_run cs a_empty = (rs, A)"
  shows "\<exists>D. embedded_ok list_env FullKey 4 D \<and> embedded_abs list_env D = A"
  using fresh_run [OF list_env_ok, of 4 FullKey cs] assms by auto

lemmas spec_cleaning = spec_access_def spec_create_def spec_read_def a_clean_def a_expired_def a_reap_def a_purge_def a_tidy_def
  a_over_def

lemma store_list:
  assumes "vs \<noteq> []"
  shows "\<exists>D. embedded_ok list_env FullKey 4 D \<and> embedded_abs list_env D = a_put k (OList vs) a_empty"
  using assms
  by (intro store_with [where cs = "[(quiet, ListCommand (Rpush k vs))]"])
    (simp add: spec_cleaning spec_push_def push_list_spec_def)

lemma store_hash:
  assumes "fvs \<noteq> []"
  shows "\<exists>D. embedded_ok list_env FullKey 4 D \<and> embedded_abs list_env D = a_put k (OHash (map_of (rev fvs))) a_empty"
  using assms
  by (intro store_with [where cs = "[(quiet, HashCommand (HsetMany k fvs))]"])
    (simp add: spec_cleaning spec_hset_many_at_def spec_hset_many_def read_obj_def)

lemma a_clean_plain:
  assumes "a_obj A k = Some ob" "\<forall>m. ob \<noteq> OHash m" "\<not> a_expired A k now"
  shows "a_clean k now A = (False, A)"
  using assms by (cases ob) (simp_all add: a_clean_def a_reap_def a_purge_def Let_def)

text \<open>What a sequence of commands does on a store whose abstract state is known.\<close>

lemma run_from:
  assumes "env_ok E" "embedded_ok E mode n D"
  shows "\<exists>D'. run E cs D = Some (fst (spec_run cs (embedded_abs E D)), D') \<and> embedded_ok E mode n D' \<and>
    embedded_abs E D' = snd (spec_run cs (embedded_abs E D))"
  using implementsD [OF run_implements [OF assms(1), of cs] assms(2)] by (metis fst_conv snd_conv)


section \<open>The store as a whole\<close>










text \<open>
  C3: \<^verbatim>\<open>keys\<close> lists exactly the live keys of the store, each once: no expired object, no hash all of whose fields have expired, and
  no live object is missed because a shard's counter says that it is empty.
\<close>

theorem keys_exact:
  assumes "env_ok E" "embedded_ok E mode n D"
  shows "\<exists>ks S'. store_keys E now (objects D) = Some (ks, S') \<and> distinct ks \<and> set ks = {k. key_live (embedded_abs E D) now k}"
  using store_keys_law [of E "home E mode n" "objects D" now] embedded_live_keys [OF assms] assms by (auto simp: embedded_ok_def)

theorem keys_exact_witness:
  "\<exists>D ks S'. embedded_ok list_env FullKey 4 D \<and> store_keys list_env 0 (objects D) = Some (ks, S') \<and> set ks = {[1]}"
proof -
  obtain D where D: "embedded_ok list_env FullKey 4 D" "embedded_abs list_env D = a_put [1] (OList [[7]]) a_empty"
    using store_list [of "[[7]]" "[1]"] by auto
  from keys_exact [OF list_env_ok D(1), of 0] have
    "\<exists>ks S'. store_keys list_env 0 (objects D) = Some (ks, S') \<and> set ks = {k. key_live (a_put [1] (OList [[7]]) a_empty) 0 k}"
    by (auto simp: D(2))
  moreover have "{k. key_live (a_put [1] (OList [[7]]) a_empty) 0 k} = {[1]}"
    by (auto simp: key_live_def a_expired_def a_put_def split: if_splits)
  ultimately show ?thesis using D(1) by auto
qed



section \<open>Keys\<close>

text \<open>
  C5: A deletion that the validator accepts removes the object at the key with its TTL and nothing else, answers that it did, and
  the key does not exist afterwards.
\<close>

theorem delete_removes:
  assumes "env_ok E" "embedded_ok E mode n D"
  shows "\<exists>deleted D' M'. es_delete E k True del_session del_map del_vector D M = Some (deleted, D', M') \<and>
    embedded_ok E mode n D' \<and> embedded_abs E D' = a_del k (embedded_abs E D) \<and>
    (a_obj (embedded_abs E D) k \<noteq> None \<longrightarrow> deleted) \<and>
    (\<exists>D2. es_exists E k c1 c2 False False D' = Some (False, D2))"
proof -
  from delete_routed_law [OF assms, of k del_session del_map M] obtain deleted D' M' where D':
    "delete_routed_then E (route_key E D k) k del_session del_map D M = Some (deleted, D', M')" "embedded_ok E mode n D'"
    "embedded_abs E D' = a_del k (embedded_abs E D)" "a_obj (embedded_abs E D) k \<noteq> None \<longrightarrow> deleted" by blast
  have "\<not> key_live (embedded_abs E D') c2 k" by (simp add: D'(3) key_live_def)
  with exists_law [OF assms(1) D'(2), of k c1 c2 False False] have "\<exists>D2. es_exists E k c1 c2 False False D' = Some (False, D2)"
    by auto
  with D' show ?thesis by (cases deleted) (auto simp: es_delete_def split: prod.split)
qed

theorem delete_removes_witness:
  "\<exists>D D'. embedded_ok list_env FullKey 4 D \<and> a_obj (embedded_abs list_env D) [1] = Some (OList [[7]]) \<and>
     es_delete list_env [1] True (Pair False) (Pair False) (Pair False) D () = Some (True, D', ()) \<and>
     a_obj (embedded_abs list_env D') [1] = None"
proof -
  obtain D where D: "embedded_ok list_env FullKey 4 D" "embedded_abs list_env D = a_put [1] (OList [[7]]) a_empty"
    using store_list [of "[[7]]" "[1]"] by auto
  from delete_removes [OF list_env_ok D(1), of "[1]" "Pair False" "Pair False" "Pair False" "()" 0 0] D obtain D' where
    "es_delete list_env [1] True (Pair False) (Pair False) (Pair False) D () = Some (True, D', ())"
    "embedded_abs list_env D' = a_del [1] (embedded_abs list_env D)" by auto
  with D show ?thesis by (intro exI [of _ D] exI [of _ D']) simp
qed

definition has_content :: "astate \<Rightarrow> u64 \<Rightarrow> bytes \<Rightarrow> bool" where
  "has_content A now k \<longleftrightarrow> (case a_obj A k of None \<Rightarrow> False | Some (OHash m) \<Rightarrow> a_live A k now \<noteq> Map.empty | Some _ \<Rightarrow> True)"

lemma key_live_content: "key_live A now k \<longleftrightarrow> \<not> a_expired A k now \<and> has_content A now k"
  by (simp add: key_live_def has_content_def)

lemma purge_keeps:
  "a_ttl (a_purge k now A) = a_ttl A" "a_obj (a_purge k now A) k = None \<longleftrightarrow> a_obj A k = None"
  by (simp_all add: a_purge_def split: option.split robj.split)

lemma purge_content: "has_content (a_purge k now A) c k \<longleftrightarrow> has_content A (max now c) k"
proof (cases "\<exists>m. a_obj A k = Some (OHash m)")
  case True
  then obtain m where m: "a_obj A k = Some (OHash m)" ..
  have "a_live (a_purge k now A) k c = a_live A k (max now c)"
    by (auto simp: m a_purge_def a_live_def a_dead_def a_hash_def a_at_def restrict_map_def le_max_iff_disj fun_eq_iff)
  then show ?thesis by (simp add: has_content_def m) (simp add: a_purge_def m)
next
  case False
  then have "a_purge k now A = A" by (simp add: a_purge_def split: option.split robj.split)
  with False show ?thesis by (auto simp: has_content_def split: option.splits robj.splits)
qed

lemma clean_live:
  assumes "key_live A now k"
  shows "a_clean k now A = (False, a_purge k now A)"
proof -
  have "a_obj (a_purge k now A) k \<noteq> Some (OHash Map.empty)"
    using assms purge_content [of k now A now] by (auto simp: key_live_content has_content_def a_live_def)
  with assms show ?thesis by (simp add: a_clean_def a_reap_def key_live_def)
qed

text \<open>
  C6: A live object of any type that gets a deadline in the future exists until the deadline and not from then on, whatever the clock
  readings, and \<^verbatim>\<open>PTTL\<close> answers the time that is left. A hash exists until then as long as one of its fields is alive.
\<close>

theorem expire_until:
  assumes E: "env_ok E" and D: "embedded_ok E mode n D" and live: "key_live (embedded_abs E D) now k" and t: "now < t" "unat (t - now) < 2 ^ 63"
  shows "\<exists>D'. es_expire E k t True now strings vectors D M = Some (True, D', M) \<and> embedded_ok E mode n D' \<and>
    (\<forall>c1 c2. \<exists>D2. es_exists E k c1 c2 False False D' = Some (c1 < t \<and> c2 < t \<and> has_content (embedded_abs E D) (max now c2) k, D2)) \<and>
    (\<exists>D2. pttl_millis E k now string_ttl D' = Some (int (unat (t - now)), D2))"
proof -
  let ?A = "embedded_abs E D" and ?B = "(a_purge k now (embedded_abs E D))\<lparr>a_ttl := (a_ttl (embedded_abs E D))(k \<mapsto> t)\<rparr>"
  have "a_obj ?A k \<noteq> None" using live by (auto simp: key_live_def split: option.splits)
  with expire_routed_law [OF E D, of k now t strings M] obtain D' where D': "embedded_ok E mode n D'" "embedded_abs E D' = ?B"
    "expire_routed_then E (route_key E D k) k t now strings D M = Some (True, D', M)"
    by (auto simp: clean_live [OF live] purge_keeps)
  have "has_content ?B c k \<longleftrightarrow> has_content (a_purge k now ?A) c k" for c
    by (simp add: has_content_def a_live_def a_dead_def cong: option.case_cong robj.case_cong)
  then have content: "has_content ?B c k \<longleftrightarrow> has_content ?A (max now c) k" for c by (simp add: purge_content)
  have dead: "a_expired ?B k c \<longleftrightarrow> t \<le> c" for c by (simp add: a_expired_def)
  have "\<exists>D2. es_exists E k c1 c2 False False D' = Some (c1 < t \<and> c2 < t \<and> has_content ?A (max now c2) k, D2)" for c1 c2
    using exists_law [OF E D'(1), of k c1 c2 False False] dead
    by (cases "t \<le> c1") (auto simp: D'(2) key_live_content content not_le)
  moreover have "key_live ?B now k" using live t(1) by (simp add: key_live_content content dead not_le)
  from clean_live [OF this] have clean: "a_clean k now ?B = (False, a_purge k now ?B)" .
  have not_minus_two: "u64_as_i64 (saturating_sub t now) \<noteq> - 2" using i64_ttl [OF t] by linarith
  have "\<exists>D2. pttl_millis E k now string_ttl D' = Some (int (unat (t - now)), D2)"
    using implementsD [OF object_ttl_implements [OF E] D'(1), of k now] i64_ttl [OF t] \<open>a_obj ?A k \<noteq> None\<close>
    by (auto simp: pttl_millis_def spec_object_ttl_def D'(2) clean purge_keeps not_minus_two Let_def split: if_splits)
  ultimately show ?thesis using D'(1,3) by (auto simp: es_expire_def)
qed

theorem expire_until_witness:
  "\<exists>D D' D2 D3. embedded_ok list_env FullKey 4 D \<and> a_obj (embedded_abs list_env D) [1] = Some (OHash [[5] \<mapsto> [7]]) \<and>
     es_expire list_env [1] 50 True 20 (Pair False) (Pair False) D () = Some (True, D', ()) \<and>
     es_exists list_env [1] 49 49 False False D' = Some (True, D2) \<and> es_exists list_env [1] 50 50 False False D' = Some (False, D3)"
proof -
  obtain D where D: "embedded_ok list_env FullKey 4 D" "embedded_abs list_env D = a_put [1] (OHash [[5] \<mapsto> [7]]) a_empty"
    using store_hash [of "[([5], [7])]" "[1]"] by auto
  have content: "has_content (embedded_abs list_env D) c [1]" for c
    by (simp add: D(2) has_content_def a_live_def a_dead_def a_put_def)
  have live: "key_live (embedded_abs list_env D) 20 [1]" "(20 :: u64) < 50" "unat (50 - 20 :: u64) < 2 ^ 63"
    using content [of 20] by (simp_all add: key_live_content D(2) a_expired_def a_put_def)
  from expire_until [OF list_env_ok D(1) live, of "Pair False" "Pair False" "()"] obtain D' where D':
    "es_expire list_env [1] 50 True 20 (Pair False) (Pair False) D () = Some (True, D', ())"
    "\<And>c1 c2. \<exists>D2. es_exists list_env [1] c1 c2 False False D' =
      Some (c1 < 50 \<and> c2 < 50 \<and> has_content (embedded_abs list_env D) (max 20 c2) [1], D2)" by blast
  have "a_obj (embedded_abs list_env D) [1] = Some (OHash [[5] \<mapsto> [7]])" by (simp add: D(2) a_put_def)
  with D'(2) [of 49 49] D'(2) [of 50 50] D(1) D'(1) show ?thesis by (auto simp: content)
qed

text \<open>
  C7: Storing a whole value (\<^verbatim>\<open>RESTORE\<close>, \<^verbatim>\<open>COPY\<close>) and reading it back (\<^verbatim>\<open>DUMP\<close>) is a round trip up to the order and the
  duplicates of the members, until the TTL given with the value is over; from then on there is nothing to read.
\<close>

theorem set_then_clone:
  assumes E: "env_ok E" and D: "embedded_ok E mode n D" and v: "value_nonempty v" "v \<noteq> HashValue []"
  shows "\<exists>D'. set_object_value E k v ttl now drop_strings D M = Some (D', drop_strings M) \<and> embedded_ok E mode n D' \<and>
    (\<forall>c1 c2 c3. \<exists>w D2. clone_object_value E k c1 c2 c3 D' = Some (w, D2) \<and>
       map_option value_obj w =
         (if \<exists>d. ttl = Some d \<and> saturating_add now d \<le> c1 then None else Some (value_obj v)))"
proof -
  from set_object_value_law [OF E D v(1), of k ttl now drop_strings M] obtain D' where D':
    "set_object_value E k v ttl now drop_strings D M = Some (D', drop_strings M)" "embedded_ok E mode n D'"
    "embedded_abs E D' = spec_set_value k (value_obj v) (map_option (saturating_add now) ttl) (embedded_abs E D)" by blast
  have over: "a_expired (embedded_abs E D') k c \<longleftrightarrow> (\<exists>d. ttl = Some d \<and> saturating_add now d \<le> c)" for c
    by (auto simp: D'(3) spec_set_value_def a_at_def a_expired_def split: option.split)
  have "map_of (rev es) \<noteq> Map.empty" if "v = HashValue es" for es using that v(2) by (cases es) auto
  then have "spec_clone k c2 c3 (embedded_abs E D') = Some (value_obj v)" for c2 c3
    by (cases v) (simp_all add: D'(3) spec_set_value_def a_at_def spec_clone_def a_live_def a_dead_def)
  with D'(1,2) over clone_object_law [OF E D'(2), of k] show ?thesis by metis
qed

theorem set_then_clone_witness:
  "\<exists>D D' w D2. embedded_ok list_env FullKey 4 D \<and>
     set_object_value list_env [1] (SetValue [[5], [5], [3]]) (Some 10) 20 id D () = Some (D', ()) \<and>
     clone_object_value list_env [1] 29 29 29 D' = Some (Some w, D2) \<and> value_obj w = OSet {[3], [5]}"
proof -
  obtain D where D: "embedded_ok list_env FullKey 4 D" using store_list [of "[[7]]" "[1]"] by auto
  let ?v = "SetValue [[5], [5], [3]]"
  from set_then_clone [OF list_env_ok D, of ?v "[1]" "Some 10" 20 id "()"] obtain D' where
    D': "set_object_value list_env [1] ?v (Some 10) 20 id D () = Some (D', ())"
    "\<And>c1 c2 c3. \<exists>w D2. clone_object_value list_env [1] c1 c2 c3 D' = Some (w, D2) \<and>
       map_option value_obj w = (if \<exists>d. Some 10 = Some d \<and> saturating_add 20 d \<le> c1 then None else Some (value_obj ?v))"
    by auto
  have "\<not> saturating_add 20 10 \<le> (29 :: u64)" by code_simp
  with D'(2) [of 29 29 29] D D'(1) show ?thesis by (auto simp: insert_commute)
qed

text \<open>
  C8: \<^verbatim>\<open>RENAME\<close> of an object moves the value that \<^verbatim>\<open>clone_value\<close> sees to the destination, replaces what was there, hands the
  remaining TTL over counted from the later clock reading, deletes the source and changes no other key; \<^verbatim>\<open>RENAMENX\<close>
  does the same when the destination does not exist. The deadlines of single hash fields are not handed over.
\<close>

theorem rename_moves:
  fixes source dest :: bytes
  assumes "env_ok E" "embedded_ok E mode n D" "source \<noteq> dest" "kv_accepts K source" "kv_accepts K dest"
    "nx \<longrightarrow> \<not> key_live (embedded_abs E D) (clock 1) dest \<and> \<not> kv_exists K dest M \<and> \<not> kv_pinned K dest M"
    "kv_vector K source M = None" "kv_get K source M = None"
    "A1 = snd (a_clean source (clock 2) (embedded_abs E D))"
    "spec_clone source (clock 4) (clock 5) A1 = Some ob" "\<not> a_expired A1 source (clock 3)"
    "\<forall>t. a_ttl A1 source = Some t \<longrightarrow> unat (t - clock 2) < 2 ^ 63"
  shows "\<exists>D' M'. rename_key E K clock rename_vector rename_string source dest nx D M = Some (Inr True, D', M') \<and>
    embedded_ok E mode n D' \<and> a_obj (embedded_abs E D') source = None \<and> a_obj (embedded_abs E D') dest = Some ob \<and>
    a_ttl (embedded_abs E D') dest = map_option (\<lambda>t. saturating_add (clock 6) (t - clock 2)) (a_ttl A1 source) \<and>
    a_fttl (embedded_abs E D') dest = Map.empty \<and>
    (\<forall>k. k \<noteq> source \<and> k \<noteq> dest \<longrightarrow> eq_at k (embedded_abs E D') (embedded_abs E D))"
proof -
  from rename_law [where clock = clock and ob = ob and M = M, OF assms(1-8), of rename_vector rename_string] assms(9-12)
  obtain D' M' where D': "rename_key E K clock rename_vector rename_string source dest nx D M = Some (Inr True, D', M')"
    "embedded_ok E mode n D'" "embedded_abs E D' = a_del source
       (spec_set_value dest ob (map_option (\<lambda>t. saturating_add (clock 6) (t - clock 2)) (a_ttl A1 source)) (embedded_abs E D))"
    by auto
  with assms(3) show ?thesis by (auto simp: spec_set_value_def a_at_def a_del_def eq_at_def)
qed

abbreviation no_strings :: "unit kv" where
  "no_strings \<equiv> \<lparr>kv_exists = \<lambda>_ _. False, kv_pinned = \<lambda>_ _. False, kv_ttl = \<lambda>_ _. - 2, kv_vector = \<lambda>_ _. None,
     kv_get = \<lambda>_ _. None, kv_accepts = \<lambda>_. True, kv_del_session = \<lambda>_. Pair False, kv_del_map = \<lambda>_. Pair False,
     kv_del_vector = \<lambda>_. Pair False, kv_drop = \<lambda>_. id\<rparr>"

theorem rename_moves_witness:
  "\<exists>D D'. embedded_ok list_env FullKey 4 D \<and>
     rename_key list_env no_strings (\<lambda>_. 20) (\<lambda>_ _ _ _. None) (\<lambda>_ _ _ _. None) [1] [2] True D () = Some (Inr True, D', ()) \<and>
     a_obj (embedded_abs list_env D') [2] = Some (OList [[7], [8]]) \<and> a_obj (embedded_abs list_env D') [1] = None"
proof -
  obtain D where D: "embedded_ok list_env FullKey 4 D" "embedded_abs list_env D = a_put [1] (OList [[7], [8]]) a_empty"
    using store_list [of "[[7], [8]]" "[1]"] by auto
  let ?A = "embedded_abs list_env D"
  have clean: "a_clean [1] 20 ?A = (False, ?A)" by (rule a_clean_plain [of _ _ "OList [[7], [8]]"]) (auto simp: D(2) a_expired_def a_put_def)
  have "\<not> key_live ?A 20 [2]" "spec_clone [1] 20 20 ?A = Some (OList [[7], [8]])" "\<not> a_expired ?A [1] 20" "a_ttl ?A [1] = None"
    by (simp_all add: D(2) key_live_def spec_clone_def a_expired_def a_put_def)
  with rename_moves [OF list_env_ok D(1), of "[1]" "[2]" no_strings True "\<lambda>_. 20" "()" ?A "OList [[7], [8]]"
      "\<lambda>_ _ _ _. None" "\<lambda>_ _ _ _. None"] clean
  show ?thesis using D(1) by - (rule exI [of _ D], auto)
qed

text \<open>
  C9: \<^verbatim>\<open>TYPE\<close> answers with the type of the live object at the key, and otherwise with that of the string or vector value there.
\<close>

theorem type_exact:
  assumes "env_ok E" "embedded_ok E mode n D" "c1 \<le> c2"
  shows "\<exists>D'. redis_type E k c1 c2 string_value vector pinned D =
      Some (if key_live (embedded_abs E D) c1 k then type_of (the (a_obj (embedded_abs E D) k))
            else case string_value of Some v \<Rightarrow> if vector v then ''vectorset'' else ''string''
                 | None \<Rightarrow> if pinned then ''vectorset'' else ''none'', D') \<and>
    embedded_ok E mode n D'"
  using type_law [OF assms, of k string_value vector pinned] by blast

theorem type_exact_witness:
  "\<exists>D D1 D2. embedded_ok list_env FullKey 4 D \<and> redis_type list_env [1] 0 0 None (\<lambda>_. False) False D = Some (''list'', D1) \<and>
     redis_type list_env [2] 0 0 (Some [65]) (\<lambda>_. False) False D = Some (''string'', D2)"
proof -
  obtain D where D: "embedded_ok list_env FullKey 4 D" "embedded_abs list_env D = a_put [1] (OList [[7]]) a_empty"
    using store_list [of "[[7]]" "[1]"] by auto
  have "key_live (embedded_abs list_env D) 0 [1]" "\<not> key_live (embedded_abs list_env D) 0 [2]"
    by (simp_all add: D(2) key_live_def a_expired_def a_put_def)
  with type_exact [OF list_env_ok D(1), of 0 0 "[1]" None "\<lambda>_. False" False]
    type_exact [OF list_env_ok D(1), of 0 0 "[2]" "Some [65]" "\<lambda>_. False" False] D show ?thesis
    by - (rule exI [of _ D], auto simp: type_of_def)
qed

section \<open>Waiting for objects\<close>

text \<open>
  C10: No wake-up is lost. When a thread sleeps on a shard and notifications happen, in any interleaving with other waiters and
  notifiers, it does not sleep any more on the generation it has seen once the lock is free again, although the notifier skips the
  notification when it counts no waiter and the waiter counts itself without holding the lock.
\<close>

theorem no_lost_wakeup:
  assumes "wait_reachable s" "holding s = None" "pc s t = Sleeping seen"
    "wait_step\<^sup>*\<^sup>* s s'" "holding s' = None" "generation s' \<noteq> generation s"
  shows "pc s' t \<noteq> Sleeping seen"
  using assms by (rule notified_awake)

theorem no_lost_wakeup_witness:
  "\<exists>s s'. wait_reachable s \<and> pc s () = Sleeping 0 \<and> wait_step\<^sup>*\<^sup>* s s' \<and> generation s' = 1 \<and> pc s' () = Woken 0 \<and> pc s' () \<noteq> Sleeping 0"
proof -
  let ?st = "\<lambda>g w h p. \<lparr>generation = g, waiters = w, holding = h, pc = (\<lambda>_ :: unit. p)\<rparr>"
  have upd: "(\<lambda>_ :: unit. x)(t := y) = (\<lambda>_. y)" for x y :: waiter and t by auto
  have "wait_step (?st 0 0 None Outside) (?st 0 1 None (Registered 0))"
    using wait_step.register [of "?st 0 0 None Outside" "()" 0] by (simp add: upd)
  moreover have "wait_step (?st 0 1 None (Registered 0)) (?st 0 1 None (Sleeping 0))"
    using wait_step.sleep [of "?st 0 1 None (Registered 0)" "()" 0] by (simp add: upd)
  ultimately have r: "wait_reachable (?st 0 1 None (Sleeping 0))"
    by (metis wait_reachable.start wait_reachable.step wait_start_def)
  have "wait_step (?st 0 1 None (Sleeping 0)) (?st 1 1 (Some Incremented) (Sleeping 0))"
    using wait_step.increment [of "?st 0 1 None (Sleeping 0)"] by simp
  moreover have "wait_step (?st 1 1 (Some Incremented) (Sleeping 0)) (?st 1 1 (Some (Loaded True)) (Sleeping 0))"
    using wait_step.load [of "?st 1 1 (Some Incremented) (Sleeping 0)"] by simp
  moreover have "wait_step (?st 1 1 (Some (Loaded True)) (Sleeping 0)) (?st 1 1 None (Woken 0))"
    using wait_step.notify [of "?st 1 1 (Some (Loaded True)) (Sleeping 0)" True] by (simp add: wake_all_def [abs_def])
  ultimately have steps: "wait_step\<^sup>*\<^sup>* (?st 0 1 None (Sleeping 0)) (?st 1 1 None (Woken 0))"
    by (meson converse_rtranclp_into_rtranclp rtranclp.rtrancl_refl)
  from no_lost_wakeup [OF r _ _ steps, of "()" 0] r steps show ?thesis
    by (intro exI [of _ "?st 0 1 None (Sleeping 0)"] exI [of _ "?st 1 1 None (Woken 0)"]) simp
qed

text \<open>
  A wait for a shard to change, called with a generation that was read before one or more notifications, returns at once and
  reports the change, with any timeout; the generation is 64 bits wide and wraps around, so that fewer than \<open>2 ^ 64\<close>
  notifications must have happened in between.
\<close>

lemma wait_sees_change:
  assumes "sid < length (shards S)" "shard_wait_generation sid S = Some observed" "0 < n" "n < 2 ^ 64"
    "notify_times n sid S = Some S'"
  shows "\<exists>S2. wait_for_shard_change sid observed timeout wakes turns S' = Some (Some True, S2)"
  using assms by (rule wait_after_notify)

section \<open>Routing\<close>

text \<open>
  C11: With \<open>2 ^ n\<close> shards every key is routed to an existing shard in every mode, so that indexing the shards cannot panic,
  and routing with the hash computed beforehand gives the same route.
\<close>

theorem route_valid:
  assumes "n < 64"
  shows "shard_id (compute_key_route hk mode (shift_for (2 ^ n)) key) < 2 ^ n \<and>
    route_key_prehashed hk mode (2 ^ n) (shift_for (2 ^ n)) (hk key) key = compute_key_route hk mode (shift_for (2 ^ n)) key"
  using assms by (simp add: shift_for_power route_bound prehashed_route)

theorem route_valid_witness:
  "shard_id (compute_key_route poly_hash SessionPrefix (shift_for (2 ^ 4)) (ascii ''s:a:c:1'')) < 2 ^ 4"
  using route_valid [of 4 poly_hash SessionPrefix "ascii ''s:a:c:1''"] by simp

text \<open>
  C12: The hash that is synthesised for a shard is routed to that shard, for at most \<open>2 ^ 57\<close> shards.
\<close>

theorem route_hash_round_trip:
  assumes "n \<le> 57" "s < 2 ^ n"
  shows "\<exists>h. route_hash_for_shard s (shift_for (2 ^ n)) = Some h \<and> stripe_index h (shift_for (2 ^ n)) = s"
  using route_hash_for_shard_stripe [OF assms] by (simp add: shift_for_power)

theorem route_hash_round_trip_witness:
  "\<exists>h. route_hash_for_shard 5 (shift_for (2 ^ 4)) = Some h \<and> stripe_index h (shift_for (2 ^ 4)) = 5"
  using route_hash_round_trip [of 4 5] by simp

text \<open>
  C13: In session mode all chunks of a session are on the shard of the session, and are stored under its prefix: the
  prefix of a key ends at the last \<^verbatim>\<open>:c:\<close> in it.
\<close>

theorem session_colocated:
  assumes "starts_with p (ascii ''s:'')" "no_separator (drop 1 (ascii '':c:'' @ chunk))"
  shows "shard_id (compute_key_route hk SessionPrefix sh (p @ ascii '':c:'' @ chunk)) = compute_session_shard hk sh p \<and>
    point_write_session_storage_prefix (p @ ascii '':c:'' @ chunk) = Some p"
  using session_chunks_one_shard [OF assms] by simp

theorem session_colocated_witness:
  "point_write_session_storage_prefix (ascii ''s:u1:c:2'') = Some (ascii ''s:u1'') \<and>
   shard_id (compute_key_route poly_hash SessionPrefix 60 (ascii ''s:u1:c:2'')) = compute_session_shard poly_hash 60 (ascii ''s:u1'')"
proof -
  have "starts_with (ascii ''s:u1'') (ascii ''s:'')" "ascii ''s:u1'' @ ascii '':c:'' @ ascii ''2'' = ascii ''s:u1:c:2''" by code_simp+
  moreover have c: "drop 1 (ascii '':c:'' @ ascii ''2'') = [99, 58, 50]" by code_simp
  have "no_separator (drop 1 (ascii '':c:'' @ ascii ''2''))" by (simp only: c) (simp add: no_separator_def separator_at_def)
  ultimately show ?thesis using session_colocated [of "ascii ''s:u1''" "ascii ''2''" poly_hash 60] by simp
qed

section \<open>Lists\<close>

text \<open>
  C14: \<^verbatim>\<open>LREM\<close> never panics, terminates, keeps the bucket well formed, removes exactly the first (for a
  negative count the last) occurrences of the value up to the count, replies how many it removed, and deletes
  an emptied list, reporting so with its flag.
\<close>

theorem lrem_correct:
  "env_ok E \<Longrightarrow> refines E (lrem E k n v) (spec_lrem k n v) \<and> flag_exact k (spec_lrem k n v)"
  by (simp add: lrem.refine lrem.flag)

theorem lrem_correct_witness:
  "\<exists>b b'. bucket_inv list_env b \<and> lrem list_env [1] (- 1) [7] b = Some (Integer 1, False, b') \<and>
     a_obj (bucket_abs list_env b') [1] = Some (OList [[7], [8]])"
proof -
  obtain b where b: "bucket_inv list_env b" "bucket_abs list_env b = a_put [1] (OList [[7], [8], [7]]) a_empty"
    using stored_list [of "[[7], [8], [7]]" "[1]"] by auto
  have "spec_lrem [1] (- 1) [7] (bucket_abs list_env b) = (Integer 1, False, a_put [1] (OList [[7], [8]]) a_empty)"
    by (simp add: b(2) spec_lrem_def on_obj_def read_obj_def lrem_limit_def remove_last_def obj_left_def a_put_def)
  from refines_at [OF conjunct1 [OF lrem_correct [OF list_env_ok]] b(1) this] b(1) show ?thesis by auto
qed

text \<open>
  C15: A list is a first-in first-out queue: \<^verbatim>\<open>RPUSH\<close> appends its values behind the elements \<open>xs\<close> that the key already has, none if it has
  no list, and answers the new length; \<^verbatim>\<open>LPOP\<close> with a count then takes from the front, the oldest first, and the list
  disappears with its last element.
\<close>

theorem queue_fifo:
  assumes "env_ok E" "embedded_ok E mode n D" "a_obj (embedded_abs E D) k = (if xs = [] then None else Some (OList xs))"
    "\<not> a_expired (embedded_abs E D) k (now_of i)" "\<not> string_of i" "vs \<noteq> []" "0 < m"
  shows "\<exists>D'. run E [(i, ListCommand (Rpush k vs)), (i, ListCommand (LpopCount k m))] D =
      Some ([Integer (int (length xs + length vs)), Array (map Some (take m (xs @ vs)))], D') \<and> embedded_ok E mode n D' \<and>
    a_obj (embedded_abs E D') k = (if drop m (xs @ vs) = [] then None else Some (OList (drop m (xs @ vs))))"
proof -
  let ?A = "embedded_abs E D" and ?cs = "[(i, ListCommand (Rpush k vs)), (i, ListCommand (LpopCount k m))]"
  have clean: "a_clean k (now_of i) ?A = (False, ?A)"
    using assms(3,4) by (cases "xs = []") (simp_all add: a_clean_def a_reap_def a_purge_def)
  have "a_clean k (now_of i) (a_put k (OList (xs @ vs)) ?A) = (False, a_put k (OList (xs @ vs)) ?A)"
    by (rule a_clean_plain [of _ _ "OList (xs @ vs)"]) (use assms(4) in \<open>auto simp: a_expired_def a_put_def\<close>)
  with clean have "spec_run ?cs ?A = ([Integer (int (length xs + length vs)), Array (map Some (take m (xs @ vs)))],
      list_left k (drop m (xs @ vs)) (a_put k (OList (xs @ vs)) ?A))"
    using assms(3,5-7) by (cases "xs = []") (simp_all add: spec_create_def spec_access_def spec_push_def spec_pop_list_count_def
        push_list_spec_def on_obj_def read_obj_def del: take_append drop_append)
  with run_from [OF assms(1,2), of ?cs] show ?thesis by (auto simp: obj_left_def simp del: take_append drop_append)
qed

theorem queue_fifo_witness:
  "\<exists>D D'. embedded_ok list_env FullKey 4 D \<and> a_obj (embedded_abs list_env D) [1] = Some (OList [[7]]) \<and>
     run list_env [(quiet, ListCommand (Rpush [1] [[5], [6]])), (quiet, ListCommand (LpopCount [1] 2))] D =
       Some ([Integer 3, Array [Some [7], Some [5]]], D') \<and> a_obj (embedded_abs list_env D') [1] = Some (OList [[6]])"
proof -
  obtain D where D: "embedded_ok list_env FullKey 4 D" "embedded_abs list_env D = a_put [1] (OList [[7]]) a_empty"
    using store_list [of "[[7]]" "[1]"] by auto
  have "a_obj (embedded_abs list_env D) [1] = (if [[7]] = [] then None else Some (OList [[7]]))"
    "\<not> a_expired (embedded_abs list_env D) [1] (now_of quiet)" by (simp_all add: D(2) a_expired_def a_put_def)
  from queue_fifo [OF list_env_ok D(1) this, of "[[5], [6]]" 2] D this show ?thesis
    by - (rule exI [of _ D], auto simp: eval_nat_numeral)
qed

text \<open>
  C16: \<^verbatim>\<open>LTRIM\<close> keeps exactly what \<^verbatim>\<open>LRANGE\<close> shows for the same bounds, negative and out-of-range ones included: \<^verbatim>\<open>LRANGE 0 -1\<close>
  afterwards answers what \<^verbatim>\<open>LRANGE start stop\<close> answered before.
\<close>

theorem trim_is_range:
  assumes "env_ok E" "embedded_ok E mode n D" "a_obj (embedded_abs E D) k = Some (OList xs)" "\<not> a_expired (embedded_abs E D) k (now_of i)"
    "\<not> string_of i"
  shows "\<exists>r D'. run E [(i, ListCommand (Lrange k start stop)), (i, ListCommand (Ltrim k start stop)), (i, ListCommand (Lrange k 0 (- 1)))] D =
      Some ([r, Simple ''OK'', r], D')"
proof -
  let ?A = "embedded_abs E D" and ?ys = "zrange_spec xs start stop"
  let ?cs = "[(i, ListCommand (Lrange k start stop)), (i, ListCommand (Ltrim k start stop)), (i, ListCommand (Lrange k 0 (- 1)))]"
  have whole: "zrange_spec ys 0 (- 1) = ys" for ys :: "bytes list"
    by (cases ys) (auto simp: zrange_spec_def normalize_range_def slice_def Let_def)
  have tidy: "a_tidy k (now_of i) A = A" "a_clean k (now_of i) A = (False, A)"
    if "a_obj A k = Some (OList zs)" "\<not> a_expired A k (now_of i)" for A zs
    using that by (auto simp: a_tidy_def a_over_def intro: a_clean_plain [of _ _ "OList zs"])
  have "\<exists>A'. spec_run ?cs ?A = ([Array (map Some ?ys), Simple ''OK'', Array (map Some ?ys)], A')"
  proof (cases "?ys = []")
    case True
    then show ?thesis using assms(3-5)
      by (simp add: spec_read_def spec_access_def tidy spec_ltrim_def on_obj_def read_obj_def obj_left_def Let_def)
        (simp add: a_tidy_def a_over_def a_expired_def a_del_def)
  next
    case False
    have "\<not> a_expired (a_put k (OList ?ys) ?A) k (now_of i)" using assms(4) by (simp add: a_expired_def a_put_def)
    with False show ?thesis using assms(3-5)
      by (simp add: spec_read_def spec_access_def tidy spec_ltrim_def on_obj_def read_obj_def obj_left_def Let_def whole)
  qed
  with run_from [OF assms(1,2), of ?cs] show ?thesis by auto
qed

theorem trim_is_range_witness:
  "\<exists>D r D'. embedded_ok list_env FullKey 4 D \<and> a_obj (embedded_abs list_env D) [1] = Some (OList [[7], [8], [9]]) \<and>
     run list_env [(quiet, ListCommand (Lrange [1] (- 2) 7)), (quiet, ListCommand (Ltrim [1] (- 2) 7)),
       (quiet, ListCommand (Lrange [1] 0 (- 1)))] D = Some ([r, Simple ''OK'', r], D')"
proof -
  obtain D where D: "embedded_ok list_env FullKey 4 D" "embedded_abs list_env D = a_put [1] (OList [[7], [8], [9]]) a_empty"
    using store_list [of "[[7], [8], [9]]" "[1]"] by auto
  from trim_is_range [OF list_env_ok D(1), of "[1]" "[[7], [8], [9]]" quiet "- 2" 7] D show ?thesis
    by - (rule exI [of _ D], auto simp: a_expired_def a_put_def)
qed

text \<open>
  C17: \<^verbatim>\<open>LINSERT\<close> puts the value before or after the first occurrence of the pivot, answers the new length, \<open>- 1\<close> without the pivot
  and 0 without the list, and refuses other types; the segmented and the inline representation do the same.
\<close>

theorem linsert_correct:
  "env_ok E \<Longrightarrow> refines E (linsert E k before pivot v) (spec_linsert k before pivot v) \<and> flag_exact k (spec_linsert k before pivot v)"
  by (simp add: linsert.refine linsert.flag)

theorem linsert_correct_witness:
  "\<exists>b b'. bucket_inv list_env b \<and> linsert list_env [1] False [8] [5] b = Some (Integer 4, False, b') \<and>
     a_obj (bucket_abs list_env b') [1] = Some (OList [[7], [8], [5], [8]])"
proof -
  obtain b where b: "bucket_inv list_env b" "bucket_abs list_env b = a_put [1] (OList [[7], [8], [8]]) a_empty"
    using stored_list [of "[[7], [8], [8]]" "[1]"] by auto
  have "spec_linsert [1] False [8] [5] (bucket_abs list_env b) = (Integer 4, False, a_put [1] (OList [[7], [8], [5], [8]]) a_empty)"
    by (simp add: b(2) spec_linsert_def on_obj_def read_obj_def a_put_def eval_nat_numeral)
  from refines_at [OF conjunct1 [OF linsert_correct [OF list_env_ok]] b(1) this] b(1) show ?thesis by auto
qed

text \<open>
  C18: \<^verbatim>\<open>LPOS\<close> returns the positions of the element from the side of the rank, skips as many matches as the rank says, compares at
  most \<^verbatim>\<open>MAXLEN\<close> elements and stops after \<^verbatim>\<open>COUNT\<close> matches; a rank of 0 is excluded by the parser of the command.
\<close>

theorem lpos_correct:
  assumes "env_ok E" "bucket_inv E b" "a_obj (bucket_abs E b) k = Some (OList xs)" "rank \<noteq> 0"
  shows "lpos_visit E k element rank wanted maxlen b =
    Some ([lpos_select (map_option i64_as_usize wanted) (drop (nat \<bar>rank\<bar> - 1) (lpos_matches xs element rank maxlen))], Written)"
  using readsD [OF lpos_visit_reads [OF assms(1,4)] assms(2)] assms(3) by (simp add: read_obj_def)

theorem lpos_correct_witness:
  "\<exists>b. bucket_inv list_env b \<and> lpos_visit list_env [1] [7] (- 1) (Some 0) 0 b = Some ([[2, 0]], Written)"
proof -
  obtain b where b: "bucket_inv list_env b" "bucket_abs list_env b = a_put [1] (OList [[7], [8], [7]]) a_empty"
    using stored_list [of "[[7], [8], [7]]" "[1]"] by auto
  have "lpos_select (map_option i64_as_usize (Some 0)) (drop (nat \<bar>- 1\<bar> - 1) (lpos_matches [[7], [8], [7]] [7] (- 1) 0)) = [2, 0]"
    by code_simp
  with lpos_correct [OF list_env_ok b(1), of "[1]" "[[7], [8], [7]]" "- 1" "[7]" "Some 0" 0] b show ?thesis by auto
qed

text \<open>
  C19: The list object implements a sequence in all its forms: pushing on either end, inserting and removing at any position, in
  the inline ring, in the segmented form and across the promotion between them, never panics and gives the list that the
  operation on plain lists gives.
\<close>

theorem list_object_sequence:
  assumes "list_rep l xs"
  shows "(\<exists>l'. list_push_values l vs front = Some l' \<and> list_rep l' (push_list_spec xs vs front)) \<and>
    (i \<le> length xs \<longrightarrow> (\<exists>l'. list_insert l i v = Some l' \<and> list_rep l' (take i xs @ v # drop i xs))) \<and>
    (i < length xs \<longrightarrow> (\<exists>l'. list_remove l i = Some (Some (xs ! i), l') \<and> list_rep l' (take i xs @ drop (Suc i) xs))) \<and>
    (\<exists>l'. list_pop_front l = Some (if xs = [] then None else Some (hd xs), l') \<and> list_rep l' (tl xs)) \<and> list_iter l = xs"
  using list_push_values_rep [OF assms] list_insert_rep [OF assms] list_remove_rep [OF assms] list_pop_front_rep [OF assms]
    lo.rep_iter [OF assms] by blast

theorem list_object_sequence_witness:
  "\<exists>l' l2. list_rep (ListEmpty :: nat list_object) [] \<and> list_push_values ListEmpty [0..<100] False = Some l' \<and>
     list_insert l' 40 7 = Some l2 \<and> list_iter l2 = [0..<40] @ 7 # [40..<100]"
proof -
  have e: "list_rep (ListEmpty :: nat list_object) []" by simp
  from list_object_sequence [OF e, of "[0..<100]" False] obtain l' where
    l': "list_push_values ListEmpty [0..<100] False = Some l'" "list_rep l' [0..<100]" by (auto simp: push_list_spec_def)
  from list_object_sequence [OF l'(2), of "[]" False 40 7] obtain l2 where
    l2: "list_insert l' 40 7 = Some l2" "list_rep l2 (take 40 [0..<100] @ 7 # drop 40 [0..<100])" by auto
  from list_object_sequence [OF l2(2)] have "list_iter l2 = [0..<40] @ 7 # [40..<100]" by (simp add: take_upt drop_upt)
  with e l'(1) l2(1) show ?thesis by blast
qed

section \<open>Sets\<close>

text \<open>
  C20: On a key with the members \<open>S\<close>, none if it has no set, \<^verbatim>\<open>SADD\<close> and \<^verbatim>\<open>SREM\<close> are union and difference, their answers count the members
  that were really added and removed, and \<^verbatim>\<open>SMEMBERS\<close> answers the sorted members.
\<close>

theorem set_algebra:
  assumes "env_ok E" "embedded_ok E mode n D" "a_obj (embedded_abs E D) k = (if S = {} then None else Some (OSet S))"
    "\<not> a_expired (embedded_abs E D) k (now_of i)" "\<not> string_of i" "ms \<noteq> []"
  shows "\<exists>D'. run E [(i, SetCommand (Sadd k ms)), (i, SetCommand (Srem k rs)), (i, SetCommand (Smembers k))] D =
    Some ([Integer (int (card (set ms - S))), Integer (int (card (set rs \<inter> (S \<union> set ms)))),
           Array (map Some (sorted_list_of_set ((S \<union> set ms) - set rs)))], D')"
proof -
  let ?A = "embedded_abs E D" and ?cs = "[(i, SetCommand (Sadd k ms)), (i, SetCommand (Srem k rs)), (i, SetCommand (Smembers k))]"
  let ?now = "now_of i" and ?T = "S \<union> set ms"
  have clean: "a_clean k ?now ?A = (False, ?A)"
    using assms(3,4) by (cases "S = {}") (simp_all add: a_clean_def a_reap_def a_purge_def)
  have stored: "a_clean k ?now (a_put k (OSet T) ?A) = (False, a_put k (OSet T) ?A)" "a_tidy k ?now (a_put k (OSet T) ?A) = a_put k (OSet T) ?A" for T
    using assms(4) by (auto simp: a_tidy_def a_over_def a_expired_def a_put_def intro!: a_clean_plain [of _ _ "OSet T"])
  have gone: "a_tidy k ?now (a_del k B) = a_del k B" for B by (simp add: a_tidy_def a_over_def a_expired_def a_del_def)
  have add: "spec_set i (Sadd k ms) ?A = (Integer (int (card (set ms - S))), a_put k (OSet ?T) ?A)"
    using assms(3,5,6) by (cases "S = {}") (simp_all add: spec_create_def clean spec_sadd_def)
  define R where "R = ?T - set rs"
  have rem: "spec_set i (Srem k rs) (a_put k (OSet ?T) ?A) = (Integer (int (card (set rs \<inter> ?T))), set_left k R (a_put k (OSet ?T) ?A))"
    by (simp add: R_def spec_access_def stored spec_srem_def on_obj_def read_obj_def)
  have "fst (spec_set i (Smembers k) (set_left k R (a_put k (OSet ?T) ?A))) = Array (map Some (sorted_list_of_set R))"
  proof (cases "R = {}")
    case True
    then show ?thesis using assms(5) by (simp add: obj_left_def spec_read_def gone read_obj_def)
  next
    case False
    have "a_put k (OSet R) (a_put k (OSet ?T) ?A) = a_put k (OSet R) ?A" by (simp add: a_put_def)
    with False show ?thesis by (simp add: obj_left_def spec_read_def stored read_obj_def)
  qed
  with add rem have "fst (spec_run ?cs ?A) = [Integer (int (card (set ms - S))), Integer (int (card (set rs \<inter> ?T))),
      Array (map Some (sorted_list_of_set R))]" by (simp add: split_def Let_def del: spec_set.simps)
  with run_from [OF assms(1,2), of ?cs] show ?thesis by (auto simp: R_def)
qed

lemma store_set:
  assumes "ms \<noteq> []"
  shows "\<exists>D. embedded_ok list_env FullKey 4 D \<and> embedded_abs list_env D = a_put k (OSet (set ms)) a_empty"
  using assms by (intro store_with [where cs = "[(quiet, SetCommand (Sadd k ms))]"]) (simp add: spec_cleaning spec_sadd_def)

theorem set_algebra_witness:
  "\<exists>D D'. embedded_ok list_env FullKey 4 D \<and> a_obj (embedded_abs list_env D) [2] = Some (OSet {[9]}) \<and>
     run list_env [(quiet, SetCommand (Sadd [2] [[9], [5], [9]])), (quiet, SetCommand (Srem [2] [[1], [9]])),
       (quiet, SetCommand (Smembers [2]))] D = Some ([Integer 1, Integer 1, Array [Some [5]]], D')"
proof -
  obtain D where D: "embedded_ok list_env FullKey 4 D" "embedded_abs list_env D = a_put [2] (OSet {[9]}) a_empty"
    using store_set [of "[[9]]" "[2]"] by auto
  have pre: "a_obj (embedded_abs list_env D) [2] = (if {[9]} = {} then None else Some (OSet {[9]}))"
    "\<not> a_expired (embedded_abs list_env D) [2] (now_of quiet)" by (simp_all add: D(2) a_expired_def a_put_def)
  have "{[9]} \<union> {[9], [5], [9]} - {[1], [9]} = {[5] :: bytes}" "{[1], [9]} \<inter> ({[9]} \<union> {[9], [5], [9]}) = {[9] :: bytes}"
    "{[9], [5], [9]} - {[9]} = {[5] :: bytes}" by auto
  with set_algebra [OF list_env_ok D(1) pre, of "[[9], [5], [9]]" "[[1], [9]]"] pre D(1) show ?thesis by auto
qed

text \<open>
  C21: \<^verbatim>\<open>SPOP\<close> returns distinct members of the set, as many as wanted if there are so many, removes exactly those, and deletes an
  emptied set, reporting so with its flag.
\<close>

theorem spop_correct:
  assumes "env_ok E" "bucket_inv E b" "a_obj (bucket_abs E b) k = Some (OSet S)"
  shows "\<exists>xs b'. distinct xs \<and> set xs = S \<and> spop E k (Some m) b = Some (Array (map Some (take m xs)), length xs \<le> m, b') \<and>
    bucket_inv E b' \<and> bucket_abs E b' = set_left k (S - set (take m xs)) (bucket_abs E b)"
proof -
  from spop_law [OF assms, of "Some m"] obtain xs b' where xs: "distinct xs" "set xs = S"
    "spop E k (Some m) b = Some (Array (map Some (take m xs)), length xs \<le> m, b')" "bucket_inv E b'"
    "bucket_abs E b' = set_left k (set (drop m xs)) (bucket_abs E b)" by (auto simp: enumerates_def spop_result_def)
  have "distinct (take m xs @ drop m xs)" "set (take m xs @ drop m xs) = S" using xs(1,2) by simp_all
  then have "set (drop m xs) = S - set (take m xs)" unfolding set_append distinct_append by blast
  with xs show ?thesis by auto
qed

theorem spop_correct_witness:
  "\<exists>b b' r. bucket_inv list_env b \<and> spop list_env [1] (Some 5) b = Some (r, True, b') \<and> a_obj (bucket_abs list_env b') [1] = None"
proof -
  obtain b where b: "bucket_inv list_env b" "bucket_abs list_env b = a_put [1] (OSet {[7], [8]}) a_empty"
    using stored_set [of "[[7], [8]]" "[1]"] by auto
  from spop_correct [OF list_env_ok b(1), of "[1]" "{[7], [8]}" 5] b(2) obtain xs b' where xs: "distinct xs" "set xs = {[7], [8]}"
    "spop list_env [1] (Some 5) b = Some (Array (map Some (take 5 xs)), length xs \<le> 5, b')"
    "bucket_abs list_env b' = set_left [1] ({[7], [8]} - set (take 5 xs)) (bucket_abs list_env b)" by auto
  have "length xs = 2" using distinct_card [OF xs(1)] xs(2) by simp
  with xs b(1) show ?thesis by (auto simp: obj_left_def)
qed

section \<open>Sorted sets\<close>

text \<open>
  C22: What a sorted set shows does not depend on its representation: an inline array and a map with an order-statistic tree
  that hold the same scores list the same entries in the same order, and give the same ranks, ranges and popped elements.
\<close>

theorem zset_representation:
  assumes "env_ok E" "zset_ok E z" "zset_ok E z'" "zset_score z = zset_score z'"
  shows "zset_entries E z = zset_entries E z' \<and> zset_rank E z m rv = zset_rank E z' m rv \<and>
    zset_range E z start stop = zset_range E z' start stop \<and>
    map_option fst (zset_pop_extreme E z n hi_end) = map_option fst (zset_pop_extreme E z' n hi_end)"
proof -
  have "zset_entries E z = zset_entries E z'" using assms(2-4) by (simp add: zset_entries_canon)
  with assms(1-3) zset_pop_extreme_law [of E z n hi_end] zset_pop_extreme_law [of E z' n hi_end] show ?thesis
    by (auto simp: zset_rank_law zset_range_law)
qed

theorem zset_representation_witness:
  "\<exists>scores t. zset_ok list_env (ZMap scores t) \<and> zset_score (ZMap scores t) = zset_score (ZSmall [([5], f64_zero)]) \<and>
     zset_range list_env (ZMap scores t) 0 (- 1) = zset_range list_env (ZSmall [([5], f64_zero)]) 0 (- 1)"
proof -
  let ?e = "zset_map_with_capacity list_env 8"
  from zset_insert_law [OF list_env_ok, of ?e "[5]" f64_zero] zset_capacity_law [OF list_env_ok, of 8] obtain z where
    z: "zset_insert_slice list_env ?e [5] f64_zero = Some (True, z)" "zset_ok list_env z" "zset_score z = [[5] \<mapsto> f64_zero]" by auto
  then obtain scores t where map: "z = ZMap scores t" by (auto simp: zset_map_with_capacity_def)
  have small: "zset_ok list_env (ZSmall [([5], f64_zero)])" "zset_score (ZSmall [([5], f64_zero)]) = [[5] \<mapsto> f64_zero]"
    using zset_single_law [of list_env "[5]" f64_zero] by (simp_all add: zset_single_def)
  have same: "zset_score z = zset_score (ZSmall [([5], f64_zero)])" using z(3) small(2) by (rule trans [OF _ sym])
  from zset_representation [OF list_env_ok z(2) small(1) same, of _ False 0 "- 1" 0 False] z(2) same show ?thesis unfolding map by blast
qed

text \<open>
  C23: \<^verbatim>\<open>ZRANK\<close> and \<^verbatim>\<open>ZRANGE\<close> agree: the member at the rank of a member is that member, counted from either end.
\<close>

theorem rank_is_position:
  assumes "env_ok E" "zset_ok E z" "zset_rank E z m False = Some (Some r)"
  shows "zset_range E z (int r) (int r) = [Some m] \<and> zset_rank E z m True = Some (Some (zset_len z - 1 - r))"
proof -
  let ?es = "zset_entries E z"
  have r: "position (\<lambda>e. fst e = m) ?es = Some r" using assms by (simp add: zset_rank_law)
  then have at: "r < length ?es" "fst (?es ! r) = m" using position_Some [OF r] by auto
  have d: "distinct (map fst ?es)" using zset_entries_cases(1) [OF assms(2)] .
  have "zrange_spec ?es (int r) (int r) = [?es ! r]"
    using at(1) by (auto simp: zrange_spec_def normalize_range_def slice_def Let_def take_Suc_conv_app_nth hd_drop_conv_nth)
  moreover have "position (\<lambda>e. fst e = m) (rev ?es) = Some (length ?es - 1 - r)"
    using position_rev [OF d, of m] r by simp
  ultimately show ?thesis using assms(1,2) at zset_len_entries(2) [OF assms(1,2)] by (simp add: zset_range_law zset_rank_law)
qed

theorem rank_is_position_witness:
  "zset_rank list_env (ZSmall [([5], f64_zero)]) [5] False = Some (Some 0) \<and>
   zset_range list_env (ZSmall [([5], f64_zero)]) 0 0 = [Some [5]]"
proof -
  have z: "zset_ok list_env (ZSmall [([5], f64_zero)])" using zset_single_law [of list_env "[5]" f64_zero] by (simp add: zset_single_def)
  have r: "zset_rank list_env (ZSmall [([5], f64_zero)]) [5] False = Some (Some 0)" by simp
  from rank_is_position [OF list_env_ok z r] r show ?thesis by simp
qed

text \<open>
  C24: \<^verbatim>\<open>ZCOUNT\<close>, which looks the two bounds up by binary search in the tree, counts the entries whose score lies in the
  interval, for scores and bounds that are numbers.
\<close>

theorem count_by_score_correct:
  assumes "env_ok E" "zset_ok E z" "no_nan (zset_entries E z)" "\<not> f64_is_nan lo" "\<not> f64_is_nan hi"
  shows "zset_count_by_score E z lo lo_incl hi hi_incl =
    Some (length (filter (\<lambda>e. in_score_range lo lo_incl hi hi_incl (snd e)) (zset_entries E z)))"
  using assms by (rule zset_count_by_score_law)

theorem count_by_score_correct_witness:
  "zset_count_by_score list_env (ZSmall [([5], f64_zero)]) f64_zero True f64_zero True = Some 1"
proof -
  have z: "zset_ok list_env (ZSmall [([5], f64_zero)])" using zset_single_law [of list_env "[5]" f64_zero] by (simp add: zset_single_def)
  have "no_nan (zset_entries list_env (ZSmall [([5], f64_zero)]))" "\<not> f64_is_nan f64_zero" "in_score_range f64_zero True f64_zero True f64_zero"
    by code_simp+
  with count_by_score_correct [OF list_env_ok z, of f64_zero f64_zero True True] show ?thesis by simp
qed

text \<open>
  C25: \<^verbatim>\<open>ZADD\<close> with its conditions, \<^verbatim>\<open>ZADD INCR\<close> and \<^verbatim>\<open>ZINCRBY\<close>: a new member is added unless \<^verbatim>\<open>XX\<close> forbids it, an old one is updated unless
  \<^verbatim>\<open>NX\<close> forbids it, with \<^verbatim>\<open>GT\<close> only if the given number is above the old score and with \<^verbatim>\<open>LT\<close> only if it is below; the answer counts
  the new members, with \<^verbatim>\<open>CH\<close> also the changed ones, or is the score after an increment. An increment to NaN or infinity is refused and
  changes nothing, and other types are refused. (Also with \<^verbatim>\<open>INCR\<close> the given number is compared, not the score that would result:
  \<open>gt_compares_increment\<close>.)
\<close>

theorem zadd_cond_correct:
  "env_ok E \<Longrightarrow> refines E (zadd_cond E k s m nx xx gt lt ch incr) (spec_zadd_cond k s m nx xx gt lt ch incr) \<and>
   flag_exact k (spec_zadd_cond k s m nx xx gt lt ch incr)"
  by (simp add: zadd_cond.refine zadd_cond.flag)

lemma one_above_zero: "f64_lt f64_zero (F64 0x3FF0000000000000)" "\<not> f64_lt (F64 0x3FF0000000000000) f64_zero"
    "\<not> f64_is_nan f64_zero" "\<not> f64_is_nan (F64 0x3FF0000000000000)" "f64_zero \<noteq> F64 0x3FF0000000000000"
  by code_simp+

theorem zadd_cond_correct_witness:
  "\<exists>b b1 b2. bucket_inv list_env b \<and> a_obj (bucket_abs list_env b) [1] = Some (OZSet [[5] \<mapsto> f64_zero]) \<and>
     zadd_cond list_env [1] (F64 0x3FF0000000000000) [5] False False True False True False b = Some (Integer 1, False, b1) \<and>
     a_obj (bucket_abs list_env b1) [1] = Some (OZSet [[5] \<mapsto> F64 0x3FF0000000000000]) \<and>
     zadd_cond list_env [1] (F64 0x3FF0000000000000) [5] False False False True True False b = Some (Integer 0, False, b2) \<and>
     a_obj (bucket_abs list_env b2) [1] = Some (OZSet [[5] \<mapsto> f64_zero])"
proof -
  let ?one = "F64 0x3FF0000000000000"
  obtain b where b: "bucket_inv list_env b" "bucket_abs list_env b = a_put [1] (OZSet [[5] \<mapsto> f64_zero]) a_empty"
    using stored_zset [of "[1]" "[5]" f64_zero] by auto
  note spec = spec_zadd_cond_def zadd_at_def read_obj_def zadd_permits_def f64_unordered_def one_above_zero b(2)
  have "{x :: bytes. [[5] \<mapsto> ?one] x \<noteq> [[5] \<mapsto> f64_zero] x} = {[5]}" using one_above_zero(5) by auto
  then have "zadd_count True [[5] \<mapsto> f64_zero] [[5] \<mapsto> ?one] = 1" by (simp only: zadd_count_def if_True) simp
  then have "spec_zadd_cond [1] ?one [5] False False True False True False (bucket_abs list_env b) =
      (Integer 1, False, a_put [1] (OZSet [[5] \<mapsto> ?one]) (bucket_abs list_env b))" by (simp add: spec Let_def a_put_def)
  moreover have "spec_zadd_cond [1] ?one [5] False False False True True False (bucket_abs list_env b) = (Integer 0, False, bucket_abs list_env b)"
    by (simp add: spec Let_def a_put_def)
  moreover note ok = conjunct1 [OF zadd_cond_correct [OF list_env_ok]]
  ultimately obtain b1 b2 where "zadd_cond list_env [1] ?one [5] False False True False True False b = Some (Integer 1, False, b1)"
    "bucket_abs list_env b1 = a_put [1] (OZSet [[5] \<mapsto> ?one]) (bucket_abs list_env b)"
    "zadd_cond list_env [1] ?one [5] False False False True True False b = Some (Integer 0, False, b2)"
    "bucket_abs list_env b2 = bucket_abs list_env b" using refines_at [OF ok b(1)] by metis
  with b show ?thesis by (intro exI [of _ b] exI [of _ b1] exI [of _ b2]) (simp add: a_put_def)
qed

text \<open>
  C26: \<^verbatim>\<open>ZPOPMIN\<close> and \<^verbatim>\<open>ZPOPMAX\<close> remove the entries at the low or high end of the order, in order, and leave the others.
\<close>

theorem zpop_correct:
  assumes "env_ok E" "zset_ok E z"
  shows "\<exists>popped z'. zset_pop_extreme E z n hi_end = Some (popped, z') \<and> zset_ok E z' \<and>
    (if hi_end then rev popped = drop (zset_len z - n) (zset_entries E z) \<and> zset_entries E z' = take (zset_len z - n) (zset_entries E z)
     else popped = take n (zset_entries E z) \<and> zset_entries E z' = drop n (zset_entries E z))"
  using zset_pop_extreme_law [OF assms, of n hi_end] zset_len_entries(2) [OF assms]
  by (cases hi_end) (auto simp: popped_seq_def left_seq_def rev_take)

theorem zpop_correct_witness:
  "\<exists>z'. zset_pop_extreme list_env (ZSmall [([5], f64_zero)]) 3 True = Some ([([5], f64_zero)], z') \<and> zset_entries list_env z' = []"
proof -
  have z: "zset_ok list_env (ZSmall [([5], f64_zero)])" using zset_single_law [of list_env "[5]" f64_zero] by (simp add: zset_single_def)
  from zpop_correct [OF list_env_ok z, of 3 True] show ?thesis by (auto simp: rev_swap)
qed

section \<open>Hashes\<close>

text \<open>
  C27: A field that gets a deadline with \<^verbatim>\<open>HPEXPIREAT\<close> is answered by \<^verbatim>\<open>HGET\<close> until the deadline and never from then on, also when it
  was the last field of the hash.
\<close>

theorem field_until:
  assumes "env_ok E" "embedded_ok E mode n D" "a_ttl (embedded_abs E D) k = None" "a_live (embedded_abs E D) k now f = Some v" "now < t"
  shows "\<exists>D'. run E [(\<lparr>now_of = now, string_of = False, clock1 = now, clock2 = now\<rparr>, HashCommand (HashFieldExpire k [f] t CondNone)),
       (\<lparr>now_of = c, string_of = False, clock1 = c, clock2 = c\<rparr>, HashCommand (Hget k f))] D =
    Some ([IntegerArray [1], Bulk (if c < t then Some v else None)], D')"
proof -
  let ?A = "embedded_abs E D" and ?i = "\<lparr>now_of = now, string_of = False, clock1 = now, clock2 = now\<rparr>"
  let ?j = "\<lparr>now_of = c, string_of = False, clock1 = c, clock2 = c\<rparr>"
  let ?cs = "[(?i, HashCommand (HashFieldExpire k [f] t CondNone)), (?j, HashCommand (Hget k f))]"
  define m where "m = a_live ?A k now"
  define A1 where "A1 = a_purge k now ?A"
  have f: "m f = Some v" "m \<noteq> Map.empty" using assms(4) by (auto simp: m_def)
  obtain m0 where m0: "a_obj ?A k = Some (OHash m0)" using assms(4) by (auto simp: a_live_def split: option.splits robj.splits)
  have m: "m = m0 |` (- a_dead ?A k now)" by (simp add: m_def a_live_def m0)
  have A1: "a_obj A1 k = Some (OHash m)" "a_ttl A1 k = None" "a_live A1 k now = m" "a_purge k now A1 = A1"
    using assms(3) by (simp_all add: A1_def a_purge_def m0 m a_live_def a_dead_def a_hash_def a_at_def restrict_map_def fun_eq_iff)
  have clean: "a_clean k now ?A = (False, A1)"
    using assms(3) f(2) A1(1) by (simp add: a_clean_def a_expired_def a_reap_def A1_def [symmetric])
  have first: "spec_command ?i (HashCommand (HashFieldExpire k [f] t CondNone)) ?A =
      (IntegerArray [1], a_hash k m ((a_fttl A1 k)(f \<mapsto> t)) A1)"
    using f A1 assms(5)
    by (simp add: spec_access_def clean spec_hexpire_def on_live_def on_obj_def read_obj_def expire_permits_def hash_left_def Let_def)
  define B where "B = a_hash k m ((a_fttl A1 k)(f \<mapsto> t)) A1"
  have live: "a_live B k c f = (if c < t then Some v else None)"
    using f(1) by (simp add: B_def a_live_def a_dead_def restrict_map_def not_le)
  have "fst (spec_command ?j (HashCommand (Hget k f)) B) = Bulk (a_live B k c f)"
    using A1(2) by (cases "a_live B k c = Map.empty")
      (simp_all add: B_def spec_read_def a_tidy_def a_over_def a_expired_def read_live_def read_obj_def Let_def)
  then have second: "fst (spec_command ?j (HashCommand (Hget k f)) (a_hash k m ((a_fttl A1 k)(f \<mapsto> t)) A1)) =
      Bulk (if c < t then Some v else None)" unfolding live by (simp only: B_def)
  from first second have "fst (spec_run ?cs ?A) = [IntegerArray [1], Bulk (if c < t then Some v else None)]"
    by (simp add: split_def del: spec_command.simps)
  with run_from [OF assms(1,2), of ?cs] show ?thesis by auto
qed

theorem field_until_witness:
  "\<exists>D D'. embedded_ok list_env FullKey 4 D \<and>
     run list_env [(\<lparr>now_of = 20, string_of = False, clock1 = 20, clock2 = 20\<rparr>, HashCommand (HashFieldExpire [1] [[5]] 50 CondNone)),
       (\<lparr>now_of = 50, string_of = False, clock1 = 50, clock2 = 50\<rparr>, HashCommand (Hget [1] [5]))] D =
     Some ([IntegerArray [1], Bulk None], D')"
proof -
  obtain D where D: "embedded_ok list_env FullKey 4 D" "embedded_abs list_env D = a_put [1] (OHash [[5] \<mapsto> [7]]) a_empty"
    using store_hash [of "[([5], [7])]" "[1]"] by auto
  have "a_ttl (embedded_abs list_env D) [1] = None" "a_live (embedded_abs list_env D) [1] 20 [5] = Some [7]" "(20 :: u64) < 50"
    by (simp_all add: D(2) a_live_def a_dead_def a_put_def)
  from field_until [OF list_env_ok D(1) this, of 50] D(1) show ?thesis by auto
qed

text \<open>
  C28: \<^verbatim>\<open>HEXPIRE\<close> with its conditions on several fields: expired fields go first, each field gets its code, a
  deadline in the past deletes the field, and a hash without fields disappears, reported by the flag. A field without a TTL counts
  as living forever: \<^verbatim>\<open>NX\<close> wants such a field and \<^verbatim>\<open>XX\<close> one that has a TTL, \<^verbatim>\<open>GT\<close> only prolongs a life and \<^verbatim>\<open>LT\<close> only shortens it.
\<close>

theorem hexpire_correct:
  "env_ok E \<Longrightarrow> refines E (hash_field_expire E k fs at_ms cond now) (spec_hexpire k fs at_ms cond now) \<and>
   flag_exact k (spec_hexpire k fs at_ms cond now)"
  by (simp add: hexpire.refine hexpire.flag)

theorem hexpire_correct_witness:
  "\<exists>b b1 b2. bucket_inv list_env b \<and> a_obj (bucket_abs list_env b) [1] = Some (OHash [[5] \<mapsto> [7]]) \<and>
     hash_field_expire list_env [1] [[5], [6]] 10 CondLt 20 b = Some (IntegerArray [2, - 2], True, b1) \<and>
     a_obj (bucket_abs list_env b1) [1] = None \<and>
     hash_field_expire list_env [1] [[5], [6]] 10 CondGt 20 b = Some (IntegerArray [0, - 2], False, b2) \<and>
     a_obj (bucket_abs list_env b2) [1] = Some (OHash [[5] \<mapsto> [7]])"
proof -
  obtain b where b: "bucket_inv list_env b" "bucket_abs list_env b = a_put [1] (OHash [[5] \<mapsto> [7]]) a_empty"
    using stored_hash [of "[([5], [7])]" "[1]"] by auto
  note spec = b(2) spec_hexpire_def on_live_def on_obj_def read_obj_def a_purge_def a_live_def a_dead_def expire_permits_def lifetime_def
    hash_left_def a_put_def Let_def
  have "\<exists>A. spec_hexpire [1] [[5], [6]] 10 CondLt 20 (bucket_abs list_env b) = (IntegerArray [2, - 2], True, A) \<and> a_obj A [1] = None"
    by (simp add: spec restrict_map_def fun_eq_iff)
  moreover have "\<exists>A. spec_hexpire [1] [[5], [6]] 10 CondGt 20 (bucket_abs list_env b) = (IntegerArray [0, - 2], False, A) \<and>
      a_obj A [1] = Some (OHash [[5] \<mapsto> [7]])"
    by (simp add: spec)
  moreover note ok = conjunct1 [OF hexpire_correct [OF list_env_ok]]
  ultimately obtain b1 b2 where
    "hash_field_expire list_env [1] [[5], [6]] 10 CondLt 20 b = Some (IntegerArray [2, - 2], True, b1)" "a_obj (bucket_abs list_env b1) [1] = None"
    "hash_field_expire list_env [1] [[5], [6]] 10 CondGt 20 b = Some (IntegerArray [0, - 2], False, b2)"
    "a_obj (bucket_abs list_env b2) [1] = Some (OHash [[5] \<mapsto> [7]])" using refines_at [OF ok b(1)] by metis
  with b show ?thesis by (intro exI [of _ b] exI [of _ b1] exI [of _ b2]) (simp add: a_put_def)
qed

text \<open>
  C29: \<^verbatim>\<open>HINCRBY\<close> refuses a field that is not an integer and a sum that leaves the range of 64-bit integers without changing the
  field, and otherwise stores the decimal form of the sum and answers it.
\<close>

theorem hincrby_correct:
  "env_ok E \<Longrightarrow> refines E (hincrby E k f delta c1 c2) (\<lambda>A. spec_hincrby k f delta c2 (a_purge k c1 A)) \<and>
   flag_exact k (\<lambda>A. spec_hincrby k f delta c2 (a_purge k c1 A))"
  by (simp add: hincrby.refine hincrby.flag)

theorem hincrby_correct_witness:
  "\<exists>b b'. bucket_inv list_env b \<and> hincrby list_env [1] [5] 1 0 0 b = Some (Simple ''ERR increment or decrement would overflow'', False, b') \<and>
     a_obj (bucket_abs list_env b') [1] = Some (OHash [[5] \<mapsto> ascii ''9223372036854775807''])"
proof -
  obtain b where b: "bucket_inv list_env b"
    "bucket_abs list_env b = a_put [1] (OHash [[5] \<mapsto> ascii ''9223372036854775807'']) a_empty"
    using stored_hash [of "[([5], ascii ''9223372036854775807'')]" "[1]"] by auto
  have p: "parse_i64_bytes (ascii ''9223372036854775807'') = Inr (2 ^ 63 - 1)" "checked_add (2 ^ 63 - 1) 1 = None" by code_simp+
  have "a_purge [1] 0 (bucket_abs list_env b) = bucket_abs list_env b" by (rule a_purge_id) (simp add: b(2) a_dead_def a_put_def)
  then have "spec_hincrby [1] [5] 1 0 (a_purge [1] 0 (bucket_abs list_env b)) =
      (Simple ''ERR increment or decrement would overflow'', False, bucket_abs list_env b)"
    using p by (simp add: spec_hincrby_def spec_current_def read_obj_def b(2))
  from refines_at [OF conjunct1 [OF hincrby_correct [OF list_env_ok]] b(1) this] b show ?thesis by auto
qed

lemma stored_hash_finite:
  assumes "env_ok E" "bucket_inv E b" "a_obj (bucket_abs E b) k = Some (OHash m)"
  shows "finite (dom m)"
  using assms(1,2)
proof (cases rule: hash_kind.lookup [where k = k])
  case hit
  with assms(3) finite_hash show ?thesis by auto
qed (use assms(3) in auto)

text \<open>
  \<^verbatim>\<open>HGETALL\<close> lists the live fields with their values, sorted by field, in the inline and in the map form; expired fields are
  never shown, whether or not they have been removed yet.
\<close>

lemma hgetall_live:
  assumes "env_ok E" "bucket_inv E b" "a_obj (bucket_abs E b) k = Some (OHash m)"
  shows "\<exists>fs. hgetall E k now b = Some (Array (concat (map (\<lambda>f. [Some f, m f]) fs))) \<and> sorted fs \<and> distinct fs \<and>
    set fs = {f \<in> dom m. \<forall>t. a_fttl (bucket_abs E b) k f = Some t \<longrightarrow> now < t}"
proof -
  let ?l = "a_live (bucket_abs E b) k now"
  have l: "dom ?l = {f \<in> dom m. \<forall>t. a_fttl (bucket_abs E b) k f = Some t \<longrightarrow> now < t}" and same: "\<And>f. f \<in> dom ?l \<Longrightarrow> ?l f = m f"
    using assms(3) by (auto simp: a_live_def a_dead_def restrict_map_def not_le split: if_splits)
  have fin: "finite (dom ?l)" using l stored_hash_finite [OF assms] by simp
  have "hgetall E k now b = Some (Array (concat (map (\<lambda>f. [Some f, m f]) (sorted_list_of_set (dom ?l)))))"
    using readsD [OF hgetall_reads [OF assms(1)] assms(2)] assms(3) fin
    by (auto simp: read_live_def read_obj_def live_entries_def o_def same [symmetric] domI intro!: arg_cong [of _ _ concat] map_cong)
  with l fin show ?thesis by (intro exI [of _ "sorted_list_of_set (dom ?l)"]) simp
qed

text \<open>
  C30: The hash object is a map from fields to values in the inline and in the map form and across the promotion: insertion and
  removal change one field and answer whether it was there.
\<close>

theorem hash_object_map:
  assumes "hash_ok h"
  shows "(\<exists>h'. hash_insert_slice h f v = (hash_get h f = None, h') \<and> hash_ok h' \<and> hash_get h' = (hash_get h)(f \<mapsto> v)) \<and>
    (\<exists>h'. hash_remove h f = (hash_get h f, h') \<and> hash_ok h' \<and> hash_get h' = (hash_get h)(f := None)) \<and>
    hash_len h = card (dom (hash_get h))"
  using hash_insert_law [OF assms] hash_remove_law [OF assms] hash_len_card [OF assms] by blast

theorem hash_object_map_witness:
  "\<exists>h'. hash_ok (hash_single [5] [7]) \<and> hash_insert_slice (hash_single [5] [7]) [6] [8] = (True, h') \<and>
     hash_get h' = [[5] \<mapsto> [7], [6] \<mapsto> [8]]"
proof -
  have h: "hash_ok (hash_single [5] [7])" "hash_get (hash_single [5] [7]) = [[5] \<mapsto> [7]]"
    using hash_single_law [of "[5]" "[7]"] by simp_all
  from hash_object_map [OF h(1), of "[6]" "[8]"] h show ?thesis by auto
qed

section \<open>Tables\<close>

text \<open>
  C31: The slot map of a bucket with its slab is a finite map: a new key gets a free slot, its value and nothing else is added; removing
  a key frees its slot and changes no other key, so that slots are reused safely.
\<close>

theorem table_map:
  assumes "env_ok E" "table_ok E t s"
  shows "(tbl E t s k = None \<longrightarrow> (\<exists>i s'. slab_insert s v = Some (i, s') \<and>
       table_ok E (snd (sm_insert_hashed E t (hash_key E k) k i)) s' \<and>
       tbl E (snd (sm_insert_hashed E t (hash_key E k) k i)) s' = (tbl E t s)(k \<mapsto> v))) \<and>
    (\<forall>i. sm_map E t k = Some i \<longrightarrow> table_ok E (snd (sm_remove E t k)) (snd (slab_remove s i)) \<and>
       tbl E (snd (sm_remove E t k)) (snd (slab_remove s i)) = (tbl E t s)(k := None))"
  using tbl_create [OF assms, of k v] tbl_delete [OF assms, of k] by metis

theorem table_map_witness:
  "\<exists>i s'. table_ok list_env (hashes (bucket_default list_env)) (hash_slab (bucket_default list_env)) \<and>
     slab_insert (hash_slab (bucket_default list_env)) (hash_single [5] [7]) = Some (i, s') \<and>
     tbl list_env (snd (sm_insert_hashed list_env (hashes (bucket_default list_env)) (hash_key list_env [1]) [1] i)) s' [1] =
       Some (hash_single [5] [7])"
proof -
  let ?b = "bucket_default list_env"
  have t: "table_ok list_env (hashes ?b) (hash_slab ?b)" using bucket_invD(1) [OF empty_bucket(1)] .
  have "tbl list_env (hashes ?b) (hash_slab ?b) [1] = None" by (simp add: bucket_default_def tbl_new [OF list_env_ok])
  with table_map [OF list_env_ok t, of "[1]" "hash_single [5] [7]"] t show ?thesis by auto
qed

section \<open>Errors\<close>

text \<open>
  C32: Object commands never touch a key that holds a string: a write to such a key without a live object answers \<^verbatim>\<open>WRONGTYPE\<close>
  whatever the operation, and at most the expired object at the key is removed.
\<close>

theorem string_protected:
  assumes "env_ok E" "embedded_ok E mode n D" "a_obj (snd (a_clean k now (embedded_abs E D))) k = None"
  shows "\<exists>D'. object_write E k now True op D = Some (WrongType, D') \<and> embedded_ok E mode n D' \<and>
    embedded_abs E D' = snd (a_clean k now (embedded_abs E D))"
proof -
  let ?h = "home E mode n" and ?A = "embedded_abs E D"
  have S: "store_inv E ?h (objects D)" using assms(2) by (simp add: embedded_ok_def)
  note rt = embedded_route(2) [OF assms(2), of k]
  from reap_at_law [OF assms(1) S embedded_route(1) [OF assms(2)] rt, of now] obtain b S' where
    S': "reap_at E (route_key E D k) k now (objects D) = Some (b, S')" "store_inv E ?h S'"
      "length (shards S') = length (shards (objects D))" "bucket_of E ?h S' k = b" "bucket_inv E b"
      "bucket_abs E b = snd (a_clean k now (bucket_abs E (bucket_of E ?h (objects D) k)))"
      "same_but k (store_abs E ?h (objects D)) (store_abs E ?h S')" by blast
  let ?D = "D\<lparr>objects := S'\<rparr>"
  have D': "embedded_ok E mode n ?D" using assms(2) S' by (simp add: embedded_ok_def)
  have at: "eq_at k (bucket_abs E b) (snd (a_clean k now ?A))"
    unfolding S'(6) by (rule eq_at_clean) (simp add: eq_at_store embedded_route(4) [OF assms(2)])
  have "embedded_abs E ?D = snd (a_clean k now ?A)"
  proof (rule astate_eqI)
    show "same_but k ?A (embedded_abs E ?D)" using S'(7) by (simp add: embedded_route(4) [OF assms(2)] embedded_route(4) [OF D'])
    show "same_but k ?A (snd (a_clean k now ?A))" by (auto simp: a_clean_def same_but_reap intro: same_but_intros)
    show "eq_at k (embedded_abs E ?D) (snd (a_clean k now ?A))"
      using at eq_at_store [of k E ?h S'] by (simp add: embedded_route(4) [OF D'] S'(4) eq_at_def)
  qed
  moreover have "\<not> contains_object E b k" using type_tests(1) [OF assms(1) S'(5)] at assms(3) by (simp add: eq_at_def)
  ultimately show ?thesis using S'(1) D' by (simp add: object_write_def object_write_routed_def with_objects_def)
qed

theorem string_protected_witness:
  "\<exists>D D'. embedded_ok list_env FullKey 4 D \<and> object_write list_env [2] 0 True (srem list_env [2] [[5]]) D = Some (WrongType, D') \<and>
     embedded_abs list_env D' = embedded_abs list_env D"
proof -
  obtain D where D: "embedded_ok list_env FullKey 4 D" "embedded_abs list_env D = a_put [1] (OList [[7]]) a_empty"
    using store_list [of "[[7]]" "[1]"] by auto
  have "a_clean [2] 0 (embedded_abs list_env D) = (False, embedded_abs list_env D)" "a_obj (embedded_abs list_env D) [2] = None"
    by (simp_all add: D(2) a_clean_def a_expired_def a_reap_def a_purge_def a_put_def)
  with string_protected [OF list_env_ok D(1), of "[2]" 0 "srem list_env [2] [[5]]"] D(1) show ?thesis by auto
qed

text \<open>
  A store can be created exactly when the shard count is a power of two; otherwise the constructor panics on its assertion.
\<close>

lemma shard_count_checked:
  "(\<exists>D. embedded_new E shard_count mode = Some D) \<longleftrightarrow> (\<exists>n. shard_count = 2 ^ n)"
  by (auto simp: embedded_new_def assert_valid_shard_count_def power_of_two split: if_splits)

text \<open>
  \<^verbatim>\<open>visit_keys\<close> calls the visitor on the live keys one after the other and stops at the first one for which it returns false; the
  answer tells whether it went through.
\<close>

lemma visit_stops:
  assumes "env_ok E" "embedded_ok E mode n D"
  shows "\<exists>ks. distinct ks \<and> set ks = {k. key_live (embedded_abs E D) now k} \<and>
    store_visit_keys E now (\<lambda>seen k. (P k, seen @ [k])) [] (objects D) =
      Some (\<forall>k\<in>set ks. P k, takeWhile P ks @ take 1 (dropWhile P ks))"
proof -
  let ?ks = "store_live_keys E now (objects D)"
  have "visit_key_iter (\<lambda>seen k. (P k, seen @ [k])) ks seen = (\<forall>k\<in>set ks. P k, seen @ takeWhile P ks @ take 1 (dropWhile P ks))" for ks seen
    by (induction ks arbitrary: seen) auto
  moreover have "store_inv E (home E mode n) (objects D)" using assms(2) by (simp add: embedded_ok_def)
  ultimately have "store_visit_keys E now (\<lambda>seen k. (P k, seen @ [k])) [] (objects D) =
      Some (\<forall>k\<in>set ?ks. P k, takeWhile P ?ks @ take 1 (dropWhile P ?ks))"
    by (simp add: store_visit_keys_law [OF assms(1)])
  with embedded_live_keys [OF assms] show ?thesis by (intro exI [of _ ?ks]) simp
qed

end
